(* ===== verification/Prelude.thy ===== *)
theory Prelude
  imports Complex_Main "HOL-Library.Word" "HOL-Library.Sublist" "HOL-Library.List_Lexorder"
begin

text \<open>
  Shared vocabulary of the development: Python strings and bytes, exceptions as values, the
  result monad of pure code, and the state-and-exception monad of the code that changes the
  world, with the rules the component proofs use.

  A Python \<open>str\<close> is a list of code points (\<open>int\<close>, as \<open>ord\<close> returns them), so slicing, comparison and
  \<open>len\<close> mean what they mean in Python; a \<open>bytes\<close> value is a list of 8-bit words. An ASCII
  literal of the source is written \<open>lit ''abc''\<close>.
\<close>

named_theorems res_simps \<open>equations of the result monad\<close>
named_theorems hoare_rules \<open>rules of the triple \<open>hoare\<close>\<close>

section \<open>Strings and bytes\<close>

type_synonym str = "int list"
type_synonym byte = "8 word"
type_synonym bytes = "byte list"

definition lit :: "string \<Rightarrow> str" where
  "lit s = map of_char s"

abbreviation slash :: int where "slash \<equiv> 47"
abbreviation dash :: int where "dash \<equiv> 45"

definition startswith :: "str \<Rightarrow> str \<Rightarrow> bool" where
  "startswith s p = prefix p s"

definition endswith :: "str \<Rightarrow> str \<Rightarrow> bool" where
  "endswith s p = suffix p s"

text \<open>\<open>str.split(c)\<close> with a one-character separator, and \<open>c.join(parts)\<close>.\<close>

fun split_on :: "'a \<Rightarrow> 'a list \<Rightarrow> 'a list list" where
  "split_on c [] = [[]]"
| "split_on c (x # xs) =
     (if x = c then [] # split_on c xs
      else (case split_on c xs of [] \<Rightarrow> [[x]] | y # ys \<Rightarrow> (x # y) # ys))"

fun join_with :: "'a \<Rightarrow> 'a list list \<Rightarrow> 'a list" where
  "join_with c [] = []"
| "join_with c [x] = x"
| "join_with c (x # y # ys) = x @ c # join_with c (y # ys)"

text \<open>\<open>str.strip()\<close>: the code points for which \<open>str.isspace\<close> holds.\<close>

definition is_space :: "int \<Rightarrow> bool" where
  "is_space c = (9 \<le> c \<and> c \<le> 13 \<or> 28 \<le> c \<and> c \<le> 32 \<or> c = 133 \<or> c = 160 \<or> c = 5760
     \<or> 8192 \<le> c \<and> c \<le> 8202 \<or> c = 8232 \<or> c = 8233 \<or> c = 8239 \<or> c = 8287 \<or> c = 12288)"

definition rstrip_by :: "('a \<Rightarrow> bool) \<Rightarrow> 'a list \<Rightarrow> 'a list" where
  "rstrip_by f s = rev (dropWhile f (rev s))"

definition strip_by :: "('a \<Rightarrow> bool) \<Rightarrow> 'a list \<Rightarrow> 'a list" where
  "strip_by f s = rstrip_by f (dropWhile f s)"

definition strip :: "str \<Rightarrow> str" where
  "strip s = strip_by is_space s"

section \<open>Exceptions\<close>

text \<open>
  One constructor per exception class the code raises or catches. The argument is the message
  with its interpolated parts left out; the interpolated text is never inspected by the code.
\<close>

datatype exn =
    ValueError string
  | ValidationError string
  | UnicodeError string
  | ContentHashMismatchError string
  | CatalogConflictError string
  | CatalogBindingConflictError string
  | EnrollmentConsumedError string
  | MachineCredentialLifecycleError string
  | KeyError string
  | PermissionError string
  | PrefixAuthorizationError string
  | MachineCredentialNotCurrentError string
  | FileNotFoundError string
  | FileExistsError string
  | NotADirectoryError string
  | IsADirectoryError string
  | OSError string
  | IntegrityError string
  | RuntimeError string
  | TimeoutError string
  | AssertionError string
  | AttributeError string
  | OverflowError string
  | TypeError string
  | JSONDecodeError string
  | HTTPException nat string
  | CtxdError "nat option" string
  | CtxdProtocolError string
  | CtxdIncompleteSearchError string
  | CtxdAuthError string

text \<open>\<open>except ValueError\<close>, \<open>except PermissionError\<close>, \<open>except OSError\<close>: the class and its subclasses.\<close>

fun is_ValueError :: "exn \<Rightarrow> bool" where
  "is_ValueError (ValueError _) = True"
| "is_ValueError (ValidationError _) = True"
| "is_ValueError (UnicodeError _) = True"
| "is_ValueError (ContentHashMismatchError _) = True"
| "is_ValueError (CatalogConflictError _) = True"
| "is_ValueError (CatalogBindingConflictError _) = True"
| "is_ValueError (EnrollmentConsumedError _) = True"
| "is_ValueError (MachineCredentialLifecycleError _) = True"
| "is_ValueError (JSONDecodeError _) = True"
| "is_ValueError _ = False"

fun is_PermissionError :: "exn \<Rightarrow> bool" where
  "is_PermissionError (PermissionError _) = True"
| "is_PermissionError (PrefixAuthorizationError _) = True"
| "is_PermissionError (MachineCredentialNotCurrentError _) = True"
| "is_PermissionError _ = False"

fun is_OSError :: "exn \<Rightarrow> bool" where
  "is_OSError (FileNotFoundError _) = True"
| "is_OSError (FileExistsError _) = True"
| "is_OSError (NotADirectoryError _) = True"
| "is_OSError (IsADirectoryError _) = True"
| "is_OSError (OSError _) = True"
| "is_OSError (TimeoutError _) = True"
| "is_OSError e = is_PermissionError e"

lemma find_unique:
  assumes "x \<in> set xs" "P x" "\<And>y. y \<in> set xs \<Longrightarrow> P y \<Longrightarrow> y = x"
  shows "List.find P xs = Some x"
proof (cases "List.find P xs")
  case None
  then show ?thesis using assms(1,2) by (auto simp: find_None_iff)
next
  case (Some y)
  then have "y \<in> set xs" "P y" by (auto simp: find_Some_iff)
  then show ?thesis using Some assms(3) by simp
qed

section \<open>The result monad\<close>

type_synonym 'a res = "exn + 'a"

definition bindE :: "'e + 'a \<Rightarrow> ('a \<Rightarrow> 'e + 'b) \<Rightarrow> 'e + 'b" where
  "bindE m f = (case m of Inl e \<Rightarrow> Inl e | Inr x \<Rightarrow> f x)"

lemma map_sum_Inr: "map_sum f g x = Inr y \<longleftrightarrow> (\<exists>z. x = Inr z \<and> g z = y)"
  by (cases x) auto

definition guardE :: "bool \<Rightarrow> 'e \<Rightarrow> 'e + unit" where
  "guardE c e = (if c then Inr () else Inl e)"

text \<open>\<open>[f(x) for x in xs]\<close> where \<open>f\<close> may raise: the first exception wins.\<close>

fun mapE :: "('a \<Rightarrow> 'e + 'b) \<Rightarrow> 'a list \<Rightarrow> 'e + 'b list" where
  "mapE f [] = Inr []"
| "mapE f (x # xs) = bindE (f x) (\<lambda>y. bindE (mapE f xs) (\<lambda>ys. Inr (y # ys)))"

text \<open>\<open>any(f(x) for x in xs)\<close> where \<open>f\<close> may raise.\<close>

fun anyE :: "('a \<Rightarrow> 'e + bool) \<Rightarrow> 'a list \<Rightarrow> 'e + bool" where
  "anyE f [] = Inr False"
| "anyE f (x # xs) = bindE (f x) (\<lambda>b. if b then Inr True else anyE f xs)"

text \<open>\<open>[x for x in xs if f(x)]\<close> where \<open>f\<close> may raise.\<close>

fun filterE :: "('a \<Rightarrow> 'e + bool) \<Rightarrow> 'a list \<Rightarrow> 'e + 'a list" where
  "filterE f [] = Inr []"
| "filterE f (x # xs) =
     bindE (f x) (\<lambda>b. bindE (filterE f xs) (\<lambda>ys. Inr (if b then x # ys else ys)))"

lemma bindE_simps [simp, res_simps]:
  "bindE (Inl e) f = Inl e" "bindE (Inr x) f = f x"
  by (simp_all add: bindE_def)

lemma bindE_Inr_iff [simp, res_simps]:
  "bindE m f = Inr y \<longleftrightarrow> (\<exists>x. m = Inr x \<and> f x = Inr y)"
  by (cases m) auto

lemma bindE_Inl_iff:
  "bindE m f = Inl e \<longleftrightarrow> m = Inl e \<or> (\<exists>x. m = Inr x \<and> f x = Inl e)"
  by (cases m) auto

lemma if_Inl_iff [simp, res_simps]:
  "(if c then Inl e else r) = Inr y \<longleftrightarrow> \<not> c \<and> r = Inr y"
  "(if c then r else Inl e) = Inr y \<longleftrightarrow> c \<and> r = Inr y"
  by auto

lemma guardE_simps [simp, res_simps]:
  "guardE True e = Inr ()" "guardE False e = Inl e"
  "guardE c e = Inr u \<longleftrightarrow> c" "guardE c e = Inl e' \<longleftrightarrow> \<not> c \<and> e' = e"
  by (auto simp: guardE_def)

lemma mapE_Inr_length: "mapE f xs = Inr ys \<Longrightarrow> length ys = length xs"
  by (induction xs arbitrary: ys) auto

lemma mapE_Inr_nth:
  "mapE f xs = Inr ys \<Longrightarrow> i < length xs \<Longrightarrow> f (xs ! i) = Inr (ys ! i)"
  by (induction xs arbitrary: ys i) (auto simp: less_Suc_eq_0_disj)

lemma mapE_total: "(\<And>x. x \<in> set xs \<Longrightarrow> f x = Inr (g x)) \<Longrightarrow> mapE f xs = Inr (map g xs)"
  by (induction xs) auto

lemma anyE_total: "(\<And>x. x \<in> set xs \<Longrightarrow> f x = Inr (g x)) \<Longrightarrow> anyE f xs = Inr (list_ex g xs)"
  by (induction xs) auto

lemma filterE_total: "(\<And>x. x \<in> set xs \<Longrightarrow> f x = Inr (g x)) \<Longrightarrow> filterE f xs = Inr (filter g xs)"
  by (induction xs) auto

lemma filterE_Inr_subset: "filterE f xs = Inr ys \<Longrightarrow> set ys \<subseteq> set xs"
  by (induction xs arbitrary: ys) (auto split: if_splits)

lemma filterE_Inr:
  "filterE f xs = Inr ys \<Longrightarrow> ys = filter (\<lambda>x. f x = Inr True) xs \<and> (\<forall>x \<in> set xs. \<exists>b. f x = Inr b)"
proof (induction xs arbitrary: ys)
  case (Cons x xs)
  then obtain b zs where "f x = Inr b" "filterE f xs = Inr zs" "ys = (if b then x # zs else zs)" by auto
  with Cons.IH [of zs] show ?case by (cases b) auto
qed simp

section \<open>State and exceptions\<close>

text \<open>
  Code that changes the world: a function from the world to a result and the world after it.
  An exception keeps the changes made before it was raised, as Python does; undoing them is
  the code's own business (transactions, undo stacks).
\<close>

type_synonym ('s, 'a) act = "'s \<Rightarrow> 'a res \<times> 's"

definition ret :: "'a \<Rightarrow> ('s, 'a) act" where
  "ret x w = (Inr x, w)"

definition raise :: "exn \<Rightarrow> ('s, 'a) act" where
  "raise e w = (Inl e, w)"

definition bindS :: "('s, 'a) act \<Rightarrow> ('a \<Rightarrow> ('s, 'b) act) \<Rightarrow> ('s, 'b) act" where
  "bindS m f w = (case m w of (Inl e, w') \<Rightarrow> (Inl e, w') | (Inr x, w') \<Rightarrow> f x w')"

definition liftE :: "'a res \<Rightarrow> ('s, 'a) act" where
  "liftE r w = (r, w)"

definition gets :: "('s \<Rightarrow> 'a) \<Rightarrow> ('s, 'a) act" where
  "gets f w = (Inr (f w), w)"

definition modify :: "('s \<Rightarrow> 's) \<Rightarrow> ('s, unit) act" where
  "modify f w = (Inr (), f w)"

fun forS :: "'a list \<Rightarrow> ('a \<Rightarrow> ('s, unit) act) \<Rightarrow> ('s, unit) act" where
  "forS [] f = ret ()"
| "forS (x # xs) f = bindS (f x) (\<lambda>_. forS xs f)"

fun mapS :: "('a \<Rightarrow> ('s, 'b) act) \<Rightarrow> 'a list \<Rightarrow> ('s, 'b list) act" where
  "mapS f [] = ret []"
| "mapS f (x # xs) = bindS (f x) (\<lambda>y. bindS (mapS f xs) (\<lambda>ys. ret (y # ys)))"

text \<open>\<open>try: m; except Exception as e: h(e)\<close>.\<close>

definition catchS :: "('s, 'a) act \<Rightarrow> (exn \<Rightarrow> ('s, 'a) act) \<Rightarrow> ('s, 'a) act" where
  "catchS m h w = (case m w of (Inl e, w') \<Rightarrow> h e w' | (Inr x, w') \<Rightarrow> (Inr x, w'))"

lemma act_simps:
  "ret x w = (Inr x, w)" "raise e w = (Inl e, w)" "liftE r w = (r, w)"
  "gets f w = (Inr (f w), w)" "modify g w = (Inr (), g w)"
  by (simp_all add: ret_def raise_def liftE_def gets_def modify_def)

lemma bindS_Inr_iff:
  "bindS m f w = (Inr y, w') \<longleftrightarrow> (\<exists>x w1. m w = (Inr x, w1) \<and> f x w1 = (Inr y, w'))"
  by (auto simp: bindS_def split: prod.splits sum.splits)

lemma bindS_Inl_iff:
  "bindS m f w = (Inl e, w') \<longleftrightarrow>
     m w = (Inl e, w') \<or> (\<exists>x w1. m w = (Inr x, w1) \<and> f x w1 = (Inl e, w'))"
  by (auto simp: bindS_def split: prod.splits sum.splits)

lemma bindS_assoc: "bindS (bindS m f) g = bindS m (\<lambda>x. bindS (f x) g)"
  by (auto simp: bindS_def fun_eq_iff split: prod.splits sum.splits)

lemma bindS_simps [simp]:
  "bindS (ret x) f = f x" "bindS (raise e) f = raise e"
  "bindS (liftE (Inr x)) f = f x" "bindS (liftE (Inl e)) f = raise e"
  by (simp_all add: bindS_def act_simps fun_eq_iff)

lemma bindS_gets_modify:
  "bindS (gets g) h w = h (g w) w" "bindS (modify u) k w = k () (u w)"
  by (simp_all add: bindS_def act_simps)

lemmas run_simps = act_simps bindS_gets_modify bindS_def catchS_def

text \<open>
  \<open>hoare P m Q R\<close>: from a world in \<open>P\<close>, \<open>m\<close> returns \<open>x\<close> in a world in \<open>Q x\<close> or raises in a
  world in \<open>R\<close>.
\<close>

definition hoare ::
  "('s \<Rightarrow> bool) \<Rightarrow> ('s, 'a) act \<Rightarrow> ('a \<Rightarrow> 's \<Rightarrow> bool) \<Rightarrow> (exn \<Rightarrow> 's \<Rightarrow> bool) \<Rightarrow> bool" where
  "hoare P m Q R \<longleftrightarrow>
     (\<forall>w r w'. P w \<longrightarrow> m w = (r, w') \<longrightarrow> (case r of Inl e \<Rightarrow> R e w' | Inr x \<Rightarrow> Q x w'))"

lemma hoareI:
  assumes "\<And>w x w'. P w \<Longrightarrow> m w = (Inr x, w') \<Longrightarrow> Q x w'"
    and "\<And>w e w'. P w \<Longrightarrow> m w = (Inl e, w') \<Longrightarrow> R e w'"
  shows "hoare P m Q R"
  using assms by (auto simp: hoare_def split: sum.splits)

lemma hoare_InrD: "hoare P m Q R \<Longrightarrow> P w \<Longrightarrow> m w = (Inr x, w') \<Longrightarrow> Q x w'"
  by (force simp: hoare_def)

lemma hoare_InlD: "hoare P m Q R \<Longrightarrow> P w \<Longrightarrow> m w = (Inl e, w') \<Longrightarrow> R e w'"
  by (force simp: hoare_def)

lemma hoare_bindS [hoare_rules]:
  assumes "hoare P m Q R" and "\<And>x. hoare (Q x) (f x) Q' R"
  shows "hoare P (bindS m f) Q' R"
proof (rule hoareI)
  fix w y w' assume "P w" "bindS m f w = (Inr y, w')"
  then show "Q' y w'" using assms by (auto simp: bindS_Inr_iff dest: hoare_InrD)
next
  fix w e w' assume "P w" "bindS m f w = (Inl e, w')"
  then show "R e w'" using assms by (auto simp: bindS_Inl_iff dest: hoare_InrD hoare_InlD)
qed

lemma hoare_weaken:
  assumes "hoare P m Q R" and "\<And>w. P' w \<Longrightarrow> P w"
    and "\<And>x w. Q x w \<Longrightarrow> Q' x w" and "\<And>e w. R e w \<Longrightarrow> R' e w"
  shows "hoare P' m Q' R'"
  using assms unfolding hoare_def by (fastforce split: sum.splits)

lemma hoare_ret [hoare_rules]: "(\<And>w. P w \<Longrightarrow> Q x w) \<Longrightarrow> hoare P (ret x) Q R"
  by (auto intro!: hoareI simp: act_simps)

lemma hoare_raise [hoare_rules]: "(\<And>w. P w \<Longrightarrow> R e w) \<Longrightarrow> hoare P (raise e) Q R"
  by (auto intro!: hoareI simp: act_simps)

lemma hoare_liftE [hoare_rules]:
  assumes "\<And>w x. P w \<Longrightarrow> r = Inr x \<Longrightarrow> Q x w" and "\<And>w e. P w \<Longrightarrow> r = Inl e \<Longrightarrow> R e w"
  shows "hoare P (liftE r) Q R"
  using assms by (auto intro!: hoareI simp: act_simps)

lemma hoare_gets [hoare_rules]: "(\<And>w. P w \<Longrightarrow> Q (f w) w) \<Longrightarrow> hoare P (gets f) Q R"
  by (auto intro!: hoareI simp: act_simps)

lemma hoare_modify [hoare_rules]: "(\<And>w. P w \<Longrightarrow> Q () (f w)) \<Longrightarrow> hoare P (modify f) Q R"
  by (auto intro!: hoareI simp: act_simps)

lemma hoare_if [hoare_rules]:
  assumes "c \<Longrightarrow> hoare P m Q R" and "\<not> c \<Longrightarrow> hoare P n Q R"
  shows "hoare P (if c then m else n) Q R"
  using assms by simp

lemma hoare_forS:
  assumes "\<And>x. x \<in> set xs \<Longrightarrow> hoare P (f x) (\<lambda>_. P) R"
  shows "hoare P (forS xs f) (\<lambda>_. P) R"
  using assms
proof (induction xs)
  case Nil
  then show ?case by (auto intro: hoare_ret)
next
  case (Cons x xs)
  then show ?case by (auto intro!: hoare_bindS [where Q = "\<lambda>_. P"])
qed

section \<open>Lists\<close>

lemma split_on_not_Nil [simp]: "split_on c xs \<noteq> []"
  by (induction xs) (auto split: list.splits)

lemma join_split [simp]: "join_with c (split_on c xs) = xs"
proof (induction xs)
  case (Cons x xs)
  then show ?case by (cases "split_on c xs"; cases "tl (split_on c xs)") auto
qed simp

lemma split_on_no_sep: "p \<in> set (split_on c xs) \<Longrightarrow> c \<notin> set p"
  by (induction xs arbitrary: p) (auto split: if_splits list.splits)

lemma split_on_id: "c \<notin> set p \<Longrightarrow> split_on c p = [p]"
  by (induction p) auto

lemma split_on_append: "c \<notin> set p \<Longrightarrow> split_on c (p @ c # xs) = p # split_on c xs"
  by (induction p) auto

lemma split_join:
  "ps \<noteq> [] \<Longrightarrow> (\<And>p. p \<in> set ps \<Longrightarrow> c \<notin> set p) \<Longrightarrow> split_on c (join_with c ps) = ps"
  by (induction c ps rule: join_with.induct) (auto simp: split_on_append split_on_id)

lemma join_with_inj:
  assumes "ps \<noteq> []" "qs \<noteq> []" "\<And>p. p \<in> set ps \<union> set qs \<Longrightarrow> c \<notin> set p"
    and "join_with c ps = join_with c qs"
  shows "ps = qs"
  using assms split_join [of ps c] split_join [of qs c] by (metis UnCI)

lemma join_with_append:
  "ps \<noteq> [] \<Longrightarrow> qs \<noteq> [] \<Longrightarrow> join_with c (ps @ qs) = join_with c ps @ c # join_with c qs"
proof (induction c ps rule: join_with.induct)
  case (2 c x)
  then show ?case by (cases qs) auto
qed auto

lemma set_join_with: "set (join_with c ps) \<subseteq> insert c (\<Union> (set ` set ps))"
  by (induction c ps rule: join_with.induct) auto

lemma set_rstrip_by: "set (rstrip_by f s) \<subseteq> set s"
  by (auto simp: rstrip_by_def dest: set_dropWhileD)

lemma set_strip_by: "set (strip_by f s) \<subseteq> set s"
  using set_rstrip_by [of f "dropWhile f s"] by (auto simp: strip_by_def dest: set_dropWhileD)

lemma dropWhile_idem [simp]: "dropWhile f (dropWhile f xs) = dropWhile f xs"
  by (induction xs) auto

lemma rstrip_by_idem [simp]: "rstrip_by f (rstrip_by f s) = rstrip_by f s"
  by (simp add: rstrip_by_def)

lemma rstrip_by_Cons: "rstrip_by f (x # xs) = (if f x \<and> rstrip_by f xs = [] then [] else x # rstrip_by f xs)"
  by (auto simp: rstrip_by_def dropWhile_append dropWhile_eq_Nil_conv)

lemma strip_by_idem [simp]: "strip_by f (strip_by f s) = strip_by f s"
proof -
  have "dropWhile f (rstrip_by f (dropWhile f s)) = rstrip_by f (dropWhile f s)"
  proof (cases "dropWhile f s")
    case (Cons x xs)
    then have "\<not> f x" by (metis dropWhile_eq_Cons_conv)
    with Cons show ?thesis by (simp add: rstrip_by_Cons)
  next
    case Nil
    show ?thesis unfolding Nil by (simp add: rstrip_by_def)
  qed
  then show ?thesis unfolding strip_by_def by simp
qed

lemma strip_idem [simp]: "strip (strip s) = strip s"
  by (simp add: strip_def)

lemma set_strip: "set (strip s) \<subseteq> set s"
  by (simp add: strip_def set_strip_by)

end
