(* ===== verification/PyText.thy ===== *)
theory PyText
  imports Prelude
begin

text \<open>
  Text and byte conversions of \<open>src/ctxfs/store.py\<close>: line-ending normalisation, line counts,
  UTF-8 truncation, and the hexadecimal names of tree components, over the parts of Python's
  \<open>str\<close> and \<open>bytes\<close> they use (\<open>encode\<close>, \<open>decode\<close>, \<open>splitlines\<close>, \<open>hex\<close>, \<open>fromhex\<close>).
\<close>

section \<open>UTF-8\<close>

definition surrogate :: "int \<Rightarrow> bool" where
  "surrogate c = (0xD800 \<le> c \<and> c \<le> 0xDFFF)"

definition scalar :: "int \<Rightarrow> bool" where
  "scalar c = (0 \<le> c \<and> c < 0x110000 \<and> \<not> surrogate c)"

text \<open>\<open>str.encode("utf-8")\<close>: a lone surrogate raises \<open>UnicodeEncodeError\<close>.\<close>

definition utf8_cp :: "int \<Rightarrow> bytes" where
  "utf8_cp c =
     (if c < 0x80 then [word_of_int c]
      else if c < 0x800 then [word_of_int (0xC0 + c div 64), word_of_int (0x80 + c mod 64)]
      else if c < 0x10000
      then [word_of_int (0xE0 + c div 4096), word_of_int (0x80 + c div 64 mod 64), word_of_int (0x80 + c mod 64)]
      else [word_of_int (0xF0 + c div 262144), word_of_int (0x80 + c div 4096 mod 64),
            word_of_int (0x80 + c div 64 mod 64), word_of_int (0x80 + c mod 64)])"

fun utf8_encode :: "str \<Rightarrow> bytes res" where
  "utf8_encode [] = Inr []"
| "utf8_encode (c # cs) =
     (if scalar c then bindE (utf8_encode cs) (\<lambda>bs. Inr (utf8_cp c @ bs))
      else Inl (UnicodeError ''surrogates not allowed''))"

text \<open>
  One step of the decoder: the code point and the number of bytes it takes, or, at a malformed
  sequence, the number of bytes that one replacement character stands for.
\<close>

definition cont :: "int \<Rightarrow> bool" where
  "cont b = (0x80 \<le> b \<and> b \<le> 0xBF)"

definition low2 :: "int \<Rightarrow> int" where "low2 b0 = (if b0 = 0xE0 then 0xA0 else if b0 = 0xF0 then 0x90 else 0x80)"
definition high2 :: "int \<Rightarrow> int" where "high2 b0 = (if b0 = 0xED then 0x9F else if b0 = 0xF4 then 0x8F else 0xBF)"

fun utf8_next :: "int list \<Rightarrow> nat + int \<times> nat" where
  "utf8_next [] = Inl 1"
| "utf8_next (b0 # bs) =
     (if b0 < 0x80 then Inr (b0, 1)
      else if b0 < 0xC2 \<or> 0xF4 < b0 then Inl 1
      else (case bs of [] \<Rightarrow> Inl 1
        | b1 # bs1 \<Rightarrow>
          if \<not> (low2 b0 \<le> b1 \<and> b1 \<le> high2 b0) then Inl 1
          else if b0 < 0xE0 then Inr ((b0 - 0xC0) * 64 + (b1 - 0x80), 2)
          else (case bs1 of [] \<Rightarrow> Inl 2
            | b2 # bs2 \<Rightarrow>
              if \<not> cont b2 then Inl 2
              else if b0 < 0xF0
              then Inr ((b0 - 0xE0) * 4096 + (b1 - 0x80) * 64 + (b2 - 0x80), 3)
              else (case bs2 of [] \<Rightarrow> Inl 3
                | b3 # _ \<Rightarrow>
                  if \<not> cont b3 then Inl 3
                  else Inr ((b0 - 0xF0) * 262144 + (b1 - 0x80) * 4096 + (b2 - 0x80) * 64
                            + (b3 - 0x80), 4)))))"

lemma utf8_next_pos: "utf8_next bs = Inl n \<Longrightarrow> 0 < n" "utf8_next bs = Inr (c, n) \<Longrightarrow> 0 < n"
  by (induction bs rule: utf8_next.induct) (auto split: if_splits list.splits)

text \<open>\<open>bytes.decode("utf-8")\<close> raises at a malformed sequence; \<open>decode("utf-8", "replace")\<close> does not.\<close>

function utf8_dec :: "int list \<Rightarrow> str res" where
  "utf8_dec bs =
     (if bs = [] then Inr []
      else (case utf8_next bs of
          Inl _ \<Rightarrow> Inl (UnicodeError ''invalid utf-8'')
        | Inr (c, n) \<Rightarrow> bindE (utf8_dec (drop n bs)) (\<lambda>cs. Inr (c # cs))))"
  by pat_completeness auto
termination
  by (relation "measure length") (auto dest: utf8_next_pos)

declare utf8_dec.simps [simp del]

function utf8_dec_replace :: "int list \<Rightarrow> str" where
  "utf8_dec_replace bs =
     (if bs = [] then []
      else (case utf8_next bs of
          Inl n \<Rightarrow> 0xFFFD # utf8_dec_replace (drop n bs)
        | Inr (c, n) \<Rightarrow> c # utf8_dec_replace (drop n bs)))"
  by pat_completeness auto
termination
  by (relation "measure length") (auto dest: utf8_next_pos)

declare utf8_dec_replace.simps [simp del]

definition utf8_decode :: "bytes \<Rightarrow> str res" where
  "utf8_decode bs = utf8_dec (map uint bs)"

definition utf8_decode_replace :: "bytes \<Rightarrow> str" where
  "utf8_decode_replace bs = utf8_dec_replace (map uint bs)"

section \<open>Text\<close>

text \<open>\<open>text.replace("\r\n", "\n").replace("\r", "\n")\<close>.\<close>

fun replace_crlf :: "str \<Rightarrow> str" where
  "replace_crlf (x # y # s) = (if x = 13 \<and> y = 10 then 10 # replace_crlf s else x # replace_crlf (y # s))"
| "replace_crlf s = s"

definition replace_cr :: "str \<Rightarrow> str" where
  "replace_cr s = map (\<lambda>c. if c = 13 then 10 else c) s"

definition normalize_text :: "str \<Rightarrow> str res" where
  "normalize_text text =
     (if 0 \<in> set text then Inl (ValueError ''ctxfs text must not contain NUL'')
      else Inr (replace_cr (replace_crlf text)))"

text \<open>\<open>str.splitlines()\<close>: all of Python's line boundaries, \<open>\r\n\<close> counting once.\<close>

definition line_break :: "int \<Rightarrow> bool" where
  "line_break c = (c = 10 \<or> c = 11 \<or> c = 12 \<or> c = 13 \<or> c = 28 \<or> c = 29 \<or> c = 30 \<or> c = 133
     \<or> c = 8232 \<or> c = 8233)"

fun lines_from :: "str \<Rightarrow> str \<Rightarrow> str list" where
  "lines_from cur [] = (if cur = [] then [] else [cur])"
| "lines_from cur [c] = (if line_break c then [cur] else [cur @ [c]])"
| "lines_from cur (c # d # s) =
     (if c = 13 \<and> d = 10 then cur # lines_from [] s
      else if line_break c then cur # lines_from [] (d # s)
      else lines_from (cur @ [c]) (d # s))"

definition splitlines :: "str \<Rightarrow> str list" where
  "splitlines s = lines_from [] s"

definition line_count :: "str \<Rightarrow> nat" where
  "line_count text = (if text = [] then 0 else length (splitlines text))"

text \<open>\<open>_truncate_utf8\<close>: drop bytes from the end until what is left decodes.\<close>

function truncate_loop :: "bytes \<Rightarrow> bytes" where
  "truncate_loop limited =
     (if limited = [] then []
      else (case utf8_decode limited of
          Inl _ \<Rightarrow> truncate_loop (butlast limited)
        | Inr _ \<Rightarrow> limited))"
  by pat_completeness auto
termination
  by (relation "measure length") auto

declare truncate_loop.simps [simp del]

definition truncate_utf8 :: "bytes \<Rightarrow> nat \<Rightarrow> bytes" where
  "truncate_utf8 data max_bytes = truncate_loop (take max_bytes data)"

section \<open>Hexadecimal component names\<close>

definition hex_digit :: "int \<Rightarrow> int" where
  "hex_digit n = (if n < 10 then 48 + n else 87 + n)"

fun hex :: "bytes \<Rightarrow> str" where
  "hex [] = []"
| "hex (b # bs) = hex_digit (uint b div 16) # hex_digit (uint b mod 16) # hex bs"

definition hex_value :: "int \<Rightarrow> int option" where
  "hex_value c =
     (if 48 \<le> c \<and> c \<le> 57 then Some (c - 48)
      else if 97 \<le> c \<and> c \<le> 102 then Some (c - 87)
      else if 65 \<le> c \<and> c \<le> 70 then Some (c - 55)
      else None)"

definition ascii_space :: "int \<Rightarrow> bool" where
  "ascii_space c = (c = 32 \<or> 9 \<le> c \<and> c \<le> 13)"

text \<open>\<open>bytes.fromhex\<close>: ASCII white space is skipped between bytes, both cases of digit are read.\<close>

fun fromhex :: "str \<Rightarrow> bytes res" where
  "fromhex [] = Inr []"
| "fromhex [c] = (if ascii_space c then Inr [] else Inl (ValueError ''non-hexadecimal number''))"
| "fromhex (c # d # s) =
     (if ascii_space c then fromhex (d # s)
      else (case (hex_value c, hex_value d) of
          (Some h, Some l) \<Rightarrow> bindE (fromhex s) (\<lambda>bs. Inr (word_of_int (16 * h + l) # bs))
        | _ \<Rightarrow> Inl (ValueError ''non-hexadecimal number'')))"

definition tree_component_name :: "str \<Rightarrow> str res" where
  "tree_component_name value =
     bindE (utf8_encode value) (\<lambda>bs. Inr (lit ''p-'' @ hex bs))"

definition logical_component_name :: "str \<Rightarrow> str option" where
  "logical_component_name value =
     (if \<not> startswith value (lit ''p-'') then None
      else (case bindE (fromhex (drop 2 value)) utf8_decode of Inl _ \<Rightarrow> None | Inr s \<Rightarrow> Some s))"

section \<open>Facts about the conversions\<close>

lemma uint_word8: "0 \<le> n \<Longrightarrow> n < 256 \<Longrightarrow> uint (word_of_int n :: byte) = n"
  by (simp add: uint_word_of_int take_bit_eq_mod)
lemma uint_byte_bounds: "0 \<le> uint (b :: byte)" "uint b < 256"
  using uint_lt2p [of b] by simp_all
lemma hex_value_digit: "0 \<le> n \<Longrightarrow> n < 16 \<Longrightarrow> hex_value (hex_digit n) = Some n"
  by (auto simp: hex_value_def hex_digit_def)
lemma hex_digit_not_space: "0 \<le> n \<Longrightarrow> \<not> ascii_space (hex_digit n)"
  by (auto simp: hex_digit_def ascii_space_def)
lemma fromhex_hex [simp]: "fromhex (hex bs) = Inr bs"
proof (induction bs)
  case (Cons b bs)
  have "0 \<le> uint b div 16" "uint b div 16 < 16" "0 \<le> uint b mod 16" "uint b mod 16 < 16"
    using uint_byte_bounds [of b] by (auto simp: pos_imp_zdiv_nonneg_iff)
  then have "hex_value (hex_digit (uint b div 16)) = Some (uint b div 16)"
    "hex_value (hex_digit (uint b mod 16)) = Some (uint b mod 16)"
    "\<not> ascii_space (hex_digit (uint b div 16))"
    by (simp_all only: hex_value_digit hex_digit_not_space not_False_eq_True)
  moreover have "word_of_int (16 * (uint b div 16) + uint b mod 16) = b"
    by (simp only: mult_div_mod_eq word_of_int_uint)
  ultimately show ?case using Cons by (simp del: of_int_add of_int_mult)
qed simp

lemma map_uint_utf8_cp:
  assumes "scalar c"
  shows "map uint (utf8_cp c) =
     (if c < 0x80 then [c]
      else if c < 0x800 then [0xC0 + c div 64, 0x80 + c mod 64]
      else if c < 0x10000 then [0xE0 + c div 4096, 0x80 + c div 64 mod 64, 0x80 + c mod 64]
      else [0xF0 + c div 262144, 0x80 + c div 4096 mod 64, 0x80 + c div 64 mod 64, 0x80 + c mod 64])"
proof -
  have c: "0 \<le> c" "c < 1114112" using assms by (auto simp: scalar_def)
  have m: "uint (word_of_int (0x80 + x mod 64) :: byte) = 0x80 + x mod 64" for x
    by (rule uint_word8) (auto simp: add_nonneg_nonneg less_le_trans [of _ 64])
  have "uint (word_of_int c :: byte) = c" if "c < 0x80" by (rule uint_word8) (use c that in auto)
  moreover have "uint (word_of_int (0xC0 + c div 64) :: byte) = 0xC0 + c div 64" if "c < 0x800"
    by (rule uint_word8) (use c that in \<open>auto simp: div_less_iff_less_mult\<close>)
  moreover have "uint (word_of_int (0xE0 + c div 4096) :: byte) = 0xE0 + c div 4096" if "c < 0x10000"
    by (rule uint_word8) (use c that in auto)
  moreover have "uint (word_of_int (0xF0 + c div 262144) :: byte) = 0xF0 + c div 262144"
    by (rule uint_word8) (use c in auto)
  ultimately show ?thesis
    by (auto simp only: utf8_cp_def list.map m if_True if_False split: if_splits)
qed

lemma utf8_next_cp:
  assumes "scalar c"
  shows "utf8_next (map uint (utf8_cp c) @ bs) = Inr (c, length (utf8_cp c))"
proof -
  have c: "0 \<le> c" "c < 1114112" "\<not> (55296 \<le> c \<and> c \<le> 57343)" using assms by (auto simp: scalar_def surrogate_def)
  have len: "length (utf8_cp c) = (if c < 0x80 then 1 else if c < 0x800 then 2 else if c < 0x10000 then 3 else 4)"
    by (simp add: utf8_cp_def)
  have m: "0 \<le> x mod 64" "x mod 64 < 64" for x :: int by auto
  consider "c < 128" | "128 \<le> c" "c < 2048" | "2048 \<le> c" "c < 65536" | "65536 \<le> c" by linarith
  then show ?thesis
  proof cases
    case 1 then show ?thesis by (simp add: map_uint_utf8_cp [OF assms] len)
  next
    case 2
    define q r where "q = c div 64" and "r = c mod 64"
    have "c = q * 64 + r" "0 \<le> r" "r < 64" by (auto simp: q_def r_def)
    then show ?thesis using 2 
      unfolding map_uint_utf8_cp [OF assms] len q_def [symmetric] r_def [symmetric]
      by (auto simp: low2_def high2_def)
  next
    case 3
    define q s r where "q = c div 4096" and "s = c div 64 mod 64" and "r = c mod 64"
    have "c div 64 div 64 = c div 4096"
      by (simp add: div_mult2_eq [symmetric])
    then have "c = q * 4096 + s * 64 + r"
      using mult_div_mod_eq [of 64 c] mult_div_mod_eq [of 64 "c div 64"]
      unfolding q_def s_def r_def by linarith
    moreover have "0 \<le> r" "r < 64" "0 \<le> s" "s < 64"
      unfolding s_def r_def by auto
    ultimately show ?thesis using 3 c
      unfolding map_uint_utf8_cp [OF assms] len q_def [symmetric] r_def [symmetric] s_def [symmetric]
      by (auto simp: low2_def high2_def cont_def)
  next
    case 4
    define q t s r where "q = c div 262144" and "t = c div 4096 mod 64" and "s = c div 64 mod 64" and "r = c mod 64"
    have "c div 64 div 64 = c div 4096" "c div 4096 div 64 = c div 262144"
      by (simp_all add: div_mult2_eq [symmetric])
    then have "c = q * 262144 + t * 4096 + s * 64 + r"
      using mult_div_mod_eq [of 64 c] mult_div_mod_eq [of 64 "c div 64"]
        mult_div_mod_eq [of 64 "c div 4096"]
      unfolding q_def s_def r_def t_def by linarith
    moreover have "0 \<le> r" "r < 64" "0 \<le> s" "s < 64" "0 \<le> t" "t < 64"
      unfolding s_def r_def t_def by auto
    ultimately show ?thesis using 4 c
      unfolding map_uint_utf8_cp [OF assms] len q_def [symmetric] r_def [symmetric] s_def [symmetric] t_def [symmetric]
      by (auto simp: low2_def high2_def cont_def)
  qed
qed

lemma utf8_dec_cp:
  assumes "scalar c"
  shows "utf8_dec (map uint (utf8_cp c) @ bs) = bindE (utf8_dec bs) (\<lambda>cs. Inr (c # cs))"
    and "utf8_dec_replace (map uint (utf8_cp c) @ bs) = c # utf8_dec_replace bs"
proof -
  have [simp]: "utf8_cp c \<noteq> []" by (simp add: utf8_cp_def)
  show "utf8_dec (map uint (utf8_cp c) @ bs) = bindE (utf8_dec bs) (\<lambda>cs. Inr (c # cs))"
    by (subst utf8_dec.simps) (simp add: utf8_next_cp [OF assms])
  show "utf8_dec_replace (map uint (utf8_cp c) @ bs) = c # utf8_dec_replace bs"
    by (subst utf8_dec_replace.simps) (simp add: utf8_next_cp [OF assms])
qed

lemma utf8_dec_Nil [simp]: "utf8_dec [] = Inr []" "utf8_dec_replace [] = []"
  by (simp_all add: utf8_dec.simps utf8_dec_replace.simps)

lemma utf8_encode_Inr_scalar: "utf8_encode s = Inr bs \<Longrightarrow> c \<in> set s \<Longrightarrow> scalar c"
  by (induction s arbitrary: bs) (auto split: if_splits)

lemma utf8_roundtrip: "utf8_encode s = Inr bs \<Longrightarrow> utf8_decode bs = Inr s"
proof (induction s arbitrary: bs)
  case (Cons c s)
  then show ?case by (auto simp: utf8_decode_def utf8_dec_cp split: if_splits)
qed (simp add: utf8_decode_def)

lemma utf8_encode_inj: "utf8_encode s = Inr bs \<Longrightarrow> utf8_encode t = Inr bs \<Longrightarrow> s = t"
  using utf8_roundtrip [of s bs] utf8_roundtrip [of t bs] by simp

lemma utf8_decode_replace_eq: "utf8_decode bs = Inr s \<Longrightarrow> utf8_decode_replace bs = s"
proof -
  have "utf8_dec bs = Inr s \<Longrightarrow> utf8_dec_replace bs = s" for bs s
  proof (induction bs arbitrary: s rule: utf8_dec.induct)
    case (1 bs)
    show ?case
    proof (cases "bs = []")
      case False
      with 1(2) obtain c n where n: "utf8_next bs = Inr (c, n)"
        by (subst (asm) utf8_dec.simps) (auto split: sum.splits)
      with False 1(2) obtain cs where "utf8_dec (drop n bs) = Inr cs" "s = c # cs"
        by (subst (asm) utf8_dec.simps) auto
      then show ?thesis using 1(1) [OF False n] False n by (subst utf8_dec_replace.simps) simp
    qed (use 1 in simp)
  qed
  then show "utf8_decode bs = Inr s \<Longrightarrow> utf8_decode_replace bs = s"
    by (simp add: utf8_decode_def utf8_decode_replace_def)
qed

text \<open>A proper, non-empty part of one encoded character does not decode.\<close>

lemma utf8_next_cut:
  assumes "scalar c" "0 < k" "k < length (utf8_cp c)"
  shows "\<exists>n. utf8_next (take k (map uint (utf8_cp c))) = Inl n"
proof -
  have c: "0 \<le> c" "c < 1114112" using assms by (auto simp: scalar_def)
  have len: "length (utf8_cp c) = (if c < 0x80 then 1 else if c < 0x800 then 2 else if c < 0x10000 then 3 else 4)"
    by (simp add: utf8_cp_def)
  consider "c < 128" | "128 \<le> c" "c < 2048" | "2048 \<le> c" "c < 65536" | "65536 \<le> c" by linarith
  then show ?thesis
  proof cases
    case 1
    with assms len show ?thesis by simp
  next
    case 2
    with assms len have "k = 1" by simp
    then show ?thesis using 2 unfolding map_uint_utf8_cp [OF assms(1)] by simp
  next
    case 3
    with assms len have "k = 1 \<or> k = 2" by auto
    then show ?thesis using 3 unfolding map_uint_utf8_cp [OF assms(1)] by auto
  next
    case 4
    with assms len have "k = 1 \<or> k = 2 \<or> k = 3" by auto
    moreover have "240 \<le> 240 + c div 262144" "240 + c div 262144 \<le> 244" using c by auto
    ultimately show ?thesis using 4 unfolding map_uint_utf8_cp [OF assms(1)] by auto
  qed
qed

lemma utf8_cut_prefix:
  assumes "utf8_encode t = Inr d" "utf8_decode (take k d) = Inr s"
  shows "prefix s t \<and> utf8_encode s = Inr (take k d)"
  using assms
proof (induction t arbitrary: d k s)
  case Nil
  then show ?case by (simp add: utf8_decode_def)
next
  case (Cons c t)
  then obtain d' where sc: "scalar c" and d': "utf8_encode t = Inr d'" and d: "d = utf8_cp c @ d'"
    by (auto split: if_splits)
  consider "k = 0" | "0 < k" "k < length (utf8_cp c)" | "length (utf8_cp c) \<le> k" by linarith
  then show ?case
  proof cases
    case 1
    with Cons.prems show ?thesis by (simp add: utf8_decode_def)
  next
    case 2
    then obtain n where "utf8_next (map uint (take k d)) = Inl n"
      using utf8_next_cut [OF sc 2] by (auto simp: d take_map)
    moreover have "map uint (take k d) \<noteq> []" using 2 by (auto simp: d)
    ultimately have False using Cons.prems(2)
      unfolding utf8_decode_def by (subst (asm) utf8_dec.simps) simp
    then show ?thesis ..
  next
    case 3
    then have tk: "take k d = utf8_cp c @ take (k - length (utf8_cp c)) d'" by (simp add: d)
    with Cons.prems(2) obtain s' where s': "utf8_decode (take (k - length (utf8_cp c)) d') = Inr s'"
      and s: "s = c # s'"
      by (auto simp: utf8_decode_def utf8_dec_cp(1) [OF sc])
    from Cons.IH [OF d' s'] show ?thesis by (simp add: s sc tk)
  qed
qed

lemma truncate_loop_props:
  "prefix (truncate_loop bs) bs \<and> (\<exists>s. utf8_decode (truncate_loop bs) = Inr s)
   \<and> (\<forall>k \<le> length bs. \<forall>s. utf8_decode (take k bs) = Inr s \<longrightarrow> k \<le> length (truncate_loop bs))"
proof (induction bs rule: truncate_loop.induct)
  case (1 bs)
  show ?case
  proof (cases "bs = []")
    case True
    then show ?thesis by (simp add: truncate_loop.simps utf8_decode_def)
  next
    case ne: False
    show ?thesis
    proof (cases "utf8_decode bs")
      case (Inr s)
      with ne have "truncate_loop bs = bs" by (subst truncate_loop.simps) simp
      with Inr show ?thesis by simp
    next
      case (Inl e)
      then have eq: "truncate_loop bs = truncate_loop (butlast bs)"
        using ne by (subst truncate_loop.simps) simp
      have IH: "prefix (truncate_loop bs) (butlast bs)" "\<exists>s. utf8_decode (truncate_loop bs) = Inr s"
        "\<And>k s. k \<le> length bs - 1 \<Longrightarrow> utf8_decode (take k (butlast bs)) = Inr s \<Longrightarrow> k \<le> length (truncate_loop bs)"
        using 1 [OF ne Inl] unfolding eq by auto
      have "k \<le> length (truncate_loop bs)" if "k \<le> length bs" "utf8_decode (take k bs) = Inr s" for k s
      proof (cases "k = length bs")
        case True
        with that Inl show ?thesis by simp
      next
        case False
        with that have "k \<le> length bs - 1" by simp
        moreover from this have "take k (butlast bs) = take k bs" by (simp add: butlast_conv_take min_def)
        ultimately show ?thesis using IH(3) that by simp
      qed
      moreover have "prefix (truncate_loop bs) bs"
        using IH(1) by (metis append_butlast_last_id ne prefixI prefix_order.trans)
      ultimately show ?thesis using IH(2) by blast
    qed
  qed
qed

lemma utf8_boundary:
  assumes "utf8_encode t = Inr d" "n \<le> length d"
  shows "\<exists>k s. k \<le> n \<and> n < k + 4 \<and> utf8_decode (take k d) = Inr s"
  using assms
proof (induction t arbitrary: d n)
  case Nil
  then show ?case by (intro exI [of _ 0]) (simp add: utf8_decode_def)
next
  case (Cons c t)
  then obtain d' where sc: "scalar c" and d': "utf8_encode t = Inr d'" and d: "d = utf8_cp c @ d'"
    by (auto split: if_splits)
  show ?case
  proof (cases "n < length (utf8_cp c)")
    case True
    then have "n < 4" by (auto simp: utf8_cp_def split: if_splits)
    then show ?thesis by (intro exI [of _ 0]) (simp add: utf8_decode_def)
  next
    case False
    with Cons.prems(2) have "n - length (utf8_cp c) \<le> length d'" by (simp add: d)
    from Cons.IH [OF d' this] obtain k s where
      k: "k \<le> n - length (utf8_cp c)" "n - length (utf8_cp c) < k + 4" "utf8_decode (take k d') = Inr s" by blast
    have "utf8_decode (take (length (utf8_cp c) + k) d) = Inr (c # s)"
      using k(3) by (simp add: d utf8_decode_def utf8_dec_cp(1) [OF sc])
    then show ?thesis using k(1,2) False
      by (intro exI [of _ "length (utf8_cp c) + k"]) auto
  qed
qed

lemma truncate_utf8_spec:
  assumes "utf8_encode t = Inr d" "n \<le> length d"
  shows "\<exists>s. prefix s t \<and> utf8_encode s = Inr (truncate_utf8 d n) \<and> utf8_decode (truncate_utf8 d n) = Inr s
     \<and> length (truncate_utf8 d n) \<le> n \<and> n < length (truncate_utf8 d n) + 4"
proof -
  let ?r = "truncate_utf8 d n"
  have r: "prefix ?r (take n d)" "\<exists>s. utf8_decode ?r = Inr s"
    "\<And>k s. k \<le> n \<Longrightarrow> utf8_decode (take k d) = Inr s \<Longrightarrow> k \<le> length ?r"
    using truncate_loop_props [of "take n d"] assms(2) by (auto simp: truncate_utf8_def min_def)
  then obtain s where s: "utf8_decode ?r = Inr s" by blast
  have len: "length ?r \<le> n" using prefix_length_le [OF r(1)] by simp
  have "?r = take (length ?r) d"
    using r(1) len by (metis append_eq_conv_conj prefix_def take_take min_def)
  with utf8_cut_prefix [OF assms(1), of "length ?r" s] s
  have "prefix s t" "utf8_encode s = Inr ?r" by auto
  moreover have "n < length ?r + 4" using utf8_boundary [OF assms] r(3) by fastforce
  ultimately show ?thesis using s len by blast
qed

lemma tree_component_roundtrip [simp]:
  "tree_component_name v = Inr n \<Longrightarrow> logical_component_name n = Some v"
  by (auto simp: tree_component_name_def logical_component_name_def startswith_def lit_def utf8_roundtrip)

lemma tree_component_inj: "tree_component_name v = Inr n \<Longrightarrow> tree_component_name w = Inr n \<Longrightarrow> v = w"
  using tree_component_roundtrip [of v n] tree_component_roundtrip [of w n] by simp

lemma tree_component_total: "(\<And>c. c \<in> set v \<Longrightarrow> scalar c) \<Longrightarrow> \<exists>n. tree_component_name v = Inr n"
proof -
  assume "\<And>c. c \<in> set v \<Longrightarrow> scalar c"
  then have "\<exists>bs. utf8_encode v = Inr bs" by (induction v) auto
  then show ?thesis by (auto simp: tree_component_name_def)
qed

lemma replace_crlf_scalar: "c \<in> set (replace_crlf s) \<Longrightarrow> c \<in> insert 10 (set s)"
  by (induction s rule: replace_crlf.induct) (auto split: if_splits)

lemma normalize_text_no_cr: "normalize_text t = Inr s \<Longrightarrow> 13 \<notin> set s \<and> 0 \<notin> set s"
  using replace_crlf_scalar [of 0 t] by (auto simp: normalize_text_def replace_cr_def split: if_splits)

lemma replace_no_cr: "13 \<notin> set s \<Longrightarrow> replace_cr (replace_crlf s) = s"
proof -
  assume a: "13 \<notin> set s"
  then have "replace_crlf s = s" by (induction s rule: replace_crlf.induct) auto
  with a show ?thesis by (auto simp: replace_cr_def intro: map_idI)
qed

lemma normalize_text_idem: "normalize_text t = Inr s \<Longrightarrow> normalize_text s = Inr s"
  using normalize_text_no_cr [of t s] by (auto simp: normalize_text_def replace_no_cr split: if_splits)

end
