(* ===== verification/Paths.thy ===== *)
theory Paths
  imports PyText
begin

text \<open>
  Logical paths: the normalisation and prefix tests of \<open>src/ctxfs/store.py\<close> and of the
  authorization layer \<open>src/ctxfs/auth.py\<close>, relative paths, glob patterns (with the part of
  \<open>fnmatch.fnmatchcase\<close> they use) and the mapping between logical paths and tree components.
\<close>

section \<open>Normalisation\<close>

definition has_control_character :: "str \<Rightarrow> bool" where
  "has_control_character value = list_ex (\<lambda>c. c < 32 \<or> c = 127) value"

definition ascii_letters :: str where
  "ascii_letters = lit ''abcdefghijklmnopqrstuvwxyzABCDEFGHIJKLMNOPQRSTUVWXYZ''"

definition drive_prefixed :: "str \<Rightarrow> bool" where
  "drive_prefixed path = list_ex (\<lambda>letter. startswith path [letter, 58]) ascii_letters"

definition bad_part :: "str \<Rightarrow> bool" where
  "bad_part part = (part = [] \<or> part = lit ''.'' \<or> part = lit ''..'')"

text \<open>\<open>PurePosixPath(path).parts\<close>: the root, if any, then the components that are not empty and not \<open>.\<close>.\<close>

definition pure_parts :: "str \<Rightarrow> str list" where
  "pure_parts path =
     (if startswith path (lit ''//'') \<and> \<not> startswith path (lit ''///'') then [lit ''//'']
      else if startswith path (lit ''/'') then [lit ''/''] else [])
     @ filter (\<lambda>part. part \<noteq> [] \<and> part \<noteq> lit ''.'') (split_on slash path)"

definition is_absolute :: "str \<Rightarrow> bool" where
  "is_absolute path = startswith path (lit ''/'')"

definition normalize_path :: "str \<Rightarrow> str res" where
  "normalize_path path =
     (if path = [] \<or> startswith path (lit ''/'') \<or> has_control_character path
      then Inl (ValueError ''invalid ctxfs path'')
      else if drive_prefixed path then Inl (ValueError ''invalid ctxfs path'')
      else let raw_parts = split_on slash path in
      if list_ex bad_part raw_parts then Inl (ValueError ''invalid ctxfs path'')
      else if is_absolute path then Inl (ValueError ''ctxfs paths must be relative'')
      else let parts = pure_parts path in
      if parts = [] \<or> list_ex (\<lambda>part. bad_part part \<or> has_control_character part) parts
      then Inl (ValueError ''invalid ctxfs path'')
      else Inr (join_with slash parts))"

text \<open>The authorization layer has its own copy.\<close>

definition auth_normalize_path :: "str \<Rightarrow> str res" where
  "auth_normalize_path path =
     (if path = [] \<or> startswith path (lit ''/'') \<or> endswith path (lit ''/'')
        \<or> has_control_character path \<or> drive_prefixed path
      then Inl (ValueError ''paths must be normalized relative ctxfs paths'')
      else let parts = split_on slash path in
      if list_ex bad_part parts then Inl (ValueError ''paths must be normalized relative paths'')
      else Inr (join_with slash parts))"

definition auth_within :: "str \<Rightarrow> str \<Rightarrow> bool" where
  "auth_within path pfx = (path = pfx \<or> startswith path (pfx @ lit ''/''))"

definition path_is_within_prefix :: "str \<Rightarrow> str \<Rightarrow> bool res" where
  "path_is_within_prefix path pfx =
     bindE (normalize_path path) (\<lambda>normalized_path.
     bindE (normalize_path pfx) (\<lambda>normalized_prefix.
     Inr (normalized_path = normalized_prefix
          \<or> startswith normalized_path (normalized_prefix @ lit ''/''))))"

definition prefixes_overlap :: "str \<Rightarrow> str \<Rightarrow> bool res" where
  "prefixes_overlap left right =
     bindE (path_is_within_prefix left right) (\<lambda>b.
     if b then Inr True else path_is_within_prefix right left)"

section \<open>Relative paths\<close>

definition join_relative :: "str \<Rightarrow> str \<Rightarrow> str" where
  "join_relative pfx name = (if pfx = [] then name else pfx @ lit ''/'' @ name)"

definition relative_parts :: "str \<Rightarrow> str \<Rightarrow> str list" where
  "relative_parts pfx path =
     (if pfx = [] then pure_parts path
      else if path = pfx then []
      else if \<not> startswith path (pfx @ lit ''/'') then []
      else pure_parts (drop (length pfx + 1) path))"

definition grep_relative_path :: "str \<Rightarrow> str \<Rightarrow> str res" where
  "grep_relative_path pfx path =
     (if pfx = [] then Inr path
      else if path = pfx then Inr []
      else let marker = pfx @ lit ''/'' in
      if \<not> startswith path marker
      then Inl (ValueError ''ctxfs grep cursor path is outside its prefix'')
      else Inr (drop (length marker) path))"

definition grep_absolute_path :: "str \<Rightarrow> str \<Rightarrow> str" where
  "grep_absolute_path pfx relative_path =
     (if pfx = [] then relative_path
      else if relative_path = [] then pfx
      else pfx @ lit ''/'' @ relative_path)"

section \<open>Glob patterns\<close>

fun unclosed_class :: "bool \<Rightarrow> str \<Rightarrow> bool" where
  "unclosed_class in_class [] = in_class"
| "unclosed_class in_class (c # s) =
     (if c = 91 then unclosed_class True s
      else if c = 93 \<and> in_class then unclosed_class False s
      else unclosed_class in_class s)"

definition has_unclosed_character_class :: "str \<Rightarrow> bool" where
  "has_unclosed_character_class pat = unclosed_class False pat"

definition validate_glob_pattern :: "str \<Rightarrow> str list res" where
  "validate_glob_pattern pat =
     (if pat = [] \<or> endswith pat (lit ''/'') then Inl (ValueError ''invalid ctxfs glob pattern'')
      else if has_unclosed_character_class pat then Inl (ValueError ''invalid ctxfs glob pattern'')
      else let parts = split_on slash pat in
      if list_ex (\<lambda>part. part = []) parts then Inl (ValueError ''invalid ctxfs glob pattern'')
      else if list_ex (\<lambda>part. sublist (lit ''**'') part \<and> part \<noteq> lit ''**'') parts
      then Inl (ValueError ''invalid ctxfs glob pattern'')
      else Inr parts)"

text \<open>
  \<open>fnmatch.fnmatchcase\<close>: the pattern is read into tokens (\<open>*\<close>, \<open>?\<close>, a class, a literal) as
  \<open>fnmatch.translate\<close> reads it, and the tokens are matched against the whole name. The
  members of a class are the chunks between its range hyphens: the last character of a chunk and
  the first of the next bound a range.
\<close>

datatype fnm_token = Star | AnyChar | Literal int | Class bool "str list"

text \<open>
  \<open>skip\<close> counts the leading characters of a chunk that cannot be its separator: one in the first
  chunk (two when the class is negated), two in the others.
\<close>

fun class_chunks :: "nat \<Rightarrow> str \<Rightarrow> str \<Rightarrow> str list" where
  "class_chunks skip cur [] = [cur]"
| "class_chunks skip cur (c # s) =
     (if skip = 0 \<and> c = 45 then cur # class_chunks 2 [] s
      else class_chunks (skip - 1) (cur @ [c]) s)"

text \<open>A hyphen that ends the class is a member: it joins the last chunk.\<close>

definition close_chunks :: "str list \<Rightarrow> str list" where
  "close_chunks cs =
     (if last cs = [] \<and> butlast cs \<noteq> []
      then butlast (butlast cs) @ [last (butlast cs) @ [45]] else cs)"

text \<open>Empty ranges are removed, from the right.\<close>

fun drop_empty_ranges :: "str list \<Rightarrow> str list" where
  "drop_empty_ranges [] = []"
| "drop_empty_ranges (x # ys) =
     (case drop_empty_ranges ys of [] \<Rightarrow> [x]
      | y # zs \<Rightarrow> if x \<noteq> [] \<and> y \<noteq> [] \<and> hd y < last x then (butlast x @ tl y) # zs
                 else x # y # zs)"

fun class_member :: "int \<Rightarrow> str list \<Rightarrow> bool" where
  "class_member c [] = False"
| "class_member c [x] = (c \<in> set x)"
| "class_member c (x # y # zs) =
     (if x = [] \<or> y = [] then c = 45 \<or> class_member c (y # zs)
      else c \<in> set (butlast x) \<or> last x \<le> c \<and> c \<le> hd y \<or> class_member c (tl y # zs))"

definition class_token :: "str \<Rightarrow> fnm_token" where
  "class_token stuff =
     (let skip = (if startswith stuff (lit ''!'') then 2 else 1);
          chunks = drop_empty_ranges (close_chunks (class_chunks skip [] stuff))
      in if chunks = [lit ''!''] then AnyChar
         else (case chunks of
             x # ys \<Rightarrow> if startswith x (lit ''!'') then Class True (tl x # ys) else Class False chunks
           | [] \<Rightarrow> Class False []))"

text \<open>Where the class that opens before \<open>rest\<close> closes, if it does.\<close>

definition class_end :: "str \<Rightarrow> nat option" where
  "class_end rest =
     (let j = (if startswith rest (lit ''!'') then 1 else 0);
          j = (if startswith (drop j rest) (lit '']'') then Suc j else j);
          k = j + length (takeWhile (\<lambda>c. c \<noteq> 93) (drop j rest))
      in if k < length rest then Some k else None)"

function fnm_tokens :: "str \<Rightarrow> fnm_token list" where
  "fnm_tokens [] = []"
| "fnm_tokens (c # s) =
     (if c = 42 then Star # fnm_tokens s
      else if c = 63 then AnyChar # fnm_tokens s
      else if c = 91 then
        (case class_end s of
           None \<Rightarrow> Literal 91 # fnm_tokens s
         | Some j \<Rightarrow> class_token (take j s) # fnm_tokens (drop (Suc j) s))
      else Literal c # fnm_tokens s)"
  by pat_completeness auto
termination
  by (relation "measure length") auto

fun fnm_match :: "fnm_token list \<Rightarrow> str \<Rightarrow> bool" where
  "fnm_match [] s = (s = [])"
| "fnm_match (Star # ts) [] = fnm_match ts []"
| "fnm_match (Star # ts) (c # s) = (fnm_match ts (c # s) \<or> fnm_match (Star # ts) s)"
| "fnm_match (AnyChar # ts) (c # s) = fnm_match ts s"
| "fnm_match (Literal d # ts) (c # s) = (c = d \<and> fnm_match ts s)"
| "fnm_match (Class neg cs # ts) (c # s) = (class_member c cs \<noteq> neg \<and> fnm_match ts s)"
| "fnm_match (_ # ts) [] = False"

definition fnmatchcase :: "str \<Rightarrow> str \<Rightarrow> bool" where
  "fnmatchcase name pat = fnm_match (fnm_tokens pat) name"

fun glob_matches :: "str list \<Rightarrow> str list \<Rightarrow> bool" where
  "glob_matches [] path_parts = (path_parts = [])"
| "glob_matches (head # tail_parts) path_parts =
     (if head = lit ''**''
      then list_ex (\<lambda>index. glob_matches tail_parts (drop index path_parts)) [0..<length path_parts + 1]
      else (case path_parts of [] \<Rightarrow> False
        | first # rest \<Rightarrow> fnmatchcase first head \<and> glob_matches tail_parts rest))"

section \<open>Tree components\<close>

text \<open>
  The components of the on-disk path of a logical path below the user's root, and back.
\<close>

definition tree_components :: "str \<Rightarrow> str list res" where
  "tree_components path = mapE tree_component_name (pure_parts path)"

fun logical_components :: "str list \<Rightarrow> str list option" where
  "logical_components [] = Some []"
| "logical_components (part # parts) =
     (case logical_component_name part of None \<Rightarrow> None
      | Some logical \<Rightarrow> map_option (Cons logical) (logical_components parts))"

definition logical_tree_path :: "str list \<Rightarrow> str option" where
  "logical_tree_path relative_parts' = map_option (join_with slash) (logical_components relative_parts')"

section \<open>What the normaliser accepts\<close>

text \<open>A path in normal form: the paths \<open>_normalize_path\<close> accepts, all of which it returns unchanged.\<close>

definition valid_path :: "str \<Rightarrow> bool" where
  "valid_path p \<longleftrightarrow>
     list_all (\<lambda>part. \<not> bad_part part) (split_on slash p) \<and> \<not> has_control_character p \<and> \<not> drive_prefixed p"

lemma split_on_Cons_sep: "split_on c (c # s) = [] # split_on c s"
  by simp

lemma set_split_on: "part \<in> set (split_on c s) \<Longrightarrow> set part \<subseteq> set s"
  by (induction s arbitrary: part) (fastforce split: if_splits list.splits)+

lemma split_on_append_sep: "split_on c (p @ c # r) = split_on c p @ split_on c r"
  by (induction p) (auto split: list.splits)

lemma valid_path_not_slash: "valid_path p \<Longrightarrow> p \<noteq> [] \<and> \<not> startswith p (lit ''/'')"
  by (cases p) (auto simp: valid_path_def bad_part_def startswith_def lit_def split: if_splits)

lemma valid_path_not_end: "valid_path p \<Longrightarrow> \<not> endswith p (lit ''/'')"
proof
  assume v: "valid_path p" and e: "endswith p (lit ''/'')"
  then obtain q where "p = q @ slash # []" by (auto simp: endswith_def suffix_def lit_def)
  then have "[] \<in> set (split_on slash p)" by (simp add: split_on_append_sep)
  with v show False by (auto simp: valid_path_def list_all_iff bad_part_def)
qed

lemma not_slash_not_absolute:
  "\<not> startswith p (lit ''/'') \<Longrightarrow> \<not> is_absolute p \<and> \<not> startswith p (lit ''//'')"
  by (auto simp: is_absolute_def startswith_def lit_def prefix_def)

lemma pure_parts_valid: "valid_path p \<Longrightarrow> pure_parts p = split_on slash p"
  using valid_path_not_slash [of p] not_slash_not_absolute [of p]
  by (auto simp: pure_parts_def valid_path_def list_all_iff bad_part_def intro!: filter_True)

lemma part_no_control:
  "\<not> has_control_character p \<Longrightarrow> part \<in> set (split_on slash p) \<Longrightarrow> \<not> has_control_character part"
  using set_split_on [of part slash p] by (auto simp: has_control_character_def list_ex_iff)

lemma normalize_path_valid: "valid_path p \<Longrightarrow> normalize_path p = Inr p"
  using valid_path_not_slash [of p] not_slash_not_absolute [of p] pure_parts_valid [of p]
  by (auto simp: normalize_path_def valid_path_def list_all_iff list_ex_iff part_no_control Let_def)

lemma normalize_path_invalid: "\<not> valid_path p \<Longrightarrow> \<exists>m. normalize_path p = Inl (ValueError m)"
  by (auto simp: normalize_path_def valid_path_def list_all_iff list_ex_iff Let_def)

lemma normalize_path_Inr_iff [simp]: "normalize_path p = Inr q \<longleftrightarrow> valid_path p \<and> q = p"
  using normalize_path_valid normalize_path_invalid by (metis Inl_Inr_False Inr_inject)

lemma auth_normalize_path_Inr_iff [simp]: "auth_normalize_path p = Inr q \<longleftrightarrow> valid_path p \<and> q = p"
proof (cases "valid_path p")
  case True
  then show ?thesis using valid_path_not_slash [of p] valid_path_not_end [of p]
    by (auto simp: auth_normalize_path_def valid_path_def list_all_iff list_ex_iff Let_def)
next
  case False
  then show ?thesis
    by (auto simp: auth_normalize_path_def valid_path_def list_all_iff list_ex_iff Let_def)
qed

section \<open>Prefixes are prefixes of components\<close>

definition path_within :: "str \<Rightarrow> str \<Rightarrow> bool" where
  "path_within path pfx \<longleftrightarrow> prefix (split_on slash pfx) (split_on slash path)"

lemma startswith_sep_iff: "q = p \<or> startswith q (p @ lit ''/'') \<longleftrightarrow> path_within q p"
proof
  assume "q = p \<or> startswith q (p @ lit ''/'')"
  then show "path_within q p"
    by (auto simp: path_within_def startswith_def prefix_def lit_def split_on_append_sep)
next
  assume "path_within q p"
  then obtain r where r: "split_on slash q = split_on slash p @ r" by (auto simp: path_within_def prefix_def)
  show "q = p \<or> startswith q (p @ lit ''/'')"
  proof (cases "r = []")
    case True
    then show ?thesis using r join_split by (metis append_Nil2)
  next
    case False
    have "q = p @ slash # join_with slash r"
      using r False join_with_append [of "split_on slash p" r slash] join_split by (metis split_on_not_Nil)
    then show ?thesis by (simp add: startswith_def lit_def)
  qed
qed

lemma path_is_within_prefix_Inr:
  "path_is_within_prefix p q = Inr b \<longleftrightarrow> valid_path p \<and> valid_path q \<and> b = path_within p q"
  using startswith_sep_iff by (auto simp: path_is_within_prefix_def)

lemma auth_within_eq: "auth_within p q = path_within p q"
  using startswith_sep_iff [of p q] by (simp add: auth_within_def)

lemma within_refl [simp, intro]: "path_within p p"
  by (simp add: path_within_def)

lemma within_trans: "path_within p q \<Longrightarrow> path_within q r \<Longrightarrow> path_within p r"
  by (auto simp: path_within_def)

lemma within_antisym: "path_within p q \<Longrightarrow> path_within q p \<Longrightarrow> p = q"
  using join_split by (metis prefix_order.antisym path_within_def)

lemma within_common: "path_within p q \<Longrightarrow> path_within p r \<Longrightarrow> path_within q r \<or> path_within r q"
  by (auto simp: path_within_def prefix_same_cases)

definition overlap :: "str \<Rightarrow> str \<Rightarrow> bool" where
  "overlap p q \<longleftrightarrow> path_within p q \<or> path_within q p"

lemma prefixes_overlap_valid:
  "valid_path p \<Longrightarrow> valid_path q \<Longrightarrow> prefixes_overlap p q = Inr (overlap p q)"
  using path_is_within_prefix_Inr [of p q] path_is_within_prefix_Inr [of q p]
  by (auto simp: prefixes_overlap_def overlap_def)

lemma prefixes_overlap_Inr:
  "prefixes_overlap p q = Inr b \<longleftrightarrow> valid_path p \<and> valid_path q \<and> b = overlap p q"
  using prefixes_overlap_valid [of p q]
  by (auto simp: prefixes_overlap_def path_is_within_prefix_Inr bindE_Inr_iff split: if_splits)

lemma overlap_sym: "overlap p q \<longleftrightarrow> overlap q p"
  by (auto simp: overlap_def)

lemma overlap_shared: "path_within p q \<Longrightarrow> path_within p r \<Longrightarrow> overlap q r"
  using within_common by (auto simp: overlap_def)

section \<open>Relative paths\<close>

lemma grep_relative_absolute:
  assumes "grep_relative_path pfx path = Inr rel" and "path \<noteq> [] \<or> pfx \<noteq> []"
    and "pfx \<noteq> [] \<Longrightarrow> \<not> endswith path (lit ''/'')"
  shows "grep_absolute_path pfx rel = path"
proof (cases "pfx = [] \<or> path = pfx")
  case True
  then show ?thesis using assms by (auto simp: grep_relative_path_def grep_absolute_path_def)
next
  case False
  then have s: "startswith path (pfx @ lit ''/'')" and rel: "rel = drop (length pfx + 1) path"
    using assms by (auto simp: grep_relative_path_def Let_def lit_def split: if_splits)
  then obtain r where r: "path = pfx @ slash # r" by (auto simp: startswith_def prefix_def lit_def)
  moreover have "r \<noteq> []"
    using assms(3) False r by (auto simp: endswith_def lit_def suffix_def)
  ultimately show ?thesis using rel False by (auto simp: grep_absolute_path_def lit_def)
qed

lemma relative_parts_within:
  assumes "valid_path path" "valid_path pfx"
  shows "relative_parts pfx path =
    (if path_within path pfx then drop (length (split_on slash pfx)) (split_on slash path) else [])"
proof (cases "path = pfx")
  case False
  have ne: "pfx \<noteq> []" using valid_path_not_slash assms by blast
  show ?thesis
  proof (cases "path_within path pfx")
    case True
    then have "startswith path (pfx @ lit ''/'')" using startswith_sep_iff [of path pfx] False by simp
    then obtain r where r: "path = pfx @ slash # r" by (auto simp: startswith_def prefix_def lit_def)
    have sp: "split_on slash path = split_on slash pfx @ split_on slash r"
      by (simp add: r split_on_append_sep)
    have g: "\<And>part. part \<in> set (split_on slash r) \<Longrightarrow> \<not> bad_part part"
      using assms(1) sp by (auto simp: valid_path_def list_all_iff)
    have "\<not> startswith r (lit ''/'')"
    proof
      assume "startswith r (lit ''/'')"
      then have "[] \<in> set (split_on slash r)" by (auto simp: startswith_def lit_def prefix_def)
      then show False using g by (auto simp: bad_part_def)
    qed
    then have "pure_parts r = split_on slash r"
      using g not_slash_not_absolute [of r] by (auto simp: pure_parts_def bad_part_def intro!: filter_True)
    then show ?thesis using ne False True sp r by (simp add: relative_parts_def startswith_def lit_def)
  next
    case nw: False
    then show ?thesis using ne startswith_sep_iff [of path pfx] by (auto simp: relative_parts_def)
  qed
qed (use valid_path_not_slash assms in \<open>auto simp: relative_parts_def\<close>)

section \<open>Glob patterns\<close>

text \<open>
  The declarative reading of a pattern: the name is cut into one segment per token, each of
  which the token admits. The matcher finds such a cut if there is one.
\<close>

fun token_admits :: "fnm_token \<Rightarrow> str \<Rightarrow> bool" where
  "token_admits Star seg = True"
| "token_admits AnyChar seg = (length seg = 1)"
| "token_admits (Literal d) seg = (seg = [d])"
| "token_admits (Class neg cs) seg = (\<exists>c. seg = [c] \<and> class_member c cs \<noteq> neg)"

lemma segments_Cons:
  "(\<exists>segs. list_all2 P (t # ts) segs \<and> concat segs = s) \<longleftrightarrow>
   (\<exists>seg rest. s = seg @ rest \<and> P t seg \<and> (\<exists>segs. list_all2 P ts segs \<and> concat segs = rest))"
  (is "?L \<longleftrightarrow> ?R")
proof
  assume ?L
  then obtain seg segs where "P t seg" "list_all2 P ts segs" "s = seg @ concat segs"
    by (auto simp: list_all2_Cons1)
  then show ?R by blast
next
  assume ?R
  then obtain seg segs where "P t seg" "list_all2 P ts segs" "s = seg @ concat segs" by blast
  then have "list_all2 P (t # ts) (seg # segs) \<and> concat (seg # segs) = s" by simp
  then show ?L by blast
qed

lemma one_segment:
  "(\<exists>seg rest. c # s = seg @ rest \<and> (\<exists>d. seg = [d] \<and> R d) \<and> Q rest) \<longleftrightarrow> R c \<and> Q s"
proof
  assume "R c \<and> Q s"
  then have "c # s = [c] @ s \<and> (\<exists>d. [c] = [d] \<and> R d) \<and> Q s" by simp
  then show "\<exists>seg rest. c # s = seg @ rest \<and> (\<exists>d. seg = [d] \<and> R d) \<and> Q rest" by blast
qed auto

lemma fnm_match_spec:
  "fnm_match ts s \<longleftrightarrow> (\<exists>segs. list_all2 token_admits ts segs \<and> concat segs = s)"
proof (induction ts s rule: fnm_match.induct)
  case (3 ts c s)
  show ?case
  proof
    assume "fnm_match (Star # ts) (c # s)"
    then consider "fnm_match ts (c # s)" | "fnm_match (Star # ts) s" by auto
    then show "\<exists>segs. list_all2 token_admits (Star # ts) segs \<and> concat segs = c # s"
    proof cases
      case 1
      then obtain segs where "list_all2 token_admits ts segs" "concat segs = c # s" using 3 by auto
      then have "list_all2 token_admits (Star # ts) ([] # segs) \<and> concat ([] # segs) = c # s" by simp
      then show ?thesis by blast
    next
      case 2
      then obtain seg segs where "list_all2 token_admits ts segs" "seg @ concat segs = s"
        using 3 by (auto simp: list_all2_Cons1)
      then have "list_all2 token_admits (Star # ts) ((c # seg) # segs) \<and> concat ((c # seg) # segs) = c # s"
        by simp
      then show ?thesis by blast
    qed
  next
    assume "\<exists>segs. list_all2 token_admits (Star # ts) segs \<and> concat segs = c # s"
    then obtain seg segs where segs: "list_all2 token_admits ts segs" "seg @ concat segs = c # s"
      by (auto simp: list_all2_Cons1)
    show "fnm_match (Star # ts) (c # s)"
    proof (cases seg)
      case Nil
      then show ?thesis using segs 3 by auto
    next
      case (Cons d seg')
      then have "list_all2 token_admits (Star # ts) (seg' # segs)" "concat (seg' # segs) = s"
        using segs by auto
      then have "fnm_match (Star # ts) s" using 3 by blast
      then show ?thesis by simp
    qed
  qed
next
  case (2 ts)
  then show ?case unfolding segments_Cons by auto
next
  case (4 ts c s)
  have "(\<exists>seg rest. c # s = seg @ rest \<and> length seg = 1 \<and> Q rest) \<longleftrightarrow> Q s" for Q
    by (simp add: length_Suc_conv) (metis append_Cons append_Nil list.inject)
  then show ?case unfolding segments_Cons using 4 by simp
next
  case (5 d ts c s)
  have "(\<exists>seg rest. c # s = seg @ rest \<and> seg = [d] \<and> Q rest) \<longleftrightarrow> c = d \<and> Q s" for Q
    by auto
  then show ?case unfolding segments_Cons using 5 by simp
next
  case (6 neg cs ts c s)
  show ?case unfolding segments_Cons by (simp add: 6 one_segment del: append_eq_Cons_conv)
next
  case "7_1"
  show ?case by (auto simp: list_all2_Cons1)
next
  case "7_2"
  show ?case by (auto simp: list_all2_Cons1)
next
  case "7_3"
  show ?case by (auto simp: list_all2_Cons1)
qed auto

definition part_admits :: "str \<Rightarrow> str list \<Rightarrow> bool" where
  "part_admits part seg = (part = lit ''**'' \<or> (\<exists>name. seg = [name] \<and> fnmatchcase name part))"

lemma list_ex_drop_segments:
  "list_ex (\<lambda>i. P (drop i xs)) [0..<length xs + 1] \<longleftrightarrow> (\<exists>seg rest. xs = seg @ rest \<and> P rest)"
proof
  assume "list_ex (\<lambda>i. P (drop i xs)) [0..<length xs + 1]"
  then obtain i where "P (drop i xs)" by (fastforce simp: list_ex_iff simp del: upt_Suc)
  then show "\<exists>seg rest. xs = seg @ rest \<and> P rest" using append_take_drop_id by metis
next
  assume "\<exists>seg rest. xs = seg @ rest \<and> P rest"
  then obtain seg rest where "xs = seg @ rest" "P rest" by blast
  then have "length seg \<in> set [0..<length xs + 1] \<and> P (drop (length seg) xs)" by simp
  then show "list_ex (\<lambda>i. P (drop i xs)) [0..<length xs + 1]" unfolding list_ex_iff by blast
qed

lemma glob_segments:
  "glob_matches ps xs \<longleftrightarrow> (\<exists>segs. list_all2 part_admits ps segs \<and> concat segs = xs)"
proof (induction ps arbitrary: xs)
  case (Cons p ps)
  show ?case
  proof (cases "p = lit ''**''")
    case True
    then have "glob_matches (p # ps) xs
        = list_ex (\<lambda>index. glob_matches ps (drop index xs)) [0..<length xs + 1]"
      by (simp only: glob_matches.simps refl if_True)
    with True show ?thesis unfolding list_ex_drop_segments segments_Cons
      by (simp add: Cons.IH part_admits_def [of "lit ''**''"])
  next
    case False
    then have "(\<exists>seg rest. xs = seg @ rest \<and> part_admits p seg \<and> Q rest) \<longleftrightarrow>
        (case xs of [] \<Rightarrow> False | first # rest \<Rightarrow> fnmatchcase first p \<and> Q rest)" for Q
      by (cases xs) (simp_all add: part_admits_def one_segment)
    with False show ?thesis unfolding segments_Cons
      by (simp add: Cons.IH cong: list.case_cong)
  qed
qed auto

section \<open>Tree paths\<close>

lemma mapE_inj:
  assumes "mapE f xs = Inr zs" "mapE f ys = Inr zs"
    and "\<And>x y z. f x = Inr z \<Longrightarrow> f y = Inr z \<Longrightarrow> x = y"
  shows "xs = ys"
  using assms(1,2)
proof (induction xs arbitrary: ys zs)
  case Nil
  then show ?case by (cases ys) auto
next
  case (Cons x xs)
  then show ?case using assms(3) by (cases ys) fastforce+
qed

lemma logical_components_tree: "mapE tree_component_name ps = Inr cs \<Longrightarrow> logical_components cs = Some ps"
  by (induction ps arbitrary: cs) auto

lemma logical_tree_path_roundtrip:
  "valid_path p \<Longrightarrow> tree_components p = Inr cs \<Longrightarrow> logical_tree_path cs = Some p"
  by (simp add: tree_components_def logical_tree_path_def pure_parts_valid logical_components_tree)

lemma tree_components_inj:
  "valid_path p \<Longrightarrow> valid_path q \<Longrightarrow> tree_components p = Inr cs \<Longrightarrow> tree_components q = Inr cs \<Longrightarrow> p = q"
  using logical_tree_path_roundtrip by (metis option.inject)

lemma tree_components_not_Nil: "valid_path p \<Longrightarrow> tree_components p = Inr cs \<Longrightarrow> cs \<noteq> []"
  using logical_tree_path_roundtrip valid_path_not_slash
  by (fastforce simp: logical_tree_path_def)

lemma mapE_append:
  "mapE f (xs @ ys) = bindE (mapE f xs) (\<lambda>us. bindE (mapE f ys) (\<lambda>vs. Inr (us @ vs)))"
  by (induction xs) (auto simp: bindE_def split: sum.splits)

lemma mapE_prefix:
  assumes "mapE f xs = Inr us" "mapE f ys = Inr vs"
    and "\<And>x y z. f x = Inr z \<Longrightarrow> f y = Inr z \<Longrightarrow> x = y"
  shows "prefix us vs \<longleftrightarrow> prefix xs ys"
  using assms(1,2)
proof (induction xs arbitrary: ys us vs)
  case (Cons x xs)
  then show ?case using assms(3) by (cases ys) auto
qed auto

lemma tree_components_prefix:
  "valid_path p \<Longrightarrow> valid_path q \<Longrightarrow> tree_components p = Inr cs \<Longrightarrow> tree_components q = Inr ds \<Longrightarrow>
   prefix ds cs \<longleftrightarrow> path_within p q"
  using mapE_prefix [of tree_component_name "split_on slash q" ds "split_on slash p" cs] tree_component_inj
  by (auto simp: tree_components_def pure_parts_valid path_within_def)

definition scalar_str :: "str \<Rightarrow> bool" where
  "scalar_str s = list_all scalar s"

lemma tree_components_total:
  assumes "valid_path p" "scalar_str p" shows "\<exists>cs. tree_components p = Inr cs"
proof -
  have "\<exists>n. tree_component_name part = Inr n" if "part \<in> set (split_on slash p)" for part
    using tree_component_total [of part] set_split_on [OF that] assms(2)
    by (auto simp: scalar_str_def list_all_iff)
  then obtain g where "\<And>part. part \<in> set (split_on slash p) \<Longrightarrow> tree_component_name part = Inr (g part)"
    by metis
  then show ?thesis using assms mapE_total [of _ tree_component_name g]
    by (auto simp: tree_components_def pure_parts_valid)
qed

end
