(* ===== verification/Models.thy ===== *)
theory Models
  imports Paths
begin

text \<open>
  The data model of \<open>src/ctxfs/models.py\<close>: enumerations, operations, entries and the catalogue
  records, with the validators the classes declare. A Python \<open>float\<close> time is a rational.
\<close>

section \<open>Enumerations\<close>

datatype doc_class = APPEND | EDITABLE | IMMUTABLE

datatype operation_kind = PUT | MOVE | DELETE | DECISION

datatype submission_state = QUEUED | APPLIED | FAILED | DISCARDED

datatype decision_state =
    UPLOAD_REQUIRED | STORED | ABSENT | SKIPPED | RETRYABLE_FAILURE | TERMINAL_FAILURE

datatype machine_state = M_HEALTHY | M_DEGRADED | M_OFFLINE | M_DISABLED | M_UNKNOWN

datatype folder_state = F_HEALTHY | F_DEGRADED | F_MISSING | F_DISABLED | F_UNKNOWN

section \<open>Field constraints\<close>

text \<open>\<open>Field(min_length=1)\<close>, with and without a maximum, on a field that may be \<open>None\<close>.\<close>

definition min1 :: "str \<Rightarrow> bool" where
  "min1 s = (s \<noteq> [])"

definition opt_ok :: "('a \<Rightarrow> bool) \<Rightarrow> 'a option \<Rightarrow> bool" where
  "opt_ok P v = (case v of None \<Rightarrow> True | Some x \<Rightarrow> P x)"

definition len_1_128 :: "str \<Rightarrow> bool" where
  "len_1_128 s = (1 \<le> length s \<and> length s \<le> 128)"

definition invalid :: "'a res" where
  "invalid = Inl (ValidationError ''validation error'')"

text \<open>
  \<open>int(s, 16)\<close>: surrounding white space, a sign, a \<open>0x\<close> prefix, and digits with single
  underscores between them. A decimal digit of another script counts as its value; \<open>nd_zeros\<close>
  are the zeros of those scripts (Unicode 15, general category Nd), each followed by its nine
  successors.
\<close>

definition nd_zeros :: "int list" where
  "nd_zeros =
     [48, 1632, 1776, 1984, 2406, 2534, 2662, 2790, 2918, 3046, 3174, 3302, 3430, 3558, 3664,
      3792, 3872, 4160, 4240, 6112, 6160, 6470, 6608, 6784, 6800, 6992, 7088, 7232, 7248, 42528,
      43216, 43264, 43472, 43504, 43600, 44016, 65296, 66720, 68912, 69734, 69872, 69942, 70096,
      70384, 70736, 70864, 71248, 71360, 71472, 71904, 72016, 72784, 73040, 73120, 73552, 92768,
      92864, 93008, 120782, 120792, 120802, 120812, 120822, 123200, 123632, 124144, 125264, 130032]"

definition digit16 :: "int \<Rightarrow> bool" where
  "digit16 c = (list_ex (\<lambda>z. z \<le> c \<and> c \<le> z + 9) nd_zeros
     \<or> 97 \<le> c \<and> c \<le> 102 \<or> 65 \<le> c \<and> c \<le> 70)"

fun digits16 :: "bool \<Rightarrow> str \<Rightarrow> bool" where
  "digits16 after_digit [] = after_digit"
| "digits16 after_digit (c # s) =
     (if c = 95 then after_digit \<and> digits16 False s else digit16 c \<and> digits16 True s)"

definition int16_ok :: "str \<Rightarrow> bool" where
  "int16_ok s =
     (let s = strip_by (\<lambda>c. is_space c \<and> \<not> (28 \<le> c \<and> c \<le> 31)) s;
          s = (if startswith s (lit ''+'') \<or> startswith s (lit ''-'') then tl s else s)
      in if startswith s (lit ''0x'') \<or> startswith s (lit ''0X'')
         then digits16 True (drop 2 s) \<and> drop 2 s \<noteq> [] else digits16 False s)"

definition validate_sha256_content_hash :: "str \<Rightarrow> str res" where
  "validate_sha256_content_hash value =
     (if \<not> startswith value (lit ''sha256:'') \<or> length value \<noteq> 71
      then Inl (ValueError ''content_hash must be sha256:<64 hex>'')
      else if \<not> int16_ok (drop 7 value) then Inl (ValueError ''invalid literal for int()'')
      else Inr value)"

section \<open>Operations\<close>

record provenance =
  producer :: str
  producer_version :: str
  confidence :: "rat option"
  warnings :: "str list"

definition provenance_ok :: "provenance \<Rightarrow> bool" where
  "provenance_ok p = (min1 (producer p) \<and> min1 (producer_version p)
     \<and> opt_ok (\<lambda>c. 0 \<le> c \<and> c \<le> 1) (confidence p))"

record put_operation =
  put_path :: str
  put_source_key :: str
  put_source_version :: str
  put_doc_class :: doc_class
  put_file_format :: str
  put_text :: str
  put_provenance :: provenance

record move_operation =
  move_source_key :: str
  move_path :: str
  move_source_version :: str
  move_expected_content_hash :: str

record delete_operation =
  delete_source_key :: str
  delete_source_version :: str

record decision_operation =
  decision_source_key :: str
  decision_source_version :: str
  decision_op_state :: decision_state
  decision_path :: "str option"
  decision_failure_code :: "str option"
  decision_failure_message :: "str option"
  decision_retry_after_seconds :: "int option"

text \<open>\<open>CtxfsOperation = PutOperation | MoveOperation | DeleteOperation | DecisionOperation\<close>.\<close>

datatype operation =
    Put put_operation
  | Move move_operation
  | Delete delete_operation
  | Decide decision_operation

fun kind :: "operation \<Rightarrow> operation_kind" where
  "kind (Put _) = PUT"
| "kind (Move _) = MOVE"
| "kind (Delete _) = DELETE"
| "kind (Decide _) = DECISION"

fun source_key :: "operation \<Rightarrow> str" where
  "source_key (Put p) = put_source_key p"
| "source_key (Move m) = move_source_key m"
| "source_key (Delete d) = delete_source_key d"
| "source_key (Decide d) = decision_source_key d"

text \<open>The constraints an operation met when it was constructed.\<close>

definition put_ok :: "put_operation \<Rightarrow> bool" where
  "put_ok p = (min1 (put_path p) \<and> min1 (put_source_key p) \<and> min1 (put_source_version p)
     \<and> min1 (put_file_format p) \<and> provenance_ok (put_provenance p))"

definition move_ok :: "move_operation \<Rightarrow> bool" where
  "move_ok m = (min1 (move_source_key m) \<and> min1 (move_path m) \<and> min1 (move_source_version m)
     \<and> min1 (move_expected_content_hash m)
     \<and> validate_sha256_content_hash (move_expected_content_hash m) = Inr (move_expected_content_hash m))"

definition delete_ok :: "delete_operation \<Rightarrow> bool" where
  "delete_ok d = (min1 (delete_source_key d) \<and> min1 (delete_source_version d))"

definition decision_ok :: "decision_operation \<Rightarrow> bool" where
  "decision_ok d = (min1 (decision_source_key d) \<and> min1 (decision_source_version d)
     \<and> opt_ok min1 (decision_path d) \<and> opt_ok min1 (decision_failure_code d)
     \<and> opt_ok min1 (decision_failure_message d)
     \<and> opt_ok (\<lambda>n. 0 \<le> n) (decision_retry_after_seconds d))"

fun operation_ok :: "operation \<Rightarrow> bool" where
  "operation_ok (Put p) = put_ok p"
| "operation_ok (Move m) = move_ok m"
| "operation_ok (Delete d) = delete_ok d"
| "operation_ok (Decide d) = decision_ok d"

section \<open>Entries, submissions, decisions\<close>

record entry =
  entry_path :: str
  entry_source_key :: str
  source_version :: str
  doc_class :: doc_class
  file_format :: str
  content_hash :: str
  size_bytes :: nat
  entry_line_count :: nat
  object_id :: str
  entry_provenance :: provenance
  created_at :: rat
  updated_at :: rat

record submission =
  submission_id :: str
  submission_state :: submission_state
  operation_count :: nat
  submission_error :: "string option"

record writer_status_summary =
  submission_state_counts :: "(submission_state \<times> nat) list"
  decision_state_counts :: "(decision_state \<times> nat) list"
  entry_count :: nat
  incomplete_entry_count :: nat
  queue_depth :: nat
  oldest_unapplied_submission_age_seconds :: "nat option"
  latest_submission_updated_at :: "rat option"

record deletion_result =
  deletion_scope :: str
  deletion_user_id :: str
  deletion_writer_id :: "str option"
  deletion_prefix :: "str option"
  receipt :: "str option"
  deleted_entry_count :: nat
  deleted_decision_count :: nat
  queued_submission_count :: nat
  writer_registration_count :: nat

section \<open>Catalogue records\<close>

record machine =
  machine_id :: str
  machine_key :: str
  machine_name :: str
  machine_description :: "str option"
  machine_state :: machine_state
  machine_platform :: "str option"
  machine_ctxd_version :: "str option"
  credential_key_id :: "str option"
  machine_registered_at :: rat

definition catalog_text_ok :: "str \<Rightarrow> bool" where
  "catalog_text_ok value = (strip value \<noteq> [] \<and> \<not> has_control_character value)"

definition validate_machine :: "machine \<Rightarrow> machine res" where
  "validate_machine m =
     (if list_all (\<lambda>s. len_1_128 s \<and> catalog_text_ok s) [machine_id m, machine_key m, machine_name m]
        \<and> list_all (opt_ok (\<lambda>s. len_1_128 s \<and> catalog_text_ok s))
            [machine_platform m, machine_ctxd_version m, credential_key_id m]
        \<and> opt_ok (\<lambda>s. length s \<le> 1024 \<and> \<not> has_control_character s) (machine_description m)
        \<and> 0 < machine_registered_at m
      then Inr m else invalid)"

record tracked_folder =
  folder_id :: str
  folder_machine_id :: str
  folder_key :: str
  folder_name :: str
  folder_description :: "str option"
  folder_state :: folder_state
  local_registration_id :: str
  folder_registered_at :: rat

definition validate_folder :: "tracked_folder \<Rightarrow> tracked_folder res" where
  "validate_folder f =
     (if list_all min1 [folder_id f, folder_machine_id f, folder_key f, folder_name f,
          local_registration_id f]
        \<and> 0 < folder_registered_at f
      then Inr f else invalid)"

section \<open>Read results\<close>

text \<open>\<open>Bounded\<close>: some items, whether they are all of them, and what stopped the listing.\<close>

datatype stop_reason = LIMIT | CATALOG_MISMATCH | MAX_BYTES | EOF | TIMEOUT | INCOMPLETE_SCAN

record 'a bounded =
  items :: "'a list"
  complete :: bool
  stopped_by :: "stop_reason option"

datatype entry_kind = FileEntry | DirectoryKind

record directory_entry =
  de_path :: str
  de_kind :: entry_kind
  de_size_bytes :: "nat option"
  de_line_count :: "nat option"
  de_content_hash :: "str option"

record read_result =
  rr_path :: str
  rr_text :: str
  rr_content_hash :: str
  rr_complete :: bool
  rr_stopped_by :: "stop_reason option"

record read_lines_result =
  rl_path :: str
  rl_start_line :: nat
  rl_end_line :: nat
  rl_lines :: "str list"
  rl_content_hash :: str
  rl_complete :: bool
  rl_stopped_by :: "stop_reason option"

record grep_match =
  gm_path :: str
  gm_line_number :: nat
  gm_line :: str
  gm_match_start :: nat
  gm_match_end :: nat
  gm_content_hash :: str

record grep_page =
  gp_items :: "grep_match list"
  gp_complete :: bool
  gp_stopped_by :: "stop_reason option"
  gp_next_cursor :: "str option"
  gp_continuation_required :: bool
  gp_continuation_hint :: "str option"

definition timeout_hint :: str where
  "timeout_hint = lit ''Search timed out before completion. Repeat grep with the same pattern and prefix, passing next_cursor as cursor. If the same page times out again, increase timeout_seconds or narrow prefix.''"

definition more_hint :: str where
  "more_hint = lit ''More matches may exist. Repeat grep with the same pattern and prefix, passing next_cursor as cursor.''"

definition set_continuation_action :: "grep_page \<Rightarrow> grep_page res" where
  "set_continuation_action p =
     (if gp_complete p \<and> gp_next_cursor p \<noteq> None
      then Inl (ValueError ''complete grep page cannot include a continuation cursor'')
      else Inr (p\<lparr>gp_continuation_required := (gp_next_cursor p \<noteq> None),
                   gp_continuation_hint :=
                     (if gp_next_cursor p = None then None
                      else if gp_stopped_by p = Some TIMEOUT then Some timeout_hint
                      else Some more_hint)\<rparr>))"

end
