(* ===== verification/Auth.thy ===== *)
theory Auth
  imports Models
begin

text \<open>
  The authorization policy of \<open>src/ctxfs/auth.py\<close>: scopes, credential grants, principals and the
  decision \<open>authorize\<close>. Grants and principals are validated when they are made; a made value is
  the \<open>Inr\<close> of its constructor.
\<close>

datatype scope = STATUS | STATUS_WRITE | READ | SUBMIT | ENROLL | ADMIN

datatype principal_kind = API_KEY | LOCAL_SOCKET

datatype local_socket_trust = TRUST_DISABLED | TRUSTED_ADMIN

datatype denial_reason = UNAUTHENTICATED | MISSING_SCOPE | PREFIX_REQUIRED | PREFIX_NOT_GRANTED

record credential_grant =
  grant_principal_id :: str
  grant_key_id :: str
  grant_scopes :: "scope set"
  grant_prefixes :: "str list"
  grant_machine_id :: "str option"

record principal =
  principal_id :: str
  principal_kind :: principal_kind
  scopes :: "scope set"
  key_id :: "str option"
  prefixes :: "str list"
  principal_machine_id :: "str option"

record authorization_decision =
  allowed :: bool
  required_scope :: scope
  decision_principal_id :: "str option"
  decision_key_id :: "str option"
  denial_reason :: "denial_reason option"

section \<open>Validation of grants\<close>

definition require_identifier :: "str \<Rightarrow> unit res" where
  "require_identifier value =
     guardE (value \<noteq> [] \<and> strip value = value) (ValueError ''must be a non-empty, trimmed string'')"

definition auth_normalize_prefix :: "str \<Rightarrow> str res" where
  "auth_normalize_prefix pfx =
     bindE (auth_normalize_path pfx) (\<lambda>normalized.
       if normalized = [] then Inl (ValueError ''prefix grants cannot be empty'') else Inr normalized)"

definition validate_grants :: "scope set \<Rightarrow> str list \<Rightarrow> str option \<Rightarrow> str list res" where
  "validate_grants ss ps machine =
     bindE (mapE auth_normalize_prefix ps) (\<lambda>normalized.
     if length (remdups normalized) \<noteq> length normalized
       then Inl (ValueError ''prefix grants must be unique'')
     else if normalized \<noteq> [] \<and> SUBMIT \<notin> ss
       then Inl (ValueError ''prefix grants require the submit scope'')
     else if ADMIN \<in> ss \<and> card ss \<noteq> 1
       then Inl (ValueError ''admin is an all-capability scope and must stand alone'')
     else if ENROLL \<in> ss \<and> card ss \<noteq> 1
       then Inl (ValueError ''enroll scope must stand alone'')
     else if ENROLL \<in> ss \<and> normalized \<noteq> []
       then Inl (ValueError ''enroll scope cannot have prefix grants'')
     else if STATUS_WRITE \<in> ss \<and> machine = None
       then Inl (ValueError ''status:write scope requires a machine binding'')
     else if machine \<noteq> None \<and> (ss \<noteq> {SUBMIT, STATUS_WRITE} \<or> length normalized \<noteq> 1)
       then Inl (ValueError ''machine credentials require submit and status:write with one prefix'')
     else Inr normalized)"

definition make_grant :: "credential_grant \<Rightarrow> credential_grant res" where
  "make_grant g =
     bindE (require_identifier (grant_principal_id g)) (\<lambda>_.
     bindE (require_identifier (grant_key_id g)) (\<lambda>_.
     bindE (case grant_machine_id g of None \<Rightarrow> Inr () | Some m \<Rightarrow> require_identifier m) (\<lambda>_.
     bindE (validate_grants (grant_scopes g) (grant_prefixes g) (grant_machine_id g)) (\<lambda>normalized.
     Inr (g\<lparr>grant_prefixes := normalized\<rparr>)))))"

definition make_principal :: "principal \<Rightarrow> principal res" where
  "make_principal p =
     bindE (require_identifier (principal_id p)) (\<lambda>_.
     if principal_kind p = API_KEY \<and> (key_id p = None \<or> key_id p = Some [])
       then Inl (ValueError ''API-key principals require a key_id'')
     else if principal_kind p = LOCAL_SOCKET \<and> key_id p \<noteq> None
       then Inl (ValueError ''local-socket principals cannot have a key_id'')
     else
     bindE (case key_id p of None \<Rightarrow> Inr () | Some k \<Rightarrow> require_identifier k) (\<lambda>_.
     bindE (case principal_machine_id p of None \<Rightarrow> Inr () | Some m \<Rightarrow> require_identifier m) (\<lambda>_.
     bindE (validate_grants (scopes p) (prefixes p) (principal_machine_id p)) (\<lambda>normalized.
     Inr (p\<lparr>prefixes := normalized\<rparr>)))))"

definition grant_principal :: "credential_grant \<Rightarrow> principal res" where
  "grant_principal g =
     make_principal
       \<lparr>principal_id = grant_principal_id g, principal_kind = API_KEY, scopes = grant_scopes g,
        key_id = Some (grant_key_id g), prefixes = grant_prefixes g,
        principal_machine_id = grant_machine_id g\<rparr>"

section \<open>Decisions\<close>

definition http_status :: "authorization_decision \<Rightarrow> nat option" where
  "http_status d =
     (if allowed d then None
      else if denial_reason d = Some UNAUTHENTICATED then Some 401
      else Some 403)"

definition local_socket_principal :: "local_socket_trust \<Rightarrow> principal option res" where
  "local_socket_principal policy =
     (if policy = TRUST_DISABLED then Inr None
      else bindE (make_principal
             \<lparr>principal_id = lit ''local-socket'', principal_kind = LOCAL_SOCKET, scopes = {ADMIN},
              key_id = None, prefixes = [], principal_machine_id = None\<rparr>) (\<lambda>p. Inr (Some p)))"

definition allow :: "principal \<Rightarrow> scope \<Rightarrow> authorization_decision" where
  "allow p s = \<lparr>allowed = True, required_scope = s, decision_principal_id = Some (principal_id p),
     decision_key_id = key_id p, denial_reason = None\<rparr>"

definition deny :: "scope \<Rightarrow> denial_reason \<Rightarrow> principal option \<Rightarrow> authorization_decision" where
  "deny s reason p = \<lparr>allowed = False, required_scope = s,
     decision_principal_id = map_option principal_id p,
     decision_key_id = (case p of None \<Rightarrow> None | Some p \<Rightarrow> key_id p),
     denial_reason = Some reason\<rparr>"

definition authorize :: "principal option \<Rightarrow> scope \<Rightarrow> str option \<Rightarrow> authorization_decision res" where
  "authorize who required path =
     (case who of
        None \<Rightarrow> Inr (deny required UNAUTHENTICATED None)
      | Some p \<Rightarrow>
          if ADMIN \<in> scopes p then Inr (allow p required)
          else if required \<notin> scopes p then Inr (deny required MISSING_SCOPE (Some p))
          else if required \<noteq> SUBMIT then Inr (allow p required)
          else (case path of
              None \<Rightarrow> Inr (deny required PREFIX_REQUIRED (Some p))
            | Some path \<Rightarrow>
                bindE (auth_normalize_path path) (\<lambda>normalized_path.
                if \<not> list_ex (auth_within normalized_path) (prefixes p)
                then Inr (deny required PREFIX_NOT_GRANTED (Some p))
                else Inr (allow p required))))"

section \<open>What validation guarantees\<close>

text \<open>The invariant of a validated set of grants.\<close>

definition grants_valid :: "scope set \<Rightarrow> str list \<Rightarrow> str option \<Rightarrow> bool" where
  "grants_valid ss ps machine \<longleftrightarrow>
     list_all valid_path ps \<and> distinct ps \<and>
     (ps \<noteq> [] \<longrightarrow> SUBMIT \<in> ss) \<and>
     (ADMIN \<in> ss \<longrightarrow> ss = {ADMIN}) \<and>
     (ENROLL \<in> ss \<longrightarrow> ss = {ENROLL} \<and> ps = []) \<and>
     (machine = None \<longrightarrow> STATUS_WRITE \<notin> ss) \<and>
     (machine \<noteq> None \<longrightarrow> ss = {SUBMIT, STATUS_WRITE} \<and> length ps = 1)"

lemma auth_normalize_prefix_Inr [simp]: "auth_normalize_prefix p = Inr q \<longleftrightarrow> valid_path p \<and> q = p"
  using valid_path_not_slash [of p] by (auto simp: auth_normalize_prefix_def)

lemma mapE_normalize_prefix:
  "mapE auth_normalize_prefix ps = Inr qs \<longleftrightarrow> list_all valid_path ps \<and> qs = ps"
  by (induction ps arbitrary: qs) auto

lemma card_1_member: "x \<in> A \<Longrightarrow> card A = 1 \<longleftrightarrow> A = {x}"
  by (auto simp: card_1_singleton_iff)

lemma length_remdups_iff: "length (remdups xs) = length xs \<longleftrightarrow> distinct xs"
  by (metis distinct_remdups_id length_remdups_card_conv card_distinct distinct_card)

lemma validate_grants_Inr:
  "validate_grants ss ps machine = Inr qs \<longleftrightarrow> grants_valid ss ps machine \<and> qs = ps"
proof (cases "list_all valid_path ps")
  case True
  then have v: "mapE auth_normalize_prefix ps = Inr ps" by (simp add: mapE_normalize_prefix)
  have a: "(ADMIN \<in> ss \<and> card ss \<noteq> 1) \<longleftrightarrow> \<not> (ADMIN \<in> ss \<longrightarrow> ss = {ADMIN})"
    and e: "(ENROLL \<in> ss \<and> card ss \<noteq> 1) \<longleftrightarrow> \<not> (ENROLL \<in> ss \<longrightarrow> ss = {ENROLL})"
    by (auto simp: card_1_member [of ADMIN ss] card_1_member [of ENROLL ss] simp del: One_nat_def)
  show ?thesis
    unfolding validate_grants_def v bindE_simps a e length_remdups_iff grants_valid_def if_Inl_iff
    sum.inject eq_commute [of qs ps] using True by argo
next
  case False
  then show ?thesis by (auto simp: validate_grants_def grants_valid_def mapE_normalize_prefix)
qed

definition ident_ok :: "str \<Rightarrow> bool" where
  "ident_ok s \<longleftrightarrow> s \<noteq> [] \<and> strip s = s"

lemma require_identifier_Inr [simp]: "require_identifier s = Inr u \<longleftrightarrow> ident_ok s"
  by (auto simp: require_identifier_def ident_ok_def)

definition grant_ok :: "credential_grant \<Rightarrow> bool" where
  "grant_ok g \<longleftrightarrow> ident_ok (grant_principal_id g) \<and> ident_ok (grant_key_id g) \<and>
     (\<forall>m. grant_machine_id g = Some m \<longrightarrow> ident_ok m) \<and>
     grants_valid (grant_scopes g) (grant_prefixes g) (grant_machine_id g)"

definition principal_ok :: "principal \<Rightarrow> bool" where
  "principal_ok p \<longleftrightarrow> ident_ok (principal_id p) \<and>
     (case principal_kind p of API_KEY \<Rightarrow> (\<exists>k. key_id p = Some k \<and> ident_ok k)
      | LOCAL_SOCKET \<Rightarrow> key_id p = None) \<and>
     (\<forall>m. principal_machine_id p = Some m \<longrightarrow> ident_ok m) \<and>
     grants_valid (scopes p) (prefixes p) (principal_machine_id p)"

lemma make_grant_Inr: "make_grant g = Inr h \<longleftrightarrow> grant_ok g \<and> h = g"
  by (auto simp: make_grant_def grant_ok_def validate_grants_Inr split: option.splits)

lemma make_principal_Inr: "make_principal p = Inr q \<longleftrightarrow> principal_ok p \<and> q = p"
  by (cases "principal_kind p")
    (auto simp: make_principal_def principal_ok_def validate_grants_Inr ident_ok_def
      split: option.splits if_splits)

lemma grant_principal_ok:
  assumes "grant_ok g"
  shows "\<exists>p. grant_principal g = Inr p \<and> principal_ok p \<and> scopes p = grant_scopes g
     \<and> prefixes p = grant_prefixes g \<and> key_id p = Some (grant_key_id g)
     \<and> principal_machine_id p = grant_machine_id g"
  using assms by (auto simp: grant_principal_def make_principal_Inr principal_ok_def grant_ok_def)

section \<open>What a decision means\<close>

text \<open>The policy as a condition: who may use which scope on which path.\<close>

definition permitted :: "principal \<Rightarrow> scope \<Rightarrow> str option \<Rightarrow> bool" where
  "permitted p s path \<longleftrightarrow>
     ADMIN \<in> scopes p \<or>
     s \<in> scopes p \<and> (s = SUBMIT \<longrightarrow> (\<exists>q pfx. path = Some q \<and> pfx \<in> set (prefixes p) \<and> path_within q pfx))"

lemma auth_normalize_path_Inl: "\<not> valid_path p \<Longrightarrow> \<exists>e. auth_normalize_path p = Inl e"
  using auth_normalize_path_Inr_iff [of p] by (cases "auth_normalize_path p") auto

lemma authorize_Inr:
  assumes "authorize (Some p) s path = Inr d"
  shows "allowed d \<longleftrightarrow> permitted p s path"
  using assms
  by (auto simp: authorize_def permitted_def allow_def deny_def list_ex_iff auth_within_eq
      split: option.splits if_splits)

end
