(* ===== verification/FileSystem.thy ===== *)
theory FileSystem
  imports Models "HOL-Library.AList"
begin

text \<open>
  The file system below the store's root, as far as \<open>src/ctxfs/store.py\<close> uses it: directories and
  hard-linked files, with the POSIX behaviour of \<open>mkdir(parents=True, exist_ok=True)\<close>, \<open>os.link\<close>,
  \<open>os.replace\<close>, \<open>unlink\<close>, \<open>rmdir\<close>, \<open>write_bytes\<close> and \<open>read_bytes\<close> on it. A location is the list of
  components below the root; the store makes no symbolic links. Disk-full, permission and I/O
  errors of the operating system are not modelled.
\<close>

type_synonym loc = "str list"

datatype node = Dir | File nat

record fs =
  nodes :: "(loc \<times> node) list"
  idata :: "nat \<Rightarrow> bytes"
  next_ino :: nat

section \<open>Looking at the tree\<close>

definition look :: "fs \<Rightarrow> loc \<Rightarrow> node option" where
  "look fs p = (if p = [] then Some Dir else map_of (nodes fs) p)"

definition fs_exists :: "fs \<Rightarrow> loc \<Rightarrow> bool" where
  "fs_exists fs p = (look fs p \<noteq> None)"

definition is_file :: "fs \<Rightarrow> loc \<Rightarrow> bool" where
  "is_file fs p = (case look fs p of Some (File _) \<Rightarrow> True | _ \<Rightarrow> False)"

definition is_dir :: "fs \<Rightarrow> loc \<Rightarrow> bool" where
  "is_dir fs p = (look fs p = Some Dir)"

definition file_below :: "fs \<Rightarrow> loc \<Rightarrow> bool" where
  "file_below fs p = list_ex (is_file fs) (prefixes (butlast p))"

text \<open>The error of a system call on a location that is not there.\<close>

definition missing :: "fs \<Rightarrow> loc \<Rightarrow> exn" where
  "missing fs p = (if file_below fs p then NotADirectoryError ''not a directory''
                   else FileNotFoundError ''no such file or directory'')"

definition need_parent :: "fs \<Rightarrow> loc \<Rightarrow> unit res" where
  "need_parent fs p = guardE (is_dir fs (butlast p)) (missing fs p)"

definition read_bytes :: "fs \<Rightarrow> loc \<Rightarrow> bytes res" where
  "read_bytes fs p =
     (case look fs p of
        None \<Rightarrow> Inl (missing fs p)
      | Some Dir \<Rightarrow> Inl (IsADirectoryError ''is a directory'')
      | Some (File i) \<Rightarrow> Inr (idata fs i))"

section \<open>Changing the tree\<close>

definition set_node :: "fs \<Rightarrow> loc \<Rightarrow> node \<Rightarrow> fs" where
  "set_node fs p n = fs\<lparr>nodes := AList.update p n (nodes fs)\<rparr>"

definition del_node :: "fs \<Rightarrow> loc \<Rightarrow> fs" where
  "del_node fs p = fs\<lparr>nodes := AList.delete p (nodes fs)\<rparr>"

definition mkdirs :: "fs \<Rightarrow> loc \<Rightarrow> fs res" where
  "mkdirs fs p =
     (if file_below fs p then Inl (NotADirectoryError ''not a directory'')
      else if is_file fs p then Inl (FileExistsError ''file exists'')
      else Inr (fs\<lparr>nodes := nodes fs @
        map (\<lambda>q. (q, Dir)) (filter (\<lambda>q. look fs q = None) (prefixes p))\<rparr>))"

definition link :: "fs \<Rightarrow> loc \<Rightarrow> loc \<Rightarrow> fs res" where
  "link fs src dst =
     (case look fs src of
        None \<Rightarrow> Inl (missing fs src)
      | Some Dir \<Rightarrow> Inl (PermissionError ''operation not permitted'')
      | Some (File i) \<Rightarrow>
          if fs_exists fs dst then Inl (FileExistsError ''file exists'')
          else bindE (need_parent fs dst) (\<lambda>_. Inr (set_node fs dst (File i))))"

definition has_child :: "fs \<Rightarrow> loc \<Rightarrow> bool" where
  "has_child fs p = list_ex (\<lambda>(q, _). strict_prefix p q) (nodes fs)"

definition move_subtree :: "fs \<Rightarrow> loc \<Rightarrow> loc \<Rightarrow> fs" where
  "move_subtree fs src dst =
     fs\<lparr>nodes := map (\<lambda>(q, n). (if prefix src q then dst @ drop (length src) q else q, n))
        (AList.delete dst (nodes fs))\<rparr>"

text \<open>\<open>os.replace\<close>: a rename over two links of one file does nothing.\<close>

definition replace :: "fs \<Rightarrow> loc \<Rightarrow> loc \<Rightarrow> fs res" where
  "replace fs src dst =
     (case look fs src of
        None \<Rightarrow> Inl (missing fs src)
      | Some (File i) \<Rightarrow>
         (case look fs dst of
            Some Dir \<Rightarrow> Inl (IsADirectoryError ''is a directory'')
          | Some (File j) \<Rightarrow> if i = j then Inr fs else Inr (set_node (del_node fs src) dst (File i))
          | None \<Rightarrow> bindE (need_parent fs dst) (\<lambda>_. Inr (set_node (del_node fs src) dst (File i))))
      | Some Dir \<Rightarrow>
         (if src = dst then Inr fs
          else if prefix src dst then Inl (OSError ''invalid argument'')
          else case look fs dst of
            Some (File _) \<Rightarrow> Inl (NotADirectoryError ''not a directory'')
          | Some Dir \<Rightarrow> if has_child fs dst then Inl (OSError ''directory not empty'')
                       else Inr (move_subtree fs src dst)
          | None \<Rightarrow> bindE (need_parent fs dst) (\<lambda>_. Inr (move_subtree fs src dst))))"

definition unlink :: "fs \<Rightarrow> loc \<Rightarrow> fs res" where
  "unlink fs p =
     (case look fs p of
        None \<Rightarrow> Inl (missing fs p)
      | Some Dir \<Rightarrow> Inl (IsADirectoryError ''is a directory'')
      | Some (File _) \<Rightarrow> Inr (del_node fs p))"

definition rmdir :: "fs \<Rightarrow> loc \<Rightarrow> fs res" where
  "rmdir fs p =
     (case look fs p of
        None \<Rightarrow> Inl (missing fs p)
      | Some (File _) \<Rightarrow> Inl (NotADirectoryError ''not a directory'')
      | Some Dir \<Rightarrow> if p = [] \<or> has_child fs p then Inl (OSError ''directory not empty'')
                   else Inr (del_node fs p))"

definition write_bytes :: "fs \<Rightarrow> loc \<Rightarrow> bytes \<Rightarrow> fs res" where
  "write_bytes fs p d =
     (case look fs p of
        Some Dir \<Rightarrow> Inl (IsADirectoryError ''is a directory'')
      | Some (File i) \<Rightarrow> Inr (fs\<lparr>idata := (idata fs)(i := d)\<rparr>)
      | None \<Rightarrow> bindE (need_parent fs p) (\<lambda>_.
          Inr ((set_node fs p (File (next_ino fs)))
            \<lparr>idata := (idata fs)(next_ino fs := d), next_ino := Suc (next_ino fs)\<rparr>)))"

section \<open>Helpers of the store\<close>

text \<open>\<open>_unlink_if_exists\<close>.\<close>

definition unlink_if_exists :: "fs \<Rightarrow> loc option \<Rightarrow> fs res" where
  "unlink_if_exists fs p =
     (case p of None \<Rightarrow> Inr fs
      | Some p \<Rightarrow> (case unlink fs p of
            Inl (FileNotFoundError _) \<Rightarrow> Inr fs
          | r \<Rightarrow> r))"

text \<open>\<open>_remove_empty_parents\<close>: directories are removed upwards until one is in use or is \<open>stop_at\<close>.\<close>

function remove_empty_parents :: "fs \<Rightarrow> loc \<Rightarrow> loc \<Rightarrow> fs" where
  "remove_empty_parents fs p stop_at =
     (if \<not> prefix stop_at p \<or> p = stop_at then fs
      else case rmdir fs p of
          Inl _ \<Rightarrow> fs
        | Inr fs' \<Rightarrow> remove_empty_parents fs' (butlast p) stop_at)"
  by pat_completeness auto
termination
  by (relation "measure (\<lambda>(_, p, _). length p)") (auto simp: rmdir_def split: option.splits node.splits if_splits)

declare remove_empty_parents.simps [simp del]

section \<open>Laws of the primitives\<close>

named_theorems look_simps \<open>what \<open>look\<close> sees after a change\<close>

lemma look_Nil [look_simps]: "look fs [] = Some Dir"
  by (simp add: look_def)

lemma look_set_node [look_simps]:
  "look (set_node fs p n) q = (if q = [] then Some Dir else if q = p then Some n else look fs q)"
  by (simp add: look_def set_node_def update_conv')

lemma look_del_node [look_simps]:
  "look (del_node fs p) q = (if q = [] then Some Dir else if q = p then None else look fs q)"
  by (simp add: look_def del_node_def delete_conv')

lemma look_idata [look_simps]: "look (fs\<lparr>idata := d, next_ino := k\<rparr>) q = look fs q"
  "look (fs\<lparr>idata := d\<rparr>) q = look fs q"
  by (simp_all add: look_def)

lemma idata_nodes [simp]:
  "idata (set_node fs p n) = idata fs" "idata (del_node fs p) = idata fs"
  "next_ino (set_node fs p n) = next_ino fs" "next_ino (del_node fs p) = next_ino fs"
  by (simp_all add: set_node_def del_node_def)

lemma look_mkdirs:
  assumes "mkdirs fs p = Inr fs'"
  shows "look fs' q = (if prefix q p \<and> look fs q = None then Some Dir else look fs q)"
proof -
  have m: "map_of (map (\<lambda>q. (q, Dir)) (filter P xs)) q = (if q \<in> set xs \<and> P q then Some Dir else None)"
    for P xs by (induction xs) auto
  show ?thesis using assms
    by (auto simp: mkdirs_def look_def m map_add_def split: option.splits)
qed

lemma mkdirs_idata: "mkdirs fs p = Inr fs' \<Longrightarrow> idata fs' = idata fs \<and> next_ino fs' = next_ino fs"
  by (auto simp: mkdirs_def)

lemma has_child_iff: "has_child fs p \<longleftrightarrow> (\<exists>q. strict_prefix p q \<and> look fs q \<noteq> None)"
proof -
  have "has_child fs p \<longleftrightarrow> (\<exists>q \<in> fst ` set (nodes fs). strict_prefix p q)"
    by (force simp: has_child_def list_ex_iff)
  also have "\<dots> \<longleftrightarrow> (\<exists>q. strict_prefix p q \<and> map_of (nodes fs) q \<noteq> None)"
    unfolding map_of_eq_None_iff by blast
  moreover have "look fs q = map_of (nodes fs) q" if "strict_prefix p q" for q
    using that by (cases q) (simp_all add: look_def)
  ultimately show ?thesis by (metis (no_types))
qed

text \<open>The files of a tree, as a map from locations to inodes.\<close>

definition fm :: "fs \<Rightarrow> loc \<Rightarrow> nat option" where
  "fm fs p = (case look fs p of Some (File i) \<Rightarrow> Some i | _ \<Rightarrow> None)"

lemma fm_Some_iff: "fm fs p = Some i \<longleftrightarrow> look fs p = Some (File i)"
  by (auto simp: fm_def split: option.splits node.splits)

lemma is_file_iff: "is_file fs p \<longleftrightarrow> fm fs p \<noteq> None"
  by (auto simp: is_file_def fm_def split: option.splits node.splits)

lemma fm_set_file: "p \<noteq> [] \<Longrightarrow> fm (set_node fs p (File i)) = (fm fs)(p \<mapsto> i)"
  by (auto simp: fm_def look_simps fun_eq_iff)

lemma fm_del: "fm (del_node fs p) = (fm fs)(p := None)"
  by (auto simp: fm_def look_simps fun_eq_iff)

lemma fm_mkdirs: "mkdirs fs p = Inr fs' \<Longrightarrow> fm fs' = fm fs"
  by (auto simp: fm_def look_mkdirs fun_eq_iff)

text \<open>Every node has its parent directory, and inodes are numbered below the next one.\<close>

definition wf_fs :: "fs \<Rightarrow> bool" where
  "wf_fs fs \<longleftrightarrow>
     (\<forall>p. look fs p \<noteq> None \<longrightarrow> look fs (butlast p) = Some Dir) \<and>
     (\<forall>p i. look fs p = Some (File i) \<longrightarrow> i < next_ino fs)"

lemma wf_parent: "wf_fs fs \<Longrightarrow> look fs p = Some n \<Longrightarrow> look fs (butlast p) = Some Dir"
  by (auto simp: wf_fs_def)

lemma wf_ino: "wf_fs fs \<Longrightarrow> fm fs p = Some i \<Longrightarrow> i < next_ino fs"
  by (auto simp: wf_fs_def fm_Some_iff)

lemma strict_prefix_butlast: "strict_prefix q p \<longleftrightarrow> p \<noteq> [] \<and> prefix q (butlast p)"
proof (cases p rule: rev_cases)
  case (snoc ys y)
  then show ?thesis
    by (auto simp: strict_prefix_def prefix_snoc dest: prefix_length_le)
qed simp

lemma wf_ancestor:
  assumes "wf_fs fs" "strict_prefix q p" "look fs p \<noteq> None"
  shows "look fs q = Some Dir"
  using assms(2,3)
proof (induction "length p" arbitrary: p rule: less_induct)
  case less
  then have p: "p \<noteq> []" "prefix q (butlast p)" "look fs (butlast p) = Some Dir"
    using assms(1) by (auto simp: wf_fs_def strict_prefix_butlast)
  then show ?case
    using less(1) [of "butlast p"] by (cases "q = butlast p") (auto simp: prefix_order.less_le)
qed

lemma wf_no_file_below: "wf_fs fs \<Longrightarrow> look fs p \<noteq> None \<Longrightarrow> \<not> file_below fs p"
  using wf_ancestor [of fs _ p]
  by (cases "p = []") (fastforce simp: file_below_def list_ex_iff is_file_def look_simps strict_prefix_butlast)+

lemma butlast_prefix: "prefix p (butlast q) \<Longrightarrow> prefix p q"
  by (metis butlast.simps(1) prefix_order.order_trans prefixeq_butlast)

lemma look_None_not_Nil: "look fs p = None \<Longrightarrow> p \<noteq> []" "look fs p = Some (File i) \<Longrightarrow> p \<noteq> []"
  by (auto simp: look_simps)

lemma wf_set_node:
  assumes "wf_fs fs" "look fs (butlast p) = Some Dir" "p \<noteq> []" "look fs p \<noteq> Some Dir"
    and "n = File i" "i < next_ino fs"
  shows "wf_fs (set_node fs p n)"
proof -
  have nb: "butlast q \<noteq> p" if "look fs q \<noteq> None" for q
  proof
    assume b: "butlast q = p"
    then have "look fs p = Some Dir" using assms(1) that by (auto simp: wf_fs_def)
    with assms(4) show False by simp
  qed
  have "butlast p \<noteq> p" using assms(3) by (metis append_butlast_last_id not_Cons_self2 self_append_conv)
  with nb have "look (set_node fs p n) (butlast q) = Some Dir" if "look (set_node fs p n) q \<noteq> None" for q
    using that assms(1,2) by (auto simp: wf_fs_def look_simps split: if_splits)
  then show ?thesis using assms(1,5,6) by (auto simp: wf_fs_def look_simps split: if_splits)
qed

lemma wf_del_file:
  assumes "wf_fs fs" "look fs p = Some (File i)"
  shows "wf_fs (del_node fs p)"
proof -
  have "butlast q \<noteq> p" if "look fs q \<noteq> None" for q
    using assms that by (auto simp: wf_fs_def)
  then have "look (del_node fs p) (butlast q) = Some Dir" if "look (del_node fs p) q \<noteq> None" for q
    using that assms(1) by (auto simp: wf_fs_def look_simps split: if_splits)
  then show ?thesis using assms(1) by (auto simp: wf_fs_def look_simps split: if_splits)
qed

lemma wf_del_dir:
  assumes "wf_fs fs" "\<not> has_child fs p"
  shows "wf_fs (del_node fs p)"
proof -
  have "butlast q \<noteq> p" if "look fs q \<noteq> None" "q \<noteq> []" for q
    using assms(2) that by (auto simp: has_child_iff strict_prefix_butlast)
  then have "look (del_node fs p) (butlast q) = Some Dir" if "look (del_node fs p) q \<noteq> None" for q
    using that assms(1) by (cases "q = []") (auto simp: wf_fs_def look_simps split: if_splits)
  then show ?thesis using assms(1) by (auto simp: wf_fs_def look_simps split: if_splits)
qed

lemma wf_mkdirs:
  assumes "wf_fs fs" "mkdirs fs p = Inr fs'"
  shows "wf_fs fs'"
proof -
  have nf: "\<not> is_file fs q" if "prefix q p" for q
    using assms(2) that strict_prefix_butlast [of q p]
    by (auto simp: mkdirs_def file_below_def list_ex_iff prefix_order.le_less)
  have dir: "look fs' q = Some Dir" if "prefix q p" for q
    using nf [OF that] that look_mkdirs [OF assms(2), of q]
    by (auto simp: is_file_def split: option.splits node.splits)
  have "look fs' (butlast q) = Some Dir" if "look fs' q \<noteq> None" for q
  proof (cases "prefix q p")
    case True
    then show ?thesis using dir by (metis prefix_order.order_trans prefixeq_butlast)
  next
    case False
    then have "look fs q \<noteq> None" using that look_mkdirs [OF assms(2), of q] by simp
    then have "look fs (butlast q) = Some Dir" using assms(1) by (auto simp: wf_fs_def)
    then show ?thesis using look_mkdirs [OF assms(2), of "butlast q"] by simp
  qed
  moreover have "i < next_ino fs'" if "look fs' q = Some (File i)" for q i
    using that assms mkdirs_idata [OF assms(2)] look_mkdirs [OF assms(2), of q]
    by (auto simp: wf_fs_def split: if_splits)
  ultimately show ?thesis by (auto simp: wf_fs_def)
qed

lemma mkdirs_dir: "mkdirs fs p = Inr fs' \<Longrightarrow> look fs' p = Some Dir"
  using look_mkdirs [of fs p fs' p]
  by (auto simp: mkdirs_def is_file_def split: option.splits node.splits if_splits)

lemma mkdirs_ok: "(\<And>q. prefix q p \<Longrightarrow> fm fs q = None) \<Longrightarrow> \<exists>fs'. mkdirs fs p = Inr fs'"
  by (simp add: mkdirs_def file_below_def list_ex_iff is_file_iff butlast_prefix)


section \<open>Removing empty directories\<close>

lemma rmdir_Inr: "rmdir fs p = Inr fs' \<longleftrightarrow> look fs p = Some Dir \<and> p \<noteq> [] \<and> \<not> has_child fs p \<and> fs' = del_node fs p"
  by (auto simp: rmdir_def split: option.splits node.splits)

lemma rep_keeps:
  "fm (remove_empty_parents fs p stop) = fm fs \<and>
   idata (remove_empty_parents fs p stop) = idata fs \<and>
   next_ino (remove_empty_parents fs p stop) = next_ino fs \<and>
   (\<forall>q. look (remove_empty_parents fs p stop) q = Some Dir \<longrightarrow> look fs q = Some Dir) \<and>
   (\<forall>q. look fs q = Some Dir \<longrightarrow> \<not> (prefix q p \<and> strict_prefix stop q) \<longrightarrow>
      look (remove_empty_parents fs p stop) q = Some Dir) \<and>
   (wf_fs fs \<longrightarrow> wf_fs (remove_empty_parents fs p stop))"
proof (induction fs p stop rule: remove_empty_parents.induct)
  case (1 fs p stop)
  show ?case
  proof (cases "prefix stop p \<and> p \<noteq> stop \<and> (\<exists>fs'. rmdir fs p = Inr fs')")
    case True
    then have r: "rmdir fs p = Inr (del_node fs p)" and d: "look fs p = Some Dir" "p \<noteq> []" "\<not> has_child fs p"
      by (auto simp: rmdir_Inr)
    let ?fs = "del_node fs p"
    have eq: "remove_empty_parents fs p stop = remove_empty_parents ?fs (butlast p) stop"
      using True r by (subst remove_empty_parents.simps) auto
    have f: "fm ?fs = fm fs" using d(1) by (auto simp: fm_del fun_eq_iff fm_def)
    have k: "\<forall>q. look fs q = Some Dir \<longrightarrow> \<not> (prefix q p \<and> strict_prefix stop q) \<longrightarrow> look ?fs q = Some Dir"
      using True by (auto simp: look_simps)
    have s: "\<not> (\<not> prefix stop p \<or> p = stop)" using True by simp
    note ih = 1 [OF s r]
    have b: "\<not> (prefix q (butlast p) \<and> strict_prefix stop q)"
      if "\<not> (prefix q p \<and> strict_prefix stop q)" for q
      using that butlast_prefix by blast
    have l: "look fs q = Some Dir" if "look ?fs q = Some Dir" for q
      using that by (auto simp: look_simps split: if_splits)
    show ?thesis unfolding eq using ih f k l b wf_del_dir [of fs p] d(3)
      by (metis idata_nodes(2,4))
  next
    case False
    then have "remove_empty_parents fs p stop = fs"
      by (subst remove_empty_parents.simps) (auto split: sum.splits)
    then show ?thesis by simp
  qed
qed


lemma rep_chain:
  assumes "wf_fs fs" "look fs p = Some Dir" "prefix q p" "strict_prefix stop q"
    and "look (remove_empty_parents fs p stop) q = Some Dir"
  shows "has_child (remove_empty_parents fs p stop) q"
  using assms
proof (induction fs p stop rule: remove_empty_parents.induct)
  case (1 fs p stop)
  have sp: "prefix stop p" "p \<noteq> stop"
    using 1(4,5) by (meson prefix_order.le_less_trans prefix_order.less_le_trans prefix_order.less_imp_le prefix_order.less_irrefl)+
  show ?case
  proof (cases "has_child fs p")
    case True
    then have "remove_empty_parents fs p stop = fs"
      using rmdir_Inr by (subst remove_empty_parents.simps) (auto simp: rmdir_def split: sum.splits option.splits node.splits)
    then show ?thesis using True 1(4) by (auto simp: has_child_iff intro: prefix_order.le_less_trans)
  next
    case False
    let ?fs = "del_node fs p"
    have ne: "p \<noteq> []" using 1(5) 1(4) by auto
    then have r: "rmdir fs p = Inr ?fs" using False 1(3) by (simp add: rmdir_Inr)
    have eq: "remove_empty_parents fs p stop = remove_empty_parents ?fs (butlast p) stop"
      using sp r by (subst remove_empty_parents.simps) auto
    have "q \<noteq> p" using 1(6) rep_keeps [of ?fs "butlast p" stop] ne unfolding eq
      by (auto simp: look_simps)
    then have "prefix q (butlast p)"
      using 1(4) strict_prefix_butlast [of q p] by (auto simp: prefix_order.less_le)
    moreover have "look ?fs (butlast p) = Some Dir"
      using 1(2,3) ne by (auto simp: look_simps wf_fs_def)
        (metis append_butlast_last_id not_Cons_self2 self_append_conv)
    moreover have "\<not> (\<not> prefix stop p \<or> p = stop)" using sp by simp
    ultimately show ?thesis unfolding eq
      using 1(1) [OF _ r] wf_del_dir [OF 1(2) False] 1(5,6) unfolding eq by blast
  qed
qed

text \<open>
  A directory on the way to \<open>p\<close> that is not empty is a directory of any tree with the same files.
\<close>

lemma new_dirs_gone:
  assumes "wf_fs s" "wf_fs t" "fm s = fm t"
    and D: "\<And>q r. D q \<Longrightarrow> strict_prefix q r \<Longrightarrow> D r"
    and new: "\<And>q. D q \<Longrightarrow> look s q = Some Dir \<Longrightarrow> look t q = Some Dir \<or> prefix q p"
    and chain: "\<And>q. D q \<Longrightarrow> prefix q p \<Longrightarrow> look s q = Some Dir \<Longrightarrow> has_child s q"
  shows "D q \<Longrightarrow> look s q = Some Dir \<Longrightarrow> look t q = Some Dir"
proof (induction "length p - length q" arbitrary: q rule: less_induct)
  case less
  show ?case
  proof (cases "look t q = Some Dir")
    case False
    then have q: "prefix q p" using new less by blast
    then obtain r where r: "strict_prefix q r" "look s r \<noteq> None"
      using chain [OF less(2) q less(3)] by (auto simp: has_child_iff)
    have "look t r \<noteq> None"
    proof (cases "fm s r")
      case (Some i)
      then show ?thesis using assms(3) by (simp add: fm_Some_iff)
    next
      case None
      then have d: "look s r = Some Dir" using r(2) by (auto simp: fm_def split: node.splits)
      show ?thesis
      proof (cases "look t r = Some Dir")
        case False
        then have "prefix r p" using new d D less r by blast
        then have "length p - length r < length p - length q"
          using r(1) by (meson diff_less_mono2 prefix_length_less prefix_length_le less_le_trans)
        then show ?thesis using less(1) d D less(2) r(1) by blast
      qed simp
    qed
    then show ?thesis using wf_ancestor assms(2) r(1) by blast
  qed
qed

end
