(* ===== verification/Database.thy ===== *)
theory Database
  imports FileSystem "HOL-Library.Product_Lexorder"
begin

text \<open>
  The catalogue of \<open>src/ctxfs/store.py\<close> and \<open>src/ctxfs/service.py\<close>: one list of rows per SQLite table,
  in insertion order, with the constraints the schema declares; and the world the store runs in:
  catalogue, file system, the supply of UUIDs and clock readings, and the undo and cleanup stacks
  of the submission that is being applied.
\<close>

section \<open>Rows\<close>

record prefix_row =
  pr_user :: str
  pr_writer :: str
  pr_prefix :: str
  pr_created_at :: rat

text \<open>A row of \<open>entries\<close> is an entry with its owner; \<open>_entry_from_row\<close> forgets the owner.\<close>

record entry_row = entry +
  row_user :: str
  row_writer :: str

definition entry_from_row :: "entry_row \<Rightarrow> entry" where
  "entry_from_row r = entry.truncate r"

record submission_row =
  sub_id :: str
  sub_user :: str
  sub_writer :: str
  sub_state :: submission_state
  sub_count :: nat
  sub_error :: "string option"
  sub_created_at :: rat
  sub_updated_at :: rat

record decision_row =
  dec_user :: str
  dec_writer :: str
  dec_source_key :: str
  dec_source_version :: str
  dec_path :: "str option"
  dec_state :: decision_state
  dec_failure_code :: "str option"
  dec_failure_message :: "str option"
  dec_retry_after_seconds :: "int option"
  dec_created_at :: rat
  dec_updated_at :: rat

record machine_row =
  mr_user :: str
  mr_id :: str
  mr_key :: str
  mr_local_registration_id :: str
  mr_registration_name :: str
  mr_registration_description :: "str option"
  mr_registration_platform :: "str option"
  mr_registration_ctxd_version :: "str option"
  mr_name :: str
  mr_description :: "str option"
  mr_state :: machine_state
  mr_platform :: "str option"
  mr_ctxd_version :: "str option"
  mr_credential_key_id :: "str option"
  mr_enrollment_key_id :: "str option"
  mr_registered_at :: rat

record folder_row =
  fr_user :: str
  fr_machine_id :: str
  fr_id :: str
  fr_key :: str
  fr_local_registration_id :: str
  fr_registration_name :: str
  fr_registration_description :: "str option"
  fr_name :: str
  fr_description :: "str option"
  fr_state :: folder_state
  fr_registered_at :: rat

text \<open>The queue of \<open>src/ctxfs/service.py\<close>; \<open>operations_json\<close> is kept as the operations it encodes.\<close>

record service_row =
  sv_id :: str
  sv_user :: str
  sv_writer :: str
  sv_state :: submission_state
  sv_count :: nat
  sv_operations :: "operation list"
  sv_applied :: "str option"
  sv_error :: "string option"
  sv_created_at :: rat
  sv_updated_at :: rat

record deletion_row = deletion_result +
  deletion_id :: str
  deletion_created_at :: rat

record db =
  prefix_rows :: "prefix_row list"
  entry_rows :: "entry_row list"
  submission_rows :: "submission_row list"
  decision_rows :: "decision_row list"
  machine_rows :: "machine_row list"
  folder_rows :: "folder_row list"
  service_rows :: "service_row list"
  deletion_rows :: "deletion_row list"

definition empty_db :: db where
  "empty_db = \<lparr>prefix_rows = [], entry_rows = [], submission_rows = [], decision_rows = [],
     machine_rows = [], folder_rows = [], service_rows = [], deletion_rows = []\<rparr>"

section \<open>SQL\<close>

text \<open>\<open>UPDATE ... SET ... WHERE\<close> and the rows a \<open>DELETE\<close> keeps.\<close>

definition update_where :: "('r \<Rightarrow> bool) \<Rightarrow> ('r \<Rightarrow> 'r) \<Rightarrow> 'r list \<Rightarrow> 'r list" where
  "update_where P f rows = map (\<lambda>r. if P r then f r else r) rows"

lemma set_update_where: "set (update_where P f rows) = (\<lambda>r. if P r then f r else r) ` set rows"
  by (simp add: update_where_def)

definition delete_where :: "('r \<Rightarrow> bool) \<Rightarrow> 'r list \<Rightarrow> 'r list" where
  "delete_where P rows = filter (\<lambda>r. \<not> P r) rows"

definition count_where :: "('r \<Rightarrow> bool) \<Rightarrow> 'r list \<Rightarrow> nat" where
  "count_where P rows = length (filter P rows)"

text \<open>Binding an integer: SQLite holds 64 bits with a sign.\<close>

definition bound_integer :: "int option \<Rightarrow> unit res" where
  "bound_integer v = (case v of
      None \<Rightarrow> Inr ()
    | Some n \<Rightarrow> if - (2 ^ 63) \<le> n \<and> n < 2 ^ 63 then Inr ()
        else Inl (OverflowError ''Python int too large to convert to SQLite INTEGER''))"

text \<open>SQLite's \<open>LIKE\<close>: \<open>%\<close> and \<open>_\<close> are wildcards and ASCII letters match in either case.\<close>

definition ascii_lower :: "int \<Rightarrow> int" where
  "ascii_lower c = (if 65 \<le> c \<and> c \<le> 90 then c + 32 else c)"

fun sql_like :: "str \<Rightarrow> str \<Rightarrow> bool" where
  "sql_like [] s = (s = [])"
| "sql_like (p # ps) [] = (p = 37 \<and> sql_like ps [])"
| "sql_like (p # ps) (c # s) =
     (if p = 37 then sql_like ps (c # s) \<or> sql_like (p # ps) s
      else (p = 95 \<or> ascii_lower p = ascii_lower c) \<and> sql_like ps s)"

section \<open>The world\<close>

text \<open>
  What the code takes from outside: the hexadecimal SHA-256 digest, the UUIDs and clock readings
  in the order they are drawn, and the Unicode tables behind \<open>unicodedata.normalize("NFKD", s)\<close>
  and \<open>str.casefold\<close>.
\<close>

record env =
  e_sha :: "bytes \<Rightarrow> str"
  e_uuid :: "nat \<Rightarrow> str"
  e_time :: "nat \<Rightarrow> rat"
  e_nfkd :: "str \<Rightarrow> str"
  e_casefold :: "str \<Rightarrow> str"

text \<open>The callbacks the code pushes on its undo and cleanup stacks, as data.\<close>

datatype undo =
    UndoObject loc
  | UndoReplace loc "loc option"
  | UndoRename loc loc "loc option"
  | UndoRemove loc "loc option"

datatype cleanup = CleanBackup "loc option" | CleanObject loc

record world =
  w_db :: db
  w_fs :: fs
  w_uuids :: nat
  w_clock :: nat
  w_undo :: "undo list"
  w_cleanup :: "cleanup list"

definition fresh_uuid :: "env \<Rightarrow> (world, str) act" where
  "fresh_uuid E w = (Inr (e_uuid E (w_uuids w)), w\<lparr>w_uuids := Suc (w_uuids w)\<rparr>)"

definition now :: "env \<Rightarrow> (world, rat) act" where
  "now E w = (Inr (e_time E (w_clock w)), w\<lparr>w_clock := Suc (w_clock w)\<rparr>)"

definition fsop :: "(fs \<Rightarrow> fs res) \<Rightarrow> (fs, unit) act" where
  "fsop f fs = (case f fs of Inl e \<Rightarrow> (Inl e, fs) | Inr fs' \<Rightarrow> (Inr (), fs'))"

definition on_fs :: "(fs, 'a) act \<Rightarrow> (world, 'a) act" where
  "on_fs m w = (case m (w_fs w) of (r, fs') \<Rightarrow> (r, w\<lparr>w_fs := fs'\<rparr>))"

definition on_db :: "(db \<Rightarrow> db) \<Rightarrow> (world, unit) act" where
  "on_db f w = (Inr (), w\<lparr>w_db := f (w_db w)\<rparr>)"

definition on_dbE :: "(db \<Rightarrow> db res) \<Rightarrow> (world, unit) act" where
  "on_dbE f w = (case f (w_db w) of Inl e \<Rightarrow> (Inl e, w) | Inr d \<Rightarrow> (Inr (), w\<lparr>w_db := d\<rparr>))"

definition readE :: "(db \<Rightarrow> 'a res) \<Rightarrow> (world, 'a) act" where
  "readE f w = (f (w_db w), w)"

definition push_undo :: "undo \<Rightarrow> (world, unit) act" where
  "push_undo u w = (Inr (), w\<lparr>w_undo := w_undo w @ [u]\<rparr>)"

definition push_cleanup :: "cleanup \<Rightarrow> (world, unit) act" where
  "push_cleanup c w = (Inr (), w\<lparr>w_cleanup := w_cleanup w @ [c]\<rparr>)"

text \<open>\<open>with self.connection:\<close> commits, or rolls the catalogue (only) back and raises.\<close>

definition transaction :: "(world, 'a) act \<Rightarrow> (world, 'a) act" where
  "transaction m w =
     (case m w of (Inl e, w') \<Rightarrow> (Inl e, w'\<lparr>w_db := w_db w\<rparr>) | (Inr x, w') \<Rightarrow> (Inr x, w'))"

text \<open>\<open>str(exc) or exc.__class__.__name__\<close>.\<close>

fun exn_message :: "exn \<Rightarrow> string" where
  "exn_message (ValueError m) = m"
| "exn_message (ValidationError m) = m"
| "exn_message (UnicodeError m) = m"
| "exn_message (ContentHashMismatchError m) = m"
| "exn_message (CatalogConflictError m) = m"
| "exn_message (CatalogBindingConflictError m) = m"
| "exn_message (EnrollmentConsumedError m) = m"
| "exn_message (MachineCredentialLifecycleError m) = m"
| "exn_message (KeyError m) = m"
| "exn_message (PermissionError m) = m"
| "exn_message (PrefixAuthorizationError m) = m"
| "exn_message (MachineCredentialNotCurrentError m) = m"
| "exn_message (FileNotFoundError m) = m"
| "exn_message (FileExistsError m) = m"
| "exn_message (NotADirectoryError m) = m"
| "exn_message (IsADirectoryError m) = m"
| "exn_message (OSError m) = m"
| "exn_message (IntegrityError m) = m"
| "exn_message (RuntimeError m) = m"
| "exn_message (TimeoutError m) = m"
| "exn_message (AssertionError m) = m"
| "exn_message (AttributeError m) = m"
| "exn_message (OverflowError m) = m"
| "exn_message (TypeError m) = m"
| "exn_message (JSONDecodeError m) = m"
| "exn_message (HTTPException n m) = m"
| "exn_message (CtxdError n m) = m"
| "exn_message (CtxdProtocolError m) = m"
| "exn_message (CtxdIncompleteSearchError m) = m"
| "exn_message (CtxdAuthError m) = m"

fun exn_class :: "exn \<Rightarrow> string" where
  "exn_class (ValueError _) = ''ValueError''"
| "exn_class (ValidationError _) = ''ValidationError''"
| "exn_class (UnicodeError _) = ''UnicodeError''"
| "exn_class (ContentHashMismatchError _) = ''ContentHashMismatchError''"
| "exn_class (CatalogConflictError _) = ''CatalogConflictError''"
| "exn_class (CatalogBindingConflictError _) = ''CatalogBindingConflictError''"
| "exn_class (EnrollmentConsumedError _) = ''EnrollmentConsumedError''"
| "exn_class (MachineCredentialLifecycleError _) = ''MachineCredentialLifecycleError''"
| "exn_class (KeyError _) = ''KeyError''"
| "exn_class (PermissionError _) = ''PermissionError''"
| "exn_class (PrefixAuthorizationError _) = ''PrefixAuthorizationError''"
| "exn_class (MachineCredentialNotCurrentError _) = ''MachineCredentialNotCurrentError''"
| "exn_class (FileNotFoundError _) = ''FileNotFoundError''"
| "exn_class (FileExistsError _) = ''FileExistsError''"
| "exn_class (NotADirectoryError _) = ''NotADirectoryError''"
| "exn_class (IsADirectoryError _) = ''IsADirectoryError''"
| "exn_class (OSError _) = ''OSError''"
| "exn_class (IntegrityError _) = ''IntegrityError''"
| "exn_class (RuntimeError _) = ''RuntimeError''"
| "exn_class (TimeoutError _) = ''TimeoutError''"
| "exn_class (AssertionError _) = ''AssertionError''"
| "exn_class (AttributeError _) = ''AttributeError''"
| "exn_class (OverflowError _) = ''OverflowError''"
| "exn_class (TypeError _) = ''TypeError''"
| "exn_class (JSONDecodeError _) = ''JSONDecodeError''"
| "exn_class (HTTPException _ _) = ''HTTPException''"
| "exn_class (CtxdError _ _) = ''CtxdError''"
| "exn_class (CtxdProtocolError _) = ''CtxdProtocolError''"
| "exn_class (CtxdIncompleteSearchError _) = ''CtxdIncompleteSearchError''"
| "exn_class (CtxdAuthError _) = ''CtxdAuthError''"

definition exn_text :: "exn \<Rightarrow> string" where
  "exn_text e = (if exn_message e = '''' then exn_class e else exn_message e)"

end
