(* ===== verification/Catalog.thy ===== *)
theory Catalog
  imports Database Paths "HOL-Library.Product_Lexorder"
begin

text \<open>
  The catalogue of machines and tracked folders of \<open>src/ctxfs/store.py\<close>: registration, which is
  idempotent and makes a free key by suffixes, the bindings of credentials, metadata and listings.
\<close>

section \<open>Clean text\<close>

definition catalog_text :: "str \<Rightarrow> nat \<Rightarrow> str res" where
  "catalog_text value maximum =
     (let clean = strip value in
      if clean = [] then Inl (ValueError ''must be non-empty'')
      else if length clean > maximum then Inl (ValueError ''too many characters'')
      else if has_control_character clean then Inl (ValueError ''cannot contain control characters'')
      else Inr clean)"

definition optional_catalog_text :: "str option \<Rightarrow> nat \<Rightarrow> str option res" where
  "optional_catalog_text value maximum =
     (case value of None \<Rightarrow> Inr None | Some v \<Rightarrow> bindE (catalog_text v maximum) (\<lambda>c. Inr (Some c)))"

definition optional_description :: "str option \<Rightarrow> str option res" where
  "optional_description value =
     (case value of
        None \<Rightarrow> Inr None
      | Some v \<Rightarrow>
          if has_control_character v then Inl (ValueError ''description cannot contain control characters'')
          else let clean = strip v in
            if length clean > 1024 then Inl (ValueError ''description must be at most 1024 characters'')
            else Inr (Some clean))"

section \<open>Keys\<close>

definition key_char :: "int \<Rightarrow> bool" where
  "key_char c = (97 \<le> c \<and> c \<le> 122 \<or> 48 \<le> c \<and> c \<le> 57)"

text \<open>\<open>re.sub(r"[^a-z0-9]+", "-", s)\<close>: the flag says that the run before has been replaced.\<close>

fun dash_runs :: "bool \<Rightarrow> str \<Rightarrow> str" where
  "dash_runs inside [] = []"
| "dash_runs inside (c # s) =
     (if key_char c then c # dash_runs False s
      else if inside then dash_runs True s
      else dash # dash_runs True s)"

definition catalog_key :: "env \<Rightarrow> str \<Rightarrow> str \<Rightarrow> str" where
  "catalog_key E name fallback =
     (let ascii_name = filter (\<lambda>c. c < 128) (e_nfkd E name);
          normalized = strip_by (\<lambda>c. c = dash) (dash_runs False (map ascii_lower ascii_name))
      in rstrip_by (\<lambda>c. c = dash) (take 63 (if normalized = [] then fallback else normalized)))"

fun decimal :: "nat \<Rightarrow> str" where
  "decimal n = (if n < 10 then [48 + int n] else decimal (n div 10) @ [48 + int (n mod 10)])"

definition suffixed_key :: "str \<Rightarrow> nat \<Rightarrow> str" where
  "suffixed_key base k =
     (if k = 1 then base
      else let ending = dash # decimal k
           in rstrip_by (\<lambda>c. c = dash) (take (63 - length ending) base) @ ending)"

section \<open>Rows\<close>

definition machine_from_row :: "machine_row \<Rightarrow> machine res" where
  "machine_from_row r = validate_machine
     \<lparr>machine_id = mr_id r, machine_key = mr_key r, machine_name = mr_name r,
      machine_description = mr_description r, machine_state = mr_state r, machine_platform = mr_platform r,
      machine_ctxd_version = mr_ctxd_version r, credential_key_id = mr_credential_key_id r,
      machine_registered_at = mr_registered_at r\<rparr>"

definition folder_from_row :: "folder_row \<Rightarrow> tracked_folder res" where
  "folder_from_row r = validate_folder
     \<lparr>folder_id = fr_id r, folder_machine_id = fr_machine_id r, folder_key = fr_key r,
      folder_name = fr_name r, folder_description = fr_description r, folder_state = fr_state r,
      local_registration_id = fr_local_registration_id r, folder_registered_at = fr_registered_at r\<rparr>"

definition replay_machine ::
  "machine_row \<Rightarrow> str \<times> str option \<times> str option \<times> str option \<Rightarrow> machine res" where
  "replay_machine r requested =
     (if (mr_registration_name r, mr_registration_description r, mr_registration_platform r,
          mr_registration_ctxd_version r) \<noteq> requested
      then Inl (CatalogConflictError ''already registered with different machine metadata'')
      else machine_from_row r)"

definition replay_folder :: "folder_row \<Rightarrow> str \<times> str option \<Rightarrow> tracked_folder res" where
  "replay_folder r requested =
     (if (fr_registration_name r, fr_registration_description r) \<noteq> requested
      then Inl (CatalogConflictError ''already registered with different folder metadata'')
      else folder_from_row r)"

definition machine_row_of :: "str \<Rightarrow> str \<Rightarrow> db \<Rightarrow> machine_row option" where
  "machine_row_of user mid d = List.find (\<lambda>r. mr_user r = user \<and> mr_id r = mid) (machine_rows d)"

definition machine_of :: "str \<Rightarrow> str \<Rightarrow> db \<Rightarrow> machine res" where
  "machine_of user mid d =
     (case machine_row_of user mid d of
        None \<Rightarrow> Inl (KeyError ''unknown machine_id'')
      | Some r \<Rightarrow> machine_from_row r)"

definition registered_machine_row :: "str \<Rightarrow> str \<Rightarrow> db \<Rightarrow> machine_row option" where
  "registered_machine_row user reg d =
     List.find (\<lambda>r. mr_user r = user \<and> mr_local_registration_id r = reg) (machine_rows d)"

definition machine_for_registration :: "str \<Rightarrow> str \<Rightarrow> db \<Rightarrow> (machine \<times> str option) option res" where
  "machine_for_registration user local_registration d =
     bindE (catalog_text local_registration 128) (\<lambda>reg.
     case registered_machine_row user reg d of
       None \<Rightarrow> Inr None
     | Some r \<Rightarrow> bindE (machine_from_row r) (\<lambda>m. Inr (Some (m, mr_enrollment_key_id r))))"

definition machines_of :: "str \<Rightarrow> db \<Rightarrow> machine list res" where
  "machines_of user d =
     mapE machine_from_row
       (sort_key (\<lambda>r. (mr_registered_at r, mr_id r)) (filter (\<lambda>r. mr_user r = user) (machine_rows d)))"

definition folder_row_of :: "str \<Rightarrow> str \<Rightarrow> str \<Rightarrow> db \<Rightarrow> folder_row option" where
  "folder_row_of user mid fid d =
     List.find (\<lambda>r. fr_user r = user \<and> fr_machine_id r = mid \<and> fr_id r = fid) (folder_rows d)"

definition folder_of :: "str \<Rightarrow> str \<Rightarrow> str \<Rightarrow> db \<Rightarrow> tracked_folder res" where
  "folder_of user mid fid d =
     (case folder_row_of user mid fid d of
        None \<Rightarrow> Inl (KeyError ''unknown folder_id'')
      | Some r \<Rightarrow> folder_from_row r)"

definition folders_of :: "str \<Rightarrow> str \<Rightarrow> db \<Rightarrow> tracked_folder list res" where
  "folders_of user mid d =
     bindE (machine_of user mid d) (\<lambda>_.
     mapE folder_from_row
       (sort_key (\<lambda>r. (fr_registered_at r, fr_id r))
         (filter (\<lambda>r. fr_user r = user \<and> fr_machine_id r = mid) (folder_rows d))))"

section \<open>Registration\<close>

text \<open>The constraints of the two tables: the primary key and the unique columns.\<close>

definition machine_clash :: "machine_row \<Rightarrow> machine_row \<Rightarrow> bool" where
  "machine_clash n r =
     (mr_user r = mr_user n \<and>
      (mr_id r = mr_id n \<or> mr_key r = mr_key n \<or> mr_local_registration_id r = mr_local_registration_id n))"

definition insert_machine :: "machine_row \<Rightarrow> db \<Rightarrow> db res" where
  "insert_machine n d =
     (if list_ex (machine_clash n) (machine_rows d)
      then Inl (IntegrityError ''UNIQUE constraint failed: machines'')
      else Inr (d\<lparr>machine_rows := machine_rows d @ [n]\<rparr>))"

definition folder_clash :: "folder_row \<Rightarrow> folder_row \<Rightarrow> bool" where
  "folder_clash n r =
     (fr_user r = fr_user n \<and> fr_machine_id r = fr_machine_id n \<and>
      (fr_id r = fr_id n \<or> fr_key r = fr_key n \<or> fr_local_registration_id r = fr_local_registration_id n))"

definition insert_folder :: "folder_row \<Rightarrow> db \<Rightarrow> db res" where
  "insert_folder n d =
     (if list_ex (folder_clash n) (folder_rows d)
      then Inl (IntegrityError ''UNIQUE constraint failed: tracked_folders'')
      else Inr (d\<lparr>folder_rows := folder_rows d @ [n]\<rparr>))"

text \<open>The registration exists: its enrollment is recovered if it may be, and its machine replayed.\<close>

definition set_machine :: "str \<Rightarrow> str \<Rightarrow> (machine_row \<Rightarrow> machine_row) \<Rightarrow> db \<Rightarrow> db" where
  "set_machine user mid f d =
     d\<lparr>machine_rows := update_where (\<lambda>r. mr_user r = user \<and> mr_id r = mid) f (machine_rows d)\<rparr>"

definition replay_registration ::
  "str \<Rightarrow> str option \<Rightarrow> bool \<Rightarrow> str \<times> str option \<times> str option \<times> str option \<Rightarrow> machine_row \<Rightarrow>
   (world, machine) act" where
  "replay_registration user enrollment recovered requested existing =
     (let recover = enrollment \<noteq> None \<and> mr_enrollment_key_id existing = None \<and> recovered in
      bindS (if recover
             then on_db (set_machine user (mr_id existing)
               (\<lambda>r. if mr_enrollment_key_id r = None then r\<lparr>mr_enrollment_key_id := enrollment\<rparr> else r))
             else ret ()) (\<lambda>_.
      bindS (if recover
             then readE (\<lambda>d. case machine_row_of user (mr_id existing) d of
                 None \<Rightarrow> Inl (AssertionError ''row'') | Some r \<Rightarrow> Inr r)
             else ret existing) (\<lambda>existing.
      if enrollment \<noteq> None \<and> mr_enrollment_key_id existing \<noteq> enrollment
      then raise (CatalogConflictError ''local_registration_id belongs to another enrollment'')
      else liftE (replay_machine existing requested))))"

text \<open>
  The loop over the suffixes. \<open>None\<close> stands for a loop that is still running when the fuel is
  spent; with more fuel than \<open>fuel_enough\<close> below asks for, it has returned.
\<close>

fun insert_machine_loop ::
  "nat \<Rightarrow> env \<Rightarrow> machine_row \<Rightarrow> (machine_row \<Rightarrow> (world, machine) act) \<Rightarrow> str \<Rightarrow> nat \<Rightarrow> world \<Rightarrow>
   (machine res \<times> world) option" where
  "insert_machine_loop 0 E n replay base k w = None"
| "insert_machine_loop (Suc fuel) E n replay base k w =
     (let mid = e_uuid E (w_uuids w); w1 = w\<lparr>w_uuids := Suc (w_uuids w)\<rparr>;
          row = n\<lparr>mr_id := mid, mr_key := suffixed_key base k\<rparr>
      in case insert_machine row (w_db w1) of
           Inr d \<Rightarrow> Some (readE (machine_of (mr_user n) mid) (w1\<lparr>w_db := d\<rparr>))
         | Inl _ \<Rightarrow>
             (case registered_machine_row (mr_user n) (mr_local_registration_id n) (w_db w1) of
                Some existing \<Rightarrow> Some (replay existing w1)
              | None \<Rightarrow> insert_machine_loop fuel E n replay base (k + 1) w1))"

text \<open>\<open>with self.connection\<close> around code that may run forever.\<close>

definition in_transaction :: "('a res \<times> world) option \<Rightarrow> world \<Rightarrow> ('a res \<times> world) option" where
  "in_transaction x w = map_option (\<lambda>(r, w'). (r, case r of Inl _ \<Rightarrow> w'\<lparr>w_db := w_db w\<rparr> | Inr _ \<Rightarrow> w')) x"

definition register_machine ::
  "nat \<Rightarrow> env \<Rightarrow> str \<Rightarrow> str \<Rightarrow> str \<Rightarrow> str option \<Rightarrow> str option \<Rightarrow> str option \<Rightarrow> str option \<Rightarrow> bool \<Rightarrow> rat option \<Rightarrow>
   world \<Rightarrow> (machine res \<times> world) option" where
  "register_machine fuel E user local_registration name description platform version enrollment recovered at_time w =
     (case bindE (catalog_text local_registration 128) (\<lambda>reg.
           bindE (catalog_text name 128) (\<lambda>clean_name.
           bindE (optional_description description) (\<lambda>clean_description.
           bindE (optional_catalog_text platform 128) (\<lambda>clean_platform.
           bindE (optional_catalog_text version 128) (\<lambda>clean_version.
           Inr (reg, clean_name, clean_description, clean_platform, clean_version)))))) of
        Inl e \<Rightarrow> Some (Inl e, w)
      | Inr (reg, clean_name, clean_description, clean_platform, clean_version) \<Rightarrow>
          let w1 = (case at_time of None \<Rightarrow> w\<lparr>w_clock := Suc (w_clock w)\<rparr> | Some _ \<Rightarrow> w);
              registered_at = (case at_time of None \<Rightarrow> e_time E (w_clock w) | Some t \<Rightarrow> t);
              requested = (clean_name, clean_description, clean_platform, clean_version);
              replay = replay_registration user enrollment recovered requested
          in if registered_at \<le> 0 then Some (Inl (ValueError ''registered_at must be positive''), w1)
             else in_transaction
               (case registered_machine_row user reg (w_db w1) of
                  Some existing \<Rightarrow> Some (replay existing w1)
                | None \<Rightarrow> insert_machine_loop fuel E
                    \<lparr>mr_user = user, mr_id = [], mr_key = [], mr_local_registration_id = reg,
                     mr_registration_name = clean_name, mr_registration_description = clean_description,
                     mr_registration_platform = clean_platform, mr_registration_ctxd_version = clean_version,
                     mr_name = clean_name, mr_description = clean_description, mr_state = M_UNKNOWN,
                     mr_platform = clean_platform, mr_ctxd_version = clean_version,
                     mr_credential_key_id = None, mr_enrollment_key_id = enrollment,
                     mr_registered_at = registered_at\<rparr>
                    replay (catalog_key E clean_name (lit ''machine'')) 1 w1) w1)"

fun insert_folder_loop ::
  "nat \<Rightarrow> env \<Rightarrow> folder_row \<Rightarrow> str \<times> str option \<Rightarrow> str \<Rightarrow> nat \<Rightarrow> world \<Rightarrow> (tracked_folder res \<times> world) option" where
  "insert_folder_loop 0 E n requested base k w = None"
| "insert_folder_loop (Suc fuel) E n requested base k w =
     (let fid = e_uuid E (w_uuids w); w1 = w\<lparr>w_uuids := Suc (w_uuids w)\<rparr>;
          row = n\<lparr>fr_id := fid, fr_key := suffixed_key base k\<rparr>
      in case insert_folder row (w_db w1) of
           Inr d \<Rightarrow> Some (readE (folder_of (fr_user n) (fr_machine_id n) fid) (w1\<lparr>w_db := d\<rparr>))
         | Inl _ \<Rightarrow>
             (case List.find (\<lambda>r. fr_user r = fr_user n \<and> fr_machine_id r = fr_machine_id n \<and>
                  fr_local_registration_id r = fr_local_registration_id n) (folder_rows (w_db w1)) of
                Some existing \<Rightarrow> Some (replay_folder existing requested, w1)
              | None \<Rightarrow> insert_folder_loop fuel E n requested base (k + 1) w1))"

definition register_folder ::
  "nat \<Rightarrow> env \<Rightarrow> str \<Rightarrow> str \<Rightarrow> str \<Rightarrow> str \<Rightarrow> str option \<Rightarrow> rat option \<Rightarrow> world \<Rightarrow>
   (tracked_folder res \<times> world) option" where
  "register_folder fuel E user mid local_registration name description at_time w =
     (case bindE (catalog_text local_registration 128) (\<lambda>reg.
           bindE (catalog_text name 128) (\<lambda>clean_name.
           bindE (optional_description description) (\<lambda>clean_description.
           Inr (reg, clean_name, clean_description)))) of
        Inl e \<Rightarrow> Some (Inl e, w)
      | Inr (reg, clean_name, clean_description) \<Rightarrow>
          let w1 = (case at_time of None \<Rightarrow> w\<lparr>w_clock := Suc (w_clock w)\<rparr> | Some _ \<Rightarrow> w);
              registered_at = (case at_time of None \<Rightarrow> e_time E (w_clock w) | Some t \<Rightarrow> t);
              requested = (clean_name, clean_description)
          in if registered_at \<le> 0 then Some (Inl (ValueError ''registered_at must be positive''), w1)
             else in_transaction
               (case machine_of user mid (w_db w1) of
                  Inl e \<Rightarrow> Some (Inl e, w1)
                | Inr _ \<Rightarrow>
                   (case List.find (\<lambda>r. fr_user r = user \<and> fr_machine_id r = mid \<and>
                        fr_local_registration_id r = reg) (folder_rows (w_db w1)) of
                      Some existing \<Rightarrow> Some (replay_folder existing requested, w1)
                    | None \<Rightarrow> insert_folder_loop fuel E
                        \<lparr>fr_user = user, fr_machine_id = mid, fr_id = [], fr_key = [],
                         fr_local_registration_id = reg, fr_registration_name = clean_name,
                         fr_registration_description = clean_description, fr_name = clean_name,
                         fr_description = clean_description, fr_state = F_UNKNOWN,
                         fr_registered_at = registered_at\<rparr>
                        requested (catalog_key E clean_name (lit ''folder'')) 1 w1)) w1)"

section \<open>Updates\<close>

definition update_machine_metadata :: "str \<Rightarrow> str \<Rightarrow> str \<Rightarrow> str option \<Rightarrow> (world, machine) act" where
  "update_machine_metadata user mid name description =
     bindS (liftE (catalog_text name 128)) (\<lambda>clean_name.
     bindS (liftE (optional_description description)) (\<lambda>clean_description.
     transaction (
       bindS (readE (machine_of user mid)) (\<lambda>_.
       bindS (on_db (set_machine user mid (\<lambda>r. r\<lparr>mr_name := clean_name, mr_description := clean_description\<rparr>))) (\<lambda>_.
       readE (machine_of user mid))))))"

definition trimmed :: "str \<Rightarrow> bool" where
  "trimmed s = (s \<noteq> [] \<and> strip s = s)"

text \<open>The partial index on \<open>(user_id, credential_key_id)\<close>: no other machine has the credential.\<close>

definition bind_credential :: "str \<Rightarrow> str \<Rightarrow> str option \<Rightarrow> str \<Rightarrow> db \<Rightarrow> db res" where
  "bind_credential user mid expected new d =
     (if list_ex (\<lambda>r. mr_user r = user \<and> mr_id r \<noteq> mid \<and> mr_credential_key_id r = Some new) (machine_rows d)
      then Inl (IntegrityError ''UNIQUE constraint failed: machines.user_id, machines.credential_key_id'')
      else Inr (set_machine user mid
             (\<lambda>r. if mr_credential_key_id r = expected then r\<lparr>mr_credential_key_id := Some new\<rparr> else r) d))"

definition bind_machine_credential :: "str \<Rightarrow> str \<Rightarrow> str option \<Rightarrow> str \<Rightarrow> (world, machine) act" where
  "bind_machine_credential user mid expected new =
     (if \<not> trimmed new then raise (ValueError ''new_key_id must be a non-empty, trimmed string'') else
      transaction (
        bindS (readE (machine_of user mid)) (\<lambda>m.
        if credential_key_id m \<noteq> expected
        then raise (CatalogBindingConflictError ''machine credential binding changed'') else
        bindS (on_dbE (bind_credential user mid expected new)) (\<lambda>_.
        readE (machine_of user mid)))))"

definition clear_machine_credential :: "str \<Rightarrow> str \<Rightarrow> str \<Rightarrow> (world, machine) act" where
  "clear_machine_credential user mid expected =
     (if \<not> trimmed expected then raise (ValueError ''expected_key_id must be a non-empty, trimmed string'') else
      transaction (
        bindS (readE (machine_of user mid)) (\<lambda>m.
        if credential_key_id m = None then ret m else
        if credential_key_id m \<noteq> Some expected
        then raise (CatalogBindingConflictError ''machine credential binding changed'') else
        bindS (on_db (set_machine user mid
          (\<lambda>r. if mr_credential_key_id r = Some expected then r\<lparr>mr_credential_key_id := None\<rparr> else r))) (\<lambda>_.
        readE (machine_of user mid)))))"

definition set_folder :: "str \<Rightarrow> str \<Rightarrow> str \<Rightarrow> (folder_row \<Rightarrow> folder_row) \<Rightarrow> db \<Rightarrow> db" where
  "set_folder user mid fid f d =
     d\<lparr>folder_rows := update_where (\<lambda>r. fr_user r = user \<and> fr_machine_id r = mid \<and> fr_id r = fid) f (folder_rows d)\<rparr>"

definition update_folder_metadata :: "str \<Rightarrow> str \<Rightarrow> str \<Rightarrow> str \<Rightarrow> str option \<Rightarrow> (world, tracked_folder) act" where
  "update_folder_metadata user mid fid name description =
     bindS (liftE (catalog_text name 128)) (\<lambda>clean_name.
     bindS (liftE (optional_description description)) (\<lambda>clean_description.
     transaction (
       bindS (readE (folder_of user mid fid)) (\<lambda>_.
       bindS (on_db (set_folder user mid fid (\<lambda>r. r\<lparr>fr_name := clean_name, fr_description := clean_description\<rparr>))) (\<lambda>_.
       readE (folder_of user mid fid))))))"

section \<open>Keys with suffixes\<close>

fun undecimal :: "str \<Rightarrow> nat" where
  "undecimal s = foldl (\<lambda>n c. 10 * n + nat (c - 48)) 0 s"

declare decimal.simps [simp del]

lemma undecimal_decimal: "foldl (\<lambda>n c. 10 * n + nat (c - 48)) 0 (decimal n) = n"
proof (induction n rule: decimal.induct)
  case (1 n)
  then show ?case by (subst decimal.simps) (auto simp: nat_add_distrib)
qed

lemma decimal_inj: "decimal n = decimal m \<Longrightarrow> n = m"
  using undecimal_decimal by metis

lemma decimal_digits: "c \<in> set (decimal n) \<Longrightarrow> 48 \<le> c \<and> c \<le> 57"
proof (induction n rule: decimal.induct)
  case (1 n)
  show ?case
  proof (cases "n < 10")
    case True
    then show ?thesis using "1.prems" by (subst (asm) decimal.simps) auto
  next
    case False
    then have "c \<in> set (decimal (n div 10)) \<or> c = 48 + int (n mod 10)"
      using "1.prems" by (subst (asm) decimal.simps) auto
    then show ?thesis using "1.IH" [OF False] by auto
  qed
qed

lemma after_last_dash:
  assumes "p @ dash # s = q @ dash # t" "dash \<notin> set s" "dash \<notin> set t"
  shows "s = t"
  using assms
proof (induction p arbitrary: q)
  case Nil
  then show ?case by (cases q) auto
next
  case (Cons x p)
  then show ?case by (cases q) auto
qed

lemma suffixed_key_inj:
  assumes "suffixed_key base i = suffixed_key base j" "1 < i" "1 < j"
  shows "i = j"
proof -
  have "dash \<notin> set (decimal n)" for n using decimal_digits [of dash n] by auto
  then have "decimal i = decimal j"
    using after_last_dash assms by (fastforce simp: suffixed_key_def Let_def)
  then show ?thesis by (rule decimal_inj)
qed

text \<open>
  A search through the suffixes: an attempt is blocked by a row that has its id or its key. Every
  row blocks one attempt by its id and one by its key, the first attempt apart.
\<close>

locale suffix_search =
  fixes blocked :: "nat \<Rightarrow> bool" and rows :: "'r list" and id_hit key_hit :: "nat \<Rightarrow> 'r \<Rightarrow> bool"
  assumes hit: "blocked j \<Longrightarrow> \<exists>r \<in> set rows. id_hit j r \<or> key_hit j r"
    and key_hit: "key_hit i r \<Longrightarrow> key_hit j r \<Longrightarrow> 0 < i \<Longrightarrow> 0 < j \<Longrightarrow> i = j"
begin

lemma free:
  assumes id_hit: "\<And>i j r. id_hit i r \<Longrightarrow> id_hit j r \<Longrightarrow> i = j"
  shows "\<exists>j \<le> 2 * length rows + 1. \<not> blocked j"
proof (rule ccontr)
  assume "\<not> ?thesis"
  then have all: "\<And>j. j \<in> {1..2 * length rows + 1} \<Longrightarrow> \<exists>x. fst x \<in> set rows \<and>
      (if snd x then id_hit j (fst x) else key_hit j (fst x))"
    using hit by (metis atLeastAtMost_iff fst_conv snd_conv)
  then obtain g where g: "\<And>j. j \<in> {1..2 * length rows + 1} \<Longrightarrow> fst (g j) \<in> set rows \<and>
      (if snd (g j) then id_hit j (fst (g j)) else key_hit j (fst (g j)))" by metis
  have "inj_on g {1..2 * length rows + 1}"
  proof (rule inj_onI)
    fix i j assume i: "i \<in> {1..2 * length rows + 1}" and j: "j \<in> {1..2 * length rows + 1}" and eq: "g i = g j"
    show "i = j"
      using g [OF i] g [OF j] eq id_hit key_hit [of i "fst (g i)" j] i j by (cases "snd (g i)") auto
  qed
  moreover have "g ` {1..2 * length rows + 1} \<subseteq> set rows \<times> UNIV"
    by (intro image_subsetI) (use g in \<open>simp add: mem_Times_iff\<close>)
  ultimately have "card {1..2 * length rows + 1} \<le> card (set rows \<times> (UNIV :: bool set))"
    by (intro card_inj_on_le) auto
  then show False using card_length [of rows] by (simp add: card_cartesian_product)
qed

end

interpretation machine_search: suffix_search
    "\<lambda>j. list_ex (\<lambda>r. mr_user r = user \<and> (mr_id r = e_uuid E (u + j) \<or> mr_key r = suffixed_key base (Suc j))) rows"
    rows "\<lambda>j r. mr_id r = e_uuid E (u + j)" "\<lambda>j r. mr_key r = suffixed_key base (Suc j)"
    for user E u base rows
  by unfold_locales (use suffixed_key_inj in \<open>force simp: list_ex_iff\<close>)+

interpretation folder_search: suffix_search
    "\<lambda>j. list_ex (\<lambda>r. fr_user r = user \<and> fr_machine_id r = mid \<and>
        (fr_id r = e_uuid E (u + j) \<or> fr_key r = suffixed_key base (Suc j))) rows"
    rows "\<lambda>j r. fr_id r = e_uuid E (u + j)" "\<lambda>j r. fr_key r = suffixed_key base (Suc j)"
    for user mid E u base rows
  by unfold_locales (use suffixed_key_inj in \<open>force simp: list_ex_iff\<close>)+

section \<open>The loops\<close>

lemma registered_machine_None:
  "registered_machine_row user reg d = None \<longleftrightarrow>
     (\<forall>r \<in> set (machine_rows d). mr_user r = user \<longrightarrow> mr_local_registration_id r \<noteq> reg)"
  by (auto simp: registered_machine_row_def find_None_iff)

text \<open>What the loop returns for a registration that does not exist: the row it inserts.\<close>

lemma insert_machine_loop_result:
  assumes "insert_machine_loop fuel E n replay base k w = Some (r, w')"
    and "registered_machine_row (mr_user n) (mr_local_registration_id n) (w_db w) = None"
  obtains i j d where "insert_machine (n\<lparr>mr_id := e_uuid E (w_uuids w + i), mr_key := suffixed_key base j\<rparr>) (w_db w) = Inr d"
    "k \<le> j" "r = machine_of (mr_user n) (e_uuid E (w_uuids w + i)) d" "w' = w\<lparr>w_uuids := Suc (w_uuids w + i), w_db := d\<rparr>"
  using assms
proof (induction fuel arbitrary: k w thesis)
  case (Suc fuel)
  let ?row = "n\<lparr>mr_id := e_uuid E (w_uuids w), mr_key := suffixed_key base k\<rparr>"
  show ?case
  proof (cases "insert_machine ?row (w_db w)")
    case (Inr d)
    then show ?thesis using Suc.prems(2) Suc.prems(1) [of k 0 d] by (auto simp: Let_def readE_def)
  next
    case (Inl e)
    let ?w1 = "w\<lparr>w_uuids := Suc (w_uuids w)\<rparr>"
    have l: "insert_machine_loop fuel E n replay base (k + 1) ?w1 = Some (r, w')"
      using Suc.prems(2,3) Inl by (simp add: Let_def)
    show ?thesis
    proof (rule Suc.IH [OF _ l])
      show "registered_machine_row (mr_user n) (mr_local_registration_id n) (w_db ?w1) = None"
        using Suc.prems(3) by simp
      fix i j d assume a: "insert_machine (n\<lparr>mr_id := e_uuid E (w_uuids ?w1 + i), mr_key := suffixed_key base j\<rparr>) (w_db ?w1) = Inr d"
        "k + 1 \<le> j" "r = machine_of (mr_user n) (e_uuid E (w_uuids ?w1 + i)) d" "w' = ?w1\<lparr>w_uuids := Suc (w_uuids ?w1 + i), w_db := d\<rparr>"
      show thesis using Suc.prems(1) [of j "Suc i" d] a by simp
    qed
  qed
qed simp

lemma insert_machine_loop_total:
  assumes "registered_machine_row (mr_user n) (mr_local_registration_id n) (w_db w) = None"
    and "\<not> list_ex (\<lambda>r. mr_user r = mr_user n \<and> (mr_id r = e_uuid E (u + m) \<or> mr_key r = suffixed_key base (Suc m)))
        (machine_rows (w_db w))"
    and "w_uuids w = u + j" "j \<le> m" "m - j < fuel"
  shows "\<exists>x. insert_machine_loop fuel E n replay base (Suc j) w = Some x"
  using assms
proof (induction fuel arbitrary: j w)
  case (Suc fuel)
  let ?row = "n\<lparr>mr_id := e_uuid E (w_uuids w), mr_key := suffixed_key base (Suc j)\<rparr>"
  show ?case
  proof (cases "insert_machine ?row (w_db w)")
    case (Inl e)
    have "j \<noteq> m"
    proof
      assume "j = m"
      then have "\<not> list_ex (machine_clash ?row) (machine_rows (w_db w))"
        using Suc.prems by (auto simp: list_ex_iff machine_clash_def registered_machine_None)
      then show False using Inl by (simp add: insert_machine_def)
    qed
    then have "\<exists>x. insert_machine_loop fuel E n replay base (Suc (Suc j)) (w\<lparr>w_uuids := Suc (w_uuids w)\<rparr>) = Some x"
      using Suc.prems by (intro Suc.IH) auto
    then show ?thesis using Inl Suc.prems(1) by (simp add: Let_def)
  qed (simp add: Let_def)
qed simp

text \<open>The fuel that is enough when the UUIDs are distinct.\<close>

lemma insert_machine_loop_returns:
  assumes "inj (e_uuid E)" "registered_machine_row (mr_user n) (mr_local_registration_id n) (w_db w) = None"
    and "2 * length (machine_rows (w_db w)) + 1 < fuel"
  shows "\<exists>x. insert_machine_loop fuel E n replay base 1 w = Some x"
proof -
  have "\<exists>j \<le> 2 * length (machine_rows (w_db w)) + 1. \<not> list_ex (\<lambda>r. mr_user r = mr_user n \<and>
      (mr_id r = e_uuid E (w_uuids w + j) \<or> mr_key r = suffixed_key base (Suc j))) (machine_rows (w_db w))"
    by (rule machine_search.free) (use injD [OF assms(1)] in fastforce)
  then obtain j where j: "j \<le> 2 * length (machine_rows (w_db w)) + 1"
    "\<not> list_ex (\<lambda>r. mr_user r = mr_user n \<and> (mr_id r = e_uuid E (w_uuids w + j) \<or> mr_key r = suffixed_key base (Suc j)))
        (machine_rows (w_db w))" by blast
  show ?thesis
    using insert_machine_loop_total [OF assms(2) j(2), of 0 fuel replay] j(1) assms(3) by simp
qed

lemma insert_folder_loop_result:
  assumes "insert_folder_loop fuel E n requested base k w = Some (r, w')"
    and "\<forall>r \<in> set (folder_rows (w_db w)). fr_user r = fr_user n \<longrightarrow> fr_machine_id r = fr_machine_id n \<longrightarrow>
      fr_local_registration_id r \<noteq> fr_local_registration_id n"
  obtains i j d where "insert_folder (n\<lparr>fr_id := e_uuid E (w_uuids w + i), fr_key := suffixed_key base j\<rparr>) (w_db w) = Inr d"
    "k \<le> j" "r = folder_of (fr_user n) (fr_machine_id n) (e_uuid E (w_uuids w + i)) d"
    "w' = w\<lparr>w_uuids := Suc (w_uuids w + i), w_db := d\<rparr>"
  using assms
proof (induction fuel arbitrary: k w thesis)
  case (Suc fuel)
  let ?row = "n\<lparr>fr_id := e_uuid E (w_uuids w), fr_key := suffixed_key base k\<rparr>"
  show ?case
  proof (cases "insert_folder ?row (w_db w)")
    case (Inr d)
    then show ?thesis using Suc.prems(2) Suc.prems(1) [of k 0 d] by (auto simp: Let_def readE_def)
  next
    case (Inl e)
    let ?w1 = "w\<lparr>w_uuids := Suc (w_uuids w)\<rparr>"
    have "List.find (\<lambda>r. fr_user r = fr_user n \<and> fr_machine_id r = fr_machine_id n \<and>
        fr_local_registration_id r = fr_local_registration_id n) (folder_rows (w_db w)) = None"
      using Suc.prems(3) by (auto simp: find_None_iff)
    then have l: "insert_folder_loop fuel E n requested base (k + 1) ?w1 = Some (r, w')"
      using Suc.prems(2) Inl by (simp add: Let_def)
    show ?thesis
    proof (rule Suc.IH [OF _ l])
      show "\<forall>r \<in> set (folder_rows (w_db ?w1)). fr_user r = fr_user n \<longrightarrow> fr_machine_id r = fr_machine_id n \<longrightarrow>
          fr_local_registration_id r \<noteq> fr_local_registration_id n" using Suc.prems(3) by simp
      fix i j d assume a: "insert_folder (n\<lparr>fr_id := e_uuid E (w_uuids ?w1 + i), fr_key := suffixed_key base j\<rparr>) (w_db ?w1) = Inr d"
        "k + 1 \<le> j" "r = folder_of (fr_user n) (fr_machine_id n) (e_uuid E (w_uuids ?w1 + i)) d"
        "w' = ?w1\<lparr>w_uuids := Suc (w_uuids ?w1 + i), w_db := d\<rparr>"
      show thesis using Suc.prems(1) [of j "Suc i" d] a by simp
    qed
  qed
qed simp

end
