(* ===== verification/TreeOps.thy ===== *)
theory TreeOps
  imports Database
begin

text \<open>
  The tree operations of \<open>src/ctxfs/store.py\<close>: where entries and objects live on disk, replacing,
  renaming and removing a tree entry with a journal of undo and cleanup callbacks, and the rollback
  of the journal.
\<close>

section \<open>Locations\<close>

abbreviation users_dir :: str where "users_dir \<equiv> lit ''users''"
abbreviation objects_dir :: str where "objects_dir \<equiv> lit ''objects''"
abbreviation undo_dir :: str where "undo_dir \<equiv> lit ''undo''"

definition disk_name :: "env \<Rightarrow> str \<Rightarrow> str res" where
  "disk_name E value = bindE (utf8_encode value) (\<lambda>data. Inr (e_sha E data))"

definition user_root :: "env \<Rightarrow> str \<Rightarrow> loc res" where
  "user_root E user = bindE (disk_name E user) (\<lambda>h. Inr [users_dir, h])"

definition tree_path :: "env \<Rightarrow> str \<Rightarrow> str \<Rightarrow> loc res" where
  "tree_path E user p =
     bindE (user_root E user) (\<lambda>root.
     bindE (tree_components p) (\<lambda>parts. Inr (root @ parts)))"

definition objects_root :: "env \<Rightarrow> str \<Rightarrow> loc res" where
  "objects_root E user = bindE (disk_name E user) (\<lambda>h. Inr [objects_dir, h])"

definition object_path :: "env \<Rightarrow> str \<Rightarrow> str \<Rightarrow> loc res" where
  "object_path E user oid = bindE (objects_root E user) (\<lambda>root. Inr (root @ [oid]))"

definition sha256 :: "env \<Rightarrow> bytes \<Rightarrow> str" where
  "sha256 E data = lit ''sha256:'' @ e_sha E data"

text \<open>\<open>__init__\<close> makes the four directories; a store that is opened for the first time.\<close>

definition new_fs :: fs where
  "new_fs = \<lparr>nodes = [([users_dir], Dir), ([objects_dir], Dir), ([undo_dir], Dir)],
     idata = (\<lambda>_. []), next_ino = 0\<rparr>"

definition new_world :: world where
  "new_world = \<lparr>w_db = empty_db, w_fs = new_fs, w_uuids = 0, w_clock = 0, w_undo = [], w_cleanup = []\<rparr>"

section \<open>The undo callbacks\<close>

definition remove_object_entry :: "env \<Rightarrow> str \<Rightarrow> loc \<Rightarrow> (fs, unit) act" where
  "remove_object_entry E user obj =
     bindS (fsop (\<lambda>fs. unlink_if_exists fs (Some obj))) (\<lambda>_.
     bindS (liftE (objects_root E user)) (\<lambda>root.
     fsop (\<lambda>fs. Inr (remove_empty_parents fs (butlast obj) root))))"

definition undo_replace_tree_entry :: "env \<Rightarrow> str \<Rightarrow> loc \<Rightarrow> loc option \<Rightarrow> (fs, unit) act" where
  "undo_replace_tree_entry E user target backup =
     (case backup of
        None \<Rightarrow>
          bindS (fsop (\<lambda>fs. unlink_if_exists fs (Some target))) (\<lambda>_.
          bindS (liftE (user_root E user)) (\<lambda>root.
          fsop (\<lambda>fs. Inr (remove_empty_parents fs (butlast target) root))))
      | Some b \<Rightarrow>
          bindS (fsop (\<lambda>fs. mkdirs fs (butlast target))) (\<lambda>_.
          fsop (\<lambda>fs. replace fs b target)))"

definition undo_rename_tree_entry :: "env \<Rightarrow> str \<Rightarrow> loc \<Rightarrow> loc \<Rightarrow> loc option \<Rightarrow> (fs, unit) act" where
  "undo_rename_tree_entry E user source target backup =
     bindS (fsop (\<lambda>fs. mkdirs fs (butlast source))) (\<lambda>_.
     bindS (\<lambda>fs. if fs_exists fs target then fsop (\<lambda>fs. replace fs target source) fs
                  else ret () fs) (\<lambda>_.
     case backup of
        None \<Rightarrow>
          bindS (liftE (user_root E user)) (\<lambda>root.
          fsop (\<lambda>fs. Inr (remove_empty_parents fs (butlast target) root)))
      | Some b \<Rightarrow>
          bindS (fsop (\<lambda>fs. mkdirs fs (butlast target))) (\<lambda>_.
          fsop (\<lambda>fs. replace fs b target))))"

definition undo_remove_tree_entry :: "loc \<Rightarrow> loc option \<Rightarrow> (fs, unit) act" where
  "undo_remove_tree_entry target backup =
     (case backup of
        None \<Rightarrow> ret ()
      | Some b \<Rightarrow>
          bindS (fsop (\<lambda>fs. mkdirs fs (butlast target))) (\<lambda>_.
          fsop (\<lambda>fs. replace fs b target)))"

fun run_undo :: "env \<Rightarrow> str \<Rightarrow> undo \<Rightarrow> (fs, unit) act" where
  "run_undo E user (UndoObject obj) = remove_object_entry E user obj"
| "run_undo E user (UndoReplace target backup) = undo_replace_tree_entry E user target backup"
| "run_undo E user (UndoRename source target backup) =
     undo_rename_tree_entry E user source target backup"
| "run_undo E user (UndoRemove target backup) = undo_remove_tree_entry target backup"

fun run_cleanup :: "env \<Rightarrow> str \<Rightarrow> cleanup \<Rightarrow> (fs, unit) act" where
  "run_cleanup E user (CleanBackup backup) = fsop (\<lambda>fs. unlink_if_exists fs backup)"
| "run_cleanup E user (CleanObject obj) = remove_object_entry E user obj"

text \<open>The callbacks in the order given; the errors they raise are collected and do not stop the rest.\<close>

fun run_all :: "(fs, unit) act list \<Rightarrow> fs \<Rightarrow> exn list \<times> fs" where
  "run_all [] fs = ([], fs)"
| "run_all (m # ms) fs =
     (case m fs of
        (Inl e, fs') \<Rightarrow> (case run_all ms fs' of (es, fs'') \<Rightarrow> (e # es, fs''))
      | (Inr _, fs') \<Rightarrow> run_all ms fs')"

definition rollback_filesystem :: "env \<Rightarrow> str \<Rightarrow> (world, exn option) act" where
  "rollback_filesystem E user w =
     (case run_all (map (run_undo E user) (rev (w_undo w))) (w_fs w) of (errors, fs') \<Rightarrow>
        (Inr (if errors = [] then None
              else Some (RuntimeError ''failed to roll back ctxfs filesystem mutation'')),
         w\<lparr>w_fs := fs'\<rparr>))"

definition cleanup_filesystem :: "env \<Rightarrow> str \<Rightarrow> (world, unit) act" where
  "cleanup_filesystem E user w =
     (case run_all (map (run_cleanup E user) (w_cleanup w)) (w_fs w) of (_, fs') \<Rightarrow>
        (Inr (), w\<lparr>w_fs := fs'\<rparr>))"

section \<open>Journalled changes\<close>

definition undo_path :: "env \<Rightarrow> string \<Rightarrow> (world, loc) act" where
  "undo_path E pfx =
     bindS (on_fs (fsop (\<lambda>fs. mkdirs fs [undo_dir]))) (\<lambda>_.
     bindS (fresh_uuid E) (\<lambda>u.
     ret [undo_dir, lit pfx @ lit ''-'' @ u]))"

definition backup_tree_entry :: "env \<Rightarrow> loc \<Rightarrow> (world, loc option) act" where
  "backup_tree_entry E target w =
     (if \<not> fs_exists (w_fs w) target then ret None w
      else bindS (undo_path E ''backup'') (\<lambda>backup.
           bindS (on_fs (fsop (\<lambda>fs. link fs target backup))) (\<lambda>_.
           ret (Some backup))) w)"

definition unlink_backup :: "loc option \<Rightarrow> (world, unit) act" where
  "unlink_backup p = on_fs (fsop (\<lambda>fs. unlink_if_exists fs p))"

definition replace_tree_entry :: "env \<Rightarrow> str \<Rightarrow> str \<Rightarrow> loc \<Rightarrow> (world, unit) act" where
  "replace_tree_entry E user p obj =
     bindS (liftE (tree_path E user p)) (\<lambda>target.
     bindS (on_fs (fsop (\<lambda>fs. mkdirs fs (butlast target)))) (\<lambda>_.
     bindS (undo_path E ''replace'') (\<lambda>tmp.
     bindS (backup_tree_entry E target) (\<lambda>backup.
     bindS (catchS
        (bindS (on_fs (fsop (\<lambda>fs. link fs obj tmp))) (\<lambda>_.
         on_fs (fsop (\<lambda>fs. replace fs tmp target))))
        (\<lambda>e. bindS (unlink_backup (Some tmp)) (\<lambda>_.
             bindS (unlink_backup backup) (\<lambda>_. raise e)))) (\<lambda>_.
     bindS (push_undo (UndoReplace target backup)) (\<lambda>_.
     push_cleanup (CleanBackup backup)))))))"

definition rename_tree_file :: "env \<Rightarrow> str \<Rightarrow> loc \<Rightarrow> loc \<Rightarrow> (world, unit) act" where
  "rename_tree_file E user source target =
     bindS (gets (\<lambda>w. fs_exists (w_fs w) source)) (\<lambda>there.
     if \<not> there then raise (FileNotFoundError ''missing path'') else
     bindS (on_fs (fsop (\<lambda>fs. mkdirs fs (butlast target)))) (\<lambda>_.
     bindS (backup_tree_entry E target) (\<lambda>backup.
     bindS (catchS (on_fs (fsop (\<lambda>fs. replace fs source target)))
        (\<lambda>e. bindS (unlink_backup backup) (\<lambda>_. raise e))) (\<lambda>_.
     bindS (liftE (user_root E user)) (\<lambda>root.
     bindS (on_fs (fsop (\<lambda>fs. Inr (remove_empty_parents fs (butlast source) root)))) (\<lambda>_.
     bindS (push_undo (UndoRename source target backup)) (\<lambda>_.
     push_cleanup (CleanBackup backup))))))))"

definition rename_tree_entry :: "env \<Rightarrow> str \<Rightarrow> str \<Rightarrow> str \<Rightarrow> (world, unit) act" where
  "rename_tree_entry E user old_path new_path =
     bindS (liftE (tree_path E user old_path)) (\<lambda>source.
     bindS (liftE (tree_path E user new_path)) (\<lambda>target.
     rename_tree_file E user source target))"

definition remove_tree_entry :: "env \<Rightarrow> str \<Rightarrow> str \<Rightarrow> (world, unit) act" where
  "remove_tree_entry E user p =
     bindS (liftE (tree_path E user p)) (\<lambda>target.
     bindS (backup_tree_entry E target) (\<lambda>backup.
     bindS (catchS (bindS (on_fs (fsop (\<lambda>fs. unlink fs target))) (\<lambda>_. ret True))
        (\<lambda>e. case e of
             FileNotFoundError _ \<Rightarrow> bindS (unlink_backup backup) (\<lambda>_. ret False)
           | _ \<Rightarrow> raise e)) (\<lambda>removed.
     if \<not> removed then ret () else
     bindS (liftE (user_root E user)) (\<lambda>root.
     bindS (on_fs (fsop (\<lambda>fs. Inr (remove_empty_parents fs (butlast target) root)))) (\<lambda>_.
     bindS (push_undo (UndoRemove target backup)) (\<lambda>_.
     push_cleanup (CleanBackup backup)))))))"

end
