(* ===== verification/Registry.thy ===== *)
theory Registry
  imports Catalog TreeOps
begin

text \<open>
  What the catalogue of \<open>Catalog\<close> promises: registration returns, the tables keep their
  constraints, registering again returns the registered machine, and every key is a slug.
\<close>

section \<open>Registration returns\<close>

lemma insert_folder_loop_total:
  assumes "\<forall>r \<in> set (folder_rows (w_db w)). fr_user r = fr_user n \<longrightarrow> fr_machine_id r = fr_machine_id n \<longrightarrow>
      fr_local_registration_id r \<noteq> fr_local_registration_id n"
    and "\<not> list_ex (\<lambda>r. fr_user r = fr_user n \<and> fr_machine_id r = fr_machine_id n \<and>
        (fr_id r = e_uuid E (u + m) \<or> fr_key r = suffixed_key base (Suc m))) (folder_rows (w_db w))"
    and "w_uuids w = u + j" "j \<le> m" "m - j < fuel"
  shows "\<exists>x. insert_folder_loop fuel E n requested base (Suc j) w = Some x"
  using assms
proof (induction fuel arbitrary: j w)
  case (Suc fuel)
  let ?row = "n\<lparr>fr_id := e_uuid E (w_uuids w), fr_key := suffixed_key base (Suc j)\<rparr>"
  show ?case
  proof (cases "insert_folder ?row (w_db w)")
    case (Inl e)
    have "j \<noteq> m"
    proof
      assume "j = m"
      then have "\<not> list_ex (folder_clash ?row) (folder_rows (w_db w))"
        using Suc.prems by (auto simp: list_ex_iff folder_clash_def)
      then show False using Inl by (simp add: insert_folder_def)
    qed
    then have "\<exists>x. insert_folder_loop fuel E n requested base (Suc (Suc j)) (w\<lparr>w_uuids := Suc (w_uuids w)\<rparr>) = Some x"
      using Suc.prems by (intro Suc.IH) auto
    then show ?thesis using Inl by (auto simp: Let_def split: option.splits)
  qed (simp add: Let_def)
qed simp

lemma insert_folder_loop_returns:
  assumes "inj (e_uuid E)" "\<forall>r \<in> set (folder_rows (w_db w)). fr_user r = fr_user n \<longrightarrow> fr_machine_id r = fr_machine_id n \<longrightarrow>
      fr_local_registration_id r \<noteq> fr_local_registration_id n"
    and "2 * length (folder_rows (w_db w)) + 1 < fuel"
  shows "\<exists>x. insert_folder_loop fuel E n requested base 1 w = Some x"
proof -
  have "\<exists>j \<le> 2 * length (folder_rows (w_db w)) + 1. \<not> list_ex (\<lambda>r. fr_user r = fr_user n \<and> fr_machine_id r = fr_machine_id n \<and>
      (fr_id r = e_uuid E (w_uuids w + j) \<or> fr_key r = suffixed_key base (Suc j))) (folder_rows (w_db w))"
    by (rule folder_search.free) (use injD [OF assms(1)] in fastforce)
  then obtain j where j: "j \<le> 2 * length (folder_rows (w_db w)) + 1"
    "\<not> list_ex (\<lambda>r. fr_user r = fr_user n \<and> fr_machine_id r = fr_machine_id n \<and>
      (fr_id r = e_uuid E (w_uuids w + j) \<or> fr_key r = suffixed_key base (Suc j))) (folder_rows (w_db w))" by blast
  show ?thesis
    using insert_folder_loop_total [OF assms(2) j(2), of 0 fuel requested] j(1) assms(3) by simp
qed

text \<open>Registration returns when it is given fuel for two attempts per row and two more.\<close>

lemma register_machine_returns:
  assumes "inj (e_uuid E)" "2 * length (machine_rows (w_db w)) + 1 < fuel"
  shows "register_machine fuel E user reg name description platform version enrollment recovered at_time w \<noteq> None"
  using assms insert_machine_loop_returns [OF assms(1)]
  by (auto simp: register_machine_def Let_def in_transaction_def split: sum.splits option.splits)

lemma register_folder_returns:
  assumes "inj (e_uuid E)" "2 * length (folder_rows (w_db w)) + 1 < fuel"
  shows "register_folder fuel E user mid reg name description at_time w \<noteq> None"
proof -
  have "\<forall>r \<in> set (folder_rows (w_db w1)). fr_user r = fr_user n \<longrightarrow> fr_machine_id r = fr_machine_id n \<longrightarrow>
      fr_local_registration_id r \<noteq> fr_local_registration_id n \<Longrightarrow> length (folder_rows (w_db w1)) = length (folder_rows (w_db w)) \<Longrightarrow>
      \<exists>x. insert_folder_loop fuel E n requested base 1 w1 = Some x" for w1 :: world and n requested base
    using insert_folder_loop_returns [OF assms(1), of w1 n fuel] assms(2) by simp
  then show ?thesis
    by (auto simp: register_folder_def Let_def in_transaction_def find_None_iff split: sum.splits option.splits)
qed

section \<open>The constraints of the catalogue\<close>

definition machines_distinct :: "machine_row list \<Rightarrow> bool" where
  "machines_distinct rows \<longleftrightarrow> distinct (map (\<lambda>r. (mr_user r, mr_id r)) rows) \<and>
     distinct (map (\<lambda>r. (mr_user r, mr_key r)) rows) \<and>
     distinct (map (\<lambda>r. (mr_user r, mr_local_registration_id r)) rows) \<and>
     (\<forall>r \<in> set rows. \<forall>q \<in> set rows. mr_user r = mr_user q \<longrightarrow> mr_credential_key_id r = mr_credential_key_id q \<longrightarrow>
        mr_credential_key_id r \<noteq> None \<longrightarrow> mr_id r = mr_id q)"

definition folders_distinct :: "folder_row list \<Rightarrow> bool" where
  "folders_distinct rows \<longleftrightarrow> distinct (map (\<lambda>r. (fr_user r, fr_machine_id r, fr_id r)) rows) \<and>
     distinct (map (\<lambda>r. (fr_user r, fr_machine_id r, fr_key r)) rows) \<and>
     distinct (map (\<lambda>r. (fr_user r, fr_machine_id r, fr_local_registration_id r)) rows)"

definition catalog_ok :: "db \<Rightarrow> bool" where
  "catalog_ok d \<longleftrightarrow> machines_distinct (machine_rows d) \<and> folders_distinct (folder_rows d) \<and>
     (\<forall>f \<in> set (folder_rows d). \<exists>m \<in> set (machine_rows d). mr_user m = fr_user f \<and> mr_id m = fr_machine_id f)"

lemma insert_machine_ok:
  assumes "insert_machine n d = Inr d'" "mr_credential_key_id n = None" "catalog_ok d"
  shows "catalog_ok d'"
proof -
  have c: "mr_user n = mr_user r \<longrightarrow> mr_id n \<noteq> mr_id r \<and> mr_key n \<noteq> mr_key r \<and>
      mr_local_registration_id n \<noteq> mr_local_registration_id r" if "r \<in> set (machine_rows d)" for r
    using assms(1) that by (force simp: insert_machine_def list_ex_iff machine_clash_def split: if_splits)
  have d': "d' = d\<lparr>machine_rows := machine_rows d @ [n]\<rparr>" using assms(1) by (simp add: insert_machine_def split: if_splits)
  have m: "machines_distinct (machine_rows d)" using assms(3) by (simp add: catalog_ok_def)
  have "distinct (map (\<lambda>r. (mr_user r, mr_id r)) (machine_rows d @ [n]))"
    "distinct (map (\<lambda>r. (mr_user r, mr_key r)) (machine_rows d @ [n]))"
    "distinct (map (\<lambda>r. (mr_user r, mr_local_registration_id r)) (machine_rows d @ [n]))"
    using m c by (fastforce simp: machines_distinct_def)+
  moreover have "\<forall>r \<in> set (machine_rows d @ [n]). \<forall>q \<in> set (machine_rows d @ [n]). mr_user r = mr_user q \<longrightarrow>
      mr_credential_key_id r = mr_credential_key_id q \<longrightarrow> mr_credential_key_id r \<noteq> None \<longrightarrow> mr_id r = mr_id q"
    using m assms(2) unfolding machines_distinct_def by (metis (no_types) set_append Un_iff set_simps(1,2) empty_iff insert_iff)
  ultimately have "machines_distinct (machine_rows d @ [n])" by (simp only: machines_distinct_def simp_thms)
  then show ?thesis using assms(3) by (auto simp: catalog_ok_def d')
qed

lemma insert_folder_ok:
  assumes "insert_folder n d = Inr d'" "machine_of (fr_user n) (fr_machine_id n) d = Inr m" "catalog_ok d"
  shows "catalog_ok d'"
proof -
  have c: "fr_user n = fr_user r \<longrightarrow> fr_machine_id n = fr_machine_id r \<longrightarrow> fr_id n \<noteq> fr_id r \<and> fr_key n \<noteq> fr_key r \<and>
      fr_local_registration_id n \<noteq> fr_local_registration_id r" if "r \<in> set (folder_rows d)" for r
    using assms(1) that by (force simp: insert_folder_def list_ex_iff folder_clash_def split: if_splits)
  have d': "d' = d\<lparr>folder_rows := folder_rows d @ [n]\<rparr>" using assms(1) by (simp add: insert_folder_def split: if_splits)
  have "folders_distinct (folder_rows d @ [n])"
    using assms(3) by (auto simp: catalog_ok_def folders_distinct_def dest: c)
  moreover have "\<exists>r \<in> set (machine_rows d). mr_user r = fr_user n \<and> mr_id r = fr_machine_id n"
    using assms(2) by (auto simp: machine_of_def machine_row_of_def find_Some_iff split: option.splits)
  ultimately show ?thesis using assms(3) by (auto simp: catalog_ok_def d')
qed

lemma set_machine_ok:
  assumes "catalog_ok d" and f: "\<And>r. mr_user (f r) = mr_user r \<and> mr_id (f r) = mr_id r \<and> mr_key (f r) = mr_key r \<and>
      mr_local_registration_id (f r) = mr_local_registration_id r"
    and cred: "\<And>r. mr_credential_key_id (f r) = mr_credential_key_id r \<or> mr_credential_key_id (f r) = None \<or>
      (\<forall>q \<in> set (machine_rows d). mr_user q = user \<longrightarrow> mr_id q \<noteq> mid \<longrightarrow> mr_credential_key_id q \<noteq> mr_credential_key_id (f r))"
  shows "catalog_ok (set_machine user mid f d)"
proof -
  let ?rows = "machine_rows (set_machine user mid f d)"
  have m: "map (\<lambda>r. (mr_user r, mr_id r)) ?rows = map (\<lambda>r. (mr_user r, mr_id r)) (machine_rows d)"
    "map (\<lambda>r. (mr_user r, mr_key r)) ?rows = map (\<lambda>r. (mr_user r, mr_key r)) (machine_rows d)"
    "map (\<lambda>r. (mr_user r, mr_local_registration_id r)) ?rows = map (\<lambda>r. (mr_user r, mr_local_registration_id r)) (machine_rows d)"
    using f by (simp_all add: set_machine_def update_where_def)
  have e: "(\<exists>m \<in> set ?rows. mr_user m = a \<and> mr_id m = b) \<longleftrightarrow> (\<exists>m \<in> set (machine_rows d). mr_user m = a \<and> mr_id m = b)" for a b
    using f by (auto simp: set_machine_def set_update_where)
  have row: "\<exists>q \<in> set (machine_rows d). mr_user r = mr_user q \<and> mr_id r = mr_id q \<and>
      (mr_credential_key_id r = mr_credential_key_id q \<or> mr_credential_key_id r = None \<or>
        mr_user q = user \<and> mr_id q = mid \<and>
        (\<forall>q \<in> set (machine_rows d). mr_user q = user \<longrightarrow> mr_id q \<noteq> mid \<longrightarrow> mr_credential_key_id q \<noteq> mr_credential_key_id r))"
    if rr: "r \<in> set ?rows" for r
  proof -
    have "\<exists>q \<in> set (machine_rows d). r = (if mr_user q = user \<and> mr_id q = mid then f q else q)"
      using rr by (auto simp: set_machine_def update_where_def)
    then obtain q where q: "q \<in> set (machine_rows d)" "r = (if mr_user q = user \<and> mr_id q = mid then f q else q)" by blast
    show ?thesis by (rule bexI [OF _ q(1)]) (use q(2) f [of q] cred [of q] in \<open>auto split: if_splits\<close>)
  qed
  have "mr_id r = mr_id q" if rq: "r \<in> set ?rows" "q \<in> set ?rows" "mr_user r = mr_user q"
    "mr_credential_key_id r = mr_credential_key_id q" "mr_credential_key_id r \<noteq> None" for r q
  proof -
    obtain r0 where r0: "r0 \<in> set (machine_rows d)" "mr_user r = mr_user r0" "mr_id r = mr_id r0"
      "mr_credential_key_id r = mr_credential_key_id r0 \<or> mr_credential_key_id r = None \<or> mr_user r0 = user \<and> mr_id r0 = mid \<and>
        (\<forall>q \<in> set (machine_rows d). mr_user q = user \<longrightarrow> mr_id q \<noteq> mid \<longrightarrow> mr_credential_key_id q \<noteq> mr_credential_key_id r)"
      using row [OF rq(1)] by (elim bexE conjE)
    obtain q0 where q0: "q0 \<in> set (machine_rows d)" "mr_user q = mr_user q0" "mr_id q = mr_id q0"
      "mr_credential_key_id q = mr_credential_key_id q0 \<or> mr_credential_key_id q = None \<or> mr_user q0 = user \<and> mr_id q0 = mid \<and>
        (\<forall>r \<in> set (machine_rows d). mr_user r = user \<longrightarrow> mr_id r \<noteq> mid \<longrightarrow> mr_credential_key_id r \<noteq> mr_credential_key_id q)"
      using row [OF rq(2)] by (elim bexE conjE)
    have u: "mr_id a = mr_id b" if "a \<in> set (machine_rows d)" "b \<in> set (machine_rows d)" "mr_user a = mr_user b"
      "mr_credential_key_id a = mr_credential_key_id b" "mr_credential_key_id a \<noteq> None" for a b
      using assms(1) that unfolding catalog_ok_def machines_distinct_def by blast
    have "mr_credential_key_id r = mr_credential_key_id r0 \<or> mr_id r0 = mid \<and> (mr_id q0 = mid \<or> mr_credential_key_id q0 \<noteq> mr_credential_key_id r)"
      "mr_credential_key_id q = mr_credential_key_id q0 \<or> mr_id q0 = mid \<and> (mr_id r0 = mid \<or> mr_credential_key_id r0 \<noteq> mr_credential_key_id q)"
      using r0 q0 rq(3,4,5) by metis+
    then have "mr_id r0 = mr_id q0"
      using u [OF r0(1) q0(1)] r0(2) q0(2) rq(3,4,5) by metis
    then show ?thesis using r0(3) q0(3) by simp
  qed
  then have "machines_distinct ?rows"
    using assms(1) unfolding catalog_ok_def machines_distinct_def m by blast
  moreover have "folder_rows (set_machine user mid f d) = folder_rows d" by (simp add: set_machine_def)
  ultimately show ?thesis using assms(1) unfolding catalog_ok_def e by simp
qed

text \<open>Operations that keep the constraints.\<close>

definition keeps_catalog :: "(world, 'a) act \<Rightarrow> bool" where
  "keeps_catalog m \<longleftrightarrow> (\<forall>w r w'. m w = (r, w') \<longrightarrow> catalog_ok (w_db w) \<longrightarrow> catalog_ok (w_db w'))"

named_theorems keeps_catalog_rules \<open>operations that keep the constraints of the catalogue\<close>

lemma keeps_catalogD: "keeps_catalog m \<Longrightarrow> m w = (r, w') \<Longrightarrow> catalog_ok (w_db w) \<Longrightarrow> catalog_ok (w_db w')"
  by (auto simp: keeps_catalog_def)

lemma keeps_catalog_basic [keeps_catalog_rules]:
  "keeps_catalog (ret x)" "keeps_catalog (raise e)" "keeps_catalog (liftE v)" "keeps_catalog (readE g)"
  "(\<And>d. catalog_ok d \<Longrightarrow> catalog_ok (f d)) \<Longrightarrow> keeps_catalog (on_db f)"
  "(\<And>d d'. catalog_ok d \<Longrightarrow> k d = Inr d' \<Longrightarrow> catalog_ok d') \<Longrightarrow> keeps_catalog (on_dbE k)"
  by (auto simp: keeps_catalog_def act_simps readE_def on_db_def on_dbE_def split: sum.splits)

lemma keeps_catalog_bindS [keeps_catalog_rules]:
  assumes "keeps_catalog m" "\<And>x. keeps_catalog (f x)"
  shows "keeps_catalog (bindS m f)"
  unfolding keeps_catalog_def bindS_def
  using keeps_catalogD [OF assms(1)] keeps_catalogD [OF assms(2)] by (auto split: prod.splits sum.splits)

lemma keeps_catalog_cases [keeps_catalog_rules]:
  "(c \<Longrightarrow> keeps_catalog m) \<Longrightarrow> (\<not> c \<Longrightarrow> keeps_catalog n) \<Longrightarrow> keeps_catalog (if c then m else n)"
  by simp

lemma keeps_catalog_transaction [keeps_catalog_rules]: "keeps_catalog m \<Longrightarrow> keeps_catalog (transaction m)"
  by (auto simp: keeps_catalog_def transaction_def split: prod.splits sum.splits)

lemma replay_registration_keeps [keeps_catalog_rules]:
  "keeps_catalog (replay_registration user enrollment recovered requested existing)"
  unfolding replay_registration_def Let_def
  by (intro keeps_catalog_rules set_machine_ok) auto

lemma set_folder_ok:
  assumes "catalog_ok d" "\<And>r. fr_user (f r) = fr_user r \<and> fr_machine_id (f r) = fr_machine_id r \<and> fr_id (f r) = fr_id r \<and>
      fr_key (f r) = fr_key r \<and> fr_local_registration_id (f r) = fr_local_registration_id r"
  shows "catalog_ok (set_folder user mid fid f d)"
proof -
  let ?rows = "folder_rows (set_folder user mid fid f d)"
  have m: "map (\<lambda>r. (fr_user r, fr_machine_id r, fr_id r)) ?rows = map (\<lambda>r. (fr_user r, fr_machine_id r, fr_id r)) (folder_rows d)"
    "map (\<lambda>r. (fr_user r, fr_machine_id r, fr_key r)) ?rows = map (\<lambda>r. (fr_user r, fr_machine_id r, fr_key r)) (folder_rows d)"
    "map (\<lambda>r. (fr_user r, fr_machine_id r, fr_local_registration_id r)) ?rows
      = map (\<lambda>r. (fr_user r, fr_machine_id r, fr_local_registration_id r)) (folder_rows d)"
    using assms(2) by (simp_all add: set_folder_def update_where_def)
  have "\<exists>q \<in> set (folder_rows d). fr_user q = fr_user r \<and> fr_machine_id q = fr_machine_id r" if "r \<in> set ?rows" for r
    using that assms(2) by (auto simp: set_folder_def set_update_where)
  then show ?thesis using assms(1) m by (fastforce simp: catalog_ok_def folders_distinct_def set_folder_def)
qed

lemma bind_credential_ok:
  assumes "catalog_ok d" "bind_credential user mid expected new d = Inr d'"
  shows "catalog_ok d'"
proof -
  let ?f = "\<lambda>r. if mr_credential_key_id r = expected then r\<lparr>mr_credential_key_id := Some new\<rparr> else r"
  have free: "\<not> (mr_user r = user \<and> mr_id r \<noteq> mid \<and> mr_credential_key_id r = Some new)" if "r \<in> set (machine_rows d)" for r
    using assms(2) that by (auto simp: bind_credential_def list_ex_iff split: if_splits)
  have "d' = set_machine user mid ?f d" using assms(2) by (simp add: bind_credential_def split: if_splits)
  moreover have "catalog_ok (set_machine user mid ?f d)"
    by (rule set_machine_ok [OF assms(1)]) (use free in \<open>auto split: if_splits\<close>)
  ultimately show ?thesis by simp
qed

lemma updates_keep_catalog:
  "keeps_catalog (update_machine_metadata user mid name description)"
  "keeps_catalog (bind_machine_credential user mid expected new)"
  "keeps_catalog (update_folder_metadata user mid fid name description)"
proof -
  show "keeps_catalog (update_machine_metadata user mid name description)"
    unfolding update_machine_metadata_def by (intro keeps_catalog_rules set_machine_ok) auto
  show "keeps_catalog (bind_machine_credential user mid expected new)"
    unfolding bind_machine_credential_def by (intro keeps_catalog_rules) (rule bind_credential_ok)
  show "keeps_catalog (update_folder_metadata user mid fid name description)"
    unfolding update_folder_metadata_def by (intro keeps_catalog_rules set_folder_ok) auto
qed

lemma clear_keeps_catalog: "keeps_catalog (clear_machine_credential user mid expected)"
  unfolding clear_machine_credential_def by (intro keeps_catalog_rules set_machine_ok) auto

lemma in_transaction_keeps:
  assumes "in_transaction x w = Some (r, w')" "catalog_ok (w_db w)" "\<And>y v. x = Some (Inr y, v) \<Longrightarrow> catalog_ok (w_db v)"
  shows "catalog_ok (w_db w')"
proof (cases r)
  case (Inl e)
  then show ?thesis using assms(1,2) by (auto simp: in_transaction_def)
next
  case (Inr y)
  then have "x = Some (Inr y, w')" using assms(1) by (auto simp: in_transaction_def)
  then show ?thesis using assms(3) by blast
qed

lemma register_machine_keeps:
  assumes "register_machine fuel E user reg name description platform version enrollment recovered at_time w = Some (r, w')"
    and "catalog_ok (w_db w)"
  shows "catalog_ok (w_db w')"
proof -
  have loop: "catalog_ok (w_db v)"
    if "insert_machine_loop fuel E n replay base k u = Some (Inr y, v)" "mr_credential_key_id n = None"
      "registered_machine_row (mr_user n) (mr_local_registration_id n) (w_db u) = None" "catalog_ok (w_db u)"
    for u :: world and n replay base k y v
    by (rule insert_machine_loop_result [OF that(1,3)]) (use insert_machine_ok that(2,4) in auto)
  have rep: "catalog_ok (w_db v)" if "replay_registration a b c d e u = (Inr y, v)" "catalog_ok (w_db u)" for a b c d e u y v
    using keeps_catalogD [OF replay_registration_keeps that(1)] that(2) by simp
  show ?thesis
    using assms
    by (auto simp: register_machine_def Let_def intro: rep elim!: in_transaction_keeps
        split: sum.splits if_splits option.splits) ((erule rep | erule loop); simp)+
qed

lemma register_folder_keeps:
  assumes "register_folder fuel E user mid reg name description at_time w = Some (r, w')" "catalog_ok (w_db w)"
  shows "catalog_ok (w_db w')"
proof -
  have loop: "catalog_ok (w_db v)"
    if "insert_folder_loop fuel E n requested base k u = Some (Inr y, v)" "\<exists>m. machine_of (fr_user n) (fr_machine_id n) (w_db u) = Inr m"
      "\<forall>r \<in> set (folder_rows (w_db u)). fr_user r = fr_user n \<longrightarrow> fr_machine_id r = fr_machine_id n \<longrightarrow>
        fr_local_registration_id r \<noteq> fr_local_registration_id n" "catalog_ok (w_db u)"
    for u :: world and n requested base k y v
    by (rule insert_folder_loop_result [OF that(1,3)]) (use insert_folder_ok that(2,4) in auto)
  show ?thesis
    using assms
    by (auto simp: register_folder_def Let_def find_None_iff elim!: in_transaction_keeps
        split: sum.splits if_splits option.splits) (erule loop; simp)+
qed

section \<open>Registering again\<close>

lemma in_transaction_Inr: "in_transaction x w = Some (Inr y, w') \<longleftrightarrow> x = Some (Inr y, w')"
  by (auto simp: in_transaction_def split: sum.splits)

lemma find_update_where:
  assumes "\<And>r. P (f r) = P r"
  shows "List.find P (update_where c f rows) = map_option (\<lambda>r. if c r then f r else r) (List.find P rows)"
  using assms by (induction rows) (auto simp: update_where_def)

lemma machine_row_of_eq:
  assumes "machines_distinct (machine_rows d)" "r \<in> set (machine_rows d)" "mr_user r = user" "mr_id r = mid"
  shows "machine_row_of user mid d = Some r"
  unfolding machine_row_of_def
  by (rule find_unique) (use assms in \<open>auto simp: machines_distinct_def distinct_map dest: inj_onD\<close>)

lemma registered_machine_SomeD:
  "registered_machine_row user reg d = Some r \<Longrightarrow> r \<in> set (machine_rows d) \<and> mr_user r = user \<and> mr_local_registration_id r = reg"
  by (auto simp: registered_machine_row_def find_Some_iff)

text \<open>A registration that has been replayed is replayed again, from the row it left.\<close>

lemma replay_registration_again:
  assumes "replay_registration user enrollment recovered requested existing w = (Inr m, w')"
    and "registered_machine_row user reg (w_db w) = Some existing" "catalog_ok (w_db w)"
  shows "\<exists>r. registered_machine_row user reg (w_db w') = Some r \<and>
    (\<forall>v. replay_registration user enrollment recovered requested r v = (Inr m, v))"
proof (cases "enrollment \<noteq> None \<and> mr_enrollment_key_id existing = None \<and> recovered")
  case True
  let ?r = "existing\<lparr>mr_enrollment_key_id := enrollment\<rparr>"
  let ?f = "\<lambda>r. if mr_enrollment_key_id r = None then r\<lparr>mr_enrollment_key_id := enrollment\<rparr> else r"
  let ?d = "set_machine user (mr_id existing) ?f (w_db w)"
  note e = registered_machine_SomeD [OF assms(2)]
  have "machine_row_of user (mr_id existing) ?d = map_option (\<lambda>r. if mr_user r = user \<and> mr_id r = mr_id existing then ?f r else r)
      (machine_row_of user (mr_id existing) (w_db w))"
    unfolding machine_row_of_def set_machine_def by (simp add: find_update_where)
  moreover have "machine_row_of user (mr_id existing) (w_db w) = Some existing"
    by (rule machine_row_of_eq) (use assms(3) e in \<open>auto simp: catalog_ok_def\<close>)
  ultimately have row: "machine_row_of user (mr_id existing) ?d = Some ?r" using True e by simp
  have "registered_machine_row user reg ?d = map_option (\<lambda>r. if mr_user r = user \<and> mr_id r = mr_id existing then ?f r else r)
      (registered_machine_row user reg (w_db w))"
    unfolding registered_machine_row_def set_machine_def by (simp add: find_update_where)
  then have reg: "registered_machine_row user reg ?d = Some ?r" using True e assms(2) by simp
  have "replay_machine ?r requested = Inr m" "w' = w\<lparr>w_db := ?d\<rparr>"
    using assms(1) True row
    by (auto simp: replay_registration_def Let_def run_simps on_db_def readE_def split: if_splits)
  then show ?thesis using True reg
    by (auto simp: replay_registration_def Let_def run_simps)
next
  case False
  then have "\<not> (enrollment \<noteq> None \<and> mr_enrollment_key_id existing \<noteq> enrollment)" "replay_machine existing requested = Inr m" "w' = w"
    using assms(1) by (auto simp: replay_registration_def Let_def run_simps split: if_splits)
  then show ?thesis using assms(2) False by (auto simp: replay_registration_def Let_def run_simps)
qed

lemma insert_machine_again:
  assumes "insert_machine n d = Inr d'" "machine_of (mr_user n) (mr_id n) d' = Inr m"
    "registered_machine_row (mr_user n) (mr_local_registration_id n) d = None" "mr_enrollment_key_id n = enrollment"
    "(mr_registration_name n, mr_registration_description n, mr_registration_platform n, mr_registration_ctxd_version n) = requested"
  shows "registered_machine_row (mr_user n) (mr_local_registration_id n) d' = Some n"
    and "replay_registration (mr_user n) enrollment recovered requested n v = (Inr m, v)"
proof -
  have d': "d' = d\<lparr>machine_rows := machine_rows d @ [n]\<rparr>" and c: "\<forall>r \<in> set (machine_rows d). \<not> machine_clash n r"
    using assms(1) by (auto simp: insert_machine_def list_ex_iff split: if_splits)
  have f: "List.find P (xs @ [n]) = Some n" if "List.find P xs = None" "P n" for P xs
    using that by (induction xs) (auto split: if_splits)
  show "registered_machine_row (mr_user n) (mr_local_registration_id n) d' = Some n"
    using assms(3) unfolding registered_machine_row_def d' by (simp add: f)
  have "machine_row_of (mr_user n) (mr_id n) d' = Some n"
    unfolding machine_row_of_def d' by (simp, rule f) (use c in \<open>auto simp: find_None_iff machine_clash_def\<close>)
  then have "machine_from_row n = Inr m" using assms(2) by (simp add: machine_of_def)
  then show "replay_registration (mr_user n) enrollment recovered requested n v = (Inr m, v)"
    using assms(4,5) by (auto simp: replay_registration_def Let_def run_simps replay_machine_def)
qed

text \<open>A registered machine, once registered, is returned to every later registration with the same data.\<close>

lemma register_machine_row:
  assumes "register_machine fuel E user reg name description platform version enrollment recovered at_time w = Some (Inr m, w')"
    and "catalog_ok (w_db w)"
  obtains reg' clean_name clean_description clean_platform clean_version r where
    "catalog_text reg 128 = Inr reg'" "catalog_text name 128 = Inr clean_name" "optional_description description = Inr clean_description"
    "optional_catalog_text platform 128 = Inr clean_platform" "optional_catalog_text version 128 = Inr clean_version"
    "registered_machine_row user reg' (w_db w') = Some r"
    "\<And>v. replay_registration user enrollment recovered (clean_name, clean_description, clean_platform, clean_version) r v = (Inr m, v)"
proof -
  obtain reg' clean_name clean_description clean_platform clean_version where
    clean: "catalog_text reg 128 = Inr reg'" "catalog_text name 128 = Inr clean_name" "optional_description description = Inr clean_description"
      "optional_catalog_text platform 128 = Inr clean_platform" "optional_catalog_text version 128 = Inr clean_version"
    using assms(1) by (auto simp: register_machine_def split: sum.splits)
  let ?req = "(clean_name, clean_description, clean_platform, clean_version)"
  have key: "\<exists>r. registered_machine_row user reg' (w_db w') = Some r \<and>
      (\<forall>v. replay_registration user enrollment recovered ?req r v = (Inr m, v))"
  proof -
    let ?w1 = "case at_time of None \<Rightarrow> w\<lparr>w_clock := Suc (w_clock w)\<rparr> | Some _ \<Rightarrow> w"
    let ?registered_at = "case at_time of None \<Rightarrow> e_time E (w_clock w) | Some t \<Rightarrow> t"
    have run: "in_transaction (case registered_machine_row user reg' (w_db ?w1) of
          Some existing \<Rightarrow> Some (replay_registration user enrollment recovered ?req existing ?w1)
        | None \<Rightarrow> insert_machine_loop fuel E
            \<lparr>mr_user = user, mr_id = [], mr_key = [], mr_local_registration_id = reg',
             mr_registration_name = clean_name, mr_registration_description = clean_description,
             mr_registration_platform = clean_platform, mr_registration_ctxd_version = clean_version,
             mr_name = clean_name, mr_description = clean_description, mr_state = M_UNKNOWN,
             mr_platform = clean_platform, mr_ctxd_version = clean_version,
             mr_credential_key_id = None, mr_enrollment_key_id = enrollment, mr_registered_at = ?registered_at\<rparr>
            (replay_registration user enrollment recovered ?req) (catalog_key E clean_name (lit ''machine'')) 1 ?w1) ?w1 = Some (Inr m, w')"
      using assms(1) clean by (simp add: register_machine_def Let_def split: if_splits)
    have w1: "w_db ?w1 = w_db w" by (simp split: option.split)
    show ?thesis
    proof (cases "registered_machine_row user reg' (w_db ?w1)")
      case (Some existing)
      then have "replay_registration user enrollment recovered ?req existing ?w1 = (Inr m, w')"
        using run by (simp add: in_transaction_Inr)
      then show ?thesis using replay_registration_again Some assms(2) w1 by metis
    next
      case None
      obtain n where n: "mr_user n = user" "mr_local_registration_id n = reg'" "mr_enrollment_key_id n = enrollment"
        "(mr_registration_name n, mr_registration_description n, mr_registration_platform n, mr_registration_ctxd_version n) = ?req"
        and loop: "insert_machine_loop fuel E n (replay_registration user enrollment recovered ?req)
          (catalog_key E clean_name (lit ''machine'')) 1 ?w1 = Some (Inr m, w')"
        by (rule that [OF _ _ _ _ run [unfolded None option.case in_transaction_Inr]]) simp_all
      show ?thesis
      proof (rule insert_machine_loop_result [OF loop])
        show "registered_machine_row (mr_user n) (mr_local_registration_id n) (w_db ?w1) = None" using None n by simp
        fix i j d
        let ?n = "n\<lparr>mr_id := e_uuid E (w_uuids ?w1 + i), mr_key := suffixed_key (catalog_key E clean_name (lit ''machine'')) j\<rparr>"
        assume "insert_machine ?n (w_db ?w1) = Inr d" "Inr m = machine_of (mr_user n) (e_uuid E (w_uuids ?w1 + i)) d"
          "w' = ?w1\<lparr>w_uuids := Suc (w_uuids ?w1 + i), w_db := d\<rparr>"
        then show ?thesis
          using insert_machine_again [where n = ?n and d = "w_db ?w1" and d' = d and m = m and requested = ?req] n None by auto
      qed
    qed
  qed
  then show ?thesis using clean that by blast
qed

lemma register_machine_again:
  assumes "register_machine fuel E user reg name description platform version enrollment recovered at_time w = Some (Inr m, w')"
    and "catalog_ok (w_db w)" "0 < t"
  shows "register_machine fuel' E user reg name description platform version enrollment recovered (Some t) w' = Some (Inr m, w')"
  using assms(1,2)
  by (rule register_machine_row) (use assms(3) in \<open>auto simp: register_machine_def Let_def in_transaction_def\<close>)

text \<open>The machine a registration returns is the one in the catalogue.\<close>

lemma register_machine_of:
  assumes "register_machine fuel E user reg name description platform version enrollment recovered at_time w = Some (Inr m, w')"
    and "catalog_ok (w_db w)"
  shows "machine_of user (machine_id m) (w_db w') = Inr m"
  using assms
proof (rule register_machine_row)
  fix reg' clean_name clean_description clean_platform clean_version r
  assume r: "registered_machine_row user reg' (w_db w') = Some r"
    "\<And>v. replay_registration user enrollment recovered (clean_name, clean_description, clean_platform, clean_version) r v = (Inr m, v)"
  have "catalog_ok (w_db w')" by (rule register_machine_keeps [OF assms])
  then have row: "machine_row_of user (mr_id r) (w_db w') = Some r"
    using registered_machine_SomeD [OF r(1)] by (intro machine_row_of_eq) (auto simp: catalog_ok_def)
  let ?v = "w'\<lparr>w_db := (w_db w')\<lparr>machine_rows := []\<rparr>\<rparr>"
  have "machine_from_row r = Inr m"
    using r(2) [of ?v]
    by (auto simp: replay_registration_def replay_machine_def Let_def run_simps on_db_def readE_def machine_row_of_def
      set_machine_def update_where_def split: if_splits)
  moreover have "mr_id r = machine_id m"
    using calculation by (auto simp: machine_from_row_def validate_machine_def invalid_def split: if_splits)
  ultimately show ?thesis using row by (simp add: machine_of_def)
qed

section \<open>The shape of keys\<close>

text \<open>Letters, digits and inner dashes, at most 63 characters.\<close>

definition slug :: "str \<Rightarrow> bool" where
  "slug s \<longleftrightarrow> s \<noteq> [] \<and> length s \<le> 63 \<and> (\<forall>c \<in> set s. key_char c \<or> c = dash) \<and> hd s \<noteq> dash \<and> last s \<noteq> dash"

lemma rstrip_by_last: "rstrip_by f s \<noteq> [] \<Longrightarrow> \<not> f (last (rstrip_by f s))"
  unfolding rstrip_by_def by (metis hd_dropWhile last_rev rev_is_Nil_conv)

lemma rstrip_by_prefix: "\<exists>t. s = rstrip_by f s @ t"
  unfolding rstrip_by_def by (metis rev_append rev_rev_ident takeWhile_dropWhile_id)

lemma rstrip_by_eq_Nil: "rstrip_by f s = [] \<longleftrightarrow> (\<forall>c \<in> set s. f c)"
  by (simp add: rstrip_by_def dropWhile_eq_Nil_conv)

lemma rstrip_by_hd: "rstrip_by f s \<noteq> [] \<Longrightarrow> hd (rstrip_by f s) = hd s"
  using rstrip_by_prefix [of s f] by (metis hd_append2)

lemma length_rstrip_by: "length (rstrip_by f s) \<le> length s"
  using rstrip_by_prefix [of s f] by (metis le_add1 length_append)

text \<open>What is left of a text that does not start with a dash.\<close>

lemma rstrip_by_take:
  assumes "s \<noteq> []" "\<not> f (hd s)" "0 < n"
  shows "rstrip_by f (take n s) \<noteq> [] \<and> hd (rstrip_by f (take n s)) = hd s"
proof -
  have "take n s \<noteq> []" "hd (take n s) = hd s" using assms(1,3) by (auto simp: take_Cons' neq_Nil_conv)
  moreover from this have "hd s \<in> set (take n s)" by (metis hd_in_set)
  ultimately have "rstrip_by f (take n s) \<noteq> []" using assms(2) unfolding rstrip_by_eq_Nil by blast
  then show ?thesis using rstrip_by_hd \<open>hd (take n s) = hd s\<close> by fastforce
qed

lemma set_cut: "set (rstrip_by f (take n s)) \<subseteq> set s"
  using set_rstrip_by [of f "take n s"] set_take_subset [of n s] by blast

lemma length_cut: "length (rstrip_by f (take n s)) \<le> n"
  using length_rstrip_by [of f "take n s"] by simp

lemma dash_runs_chars: "c \<in> set (dash_runs b s) \<Longrightarrow> key_char c \<or> c = dash"
  by (induction b s rule: dash_runs.induct) (auto split: if_splits)

lemma catalog_key_slug:
  assumes "slug fallback"
  shows "slug (catalog_key E name fallback)"
proof -
  define n where "n = strip_by (\<lambda>c. c = dash) (dash_runs False (map ascii_lower (filter (\<lambda>c. c < 128) (e_nfkd E name))))"
  have n: "\<forall>c \<in> set n. key_char c \<or> c = dash"
  proof
    fix c assume "c \<in> set n"
    then have "c \<in> set (dash_runs False (map ascii_lower (filter (\<lambda>c. c < 128) (e_nfkd E name))))"
      unfolding n_def by (rule subsetD [OF set_strip_by])
    then show "key_char c \<or> c = dash" by (rule dash_runs_chars)
  qed
  have "hd n \<noteq> dash" if ne: "n \<noteq> []"
  proof -
    let ?s = "dropWhile (\<lambda>c. c = dash) (dash_runs False (map ascii_lower (filter (\<lambda>c. c < 128) (e_nfkd E name))))"
    have n': "n = rstrip_by (\<lambda>c. c = dash) ?s" by (simp add: n_def strip_by_def)
    have "?s \<noteq> []"
    proof
      assume s: "?s = []"
      have "n = []" unfolding n' s by (simp add: rstrip_by_def)
      then show False using ne by simp
    qed
    then have "hd ?s \<noteq> dash" by (rule hd_dropWhile [of "\<lambda>c. c = dash"])
    moreover have "hd n = hd ?s" using rstrip_by_hd ne unfolding n' by blast
    ultimately show ?thesis by simp
  qed
  then have b: "(if n = [] then fallback else n) \<noteq> []" "hd (if n = [] then fallback else n) \<noteq> dash"
    "\<forall>c \<in> set (if n = [] then fallback else n). key_char c \<or> c = dash"
    using n assms by (auto simp: slug_def)
  let ?b = "if n = [] then fallback else n"
  have k: "catalog_key E name fallback = rstrip_by (\<lambda>c. c = dash) (take 63 ?b)"
    unfolding catalog_key_def n_def Let_def by (rule refl)
  have ne: "rstrip_by (\<lambda>c. c = dash) (take 63 ?b) \<noteq> []" "hd (rstrip_by (\<lambda>c. c = dash) (take 63 ?b)) = hd ?b"
    using rstrip_by_take [OF b(1), of "\<lambda>c. c = dash" 63] b(2) by auto
  show ?thesis unfolding slug_def k
  proof (intro conjI)
    show "hd (rstrip_by (\<lambda>c. c = dash) (take 63 ?b)) \<noteq> dash" unfolding ne(2) by (rule b(2))
    show "last (rstrip_by (\<lambda>c. c = dash) (take 63 ?b)) \<noteq> dash" by (rule rstrip_by_last [OF ne(1)])
    show "\<forall>c \<in> set (rstrip_by (\<lambda>c. c = dash) (take 63 ?b)). key_char c \<or> c = dash"
      by (rule ballI, rule bspec [OF b(3)], erule subsetD [OF set_cut])
    show "length (rstrip_by (\<lambda>c. c = dash) (take 63 ?b)) \<le> 63" by (rule length_cut)
  qed (rule ne(1))
qed

lemma length_decimal: "n < 10 ^ k \<Longrightarrow> 0 < k \<Longrightarrow> length (decimal n) \<le> k"
proof (induction n arbitrary: k rule: decimal.induct)
  case (1 n)
  show ?case
  proof (cases "n < 10")
    case True
    then show ?thesis using 1 by (subst decimal.simps) simp
  next
    case False
    then obtain j where j: "k = Suc j" "0 < j" using 1(2) by (cases k; cases "k - 1") auto
    then have "n div 10 < 10 ^ j" using 1(2) by (simp add: less_mult_imp_div_less mult.commute)
    then show ?thesis using 1(1) [OF False _ j(2)] j(1) False by (subst decimal.simps) simp
  qed
qed

lemma decimal_not_Nil: "decimal n \<noteq> []"
  by (subst decimal.simps) simp

lemma suffixed_key_slug:
  assumes "slug base" "k < 10 ^ 60"
  shows "slug (suffixed_key base k)"
proof (cases "k = 1")
  case False
  let ?e = "dash # decimal k"
  let ?r = "rstrip_by (\<lambda>c. c = dash) (take (63 - length ?e) base)"
  have b: "base \<noteq> []" "hd base \<noteq> dash" "\<forall>c \<in> set base. key_char c \<or> c = dash" using assms(1) by (auto simp: slug_def)
  have l: "length (decimal k) \<le> 60" by (rule length_decimal [OF assms(2)]) simp
  then have r: "?r \<noteq> []" "hd ?r = hd base"
    using rstrip_by_take [OF b(1), of "\<lambda>c. c = dash" "63 - length ?e"] b(2) by auto
  have digits: "\<forall>c \<in> set (decimal k). key_char c" using decimal_digits unfolding key_char_def by blast
  have k: "suffixed_key base k = ?r @ ?e" using False by (simp add: suffixed_key_def Let_def)
  show ?thesis unfolding slug_def k
  proof (intro conjI)
    show "length (?r @ ?e) \<le> 63"
      using length_cut [of "\<lambda>c. c = dash" "63 - length ?e" base] l by simp
    show "\<forall>c \<in> set (?r @ ?e). key_char c \<or> c = dash" using digits b(3) set_cut by fastforce
    show "hd (?r @ ?e) \<noteq> dash" using r b(2) by simp
    have "48 \<le> last (decimal k)" using decimal_digits [OF last_in_set [OF decimal_not_Nil]] by blast
    then show "last (?r @ ?e) \<noteq> dash" using decimal_not_Nil [of k] by simp
  qed simp
qed (use assms in \<open>simp add: suffixed_key_def\<close>)

section \<open>Reachable catalogues\<close>

inductive catalog_history :: "env \<Rightarrow> world \<Rightarrow> bool" for E where
  opened: "catalog_history E new_world"
| machine_registered: "catalog_history E w \<Longrightarrow>
    register_machine fuel E user reg name description platform version enrollment recovered at_time w = Some (r, w') \<Longrightarrow>
    catalog_history E w'"
| folder_registered: "catalog_history E w \<Longrightarrow>
    register_folder fuel E user mid reg name description at_time w = Some (r, w') \<Longrightarrow> catalog_history E w'"
| machine_updated: "catalog_history E w \<Longrightarrow> update_machine_metadata user mid name description w = (r, w') \<Longrightarrow> catalog_history E w'"
| folder_updated: "catalog_history E w \<Longrightarrow> update_folder_metadata user mid fid name description w = (f, w') \<Longrightarrow> catalog_history E w'"
| credential_bound: "catalog_history E w \<Longrightarrow> bind_machine_credential user mid expected new w = (r, w') \<Longrightarrow> catalog_history E w'"
| credential_cleared: "catalog_history E w \<Longrightarrow> clear_machine_credential user mid key w = (r, w') \<Longrightarrow> catalog_history E w'"

lemma catalog_history_ok: "catalog_history E w \<Longrightarrow> catalog_ok (w_db w)"
proof (induction rule: catalog_history.induct)
  case opened
  show ?case by (simp add: catalog_ok_def machines_distinct_def folders_distinct_def new_world_def empty_db_def)
qed (blast intro: register_machine_keeps register_folder_keeps keeps_catalogD updates_keep_catalog clear_keeps_catalog)+

end
