(* ===== verification/Submit.thy ===== *)
theory Submit
  imports TreeOps
begin

text \<open>
  Applying a submission: \<open>CtxfsStore.submit\<close> of \<open>src/ctxfs/store.py\<close> with its ordering, preflight
  and the four kinds of operation, and \<open>register_prefix\<close>, which grants a writer a prefix.
\<close>

section \<open>Prefix registration and authorization\<close>

definition other_prefix_conflict :: "db \<Rightarrow> str \<Rightarrow> str \<Rightarrow> str \<Rightarrow> bool res" where
  "other_prefix_conflict d user writer normalized =
     anyE (\<lambda>r. prefixes_overlap normalized (pr_prefix r))
       (filter (\<lambda>r. pr_user r = user \<and> pr_writer r \<noteq> writer) (prefix_rows d))"

definition insert_prefix :: "prefix_row \<Rightarrow> db \<Rightarrow> db" where
  "insert_prefix r d =
     (if list_ex (\<lambda>q. pr_user q = pr_user r \<and> pr_writer q = pr_writer r \<and> pr_prefix q = pr_prefix r)
           (prefix_rows d)
      then d else d\<lparr>prefix_rows := prefix_rows d @ [r]\<rparr>)"

definition register_prefix :: "env \<Rightarrow> str \<Rightarrow> str \<Rightarrow> str \<Rightarrow> (world, unit) act" where
  "register_prefix E user writer pfx =
     bindS (liftE (normalize_path pfx)) (\<lambda>normalized.
     bindS (now E) (\<lambda>t.
     transaction (
       bindS (readE (\<lambda>d. other_prefix_conflict d user writer normalized)) (\<lambda>conflict.
       if conflict then raise (PrefixAuthorizationError ''writer prefix overlaps'') else
       on_db (insert_prefix \<lparr>pr_user = user, pr_writer = writer, pr_prefix = normalized,
                             pr_created_at = t\<rparr>)))))"

definition writer_prefixes :: "db \<Rightarrow> str \<Rightarrow> str \<Rightarrow> str list" where
  "writer_prefixes d user writer =
     map pr_prefix (filter (\<lambda>r. pr_user r = user \<and> pr_writer r = writer) (prefix_rows d))"

definition require_authorized_path :: "str \<Rightarrow> str \<Rightarrow> str \<Rightarrow> db \<Rightarrow> unit res" where
  "require_authorized_path user writer p d =
     bindE (anyE (\<lambda>pfx. path_is_within_prefix p pfx) (writer_prefixes d user writer)) (\<lambda>b.
     if b then Inr () else Inl (PrefixAuthorizationError ''writer is not authorized for path''))"

section \<open>The entries table\<close>

definition same_source :: "str \<Rightarrow> str \<Rightarrow> str \<Rightarrow> entry_row \<Rightarrow> bool" where
  "same_source user writer sk r =
     (row_user r = user \<and> row_writer r = writer \<and> entry_source_key r = sk)"

definition row_by_source_key :: "str \<Rightarrow> str \<Rightarrow> str \<Rightarrow> db \<Rightarrow> entry_row option" where
  "row_by_source_key user writer sk d = List.find (same_source user writer sk) (entry_rows d)"

definition entry_by_source_key :: "str \<Rightarrow> str \<Rightarrow> str \<Rightarrow> db \<Rightarrow> entry option" where
  "entry_by_source_key user writer sk d = map_option entry_from_row (row_by_source_key user writer sk d)"

text \<open>\<open>PRIMARY KEY(user_id, path)\<close>: no other row of the user has the path.\<close>

definition path_taken :: "str \<Rightarrow> str \<Rightarrow> str \<Rightarrow> str \<Rightarrow> db \<Rightarrow> bool" where
  "path_taken user writer sk p d =
     list_ex (\<lambda>r. row_user r = user \<and> entry_path r = p \<and> \<not> same_source user writer sk r) (entry_rows d)"

definition update_entry :: "str \<Rightarrow> str \<Rightarrow> str \<Rightarrow> str \<Rightarrow> (entry_row \<Rightarrow> entry_row) \<Rightarrow> db \<Rightarrow> db res" where
  "update_entry user writer sk p f d =
     (if row_by_source_key user writer sk d \<noteq> None \<and> path_taken user writer sk p d
      then Inl (IntegrityError ''UNIQUE constraint failed: entries.user_id, entries.path'')
      else Inr (d\<lparr>entry_rows := update_where (same_source user writer sk)
             (\<lambda>r. (f r)\<lparr>entry_path := p\<rparr>) (entry_rows d)\<rparr>))"

text \<open>\<open>INSERT ... ON CONFLICT(user_id, writer_id, source_key) DO UPDATE\<close>, which keeps \<open>created_at\<close>.\<close>

definition upsert_entry :: "entry_row \<Rightarrow> db \<Rightarrow> db res" where
  "upsert_entry n d =
     (let user = row_user n; writer = row_writer n; sk = entry_source_key n in
      if path_taken user writer sk (entry_path n) d
      then Inl (IntegrityError ''UNIQUE constraint failed: entries.user_id, entries.path'')
      else if row_by_source_key user writer sk d = None
      then Inr (d\<lparr>entry_rows := entry_rows d @ [n]\<rparr>)
      else Inr (d\<lparr>entry_rows := update_where (same_source user writer sk)
             (\<lambda>r. n\<lparr>created_at := created_at r\<rparr>) (entry_rows d)\<rparr>))"

definition delete_entry :: "str \<Rightarrow> str \<Rightarrow> str \<Rightarrow> db \<Rightarrow> db" where
  "delete_entry user writer sk d =
     d\<lparr>entry_rows := delete_where (same_source user writer sk) (entry_rows d)\<rparr>"

section \<open>Put\<close>

definition put_entry_row ::
  "str \<Rightarrow> str \<Rightarrow> put_operation \<Rightarrow> str \<Rightarrow> str \<Rightarrow> bytes \<Rightarrow> str \<Rightarrow> str \<Rightarrow> rat \<Rightarrow> rat \<Rightarrow> entry_row" where
  "put_entry_row user writer op p text data chash oid created t =
     \<lparr>entry_path = p, entry_source_key = put_source_key op, source_version = put_source_version op,
      doc_class = put_doc_class op, file_format = put_file_format op, content_hash = chash,
      size_bytes = length data, entry_line_count = line_count text, object_id = oid,
      entry_provenance = put_provenance op, created_at = created, updated_at = t,
      row_user = user, row_writer = writer\<rparr>"

text \<open>The branch of \<open>_put\<close> that writes a new object; it returns the object's id.\<close>

definition write_object :: "env \<Rightarrow> str \<Rightarrow> bytes \<Rightarrow> (world, str \<times> loc) act" where
  "write_object E user data =
     bindS (fresh_uuid E) (\<lambda>oid.
     bindS (liftE (object_path E user oid)) (\<lambda>obj.
     bindS (on_fs (fsop (\<lambda>fs. mkdirs fs (butlast obj)))) (\<lambda>_.
     bindS (on_fs (fsop (\<lambda>fs. write_bytes fs obj data))) (\<lambda>_.
     bindS (push_undo (UndoObject obj)) (\<lambda>_. ret (oid, obj))))))"

definition put_object ::
  "env \<Rightarrow> str \<Rightarrow> str \<Rightarrow> bytes \<Rightarrow> entry option \<Rightarrow> (world, str) act" where
  "put_object E user p data existing =
     bindS (write_object E user data) (\<lambda>(oid, obj).
     bindS (replace_tree_entry E user p obj) (\<lambda>_.
     bindS (case existing of
              Some e \<Rightarrow> if entry_path e \<noteq> p then remove_tree_entry E user (entry_path e) else ret ()
            | None \<Rightarrow> ret ()) (\<lambda>_.
     bindS (case existing of
              Some e \<Rightarrow> bindS (liftE (object_path E user (object_id e))) (\<lambda>old. push_cleanup (CleanObject old))
            | None \<Rightarrow> ret ()) (\<lambda>_.
     ret oid))))"

text \<open>How \<open>_put\<close> changes the tree, given the entry the source has; it returns the object's id.\<close>

definition put_tree :: "env \<Rightarrow> str \<Rightarrow> str \<Rightarrow> bytes \<Rightarrow> entry option \<Rightarrow> (world, str) act" where
  "put_tree E user p data existing =
     (case existing of
        Some e \<Rightarrow>
          if content_hash e = sha256 E data
          then bindS (if entry_path e \<noteq> p then rename_tree_entry E user (entry_path e) p else ret ())
                 (\<lambda>_. ret (object_id e))
          else put_object E user p data existing
      | None \<Rightarrow> put_object E user p data existing)"

definition put_op :: "env \<Rightarrow> str \<Rightarrow> str \<Rightarrow> put_operation \<Rightarrow> (world, unit) act" where
  "put_op E user writer op =
     bindS (liftE (normalize_path (put_path op))) (\<lambda>p.
     bindS (readE (require_authorized_path user writer p)) (\<lambda>_.
     bindS (liftE (normalize_text (put_text op))) (\<lambda>text.
     bindS (liftE (utf8_encode text)) (\<lambda>data.
     bindS (now E) (\<lambda>t.
     bindS (gets (\<lambda>w. entry_by_source_key user writer (put_source_key op) (w_db w))) (\<lambda>existing.
     bindS (put_tree E user p data existing) (\<lambda>oid.
     on_dbE (upsert_entry (put_entry_row user writer op p text data (sha256 E data) oid
        (case existing of Some e \<Rightarrow> created_at e | None \<Rightarrow> t) t)))))))))"

section \<open>Move\<close>

definition validated_move_entry :: "str \<Rightarrow> str \<Rightarrow> move_operation \<Rightarrow> db \<Rightarrow> entry res" where
  "validated_move_entry user writer op d =
     bindE (normalize_path (move_path op)) (\<lambda>p.
     bindE (require_authorized_path user writer p d) (\<lambda>_.
     case entry_by_source_key user writer (move_source_key op) d of
       None \<Rightarrow> Inl (KeyError ''unknown source_key'')
     | Some existing \<Rightarrow>
         bindE (require_authorized_path user writer (entry_path existing) d) (\<lambda>_.
         if content_hash existing \<noteq> move_expected_content_hash op
         then Inl (ContentHashMismatchError ''source has another content hash'')
         else Inr existing)))"

text \<open>
  \<open>_move_cycles\<close>: the destinations are followed from every start that has not been seen; a path met
  twice on one walk closes a cycle.
\<close>

function follow_moves ::
  "(str \<times> str) list \<Rightarrow> str list \<Rightarrow> str list \<Rightarrow> str \<Rightarrow> str list \<times> str list option" where
  "follow_moves dests seen stack p =
     (case map_of dests p of
        None \<Rightarrow> (stack, None)
      | Some q \<Rightarrow>
          if p \<in> set stack then (stack, Some (dropWhile (\<lambda>x. x \<noteq> p) stack))
          else if p \<in> set seen then (stack, None)
          else follow_moves dests seen (stack @ [p]) q)"
  by pat_completeness auto
termination
proof (relation "measure (\<lambda>(dests, seen, stack, p). card (fst ` set dests - set stack))", goal_cases)
  case (2 dests seen stack p q)
  then have "p \<in> fst ` set dests" by (metis domI dom_map_of_conv_image_fst)
  with 2 have "fst ` set dests - set (stack @ [p]) \<subset> fst ` set dests - set stack" by auto
  then show ?case by (auto intro!: psubset_card_mono)
qed simp

declare follow_moves.simps [simp del]

fun cycles_from :: "(str \<times> str) list \<Rightarrow> str list \<Rightarrow> str list \<Rightarrow> str list list" where
  "cycles_from dests seen [] = []"
| "cycles_from dests seen (start # starts) =
     (if start \<in> set seen then cycles_from dests seen starts
      else case follow_moves dests seen [] start of (stack, cycle) \<Rightarrow>
        (case cycle of None \<Rightarrow> [] | Some c \<Rightarrow> [c]) @ cycles_from dests (seen @ stack) starts)"

definition move_cycles :: "(str \<times> str) list \<Rightarrow> str list list" where
  "move_cycles dests = cycles_from dests [] (map fst dests)"

definition lookup_key :: "('k \<times> 'v) list \<Rightarrow> 'k \<Rightarrow> 'v res" where
  "lookup_key d k = (case map_of d k of None \<Rightarrow> Inl (KeyError ''key'') | Some v \<Rightarrow> Inr v)"

text \<open>
  \<open>_break_move_cycles\<close>: one member of every cycle is parked under the undo directory. The result
  maps its logical path to the parked file and the logical path that stands for it meanwhile.
\<close>

fun break_cycles ::
  "env \<Rightarrow> str \<Rightarrow> (str \<times> str) list \<Rightarrow> str list list \<Rightarrow> (str \<times> loc) list \<Rightarrow> (str \<times> loc \<times> str) list \<Rightarrow>
   (world, (str \<times> loc \<times> str) list) act" where
  "break_cycles E user dests [] locations temps = ret temps"
| "break_cycles E user dests (cycle # cycles) locations temps =
     bindS (liftE (lookup_key dests (hd cycle))) (\<lambda>source_path.
     bindS (liftE (lookup_key locations source_path)) (\<lambda>source.
     bindS (gets (\<lambda>w. fs_exists (w_fs w) source)) (\<lambda>there.
     if \<not> there then break_cycles E user dests cycles locations temps else
     bindS (undo_path E ''cycle'') (\<lambda>temp.
     bindS (fresh_uuid E) (\<lambda>u.
     bindS (rename_tree_file E user source temp) (\<lambda>_.
     break_cycles E user dests cycles (AList.update source_path temp locations)
       (AList.update source_path (temp, lit ''_ctxfs_cycle/'' @ u) temps)))))))"

definition break_move_cycles ::
  "env \<Rightarrow> str \<Rightarrow> (str \<times> str) list \<Rightarrow> (str \<times> loc) list \<Rightarrow> (world, (str \<times> loc \<times> str) list) act" where
  "break_move_cycles E user dests locations =
     break_cycles E user dests (move_cycles dests) locations []"

definition park_row :: "env \<Rightarrow> str \<Rightarrow> str \<Rightarrow> str \<Rightarrow> str \<Rightarrow> (world, unit) act" where
  "park_row E user writer sk temp_path =
     bindS (now E) (\<lambda>t. on_dbE (update_entry user writer sk temp_path (\<lambda>r. r\<lparr>updated_at := t\<rparr>)))"

text \<open>One round of the loop over the operations of \<open>_move_batch\<close>, and how it moves the file.\<close>

definition move_file ::
  "env \<Rightarrow> str \<Rightarrow> (str \<times> loc \<times> str) list \<Rightarrow> str \<Rightarrow> str \<Rightarrow> (world, unit) act" where
  "move_file E user temps old p =
     (if old \<noteq> p
      then bindS (liftE (case map_of temps old of
                     Some (temp, _) \<Rightarrow> Inr temp | None \<Rightarrow> tree_path E user old)) (\<lambda>source.
           bindS (liftE (tree_path E user p)) (\<lambda>target.
           bindS (gets (\<lambda>w. fs_exists (w_fs w) source)) (\<lambda>there.
           if there then rename_tree_file E user source target else ret ())))
      else ret ())"

definition move_one ::
  "env \<Rightarrow> str \<Rightarrow> str \<Rightarrow> (str \<times> entry) list \<Rightarrow> (str \<times> loc \<times> str) list \<Rightarrow> move_operation \<Rightarrow> (world, unit) act" where
  "move_one E user writer by_source temps op =
     bindS (liftE (lookup_key by_source (move_source_key op))) (\<lambda>e.
     bindS (liftE (normalize_path (move_path op))) (\<lambda>p.
     bindS (move_file E user temps (entry_path e) p) (\<lambda>_.
     bindS (now E) (\<lambda>t.
     on_dbE (update_entry user writer (move_source_key op) p
       (\<lambda>r. r\<lparr>source_version := move_source_version op, updated_at := t\<rparr>))))))"

definition move_batch :: "env \<Rightarrow> str \<Rightarrow> str \<Rightarrow> move_operation list \<Rightarrow> (world, unit) act" where
  "move_batch E user writer ops =
     (if ops = [] then ret () else
      bindS (readE (\<lambda>d. mapE (\<lambda>op. bindE (validated_move_entry user writer op d)
                               (\<lambda>e. Inr (move_source_key op, e))) ops)) (\<lambda>pairs.
      let by_source = fold (\<lambda>(k, e). AList.update k e) pairs [] in
      bindS (liftE (mapE (\<lambda>(k, e). bindE (tree_path E user (entry_path e))
                               (\<lambda>l. Inr (entry_path e, l))) by_source)) (\<lambda>locs.
      let locations = fold (\<lambda>(p, l). AList.update p l) locs [] in
      bindS (liftE (mapE (\<lambda>op. bindE (lookup_key by_source (move_source_key op)) (\<lambda>e.
                               bindE (normalize_path (move_path op)) (\<lambda>p. Inr (entry_path e, p)))) ops)) (\<lambda>ds.
      let dests = fold (\<lambda>(p, q). AList.update p q) ds [];
          key_by_path = fold (\<lambda>(k, e). AList.update (entry_path e) k) by_source [] in
      bindS (break_move_cycles E user dests locations) (\<lambda>temps.
      bindS (forS temps (\<lambda>(old_path, _, temp_path).
               bindS (liftE (lookup_key key_by_path old_path)) (\<lambda>sk.
               park_row E user writer sk temp_path))) (\<lambda>_.
      forS ops (move_one E user writer by_source temps)))))))"

section \<open>Delete and decide\<close>

definition delete_op :: "env \<Rightarrow> str \<Rightarrow> str \<Rightarrow> delete_operation \<Rightarrow> (world, unit) act" where
  "delete_op E user writer op =
     bindS (gets (\<lambda>w. entry_by_source_key user writer (delete_source_key op) (w_db w))) (\<lambda>existing.
     case existing of
       None \<Rightarrow> ret ()
     | Some e \<Rightarrow>
         bindS (readE (require_authorized_path user writer (entry_path e))) (\<lambda>_.
         bindS (remove_tree_entry E user (entry_path e)) (\<lambda>_.
         on_db (delete_entry user writer (delete_source_key op)))))"

definition same_decision :: "str \<Rightarrow> str \<Rightarrow> str \<Rightarrow> decision_row \<Rightarrow> bool" where
  "same_decision user writer sk r = (dec_user r = user \<and> dec_writer r = writer \<and> dec_source_key r = sk)"

definition upsert_decision :: "decision_row \<Rightarrow> db \<Rightarrow> db" where
  "upsert_decision n d =
     (let same = same_decision (dec_user n) (dec_writer n) (dec_source_key n) in
      if list_ex same (decision_rows d)
      then d\<lparr>decision_rows := update_where same
             (\<lambda>r. n\<lparr>dec_created_at := dec_created_at r\<rparr>) (decision_rows d)\<rparr>
      else d\<lparr>decision_rows := decision_rows d @ [n]\<rparr>)"

definition optional_path :: "str option \<Rightarrow> str option res" where
  "optional_path p =
     (case p of
        Some q \<Rightarrow> if q = [] then Inr None else bindE (normalize_path q) (\<lambda>n. Inr (Some n))
      | None \<Rightarrow> Inr None)"

definition decision_op :: "env \<Rightarrow> str \<Rightarrow> str \<Rightarrow> decision_operation \<Rightarrow> (world, unit) act" where
  "decision_op E user writer op =
     bindS (liftE (optional_path (decision_path op))) (\<lambda>p.
     bindS (case p of None \<Rightarrow> ret () | Some q \<Rightarrow> readE (require_authorized_path user writer q)) (\<lambda>_.
     bindS (now E) (\<lambda>t.
     bindS (gets (\<lambda>w. List.find (same_decision user writer (decision_source_key op))
                       (decision_rows (w_db w)))) (\<lambda>existing.
     bindS (liftE (bound_integer (decision_retry_after_seconds op))) (\<lambda>_.
     on_db (upsert_decision
       \<lparr>dec_user = user, dec_writer = writer, dec_source_key = decision_source_key op,
        dec_source_version = decision_source_version op, dec_path = p,
        dec_state = decision_op_state op, dec_failure_code = decision_failure_code op,
        dec_failure_message = decision_failure_message op,
        dec_retry_after_seconds = decision_retry_after_seconds op,
        dec_created_at = (case existing of Some r \<Rightarrow> dec_created_at r | None \<Rightarrow> t),
        dec_updated_at = t\<rparr>))))))"

section \<open>Ordering\<close>

fun reject_duplicate_move_sources :: "str set \<Rightarrow> operation list \<Rightarrow> unit res" where
  "reject_duplicate_move_sources seen [] = Inr ()"
| "reject_duplicate_move_sources seen (Move m # ops) =
     (if move_source_key m \<in> seen
      then Inl (ValueError ''duplicate move source_key in submission'')
      else reject_duplicate_move_sources (insert (move_source_key m) seen) ops)"
| "reject_duplicate_move_sources seen (_ # ops) = reject_duplicate_move_sources seen ops"

type_synonym identity = "str \<times> str"

definition source_path_maps :: "str \<Rightarrow> db \<Rightarrow> (identity \<rightharpoonup> str) \<times> (str \<rightharpoonup> identity)" where
  "source_path_maps user d =
     fold (\<lambda>r (paths_by_source, sources_by_path).
         (paths_by_source((row_writer r, entry_source_key r) \<mapsto> entry_path r),
          sources_by_path(entry_path r \<mapsto> (row_writer r, entry_source_key r))))
       (filter (\<lambda>r. row_user r = user) (entry_rows d)) (Map.empty, Map.empty)"

fun the_move :: "operation \<Rightarrow> move_operation option" where
  "the_move (Move m) = Some m"
| "the_move _ = None"

definition moves_of :: "operation list \<Rightarrow> move_operation list" where
  "moves_of ops = List.map_filter the_move ops"

text \<open>
  \<open>visit\<close>: the move that frees a destination goes first. \<open>temporary\<close> holds the source keys on the
  current path, \<open>permanent\<close> those already placed.
\<close>

function visit ::
  "(str \<times> move_operation) list \<Rightarrow> str list \<Rightarrow> str list \<Rightarrow> move_operation list \<Rightarrow> move_operation \<Rightarrow>
   (str list \<times> move_operation list) res" where
  "visit by_path temporary permanent ordered m =
     (if move_source_key m \<in> set permanent then Inr (permanent, ordered)
      else if move_source_key m \<in> set temporary then Inr (permanent, ordered)
      else bindE (normalize_path (move_path m)) (\<lambda>destination.
        bindE (case map_of by_path destination of
            None \<Rightarrow> Inr (permanent, ordered)
          | Some dependency \<Rightarrow>
              if move_source_key dependency \<noteq> move_source_key m
              then visit by_path (move_source_key m # temporary) permanent ordered dependency
              else Inr (permanent, ordered)) (\<lambda>(permanent, ordered).
        Inr (move_source_key m # permanent, ordered @ [m]))))"
  by pat_completeness auto
termination
proof (relation "measure (\<lambda>(by_path, temporary, permanent, ordered, m).
    let K = (move_source_key \<circ> snd) ` set by_path in
    card (K - set temporary) + (if move_source_key m \<in> K then 0 else 1))", goal_cases)
  case (2 by_path temporary permanent ordered m destination dependency)
  let ?K = "(move_source_key \<circ> snd) ` set by_path" and ?k = "move_source_key m"
  have dep: "move_source_key dependency \<in> ?K"
    using 2 by (force dest: map_of_SomeD)
  show ?case
  proof (cases "?k \<in> ?K")
    case True
    then have "?K - set (?k # temporary) \<subset> ?K - set temporary" using 2 by auto
    then have "card (?K - set (?k # temporary)) < card (?K - set temporary)"
      by (auto intro!: psubset_card_mono)
    then show ?thesis using dep True by (simp add: Let_def)
  next
    case False
    then have "?K - set (?k # temporary) = ?K - set temporary" by auto
    then show ?thesis using dep False by (simp add: Let_def)
  qed
qed simp

declare visit.simps [simp del]

fun visit_all ::
  "(str \<times> move_operation) list \<Rightarrow> str list \<Rightarrow> move_operation list \<Rightarrow> move_operation list \<Rightarrow>
   move_operation list res" where
  "visit_all by_path permanent ordered [] = Inr ordered"
| "visit_all by_path permanent ordered (m # ms) =
     bindE (visit by_path [] permanent ordered m) (\<lambda>(permanent, ordered).
     visit_all by_path permanent ordered ms)"

definition moves_by_path :: "str \<Rightarrow> (identity \<rightharpoonup> str) \<Rightarrow> move_operation list \<Rightarrow> (str \<times> move_operation) list" where
  "moves_by_path writer paths_by_source moves =
     fold (\<lambda>m d. case paths_by_source (writer, move_source_key m) of
             None \<Rightarrow> d | Some p \<Rightarrow> AList.update p m d) moves []"

definition ordered_operations :: "str \<Rightarrow> str \<Rightarrow> operation list \<Rightarrow> db \<Rightarrow> operation list res" where
  "ordered_operations user writer ops d =
     (let deletes = filter (\<lambda>p. kind p = DELETE) ops;
          moves = moves_of ops;
          puts = filter (\<lambda>p. kind p = PUT) ops;
          decisions = filter (\<lambda>p. kind p = DECISION) ops
      in if length moves < 2 then Inr (deletes @ map Move moves @ puts @ decisions)
         else bindE (visit_all (moves_by_path writer (fst (source_path_maps user d)) moves) [] [] moves)
           (\<lambda>ordered. Inr (deletes @ map Move ordered @ puts @ decisions)))"

section \<open>Preflight\<close>

definition require_unoccupied_path :: "str \<Rightarrow> identity \<Rightarrow> (str \<rightharpoonup> identity) \<Rightarrow> unit res" where
  "require_unoccupied_path p ident sources_by_path =
     (case sources_by_path p of
        None \<Rightarrow> Inr ()
      | Some occupant \<Rightarrow> if occupant = ident then Inr ()
                        else Inl (FileExistsError ''path is already occupied''))"

fun preflight_step ::
  "str \<Rightarrow> str \<Rightarrow> db \<Rightarrow> identity set \<Rightarrow> operation \<Rightarrow> (identity \<rightharpoonup> str) \<times> (str \<rightharpoonup> identity) \<Rightarrow>
   ((identity \<rightharpoonup> str) \<times> (str \<rightharpoonup> identity)) res" where
  "preflight_step user writer d moving (Put op) (ps, ss) =
     bindE (normalize_path (put_path op)) (\<lambda>p.
     bindE (require_authorized_path user writer p d) (\<lambda>_.
     let ident = (writer, put_source_key op) in
     bindE (require_unoccupied_path p ident ss) (\<lambda>_.
     let ss' = (case ps ident of Some old \<Rightarrow> if old \<noteq> p then ss(old := None) else ss | None \<Rightarrow> ss)
     in Inr (ps(ident \<mapsto> p), ss'(p \<mapsto> ident)))))"
| "preflight_step user writer d moving (Move op) (ps, ss) =
     bindE (normalize_path (move_path op)) (\<lambda>p.
     bindE (require_authorized_path user writer p d) (\<lambda>_.
     let ident = (writer, move_source_key op) in
     case ps ident of
       None \<Rightarrow> Inl (KeyError ''unknown source_key'')
     | Some old \<Rightarrow>
         bindE (require_authorized_path user writer old d) (\<lambda>_.
         bindE (case ss p of
                  None \<Rightarrow> Inr ()
                | Some occupant \<Rightarrow>
                    if occupant \<noteq> ident \<and> occupant \<notin> moving
                    then require_unoccupied_path p ident ss else Inr ()) (\<lambda>_.
         if old \<noteq> p then Inr (ps(ident \<mapsto> p), (ss(old := None))(p \<mapsto> ident)) else Inr (ps, ss)))))"
| "preflight_step user writer d moving (Delete op) (ps, ss) =
     (let ident = (writer, delete_source_key op) in
      case ps ident of
        None \<Rightarrow> Inr (ps, ss)
      | Some old \<Rightarrow>
          bindE (require_authorized_path user writer old d) (\<lambda>_.
          Inr (ps(ident := None), ss(old := None))))"
| "preflight_step user writer d moving (Decide op) (ps, ss) =
     (case decision_path op of
        None \<Rightarrow> Inr (ps, ss)
      | Some q \<Rightarrow>
          bindE (normalize_path q) (\<lambda>p.
          bindE (require_authorized_path user writer p d) (\<lambda>_. Inr (ps, ss))))"

fun preflight_from ::
  "str \<Rightarrow> str \<Rightarrow> db \<Rightarrow> identity set \<Rightarrow> operation list \<Rightarrow> (identity \<rightharpoonup> str) \<times> (str \<rightharpoonup> identity) \<Rightarrow>
   unit res" where
  "preflight_from user writer d moving [] s = Inr ()"
| "preflight_from user writer d moving (op # ops) s =
     bindE (preflight_step user writer d moving op s) (preflight_from user writer d moving ops)"

definition preflight_submission :: "str \<Rightarrow> str \<Rightarrow> operation list \<Rightarrow> db \<Rightarrow> unit res" where
  "preflight_submission user writer ops d =
     preflight_from user writer d ((\<lambda>m. (writer, move_source_key m)) ` set (moves_of ops)) ops
       (source_path_maps user d)"

section \<open>Submit\<close>

text \<open>The loop of \<open>submit\<close>: a run of moves is one batch, every other operation is applied alone.\<close>

function apply_operations :: "env \<Rightarrow> str \<Rightarrow> str \<Rightarrow> operation list \<Rightarrow> (world, unit) act" where
  "apply_operations E user writer [] = ret ()"
| "apply_operations E user writer (Put op # ops) =
     bindS (put_op E user writer op) (\<lambda>_. apply_operations E user writer ops)"
| "apply_operations E user writer (Move op # ops) =
     bindS (move_batch E user writer
         (op # moves_of (takeWhile (\<lambda>p. kind p = MOVE) ops)))
       (\<lambda>_. apply_operations E user writer (dropWhile (\<lambda>p. kind p = MOVE) ops))"
| "apply_operations E user writer (Delete op # ops) =
     bindS (delete_op E user writer op) (\<lambda>_. apply_operations E user writer ops)"
| "apply_operations E user writer (Decide op # ops) =
     bindS (decision_op E user writer op) (\<lambda>_. apply_operations E user writer ops)"
  by pat_completeness auto
termination
  by (relation "measure (\<lambda>(_, _, _, ops). length ops)")
    (auto simp: less_Suc_eq_le length_dropWhile_le)

definition insert_submission :: "submission_row \<Rightarrow> db \<Rightarrow> db res" where
  "insert_submission r d =
     (if list_ex (\<lambda>q. sub_id q = sub_id r) (submission_rows d)
      then Inl (IntegrityError ''UNIQUE constraint failed: submissions.submission_id'')
      else Inr (d\<lparr>submission_rows := submission_rows d @ [r]\<rparr>))"

definition set_submission :: "str \<Rightarrow> (submission_row \<Rightarrow> submission_row) \<Rightarrow> db \<Rightarrow> db" where
  "set_submission sid f d =
     d\<lparr>submission_rows := update_where (\<lambda>r. sub_id r = sid) f (submission_rows d)\<rparr>"

definition submission_of :: "str \<Rightarrow> db \<Rightarrow> submission res" where
  "submission_of sid d =
     (case List.find (\<lambda>r. sub_id r = sid) (submission_rows d) of
        None \<Rightarrow> Inl (KeyError ''unknown submission_id'')
      | Some r \<Rightarrow> Inr \<lparr>submission_id = sub_id r, submission_state = sub_state r,
                      operation_count = sub_count r, submission_error = sub_error r\<rparr>)"

text \<open>The body of the \<open>try\<close> statement.\<close>

definition run_submission :: "env \<Rightarrow> str \<Rightarrow> str \<Rightarrow> str \<Rightarrow> operation list \<Rightarrow> (world, unit) act" where
  "run_submission E user writer sid ops =
     bindS (liftE (reject_duplicate_move_sources {} ops)) (\<lambda>_.
     bindS (readE (ordered_operations user writer ops)) (\<lambda>ordered.
     bindS (readE (preflight_submission user writer ordered)) (\<lambda>_.
     transaction (
       bindS (apply_operations E user writer ordered) (\<lambda>_.
       bindS (now E) (\<lambda>t.
       on_db (set_submission sid (\<lambda>r. r\<lparr>sub_state := APPLIED, sub_updated_at := t\<rparr>))))))))"

definition submit :: "env \<Rightarrow> str \<Rightarrow> str \<Rightarrow> operation list \<Rightarrow> (world, submission) act" where
  "submit E user writer ops =
     bindS (fresh_uuid E) (\<lambda>sid.
     bindS (now E) (\<lambda>t0.
     bindS (transaction (on_dbE (insert_submission
        \<lparr>sub_id = sid, sub_user = user, sub_writer = writer, sub_state = QUEUED,
         sub_count = length ops, sub_error = None, sub_created_at = t0, sub_updated_at = t0\<rparr>))) (\<lambda>_.
     bindS (modify (\<lambda>w. w\<lparr>w_undo := [], w_cleanup := []\<rparr>)) (\<lambda>_.
     bindS (catchS (run_submission E user writer sid ops)
       (\<lambda>exc.
          bindS (rollback_filesystem E user) (\<lambda>rollback_exc.
          bindS (now E) (\<lambda>t.
          bindS (transaction (on_db (set_submission sid
             (\<lambda>r. r\<lparr>sub_state := FAILED, sub_error := Some (exn_text exc), sub_updated_at := t\<rparr>)))) (\<lambda>_.
          bindS (cleanup_filesystem E user) (\<lambda>_.
          raise (case rollback_exc of Some x \<Rightarrow> x | None \<Rightarrow> exc))))))) (\<lambda>_.
     bindS (cleanup_filesystem E user) (\<lambda>_.
     readE (submission_of sid)))))))"

end
