(* ===== verification/Reads.thy ===== *)
theory Reads
  imports Submit
begin

text \<open>
  The reading side of \<open>src/ctxfs/store.py\<close>: \<open>stat\<close>, \<open>ls\<close>, \<open>tree\<close>, \<open>glob\<close>, \<open>read\<close>, \<open>read_lines\<close> and
  \<open>writer_status_summary\<close>, which compare the catalogue with the files they find on disk.
\<close>

section \<open>Dictionaries\<close>

text \<open>
  A \<open>dict\<close> in insertion order: assignment keeps the place of a key that is there, \<open>setdefault\<close>
  keeps its value.
\<close>

definition set_default :: "'k \<Rightarrow> 'v \<Rightarrow> ('k \<times> 'v) list \<Rightarrow> ('k \<times> 'v) list" where
  "set_default k v d = (if map_of d k = None then d @ [(k, v)] else d)"

section \<open>Selecting entries and files\<close>

text \<open>\<open>not prefix or _path_is_within_prefix(path, prefix)\<close>.\<close>

definition under_prefix :: "str \<Rightarrow> str \<Rightarrow> bool res" where
  "under_prefix pfx path = (if pfx = [] then Inr True else path_is_within_prefix path pfx)"

definition entries_under_prefix :: "str \<Rightarrow> str \<Rightarrow> db \<Rightarrow> entry list res" where
  "entries_under_prefix user pfx d =
     bindE (filterE (\<lambda>r. under_prefix pfx (entry_path r))
        (sort_key entry_path (filter (\<lambda>r. row_user r = user) (entry_rows d))))
       (\<lambda>rows. Inr (map entry_from_row rows))"

definition entry_present :: "env \<Rightarrow> str \<Rightarrow> fs \<Rightarrow> entry \<Rightarrow> bool res" where
  "entry_present E user fs e = bindE (tree_path E user (entry_path e)) (\<lambda>p. Inr (fs_exists fs p))"

text \<open>\<open>sorted(start.rglob("*"))\<close>, or \<open>start\<close> itself when it is a file.\<close>

definition rglob :: "fs \<Rightarrow> loc \<Rightarrow> loc list" where
  "rglob fs start = sort (remdups (filter (strict_prefix start) (map fst (nodes fs))))"

text \<open>The logical path of a candidate, when it is a file whose name is one, below the prefix.\<close>

definition disk_file :: "fs \<Rightarrow> loc \<Rightarrow> str \<Rightarrow> loc \<Rightarrow> (str \<times> loc) option res" where
  "disk_file fs user_dir pfx candidate =
     (if \<not> is_file fs candidate then Inr None
      else case logical_tree_path (drop (length user_dir) candidate) of
          None \<Rightarrow> Inr None
        | Some logical_path \<Rightarrow>
            bindE (under_prefix pfx logical_path) (\<lambda>b.
            Inr (if b then Some (logical_path, candidate) else None)))"

definition disk_files_under_prefix :: "env \<Rightarrow> str \<Rightarrow> str \<Rightarrow> fs \<Rightarrow> (str \<times> loc) list res" where
  "disk_files_under_prefix E user pfx fs =
     bindE (user_root E user) (\<lambda>root.
     if \<not> fs_exists fs root then Inr [] else
     bindE (if pfx = [] then Inr root else tree_path E user pfx) (\<lambda>start.
     if \<not> fs_exists fs start then Inr [] else
     bindE (mapE (disk_file fs root pfx) (if is_file fs start then [start] else rglob fs start)) (\<lambda>files.
     Inr (List.map_filter id files))))"

section \<open>Entries of a listing\<close>

definition file_entry :: "str \<Rightarrow> entry \<Rightarrow> directory_entry" where
  "file_entry p e = \<lparr>de_path = p, de_kind = FileEntry, de_size_bytes = Some (size_bytes e),
     de_line_count = Some (entry_line_count e), de_content_hash = Some (content_hash e)\<rparr>"

definition dir_entry :: "str \<Rightarrow> directory_entry" where
  "dir_entry p = \<lparr>de_path = p, de_kind = DirectoryKind, de_size_bytes = None, de_line_count = None,
     de_content_hash = None\<rparr>"

definition disk_directory_entry :: "fs \<Rightarrow> str \<Rightarrow> loc \<Rightarrow> directory_entry res" where
  "disk_directory_entry fs p place =
     bindE (read_bytes fs place) (\<lambda>data.
     Inr \<lparr>de_path = p, de_kind = FileEntry, de_size_bytes = Some (length data),
          de_line_count = Some (line_count (utf8_decode_replace data)), de_content_hash = None\<rparr>)"

definition stat :: "env \<Rightarrow> str \<Rightarrow> str \<Rightarrow> world \<Rightarrow> entry option res" where
  "stat E user path w =
     bindE (normalize_path path) (\<lambda>normalized.
     case List.find (\<lambda>r. row_user r = user \<and> entry_path r = normalized) (entry_rows (w_db w)) of
       None \<Rightarrow> Inr None
     | Some r \<Rightarrow>
         let e = entry_from_row r in
         bindE (entry_present E user (w_fs w) e) (\<lambda>b. Inr (if b then Some e else None)))"

definition require_entry :: "env \<Rightarrow> str \<Rightarrow> str \<Rightarrow> world \<Rightarrow> entry res" where
  "require_entry E user path w =
     bindE (stat E user path w) (\<lambda>found.
     case found of
       None \<Rightarrow> bindE (normalize_path path) (\<lambda>_. Inl (FileNotFoundError ''no such entry''))
     | Some e \<Rightarrow> Inr e)"

type_synonym listing = "(str \<times> directory_entry) list"

text \<open>A listing and whether the tree and the catalogue have been found to differ.\<close>

definition bounded_listing :: "env \<Rightarrow> int \<Rightarrow> listing \<times> bool \<Rightarrow> directory_entry bounded" where
  "bounded_listing E limit listed =
     (let (children, mismatch) = listed;
          entries = map snd (sort_key (\<lambda>(path, _). e_casefold E path) children)
      in if int (length entries) > limit
         then \<lparr>items = take (nat limit) entries, complete = False, stopped_by = Some LIMIT\<rparr>
         else \<lparr>items = entries, complete = \<not> mismatch,
               stopped_by = (if mismatch then Some CATALOG_MISMATCH else None)\<rparr>)"

text \<open>\<open>_normalize_path(path) if path else ""\<close>.\<close>

definition optional_prefix :: "str \<Rightarrow> str res" where
  "optional_prefix p = (if p = [] then Inr [] else normalize_path p)"

text \<open>
  The two loops that \<open>ls\<close> and \<open>tree\<close> share, over the entries of the catalogue and over the files on
  disk that the catalogue does not know; they differ in what they add to the listing for a path.
\<close>

type_synonym adder = "str \<Rightarrow> (str \<Rightarrow> directory_entry res) \<Rightarrow> listing \<Rightarrow> listing res"

fun scan_entries :: "env \<Rightarrow> str \<Rightarrow> fs \<Rightarrow> adder \<Rightarrow> entry list \<Rightarrow> listing \<times> bool \<Rightarrow> (listing \<times> bool) res" where
  "scan_entries E user fs add [] st = Inr st"
| "scan_entries E user fs add (e # es) (listed, mismatch) =
     bindE (entry_present E user fs e) (\<lambda>present.
     if \<not> present then scan_entries E user fs add es (listed, True) else
     bindE (add (entry_path e) (\<lambda>p. Inr (file_entry p e)) listed) (\<lambda>listed.
     scan_entries E user fs add es (listed, mismatch)))"

fun scan_disk :: "env \<Rightarrow> str \<Rightarrow> world \<Rightarrow> adder \<Rightarrow> (str \<times> loc) list \<Rightarrow> listing \<times> bool \<Rightarrow> (listing \<times> bool) res" where
  "scan_disk E user w add [] st = Inr st"
| "scan_disk E user w add ((disk_path, place) # files) (listed, mismatch) =
     bindE (stat E user disk_path w) (\<lambda>known.
     if known \<noteq> None then scan_disk E user w add files (listed, mismatch) else
     bindE (add disk_path (\<lambda>p. disk_directory_entry (w_fs w) p place) listed) (\<lambda>listed.
     scan_disk E user w add files (listed, True)))"

definition scan :: "env \<Rightarrow> str \<Rightarrow> str \<Rightarrow> adder \<Rightarrow> world \<Rightarrow> (listing \<times> bool) res" where
  "scan E user normalized add w =
     bindE (entries_under_prefix user normalized (w_db w)) (\<lambda>es.
     bindE (scan_entries E user (w_fs w) add es ([], False)) (\<lambda>st.
     bindE (disk_files_under_prefix E user normalized (w_fs w)) (\<lambda>files.
     scan_disk E user w add files st)))"

section \<open>ls\<close>

text \<open>The child of the directory that an entry or a file belongs to.\<close>

definition add_child :: "str \<Rightarrow> adder" where
  "add_child normalized path leaf children =
     (case relative_parts normalized path of
        [] \<Rightarrow> Inr children
      | first # rest \<Rightarrow>
          let child_path = join_relative normalized first in
          if rest = []
          then bindE (leaf child_path) (\<lambda>e. Inr (AList.update child_path e children))
          else Inr (set_default child_path (dir_entry child_path) children))"

definition ls :: "env \<Rightarrow> str \<Rightarrow> str \<Rightarrow> int \<Rightarrow> world \<Rightarrow> directory_entry bounded res" where
  "ls E user path limit w =
     (if limit \<le> 0 then Inl (ValueError ''limit must be positive'') else
      bindE (optional_prefix path) (\<lambda>normalized.
      bindE (scan E user normalized (add_child normalized) w) (\<lambda>listed.
      Inr (bounded_listing E limit listed))))"

section \<open>tree\<close>

text \<open>\<open>PurePosixPath(path).parent\<close>, its parent, and so on while there is a parent.\<close>

fun parents_of :: "nat \<Rightarrow> str list \<Rightarrow> str list" where
  "parents_of n parts = (if n \<le> 1 then [] else join_with slash (take (n - 1) parts) # parents_of (n - 1) parts)"

declare parents_of.simps [simp del]

definition parents :: "str \<Rightarrow> str list" where
  "parents p = parents_of (length (pure_parts p)) (pure_parts p)"

definition within_depth :: "int option \<Rightarrow> nat \<Rightarrow> bool" where
  "within_depth depth n = (case depth of None \<Rightarrow> True | Some d \<Rightarrow> int n \<le> d)"

fun add_parents :: "str \<Rightarrow> int option \<Rightarrow> str list \<Rightarrow> listing \<Rightarrow> listing res" where
  "add_parents pfx depth [] listed = Inr listed"
| "add_parents pfx depth (parent_path # further) listed =
     bindE (if parent_path = pfx then Inr False else under_prefix pfx parent_path) (\<lambda>below.
     add_parents pfx depth further
       (if below \<and> within_depth depth (length (relative_parts pfx parent_path))
        then set_default parent_path (dir_entry parent_path) listed else listed))"

definition add_tree_path :: "str \<Rightarrow> int option \<Rightarrow> adder" where
  "add_tree_path pfx depth path leaf listed =
     bindE (if within_depth depth (length (relative_parts pfx path))
            then bindE (leaf path) (\<lambda>e. Inr (AList.update path e listed)) else Inr listed) (\<lambda>listed.
     add_parents pfx depth (parents path) listed)"

definition tree :: "env \<Rightarrow> str \<Rightarrow> str \<Rightarrow> int option \<Rightarrow> int \<Rightarrow> world \<Rightarrow> directory_entry bounded res" where
  "tree E user pfx depth limit w =
     (if limit \<le> 0 then Inl (ValueError ''limit must be positive'') else
      if (case depth of None \<Rightarrow> False | Some d \<Rightarrow> d < 0) then Inl (ValueError ''depth must be non-negative'') else
      bindE (optional_prefix pfx) (\<lambda>normalized_prefix.
      bindE (scan E user normalized_prefix (add_tree_path normalized_prefix depth) w) (\<lambda>listed.
      Inr (bounded_listing E limit listed))))"

section \<open>glob\<close>

text \<open>The matches so far, whether a mismatch has been seen, and whether the limit has been reached.\<close>

fun glob_entries ::
  "env \<Rightarrow> str \<Rightarrow> str list \<Rightarrow> int \<Rightarrow> fs \<Rightarrow> entry list \<Rightarrow> directory_entry list \<Rightarrow> bool \<Rightarrow>
   (directory_entry list \<times> bool \<times> bool) res" where
  "glob_entries E user pattern_parts limit fs [] matches mismatch = Inr (matches, mismatch, False)"
| "glob_entries E user pattern_parts limit fs (e # es) matches mismatch =
     bindE (entry_present E user fs e) (\<lambda>present.
     if \<not> present then glob_entries E user pattern_parts limit fs es matches True
     else if \<not> glob_matches pattern_parts (pure_parts (entry_path e))
     then glob_entries E user pattern_parts limit fs es matches mismatch
     else let matches = matches @ [file_entry (entry_path e) e] in
       if int (length matches) \<ge> limit then Inr (matches, mismatch, True)
       else glob_entries E user pattern_parts limit fs es matches mismatch)"

fun glob_disk ::
  "env \<Rightarrow> str \<Rightarrow> str list \<Rightarrow> int \<Rightarrow> world \<Rightarrow> (str \<times> loc) list \<Rightarrow> directory_entry list \<Rightarrow> bool \<Rightarrow>
   (directory_entry list \<times> bool \<times> bool) res" where
  "glob_disk E user pattern_parts limit w [] matches mismatch = Inr (matches, mismatch, False)"
| "glob_disk E user pattern_parts limit w ((disk_path, place) # files) matches mismatch =
     bindE (stat E user disk_path w) (\<lambda>known.
     if known \<noteq> None then glob_disk E user pattern_parts limit w files matches mismatch
     else if \<not> glob_matches pattern_parts (pure_parts disk_path)
     then glob_disk E user pattern_parts limit w files matches True
     else bindE (disk_directory_entry (w_fs w) disk_path place) (\<lambda>e.
       let matches = matches @ [e] in
       if int (length matches) \<ge> limit then Inr (matches, True, True)
       else glob_disk E user pattern_parts limit w files matches True))"

text \<open>The second loop, unless the first has reached the limit, and the page they make.\<close>

fun glob_unknown ::
  "env \<Rightarrow> str \<Rightarrow> str list \<Rightarrow> str \<Rightarrow> int \<Rightarrow> world \<Rightarrow> directory_entry list \<times> bool \<times> bool \<Rightarrow>
   (directory_entry list \<times> bool \<times> bool) res" where
  "glob_unknown E user pattern_parts pfx limit w (matches, mismatch, stopped) =
     (if stopped then Inr (matches, mismatch, True) else
      bindE (disk_files_under_prefix E user pfx (w_fs w)) (\<lambda>files.
      glob_disk E user pattern_parts limit w files matches mismatch))"

fun glob_result :: "directory_entry list \<times> bool \<times> bool \<Rightarrow> directory_entry bounded" where
  "glob_result (matches, mismatch, stopped) =
     (if stopped then \<lparr>items = matches, complete = False, stopped_by = Some LIMIT\<rparr>
      else \<lparr>items = matches, complete = \<not> mismatch,
            stopped_by = (if mismatch then Some CATALOG_MISMATCH else None)\<rparr>)"

definition glob :: "env \<Rightarrow> str \<Rightarrow> str \<Rightarrow> str \<Rightarrow> int \<Rightarrow> world \<Rightarrow> directory_entry bounded res" where
  "glob E user pat pfx limit w =
     (if limit \<le> 0 then Inl (ValueError ''limit must be positive'') else
      bindE (optional_prefix pfx) (\<lambda>normalized_prefix.
      bindE (validate_glob_pattern pat) (\<lambda>pattern_parts.
      bindE (entries_under_prefix user normalized_prefix (w_db w)) (\<lambda>es.
      bindE (glob_entries E user pattern_parts limit (w_fs w) es [] False) (\<lambda>found.
      bindE (glob_unknown E user pattern_parts normalized_prefix limit w found) (\<lambda>found.
      Inr (glob_result found)))))))"

section \<open>read and read_lines\<close>

text \<open>The bytes of an entry, if they are the ones the catalogue has recorded.\<close>

definition verified_bytes :: "env \<Rightarrow> str \<Rightarrow> entry \<Rightarrow> world \<Rightarrow> bytes res" where
  "verified_bytes E user e w =
     bindE (tree_path E user (entry_path e)) (\<lambda>p.
     bindE (read_bytes (w_fs w) p) (\<lambda>data.
     if sha256 E data \<noteq> content_hash e
     then Inl (ContentHashMismatchError ''entry has another hash than expected'') else Inr data))"

definition read :: "env \<Rightarrow> str \<Rightarrow> str \<Rightarrow> int \<Rightarrow> world \<Rightarrow> read_result res" where
  "read E user path max_bytes w =
     (if max_bytes \<le> 0 then Inl (ValueError ''max_bytes must be positive'') else
      bindE (require_entry E user path w) (\<lambda>e.
      bindE (verified_bytes E user e w) (\<lambda>data.
      let whole = int (length data) \<le> max_bytes;
          limited = (if whole then data else truncate_utf8 data (nat max_bytes))
      in Inr \<lparr>rr_path = entry_path e, rr_text = utf8_decode_replace limited,
              rr_content_hash = content_hash e, rr_complete = whole,
              rr_stopped_by = (if whole then None else Some MAX_BYTES)\<rparr>)))"

definition read_lines :: "env \<Rightarrow> str \<Rightarrow> str \<Rightarrow> int \<Rightarrow> int \<Rightarrow> world \<Rightarrow> read_lines_result res" where
  "read_lines E user path start_line end_line w =
     (if start_line \<le> 0 then Inl (ValueError ''start_line must be positive'') else
      if end_line < start_line then Inl (ValueError ''end_line must be greater than or equal to start_line'') else
      bindE (require_entry E user path w) (\<lambda>e.
      bindE (verified_bytes E user e w) (\<lambda>data.
      let lines = splitlines (utf8_decode_replace data);
          selected = take (nat end_line - (nat start_line - 1)) (drop (nat start_line - 1) lines);
          whole = end_line \<le> int (length lines)
      in Inr \<lparr>rl_path = entry_path e, rl_start_line = nat start_line,
              rl_end_line = min (nat end_line) (length lines), rl_lines = selected,
              rl_content_hash = content_hash e, rl_complete = whole,
              rl_stopped_by = (if whole then None else Some EOF)\<rparr>)))"

section \<open>The status of a writer\<close>

text \<open>\<open>GROUP BY state\<close> with \<open>COUNT(*)\<close>: the states that occur, each with its rows.\<close>

definition state_counts :: "('r \<Rightarrow> 's) \<Rightarrow> 'r list \<Rightarrow> ('s \<times> nat) list" where
  "state_counts state rows = map (\<lambda>s. (s, count_where (\<lambda>r. state r = s) rows)) (remdups (map state rows))"

definition decision_state_counts_of :: "str \<Rightarrow> str \<Rightarrow> str option \<Rightarrow> db \<Rightarrow> (decision_state \<times> nat) list" where
  "decision_state_counts_of user writer pfx d =
     (let rows = filter (\<lambda>r. dec_user r = user \<and> dec_writer r = writer) (decision_rows d) in
      state_counts dec_state
        (case pfx of
           None \<Rightarrow> rows
         | Some p \<Rightarrow> filter (\<lambda>r. case dec_path r of None \<Rightarrow> False
             | Some q \<Rightarrow> q = p \<or> sql_like (p @ lit ''/%'') q) rows))"

definition writer_submissions :: "str \<Rightarrow> str \<Rightarrow> db \<Rightarrow> submission_row list" where
  "writer_submissions user writer d = filter (\<lambda>r. sub_user r = user \<and> sub_writer r = writer) (submission_rows d)"

text \<open>\<open>MIN\<close> and \<open>MAX\<close> of a column: null without rows.\<close>

definition sql_min :: "rat list \<Rightarrow> rat option" where
  "sql_min xs = (if xs = [] then None else Some (Min (set xs)))"

definition sql_max :: "rat list \<Rightarrow> rat option" where
  "sql_max xs = (if xs = [] then None else Some (Max (set xs)))"

definition writer_status_summary ::
  "env \<Rightarrow> str \<Rightarrow> str \<Rightarrow> str option \<Rightarrow> rat option \<Rightarrow> (world, writer_status_summary) act" where
  "writer_status_summary E user writer pfx at_time =
     bindS (liftE (case pfx of None \<Rightarrow> Inr None
              | Some p \<Rightarrow> if p = [] then Inr None else bindE (normalize_path p) (\<lambda>q. Inr (Some q)))) (\<lambda>normalized_prefix.
     bindS (case at_time of None \<Rightarrow> now E | Some t \<Rightarrow> ret t) (\<lambda>clock.
     bindS (gets (\<lambda>w. writer_submissions user writer (w_db w))) (\<lambda>subs.
     bindS (readE (entries_under_prefix user (case normalized_prefix of None \<Rightarrow> [] | Some p \<Rightarrow> p))) (\<lambda>es.
     bindS (gets (\<lambda>w. decision_state_counts_of user writer normalized_prefix (w_db w))) (\<lambda>decisions.
     bindS (gets w_fs) (\<lambda>fs.
     bindS (liftE (filterE (\<lambda>e. bindE (entry_present E user fs e) (\<lambda>b. Inr (\<not> b))) es)) (\<lambda>absent.
     let counts = map (\<lambda>s. (s, count_where (\<lambda>r. sub_state r = s) subs)) [QUEUED, APPLIED, FAILED, DISCARDED];
         oldest_unapplied = sql_min (map sub_created_at (filter (\<lambda>r. sub_state r \<noteq> APPLIED) subs))
     in ret \<lparr>submission_state_counts = counts, decision_state_counts = decisions,
             entry_count = length es, incomplete_entry_count = length absent,
             queue_depth = count_where (\<lambda>r. sub_state r = QUEUED) subs,
             oldest_unapplied_submission_age_seconds =
               map_option (\<lambda>t. nat \<lfloor>clock - t\<rfloor>) oldest_unapplied,
             latest_submission_updated_at = sql_max (map sub_updated_at subs)\<rparr>)))))))"

end
