(* ===== verification/Journal.thy ===== *)
theory Journal
  imports Submit
begin

text \<open>
  The journal of a submission: every change the tree operations make pushes a callback that undoes
  it, from any tree as good as the one the change left. So the callbacks, run in reverse, restore
  the tree the submission started from.
\<close>

section \<open>Undo logs\<close>

text \<open>
  A log of undo callbacks over a state with an order \<open>le\<close>, read "as good as": a callback undoes a
  step from \<open>s0\<close> to \<open>s\<close> if from every state as good as \<open>s\<close> it succeeds in one as good as \<open>s0\<close>.
\<close>

definition undoes :: "('u \<Rightarrow> ('s, unit) act) \<Rightarrow> ('s \<Rightarrow> 's \<Rightarrow> bool) \<Rightarrow> 'u \<Rightarrow> 's \<Rightarrow> 's \<Rightarrow> bool" where
  "undoes run le u s s0 \<longleftrightarrow> (\<forall>t. le t s \<longrightarrow> (\<exists>t0. run u t = (Inr (), t0) \<and> le t0 s0))"

definition restores :: "('u \<Rightarrow> ('s, unit) act) \<Rightarrow> ('s \<Rightarrow> 's \<Rightarrow> bool) \<Rightarrow> 'u list \<Rightarrow> 's \<Rightarrow> 's \<Rightarrow> bool" where
  "restores run le us s s0 \<longleftrightarrow>
     (\<forall>t. le t s \<longrightarrow> (\<exists>t0. foldr (\<lambda>u r. bindS r (\<lambda>_. run u)) us (ret ()) t = (Inr (), t0) \<and> le t0 s0))"

locale undo_log =
  fixes run :: "'u \<Rightarrow> ('s, unit) act" and le :: "'s \<Rightarrow> 's \<Rightarrow> bool"
  assumes le_trans: "le a b \<Longrightarrow> le b c \<Longrightarrow> le a c"
begin

lemma restores_Nil: "le s s0 \<Longrightarrow> restores run le [] s s0"
  by (auto simp: restores_def act_simps intro: le_trans)

lemma foldr_snoc_run:
  "foldr (\<lambda>u r. bindS r (\<lambda>_. run u)) us m t =
     (case m t of (Inl e, t') \<Rightarrow> (Inl e, t')
      | (Inr _, t') \<Rightarrow> foldr (\<lambda>u r. bindS r (\<lambda>_. run u)) us (ret ()) t')"
proof (induction us)
  case Nil
  then show ?case by (auto simp: act_simps split: prod.splits sum.splits)
next
  case (Cons u us)
  show ?case unfolding foldr_Cons comp_apply bindS_def [of _ _ t] Cons
    by (auto simp: bindS_def split: prod.splits sum.splits)
qed

lemma restores_push:
  assumes "undoes run le u s' s" "restores run le us s s0"
  shows "restores run le (us @ [u]) s' s0"
  unfolding restores_def
proof (intro allI impI)
  fix t assume "le t s'"
  then obtain t1 where t1: "run u t = (Inr (), t1)" "le t1 s" using assms(1) by (auto simp: undoes_def)
  then obtain t0 where t0: "foldr (\<lambda>u r. bindS r (\<lambda>_. run u)) us (ret ()) t1 = (Inr (), t0)" "le t0 s0"
    using assms(2) by (auto simp: restores_def)
  have "foldr (\<lambda>u r. bindS r (\<lambda>_. run u)) (us @ [u]) (ret ()) t
      = foldr (\<lambda>u r. bindS r (\<lambda>_. run u)) us (run u) t"
    by (simp add: bindS_simps(1))
  also have "\<dots> = (Inr (), t0)" using t1 t0 by (subst foldr_snoc_run) simp
  finally show "\<exists>t0. foldr (\<lambda>u r. bindS r (\<lambda>_. run u)) (us @ [u]) (ret ()) t = (Inr (), t0) \<and> le t0 s0"
    using t0 by blast
qed

lemma restores_le: "restores run le us s s0 \<Longrightarrow> le s' s \<Longrightarrow> restores run le us s' s0"
  unfolding restores_def using le_trans by blast

lemma restoresD:
  assumes "restores run le us s s0" "le s s"
  obtains t0 where "foldr (\<lambda>u r. bindS r (\<lambda>_. run u)) us (ret ()) s = (Inr (), t0)" "le t0 s0"
  using assms by (auto simp: restores_def)

end

lemma run_all_foldr:
  "foldr (\<lambda>u r. bindS r (\<lambda>_. run u)) us (ret ()) s = (Inr (), t) \<Longrightarrow> run_all (map run (rev us)) s = ([], t)"
proof -
  have *: "run_all (ms @ [m]) s =
      (case run_all ms s of (es, t) \<Rightarrow> case m t of (Inl e, t') \<Rightarrow> (es @ [e], t') | (Inr _, t') \<Rightarrow> (es, t'))" for ms m s
    by (induction ms arbitrary: s) (auto split: prod.splits sum.splits)
  show "foldr (\<lambda>u r. bindS r (\<lambda>_. run u)) us (ret ()) s = (Inr (), t) \<Longrightarrow> ?thesis"
  proof (induction us arbitrary: t)
    case Nil
    then show ?case by (simp add: act_simps)
  next
    case (Cons u us)
    then show ?case by (force simp: * bindS_Inr_iff)
  qed
qed

section \<open>Trees as good as each other\<close>

text \<open>
  Locations whose directories matter: those strictly below the user's root, those in the undo
  directory and those where objects are. A tree is as good as another if it has the same files with the same contents
  and, at such locations, no directory the other has not.
\<close>

definition guarded :: "loc \<Rightarrow> loc \<Rightarrow> bool" where
  "guarded ur q \<longleftrightarrow> strict_prefix ur q \<or> strict_prefix [undo_dir] q \<or> (\<exists>x y zs. q = objects_dir # x # y # zs)"

definition fle :: "loc \<Rightarrow> fs \<Rightarrow> fs \<Rightarrow> bool" where
  "fle ur s t \<longleftrightarrow> wf_fs s \<and> wf_fs t \<and> fm s = fm t \<and>
     (\<forall>q. guarded ur q \<longrightarrow> look s q = Some Dir \<longrightarrow> look t q = Some Dir) \<and>
     (\<forall>q i. fm t q = Some i \<longrightarrow> idata s i = idata t i)"

lemma fle_refl: "wf_fs s \<Longrightarrow> fle ur s s"
  by (simp add: fle_def)

lemma fle_trans: "fle ur a b \<Longrightarrow> fle ur b c \<Longrightarrow> fle ur a c"
  by (auto simp: fle_def)

lemma guarded_down: "guarded ur q \<Longrightarrow> strict_prefix q r \<Longrightarrow> guarded ur r"
  by (auto simp: guarded_def strict_prefix_def prefix_def)

text \<open>An absent or file location is not above one that has a node.\<close>

lemma wf_not_above: "wf_fs s \<Longrightarrow> look s q \<noteq> None \<Longrightarrow> look s p \<noteq> Some Dir \<Longrightarrow> \<not> strict_prefix p q"
  using wf_ancestor by blast

lemma strict_prefix_butlastI: "p \<noteq> [] \<Longrightarrow> prefix q (butlast p) \<Longrightarrow> strict_prefix q p"
  by (simp add: strict_prefix_butlast)

lemma butlast_dir: "wf_fs s \<Longrightarrow> fm s p = Some i \<Longrightarrow> look s (butlast p) = Some Dir"
  using wf_parent by (metis fm_Some_iff)

lemma fm_not_Nil: "fm s p = Some i \<Longrightarrow> p \<noteq> []"
  by (auto simp: fm_Some_iff look_simps)

lemma fm_None_iff: "fm s p = None \<longleftrightarrow> look s p = None \<or> look s p = Some Dir"
  by (auto simp: fm_def split: option.splits node.splits)

section \<open>Making the parents of a location\<close>

text \<open>
  \<open>mkdirs\<close> above a location with a file, or where there is none on the way: it succeeds, and makes
  directories only on the way.
\<close>

lemma mkdirs_props:
  assumes "wf_fs s" "\<And>q. prefix q p \<Longrightarrow> fm s q = None"
  obtains t where "mkdirs s p = Inr t" "wf_fs t" "fm t = fm s" "idata t = idata s" "next_ino t = next_ino s"
    "look t p = Some Dir" "\<And>q. look t q = Some Dir \<longleftrightarrow> look s q = Some Dir \<or> prefix q p"
proof -
  obtain t where t: "mkdirs s p = Inr t" using mkdirs_ok assms(2) by blast
  have "look t q = Some Dir \<longleftrightarrow> look s q = Some Dir \<or> prefix q p" for q
    using look_mkdirs [OF t, of q] assms(2) [of q] by (auto simp: fm_None_iff)
  with t show thesis
    using that [of t] wf_mkdirs [OF assms(1) t] fm_mkdirs [OF t] mkdirs_idata [OF t] mkdirs_dir [OF t] by auto
qed

lemma unlink_file: "fm s p = Some i \<Longrightarrow> unlink s p = Inr (del_node s p)"
  by (simp add: unlink_def fm_Some_iff)

lemma replace_file:
  assumes "fm s src = Some i" "look s dst \<noteq> Some Dir" "fm s dst \<noteq> Some i" "look s (butlast dst) = Some Dir"
  shows "replace s src dst = Inr (set_node (del_node s src) dst (File i))"
  using assms
  by (auto simp: replace_def fm_def need_parent_def is_dir_def guardE_def split: option.splits node.splits)

lemma link_file:
  assumes "fm s src = Some i" "look s dst = None" "look s (butlast dst) = Some Dir"
  shows "link s src dst = Inr (set_node s dst (File i))"
  using assms
  by (auto simp: link_def fm_Some_iff fs_exists_def need_parent_def is_dir_def guardE_def)

lemma rename_props:
  assumes wf: "wf_fs s" and src: "fm s src = Some i" and dst: "look s dst \<noteq> Some Dir"
    and d: "fm s dst \<noteq> Some i" "look s (butlast dst) = Some Dir"
  obtains t where "replace s src dst = Inr t" "wf_fs t" "fm t = (fm s)(src := None, dst \<mapsto> i)"
    "idata t = idata s" "next_ino t = next_ino s"
    "\<And>q. look t q = Some Dir \<longleftrightarrow> look s q = Some Dir"
proof -
  let ?t = "set_node (del_node s src) dst (File i)"
  have ne: "src \<noteq> []" "dst \<noteq> []" "src \<noteq> dst"
    using src dst d by (auto simp: fm_Some_iff look_simps)
  have b: "look (del_node s src) (butlast dst) = Some Dir"
    using d(2) src ne by (auto simp: look_simps fm_Some_iff)
  have w: "wf_fs (del_node s src)" using wf src by (auto simp: fm_Some_iff intro: wf_del_file)
  have "look (del_node s src) dst \<noteq> Some Dir" using dst ne by (simp add: look_simps)
  then have "wf_fs ?t"
    using wf_set_node [OF w b ne(2), of "File i" i] wf_ino [OF wf src] by simp
  moreover have "look ?t q = Some Dir \<longleftrightarrow> look s q = Some Dir" for q
    using src dst ne by (auto simp: look_simps fm_Some_iff)
  ultimately show thesis
    using that [of ?t] replace_file [OF src dst d] by (auto simp: fm_set_file fm_del ne)
qed

lemma rep_props:
  assumes "wf_fs s" "look s p = Some Dir" "t = remove_empty_parents s p stop"
  shows "wf_fs t" "fm t = fm s" "idata t = idata s" "next_ino t = next_ino s"
    "\<And>q. look t q = Some Dir \<Longrightarrow> look s q = Some Dir"
    "\<And>q. look s q = Some Dir \<Longrightarrow> \<not> (prefix q p \<and> strict_prefix stop q) \<Longrightarrow> look t q = Some Dir"
    "\<And>q. prefix q p \<Longrightarrow> strict_prefix stop q \<Longrightarrow> look t q = Some Dir \<Longrightarrow> has_child t q"
  using rep_keeps [of s p stop] rep_chain [OF assms(1,2), of _ stop] assms by auto

lemma fsop_simps: "f s = Inr t \<Longrightarrow> fsop f s = (Inr (), t)" "f s = Inl e \<Longrightarrow> fsop f s = (Inl e, s)"
  by (simp_all add: fsop_def)

lemma bindS_Inr: "m s = (Inr x, t) \<Longrightarrow> bindS m f s = f x t"
  by (simp add: bindS_def)

lemma bindS_Inl: "m s = (Inl e, t) \<Longrightarrow> bindS m f s = (Inl e, t)"
  by (simp add: bindS_def)

section \<open>Each callback undoes its change\<close>

text \<open>Locations of the journal: the user's root and a location the journal changes.\<close>

definition journalled :: "loc \<Rightarrow> loc \<Rightarrow> bool" where
  "journalled ur p \<longleftrightarrow> (strict_prefix ur p \<and> hd p = users_dir) \<or> (\<exists>x. p = [undo_dir, x])"

lemma dirs_distinct [simp]:
  "users_dir \<noteq> undo_dir" "undo_dir \<noteq> users_dir" "users_dir \<noteq> objects_dir" "objects_dir \<noteq> users_dir"
  "undo_dir \<noteq> objects_dir" "objects_dir \<noteq> undo_dir"
  by (simp_all add: lit_def)

lemma journalled_props:
  assumes "journalled ur p"
  shows "p \<noteq> []" "guarded ur p" "guarded ur q \<Longrightarrow> prefix q (butlast p) \<Longrightarrow> ur = users_dir # us \<Longrightarrow> strict_prefix ur q"
proof -
  show "p \<noteq> []" "guarded ur p" using assms
    by (auto simp: journalled_def guarded_def strict_prefix_butlast)
  assume q: "guarded ur q" "prefix q (butlast p)" "ur = users_dir # us"
  show "strict_prefix ur q"
  proof (rule ccontr)
    assume "\<not> strict_prefix ur q"
    then obtain z y ys where y: "q = z # y # ys" "z = undo_dir \<or> z = objects_dir" using q(1)
      by (cases q; cases "tl q") (auto simp: guarded_def strict_prefix_def prefix_def)
    have "hd p = users_dir \<and> p \<noteq> [] \<or> (\<exists>x. p = [undo_dir, x])"
      using assms by (auto simp: journalled_def)
    then show False using q(2) y by (cases p) (auto split: if_splits)
  qed
qed

lemma undo_replace_none:
  assumes ur: "ur = users_dir # us" "user_root E user = Inr ur"
    and wf: "wf_fs s0" "wf_fs s" and p: "journalled ur p"
    and fm: "fm s0 p = None" "fm s = (fm s0)(p \<mapsto> i)"
    and dirs: "\<And>q. guarded ur q \<Longrightarrow> look s q = Some Dir \<Longrightarrow> look s0 q = Some Dir \<or> prefix q (butlast p)"
    and data: "\<And>q j. fm s0 q = Some j \<Longrightarrow> idata s j = idata s0 j"
  shows "undoes (run_undo E user) (fle ur) (UndoReplace p None) s s0"
  unfolding undoes_def
proof (intro allI impI)
  fix t assume t: "fle ur t s"
  then have ti: "fm t p = Some i" and wft: "wf_fs t" using fm by (auto simp: fle_def)
  let ?a = "del_node t p"
  let ?b = "remove_empty_parents ?a (butlast p) ur"
  have wa: "wf_fs ?a" using wf_del_file [OF wft] ti by (simp add: fm_Some_iff)
  have pne: "p \<noteq> []" using fm_not_Nil [OF ti] .
  have da: "look ?a (butlast p) = Some Dir"
    using butlast_dir [OF wft ti] pne by (auto simp: look_simps) (metis append_butlast_last_id not_Cons_self2 self_append_conv)
  note b = rep_props [OF wa da refl, where stop = ur]
  have fb: "fm ?b = fm s0" using b(2) t fm by (auto simp: fm_del fle_def fun_eq_iff)
  have "look s0 q = Some Dir" if q: "guarded ur q" "look ?b q = Some Dir" for q
  proof (rule new_dirs_gone [OF b(1) wf(1) fb, where D = "guarded ur" and p = "butlast p"])
    show "guarded ur r" if "guarded ur q" "strict_prefix q r" for q r
      using that by (rule guarded_down)
    show "look s0 q = Some Dir \<or> prefix q (butlast p)" if "guarded ur q" "look ?b q = Some Dir" for q
      using that b(5) [of q] t dirs [of q] by (auto simp: fle_def look_simps split: if_splits)
    show "has_child ?b q" if "guarded ur q" "prefix q (butlast p)" "look ?b q = Some Dir" for q
      using b(7) journalled_props(3) [OF p that(1,2) ur(1)] that by blast
  qed (use q in auto)
  moreover have "idata ?b j = idata s0 j" if "fm s0 q = Some j" for q j
  proof -
    have "fm s q = Some j" using that fm by (auto simp: fun_upd_apply)
    then show ?thesis using data [OF that] t b(3) by (auto simp: fle_def)
  qed
  ultimately have "fle ur ?b s0" using b(1) wf(1) fb by (auto simp: fle_def)
  moreover have "unlink_if_exists t (Some p) = Inr ?a"
    by (simp add: unlink_if_exists_def unlink_file [OF ti])
  ultimately show "\<exists>t0. run_undo E user (UndoReplace p None) t = (Inr (), t0) \<and> fle ur t0 s0"
    by (simp add: undo_replace_tree_entry_def ur(2) bindS_def act_simps fsop_def)
qed

text \<open>Putting a backup back where its file was.\<close>

lemma restore_backup:
  assumes wf: "wf_fs s0" "wf_fs t" and j: "fm s0 p = Some j" and ur: "guarded ur p"
    and t: "fm t = (fm s0)(p := v, b \<mapsto> j)" "v \<noteq> Some j" "b \<noteq> p" "fm s0 b = None" "\<not> prefix b p"
    and dirs: "\<And>q. guarded ur q \<Longrightarrow> look t q = Some Dir \<Longrightarrow> look s0 q = Some Dir"
    and data: "\<And>q i. fm s0 q = Some i \<Longrightarrow> idata t i = idata s0 i"
  obtains t0 where "bindS (fsop (\<lambda>fs. mkdirs fs (butlast p))) (\<lambda>_. fsop (\<lambda>fs. replace fs b p)) t = (Inr (), t0)"
    "fle ur t0 s0"
proof -
  have pne: "p \<noteq> []" using fm_not_Nil [OF j] .
  have above: "look s0 q = Some Dir" if "prefix q (butlast p)" for q
    using wf_ancestor [OF wf(1), of q p] j strict_prefix_butlastI [OF pne that] by (auto simp: fm_Some_iff)
  have "fm t q = None" if q: "prefix q (butlast p)" for q
  proof -
    have "q \<noteq> p" using strict_prefix_butlastI [OF pne q] by auto
    moreover have "q \<noteq> b" using t(5) q butlast_prefix by blast
    ultimately show ?thesis using t(1) above [OF q] by (auto simp: fm_None_iff)
  qed
  then obtain a where a: "mkdirs t (butlast p) = Inr a" "wf_fs a" "fm a = fm t" "idata a = idata t"
      "look a (butlast p) = Some Dir" "\<And>q. look a q = Some Dir \<longleftrightarrow> look t q = Some Dir \<or> prefix q (butlast p)"
    using mkdirs_props [OF wf(2), of "butlast p"] by metis
  have nd: "look a p \<noteq> Some Dir"
  proof
    assume "look a p = Some Dir"
    then have "look t p = Some Dir \<or> prefix p (butlast p)" using a(6) by blast
    moreover have "\<not> prefix p (butlast p)" using strict_prefix_butlast [of p p] pne by auto
    ultimately have "look s0 p = Some Dir" using dirs ur by blast
    then show False using j by (simp add: fm_Some_iff)
  qed
  have ab: "fm a b = Some j" and ap: "fm a p \<noteq> Some j" using a(3) t(1-3) by auto
  obtain c where c: "replace a b p = Inr c" "wf_fs c" "fm c = (fm a)(b := None, p \<mapsto> j)" "idata c = idata a"
      "\<And>q. look c q = Some Dir \<longleftrightarrow> look a q = Some Dir"
    using rename_props [OF a(2) ab nd ap a(5)] by metis
  have "fm c = fm s0" using c(3) a(3) t j by (auto simp: fun_eq_iff)
  moreover have "look s0 q = Some Dir" if "guarded ur q" "look c q = Some Dir" for q
    using that c(5) a(6) dirs above by blast
  ultimately have "fle ur c s0"
    using c(2,4) a(4) data wf(1) by (auto simp: fle_def)
  then show thesis using that a(1) c(1) by (simp add: bindS_def fsop_def)
qed

lemma undo_replace_some:
  assumes wf: "wf_fs s0" "wf_fs s" and p: "journalled ur p"
    and fm: "fm s0 p = Some j" "fm s = (fm s0)(p \<mapsto> i, b \<mapsto> j)" "i \<noteq> j" "b \<noteq> p" "fm s0 b = None" "\<not> prefix b p"
    and dirs: "\<And>q. guarded ur q \<Longrightarrow> look s q = Some Dir \<Longrightarrow> look s0 q = Some Dir"
    and data: "\<And>q j. fm s0 q = Some j \<Longrightarrow> idata s j = idata s0 j"
  shows "undoes (run_undo E user) (fle ur) (UndoReplace p (Some b)) s s0"
  unfolding undoes_def
proof (intro allI impI)
  fix t assume t: "fle ur t s"
  have data': "idata t i = idata s0 i" if "fm s0 q = Some i" for q i
  proof -
    have "fm s (if q = p then b else q) = Some i" using that fm by auto
    then show ?thesis using data [OF that] t by (auto simp: fle_def)
  qed
  obtain t0 where "bindS (fsop (\<lambda>fs. mkdirs fs (butlast p))) (\<lambda>_. fsop (\<lambda>fs. replace fs b p)) t = (Inr (), t0)"
      "fle ur t0 s0"
    by (rule restore_backup [OF wf(1) _ fm(1) journalled_props(2) [OF p], of t "Some i" b])
      (use t fm dirs data' in \<open>auto simp: fle_def\<close>)
  then show "\<exists>t0. run_undo E user (UndoReplace p (Some b)) t = (Inr (), t0) \<and> fle ur t0 s0"
    by (auto simp: undo_replace_tree_entry_def)
qed

lemma undo_remove_some:
  assumes wf: "wf_fs s0" "wf_fs s" and p: "journalled ur p"
    and fm: "fm s0 p = Some j" "fm s = (fm s0)(p := None, b \<mapsto> j)" "b \<noteq> p" "fm s0 b = None" "\<not> prefix b p"
    and dirs: "\<And>q. guarded ur q \<Longrightarrow> look s q = Some Dir \<Longrightarrow> look s0 q = Some Dir"
    and data: "\<And>q j. fm s0 q = Some j \<Longrightarrow> idata s j = idata s0 j"
  shows "undoes (run_undo E user) (fle ur) (UndoRemove p (Some b)) s s0"
  unfolding undoes_def
proof (intro allI impI)
  fix t assume t: "fle ur t s"
  have data': "idata t i = idata s0 i" if "fm s0 q = Some i" for q i
  proof -
    have "fm s (if q = p then b else q) = Some i" using that fm by auto
    then show ?thesis using data [OF that] t by (auto simp: fle_def)
  qed
  obtain t0 where "bindS (fsop (\<lambda>fs. mkdirs fs (butlast p))) (\<lambda>_. fsop (\<lambda>fs. replace fs b p)) t = (Inr (), t0)"
      "fle ur t0 s0"
    by (rule restore_backup [OF wf(1) _ fm(1) journalled_props(2) [OF p], of t None b])
      (use t fm dirs data' in \<open>auto simp: fle_def\<close>)
  then show "\<exists>t0. run_undo E user (UndoRemove p (Some b)) t = (Inr (), t0) \<and> fle ur t0 s0"
    by (auto simp: undo_remove_tree_entry_def)
qed

lemma undo_object:
  assumes r: "objects_root E user = Inr (butlast p)"
    and wf: "wf_fs s0" "wf_fs s"
    and fm: "fm s0 p = None" "fm s = (fm s0)(p \<mapsto> i)"
    and dirs: "\<And>q. guarded ur q \<Longrightarrow> look s q = Some Dir \<Longrightarrow> look s0 q = Some Dir"
    and data: "\<And>q j. fm s0 q = Some j \<Longrightarrow> idata s j = idata s0 j"
  shows "undoes (run_undo E user) (fle ur) (UndoObject p) s s0"
  unfolding undoes_def
proof (intro allI impI)
  fix t assume t: "fle ur t s"
  then have ti: "fm t p = Some i" and wft: "wf_fs t" using fm by (auto simp: fle_def)
  let ?a = "del_node t p"
  have wa: "wf_fs ?a" using wf_del_file [OF wft] ti by (simp add: fm_Some_iff)
  have "idata ?a j = idata s0 j" if "fm s0 q = Some j" for q j
  proof -
    have "fm s q = Some j" using that fm by (auto simp: fun_upd_apply)
    then show ?thesis using data [OF that] t by (auto simp: fle_def)
  qed
  then have "fle ur ?a s0" using wa wf(1) t fm dirs
    by (auto simp: fle_def fm_del fun_eq_iff look_simps split: if_splits)
  moreover have "unlink_if_exists t (Some p) = Inr ?a"
    by (simp add: unlink_if_exists_def unlink_file [OF ti])
  moreover have "remove_empty_parents ?a (butlast p) (butlast p) = ?a"
    by (subst remove_empty_parents.simps) simp
  ultimately show "\<exists>t0. run_undo E user (UndoObject p) t = (Inr (), t0) \<and> fle ur t0 s0"
    by (simp add: remove_object_entry_def r bindS_def act_simps fsop_def)
qed

text \<open>The first half of undoing a rename: the file goes back to where it was.\<close>

lemma rename_back:
  assumes wf: "wf_fs s0" "wf_fs t" and j: "journalled ur src" "journalled ur p"
    and i: "fm s0 src = Some i" and p0: "look s0 p \<noteq> Some Dir"
    and ft: "fm t src = None" "fm t p = Some i" "\<not> prefix src p"
      "\<And>q. look s0 q = Some Dir \<Longrightarrow> fm t q = None"
    and dirs: "\<And>q. guarded ur q \<Longrightarrow> look t q = Some Dir \<Longrightarrow> look s0 q = Some Dir \<or> prefix q (butlast p)"
  obtains c where "bindS (fsop (\<lambda>fs. mkdirs fs (butlast src))) (\<lambda>_ fs.
        if fs_exists fs p then fsop (\<lambda>fs. replace fs p src) fs else ret () fs) t = (Inr (), c)"
    "wf_fs c" "fm c = (fm t)(p := None, src \<mapsto> i)" "idata c = idata t" "look c (butlast p) = Some Dir"
    "\<And>q. guarded ur q \<Longrightarrow> look c q = Some Dir \<Longrightarrow> look s0 q = Some Dir \<or> prefix q (butlast p)"
proof -
  have sne: "src \<noteq> []" "p \<noteq> []" using journalled_props(1) j by auto
  have above: "look s0 q = Some Dir" if "prefix q (butlast src)" for q
    using wf_ancestor [OF wf(1), of q src] i strict_prefix_butlastI [OF sne(1) that] by (auto simp: fm_Some_iff)
  obtain a where a: "mkdirs t (butlast src) = Inr a" "wf_fs a" "fm a = fm t" "idata a = idata t"
      "look a (butlast src) = Some Dir"
      "\<And>q. look a q = Some Dir \<longleftrightarrow> look t q = Some Dir \<or> prefix q (butlast src)"
    using mkdirs_props [OF wf(2), of "butlast src"] ft(4) above by metis
  have nd: "look a src \<noteq> Some Dir"
  proof
    assume "look a src = Some Dir"
    moreover have "\<not> prefix src (butlast src)" using strict_prefix_butlast [of src src] sne by auto
    ultimately have "look s0 src = Some Dir \<or> prefix src (butlast p)"
      using a(6) dirs journalled_props(2) [OF j(1)] by blast
    then show False using i ft(3) butlast_prefix by (auto simp: fm_Some_iff)
  qed
  have ap: "fm a p = Some i" "fm a src \<noteq> Some i" using a(3) ft by auto
  obtain c where c: "replace a p src = Inr c" "wf_fs c" "fm c = (fm a)(p := None, src \<mapsto> i)"
      "idata c = idata a" "\<And>q. look c q = Some Dir \<longleftrightarrow> look a q = Some Dir"
    using rename_props [OF a(2) ap(1) nd ap(2) a(5)] by metis
  have "look s0 q = Some Dir \<or> prefix q (butlast p)" if "guarded ur q" "look c q = Some Dir" for q
    using that c(5) a(6) dirs above by blast
  moreover have "look c (butlast p) = Some Dir"
    using c(5) butlast_dir [OF a(2) ap(1)] by blast
  moreover have "fs_exists a p" using ap by (simp add: fs_exists_def fm_Some_iff)
  ultimately show thesis
    using that [of c] a(1) c a(3,4) by (simp add: bindS_def fsop_def)
qed

lemma undo_rename_none:
  assumes ur: "ur = users_dir # us" "user_root E user = Inr ur"
    and wf: "wf_fs s0" "wf_fs s" and j: "journalled ur src" "journalled ur p"
    and fm: "fm s0 src = Some i" "look s0 p = None" "fm s = (fm s0)(src := None, p \<mapsto> i)"
      "\<not> prefix src p"
    and dirs: "\<And>q. guarded ur q \<Longrightarrow> look s q = Some Dir \<Longrightarrow> look s0 q = Some Dir \<or> prefix q (butlast p)"
    and data: "\<And>q j. fm s0 q = Some j \<Longrightarrow> idata s j = idata s0 j"
  shows "undoes (run_undo E user) (fle ur) (UndoRename src p None) s s0"
  unfolding undoes_def
proof (intro allI impI)
  fix t assume t: "fle ur t s"
  have ne: "src \<noteq> p" using fm(4) by auto
  have p0: "fm s0 p = None" using fm(2) by (simp add: fm_None_iff)
  have ft: "fm t src = None" "fm t p = Some i" "\<And>q. look s0 q = Some Dir \<Longrightarrow> fm t q = None"
    using t fm ne by (auto simp: fle_def fm_None_iff)
  have td: "look s0 q = Some Dir \<or> prefix q (butlast p)" if "guarded ur q" "look t q = Some Dir" for q
    using that t dirs by (auto simp: fle_def)
  have wft: "wf_fs t" using t by (simp add: fle_def)
  let ?m = "bindS (fsop (\<lambda>fs. mkdirs fs (butlast src))) (\<lambda>_ fs.
        if fs_exists fs p then fsop (\<lambda>fs. replace fs p src) fs else ret () fs)"
  obtain c where c: "?m t = (Inr (), c)"
    "wf_fs c" "fm c = (fm t)(p := None, src \<mapsto> i)" "idata c = idata t" "look c (butlast p) = Some Dir"
    "\<And>q. guarded ur q \<Longrightarrow> look c q = Some Dir \<Longrightarrow> look s0 q = Some Dir \<or> prefix q (butlast p)"
  proof (rule rename_back [OF wf(1) wft j fm(1) _ ft(1,2) fm(4)], goal_cases)
    case 1
    show ?case using fm(2) by simp
  next
    case (2 q)
    show ?case by (rule ft(3) [OF 2(2)])
  next
    case (3 q)
    show ?case by (rule td [OF 3(2,3)])
  next
    case (4 c)
    show ?case by (rule that [OF 4(2-7)])
  qed
  let ?b = "remove_empty_parents c (butlast p) ur"
  note b = rep_props [OF c(2,5) refl, where stop = ur]
  have fb: "fm ?b = fm s0" using b(2) c(3) t fm p0 by (auto simp: fle_def fun_eq_iff)
  have "look s0 q = Some Dir" if q: "guarded ur q" "look ?b q = Some Dir" for q
  proof (rule new_dirs_gone [OF b(1) wf(1) fb, where D = "guarded ur" and p = "butlast p"])
    show "guarded ur r" if "guarded ur q" "strict_prefix q r" for q r
      using that by (rule guarded_down)
    show "look s0 q = Some Dir \<or> prefix q (butlast p)" if "guarded ur q" "look ?b q = Some Dir" for q
      using that b(5) [of q] c(6) by blast
    show "has_child ?b q" if "guarded ur q" "prefix q (butlast p)" "look ?b q = Some Dir" for q
      using b(7) journalled_props(3) [OF j(2) that(1,2) ur(1)] that by blast
  qed (use q in auto)
  moreover have "idata ?b k = idata s0 k" if "fm s0 q = Some k" for q k
  proof -
    have "fm s (if q = src then p else q) = Some k" using that fm p0 ne by auto
    then show ?thesis using data [OF that] t b(3) c(4) by (auto simp: fle_def)
  qed
  ultimately have "fle ur ?b s0" using b(1) wf(1) fb by (auto simp: fle_def)
  moreover have "run_undo E user (UndoRename src p None) =
      bindS ?m (\<lambda>_. fsop (\<lambda>fs. Inr (remove_empty_parents fs (butlast p) ur)))"
    by (simp add: undo_rename_tree_entry_def bindS_assoc ur(2))
  then have "run_undo E user (UndoRename src p None) t = (Inr (), ?b)"
    by (simp only: bindS_Inr [of ?m, OF c(1)]) (simp add: fsop_def)
  ultimately show "\<exists>t0. run_undo E user (UndoRename src p None) t = (Inr (), t0) \<and> fle ur t0 s0"
    by blast
qed

lemma undo_rename_some:
  assumes wf: "wf_fs s0" "wf_fs s" and jr: "journalled ur src" "journalled ur p"
    and fm: "fm s0 src = Some i" "fm s0 p = Some j" "fm s = (fm s0)(src := None, p \<mapsto> i, b \<mapsto> j)"
      "src \<noteq> p" "i \<noteq> j" "fm s0 b = None" "b \<noteq> p" "b \<noteq> src" "\<not> prefix b p"
    and dirs: "\<And>q. guarded ur q \<Longrightarrow> look s q = Some Dir \<Longrightarrow> look s0 q = Some Dir"
    and bd: "look s0 b \<noteq> Some Dir"
    and data: "\<And>q j. fm s0 q = Some j \<Longrightarrow> idata s j = idata s0 j"
  shows "undoes (run_undo E user) (fle ur) (UndoRename src p (Some b)) s s0"
  unfolding undoes_def
proof (intro allI impI)
  fix t assume t: "fle ur t s"
  have wft: "wf_fs t" using t by (simp add: fle_def)
  have ft: "fm t src = None" "fm t p = Some i" "\<And>q. look s0 q = Some Dir \<Longrightarrow> fm t q = None"
    using t fm bd by (auto simp: fle_def fm_None_iff fm_Some_iff)
  have td: "look s0 q = Some Dir" if "guarded ur q" "look t q = Some Dir" for q
    using that t dirs by (auto simp: fle_def)
  have np: "\<not> prefix src p"
    using wf_not_above [OF wf(1), of p src] fm by (auto simp: fm_Some_iff prefix_order.le_less)
  have pd: "look s0 q = Some Dir" if "prefix q (butlast p)" for q
    using wf_ancestor [OF wf(1), of q p] fm(2) strict_prefix_butlastI that journalled_props(1) [OF jr(2)]
    by (auto simp: fm_Some_iff)
  let ?m = "bindS (fsop (\<lambda>fs. mkdirs fs (butlast src))) (\<lambda>_ fs.
        if fs_exists fs p then fsop (\<lambda>fs. replace fs p src) fs else ret () fs)"
  obtain c where c: "?m t = (Inr (), c)"
    "wf_fs c" "fm c = (fm t)(p := None, src \<mapsto> i)" "idata c = idata t"
    "\<And>q. guarded ur q \<Longrightarrow> look c q = Some Dir \<Longrightarrow> look s0 q = Some Dir \<or> prefix q (butlast p)"
  proof (rule rename_back [OF wf(1) wft jr fm(1) _ ft(1,2) np], goal_cases)
    case 1
    show ?case using fm(2) by (simp add: fm_Some_iff)
  next
    case (2 q)
    show ?case by (rule ft(3) [OF 2(2)])
  next
    case (3 q)
    show ?case using td [OF 3(2,3)] by blast
  next
    case (4 c)
    show ?case by (rule that [OF 4(2-5,7)])
  qed
  have fc: "fm c = (fm s0)(p := None, b \<mapsto> j)" using c(3) t fm by (auto simp: fle_def fun_eq_iff)
  have dc: "idata c k = idata s0 k" if "fm s0 q = Some k" for q k
  proof -
    have "fm s (if q = src then p else if q = p then b else q) = Some k" using that fm by auto
    then show ?thesis using data [OF that] t c(4) by (auto simp: fle_def)
  qed
  obtain t0 where "bindS (fsop (\<lambda>fs. mkdirs fs (butlast p))) (\<lambda>_. fsop (\<lambda>fs. replace fs b p)) c = (Inr (), t0)"
      "fle ur t0 s0"
    by (rule restore_backup [OF wf(1) c(2) fm(2) journalled_props(2) [OF jr(2)] fc])
      (use fm c(5) pd dc in auto)
  moreover have "run_undo E user (UndoRename src p (Some b)) =
      bindS ?m (\<lambda>_. bindS (fsop (\<lambda>fs. mkdirs fs (butlast p))) (\<lambda>_. fsop (\<lambda>fs. replace fs b p)))"
    by (simp add: undo_rename_tree_entry_def bindS_assoc)
  then have "run_undo E user (UndoRename src p (Some b)) t =
      bindS (fsop (\<lambda>fs. mkdirs fs (butlast p))) (\<lambda>_. fsop (\<lambda>fs. replace fs b p)) c"
    by (simp only: bindS_Inr [of ?m, OF c(1)])
  ultimately show "\<exists>t0. run_undo E user (UndoRename src p (Some b)) t = (Inr (), t0) \<and> fle ur t0 s0"
    by metis
qed

interpretation fs_log: undo_log "run_undo E user" "fle ur" for E user ur
  by unfold_locales (rule fle_trans)

section \<open>The state the journal works in\<close>

text \<open>
  What the environment promises: the user id has a digest, and no UUID is drawn twice.
\<close>

definition env_ok :: "env \<Rightarrow> str \<Rightarrow> str \<Rightarrow> bool" where
  "env_ok E user h \<longleftrightarrow> disk_name E user = Inr h \<and> inj (e_uuid E)"

lemma env_ok_roots:
  assumes "env_ok E user h"
  shows "user_root E user = Inr [users_dir, h]" "objects_root E user = Inr [objects_dir, h]"
    "object_path E user oid = Inr [objects_dir, h, oid]"
    "tree_path E user p = bindE (tree_components p) (\<lambda>cs. Inr (users_dir # h # cs))"
  using assms by (auto simp: env_ok_def user_root_def objects_root_def object_path_def tree_path_def)

definition backup_loc :: "loc \<Rightarrow> bool" where
  "backup_loc q \<longleftrightarrow> (\<exists>x. q = [undo_dir, lit ''backup'' @ lit ''-'' @ x])"

text \<open>Locations made from the \<open>n\<close>th UUID.\<close>

definition uuid_loc :: "env \<Rightarrow> str \<Rightarrow> nat \<Rightarrow> loc \<Rightarrow> bool" where
  "uuid_loc E h n q \<longleftrightarrow>
     (\<exists>x \<in> {''replace'', ''backup'', ''cycle''}. q = [undo_dir, lit x @ lit ''-'' @ e_uuid E n])
     \<or> q = [objects_dir, h, e_uuid E n]"

text \<open>Locations of live files: the user's tree, and files parked while a cycle of moves is broken.\<close>

definition live_loc :: "str \<Rightarrow> loc \<Rightarrow> bool" where
  "live_loc h q \<longleftrightarrow> strict_prefix [users_dir, h] q \<or> (\<exists>x. q = [undo_dir, lit ''cycle'' @ lit ''-'' @ x])"

definition base_locs :: "str \<Rightarrow> loc set" where
  "base_locs h = {[], [users_dir], [users_dir, h], [undo_dir], [objects_dir], [objects_dir, h]}"

definition fs_ok :: "env \<Rightarrow> str \<Rightarrow> nat \<Rightarrow> fs \<Rightarrow> bool" where
  "fs_ok E h k s \<longleftrightarrow> wf_fs s \<and> (\<forall>q \<in> base_locs h. fm s q = None) \<and>
     (\<forall>n \<ge> k. \<forall>q. uuid_loc E h n q \<longrightarrow> look s q = None) \<and>
     (\<forall>p q i. live_loc h p \<longrightarrow> live_loc h q \<longrightarrow> fm s p = Some i \<longrightarrow> fm s q = Some i \<longrightarrow> p = q)"

lemma uuid_loc_inj:
  assumes "inj (e_uuid E)" "uuid_loc E h n q" "uuid_loc E h m q" shows "n = m"
  using assms(2,3) inj_eq [OF assms(1), of n m]
  by (simp add: uuid_loc_def lit_def) (elim disjE; simp)

lemma uuid_loc_shape:
  "uuid_loc E h n q \<Longrightarrow> \<not> strict_prefix [users_dir, h] q \<and> q \<notin> base_locs h \<and> hd q \<noteq> users_dir \<and> q \<noteq> []"
  by (auto simp: uuid_loc_def base_locs_def lit_def strict_prefix_def)

lemma strict_prefix_two: "strict_prefix [a, b] q \<longleftrightarrow> (\<exists>z zs. q = a # b # z # zs)"
proof
  assume "strict_prefix [a, b] q"
  then obtain r where "q = a # b # r" "r \<noteq> []" by (auto simp: strict_prefix_def prefix_def)
  then show "\<exists>z zs. q = a # b # z # zs" by (cases r) auto
qed (auto simp: strict_prefix_def)

lemma live_loc_journalled: "live_loc h q \<Longrightarrow> journalled [users_dir, h] q"
  by (auto simp: live_loc_def journalled_def strict_prefix_two)

lemma live_not_backup: "live_loc h q \<Longrightarrow> \<not> backup_loc q"
  by (auto simp: live_loc_def backup_loc_def strict_prefix_two lit_def)

lemma live_not_base: "live_loc h q \<Longrightarrow> q \<notin> base_locs h"
  by (auto simp: live_loc_def base_locs_def strict_prefix_def)

definition new_dir_ok :: "str \<Rightarrow> loc \<Rightarrow> bool" where
  "new_dir_ok h q \<longleftrightarrow> q \<in> base_locs h \<or> q \<noteq> [] \<and> hd q = users_dir"

lemma chain_new_dir_ok: "live_loc h p \<Longrightarrow> prefix q (butlast p) \<Longrightarrow> new_dir_ok h q"
proof -
  assume p: "live_loc h p" and q: "prefix q (butlast p)"
  from p show ?thesis unfolding live_loc_def
  proof
    assume "strict_prefix [users_dir, h] p"
    then obtain z zs where "p = users_dir # h # z # zs" by (auto simp: strict_prefix_two)
    with q show ?thesis by (cases q) (auto simp: new_dir_ok_def base_locs_def split: if_splits)
  next
    assume "\<exists>x. p = [undo_dir, lit ''cycle'' @ lit ''-'' @ x]"
    with q show ?thesis by (cases q) (auto simp: new_dir_ok_def base_locs_def split: if_splits)
  qed
qed

lemma fs_ok_step:
  assumes E: "inj (e_uuid E)" and ok: "fs_ok E h k s" and wf: "wf_fs s'" and k: "k \<le> k'"
    and files: "\<And>q i. fm s' q = Some i \<Longrightarrow>
      fm s q \<noteq> None \<or> strict_prefix [users_dir, h] q \<or> (\<exists>n < k'. uuid_loc E h n q)"
    and dirs: "\<And>q. look s' q = Some Dir \<Longrightarrow> look s q = Some Dir \<or> new_dir_ok h q"
    and uniq: "\<And>p q i. live_loc h p \<Longrightarrow> live_loc h q \<Longrightarrow> fm s' p = Some i \<Longrightarrow> fm s' q = Some i \<Longrightarrow> p = q"
  shows "fs_ok E h k' s'"
  unfolding fs_ok_def
proof (intro conjI allI impI ballI)
  fix q assume q: "q \<in> base_locs h"
  show "fm s' q = None"
  proof (cases "fm s' q")
    case (Some i)
    moreover have "\<not> strict_prefix [users_dir, h] q" using q by (auto simp: base_locs_def strict_prefix_def)
    moreover have "\<not> uuid_loc E h n q" for n using uuid_loc_shape q by blast
    ultimately show ?thesis using files [of q i] q ok by (auto simp: fs_ok_def)
  qed
next
  fix n q assume n: "k' \<le> n" "uuid_loc E h n q"
  show "look s' q = None"
  proof (cases "look s' q")
    case (Some x)
    have s: "look s q = None" using ok n k unfolding fs_ok_def by (meson order_trans)
    show ?thesis
    proof (cases x)
      case Dir
      then show ?thesis using dirs [of q] Some s uuid_loc_shape [OF n(2)] by (auto simp: new_dir_ok_def)
    next
      case (File i)
      then have "fm s' q = Some i" using Some by (simp add: fm_Some_iff)
      then show ?thesis using files [of q i] s uuid_loc_shape [OF n(2)] uuid_loc_inj [OF E n(2)] n(1)
        by (auto simp: fm_None_iff)
    qed
  qed
qed (use wf uniq in auto)

section \<open>The journal of the running submission\<close>

definition clean_ok :: "cleanup \<Rightarrow> bool" where
  "clean_ok c \<longleftrightarrow> (case c of CleanBackup b \<Rightarrow> (\<forall>l. b = Some l \<longrightarrow> backup_loc l)
     | CleanObject obj \<Rightarrow> obj \<noteq> [] \<and> hd obj = objects_dir)"

definition journal :: "env \<Rightarrow> str \<Rightarrow> str \<Rightarrow> fs \<Rightarrow> world \<Rightarrow> bool" where
  "journal E user h s0 w \<longleftrightarrow> fs_ok E h (w_uuids w) (w_fs w) \<and>
     restores (run_undo E user) (fle [users_dir, h]) (w_undo w) (w_fs w) s0 \<and>
     list_all clean_ok (w_cleanup w)"

lemma journal_same:
  assumes "journal E user h s0 w" "fs_ok E h (w_uuids w') (w_fs w')"
    "fle [users_dir, h] (w_fs w') (w_fs w)" "w_undo w' = w_undo w"
    "w_cleanup w' = w_cleanup w \<or> (\<exists>c. clean_ok c \<and> w_cleanup w' = w_cleanup w @ [c])"
  shows "journal E user h s0 w'"
  using assms fs_log.restores_le by (auto simp: journal_def)

lemma journal_push:
  assumes "journal E user h s0 w" "fs_ok E h (w_uuids w') (w_fs w')"
    "undoes (run_undo E user) (fle [users_dir, h]) u (w_fs w') (w_fs w)" "w_undo w' = w_undo w @ [u]"
    "w_cleanup w' = w_cleanup w \<or> (\<exists>c. clean_ok c \<and> w_cleanup w' = w_cleanup w @ [c])"
  shows "journal E user h s0 w'"
  using assms fs_log.restores_push by (fastforce simp: journal_def)

section \<open>Backups\<close>

lemma undo_path_run:
  assumes w: "w_fs w = s" "w_uuids w = k" and ok: "fs_ok E h k s"
  obtains s' where "undo_path E pfx w =
      (Inr [undo_dir, lit pfx @ lit ''-'' @ e_uuid E k], w\<lparr>w_fs := s', w_uuids := Suc k\<rparr>)"
    "wf_fs s'" "fm s' = fm s" "idata s' = idata s" "next_ino s' = next_ino s"
    "look s' [undo_dir] = Some Dir"
    "\<And>q. look s' q = Some Dir \<longleftrightarrow> look s q = Some Dir \<or> q = [undo_dir]"
proof -
  have "fm s q = None" if "prefix q [undo_dir]" for q
    using that ok by (cases q) (auto simp: fs_ok_def base_locs_def)
  then obtain s' where s': "mkdirs s [undo_dir] = Inr s'" "wf_fs s'" "fm s' = fm s"
    "idata s' = idata s" "next_ino s' = next_ino s" "look s' [undo_dir] = Some Dir"
    "\<And>q. look s' q = Some Dir \<longleftrightarrow> look s q = Some Dir \<or> prefix q [undo_dir]"
    using ok by (rule_tac mkdirs_props [of "s" "[undo_dir]"]) (auto simp: fs_ok_def)
  moreover have "look s' q = Some Dir \<longleftrightarrow> look s q = Some Dir \<or> q = [undo_dir]" for q
    using s'(7) [of q] by (cases q) (auto simp: look_simps)
  ultimately show thesis
    using that [of s'] by (simp add: w undo_path_def bindS_def on_fs_def fsop_def fresh_uuid_def act_simps)
qed

lemma backup_run:
  assumes w: "w_fs w = s" "w_uuids w = k" and ok: "fs_ok E h k s" and j: "fm s p = Some j"
    and b: "b = [undo_dir, lit ''backup'' @ lit ''-'' @ e_uuid E k]"
  obtains s' where "backup_tree_entry E p w = (Inr (Some b), w\<lparr>w_fs := s', w_uuids := Suc k\<rparr>)"
    "wf_fs s'" "fm s' = (fm s)(b \<mapsto> j)" "idata s' = idata s" "next_ino s' = next_ino s"
    "\<And>q. look s' q = Some Dir \<longleftrightarrow> look s q = Some Dir \<or> q = [undo_dir]"
proof -
  obtain s1 where s1: "undo_path E ''backup'' w =
      (Inr [undo_dir, lit ''backup'' @ lit ''-'' @ e_uuid E k], w\<lparr>w_fs := s1, w_uuids := Suc k\<rparr>)"
    "wf_fs s1" "fm s1 = fm s" "idata s1 = idata s" "next_ino s1 = next_ino s"
    "look s1 [undo_dir] = Some Dir"
    "\<And>q. look s1 q = Some Dir \<longleftrightarrow> look s q = Some Dir \<or> q = [undo_dir]"
    by (rule undo_path_run [OF w ok, of "''backup''"]) (rule that)
  have "uuid_loc E h k b" by (auto simp: uuid_loc_def b)
  then have b0: "look s b = None" using ok by (auto simp: fs_ok_def)
  have bne: "b \<noteq> []" "b \<noteq> [undo_dir]" "butlast b = [undo_dir]" by (auto simp: b)
  have b1: "look s1 b = None"
    using s1(3,7) b0 bne fm_None_iff [of s1 b] fm_None_iff [of "s" b] by auto
  let ?s = "set_node s1 b (File j)"
  have l: "link s1 p b = Inr ?s" using link_file [of s1 p j b] s1(3,6) j b1 bne by simp
  have wf: "wf_fs ?s"
    using wf_set_node [OF s1(2), of b "File j" j] s1(5,6) bne b1 j wf_ino [of "s" p j] ok
    by (auto simp: fs_ok_def)
  have d: "look ?s q = Some Dir \<longleftrightarrow> look s q = Some Dir \<or> q = [undo_dir]" for q
    using s1(7) [of q] b0 bne by (auto simp: look_simps)
  show thesis
  proof (rule that [of ?s])
    show "backup_tree_entry E p w = (Inr (Some b), w\<lparr>w_fs := ?s, w_uuids := Suc k\<rparr>)"
      using j l s1(1) b by (simp add: w backup_tree_entry_def fs_exists_def fm_Some_iff bindS_def
        on_fs_def fsop_def act_simps)
  qed (use s1 wf d bne in \<open>auto simp: fm_set_file\<close>)
qed

lemma backup_none: "look (w_fs w) p = None \<Longrightarrow> backup_tree_entry E p w = (Inr None, w)"
  by (simp add: backup_tree_entry_def fs_exists_def act_simps)

lemma backup_dir:
  assumes w: "w_fs w = s" "w_uuids w = k" and ok: "fs_ok E h k s" and d: "look s p = Some Dir"
  obtains e s' where "backup_tree_entry E p w = (Inl e, w\<lparr>w_fs := s', w_uuids := Suc k\<rparr>)"
    "wf_fs s'" "fm s' = fm s" "idata s' = idata s" "next_ino s' = next_ino s"
    "\<And>q. look s' q = Some Dir \<longleftrightarrow> look s q = Some Dir \<or> q = [undo_dir]"
proof -
  obtain s1 where s1: "undo_path E ''backup'' w =
      (Inr [undo_dir, lit ''backup'' @ lit ''-'' @ e_uuid E k], w\<lparr>w_fs := s1, w_uuids := Suc k\<rparr>)"
    "wf_fs s1" "fm s1 = fm s" "idata s1 = idata s" "next_ino s1 = next_ino s"
    "look s1 [undo_dir] = Some Dir"
    "\<And>q. look s1 q = Some Dir \<longleftrightarrow> look s q = Some Dir \<or> q = [undo_dir]"
    by (rule undo_path_run [OF w ok, of "''backup''"]) (rule that)
  have "look s1 p = Some Dir" using s1(7) d by simp
  show thesis
  proof (rule that [of "PermissionError ''operation not permitted''" s1])
    show "backup_tree_entry E p w =
        (Inl (PermissionError ''operation not permitted''), w\<lparr>w_fs := s1, w_uuids := Suc k\<rparr>)"
      using s1(1) d \<open>look s1 p = Some Dir\<close>
      by (simp add: w backup_tree_entry_def fs_exists_def bindS_def on_fs_def fsop_def link_def)
  qed (use s1 in auto)
qed

section \<open>Renaming a file under the journal\<close>

text \<open>What a journalled step leaves alone.\<close>

definition same_rest :: "world \<Rightarrow> world \<Rightarrow> bool" where
  "same_rest w w' \<longleftrightarrow> w_db w' = w_db w \<and> w_clock w' = w_clock w \<and>
     idata (w_fs w') = idata (w_fs w) \<and> next_ino (w_fs w') = next_ino (w_fs w)"

lemma fs_ok_grow_dirs:
  assumes "inj (e_uuid E)" "fs_ok E h k s" "wf_fs s'" "k \<le> k'" "fm s' = fm s"
    and "\<And>q. look s' q = Some Dir \<Longrightarrow> look s q = Some Dir \<or> new_dir_ok h q"
  shows "fs_ok E h k' s'"
  using assms(2) by (intro fs_ok_step [OF assms(1,2,3,4)]) (use assms(5,6) in \<open>auto simp: fs_ok_def\<close>)

lemma fle_grow_dirs:
  assumes "wf_fs s" "wf_fs s'" "fm s' = fm s" "idata s' = idata s"
    and "\<And>q. look s' q = Some Dir \<Longrightarrow> look s q = Some Dir \<or> q = [undo_dir]"
  shows "fle [users_dir, h] s' s"
proof -
  have "\<not> guarded [users_dir, h] [undo_dir]" by (simp add: guarded_def strict_prefix_def)
  then show ?thesis using assms unfolding fle_def by metis
qed

lemma new_dir_ok_undo [simp]: "new_dir_ok h [undo_dir]"
  by (simp add: new_dir_ok_def base_locs_def)

lemma live_chain_free:
  assumes "fs_ok E h k s" "look s p \<noteq> None" "prefix q (butlast p)" "p \<noteq> []"
  shows "look s q = Some Dir"
  using assms wf_ancestor [of s q p] strict_prefix_butlastI [of p q] by (auto simp: fs_ok_def)

lemma butlast_not_prefix: "p \<noteq> [] \<Longrightarrow> \<not> prefix p (butlast p)"
  using strict_prefix_butlast [of p p] by auto

lemma mkdirs_Inr_free: "mkdirs s p = Inr t \<Longrightarrow> prefix q p \<Longrightarrow> fm s q = None"
  using strict_prefix_butlast [of q p]
  by (auto simp: mkdirs_def file_below_def list_ex_iff is_file_iff prefix_order.less_le)

text \<open>The end of \<open>_rename_tree_file\<close>, once the backup is made.\<close>

lemma rename_tail:
  assumes v: "w_fs v = s" and ur: "user_root E user = Inr ur"
    and wf: "wf_fs s" and src: "fm s src = Some i"
    and tgt: "look s tgt \<noteq> Some Dir" "fm s tgt \<noteq> Some i" "look s (butlast tgt) = Some Dir"
  obtains t where "bindS (catchS (on_fs (fsop (\<lambda>fs. replace fs src tgt))) H) (\<lambda>_.
       bindS (liftE (user_root E user)) (\<lambda>root.
       bindS (on_fs (fsop (\<lambda>fs. Inr (remove_empty_parents fs (butlast src) root)))) (\<lambda>_.
       bindS (push_undo u) (\<lambda>_. push_cleanup c)))) v
      = (Inr (), v\<lparr>w_fs := t, w_undo := w_undo v @ [u], w_cleanup := w_cleanup v @ [c]\<rparr>)"
    "wf_fs t" "fm t = (fm s)(src := None, tgt \<mapsto> i)" "idata t = idata s" "next_ino t = next_ino s"
    "\<And>q. look t q = Some Dir \<Longrightarrow> look s q = Some Dir"
proof -
  obtain s3 where s3: "replace s src tgt = Inr s3" "wf_fs s3" "fm s3 = (fm s)(src := None, tgt \<mapsto> i)"
    "idata s3 = idata s" "next_ino s3 = next_ino s" "\<And>q. look s3 q = Some Dir \<longleftrightarrow> look s q = Some Dir"
    by (rule rename_props [OF wf src tgt]) (rule that)
  have d: "look s3 (butlast src) = Some Dir" using s3(6) butlast_dir [OF wf src] by blast
  note t = rep_props [OF s3(2) d refl, where stop = ur]
  show thesis
  proof (rule that [of "remove_empty_parents s3 (butlast src) ur"], goal_cases)
    case 1
    show ?case using v s3(1)
      by (simp add: bindS_def catchS_def on_fs_def fsop_def act_simps ur push_undo_def push_cleanup_def)
  qed (use t(1-5) s3 in auto)
qed

lemma rename_start:
  "fs_exists (w_fs w) src \<Longrightarrow> mkdirs (w_fs w) (butlast tgt) = Inr s1 \<Longrightarrow>
   backup_tree_entry E tgt (w\<lparr>w_fs := s1\<rparr>) = (Inr bk, v) \<Longrightarrow>
   rename_tree_file E user src tgt w =
     bindS (catchS (on_fs (fsop (\<lambda>fs. replace fs src tgt)))
        (\<lambda>e. bindS (unlink_backup bk) (\<lambda>_. raise e))) (\<lambda>_.
       bindS (liftE (user_root E user)) (\<lambda>root.
       bindS (on_fs (fsop (\<lambda>fs. Inr (remove_empty_parents fs (butlast src) root)))) (\<lambda>_.
       bindS (push_undo (UndoRename src tgt bk)) (\<lambda>_. push_cleanup (CleanBackup bk))))) v"
  by (simp add: rename_tree_file_def bindS_def [of "gets _"] bindS_def [of "on_fs (fsop (\<lambda>fs. mkdirs fs _))"]
      bindS_def [of "backup_tree_entry _ _"] act_simps on_fs_def [of "fsop (\<lambda>fs. mkdirs fs _)"] fsop_def)

text \<open>Moving a file keeps the inodes of live files apart.\<close>

lemma uniq_move:
  assumes ok: "fs_ok E h k s" and live: "live_loc h src" and src: "fm s src = Some i" and "src \<noteq> tgt"
    and t: "\<And>q. live_loc h q \<Longrightarrow> fm t q = ((fm s)(src := None, tgt \<mapsto> i)) q"
    and p: "live_loc h p" "live_loc h q" "fm t p = Some j" "fm t q = Some j"
  shows "p = q"
proof -
  have u: "a = b" if "live_loc h a" "live_loc h b" "fm s a = Some l" "fm s b = Some l" for a b l
    using ok that by (auto simp: fs_ok_def)
  have other: "False" if "live_loc h a" "a \<noteq> tgt" "fm t a = Some i" for a
  proof -
    have "a \<noteq> src" "fm s a = Some i" using t [OF that(1)] that by (auto split: if_splits)
    then show False using u [OF live that(1) src] by simp
  qed
  have keep: "fm s a = Some j" if "live_loc h a" "a \<noteq> tgt" "fm t a = Some j" for a
    using t [OF that(1)] that by (auto split: if_splits)
  show ?thesis
  proof (cases "fm t tgt = Some j \<and> (p = tgt \<or> q = tgt)")
    case True
    then have "i = j" if "live_loc h tgt" using t [OF that] by simp
    then show ?thesis using True p other by auto
  next
    case False
    then show ?thesis using keep [OF p(1)] keep [OF p(2)] u [OF p(1,2)] p by auto
  qed
qed

lemma rename_tree_file_run:
  assumes E: "env_ok E user h" and J: "journal E user h s0 w"
    and live: "live_loc h src" "live_loc h tgt"
    and tgt: "strict_prefix [users_dir, h] tgt \<or> (\<exists>n < w_uuids w. uuid_loc E h n tgt)" and ne: "src \<noteq> tgt" and nd: "look (w_fs w) src \<noteq> Some Dir"
    and run: "rename_tree_file E user src tgt w = (r, w')"
  shows "journal E user h s0 w' \<and> same_rest w w' \<and>
    (case r of Inl e \<Rightarrow> fm (w_fs w') = fm (w_fs w)
     | Inr _ \<Rightarrow> \<exists>i. fm (w_fs w) src = Some i \<and>
         (\<forall>q. \<not> backup_loc q \<longrightarrow> fm (w_fs w') q = ((fm (w_fs w))(src := None, tgt \<mapsto> i)) q))"
proof (cases "fm (w_fs w) src")
  case None
  then have "look (w_fs w) src = None" using nd by (auto simp: fm_None_iff)
  then have "r = Inl (FileNotFoundError ''missing path'')" "w' = w"
    using run by (auto simp: rename_tree_file_def bindS_def act_simps fs_exists_def)
  then show ?thesis using J by (simp add: same_rest_def)
next
  case src: (Some i)
  let ?s = "w_fs w" and ?k = "w_uuids w" and ?ur = "[users_dir, h]"
  have ok: "fs_ok E h ?k ?s" and wf: "wf_fs ?s" using J by (auto simp: journal_def fs_ok_def)
  have inj: "inj (e_uuid E)" using E by (simp add: env_ok_def)
  have jr: "journalled ?ur src" "journalled ?ur tgt" using live live_loc_journalled by auto
  have tne: "tgt \<noteq> []" "src \<noteq> []" using journalled_props(1) jr by auto
  have ur: "user_root E user = Inr ?ur" using env_ok_roots [OF E] by simp
  have ex: "fs_exists ?s src" using src by (simp add: fs_exists_def fm_Some_iff)
  show ?thesis
  proof (cases "mkdirs ?s (butlast tgt)")
    case (Inl e)
    then have "r = Inl e" "w' = w"
      using run ex by (auto simp: rename_tree_file_def bindS_def act_simps on_fs_def fsop_def)
    then show ?thesis using J by (simp add: same_rest_def)
  next
    case (Inr s1)
    have nf: "fm ?s q = None" if "prefix q (butlast tgt)" for q
      using mkdirs_Inr_free Inr that by blast
    obtain s1' where "mkdirs ?s (butlast tgt) = Inr s1'" and s1': "wf_fs s1'" "fm s1' = fm ?s" "idata s1' = idata ?s"
        "next_ino s1' = next_ino ?s" "look s1' (butlast tgt) = Some Dir"
        "\<And>q. look s1' q = Some Dir \<longleftrightarrow> look ?s q = Some Dir \<or> prefix q (butlast tgt)"
      using mkdirs_props [OF wf nf] by blast
    then have s1: "wf_fs s1" "fm s1 = fm ?s" "idata s1 = idata ?s" "next_ino s1 = next_ino ?s"
        "look s1 (butlast tgt) = Some Dir"
        "\<And>q. look s1 q = Some Dir \<longleftrightarrow> look ?s q = Some Dir \<or> prefix q (butlast tgt)"
      using Inr by auto
    let ?w1 = "w\<lparr>w_fs := s1\<rparr>"
    have w1: "w_fs ?w1 = s1" "w_uuids ?w1 = ?k" by simp_all
    have ok1: "fs_ok E h ?k s1"
      using fs_ok_grow_dirs [OF inj ok s1(1) order_refl s1(2)] s1(6) chain_new_dir_ok [OF live(2)] by auto
    note start = run [unfolded rename_tree_file_def] ex Inr
    show ?thesis
    proof (cases "look ?s tgt = Some Dir")
      case True
      have "look s1 q = Some Dir \<longleftrightarrow> look ?s q = Some Dir" for q
        using s1(6) live_chain_free [OF ok, of tgt q] True tne by auto
      moreover obtain e s2 where b: "backup_tree_entry E tgt ?w1 = (Inl e, ?w1\<lparr>w_fs := s2, w_uuids := Suc ?k\<rparr>)"
        "wf_fs s2" "fm s2 = fm s1" "idata s2 = idata s1" "next_ino s2 = next_ino s1"
        "\<And>q. look s2 q = Some Dir \<longleftrightarrow> look s1 q = Some Dir \<or> q = [undo_dir]"
        using True s1(6) by (rule_tac backup_dir [OF w1 ok1, of tgt]) auto
      moreover have "r = Inl e" "w' = w\<lparr>w_fs := s2, w_uuids := Suc ?k\<rparr>"
        using start b(1) by (auto simp: bindS_def act_simps on_fs_def fsop_def)
      moreover have "fs_ok E h (Suc ?k) s2"
        by (rule fs_ok_grow_dirs [OF inj ok b(2)]) (use b s1 calculation(1) in auto)
      moreover have "fle ?ur s2 ?s"
        by (rule fle_grow_dirs [OF wf b(2)]) (use b s1 calculation(1) in auto)
      ultimately show ?thesis using s1
        by (auto intro!: journal_same [OF J] simp: same_rest_def)
    next
      case tnd: False
      have t1: "look s1 tgt \<noteq> Some Dir" using tnd s1(6) butlast_not_prefix tne by blast
      have uniq: "fm ?s tgt \<noteq> Some i" using ok live ne src by (auto simp: fs_ok_def)
      have below: "\<not> prefix src tgt"
      proof
        assume "prefix src tgt"
        then have "prefix src (butlast tgt)" using ne strict_prefix_butlast [of src tgt] by (auto simp: prefix_order.less_le)
        then show False using nf src by auto
      qed
      show ?thesis
      proof (cases "fm ?s tgt")
        case None
        then have tn: "look ?s tgt = None" using tnd by (auto simp: fm_None_iff)
        then have "look s1 tgt = None" using t1 s1(2) None by (metis fm_None_iff)
        then have bk: "backup_tree_entry E tgt ?w1 = (Inr None, ?w1)" by (simp add: backup_none)
        have "fm s1 src = Some i" "fm s1 tgt \<noteq> Some i" using s1(2) src uniq by auto
        then obtain t where t: "rename_tree_file E user src tgt w = (Inr (), ?w1\<lparr>w_fs := t,
              w_undo := w_undo ?w1 @ [UndoRename src tgt None], w_cleanup := w_cleanup ?w1 @ [CleanBackup None]\<rparr>)"
          "wf_fs t" "fm t = (fm s1)(src := None, tgt \<mapsto> i)" "idata t = idata s1" "next_ino t = next_ino s1"
          "\<And>q. look t q = Some Dir \<Longrightarrow> look s1 q = Some Dir"
          by (rule rename_tail [OF w1(1) ur s1(1) _ t1 _ s1(5)]) (rule that [unfolded rename_start [OF ex Inr bk]])
        have r: "r = Inr ()" "w' = w\<lparr>w_fs := t, w_undo := w_undo w @ [UndoRename src tgt None],
            w_cleanup := w_cleanup w @ [CleanBackup None]\<rparr>"
          using trans [OF run [symmetric] t(1)] by simp_all
        have ft: "fm t = (fm ?s)(src := None, tgt \<mapsto> i)" using t(3) s1(2) by simp
        have dt: "look ?s q = Some Dir \<or> prefix q (butlast tgt)" if "look t q = Some Dir" for q
          using t(6) [OF that] s1(6) by blast
        have "fs_ok E h ?k t"
        proof (rule fs_ok_step [OF inj ok t(2) order_refl])
          show "fm ?s q \<noteq> None \<or> strict_prefix ?ur q \<or> (\<exists>n < ?k. uuid_loc E h n q)" if "fm t q = Some i'" for q i'
            using that tgt unfolding ft by (auto split: if_splits)
          show "look ?s q = Some Dir \<or> new_dir_ok h q" if "look t q = Some Dir" for q
            using dt [OF that] chain_new_dir_ok [OF live(2)] by blast
          show "p = q" if "live_loc h p" "live_loc h q" "fm t p = Some j" "fm t q = Some j" for p q j
            by (rule uniq_move [OF ok live(1) src ne _ that]) (simp add: ft)
        qed
        moreover have "undoes (run_undo E user) (fle ?ur) (UndoRename src tgt None) t ?s"
          by (rule undo_rename_none [OF refl ur wf t(2) jr src tn ft below]) (use dt t(4) s1(3) in auto)
        ultimately have "journal E user h s0 w'"
          unfolding r(2) by (intro journal_push [OF J]) (auto simp: clean_ok_def)
        then show ?thesis using r t(4,5) s1(3,4) src ft by (simp add: same_rest_def)
      next
        case (Some j)
        let ?b = "[undo_dir, lit ''backup'' @ lit ''-'' @ e_uuid E ?k]"
        have j1: "fm s1 tgt = Some j" using Some s1(2) by simp
        obtain s2 where bk: "backup_tree_entry E tgt ?w1 = (Inr (Some ?b), ?w1\<lparr>w_fs := s2, w_uuids := Suc ?k\<rparr>)"
          and s2: "wf_fs s2" "fm s2 = (fm s1)(?b \<mapsto> j)" "idata s2 = idata s1" "next_ino s2 = next_ino s1"
            "\<And>q. look s2 q = Some Dir \<longleftrightarrow> look s1 q = Some Dir \<or> q = [undo_dir]"
          by (rule backup_run [OF w1 ok1 j1 refl]) (rule that)
        let ?w2 = "?w1\<lparr>w_fs := s2, w_uuids := Suc ?k\<rparr>"
        have ub: "uuid_loc E h ?k ?b" by (auto simp: uuid_loc_def)
        then have b0: "look ?s ?b = None" using ok by (auto simp: fs_ok_def)
        have bb: "backup_loc ?b" by (auto simp: backup_loc_def)
        then have bne: "?b \<noteq> src" "?b \<noteq> tgt" using live_not_backup live by auto
        have nbp: "\<not> prefix ?b tgt"
          using live(2) bne by (auto simp: live_loc_def strict_prefix_two lit_def)
        have ij: "i \<noteq> j" using uniq Some by auto
        have w2: "w_fs ?w2 = s2" by simp
        have t2: "look s2 tgt \<noteq> Some Dir" "fm s2 tgt \<noteq> Some i" "look s2 (butlast tgt) = Some Dir" "fm s2 src = Some i"
          using s2 s1 t1 src uniq bne journalled_props(1) [OF jr(2)] live_not_base [OF live(2)]
          by (auto simp: base_locs_def)
        obtain t where t: "rename_tree_file E user src tgt w = (Inr (), ?w2\<lparr>w_fs := t,
              w_undo := w_undo ?w2 @ [UndoRename src tgt (Some ?b)],
              w_cleanup := w_cleanup ?w2 @ [CleanBackup (Some ?b)]\<rparr>)"
          "wf_fs t" "fm t = (fm s2)(src := None, tgt \<mapsto> i)" "idata t = idata s2" "next_ino t = next_ino s2"
          "\<And>q. look t q = Some Dir \<Longrightarrow> look s2 q = Some Dir"
          by (rule rename_tail [OF w2 ur s2(1) t2(4,1,2,3)]) (rule that [unfolded rename_start [OF ex Inr bk]])
        have r: "r = Inr ()" "w' = w\<lparr>w_fs := t, w_uuids := Suc ?k, w_undo := w_undo w @ [UndoRename src tgt (Some ?b)],
            w_cleanup := w_cleanup w @ [CleanBackup (Some ?b)]\<rparr>"
          using trans [OF run [symmetric] t(1)] by simp_all
        have ft: "fm t = (fm ?s)(src := None, tgt \<mapsto> i, ?b \<mapsto> j)"
          using t(3) s1(2) s2(2) bne by (auto simp: fun_eq_iff)
        have above: "look ?s q = Some Dir" if "prefix q (butlast tgt)" for q
          using live_chain_free [OF ok _ that] Some tne by (auto simp: fm_Some_iff)
        have dt: "look ?s q = Some Dir \<or> q = [undo_dir]" if "look t q = Some Dir" for q
          using t(6) [OF that] s1(6) s2(5) above by blast
        have ng: "\<not> guarded ?ur [undo_dir]" by (simp add: guarded_def strict_prefix_def)
        have fl: "fm t q = ((fm ?s)(src := None, tgt \<mapsto> i)) q" if "\<not> backup_loc q" for q
          using that bb ft by auto
        have "fs_ok E h (Suc ?k) t"
        proof (rule fs_ok_step [OF inj ok t(2)])
          show "fm ?s q \<noteq> None \<or> strict_prefix ?ur q \<or> (\<exists>n < Suc ?k. uuid_loc E h n q)" if "fm t q = Some i'" for q i'
            using that tgt ub less_Suc_eq unfolding ft by (auto split: if_splits)
          show "look ?s q = Some Dir \<or> new_dir_ok h q" if "look t q = Some Dir" for q
            using dt [OF that] by auto
          show "p = q" if "live_loc h p" "live_loc h q" "fm t p = Some j" "fm t q = Some j" for p q j
            by (rule uniq_move [OF ok live(1) src ne _ that]) (use fl live_not_backup in blast)
        qed simp
        moreover have "undoes (run_undo E user) (fle ?ur) (UndoRename src tgt (Some ?b)) t ?s"
          by (rule undo_rename_some [OF wf t(2) jr src Some ft ne ij])
            (use b0 bne nbp dt ng t(4) s1(3) s2(3) in \<open>auto simp: fm_None_iff\<close>)
        ultimately have "journal E user h s0 w'"
          unfolding r(2) by (intro journal_push [OF J]) (auto simp: clean_ok_def bb)
        then show ?thesis using r t(4,5) s1(3,4) s2(3,4) src fl by (simp add: same_rest_def)
      qed
    qed
  qed
qed

section \<open>Removing a tree entry under the journal\<close>

lemma unlink_none: "unlink_backup None v = (Inr (), v)"
  by (simp add: unlink_backup_def on_fs_def fsop_def unlink_if_exists_def)

lemma backup_loc_props:
  "backup_loc [undo_dir, lit ''backup'' @ lit ''-'' @ x]"
  "uuid_loc E h k [undo_dir, lit ''backup'' @ lit ''-'' @ e_uuid E k]"
  "strict_prefix [users_dir, h] p \<Longrightarrow> \<not> prefix [undo_dir, y] p"
  by (auto simp: backup_loc_def uuid_loc_def strict_prefix_two)

lemma not_guarded_undo: "\<not> guarded [users_dir, h] [undo_dir]"
  by (simp add: guarded_def strict_prefix_def)

lemma fs_ok_shrink:
  assumes inj: "inj (e_uuid E)" and ok: "fs_ok E h k s" and wf: "wf_fs s'" and k: "k \<le> k'"
    and files: "\<And>q. \<not> backup_loc q \<Longrightarrow> fm s' q = fm s q \<or> fm s' q = None"
    and backups: "\<And>q. backup_loc q \<Longrightarrow> fm s' q = fm s q \<or> (\<exists>n < k'. uuid_loc E h n q)"
    and dirs: "\<And>q. look s' q = Some Dir \<Longrightarrow> look s q = Some Dir \<or> new_dir_ok h q"
  shows "fs_ok E h k' s'"
proof (rule fs_ok_step [OF inj ok wf k])
  show "fm s q \<noteq> None \<or> strict_prefix [users_dir, h] q \<or> (\<exists>n < k'. uuid_loc E h n q)" if "fm s' q = Some i" for q i
    using files [of q] backups [of q] that by (cases "backup_loc q") auto
  show "p = q" if "live_loc h p" "live_loc h q" "fm s' p = Some i" "fm s' q = Some i" for p q i
  proof -
    have "fm s p = Some i" "fm s q = Some i"
      using files live_not_backup that by (metis option.distinct(1))+
    then show ?thesis using ok that(1,2) by (auto simp: fs_ok_def)
  qed
qed (rule dirs)

lemma remove_tree_entry_run:
  assumes E: "env_ok E user h" and J: "journal E user h s0 w"
    and tp: "tree_path E user p = Inr tgt" "strict_prefix [users_dir, h] tgt"
    and run: "remove_tree_entry E user p w = (r, w')"
  shows "journal E user h s0 w' \<and> same_rest w w' \<and>
    (case r of Inl e \<Rightarrow> fm (w_fs w') = fm (w_fs w)
     | Inr _ \<Rightarrow> \<forall>q. \<not> backup_loc q \<longrightarrow> fm (w_fs w') q = ((fm (w_fs w))(tgt := None)) q)"
proof -
  let ?s = "w_fs w" and ?k = "w_uuids w" and ?ur = "[users_dir, h]"
  have ok: "fs_ok E h ?k ?s" and wf: "wf_fs ?s" using J by (auto simp: journal_def fs_ok_def)
  have inj: "inj (e_uuid E)" using E by (simp add: env_ok_def)
  have live: "live_loc h tgt" using tp by (simp add: live_loc_def)
  have jr: "journalled ?ur tgt" using live live_loc_journalled by auto
  have tne: "tgt \<noteq> []" using journalled_props(1) jr by auto
  have ur: "user_root E user = Inr ?ur" using env_ok_roots [OF E] by simp
  note run' = run [unfolded remove_tree_entry_def tp(1)]
  show ?thesis
  proof (cases "look ?s tgt")
    case None
    then have f: "fm ?s tgt = None" by (simp add: fm_None_iff)
    have "w' = w" using run' None
      by (auto simp: bindS_def backup_none catchS_def on_fs_def fsop_def unlink_def missing_def act_simps
          unlink_none split: if_splits)
    then show ?thesis using J f by (auto simp: same_rest_def split: sum.splits)
  next
    case (Some n)
    show ?thesis
    proof (cases n)
      case Dir
      then have d: "look ?s tgt = Some Dir" using Some by simp
      obtain e s2 where b: "backup_tree_entry E tgt w = (Inl e, w\<lparr>w_fs := s2, w_uuids := Suc ?k\<rparr>)"
        "wf_fs s2" "fm s2 = fm ?s" "idata s2 = idata ?s" "next_ino s2 = next_ino ?s"
        "\<And>q. look s2 q = Some Dir \<longleftrightarrow> look ?s q = Some Dir \<or> q = [undo_dir]"
        by (rule backup_dir [OF refl refl ok d]) (rule that)
      then have r: "r = Inl e" "w' = w\<lparr>w_fs := s2, w_uuids := Suc ?k\<rparr>"
        using run' by (auto simp: bindS_def act_simps)
      have "fs_ok E h (Suc ?k) s2" by (rule fs_ok_grow_dirs [OF inj ok b(2)]) (use b in auto)
      moreover have "fle ?ur s2 ?s" by (rule fle_grow_dirs [OF wf b(2)]) (use b in auto)
      ultimately show ?thesis using b r by (auto intro!: journal_same [OF J] simp: same_rest_def)
    next
      case (File j)
      then have j: "fm ?s tgt = Some j" using Some by (simp add: fm_Some_iff)
      let ?b = "[undo_dir, lit ''backup'' @ lit ''-'' @ e_uuid E ?k]"
      obtain s1 where bk: "backup_tree_entry E tgt w = (Inr (Some ?b), w\<lparr>w_fs := s1, w_uuids := Suc ?k\<rparr>)"
        and s1: "wf_fs s1" "fm s1 = (fm ?s)(?b \<mapsto> j)" "idata s1 = idata ?s" "next_ino s1 = next_ino ?s"
          "\<And>q. look s1 q = Some Dir \<longleftrightarrow> look ?s q = Some Dir \<or> q = [undo_dir]"
        by (rule backup_run [OF refl refl ok j refl]) (rule that)
      have b: "backup_loc ?b" "uuid_loc E h ?k ?b" by (rule backup_loc_props)+
      then have bt: "?b \<noteq> tgt" using live_not_backup live by blast
      have b0: "fm ?s ?b = None" using ok b(2) by (auto simp: fs_ok_def fm_None_iff)
      have tj: "fm s1 tgt = Some j" using s1(2) j bt by simp
      let ?s2 = "del_node s1 tgt"
      let ?t = "remove_empty_parents ?s2 (butlast tgt) ?ur"
      have wf2: "wf_fs ?s2" using wf_del_file [OF s1(1)] tj by (simp add: fm_Some_iff)
      have d2: "look ?s2 (butlast tgt) = Some Dir"
        using butlast_dir [OF s1(1) tj] butlast_not_prefix [OF tne] by (auto simp: look_simps)
      note t = rep_props [OF wf2 d2 refl, where stop = ?ur]
      have u: "unlink s1 tgt = Inr ?s2" using unlink_file [OF tj] .
      have r: "r = Inr ()" "w' = w\<lparr>w_fs := ?t, w_uuids := Suc ?k,
          w_undo := w_undo w @ [UndoRemove tgt (Some ?b)], w_cleanup := w_cleanup w @ [CleanBackup (Some ?b)]\<rparr>"
        using run' bk u ur by (auto simp: bindS_def catchS_def on_fs_def fsop_def act_simps push_undo_def push_cleanup_def)
      have ft: "fm ?t = (fm ?s)(tgt := None, ?b \<mapsto> j)" using t(2) s1(2) bt by (auto simp: fm_del fun_eq_iff)
      have dt: "look ?s q = Some Dir \<or> q = [undo_dir]" if "look ?t q = Some Dir" for q
        using t(5) [OF that] s1(5) by (auto simp: look_simps split: if_splits)
      have "fs_ok E h (Suc ?k) ?t"
      proof (rule fs_ok_shrink [OF inj ok t(1)])
        show "fm ?t q = fm ?s q \<or> fm ?t q = None" if "\<not> backup_loc q" for q
          using that b(1) unfolding ft by auto
        show "fm ?t q = fm ?s q \<or> (\<exists>n < Suc ?k. uuid_loc E h n q)" if "backup_loc q" for q
          using that b(2) live_not_backup [OF live] unfolding ft by auto
        show "look ?s q = Some Dir \<or> new_dir_ok h q" if "look ?t q = Some Dir" for q
          using dt [OF that] by auto
      qed simp
      moreover have "undoes (run_undo E user) (fle ?ur) (UndoRemove tgt (Some ?b)) ?t ?s"
        by (rule undo_remove_some [OF wf t(1) jr j ft bt b0 backup_loc_props(3) [OF tp(2)]])
          (use dt not_guarded_undo t(3) s1(3) in auto)
      ultimately have "journal E user h s0 w'"
        unfolding r(2) by (intro journal_push [OF J]) (auto simp: clean_ok_def b)
      then show ?thesis using r t(3,4) s1(3,4) b(1) ft by (auto simp: same_rest_def)
    qed
  qed
qed

section \<open>Replacing a tree entry under the journal\<close>

text \<open>The end of \<open>_replace_tree_entry\<close>: link the object beside, and rename it over the target.\<close>

lemma replace_tail:
  assumes v: "w_fs v = s" and wf: "wf_fs s" and obj: "fm s obj = Some i" "obj \<noteq> tmp"
    and tmp: "look s tmp = None" "look s (butlast tmp) = Some Dir"
    and tgt: "look s tgt \<noteq> Some Dir" "fm s tgt \<noteq> Some i" "look s (butlast tgt) = Some Dir" "tgt \<noteq> tmp"
  obtains t where "bindS (catchS
        (bindS (on_fs (fsop (\<lambda>fs. link fs obj tmp))) (\<lambda>_. on_fs (fsop (\<lambda>fs. replace fs tmp tgt)))) H) (\<lambda>_.
       bindS (push_undo u) (\<lambda>_. push_cleanup c)) v
      = (Inr (), v\<lparr>w_fs := t, w_undo := w_undo v @ [u], w_cleanup := w_cleanup v @ [c]\<rparr>)"
    "wf_fs t" "fm t = (fm s)(tgt \<mapsto> i)" "idata t = idata s" "next_ino t = next_ino s"
    "\<And>q. look t q = Some Dir \<Longrightarrow> look s q = Some Dir"
proof -
  let ?a = "set_node s tmp (File i)"
  have tne: "tmp \<noteq> []" using tmp(1) look_None_not_Nil by blast
  have l: "link s obj tmp = Inr ?a" by (rule link_file [OF obj(1) tmp])
  have wa: "wf_fs ?a" using wf_set_node [OF wf tmp(2) tne, of "File i" i] tmp(1) wf_ino [OF wf obj(1)] by simp
  have fa: "fm ?a = (fm s)(tmp \<mapsto> i)" using fm_set_file [OF tne] .
  have a: "fm ?a tmp = Some i" "look ?a tgt \<noteq> Some Dir" "fm ?a tgt \<noteq> Some i" "look ?a (butlast tgt) = Some Dir"
    using fa tgt tmp by (auto simp: look_simps)
  obtain t where t: "replace ?a tmp tgt = Inr t" "wf_fs t" "fm t = (fm ?a)(tmp := None, tgt \<mapsto> i)"
    "idata t = idata ?a" "next_ino t = next_ino ?a" "\<And>q. look t q = Some Dir \<longleftrightarrow> look ?a q = Some Dir"
    by (rule rename_props [OF wa a]) (rule that)
  have "fm s tmp = None" using tmp(1) by (simp add: fm_None_iff)
  then have "fm t = (fm s)(tgt \<mapsto> i)" using t(3) fa tgt(4) by (auto simp: fun_eq_iff)
  moreover have "look s q = Some Dir" if "look t q = Some Dir" for q
    using that t(6) by (auto simp: look_simps split: if_splits)
  ultimately show thesis
  proof (intro that [of t], goal_cases)
    case 1
    show ?case using v l t(1)
      by (simp add: bindS_def catchS_def on_fs_def fsop_def push_undo_def push_cleanup_def)
  qed (use t in auto)
qed

lemma replace_start:
  "tree_path E user p = Inr tgt \<Longrightarrow> mkdirs (w_fs w) (butlast tgt) = Inr s1 \<Longrightarrow>
   undo_path E ''replace'' (w\<lparr>w_fs := s1\<rparr>) = (Inr tmp, v) \<Longrightarrow>
   backup_tree_entry E tgt v = (Inr bk, v') \<Longrightarrow>
   replace_tree_entry E user p obj w =
     bindS (catchS
        (bindS (on_fs (fsop (\<lambda>fs. link fs obj tmp))) (\<lambda>_. on_fs (fsop (\<lambda>fs. replace fs tmp tgt))))
        (\<lambda>e. bindS (unlink_backup (Some tmp)) (\<lambda>_. bindS (unlink_backup bk) (\<lambda>_. raise e)))) (\<lambda>_.
       bindS (push_undo (UndoReplace tgt bk)) (\<lambda>_. push_cleanup (CleanBackup bk))) v'"
  by (simp add: replace_tree_entry_def bindS_def [of "on_fs (fsop (\<lambda>fs. mkdirs fs _))"]
      bindS_def [of "undo_path _ _"] bindS_def [of "backup_tree_entry _ _"]
      on_fs_def [of "fsop (\<lambda>fs. mkdirs fs _)"] fsop_def)

lemma live_after_put:
  assumes ok: "fs_ok E h k s" and new: "\<And>q. live_loc h q \<Longrightarrow> fm s q \<noteq> Some i"
    and t: "\<And>q. live_loc h q \<Longrightarrow> fm t q = ((fm s)(tgt \<mapsto> i)) q"
    and p: "live_loc h p" "live_loc h q" "fm t p = Some j" "fm t q = Some j"
  shows "p = q"
proof -
  have "fm s p = Some j \<Longrightarrow> fm s q = Some j \<Longrightarrow> p = q" using ok p by (auto simp: fs_ok_def)
  then show ?thesis using t [OF p(1)] t [OF p(2)] p new [OF p(1)] new [OF p(2)] by (auto split: if_splits)
qed

lemma replace_tree_entry_run:
  assumes E: "env_ok E user h" and J: "journal E user h s0 w"
    and tp: "tree_path E user p = Inr tgt" "strict_prefix [users_dir, h] tgt"
    and obj: "fm (w_fs w) obj = Some i" "hd obj = objects_dir"
    and new: "\<And>q. live_loc h q \<Longrightarrow> fm (w_fs w) q \<noteq> Some i"
    and run: "replace_tree_entry E user p obj w = (r, w')"
  shows "journal E user h s0 w' \<and> same_rest w w' \<and>
    (case r of Inl e \<Rightarrow> fm (w_fs w') = fm (w_fs w)
     | Inr _ \<Rightarrow> \<forall>q. \<not> backup_loc q \<longrightarrow> fm (w_fs w') q = ((fm (w_fs w))(tgt \<mapsto> i)) q)"
proof -
  let ?s = "w_fs w" and ?k = "w_uuids w" and ?ur = "[users_dir, h]"
  have ok: "fs_ok E h ?k ?s" and wf: "wf_fs ?s" using J by (auto simp: journal_def fs_ok_def)
  have inj: "inj (e_uuid E)" using E by (simp add: env_ok_def)
  have live: "live_loc h tgt" using tp by (simp add: live_loc_def)
  have jr: "journalled ?ur tgt" using live live_loc_journalled by auto
  have tne: "tgt \<noteq> []" using journalled_props(1) jr by auto
  have ur: "user_root E user = Inr ?ur" using env_ok_roots [OF E] by simp
  note run' = run [unfolded replace_tree_entry_def tp(1)]
  show ?thesis
  proof (cases "mkdirs ?s (butlast tgt)")
    case (Inl e)
    then have "r = Inl e" "w' = w" using run' by (auto simp: bindS_def on_fs_def fsop_def)
    then show ?thesis using J by (simp add: same_rest_def)
  next
    case (Inr s1)
    have nf: "fm ?s q = None" if "prefix q (butlast tgt)" for q
      using mkdirs_Inr_free Inr that by blast
    obtain s1' where "mkdirs ?s (butlast tgt) = Inr s1'" and s1': "wf_fs s1'" "fm s1' = fm ?s" "idata s1' = idata ?s"
        "next_ino s1' = next_ino ?s" "look s1' (butlast tgt) = Some Dir"
        "\<And>q. look s1' q = Some Dir \<longleftrightarrow> look ?s q = Some Dir \<or> prefix q (butlast tgt)"
      using mkdirs_props [OF wf nf] by blast
    then have s1: "wf_fs s1" "fm s1 = fm ?s" "idata s1 = idata ?s" "next_ino s1 = next_ino ?s"
        "look s1 (butlast tgt) = Some Dir"
        "\<And>q. look s1 q = Some Dir \<longleftrightarrow> look ?s q = Some Dir \<or> prefix q (butlast tgt)"
      using Inr by auto
    let ?w1 = "w\<lparr>w_fs := s1\<rparr>"
    have w1: "w_fs ?w1 = s1" "w_uuids ?w1 = ?k" by simp_all
    have ok1: "fs_ok E h ?k s1"
      using fs_ok_grow_dirs [OF inj ok s1(1) order_refl s1(2)] s1(6) chain_new_dir_ok [OF live] by auto
    let ?tmp = "[undo_dir, lit ''replace'' @ lit ''-'' @ e_uuid E ?k]"
    obtain s2 where tmp: "undo_path E ''replace'' ?w1 = (Inr ?tmp, ?w1\<lparr>w_fs := s2, w_uuids := Suc ?k\<rparr>)"
      and s2: "wf_fs s2" "fm s2 = fm s1" "idata s2 = idata s1" "next_ino s2 = next_ino s1"
        "look s2 [undo_dir] = Some Dir" "\<And>q. look s2 q = Some Dir \<longleftrightarrow> look s1 q = Some Dir \<or> q = [undo_dir]"
      by (rule undo_path_run [OF w1 ok1, of "''replace''"]) (rule that)
    let ?w2 = "?w1\<lparr>w_fs := s2, w_uuids := Suc ?k\<rparr>"
    have w2: "w_fs ?w2 = s2" "w_uuids ?w2 = Suc ?k" by simp_all
    have ok2: "fs_ok E h (Suc ?k) s2"
      by (rule fs_ok_grow_dirs [OF inj ok1 s2(1) _ s2(2)]) (use s2(6) in auto)
    have ut: "uuid_loc E h ?k ?tmp" by (auto simp: uuid_loc_def)
    then have tmp0: "look ?s ?tmp = None" using ok by (auto simp: fs_ok_def)
    have tmpt: "tgt \<noteq> ?tmp" "obj \<noteq> ?tmp" using tp(2) obj(2) by (auto simp: strict_prefix_two)
    have fs2: "fm s2 = fm ?s" using s2(2) s1(2) by simp
    have tmp2: "look s2 ?tmp = None"
    proof -
      have "\<not> prefix ?tmp (butlast tgt)"
        using backup_loc_props(3) [OF tp(2)] butlast_prefix by blast
      then have "look s2 ?tmp \<noteq> Some Dir" using s2(6) s1(6) tmp0 by auto
      moreover have "fm s2 ?tmp = None" using fs2 tmp0 by (simp add: fm_None_iff)
      ultimately show ?thesis by (auto simp: fm_None_iff)
    qed
    have ds: "look s2 q = Some Dir \<longleftrightarrow> look ?s q = Some Dir \<or> prefix q (butlast tgt) \<or> q = [undo_dir]" for q
      using s2(6) s1(6) by blast
    show ?thesis
    proof (cases "look ?s tgt = Some Dir")
      case True
      have same: "look s1 q = Some Dir \<longleftrightarrow> look ?s q = Some Dir" for q
        using s1(6) live_chain_free [OF ok, of tgt q] True tne by auto
      have d2: "look s2 tgt = Some Dir" using True ds by blast
      obtain e s3 where b: "backup_tree_entry E tgt ?w2 = (Inl e, ?w2\<lparr>w_fs := s3, w_uuids := Suc (Suc ?k)\<rparr>)"
        "wf_fs s3" "fm s3 = fm s2" "idata s3 = idata s2" "next_ino s3 = next_ino s2"
        "\<And>q. look s3 q = Some Dir \<longleftrightarrow> look s2 q = Some Dir \<or> q = [undo_dir]"
        by (rule backup_dir [OF w2 ok2 d2]) (rule that)
      have r: "r = Inl e" "w' = w\<lparr>w_fs := s3, w_uuids := Suc (Suc ?k)\<rparr>"
        using run' Inr tmp b(1) by (auto simp: bindS_def on_fs_def fsop_def)
      have "fs_ok E h (Suc (Suc ?k)) s3"
        by (rule fs_ok_grow_dirs [OF inj ok b(2)]) (use b fs2 s2(6) same in auto)
      moreover have "fle ?ur s3 ?s"
        by (rule fle_grow_dirs [OF wf b(2)]) (use b s2 s1 same in auto)
      ultimately show ?thesis using s1 s2 b r by (auto intro!: journal_same [OF J] simp: same_rest_def)
    next
      case tnd: False
      have t2: "look s2 tgt \<noteq> Some Dir"
        using tnd ds butlast_not_prefix tne live_not_base [OF live] by (auto simp: base_locs_def)
      have i2: "fm s2 obj = Some i" "fm s2 tgt \<noteq> Some i" using fs2 obj(1) new [OF live] by auto
      have p2: "look s2 (butlast ?tmp) = Some Dir" "look s2 (butlast tgt) = Some Dir"
        using s2(5) ds by auto
      show ?thesis
      proof (cases "fm ?s tgt")
        case None
        then have tn: "look ?s tgt = None" using tnd by (auto simp: fm_None_iff)
        then have "look s2 tgt = None" using t2 fs2 None by (metis fm_None_iff)
        then have bk: "backup_tree_entry E tgt ?w2 = (Inr None, ?w2)" by (simp add: backup_none)
        obtain t where t: "replace_tree_entry E user p obj w = (Inr (), ?w2\<lparr>w_fs := t,
              w_undo := w_undo ?w2 @ [UndoReplace tgt None], w_cleanup := w_cleanup ?w2 @ [CleanBackup None]\<rparr>)"
          "wf_fs t" "fm t = (fm s2)(tgt \<mapsto> i)" "idata t = idata s2" "next_ino t = next_ino s2"
          "\<And>q. look t q = Some Dir \<Longrightarrow> look s2 q = Some Dir"
          by (rule replace_tail [OF w2(1) s2(1) i2(1) tmpt(2) tmp2 p2(1) t2 i2(2) p2(2) tmpt(1)])
            (rule that [unfolded replace_start [OF tp(1) Inr tmp bk]])
        have r: "r = Inr ()" "w' = w\<lparr>w_fs := t, w_uuids := Suc ?k, w_undo := w_undo w @ [UndoReplace tgt None],
            w_cleanup := w_cleanup w @ [CleanBackup None]\<rparr>"
          using trans [OF run [symmetric] t(1)] by simp_all
        have ft: "fm t = (fm ?s)(tgt \<mapsto> i)" using t(3) fs2 by simp
        have dt: "look ?s q = Some Dir \<or> prefix q (butlast tgt) \<or> q = [undo_dir]" if "look t q = Some Dir" for q
          using t(6) [OF that] ds by blast
        have "fs_ok E h (Suc ?k) t"
        proof (rule fs_ok_step [OF inj ok t(2)])
          show "fm ?s q \<noteq> None \<or> strict_prefix ?ur q \<or> (\<exists>n < Suc ?k. uuid_loc E h n q)" if "fm t q = Some i'" for q i'
            using that tp(2) unfolding ft by (auto split: if_splits)
          show "look ?s q = Some Dir \<or> new_dir_ok h q" if "look t q = Some Dir" for q
            using dt [OF that] chain_new_dir_ok [OF live] by auto
          show "p = q" if "live_loc h p" "live_loc h q" "fm t p = Some j" "fm t q = Some j" for p q j
            by (rule live_after_put [OF ok new _ that]) (simp_all add: ft)
        qed simp
        moreover have "undoes (run_undo E user) (fle ?ur) (UndoReplace tgt None) t ?s"
          by (rule undo_replace_none [OF refl ur wf t(2) jr None ft])
            (use dt not_guarded_undo t(4) s1(3) s2(3) in auto)
        ultimately have "journal E user h s0 w'"
          unfolding r(2) by (intro journal_push [OF J]) (auto simp: clean_ok_def)
        then show ?thesis using r t(4,5) s1(3,4) s2(3,4) ft by (simp add: same_rest_def)
      next
        case (Some j)
        let ?b = "[undo_dir, lit ''backup'' @ lit ''-'' @ e_uuid E (Suc ?k)]"
        have j2: "fm s2 tgt = Some j" using Some fs2 by simp
        obtain s3 where bk: "backup_tree_entry E tgt ?w2 = (Inr (Some ?b), ?w2\<lparr>w_fs := s3, w_uuids := Suc (Suc ?k)\<rparr>)"
          and s3: "wf_fs s3" "fm s3 = (fm s2)(?b \<mapsto> j)" "idata s3 = idata s2" "next_ino s3 = next_ino s2"
            "\<And>q. look s3 q = Some Dir \<longleftrightarrow> look s2 q = Some Dir \<or> q = [undo_dir]"
          by (rule backup_run [OF w2 ok2 j2 refl]) (rule that)
        let ?w3 = "?w2\<lparr>w_fs := s3, w_uuids := Suc (Suc ?k)\<rparr>"
        have w3: "w_fs ?w3 = s3" by simp
        have bb: "backup_loc ?b" "uuid_loc E h (Suc ?k) ?b" by (rule backup_loc_props)+
        have "look ?s ?b = None" using ok bb(2) unfolding fs_ok_def by (meson Suc_leD order_refl)
        then have b0: "fm ?s ?b = None" by (simp add: fm_None_iff)
        have bne: "?b \<noteq> tgt" "?b \<noteq> ?tmp" "?b \<noteq> obj" using bb(1) live_not_backup live obj(2) by (auto simp: lit_def)
        have ij: "i \<noteq> j" using new [OF live] Some by auto
        have tmp3: "look s3 ?tmp = None"
        proof -
          have "look s3 ?tmp \<noteq> Some Dir" using s3(5) tmp2 by auto
          moreover have "fm s3 ?tmp = None" using s3(2) bne fm_None_iff [of s2 ?tmp] tmp2 by auto
          ultimately show ?thesis by (auto simp: fm_None_iff)
        qed
        have i3: "fm s3 obj = Some i" "fm s3 tgt \<noteq> Some i" "look s3 tgt \<noteq> Some Dir"
            "look s3 (butlast ?tmp) = Some Dir" "look s3 (butlast tgt) = Some Dir"
          using s3 i2 t2 bne p2 live_not_base [OF live] by (auto simp: base_locs_def)
        obtain t where t: "replace_tree_entry E user p obj w = (Inr (), ?w3\<lparr>w_fs := t,
              w_undo := w_undo ?w3 @ [UndoReplace tgt (Some ?b)], w_cleanup := w_cleanup ?w3 @ [CleanBackup (Some ?b)]\<rparr>)"
          "wf_fs t" "fm t = (fm s3)(tgt \<mapsto> i)" "idata t = idata s3" "next_ino t = next_ino s3"
          "\<And>q. look t q = Some Dir \<Longrightarrow> look s3 q = Some Dir"
          by (rule replace_tail [OF w3 s3(1) i3(1) tmpt(2) tmp3 i3(4,3,2,5) tmpt(1)])
            (rule that [unfolded replace_start [OF tp(1) Inr tmp bk]])
        have r: "r = Inr ()" "w' = w\<lparr>w_fs := t, w_uuids := Suc (Suc ?k), w_undo := w_undo w @ [UndoReplace tgt (Some ?b)],
            w_cleanup := w_cleanup w @ [CleanBackup (Some ?b)]\<rparr>"
          using trans [OF run [symmetric] t(1)] by simp_all
        have ft: "fm t = (fm ?s)(tgt \<mapsto> i, ?b \<mapsto> j)" using t(3) s3(2) fs2 bne by (auto simp: fun_eq_iff)
        have above: "look ?s q = Some Dir" if "prefix q (butlast tgt)" for q
          using live_chain_free [OF ok _ that] Some tne by (auto simp: fm_Some_iff)
        have dt: "look ?s q = Some Dir \<or> q = [undo_dir]" if "look t q = Some Dir" for q
          using t(6) [OF that] s3(5) ds above by blast
        have fl: "fm t q = ((fm ?s)(tgt \<mapsto> i)) q" if "\<not> backup_loc q" for q
          using that bb(1) unfolding ft by auto
        have "fs_ok E h (Suc (Suc ?k)) t"
        proof (rule fs_ok_step [OF inj ok t(2)])
          show "fm ?s q \<noteq> None \<or> strict_prefix ?ur q \<or> (\<exists>n < Suc (Suc ?k). uuid_loc E h n q)" if "fm t q = Some i'" for q i'
            using that tp(2) bb(2) unfolding ft by (auto split: if_splits)
          show "look ?s q = Some Dir \<or> new_dir_ok h q" if "look t q = Some Dir" for q
            using dt [OF that] by auto
          show "p = q" if "live_loc h p" "live_loc h q" "fm t p = Some j" "fm t q = Some j" for p q j
            by (rule live_after_put [OF ok new _ that]) (use fl live_not_backup in auto)
        qed simp
        moreover have "undoes (run_undo E user) (fle ?ur) (UndoReplace tgt (Some ?b)) t ?s"
          by (rule undo_replace_some [OF wf t(2) jr Some ft ij bne(1) b0 backup_loc_props(3) [OF tp(2)]])
            (use dt not_guarded_undo t(4) s1(3) s2(3) s3(3) in auto)
        ultimately have "journal E user h s0 w'"
          unfolding r(2) by (intro journal_push [OF J]) (auto simp: clean_ok_def bb)
        then show ?thesis using r t(4,5) s1(3,4) s2(3,4) s3(3,4) fl by (simp add: same_rest_def)
      qed
    qed
  qed
qed

section \<open>Writing an object under the journal\<close>

lemma live_not_object: "live_loc h q \<Longrightarrow> hd q \<noteq> objects_dir"
  by (auto simp: live_loc_def strict_prefix_two)

lemma write_object_run:
  assumes E: "env_ok E user h" and J: "journal E user h s0 w"
  defines "oid \<equiv> e_uuid E (w_uuids w)" and "i \<equiv> next_ino (w_fs w)"
  obtains w' where
    "write_object E user data w = (Inr (oid, [objects_dir, h, oid]), w')"
    "journal E user h s0 w'" "w_db w' = w_db w" "w_clock w' = w_clock w"
    "fm (w_fs w') = (fm (w_fs w))([objects_dir, h, oid] \<mapsto> i)"
    "idata (w_fs w') = (idata (w_fs w))(i := data)" "next_ino (w_fs w') = Suc i" "w_uuids w' = Suc (w_uuids w)"
proof -
  let ?s = "w_fs w" and ?k = "w_uuids w" and ?ur = "[users_dir, h]" and ?obj = "[objects_dir, h, oid]"
  have ok: "fs_ok E h ?k ?s" and wf: "wf_fs ?s" using J by (auto simp: journal_def fs_ok_def)
  have inj: "inj (e_uuid E)" using E by (simp add: env_ok_def)
  note roots = env_ok_roots [OF E]
  have "fm ?s q = None" if "prefix q [objects_dir, h]" for q
  proof -
    have "q \<in> base_locs h" using that by (cases q; cases "tl q") (auto simp: base_locs_def)
    then show ?thesis using ok by (auto simp: fs_ok_def)
  qed
  then obtain s1 where s1: "mkdirs ?s [objects_dir, h] = Inr s1" "wf_fs s1" "fm s1 = fm ?s" "idata s1 = idata ?s"
      "next_ino s1 = next_ino ?s" "look s1 [objects_dir, h] = Some Dir"
      "\<And>q. look s1 q = Some Dir \<longleftrightarrow> look ?s q = Some Dir \<or> prefix q [objects_dir, h]"
    using mkdirs_props [OF wf, of "[objects_dir, h]"] by metis
  have uo: "uuid_loc E h ?k ?obj" by (simp add: uuid_loc_def oid_def)
  then have o0: "look ?s ?obj = None" using ok by (auto simp: fs_ok_def)
  have "look s1 ?obj \<noteq> Some Dir" using s1(7) o0 by auto
  moreover have "fm s1 ?obj = None" using s1(3) o0 by (simp add: fm_None_iff)
  ultimately have o1: "look s1 ?obj = None" by (auto simp: fm_None_iff)
  let ?n = "set_node s1 ?obj (File i)"
  let ?t = "?n\<lparr>idata := (idata s1)(i := data), next_ino := Suc i\<rparr>"
  have wb: "write_bytes s1 ?obj data = Inr ?t"
    using o1 s1(5,6) by (simp add: write_bytes_def need_parent_def is_dir_def i_def guardE_def)
  have lt: "look ?t q = (if q = [] then Some Dir else if q = ?obj then Some (File i) else look s1 q)" for q
    by (simp add: look_simps)
  have ft: "fm ?t = (fm ?s)(?obj \<mapsto> i)" using s1(3) by (auto simp: fm_def lt fun_eq_iff look_simps)
  have dt: "look ?s q = Some Dir \<or> prefix q [objects_dir, h]" if "look ?t q = Some Dir" for q
    using that s1(7) [of q] by (auto simp: lt split: if_splits)
  have wt: "wf_fs ?t"
  proof -
    have "look ?t (butlast q) = Some Dir" if "look ?t q \<noteq> None" for q
    proof (cases "q = ?obj")
      case False
      then have "look s1 (butlast q) = Some Dir" using that s1(2) by (auto simp: lt wf_fs_def look_simps split: if_splits)
      then show ?thesis using o1 by (auto simp: lt)
    qed (use s1(6) in \<open>simp add: lt\<close>)
    moreover have "j < Suc i" if "look ?t q = Some (File j)" for q j
    proof -
      have "next_ino s1 = i" by (simp add: s1(5) i_def)
      then show ?thesis using that s1(2) by (auto simp: lt wf_fs_def less_Suc_eq split: if_splits)
    qed
    ultimately show ?thesis by (auto simp: wf_fs_def)
  qed
  have okt: "fs_ok E h (Suc ?k) ?t"
  proof (rule fs_ok_step [OF inj ok wt])
    show "fm ?s q \<noteq> None \<or> strict_prefix ?ur q \<or> (\<exists>n < Suc ?k. uuid_loc E h n q)" if "fm ?t q = Some j" for q j
      using that uo unfolding ft by (auto split: if_splits)
    show "look ?s q = Some Dir \<or> new_dir_ok h q" if "look ?t q = Some Dir" for q
    proof -
      have "prefix q [objects_dir, h] \<Longrightarrow> q \<in> base_locs h"
        by (cases q; cases "tl q") (auto simp: base_locs_def)
      then show ?thesis using dt [OF that] by (auto simp: new_dir_ok_def)
    qed
    show "p = q" if l: "live_loc h p" "live_loc h q" and "fm ?t p = Some j" "fm ?t q = Some j" for p q j
      using that live_not_object [OF l(1)] live_not_object [OF l(2)] ok unfolding ft
      by (auto simp: fs_ok_def split: if_splits)
  qed simp
  have und: "undoes (run_undo E user) (fle ?ur) (UndoObject ?obj) ?t ?s"
  proof (rule undo_object [OF _ wf wt _ ft])
    show "look ?s q = Some Dir" if "guarded ?ur q" "look ?t q = Some Dir" for q
      using that(1) dt [OF that(2)] by (auto simp: guarded_def strict_prefix_def prefix_def Cons_eq_append_conv)
    show "idata ?t j = idata ?s j" if "fm ?s q = Some j" for q j
      using wf_ino [OF wf that] s1(4) by (simp add: i_def)
  qed (use roots o0 in \<open>simp_all add: fm_None_iff\<close>)
  let ?w' = "w\<lparr>w_fs := ?t, w_uuids := Suc ?k, w_undo := w_undo w @ [UndoObject ?obj]\<rparr>"
  have "journal E user h s0 ?w'" using okt und by (intro journal_push [OF J]) auto
  then show thesis
    by (intro that [of ?w'])
      (use s1 wb ft in \<open>simp_all add: write_object_def bindS_def fresh_uuid_def act_simps roots on_fs_def fsop_def push_undo_def
        i_def oid_def\<close>)
qed


lemma replace_tree_path_error:
  "tree_path E user p = Inl e \<Longrightarrow> replace_tree_entry E user p obj w = (Inl e, w)"
  "tree_path E user p = Inl e \<Longrightarrow> remove_tree_entry E user p w = (Inl e, w)"
  by (simp_all add: replace_tree_entry_def remove_tree_entry_def raise_def)

text \<open>The branch of \<open>_put\<close> with a new object.\<close>

definition put_files :: "(loc \<Rightarrow> nat option) \<Rightarrow> loc \<Rightarrow> nat \<Rightarrow> loc \<Rightarrow> loc option \<Rightarrow> loc \<Rightarrow> nat option" where
  "put_files f obj i tgt old =
     (case old of None \<Rightarrow> f(obj \<mapsto> i, tgt \<mapsto> i) | Some l \<Rightarrow> f(obj \<mapsto> i, tgt \<mapsto> i, l := None))"

lemma put_object_run:
  assumes E: "env_ok E user h" and J: "journal E user h s0 w"
    and tp: "tree_path E user p = Inr tgt" "strict_prefix [users_dir, h] tgt"
    and old: "\<And>e. existing = Some e \<Longrightarrow> entry_path e \<noteq> p \<Longrightarrow>
      \<exists>l. tree_path E user (entry_path e) = Inr l \<and> strict_prefix [users_dir, h] l"
    and run: "put_object E user p data existing w = (r, w')"
  shows "journal E user h s0 w' \<and> w_db w' = w_db w \<and>
    (case r of Inl e \<Rightarrow> True
     | Inr oid \<Rightarrow> oid = e_uuid E (w_uuids w) \<and>
         idata (w_fs w') = (idata (w_fs w))(next_ino (w_fs w) := data) \<and>
         next_ino (w_fs w') = Suc (next_ino (w_fs w)) \<and>
         (\<forall>q. \<not> backup_loc q \<longrightarrow> fm (w_fs w') q =
            put_files (fm (w_fs w)) [objects_dir, h, oid] (next_ino (w_fs w)) tgt
              (case existing of None \<Rightarrow> None
               | Some e \<Rightarrow> if entry_path e = p then None
                   else Some (projr (tree_path E user (entry_path e)))) q))"
proof -
  let ?i = "next_ino (w_fs w)" and ?obj = "[objects_dir, h, e_uuid E (w_uuids w)]"
  let ?rm = "case existing of Some e \<Rightarrow> if entry_path e \<noteq> p then remove_tree_entry E user (entry_path e) else ret ()
            | None \<Rightarrow> ret ()"
  let ?cl = "case existing of
              Some e \<Rightarrow> bindS (liftE (object_path E user (object_id e))) (\<lambda>old. push_cleanup (CleanObject old))
            | None \<Rightarrow> ret ()"
  let ?rest = "\<lambda>oid obj. bindS (replace_tree_entry E user p obj) (\<lambda>_. bindS ?rm (\<lambda>_. bindS ?cl (\<lambda>_. ret oid)))"
  obtain w1 where wo: "write_object E user data w = (Inr (e_uuid E (w_uuids w), ?obj), w1)"
    "journal E user h s0 w1" "w_db w1 = w_db w" "w_clock w1 = w_clock w"
    "fm (w_fs w1) = (fm (w_fs w))(?obj \<mapsto> ?i)"
    "idata (w_fs w1) = (idata (w_fs w))(?i := data)" "next_ino (w_fs w1) = Suc ?i"
    by (rule write_object_run [OF E J, of data]) (rule that)
  then have w1: "put_object E user p data existing w = ?rest (e_uuid E (w_uuids w)) ?obj w1"
    "journal E user h s0 w1" "w_db w1 = w_db w" "w_clock w1 = w_clock w"
    "fm (w_fs w1) = (fm (w_fs w))(?obj \<mapsto> ?i)"
    "idata (w_fs w1) = (idata (w_fs w))(?i := data)" "next_ino (w_fs w1) = Suc ?i"
    by (simp_all add: put_object_def bindS_def [of "write_object _ _ _"])
  have wf: "wf_fs (w_fs w)" using J by (simp add: journal_def fs_ok_def)
  have o1: "fm (w_fs w1) ?obj = Some ?i" "hd ?obj = objects_dir" using w1(5) by simp_all
  have new: "fm (w_fs w1) q \<noteq> Some ?i" if "live_loc h q" for q
    using live_not_object [OF that] wf_ino [OF wf, of q] w1(5) by (auto split: if_splits)
  obtain r2 w2 where w2: "replace_tree_entry E user p ?obj w1 = (r2, w2)" by force
  note rep = replace_tree_entry_run [OF E w1(2) tp o1 new w2]
  have ob: "\<not> backup_loc ?obj" by (simp add: backup_loc_def)
  show ?thesis
  proof (cases r2)
    case (Inl e)
    then have "r = Inl e" "w' = w2" using run w1(1) w2 by (auto simp: bindS_def)
    then show ?thesis using rep Inl w1(3) by (auto simp: same_rest_def)
  next
    case (Inr u)
    obtain r3 w3 where w3: "?rm w2 = (r3, w3)" by force
    have rm: "journal E user h s0 w3 \<and> same_rest w2 w3 \<and>
      (case r3 of Inl e \<Rightarrow> True | Inr _ \<Rightarrow> \<forall>q. \<not> backup_loc q \<longrightarrow> fm (w_fs w3) q =
        (case existing of None \<Rightarrow> fm (w_fs w2) | Some e \<Rightarrow> if entry_path e = p then fm (w_fs w2)
          else (fm (w_fs w2))(projr (tree_path E user (entry_path e)) := None)) q)"
    proof (cases "\<exists>e. existing = Some e \<and> entry_path e \<noteq> p")
      case True
      then obtain e l where e: "existing = Some e" "entry_path e \<noteq> p" "tree_path E user (entry_path e) = Inr l"
          "strict_prefix [users_dir, h] l" using old by blast
      then have rmr: "remove_tree_entry E user (entry_path e) w2 = (r3, w3)" using w3 by simp
      have "journal E user h s0 w2" using rep by blast
      from remove_tree_entry_run [OF E this e(3,4) rmr] show ?thesis using e by (cases r3) simp_all
    next
      case False
      then have "r3 = Inr () \<and> w3 = w2" using w3 by (auto simp: act_simps split: option.splits)
      then show ?thesis using rep False by (auto simp: same_rest_def split: option.splits)
    qed
    show ?thesis
    proof (cases r3)
      case (Inl e)
      then have "r = Inl e" "w' = w3" using run w1(1) w2 w3 Inr by (auto simp: bindS_def)
      then show ?thesis using rep rm w1(3) by (auto simp: same_rest_def)
    next
      case r3: (Inr u)
      obtain w4 where w4: "?cl w3 = (Inr (), w4)" "journal E user h s0 w4" "w_db w4 = w_db w3" "w_fs w4 = w_fs w3"
      proof (cases existing)
        case None
        then show thesis using that rm by (auto simp: act_simps)
      next
        case (Some e)
        let ?c = "CleanObject [objects_dir, h, object_id e]"
        have "?cl w3 = (Inr (), w3\<lparr>w_cleanup := w_cleanup w3 @ [?c]\<rparr>)"
          using Some by (simp add: env_ok_roots [OF E] push_cleanup_def)
        moreover have "journal E user h s0 (w3\<lparr>w_cleanup := w_cleanup w3 @ [?c]\<rparr>)"
          using rm by (auto simp: journal_def clean_ok_def)
        ultimately show thesis using that by simp
      qed
      have r: "r = Inr (e_uuid E (w_uuids w))" "w' = w4"
        using run w1(1) w2 w3 w4(1) Inr r3 by (auto simp: bindS_def act_simps)
      have "fm (w_fs w') q = put_files (fm (w_fs w)) ?obj ?i tgt
              (case existing of None \<Rightarrow> None
               | Some e \<Rightarrow> if entry_path e = p then None
                   else Some (projr (tree_path E user (entry_path e)))) q" if "\<not> backup_loc q" for q
        using rep rm r3 Inr r w4(4) w1(5) that by (auto simp: put_files_def split: option.splits)
      then show ?thesis using rep rm r3 Inr r w4 w1 by (simp add: same_rest_def)
    qed
  qed
qed

end
