(* ===== verification/Apply.thy ===== *)
theory Apply
  imports Journal
begin

text \<open>
  The operations of a submission keep the store complete: every row of the user is backed by a
  file of the tree with the row's digest, and the journal can undo what has been done.
\<close>

section \<open>The catalogue of one user\<close>

definition ident :: "entry_row \<Rightarrow> str \<times> str \<times> str" where
  "ident r = (row_user r, row_writer r, entry_source_key r)"

definition path_key :: "entry_row \<Rightarrow> str \<times> str" where
  "path_key r = (row_user r, entry_path r)"

text \<open>The table's constraints: \<open>UNIQUE(user_id, writer_id, source_key)\<close> and the primary key.\<close>

definition keys_ok :: "entry_row list \<Rightarrow> bool" where
  "keys_ok rows \<longleftrightarrow> distinct (map ident rows) \<and> distinct (map path_key rows)"

lemma same_source_ident: "same_source user writer sk r \<longleftrightarrow> ident r = (user, writer, sk)"
  by (auto simp: same_source_def ident_def)

lemma same_source_eq: "same_source user writer sk = (\<lambda>r. ident r = (user, writer, sk))"
  by (simp add: fun_eq_iff same_source_ident)

lemma find_ident:
  assumes "distinct (map ident rows)"
  shows "List.find (\<lambda>r. ident r = c) rows = Some r \<longleftrightarrow> r \<in> set rows \<and> ident r = c"
  using assms
proof (induction rows)
  case (Cons x rows)
  then show ?case by (auto simp: image_iff)
qed simp

lemma find_ident_None: "List.find (\<lambda>r. ident r = c) rows = None \<longleftrightarrow> (\<forall>r \<in> set rows. ident r \<noteq> c)"
  by (auto simp: find_None_iff)

lemma row_by_source_key_Some:
  "keys_ok (entry_rows d) \<Longrightarrow> row_by_source_key user writer sk d = Some r \<longleftrightarrow>
     r \<in> set (entry_rows d) \<and> ident r = (user, writer, sk)"
  by (simp add: row_by_source_key_def same_source_eq find_ident keys_ok_def)

lemma row_by_source_key_None:
  "row_by_source_key user writer sk d = None \<longleftrightarrow> (\<forall>r \<in> set (entry_rows d). ident r \<noteq> (user, writer, sk))"
  by (simp add: row_by_source_key_def same_source_eq find_ident_None)

lemma entry_by_source_key_Some:
  assumes "keys_ok (entry_rows d)" "entry_by_source_key user writer sk d = Some e"
  obtains r where "r \<in> set (entry_rows d)" "ident r = (user, writer, sk)" "e = entry_from_row r"
    "row_by_source_key user writer sk d = Some r"
  using assms by (auto simp: entry_by_source_key_def row_by_source_key_Some)

lemma entry_from_row_simps [simp]:
  "entry_path (entry_from_row r) = entry_path r" "entry_source_key (entry_from_row r) = entry_source_key r"
  "content_hash (entry_from_row r) = content_hash r" "object_id (entry_from_row r) = object_id r"
  "size_bytes (entry_from_row r) = size_bytes r" "entry_line_count (entry_from_row r) = entry_line_count r" "created_at (entry_from_row r) = created_at r"
  by (simp_all add: entry_from_row_def entry.truncate_def)

lemma path_taken_iff:
  "path_taken user writer sk p d \<longleftrightarrow>
     (\<exists>r \<in> set (entry_rows d). path_key r = (user, p) \<and> ident r \<noteq> (user, writer, sk))"
  by (auto simp: path_taken_def list_ex_iff path_key_def same_source_ident)

text \<open>Changing the one row of a source keeps the keys apart, unless its new path is taken.\<close>

lemma distinct_update:
  assumes "distinct (map k rows)" "distinct (map ident rows)"
    and "\<And>r. r \<in> set rows \<Longrightarrow> ident r \<noteq> c \<Longrightarrow> k r \<noteq> v"
  shows "distinct (map (\<lambda>r. if ident r = c then v else k r) rows)"
  using assms
proof (induction rows)
  case (Cons x rows)
  let ?g = "\<lambda>r. if ident r = c then v else k r"
  have "?g x \<notin> ?g ` set rows"
  proof
    assume "?g x \<in> ?g ` set rows"
    then obtain r where r: "r \<in> set rows" "?g x = ?g r" by blast
    have "ident r \<noteq> ident x \<and> k r \<noteq> k x" using Cons(2,3) r(1) by (auto simp: image_iff)
    then show False using r Cons(4) [of r] Cons(4) [of x] by (auto split: if_splits)
  qed
  moreover have "distinct (map ?g rows)" using Cons by auto
  ultimately show ?case by simp
qed simp

lemma keys_ok_update:
  assumes "keys_ok rows" and f: "\<And>r. ident r = (user, writer, sk) \<Longrightarrow>
      ident (f r) = (user, writer, sk) \<and> path_key (f r) = (user, p)"
    and "\<And>r. r \<in> set rows \<Longrightarrow> path_key r = (user, p) \<Longrightarrow> ident r = (user, writer, sk)"
  shows "keys_ok (update_where (same_source user writer sk) f rows)"
proof -
  let ?c = "(user, writer, sk)"
  have i: "map ident (update_where (same_source user writer sk) f rows) = map ident rows"
    using f by (auto simp: update_where_def same_source_ident)
  have "map path_key (update_where (same_source user writer sk) f rows)
      = map (\<lambda>r. if ident r = ?c then (user, p) else path_key r) rows"
    using f by (auto simp: update_where_def same_source_ident)
  then show ?thesis using distinct_update [of path_key rows ?c "(user, p)"] assms i by (auto simp: keys_ok_def)
qed

lemma keys_ok_append:
  assumes "keys_ok rows" "\<And>r. r \<in> set rows \<Longrightarrow> ident r \<noteq> ident n \<and> path_key r \<noteq> path_key n"
  shows "keys_ok (rows @ [n])"
  using assms by (fastforce simp: keys_ok_def)

lemma keys_ok_delete: "keys_ok rows \<Longrightarrow> keys_ok (delete_where P rows)"
  by (auto simp: keys_ok_def delete_where_def distinct_map intro: inj_on_subset)

lemma set_delete_where: "set (delete_where P rows) = {r \<in> set rows. \<not> P r}"
  by (auto simp: delete_where_def)

section \<open>Complete stores\<close>

text \<open>The location of a logical path in the tree of the user with digest \<open>h\<close>.\<close>

definition tree_at :: "str \<Rightarrow> str \<Rightarrow> loc" where
  "tree_at h p = users_dir # h # projr (tree_components p)"

definition good_path :: "str \<Rightarrow> bool" where
  "good_path p \<longleftrightarrow> valid_path p \<and> (\<exists>cs. tree_components p = Inr cs)"

lemma tree_path_good:
  assumes "env_ok E user h" "good_path p"
  shows "tree_path E user p = Inr (tree_at h p)"
  using assms by (auto simp: good_path_def tree_at_def env_ok_roots)

lemma tree_path_Inr:
  "env_ok E user h \<Longrightarrow> valid_path p \<Longrightarrow> tree_path E user p = Inr l \<Longrightarrow> good_path p \<and> l = tree_at h p"
  by (auto simp: good_path_def tree_at_def env_ok_roots)

lemma tree_at_below: "good_path p \<Longrightarrow> strict_prefix [users_dir, h] (tree_at h p)"
proof -
  assume "good_path p"
  then obtain cs where "tree_components p = Inr cs" "cs \<noteq> []" using tree_components_not_Nil by (auto simp: good_path_def)
  then show ?thesis by (cases cs) (simp_all add: tree_at_def strict_prefix_two)
qed

lemma tree_at_live: "good_path p \<Longrightarrow> live_loc h (tree_at h p)"
  by (simp add: live_loc_def tree_at_below)

lemma tree_at_inj: "good_path p \<Longrightarrow> good_path q \<Longrightarrow> tree_at h p = tree_at h q \<Longrightarrow> p = q"
  using tree_components_inj by (auto simp: good_path_def tree_at_def)

text \<open>A row is backed by a file at its location whose contents have the row's digest.\<close>

definition backed :: "env \<Rightarrow> str \<Rightarrow> fs \<Rightarrow> entry_row \<Rightarrow> bool" where
  "backed E h s r \<longleftrightarrow>
     (\<exists>i. fm s (tree_at h (entry_path r)) = Some i \<and> content_hash r = sha256 E (idata s i))"

definition rows_ok :: "env \<Rightarrow> str \<Rightarrow> str \<Rightarrow> db \<Rightarrow> fs \<Rightarrow> bool" where
  "rows_ok E user h d s \<longleftrightarrow> keys_ok (entry_rows d) \<and>
     (\<forall>r \<in> set (entry_rows d). row_user r = user \<longrightarrow> good_path (entry_path r) \<and> backed E h s r)"

lemma rows_okD:
  assumes "rows_ok E user h d s" "r \<in> set (entry_rows d)" "row_user r = user"
  shows "good_path (entry_path r)" "backed E h s r"
  using assms by (auto simp: rows_ok_def)

text \<open>The state of a submission between two operations.\<close>

definition working :: "env \<Rightarrow> str \<Rightarrow> str \<Rightarrow> fs \<Rightarrow> world \<Rightarrow> bool" where
  "working E user h s0 w \<longleftrightarrow> journal E user h s0 w \<and> rows_ok E user h (w_db w) (w_fs w)"

lemma journal_ignores:
  "journal E user h s0 (w\<lparr>w_db := d\<rparr>) = journal E user h s0 w"
  "journal E user h s0 (w\<lparr>w_clock := c\<rparr>) = journal E user h s0 w"
  by (simp_all add: journal_def)

lemma journal_now: "now E w = (r, w') \<Longrightarrow> journal E user h s0 w \<Longrightarrow> journal E user h s0 w'"
  by (auto simp: now_def journal_def)

section \<open>Put\<close>

lemma upsert_keys:
  assumes k: "keys_ok (entry_rows d)" and up: "upsert_entry n d = Inr d'"
  shows "keys_ok (entry_rows d')"
proof -
  have c: "ident n = (row_user n, row_writer n, entry_source_key n)" by (simp add: ident_def)
  have free: "ident r = ident n" if "r \<in> set (entry_rows d)" "path_key r = path_key n" for r
    using up that by (auto simp: upsert_entry_def Let_def path_taken_iff c path_key_def split: if_splits)
  show ?thesis
  proof (cases "row_by_source_key (row_user n) (row_writer n) (entry_source_key n) d")
    case None
    then have d': "d' = d\<lparr>entry_rows := entry_rows d @ [n]\<rparr>" and
        fresh: "\<And>r. r \<in> set (entry_rows d) \<Longrightarrow> ident r \<noteq> ident n"
      using up by (auto simp: upsert_entry_def Let_def row_by_source_key_None c split: if_splits)
    have "keys_ok (entry_rows d @ [n])" using keys_ok_append [OF k] fresh free by blast
    then show ?thesis by (simp add: d')
  next
    case (Some r0)
    let ?rows = "update_where (same_source (row_user n) (row_writer n) (entry_source_key n))
        (\<lambda>r. n\<lparr>created_at := created_at r\<rparr>) (entry_rows d)"
    have d': "d' = d\<lparr>entry_rows := ?rows\<rparr>"
      using up Some by (auto simp: upsert_entry_def Let_def split: if_splits)
    have "keys_ok ?rows"
    proof (rule keys_ok_update [OF k])
      show "ident r = (row_user n, row_writer n, entry_source_key n)"
        if "r \<in> set (entry_rows d)" "path_key r = (row_user n, entry_path n)" for r
        using free [OF that(1)] that(2) by (simp add: c path_key_def)
    qed (auto simp: ident_def path_key_def)
    then show ?thesis by (simp add: d')
  qed
qed

lemma keys_ok_update_entry:
  assumes keys: "keys_ok (entry_rows d)" and up: "update_entry user writer sk p f d = Inr d'"
    and f: "\<And>r. ident (f r) = ident r"
  shows "keys_ok (entry_rows d')"
proof (cases "row_by_source_key user writer sk d")
  case None
  then have "d' = d" using up
    by (auto simp: update_entry_def update_where_def row_by_source_key_None same_source_ident map_idI)
  then show ?thesis using keys by simp
next
  case (Some r0)
  have fi: "ident ((f r)\<lparr>entry_path := p\<rparr>) = ident r" for r using f [of r] by (simp add: ident_def)
  have uu: "row_user (f r) = user" if "ident r = (user, writer, sk)" for r
    using f [of r] that by (simp add: ident_def)
  have free: "\<not> path_taken user writer sk p d" and
      d': "d' = d\<lparr>entry_rows := update_where (same_source user writer sk) (\<lambda>r. (f r)\<lparr>entry_path := p\<rparr>) (entry_rows d)\<rparr>"
    using up Some by (auto simp: update_entry_def split: if_splits)
  then show ?thesis
    using fi uu by (simp, intro keys_ok_update [OF keys]) (auto simp: path_taken_iff path_key_def)
qed

lemma upsert_rows:
  assumes k: "keys_ok (entry_rows d)" and n: "row_user n = user" "good_path (entry_path n)" "backed E h s n"
    and others: "\<And>r. r \<in> set (entry_rows d) \<Longrightarrow> row_user r = user \<Longrightarrow> ident r \<noteq> ident n \<Longrightarrow>
      entry_path r \<noteq> entry_path n \<Longrightarrow> good_path (entry_path r) \<and> backed E h s r"
    and up: "upsert_entry n d = Inr d'"
  shows "rows_ok E user h d' s"
proof -
  let ?same = "same_source (row_user n) (row_writer n) (entry_source_key n)"
  have c: "ident n = (row_user n, row_writer n, entry_source_key n)" by (simp add: ident_def)
  have keys: "keys_ok (entry_rows d')" using upsert_keys [OF k up] .
  have free: "ident r = ident n" if "r \<in> set (entry_rows d)" "path_key r = path_key n" for r
    using up that by (auto simp: upsert_entry_def Let_def path_taken_iff c path_key_def split: if_splits)
  have oth: "good_path (entry_path r) \<and> backed E h s r"
    if "r \<in> set (entry_rows d)" "row_user r = user" "ident r \<noteq> ident n" for r
    using others [OF that] free [OF that(1)] that n(1) by (auto simp: path_key_def)
  show ?thesis
  proof (cases "row_by_source_key (row_user n) (row_writer n) (entry_source_key n) d")
    case None
    then have d': "d' = d\<lparr>entry_rows := entry_rows d @ [n]\<rparr>" and
        fresh: "\<And>r. r \<in> set (entry_rows d) \<Longrightarrow> ident r \<noteq> ident n"
      using up by (auto simp: upsert_entry_def Let_def row_by_source_key_None c split: if_splits)
    then show ?thesis using n oth keys by (auto simp: rows_ok_def d')
  next
    case (Some r0)
    let ?f = "\<lambda>r. n\<lparr>created_at := created_at r\<rparr>"
    have d': "d' = d\<lparr>entry_rows := update_where ?same ?f (entry_rows d)\<rparr>"
      using up Some by (auto simp: upsert_entry_def Let_def split: if_splits)
    have "keys_ok (update_where ?same ?f (entry_rows d))" using keys by (simp add: d')
    moreover have "good_path (entry_path r) \<and> backed E h s r"
      if r: "r \<in> set (update_where ?same ?f (entry_rows d))" "row_user r = user" for r
    proof -
      obtain q where q: "q \<in> set (entry_rows d)" "r = (if ?same q then ?f q else q)"
        using r(1) by (auto simp: set_update_where)
      show ?thesis
      proof (cases "?same q")
        case True
        then show ?thesis using q n by (simp add: backed_def)
      next
        case False
        then show ?thesis using q r(2) oth by (simp add: same_source_ident c)
      qed
    qed
    ultimately show ?thesis by (simp add: rows_ok_def d')
  qed
qed

text \<open>The row of a source, and the others, under a change of the tree.\<close>

lemma backed_cong:
  assumes "backed E h s r" "fm t (tree_at h (entry_path r)) = fm s (tree_at h (entry_path r))"
    and "\<And>i. fm s (tree_at h (entry_path r)) = Some i \<Longrightarrow> idata t i = idata s i"
  shows "backed E h t r"
  using assms by (auto simp: backed_def)

lemma other_path:
  assumes "keys_ok rows" "r \<in> set rows" "r0 \<in> set rows" "ident r \<noteq> ident r0" "row_user r = row_user r0"
  shows "entry_path r \<noteq> entry_path r0"
proof
  assume "entry_path r = entry_path r0"
  then have "path_key r = path_key r0" using assms by (simp add: path_key_def)
  then have "r = r0" using assms(1-3) by (auto simp: keys_ok_def distinct_map dest: inj_onD)
  then show False using assms(4) by simp
qed

lemma rename_tree_entry_run:
  assumes E: "env_ok E user h" and J: "journal E user h s0 w"
    and p: "good_path p" "valid_path q" "p \<noteq> q" and fi: "fm (w_fs w) (tree_at h p) = Some i"
    and run: "rename_tree_entry E user p q w = (r, w')"
  shows "journal E user h s0 w' \<and> same_rest w w' \<and>
    (case r of Inl e \<Rightarrow> True
     | Inr _ \<Rightarrow> good_path q \<and> (\<forall>l. \<not> backup_loc l \<longrightarrow>
         fm (w_fs w') l = ((fm (w_fs w))(tree_at h p := None, tree_at h q \<mapsto> i)) l))"
proof (cases "tree_path E user q")
  case (Inl e)
  then have "r = Inl e" "w' = w"
    using run tree_path_good [OF E p(1)] by (auto simp: rename_tree_entry_def act_simps)
  then show ?thesis using J by (simp add: same_rest_def)
next
  case (Inr l)
  then have q: "good_path q" "tree_path E user q = Inr (tree_at h q)" using tree_path_Inr [OF E p(2)] by auto
  then have run': "rename_tree_file E user (tree_at h p) (tree_at h q) w = (r, w')"
    using run tree_path_good [OF E p(1)] by (simp add: rename_tree_entry_def)
  have ne: "tree_at h p \<noteq> tree_at h q" using tree_at_inj p q by blast
  have nd: "look (w_fs w) (tree_at h p) \<noteq> Some Dir" using fi by (simp add: fm_Some_iff)
  show ?thesis
    using rename_tree_file_run [OF E J tree_at_live [OF p(1)] tree_at_live [OF q(1)] _ ne nd run']
      tree_at_below [OF q(1)] q fi by (auto split: sum.splits)
qed

lemma rows_ok_frame:
  assumes ok: "rows_ok E user h d s"
    and t: "\<And>r i. r \<in> set (entry_rows d) \<Longrightarrow> row_user r = user \<Longrightarrow> fm s (tree_at h (entry_path r)) = Some i \<Longrightarrow>
      fm t (tree_at h (entry_path r)) = Some i \<and> idata t i = idata s i"
  shows "rows_ok E user h d t"
  unfolding rows_ok_def
proof (intro conjI ballI impI)
  fix r assume r: "r \<in> set (entry_rows d)" "row_user r = user"
  obtain i where "fm s (tree_at h (entry_path r)) = Some i" "content_hash r = sha256 E (idata s i)"
    using rows_okD(2) [OF ok r] by (auto simp: backed_def)
  then show "backed E h t r" using t [OF r] by (auto simp: backed_def)
  show "good_path (entry_path r)" using rows_okD(1) [OF ok r] .
qed (use ok in \<open>simp add: rows_ok_def\<close>)

lemma put_tree_run:
  assumes E: "env_ok E user h" and w: "working E user h s0 w" and p: "valid_path p"
    and ex: "entry_by_source_key user writer sk (w_db w) = existing"
    and run: "put_tree E user p data existing w = (r, w')"
  shows "journal E user h s0 w' \<and> w_db w' = w_db w \<and>
    (case r of Inl e \<Rightarrow> True
     | Inr _ \<Rightarrow> good_path p \<and> (\<exists>i. fm (w_fs w') (tree_at h p) = Some i \<and> sha256 E (idata (w_fs w') i) = sha256 E data) \<and>
         (\<forall>q \<in> set (entry_rows (w_db w)). row_user q = user \<longrightarrow> ident q \<noteq> (user, writer, sk) \<longrightarrow> entry_path q \<noteq> p \<longrightarrow>
            backed E h (w_fs w') q))"
proof -
  let ?s = "w_fs w" and ?d = "w_db w"
  have J: "journal E user h s0 w" and rows: "rows_ok E user h ?d ?s" using w by (auto simp: working_def)
  have keys: "keys_ok (entry_rows ?d)" using rows by (simp add: rows_ok_def)
  have wf: "wf_fs ?s" using J by (simp add: journal_def fs_ok_def)
  have nb: "\<not> backup_loc (tree_at h q)" if "good_path q" for q using live_not_backup tree_at_live that by blast
  have put: ?thesis if run: "put_object E user p data existing w = (r, w')"
  proof (cases "tree_path E user p")
    case (Inl e)
    obtain w1 where wo: "write_object E user data w = (Inr (e_uuid E (w_uuids w), [objects_dir, h, e_uuid E (w_uuids w)]), w1)"
      "journal E user h s0 w1" "w_db w1 = w_db w"
      by (rule write_object_run [OF E J, of data]) (rule that)
    then have "r = Inl e" "w' = w1"
      using run Inl by (auto simp: put_object_def bindS_def replace_tree_path_error)
    then show ?thesis using wo by simp
  next
    case (Inr l)
    then have g: "good_path p" "tree_path E user p = Inr (tree_at h p)" using tree_path_Inr [OF E p] by auto
    have old: "\<exists>l. tree_path E user (entry_path e) = Inr l \<and> strict_prefix [users_dir, h] l"
      if e: "existing = Some e" "entry_path e \<noteq> p" for e
    proof -
      obtain r0 where "r0 \<in> set (entry_rows ?d)" "ident r0 = (user, writer, sk)" "e = entry_from_row r0"
        by (rule entry_by_source_key_Some [OF keys trans [OF ex e(1)]]) (rule that)
      then show ?thesis using rows_okD(1) [OF rows] tree_path_good [OF E] tree_at_below by (auto simp: ident_def)
    qed
    note run' = put_object_run [OF E J g(2) tree_at_below [OF g(1)] old run]
    show ?thesis
    proof (cases r)
      case r: (Inr oid)
      let ?i = "next_ino ?s"
      let ?old = "case existing of None \<Rightarrow> None
               | Some e \<Rightarrow> if entry_path e = p then None else Some (projr (tree_path E user (entry_path e)))"
      have f: "fm (w_fs w') q = put_files (fm ?s) [objects_dir, h, oid] ?i (tree_at h p) ?old q" if "\<not> backup_loc q" for q
        using run' r that by auto
      have d: "idata (w_fs w') = (idata ?s)(?i := data)" using run' r by simp
      have obj: "tree_at h q \<noteq> [objects_dir, h, oid]" for q by (simp add: tree_at_def)
      have oldp: "l = tree_at h (entry_path e) \<and> good_path (entry_path e) \<and>
          (\<exists>r0 \<in> set (entry_rows ?d). ident r0 = (user, writer, sk) \<and> entry_path r0 = entry_path e) \<and> entry_path e \<noteq> p"
        if e: "?old = Some l" "existing = Some e" for l e
      proof -
        obtain r0 where r0: "r0 \<in> set (entry_rows ?d)" "ident r0 = (user, writer, sk)" "e = entry_from_row r0"
          by (rule entry_by_source_key_Some [OF keys trans [OF ex e(2)]]) (rule that)
        then have "good_path (entry_path e)" using rows_okD(1) [OF rows] by (auto simp: ident_def)
        then show ?thesis using e r0 tree_path_good [OF E] by (auto split: if_splits)
      qed
      have "fm (w_fs w') (tree_at h p) = Some ?i"
      proof (cases ?old)
        case (Some l)
        then obtain e where e: "existing = Some e" by (cases existing) auto
        have "tree_at h p \<noteq> l" using oldp [OF Some e] tree_at_inj [OF _ g(1), of "entry_path e" h] by auto
        then show ?thesis using f [OF nb [OF g(1)]] Some by (simp add: put_files_def)
      qed (use f [OF nb [OF g(1)]] in \<open>simp add: put_files_def\<close>)
      moreover have "backed E h (w_fs w') q"
        if q: "q \<in> set (entry_rows ?d)" "row_user q = user" "ident q \<noteq> (user, writer, sk)" "entry_path q \<noteq> p" for q
      proof (rule backed_cong [OF rows_okD(2) [OF rows q(1,2)]])
        have gq: "good_path (entry_path q)" using rows_okD(1) [OF rows q(1,2)] .
        have ne: "tree_at h (entry_path q) \<noteq> tree_at h p" using tree_at_inj [OF gq g(1)] q(4) by blast
        have "?old \<noteq> Some (tree_at h (entry_path q))"
        proof
          assume o: "?old = Some (tree_at h (entry_path q))"
          then obtain e where e: "existing = Some e" by (cases existing) auto
          from oldp [OF o e] obtain r0 where r0: "r0 \<in> set (entry_rows ?d)" "ident r0 = (user, writer, sk)"
              "entry_path r0 = entry_path q" using tree_at_inj gq by metis
          have "row_user r0 = user" using r0(2) by (simp add: ident_def)
          then show False using other_path [OF keys q(1) r0(1)] q(2,3) r0(2,3) by simp
        qed
        then show "fm (w_fs w') (tree_at h (entry_path q)) = fm ?s (tree_at h (entry_path q))"
          using f [OF nb [OF gq]] ne obj by (auto simp: put_files_def split: option.splits)
        show "idata (w_fs w') i = idata ?s i" if "fm ?s (tree_at h (entry_path q)) = Some i" for i
          using d wf_ino [OF wf that] by simp
      qed
      ultimately show ?thesis using run' r g d by auto
    qed (use run' in simp)
  qed
  show ?thesis
  proof (cases "\<exists>e. existing = Some e \<and> content_hash e = sha256 E data")
    case False
    then have "put_object E user p data existing w = (r, w')"
      using run by (auto simp: put_tree_def split: option.splits if_splits)
    then show ?thesis by (rule put)
  next
    case True
    then obtain e where e: "existing = Some e" "content_hash e = sha256 E data" by blast
    then obtain r0 where r0: "r0 \<in> set (entry_rows ?d)" "ident r0 = (user, writer, sk)" "e = entry_from_row r0"
      using entry_by_source_key_Some [OF keys, of user writer sk e] ex by metis
    have g0: "good_path (entry_path r0)" and "backed E h ?s r0" and u0: "row_user r0 = user"
      using rows_okD [OF rows r0(1)] r0(2) by (auto simp: ident_def)
    then obtain i where i: "fm ?s (tree_at h (entry_path r0)) = Some i" "sha256 E (idata ?s i) = sha256 E data"
      using e(2) r0(3) by (auto simp: backed_def)
    show ?thesis
    proof (cases "entry_path r0 = p")
      case True
      then have "w' = w" "r = Inr (object_id e)" using run e r0(3) by (auto simp: put_tree_def act_simps)
      then show ?thesis using J True g0 i rows_okD(2) [OF rows] by auto
    next
      case False
      obtain r1 w1 where ren: "rename_tree_entry E user (entry_path r0) p w = (r1, w1)" by force
      note rn = rename_tree_entry_run [OF E J g0 p False i(1) ren]
      have r: "(case r1 of Inl x \<Rightarrow> r = Inl x | Inr _ \<Rightarrow> r = Inr (object_id e)) \<and> w' = w1"
        using run e r0(3) False ren by (auto simp: put_tree_def bindS_def act_simps split: sum.splits)
      show ?thesis
      proof (cases r1)
        case (Inr u)
        have f: "fm (w_fs w') l = ((fm ?s)(tree_at h (entry_path r0) := None, tree_at h p \<mapsto> i)) l"
          if "\<not> backup_loc l" for l using rn r Inr that by auto
        have g: "good_path p" using rn Inr by simp
        have "backed E h (w_fs w') q"
          if q: "q \<in> set (entry_rows ?d)" "row_user q = user" "ident q \<noteq> (user, writer, sk)" "entry_path q \<noteq> p" for q
        proof (rule backed_cong [OF rows_okD(2) [OF rows q(1,2)]])
          have gq: "good_path (entry_path q)" using rows_okD(1) [OF rows q(1,2)] .
          have "entry_path q \<noteq> entry_path r0" using other_path [OF keys q(1) r0(1)] q(2,3) r0(2) u0 by simp
          then have "tree_at h (entry_path q) \<noteq> tree_at h p" "tree_at h (entry_path q) \<noteq> tree_at h (entry_path r0)"
            using tree_at_inj gq g g0 q(4) by blast+
          then show "fm (w_fs w') (tree_at h (entry_path q)) = fm ?s (tree_at h (entry_path q))"
            using f [OF nb [OF gq]] by simp
        qed (use rn r in \<open>simp add: same_rest_def\<close>)
        then show ?thesis using rn r Inr g f [OF nb [OF g]] i by (simp add: same_rest_def)
      qed (use rn r in \<open>simp add: same_rest_def\<close>)
    qed
  qed
qed

definition safe_act :: "env \<Rightarrow> str \<Rightarrow> str \<Rightarrow> fs \<Rightarrow> (world, 'a) act \<Rightarrow> bool" where
  "safe_act E user h s0 m \<longleftrightarrow> hoare (working E user h s0) m (\<lambda>_. working E user h s0) (\<lambda>_. journal E user h s0)"

lemma working_now: "hoare (working E user h s0) (now E) (\<lambda>_. working E user h s0) R"
  by (auto intro!: hoareI simp: now_def working_def journal_def)

lemma working_readE:
  "hoare (working E user h s0) (readE f) (\<lambda>x w. working E user h s0 w \<and> f (w_db w) = Inr x) (\<lambda>_. journal E user h s0)"
  by (auto intro!: hoareI simp: readE_def working_def)

lemma on_dbE_run: "on_dbE f w = (r, w') \<Longrightarrow>
  (case f (w_db w) of Inl e \<Rightarrow> r = Inl e \<and> w' = w | Inr d \<Rightarrow> r = Inr () \<and> w' = w\<lparr>w_db := d\<rparr>)"
  by (auto simp: on_dbE_def split: sum.splits)

lemma put_op_safe:
  assumes E: "env_ok E user h"
  shows "safe_act E user h s0 (put_op E user writer op)"
proof -
  let ?rest = "\<lambda>p. bindS (readE (require_authorized_path user writer p)) (\<lambda>_.
     bindS (liftE (normalize_text (put_text op))) (\<lambda>body. bindS (liftE (utf8_encode body)) (\<lambda>data.
     bindS (now E) (\<lambda>t. bindS (gets (\<lambda>w. entry_by_source_key user writer (put_source_key op) (w_db w)))
     (\<lambda>existing. bindS (put_tree E user p data existing) (\<lambda>oid.
     on_dbE (upsert_entry (put_entry_row user writer op p body data (sha256 E data) oid
        (case existing of Some e \<Rightarrow> created_at e | None \<Rightarrow> t) t))))))))"
  have rest: "hoare (\<lambda>w. working E user h s0 w \<and> valid_path p) (?rest p) (\<lambda>_. working E user h s0)
      (\<lambda>_. journal E user h s0)" for p
  proof -
  let ?W = "\<lambda>w. working E user h s0 w \<and> valid_path p"
  let ?J = "\<lambda>_ :: exn. journal E user h s0"
  have read: "hoare ?W (readE f) (\<lambda>_. ?W) ?J" for f :: "db \<Rightarrow> 'b res"
    by (auto intro!: hoareI simp: readE_def working_def)
  have lift: "hoare ?W (liftE v) (\<lambda>_. ?W) ?J" for v :: "'c res"
    by (auto intro!: hoare_liftE simp: working_def)
  have clock: "hoare ?W (now E) (\<lambda>_. ?W) ?J"
    by (auto intro!: hoareI simp: now_def working_def journal_def)
  have last: "hoare ?W (bindS (gets (\<lambda>w. entry_by_source_key user writer (put_source_key op) (w_db w))) (\<lambda>existing.
     bindS (put_tree E user p data existing) (\<lambda>oid.
     on_dbE (upsert_entry (put_entry_row user writer op p body data (sha256 E data) oid
        (case existing of Some e \<Rightarrow> created_at e | None \<Rightarrow> t) t)))))
      (\<lambda>_. working E user h s0) ?J" for body data t
  proof (unfold hoare_def, intro allI impI)
    fix w :: world and r w'
    let ?ex = "entry_by_source_key user writer (put_source_key op) (w_db w)"
    let ?n = "\<lambda>oid. put_entry_row user writer op p body data (sha256 E data) oid
        (case ?ex of Some e \<Rightarrow> created_at e | None \<Rightarrow> t) t"
    assume w: "?W w" and run: "bindS (gets (\<lambda>w. entry_by_source_key user writer (put_source_key op) (w_db w)))
       (\<lambda>existing. bindS (put_tree E user p data existing) (\<lambda>oid.
         on_dbE (upsert_entry (put_entry_row user writer op p body data (sha256 E data) oid
          (case existing of Some e \<Rightarrow> created_at e | None \<Rightarrow> t) t)))) w = (r, w')"
    obtain r1 w1 where t: "put_tree E user p data ?ex w = (r1, w1)" by force
    note tree = put_tree_run [OF E conjunct1 [OF w] conjunct2 [OF w] refl t]
    have run': "bindS (put_tree E user p data ?ex) (\<lambda>oid. on_dbE (upsert_entry (?n oid))) w = (r, w')"
      using run by (simp add: bindS_gets_modify)
    show "case r of Inl e \<Rightarrow> journal E user h s0 w' | Inr _ \<Rightarrow> working E user h s0 w'"
    proof (cases r1)
      case (Inl e)
      then show ?thesis using run' t tree by (auto simp: bindS_def)
    next
      case (Inr oid)
      then have "on_dbE (upsert_entry (?n oid)) w1 = (r, w')" using run' t by (simp add: bindS_def)
      note up = on_dbE_run [OF this]
      show ?thesis
      proof (cases "upsert_entry (?n oid) (w_db w1)")
        case (Inl e)
        then show ?thesis using up tree by simp
      next
        case d: (Inr d)
        then have r: "r = Inr ()" "w' = w1\<lparr>w_db := d\<rparr>" using up by auto
        have n: "row_user (?n oid) = user" "entry_path (?n oid) = p" "content_hash (?n oid) = sha256 E data"
            "ident (?n oid) = (user, writer, put_source_key op)"
          by (simp_all add: put_entry_row_def ident_def)
        have keys: "keys_ok (entry_rows (w_db w1))" using w tree by (simp add: working_def rows_ok_def)
        have "rows_ok E user h d (w_fs w1)"
        proof (rule upsert_rows [OF keys n(1) _ _ _ d])
          show "backed E h (w_fs w1) (?n oid)" using tree Inr by (auto simp: backed_def n)
          show "good_path (entry_path q) \<and> backed E h (w_fs w1) q"
            if "q \<in> set (entry_rows (w_db w1))" "row_user q = user" "ident q \<noteq> ident (?n oid)"
              "entry_path q \<noteq> entry_path (?n oid)" for q
            using that tree Inr w n by (auto simp: working_def rows_ok_def)
        qed (use tree Inr n in simp)
        then show ?thesis using r tree by (simp add: working_def journal_ignores)
      qed
    qed
  qed
  show ?thesis
    by (intro hoare_bindS [OF read] hoare_bindS [OF lift] hoare_bindS [OF clock] last)
  qed
  have "hoare (working E user h s0) (liftE (normalize_path (put_path op)))
      (\<lambda>p w. working E user h s0 w \<and> valid_path p) (\<lambda>_. journal E user h s0)"
    by (rule hoare_liftE) (auto simp: working_def)
  from hoare_bindS [OF this rest] show ?thesis by (simp add: safe_act_def put_op_def)
qed

lemma rows_ok_delete:
  assumes "rows_ok E user h d s"
  shows "rows_ok E user h (delete_entry user' writer sk d) s"
  using assms by (auto simp: rows_ok_def delete_entry_def keys_ok_delete set_delete_where)

lemma delete_op_safe:
  assumes E: "env_ok E user h"
  shows "safe_act E user h s0 (delete_op E user writer op)"
  unfolding safe_act_def hoare_def
proof (intro allI impI)
  fix w r w' assume w: "working E user h s0 w" and run: "delete_op E user writer op w = (r, w')"
  let ?sk = "delete_source_key op" and ?d = "w_db w"
  have run': "(case entry_by_source_key user writer ?sk ?d of None \<Rightarrow> ret () | Some e \<Rightarrow>
      bindS (readE (require_authorized_path user writer (entry_path e))) (\<lambda>_.
      bindS (remove_tree_entry E user (entry_path e)) (\<lambda>_. on_db (delete_entry user writer ?sk)))) w = (r, w')"
    using run by (simp add: delete_op_def bindS_gets_modify)
  have J: "journal E user h s0 w" and rows: "rows_ok E user h ?d (w_fs w)" using w by (auto simp: working_def)
  have keys: "keys_ok (entry_rows ?d)" using rows by (simp add: rows_ok_def)
  show "case r of Inl e \<Rightarrow> journal E user h s0 w' | Inr _ \<Rightarrow> working E user h s0 w'"
  proof (cases "entry_by_source_key user writer ?sk ?d")
    case None
    then show ?thesis using run' w by (auto simp: act_simps)
  next
    case (Some e)
    obtain r0 where r0: "r0 \<in> set (entry_rows ?d)" "ident r0 = (user, writer, ?sk)" "e = entry_from_row r0"
      by (rule entry_by_source_key_Some [OF keys Some]) (rule that)
    have u0: "row_user r0 = user" using r0(2) by (simp add: ident_def)
    have g0: "good_path (entry_path r0)" using rows_okD(1) [OF rows r0(1) u0] .
    show ?thesis
    proof (cases "require_authorized_path user writer (entry_path e) ?d")
      case (Inl x)
      then have "r = Inl x" "w' = w" using run' Some by (simp_all add: bindS_def readE_def)
      then show ?thesis using J by simp
    next
      case (Inr u)
      obtain r1 w1 where rm: "remove_tree_entry E user (entry_path e) w = (r1, w1)" by force
      have e: "entry_path e = entry_path r0" using r0(3) by simp
      note rmv = remove_tree_entry_run [OF E J tree_path_good [OF E g0] tree_at_below [OF g0] rm [unfolded e]]
      show ?thesis
      proof (cases r1)
        case (Inl x)
        then show ?thesis using run' Some Inr rm rmv by (auto simp: bindS_def readE_def)
      next
        case r1: (Inr v)
        then have r: "r = Inr ()" "w' = w1\<lparr>w_db := delete_entry user writer ?sk (w_db w1)\<rparr>"
          using run' Some Inr rm by (auto simp: bindS_def readE_def on_db_def)
        have "rows_ok E user h (delete_entry user writer ?sk ?d) (w_fs w1)"
        proof (rule rows_ok_frame [OF rows_ok_delete [OF rows]])
          fix q i assume q: "q \<in> set (entry_rows (delete_entry user writer ?sk ?d))" "row_user q = user"
            "fm (w_fs w) (tree_at h (entry_path q)) = Some i"
          then have q': "q \<in> set (entry_rows ?d)" "ident q \<noteq> ident r0"
            using r0(2) by (auto simp: delete_entry_def set_delete_where same_source_ident)
          have gq: "good_path (entry_path q)" using rows_okD(1) [OF rows q'(1) q(2)] .
          have "entry_path q \<noteq> entry_path r0" using other_path [OF keys q'(1) r0(1) q'(2)] q(2) u0 by simp
          then have "tree_at h (entry_path q) \<noteq> tree_at h (entry_path r0)" using tree_at_inj gq g0 by blast
          moreover have "\<not> backup_loc (tree_at h (entry_path q))" using live_not_backup tree_at_live gq by blast
          ultimately show "fm (w_fs w1) (tree_at h (entry_path q)) = Some i \<and> idata (w_fs w1) i = idata (w_fs w) i"
            using rmv r1 q(3) by (simp add: same_rest_def)
        qed
        then show ?thesis using r rmv by (simp add: working_def journal_ignores same_rest_def)
      qed
    qed
  qed
qed

lemma upsert_decision_entries [simp]: "entry_rows (upsert_decision n d) = entry_rows d"
  by (simp add: upsert_decision_def Let_def)

lemma decision_op_safe: "safe_act E user h s0 (decision_op E user writer op)"
  unfolding safe_act_def decision_op_def
  apply (intro hoare_bindS [where Q = "\<lambda>_. working E user h s0"] working_now hoare_gets)
  apply (auto intro!: hoare_liftE hoareI simp: working_def readE_def act_simps on_db_def journal_ignores rows_ok_def
      split: option.splits)
  done

section \<open>Moves\<close>

definition parked_loc :: "loc \<Rightarrow> bool" where
  "parked_loc q \<longleftrightarrow> (\<exists>x. q = [undo_dir, lit ''cycle'' @ lit ''-'' @ x])"

text \<open>
  The state inside a batch of moves. \<open>G\<close> says where the file of each source is: at the location of
  its row's path, or parked, which only the sources in \<open>R\<close>, still to be moved, may be.
\<close>

definition moving :: "env \<Rightarrow> str \<Rightarrow> str \<Rightarrow> db \<Rightarrow> fs \<Rightarrow> (str \<times> str \<times> str \<Rightarrow> loc) \<Rightarrow> (str \<times> str \<times> str) set \<Rightarrow> bool" where
  "moving E user h d s G R \<longleftrightarrow> keys_ok (entry_rows d) \<and>
     inj_on G (ident ` {r \<in> set (entry_rows d). row_user r = user}) \<and>
     (\<forall>r \<in> set (entry_rows d). row_user r = user \<longrightarrow>
        (\<exists>i. fm s (G (ident r)) = Some i \<and> content_hash r = sha256 E (idata s i)) \<and>
        (good_path (entry_path r) \<and> G (ident r) = tree_at h (entry_path r)
         \<or> ident r \<in> R \<and> parked_loc (G (ident r))))"

lemma parked_live: "parked_loc q \<Longrightarrow> live_loc h q"
  by (auto simp: parked_loc_def live_loc_def)

lemma tree_not_parked: "parked_loc q \<Longrightarrow> q \<noteq> tree_at h p"
  by (auto simp: parked_loc_def tree_at_def)

lemma movingD:
  assumes "moving E user h d s G R" "r \<in> set (entry_rows d)" "row_user r = user"
  shows "\<exists>i. fm s (G (ident r)) = Some i \<and> content_hash r = sha256 E (idata s i)"
    "good_path (entry_path r) \<and> G (ident r) = tree_at h (entry_path r) \<or> ident r \<in> R \<and> parked_loc (G (ident r))"
    "live_loc h (G (ident r))"
  using assms parked_live tree_at_live unfolding moving_def by metis+

lemma moving_inj:
  assumes "moving E user h d s G R" "r \<in> set (entry_rows d)" "row_user r = user"
    "q \<in> set (entry_rows d)" "row_user q = user" "G (ident r) = G (ident q)"
  shows "ident r = ident q"
proof -
  have "inj_on G (ident ` {r \<in> set (entry_rows d). row_user r = user})" using assms(1) by (simp add: moving_def)
  then show ?thesis using assms(2-6) by (auto dest!: inj_onD)
qed

lemma moving_start:
  assumes "rows_ok E user h d s"
  obtains G where "moving E user h d s G R"
    "\<And>r. r \<in> set (entry_rows d) \<Longrightarrow> row_user r = user \<Longrightarrow> G (ident r) = tree_at h (entry_path r)"
proof -
  have keys: "keys_ok (entry_rows d)" using assms by (simp add: rows_ok_def)
  let ?G = "\<lambda>c. tree_at h (entry_path (the (List.find (\<lambda>r. ident r = c) (entry_rows d))))"
  have G: "?G (ident r) = tree_at h (entry_path r)" if "r \<in> set (entry_rows d)" for r
  proof -
    have "List.find (\<lambda>q. ident q = ident r) (entry_rows d) = Some r"
      using keys that by (simp add: find_ident keys_ok_def)
    then show ?thesis by simp
  qed
  have "inj_on ?G (ident ` {r \<in> set (entry_rows d). row_user r = user})"
  proof (rule inj_onI)
    fix x y assume x: "x \<in> ident ` {r \<in> set (entry_rows d). row_user r = user}"
      and y: "y \<in> ident ` {r \<in> set (entry_rows d). row_user r = user}" and eq: "?G x = ?G y"
    from x y obtain r q where r: "r \<in> set (entry_rows d)" "row_user r = user" "x = ident r"
      and q: "q \<in> set (entry_rows d)" "row_user q = user" "y = ident q" by blast
    have "entry_path r = entry_path q"
      using eq G [OF r(1)] G [OF q(1)] tree_at_inj [OF rows_okD(1) [OF assms r(1,2)] rows_okD(1) [OF assms q(1,2)]]
      by (simp add: r(3) q(3))
    then show "x = y" using other_path [OF keys r(1) q(1)] r q by auto
  qed
  moreover have "\<exists>i. fm s (?G (ident r)) = Some i \<and> content_hash r = sha256 E (idata s i)"
    if "r \<in> set (entry_rows d)" "row_user r = user" for r
    using rows_okD(2) [OF assms that] G [OF that(1)] by (simp add: backed_def)
  ultimately have "moving E user h d s ?G R"
    using keys G rows_okD(1) [OF assms] unfolding moving_def by blast
  then show thesis using that G by blast
qed

lemma moving_end:
  assumes "moving E user h d s G {}"
  shows "rows_ok E user h d s"
  using assms by (auto simp: moving_def rows_ok_def backed_def)

text \<open>Moving the file of one source: the other sources keep theirs.\<close>

lemma moving_rename:
  assumes m: "moving E user h d s G R" and r: "r \<in> set (entry_rows d)" "row_user r = user"
    and i: "fm s (G (ident r)) = Some i"
    and t: "\<And>q. \<not> backup_loc q \<Longrightarrow> fm t q = ((fm s)(G (ident r) := None, l \<mapsto> i)) q" "idata t = idata s"
    and l: "live_loc h l" "\<And>q. q \<in> set (entry_rows d) \<Longrightarrow> row_user q = user \<Longrightarrow> ident q \<noteq> ident r \<Longrightarrow> G (ident q) \<noteq> l"
    and q: "q \<in> set (entry_rows d)" "row_user q = user"
  shows "\<exists>j. fm t ((G(ident r := l)) (ident q)) = Some j \<and> content_hash q = sha256 E (idata t j)"
    and "inj_on (G(ident r := l)) (ident ` {r \<in> set (entry_rows d). row_user r = user})"
proof -
  have keys: "keys_ok (entry_rows d)" using m by (simp add: moving_def)
  show "\<exists>j. fm t ((G(ident r := l)) (ident q)) = Some j \<and> content_hash q = sha256 E (idata t j)"
  proof (cases "ident q = ident r")
    case True
    then have "q = r" using keys q r by (auto simp: keys_ok_def distinct_map dest: inj_onD)
    then show ?thesis using movingD(1) [OF m r] i t(1) [of l] live_not_backup [OF l(1)] t(2) by auto
  next
    case False
    have "G (ident q) \<noteq> G (ident r)" using moving_inj [OF m q r] False by blast
    moreover have "\<not> backup_loc (G (ident q))" using movingD(3) [OF m q] live_not_backup by blast
    ultimately show ?thesis using movingD(1) [OF m q] t l(2) [OF q False] False by auto
  qed
  show "inj_on (G(ident r := l)) (ident ` {r \<in> set (entry_rows d). row_user r = user})"
  proof (rule inj_onI)
    fix x y assume x: "x \<in> ident ` {r \<in> set (entry_rows d). row_user r = user}"
      and y: "y \<in> ident ` {r \<in> set (entry_rows d). row_user r = user}"
      and eq: "(G(ident r := l)) x = (G(ident r := l)) y"
    from x y obtain a b where ab: "a \<in> set (entry_rows d)" "row_user a = user" "x = ident a"
      "b \<in> set (entry_rows d)" "row_user b = user" "y = ident b" by blast
    show "x = y"
      using ab eq moving_inj [OF m, of a b] l(2) [of a] l(2) [of b] by (auto split: if_splits)
  qed
qed

definition parked_at :: "str \<Rightarrow> (str \<times> loc \<times> str) list \<Rightarrow> str \<Rightarrow> loc" where
  "parked_at h temps p = (case map_of temps p of Some (l, _) \<Rightarrow> l | None \<Rightarrow> tree_at h p)"

lemma map_of_update: "map_of (AList.update k v al) = (map_of al)(k \<mapsto> v)"
  by (simp add: update_conv' fun_eq_iff)

lemma break_cycles_run:
  assumes E: "env_ok E user h" and J: "journal E user h s0 w"
    and m: "moving E user h (w_db w) (w_fs w) G R"
    and G: "\<And>r. r \<in> set (entry_rows (w_db w)) \<Longrightarrow> row_user r = user \<Longrightarrow> G (ident r) = parked_at h temps (entry_path r)"
    and L: "\<And>p l. map_of locations p = Some l \<Longrightarrow> l = parked_at h temps p \<and>
      (\<exists>r \<in> set (entry_rows (w_db w)). row_user r = user \<and> entry_path r = p \<and> ident r \<in> R)"
    and T: "distinct (map fst temps)" "\<And>p l q. map_of temps p = Some (l, q) \<Longrightarrow> parked_loc l"
    and run: "break_cycles E user dests cycles locations temps w = (r, w')"
  shows "journal E user h s0 w' \<and> w_db w' = w_db w \<and>
    (\<forall>temps'. r = Inr temps' \<longrightarrow> (\<exists>G'. moving E user h (w_db w) (w_fs w') G' R \<and>
       (\<forall>r \<in> set (entry_rows (w_db w)). row_user r = user \<longrightarrow> G' (ident r) = parked_at h temps' (entry_path r)) \<and>
       distinct (map fst temps') \<and> (\<forall>p l q. map_of temps' p = Some (l, q) \<longrightarrow> parked_loc l)))"
  using J m G L T run
proof (induction cycles arbitrary: locations temps w G)
  case Nil
  then have "r = Inr temps" "w' = w" by (auto simp: act_simps)
  then show ?case using Nil by blast
next
  case (Cons cycle cycles)
  note run = Cons.prems(7)
  show ?case
  proof (cases "lookup_key dests (hd cycle)")
    case (Inl e)
    then have "r = Inl e" "w' = w" using run by (auto simp: act_simps)
    then show ?thesis using Cons.prems by simp
  next
    case sp: (Inr p)
    show ?thesis
    proof (cases "lookup_key locations p")
      case (Inl e)
      then have "r = Inl e" "w' = w" using run sp by (auto simp: act_simps)
      then show ?thesis using Cons.prems by simp
    next
      case sl: (Inr l)
      then have ml: "map_of locations p = Some l" by (auto simp: lookup_key_def split: option.splits)
      then obtain r0 where r0: "r0 \<in> set (entry_rows (w_db w))" "row_user r0 = user" "entry_path r0 = p" "ident r0 \<in> R"
        and l: "l = parked_at h temps p" using Cons.prems(4) by blast
      then have Gl: "G (ident r0) = l" using Cons.prems(3) by simp
      obtain i where i: "fm (w_fs w) l = Some i" using movingD(1) [OF Cons.prems(2) r0(1,2)] Gl by auto
      then have ex: "fs_exists (w_fs w) l" by (simp add: fs_exists_def fm_Some_iff)
      let ?k = "w_uuids w"
      let ?temp = "[undo_dir, lit ''cycle'' @ lit ''-'' @ e_uuid E ?k]"
      have ok: "fs_ok E h ?k (w_fs w)" using Cons.prems(1) by (simp add: journal_def)
      obtain s1 where s1: "undo_path E ''cycle'' w = (Inr ?temp, w\<lparr>w_fs := s1, w_uuids := Suc ?k\<rparr>)"
        "wf_fs s1" "fm s1 = fm (w_fs w)" "idata s1 = idata (w_fs w)" "next_ino s1 = next_ino (w_fs w)"
        "look s1 [undo_dir] = Some Dir" "\<And>q. look s1 q = Some Dir \<longleftrightarrow> look (w_fs w) q = Some Dir \<or> q = [undo_dir]"
        by (rule undo_path_run [OF refl refl ok, of "''cycle''"]) (rule that)
      let ?w1 = "w\<lparr>w_fs := s1, w_uuids := Suc (Suc ?k)\<rparr>"
      have inj: "inj (e_uuid E)" using E by (simp add: env_ok_def)
      have wf: "wf_fs (w_fs w)" using ok by (simp add: fs_ok_def)
      have "fs_ok E h (Suc (Suc ?k)) s1" by (rule fs_ok_grow_dirs [OF inj ok s1(2) _ s1(3)]) (use s1(7) in auto)
      moreover have "fle [users_dir, h] s1 (w_fs w)"
        by (rule fle_grow_dirs [OF wf s1(2,3,4)]) (use s1(7) in auto)
      ultimately have J1: "journal E user h s0 ?w1" by (intro journal_same [OF Cons.prems(1)]) auto
      have ut: "uuid_loc E h ?k ?temp" by (auto simp: uuid_loc_def)
      have pt: "parked_loc ?temp" by (auto simp: parked_loc_def)
      have t0: "look (w_fs w) ?temp = None" using ok ut by (auto simp: fs_ok_def)
      then have ne: "l \<noteq> ?temp" using i by (auto simp: fm_Some_iff)
      have live: "live_loc h l" using movingD(3) [OF Cons.prems(2) r0(1,2)] Gl by simp
      obtain r1 w2 where ren: "rename_tree_file E user l ?temp ?w1 = (r1, w2)" by force
      have tgt: "strict_prefix [users_dir, h] ?temp \<or> (\<exists>n < w_uuids ?w1. uuid_loc E h n ?temp)"
        using ut less_Suc_eq by auto
      have nd: "look (w_fs ?w1) l \<noteq> Some Dir" using i s1(3) fm_None_iff [of s1 l] by auto
      note rn = rename_tree_file_run [OF E J1 live parked_live [OF pt] tgt ne nd ren]
      let ?locs = "AList.update p ?temp locations"
      let ?temps = "AList.update p (?temp, lit ''_ctxfs_cycle/'' @ e_uuid E (Suc ?k)) temps"
      have run1: "(case r1 of Inl e \<Rightarrow> r = Inl e \<and> w' = w2
          | Inr _ \<Rightarrow> break_cycles E user dests cycles ?locs ?temps w2 = (r, w'))"
        using run sp sl ex s1(1) ren by (auto simp: bindS_def act_simps fresh_uuid_def split: sum.splits)
      show ?thesis
      proof (cases r1)
        case (Inl e)
        then show ?thesis using run1 rn by (auto simp: same_rest_def)
      next
        case (Inr u)
        then have d: "w_db w2 = w_db w" "idata (w_fs w2) = idata (w_fs w)" "journal E user h s0 w2"
          and f: "\<And>q. \<not> backup_loc q \<Longrightarrow> fm (w_fs w2) q = ((fm (w_fs w))(G (ident r0) := None, ?temp \<mapsto> i)) q"
          using rn s1(3,4) i Gl by (auto simp: same_rest_def)
        let ?G = "G(ident r0 := ?temp)"
        have free: "G (ident q) \<noteq> ?temp" if "q \<in> set (entry_rows (w_db w))" "row_user q = user" for q
          using movingD(1) [OF Cons.prems(2) that] t0 by (auto simp: fm_Some_iff)
        note mr = moving_rename [OF Cons.prems(2) r0(1,2) i [folded Gl] f d(2) parked_live [OF pt] free]
        have c1: "moving E user h (w_db w2) (w_fs w2) ?G R"
          unfolding moving_def d(1)
        proof (intro conjI ballI impI)
          show "keys_ok (entry_rows (w_db w))" using Cons.prems(2) by (simp add: moving_def)
          show "inj_on ?G (ident ` {r \<in> set (entry_rows (w_db w)). row_user r = user})" using mr(2) r0 by blast
          fix q assume q: "q \<in> set (entry_rows (w_db w))" "row_user q = user"
          show "\<exists>i. fm (w_fs w2) (?G (ident q)) = Some i \<and> content_hash q = sha256 E (idata (w_fs w2) i)"
            using mr(1) q by blast
          show "good_path (entry_path q) \<and> ?G (ident q) = tree_at h (entry_path q) \<or> ident q \<in> R \<and> parked_loc (?G (ident q))"
            using movingD(2) [OF Cons.prems(2) q] pt r0(4) by auto
        qed
        have c2: "?G (ident q) = parked_at h ?temps (entry_path q)"
          if q: "q \<in> set (entry_rows (w_db w2))" "row_user q = user" for q
        proof (cases "ident q = ident r0")
          case True
          have "keys_ok (entry_rows (w_db w))" using Cons.prems(2) by (simp add: moving_def)
          then have "q = r0" using True q r0 d(1) by (auto simp: keys_ok_def distinct_map dest: inj_onD)
          then show ?thesis using r0 by (simp add: parked_at_def map_of_update)
        next
          case False
          then have "entry_path q \<noteq> p"
            using other_path [of "entry_rows (w_db w)" q r0] Cons.prems(2) q r0 d(1) by (auto simp: moving_def)
          then show ?thesis using Cons.prems(3) q d(1) False by (simp add: parked_at_def map_of_update)
        qed
        have c3: "l' = parked_at h ?temps p' \<and>
            (\<exists>r \<in> set (entry_rows (w_db w2)). row_user r = user \<and> entry_path r = p' \<and> ident r \<in> R)"
          if "map_of ?locs p' = Some l'" for p' l'
          using that Cons.prems(4) [of p' l'] r0 d(1)
          by (auto simp: parked_at_def map_of_update split: if_splits)
        have c4: "distinct (map fst ?temps)" using Cons.prems(5) by (rule AList.distinct_update)
        have c5: "parked_loc l'" if "map_of ?temps p' = Some (l', q')" for p' l' q'
          using that Cons.prems(6) pt by (auto simp: map_of_update split: if_splits)
        have c6: "break_cycles E user dests cycles ?locs ?temps w2 = (r, w')" using run1 Inr by simp
        from Cons.IH [OF d(3) c1 c2 c3 c4 c5 c6] show ?thesis unfolding d(1) .
      qed
    qed
  qed
qed

text \<open>Updating the path of one source.\<close>

lemma update_entry_idents:
  assumes "update_entry user writer sk p f d = Inr d'" and "\<And>r. ident (f r) = ident r"
  shows "ident ` set (entry_rows d') = ident ` set (entry_rows d)"
proof -
  let ?g = "\<lambda>q. if same_source user writer sk q then (f q)\<lparr>entry_path := p\<rparr> else q"
  have "ident (?g q) = ident q" for q using assms(2) [of q] by (simp add: ident_def)
  then have "ident ` ?g ` set (entry_rows d) = ident ` set (entry_rows d)" by (simp only: image_image)
  moreover have "set (entry_rows d') = ?g ` set (entry_rows d)"
    using assms(1) set_update_where [of "same_source user writer sk"] by (auto simp: update_entry_def split: if_splits)
  ultimately show ?thesis by simp
qed

lemma moving_update:
  assumes keys: "keys_ok (entry_rows d)" and inj_G: "inj_on G (ident ` {r \<in> set (entry_rows d). row_user r = user})"
    and content: "\<And>r. r \<in> set (entry_rows d) \<Longrightarrow> row_user r = user \<Longrightarrow>
      \<exists>i. fm s (G (ident r)) = Some i \<and> content_hash r = sha256 E (idata s i)"
    and up: "update_entry user writer sk p f d = Inr d'"
    and f: "\<And>r. ident (f r) = ident r \<and> content_hash (f r) = content_hash r"
    and new: "good_path p \<and> G (user, writer, sk) = tree_at h p
      \<or> (user, writer, sk) \<in> R \<and> parked_loc (G (user, writer, sk))"
    and others: "\<And>r. r \<in> set (entry_rows d) \<Longrightarrow> row_user r = user \<Longrightarrow> ident r \<noteq> (user, writer, sk) \<Longrightarrow>
      good_path (entry_path r) \<and> G (ident r) = tree_at h (entry_path r) \<or> ident r \<in> R \<and> parked_loc (G (ident r))"
  shows "moving E user h d' s G R"
proof -
  let ?same = "same_source user writer sk"
  let ?f = "\<lambda>r. (f r)\<lparr>entry_path := p\<rparr>"
  have d': "d' = d\<lparr>entry_rows := update_where ?same ?f (entry_rows d)\<rparr>"
    using up by (auto simp: update_entry_def split: if_splits)
  have fi: "ident (?f r) = ident r" "content_hash (?f r) = content_hash r" for r
    using f [of r] by (simp_all add: ident_def)
  have keys': "keys_ok (entry_rows d')" by (rule keys_ok_update_entry [OF keys up]) (use f in blast)
  have rows: "\<exists>q \<in> set (entry_rows d). ident r = ident q \<and> content_hash r = content_hash q \<and>
      (r = q \<and> ident q \<noteq> (user, writer, sk) \<or> r = ?f q \<and> ident q = (user, writer, sk))"
    if rr: "r \<in> set (entry_rows d')" for r
  proof -
    have "r \<in> (\<lambda>q. if ?same q then ?f q else q) ` set (entry_rows d)" using rr by (simp add: d' set_update_where)
    then obtain q where q: "q \<in> set (entry_rows d)" "r = (if ?same q then ?f q else q)" by blast
    then show ?thesis using fi [of q] by (intro bexI [of _ q]) (auto simp: same_source_ident)
  qed
  have "ident ` {r \<in> set (entry_rows d'). row_user r = user} \<subseteq> ident ` {r \<in> set (entry_rows d). row_user r = user}"
  proof (rule subsetI)
    fix x assume "x \<in> ident ` {r \<in> set (entry_rows d'). row_user r = user}"
    then obtain r where r: "r \<in> set (entry_rows d')" "row_user r = user" "x = ident r" by blast
    obtain q where q: "q \<in> set (entry_rows d)" "ident r = ident q" using rows [OF r(1)] by blast
    then have "row_user q = user" using r(2) by (simp add: ident_def)
    then show "x \<in> ident ` {r \<in> set (entry_rows d). row_user r = user}" using q r(3) by auto
  qed
  then have inj: "inj_on G (ident ` {r \<in> set (entry_rows d'). row_user r = user})"
    using inj_G inj_on_subset by blast
  show "moving E user h d' s G R"
    unfolding moving_def
  proof (intro conjI ballI impI)
    show "keys_ok (entry_rows d')" by (rule keys')
    show "inj_on G (ident ` {r \<in> set (entry_rows d'). row_user r = user})" by (rule inj)
    fix r assume r: "r \<in> set (entry_rows d')" "row_user r = user"
    obtain q where q: "q \<in> set (entry_rows d)" "ident r = ident q" "content_hash r = content_hash q"
      "r = q \<and> ident q \<noteq> (user, writer, sk) \<or> r = ?f q \<and> ident q = (user, writer, sk)" using rows [OF r(1)] by blast
    have uq: "row_user q = user" using q(2) r(2) by (simp add: ident_def)
    show "\<exists>i. fm s (G (ident r)) = Some i \<and> content_hash r = sha256 E (idata s i)"
      using content [OF q(1) uq] q(2,3) by simp
    show "good_path (entry_path r) \<and> G (ident r) = tree_at h (entry_path r) \<or> ident r \<in> R \<and> parked_loc (G (ident r))"
      using q(4)
    proof
      assume "r = q \<and> ident q \<noteq> (user, writer, sk)"
      then show ?thesis using others [OF q(1) uq] by auto
    next
      assume a: "r = ?f q \<and> ident q = (user, writer, sk)"
      then have "entry_path r = p" by simp
      then show ?thesis using new a q(2) by auto
    qed
  qed
qed

lemma moving_db_cong: "moving E user h d s G R \<Longrightarrow> entry_rows d' = entry_rows d \<Longrightarrow> moving E user h d' s G R"
  by (simp add: moving_def)

lemma park_row_run:
  "park_row E user writer sk p w =
    (case update_entry user writer sk p (\<lambda>r. r\<lparr>updated_at := e_time E (w_clock w)\<rparr>) (w_db w) of
       Inl e \<Rightarrow> (Inl e, w\<lparr>w_clock := Suc (w_clock w)\<rparr>)
     | Inr d \<Rightarrow> (Inr (), w\<lparr>w_clock := Suc (w_clock w), w_db := d\<rparr>))"
  by (auto simp: park_row_def now_def bindS_def on_dbE_def split: sum.splits)

lemma park_rows_run:
  assumes J: "journal E user h s0 w" and m: "moving E user h (w_db w) (w_fs w) G R"
    and T: "\<And>old l p sk. (old, l, p) \<in> set temps \<Longrightarrow> map_of keys old = Some sk \<Longrightarrow>
      (user, writer, sk) \<in> R \<and> parked_loc (G (user, writer, sk))"
    and run: "forS temps (\<lambda>(old_path, _, temp_path).
       bindS (liftE (lookup_key keys old_path)) (\<lambda>sk. park_row E user writer sk temp_path)) w = (r, w')"
  shows "journal E user h s0 w' \<and> w_fs w' = w_fs w \<and>
    (r = Inr () \<longrightarrow> moving E user h (w_db w') (w_fs w') G R \<and>
      ident ` set (entry_rows (w_db w')) = ident ` set (entry_rows (w_db w)))"
  using J m T run
proof (induction temps arbitrary: w)
  case Nil
  then show ?case by (auto simp: act_simps)
next
  case (Cons t temps)
  obtain old l p where t: "t = (old, l, p)" by (cases t) auto
  show ?case
  proof (cases "map_of keys old")
    case None
    then have "r = Inl (KeyError ''key'')" "w' = w"
      using Cons.prems(4) t by (simp_all add: lookup_key_def raise_def bindS_def liftE_def)
    then show ?thesis using Cons.prems by simp
  next
    case (Some sk)
    then have R: "(user, writer, sk) \<in> R" "parked_loc (G (user, writer, sk))"
      using Cons.prems(3) [of old l p sk] t by auto
    let ?f = "\<lambda>r. r\<lparr>updated_at := e_time E (w_clock w)\<rparr>"
    let ?w1 = "w\<lparr>w_clock := Suc (w_clock w)\<rparr>"
    have run1: "(case update_entry user writer sk p ?f (w_db w) of Inl e \<Rightarrow> r = Inl e \<and> w' = ?w1
        | Inr d \<Rightarrow> forS temps (\<lambda>(old_path, _, temp_path).
            bindS (liftE (lookup_key keys old_path)) (\<lambda>sk. park_row E user writer sk temp_path)) (?w1\<lparr>w_db := d\<rparr>) = (r, w'))"
      using Cons.prems(4) unfolding t forS.simps prod.case
      by (simp add: lookup_key_def Some liftE_def bindS_def park_row_run split: sum.splits)
    have J1: "journal E user h s0 (?w1\<lparr>w_db := d\<rparr>)" for d
      using Cons.prems(1) by (simp add: journal_def)
    show ?thesis
    proof (cases "update_entry user writer sk p ?f (w_db w)")
      case (Inl e)
      then show ?thesis using run1 Cons.prems(1) by (auto simp: journal_def)
    next
      case (Inr d)
      have m1: "moving E user h d (w_fs w) G R"
        by (rule moving_update [OF _ _ movingD(1) [OF Cons.prems(2)] Inr])
          (use R Cons.prems(2) movingD(2) [OF Cons.prems(2)] in \<open>auto simp: ident_def moving_def\<close>)
      have m1': "moving E user h (w_db (?w1\<lparr>w_db := d\<rparr>)) (w_fs (?w1\<lparr>w_db := d\<rparr>)) G R" using m1 by simp
      have "journal E user h s0 w' \<and> w_fs w' = w_fs (?w1\<lparr>w_db := d\<rparr>) \<and>
          (r = Inr () \<longrightarrow> moving E user h (w_db w') (w_fs w') G R \<and>
            ident ` set (entry_rows (w_db w')) = ident ` set (entry_rows (w_db (?w1\<lparr>w_db := d\<rparr>))))"
      proof (rule Cons.IH [OF J1 m1'])
        show "(user, writer, sk) \<in> R \<and> parked_loc (G (user, writer, sk))"
          if "(old, l, p) \<in> set temps" "map_of keys old = Some sk" for old l p sk
          using Cons.prems(3) [of old l p sk] that by simp
      qed (use run1 Inr in simp)
      moreover have "ident ` set (entry_rows d) = ident ` set (entry_rows (w_db w))"
        by (rule update_entry_idents [OF Inr]) (simp add: ident_def)
      ultimately show ?thesis by auto
    qed
  qed
qed

text \<open>One move of the batch.\<close>

lemma move_one_run:
  assumes E: "env_ok E user h" and J: "journal E user h s0 w"
    and m: "moving E user h (w_db w) (w_fs w) G R"
    and e: "map_of by_source (move_source_key op) = Some e" "good_path (entry_path e)"
    and row: "\<exists>r \<in> set (entry_rows (w_db w)). ident r = (user, writer, move_source_key op)"
    and G: "G (user, writer, move_source_key op) = parked_at h temps (entry_path e)"
    and T: "\<forall>p l q. map_of temps p = Some (l, q) \<longrightarrow> parked_loc l"
    and ne: "normalize_path (move_path op) \<noteq> Inr (entry_path e)"
    and run: "move_one E user writer by_source temps op w = (r, w')"
  shows "journal E user h s0 w' \<and>
    (r = Inr () \<longrightarrow> (\<exists>l. moving E user h (w_db w') (w_fs w') (G((user, writer, move_source_key op) := l))
        (R - {(user, writer, move_source_key op)}) \<and>
      ident ` set (entry_rows (w_db w')) = ident ` set (entry_rows (w_db w))))"
proof (cases "normalize_path (move_path op)")
  case (Inl x)
  then have "r = Inl x" "w' = w" using run e by (auto simp: move_one_def move_file_def lookup_key_def act_simps)
  then show ?thesis using J by simp
next
  case (Inr p)
  then have p: "valid_path p" and nep: "entry_path e \<noteq> p" using ne by auto
  let ?sk = "move_source_key op" and ?c = "(user, writer, move_source_key op)"
  let ?f = "\<lambda>r. r\<lparr>source_version := move_source_version op, updated_at := e_time E (w_clock w)\<rparr>"
  obtain r0 where r0: "r0 \<in> set (entry_rows (w_db w))" "ident r0 = ?c" using row by blast
  then have u0: "row_user r0 = user" by (simp add: ident_def)
  obtain i where i: "fm (w_fs w) (G ?c) = Some i" using movingD(1) [OF m r0(1) u0] r0(2) by auto
  then have ex: "fs_exists (w_fs w) (G ?c)" by (simp add: fs_exists_def fm_Some_iff)
  have src: "(case map_of temps (entry_path e) of Some (temp, _) \<Rightarrow> Inr temp
      | None \<Rightarrow> tree_path E user (entry_path e)) = Inr (G ?c)"
    using G tree_path_good [OF E e(2)] by (auto simp: parked_at_def split: option.splits)
  show ?thesis
  proof (cases "tree_path E user p")
    case tpe: (Inl x)
    then have "r = Inl x" "w' = w"
      using run e Inr nep src by (auto simp: move_one_def move_file_def lookup_key_def act_simps bindS_def)
    then show ?thesis using J by simp
  next
    case tp: (Inr tgt)
    then have g: "good_path p" and tgt: "tgt = tree_at h p" using tree_path_Inr [OF E p] by auto
    have live: "live_loc h (G ?c)" "live_loc h tgt"
      using movingD(3) [OF m r0(1) u0] r0(2) tree_at_live [OF g] tgt by auto
    have nel: "G ?c \<noteq> tgt"
      using G T tree_not_parked tree_at_inj [OF e(2) g] nep
      by (auto simp: parked_at_def tgt split: option.splits)
    have nd: "look (w_fs w) (G ?c) \<noteq> Some Dir" using i by (simp add: fm_Some_iff)
    obtain r1 w1 where ren: "rename_tree_file E user (G ?c) tgt w = (r1, w1)" by force
    have below: "strict_prefix [users_dir, h] tgt \<or> (\<exists>n < w_uuids w. uuid_loc E h n tgt)"
      using tree_at_below [OF g] tgt by simp
    note rn = rename_tree_file_run [OF E J live below nel nd ren]
    have run1: "(case r1 of Inl x \<Rightarrow> r = Inl x \<and> w' = w1 | Inr _ \<Rightarrow>
        (case update_entry user writer ?sk p (\<lambda>r. r\<lparr>source_version := move_source_version op,
              updated_at := e_time E (w_clock w1)\<rparr>) (w_db w1) of
           Inl x \<Rightarrow> r = Inl x \<and> w' = w1\<lparr>w_clock := Suc (w_clock w1)\<rparr>
         | Inr d \<Rightarrow> r = Inr () \<and> w' = w1\<lparr>w_clock := Suc (w_clock w1), w_db := d\<rparr>))"
      using run e Inr nep src tp ex ren
      by (auto simp: move_one_def move_file_def lookup_key_def bindS_def act_simps now_def on_dbE_def split: sum.splits)
    show ?thesis
    proof (cases r1)
      case r1: (Inl x)
      then show ?thesis using run1 rn by simp
    next
      case r1: (Inr u)
      then have c: "w_clock w1 = w_clock w" and d1: "w_db w1 = w_db w" and
          f: "\<And>q. \<not> backup_loc q \<Longrightarrow> fm (w_fs w1) q = ((fm (w_fs w))(G (ident r0) := None, tgt \<mapsto> i)) q" and
          data: "idata (w_fs w1) = idata (w_fs w)"
        using rn i r0(2) by (auto simp: same_rest_def)
      show ?thesis
      proof (cases "update_entry user writer ?sk p ?f (w_db w)")
        case (Inl x)
        then show ?thesis using run1 r1 rn c d1 by (auto simp: journal_def)
      next
        case d: (Inr d)
        then have w': "w' = w1\<lparr>w_clock := Suc (w_clock w1), w_db := d\<rparr>" using run1 r1 c d1 by auto
        have "row_by_source_key user writer ?sk (w_db w) \<noteq> None" using r0 by (auto simp: row_by_source_key_None)
        then have free: "\<not> path_taken user writer ?sk p (w_db w)"
          using d by (auto simp: update_entry_def split: if_splits)
        have other: "G (ident q) \<noteq> tgt"
          if q: "q \<in> set (entry_rows (w_db w))" "row_user q = user" "ident q \<noteq> ident r0" for q
        proof
          assume eq: "G (ident q) = tgt"
          then have "good_path (entry_path q)" "tree_at h (entry_path q) = tree_at h p"
            using movingD(2) [OF m q(1,2)] tree_not_parked tgt by auto
          then have "entry_path q = p" using tree_at_inj g by blast
          then show False using free q r0(2) by (auto simp: path_taken_iff path_key_def)
        qed
        let ?G = "G(?c := tgt)"
        have mr: "\<exists>j. fm (w_fs w1) ((G(ident r0 := tgt)) (ident q)) = Some j \<and> content_hash q = sha256 E (idata (w_fs w1) j)"
            "inj_on (G(ident r0 := tgt)) (ident ` {r \<in> set (entry_rows (w_db w)). row_user r = user})"
          if "q \<in> set (entry_rows (w_db w))" "row_user q = user" for q
          by (rule moving_rename [OF m r0(1) u0 i [folded r0(2)] f data live(2) other that]; assumption)+
        have "moving E user h d (w_fs w1) ?G (R - {?c}) \<and> ident ` set (entry_rows d) = ident ` set (entry_rows (w_db w))"
        proof (intro conjI)
          show "ident ` set (entry_rows d) = ident ` set (entry_rows (w_db w))"
            by (rule update_entry_idents [OF d]) (simp add: ident_def)
          show "moving E user h d (w_fs w1) ?G (R - {?c})"
          proof (rule moving_update [OF _ _ _ d])
          show "keys_ok (entry_rows (w_db w))" using m by (simp add: moving_def)
          show "inj_on ?G (ident ` {r \<in> set (entry_rows (w_db w)). row_user r = user})"
            using mr(2) [OF r0(1) u0] r0(2) by simp
          show "\<exists>i. fm (w_fs w1) (?G (ident q)) = Some i \<and> content_hash q = sha256 E (idata (w_fs w1) i)"
            if "q \<in> set (entry_rows (w_db w))" "row_user q = user" for q
            using mr(1) [OF that] r0(2) by simp
          show "good_path (entry_path q) \<and> ?G (ident q) = tree_at h (entry_path q)
              \<or> ident q \<in> R - {?c} \<and> parked_loc (?G (ident q))"
            if "q \<in> set (entry_rows (w_db w))" "row_user q = user" "ident q \<noteq> ?c" for q
            using movingD(2) [OF m that(1,2)] that(3) by auto
          qed (use g tgt in \<open>simp_all add: ident_def\<close>)
        qed
        then show ?thesis using rn w' by (auto simp: journal_def)
      qed
    qed
  qed
qed

lemma fold_update_distinct:
  "distinct (map fst (ys @ xs)) \<Longrightarrow> fold (\<lambda>(k, v). AList.update k v) xs ys = ys @ xs"
proof (induction xs arbitrary: ys)
  case (Cons x xs)
  obtain k v where x: "x = (k, v)" by (cases x)
  have "AList.update k v ys = ys @ [x]" if "k \<notin> fst ` set ys"
    using that by (induction ys) (auto simp: x)
  then show ?case using Cons by (auto simp: x)
qed simp

lemma map_of_fold_update:
  "map_of (fold (\<lambda>x. AList.update (f x) (g x)) xs ys) k = Some v \<Longrightarrow>
    map_of ys k = Some v \<or> (\<exists>x \<in> set xs. k = f x \<and> v = g x)"
proof (induction xs arbitrary: ys)
  case (Cons x xs)
  then show ?case using Cons.IH [of "AList.update (f x) (g x) ys"] by (auto simp: map_of_update split: if_splits)
qed simp

lemma mapE_Inr_all2: "mapE f xs = Inr ys \<longleftrightarrow> list_all2 (\<lambda>x y. f x = Inr y) xs ys"
proof (induction xs arbitrary: ys)
  case Nil
  then show ?case by auto
next
  case (Cons x xs)
  then show ?case by (cases "f x"; cases "mapE f xs"; cases ys) auto
qed

lemma mapE_set:
  assumes "mapE f xs = Inr ys" "y \<in> set ys"
  obtains x where "x \<in> set xs" "f x = Inr y"
  using assms by (auto simp: mapE_Inr_all2 list_all2_conv_all_nth in_set_conv_nth) metis

text \<open>The loop of the batch.\<close>

definition self_move :: "str \<Rightarrow> str \<Rightarrow> db \<Rightarrow> move_operation \<Rightarrow> bool" where
  "self_move user writer d op \<longleftrightarrow>
     (case entry_by_source_key user writer (move_source_key op) d of
        None \<Rightarrow> False | Some e \<Rightarrow> normalize_path (move_path op) = Inr (entry_path e))"

lemma move_loop_run:
  assumes E: "env_ok E user h" and J: "journal E user h s0 w"
    and m: "moving E user h (w_db w) (w_fs w) G ((\<lambda>op. (user, writer, move_source_key op)) ` set ops)"
    and d: "distinct (map move_source_key ops)"
    and ops: "\<And>op. op \<in> set ops \<Longrightarrow> \<exists>e. map_of by_source (move_source_key op) = Some e \<and> good_path (entry_path e) \<and>
      (user, writer, move_source_key op) \<in> ident ` set (entry_rows (w_db w)) \<and>
      G (user, writer, move_source_key op) = parked_at h temps (entry_path e) \<and>
      normalize_path (move_path op) \<noteq> Inr (entry_path e)"
    and T: "\<forall>p l q. map_of temps p = Some (l, q) \<longrightarrow> parked_loc l"
    and run: "forS ops (move_one E user writer by_source temps) w = (r, w')"
  shows "journal E user h s0 w' \<and> (r = Inr () \<longrightarrow> working E user h s0 w')"
  using J m d ops run
proof (induction ops arbitrary: w G)
  case Nil
  then show ?case by (auto simp: act_simps working_def intro!: moving_end [of E user h _ _ G])
next
  case (Cons op ops)
  let ?c = "\<lambda>op. (user, writer, move_source_key op)"
  obtain e where e: "map_of by_source (move_source_key op) = Some e" "good_path (entry_path e)"
      "?c op \<in> ident ` set (entry_rows (w_db w))" "G (?c op) = parked_at h temps (entry_path e)"
      "normalize_path (move_path op) \<noteq> Inr (entry_path e)"
    using Cons.prems(4) [of op] by auto
  then have row: "\<exists>r \<in> set (entry_rows (w_db w)). ident r = ?c op" by force
  obtain r1 w1 where one: "move_one E user writer by_source temps op w = (r1, w1)" by force
  note run1 = move_one_run [OF E Cons.prems(1,2) e(1,2) row e(4) T e(5) one]
  show ?case
  proof (cases r1)
    case (Inl x)
    then have "r = Inl x" "w' = w1" using Cons.prems(5) one by (auto simp: bindS_def)
    then show ?thesis using run1 by simp
  next
    case (Inr u)
    obtain l where l: "moving E user h (w_db w1) (w_fs w1) (G(?c op := l)) (?c ` set (op # ops) - {?c op})"
        "ident ` set (entry_rows (w_db w1)) = ident ` set (entry_rows (w_db w))" "journal E user h s0 w1"
      using run1 Inr by auto
    have R: "?c ` set (op # ops) - {?c op} = ?c ` set ops"
      using Cons.prems(3) by (auto simp: image_iff)
    have rest: "forS ops (move_one E user writer by_source temps) w1 = (r, w')"
      using Cons.prems(5) one Inr by (simp add: bindS_def)
    show ?thesis
    proof (rule Cons.IH [OF l(3) l(1) [unfolded R] _ _ rest])
      show "\<exists>e. map_of by_source (move_source_key op') = Some e \<and> good_path (entry_path e) \<and>
        ?c op' \<in> ident ` set (entry_rows (w_db w1)) \<and>
        (G(?c op := l)) (?c op') = parked_at h temps (entry_path e) \<and>
        normalize_path (move_path op') \<noteq> Inr (entry_path e)" if "op' \<in> set ops" for op'
      proof -
        have "move_source_key op' \<noteq> move_source_key op" using that Cons.prems(3) by (auto simp: image_iff)
        then show ?thesis using Cons.prems(4) [of op'] that l(2) by simp
      qed
    qed (use Cons.prems(3) in simp)
  qed
qed

lemma validated_move_entry_Inr:
  assumes "keys_ok (entry_rows d)" "validated_move_entry user writer op d = Inr e"
  obtains r where "r \<in> set (entry_rows d)" "ident r = (user, writer, move_source_key op)" "e = entry_from_row r"
    "entry_by_source_key user writer (move_source_key op) d = Some e"
proof -
  have "entry_by_source_key user writer (move_source_key op) d = Some e"
    using assms(2) by (auto simp: validated_move_entry_def split: option.splits if_splits)
  then show thesis by (rule entry_by_source_key_Some [OF assms(1)]) (auto intro!: that simp: entry_by_source_key_def)
qed

lemma readE_run: "readE f w = (r, w') \<Longrightarrow> r = f (w_db w) \<and> w' = w"
  by (auto simp: readE_def)

lemma move_batch_run:
  assumes E: "env_ok E user h" and W: "working E user h s0 w"
    and d: "distinct (map move_source_key ops)"
    and ns: "\<And>op. op \<in> set ops \<Longrightarrow> \<not> self_move user writer (w_db w) op"
    and run: "move_batch E user writer ops w = (r, w')"
  shows "journal E user h s0 w' \<and> (r = Inr () \<longrightarrow> working E user h s0 w')"
proof (cases "ops = []")
  case True
  then show ?thesis using run W by (auto simp: move_batch_def act_simps working_def)
next
  case False
  let ?d = "w_db w" and ?c = "\<lambda>op. (user, writer, move_source_key op)"
  have J: "journal E user h s0 w" and rows: "rows_ok E user h ?d (w_fs w)" using W by (auto simp: working_def)
  have keys: "keys_ok (entry_rows ?d)" using rows by (simp add: rows_ok_def)
  let ?val = "mapE (\<lambda>op. bindE (validated_move_entry user writer op ?d) (\<lambda>e. Inr (move_source_key op, e))) ops"
  show ?thesis
  proof (cases ?val)
    case (Inl x)
    then have "r = Inl x" "w' = w" using run False by (auto simp: move_batch_def readE_def bindS_def)
    then show ?thesis using J by simp
  next
    case pairs: (Inr pairs)
    define by_source where "by_source = fold (\<lambda>(k, e). AList.update k e) pairs []"
    have pv: "list_all2 (\<lambda>op p. fst p = move_source_key op \<and> validated_move_entry user writer op ?d = Inr (snd p)) ops pairs"
      using pairs unfolding mapE_Inr_all2 by (rule list_all2_mono) auto
    then have fs: "map fst pairs = map move_source_key ops"
      by (induction rule: list_all2_induct) auto
    have bs: "by_source = pairs" using fs fold_update_distinct [of "[]" pairs] d by (simp add: by_source_def)
    have src: "\<exists>op r. op \<in> set ops \<and> k = move_source_key op \<and> r \<in> set (entry_rows ?d) \<and> ident r = ?c op \<and>
        e = entry_from_row r \<and> good_path (entry_path e) \<and> normalize_path (move_path op) \<noteq> Inr (entry_path e)"
      if ke: "(k, e) \<in> set by_source" for k e
    proof -
      obtain op where op: "op \<in> set ops" "k = move_source_key op" "validated_move_entry user writer op ?d = Inr e"
        by (rule mapE_set [OF pairs ke [unfolded bs]]) (auto intro!: that)
      obtain r where r: "r \<in> set (entry_rows ?d)" "ident r = ?c op" "e = entry_from_row r"
          "entry_by_source_key user writer (move_source_key op) ?d = Some e"
        by (rule validated_move_entry_Inr [OF keys op(3)]) (rule that)
      have "row_user r = user" using r(2) by (simp add: ident_def)
      then have "good_path (entry_path e)" using rows_okD(1) [OF rows r(1)] r(3) by simp
      then show ?thesis using op r ns [OF op(1)] by (auto simp: self_move_def)
    qed
    let ?locs = "mapE (\<lambda>(k, e). bindE (tree_path E user (entry_path e)) (\<lambda>l. Inr (entry_path e, l))) by_source"
    show ?thesis
    proof (cases ?locs)
      case (Inl x)
      then have "r = Inl x" "w' = w"
        using run False pairs by (auto simp: move_batch_def by_source_def readE_def bindS_def act_simps)
      then show ?thesis using J by simp
    next
      case locs: (Inr locs)
      let ?ds = "mapE (\<lambda>op. bindE (lookup_key by_source (move_source_key op)) (\<lambda>e.
                               bindE (normalize_path (move_path op)) (\<lambda>p. Inr (entry_path e, p)))) ops"
      show ?thesis
      proof (cases ?ds)
        case (Inl x)
        then have "r = Inl x" "w' = w"
          using run False pairs locs by (auto simp: move_batch_def by_source_def readE_def bindS_def act_simps)
        then show ?thesis using J by simp
      next
        case ds: (Inr ds)
        define locations where "locations = fold (\<lambda>(p, l). AList.update p l) locs []"
        define dests where "dests = fold (\<lambda>(p, q). AList.update p q) ds []"
        define keyp where "keyp = fold (\<lambda>(k, e). AList.update (entry_path e) k) by_source []"
        have run1: "bindS (break_move_cycles E user dests locations) (\<lambda>temps.
            bindS (forS temps (\<lambda>(old_path, _, temp_path).
               bindS (liftE (lookup_key keyp old_path)) (\<lambda>sk. park_row E user writer sk temp_path))) (\<lambda>_.
            forS ops (move_one E user writer by_source temps))) w = (r, w')"
        proof -
          have a: "readE (\<lambda>d. mapE (\<lambda>op. bindE (validated_move_entry user writer op d)
              (\<lambda>e. Inr (move_source_key op, e))) ops) w = (Inr pairs, w)" using pairs by (simp add: readE_def)
          have b: "liftE ?locs w = (Inr locs, w)" "liftE ?ds w = (Inr ds, w)" using locs ds by (simp_all add: liftE_def)
          note a' = bindS_Inr [where m = "readE _" and s = w, OF a]
          note b' = bindS_Inr [where m = "liftE _" and s = w, OF b(1)] bindS_Inr [where m = "liftE _" and s = w, OF b(2)]
          show ?thesis
            using run False
            by (simp only: move_batch_def Let_def if_False a' by_source_def [symmetric] b'
                locations_def [symmetric] dests_def [symmetric] keyp_def [symmetric])
        qed
        have src_loc: "\<exists>r \<in> set (entry_rows ?d). row_user r = user \<and> entry_path r = entry_path e \<and> ident r \<in> ?c ` set ops \<and>
            ident r = (user, writer, k)"
          if "(k, e) \<in> set by_source" for k e
          using src [OF that] by (auto simp: ident_def)
        have L: "l = parked_at h [] p \<and>
            (\<exists>r \<in> set (entry_rows ?d). row_user r = user \<and> entry_path r = p \<and> ident r \<in> ?c ` set ops)"
          if pl: "map_of locations p = Some l" for p l
        proof -
          have "(p, l) \<in> set locs"
            using map_of_fold_update [of fst snd locs "[]" p l] pl by (auto simp: locations_def split_def)
          then obtain k e where ke: "(k, e) \<in> set by_source" "tree_path E user (entry_path e) = Inr l" "p = entry_path e"
            by (rule mapE_set [OF locs]) (auto intro!: that)
          then have "good_path (entry_path e)" using src by blast
          then show ?thesis using ke src_loc [OF ke(1)] tree_path_good [OF E] by (auto simp: parked_at_def)
        qed
        obtain G where G: "moving E user h ?d (w_fs w) G (?c ` set ops)"
            "\<And>r. r \<in> set (entry_rows ?d) \<Longrightarrow> row_user r = user \<Longrightarrow> G (ident r) = tree_at h (entry_path r)"
          using moving_start [OF rows] by blast
        have G0: "G (ident r) = parked_at h [] (entry_path r)" if "r \<in> set (entry_rows ?d)" "row_user r = user" for r
          using G(2) [OF that] by (simp add: parked_at_def)
        obtain r1 w1 where br: "break_move_cycles E user dests locations w = (r1, w1)" by force
        have T0: "parked_loc l" if "map_of [] p = Some (l, q)" for p l q using that by simp
        note brk = break_cycles_run [OF E J G(1) G0 L _ T0 br [unfolded break_move_cycles_def]]
        show ?thesis
        proof (cases r1)
          case (Inl x)
          then have "r = Inl x" "w' = w1" using run1 br by (auto simp: bindS_def)
          then show ?thesis using brk by auto
        next
          case (Inr temps)
          then obtain G' where G': "moving E user h ?d (w_fs w1) G' (?c ` set ops)"
              "\<And>r. r \<in> set (entry_rows ?d) \<Longrightarrow> row_user r = user \<Longrightarrow> G' (ident r) = parked_at h temps (entry_path r)"
              "distinct (map fst temps)" "\<forall>p l q. map_of temps p = Some (l, q) \<longrightarrow> parked_loc l"
              "w_db w1 = ?d" "journal E user h s0 w1"
            using brk by auto
          have run2: "bindS (forS temps (\<lambda>(old_path, _, temp_path).
               bindS (liftE (lookup_key keyp old_path)) (\<lambda>sk. park_row E user writer sk temp_path))) (\<lambda>_.
            forS ops (move_one E user writer by_source temps)) w1 = (r, w')"
            using run1 br Inr by (simp add: bindS_def)
          have at: "G' (?c op) = parked_at h temps (entry_path e)"
            if ke: "(move_source_key op, e) \<in> set by_source" for op e
          proof -
            obtain r where "r \<in> set (entry_rows ?d)" "row_user r = user" "entry_path r = entry_path e" "ident r = ?c op"
              using src_loc [OF ke] by blast
            then show ?thesis using G'(2) by metis
          qed
          have T: "(user, writer, sk) \<in> ?c ` set ops \<and> parked_loc (G' (user, writer, sk))"
            if t: "(old, l, p) \<in> set temps" "map_of keyp old = Some sk" for old l p sk
          proof -
            obtain e where e: "(sk, e) \<in> set by_source" "old = entry_path e"
              using map_of_fold_update [of "entry_path \<circ> snd" fst by_source "[]" old sk] t(2)
              by (auto simp: keyp_def split_def)
            obtain op where op: "op \<in> set ops" "sk = move_source_key op" using src [OF e(1)] by blast
            have ml: "map_of temps old = Some (l, p)" using t(1) G'(3) by (simp add: map_of_eq_Some_iff)
            then have "parked_loc l" using G'(4) by blast
            then show ?thesis using at [of op e] e op ml by (auto simp: parked_at_def)
          qed
          obtain r2 w2 where pk: "forS temps (\<lambda>(old_path, _, temp_path).
               bindS (liftE (lookup_key keyp old_path)) (\<lambda>sk. park_row E user writer sk temp_path)) w1 = (r2, w2)"
            by force
          have park: "journal E user h s0 w2 \<and> w_fs w2 = w_fs w1 \<and>
              (r2 = Inr () \<longrightarrow> moving E user h (w_db w2) (w_fs w2) G' (?c ` set ops) \<and>
                ident ` set (entry_rows (w_db w2)) = ident ` set (entry_rows (w_db w1)))"
            by (rule park_rows_run [OF G'(6) G'(1) [folded G'(5)] _ pk]; rule T; assumption)
          show ?thesis
          proof (cases r2)
            case (Inl x)
            then have "r = Inl x" "w' = w2" using run2 pk by (auto simp: bindS_def)
            then show ?thesis using park by auto
          next
            case (Inr u)
            then have p: "moving E user h (w_db w2) (w_fs w2) G' (?c ` set ops)" "journal E user h s0 w2"
                "ident ` set (entry_rows (w_db w2)) = ident ` set (entry_rows ?d)"
              using park G'(5) by auto
            have run3: "forS ops (move_one E user writer by_source temps) w2 = (r, w')"
              using run2 pk Inr by (simp add: bindS_def)
            show ?thesis
            proof (rule move_loop_run [OF E p(2,1) d _ G'(4) run3])
              fix op assume op: "op \<in> set ops"
              have "fst ` set by_source = move_source_key ` set ops" using fs bs by (metis set_map)
              then obtain e where e: "(move_source_key op, e) \<in> set by_source" using op by force
              obtain op' r0 where o: "op' \<in> set ops" "move_source_key op = move_source_key op'" "r0 \<in> set (entry_rows ?d)"
                  "ident r0 = ?c op'" "good_path (entry_path e)" "normalize_path (move_path op') \<noteq> Inr (entry_path e)"
                using src [OF e] by blast
              have "inj_on move_source_key (set ops)" using d by (simp add: distinct_map)
              then have "op' = op" using o(1,2) op by (simp add: inj_on_eq_iff)
              moreover have "map_of by_source (move_source_key op) = Some e"
                using e d fs bs by (simp add: map_of_eq_Some_iff)
              moreover have "?c op \<in> ident ` set (entry_rows ?d)" using o(3) imageI [OF o(3), of ident] o(4) calculation(1) by simp
              ultimately show "\<exists>e. map_of by_source (move_source_key op) = Some e \<and> good_path (entry_path e) \<and>
                ?c op \<in> ident ` set (entry_rows (w_db w2)) \<and> G' (?c op) = parked_at h temps (entry_path e) \<and>
                normalize_path (move_path op) \<noteq> Inr (entry_path e)"
                using o(5,6) at [OF e] unfolding p(3) by (intro exI [of _ e]) simp
            qed
          qed
        qed
      qed
    qed
  qed
qed

end
