(* ===== verification/Submission.thy ===== *)
theory Submission
  imports Apply "HOL-Library.Multiset"
begin

text \<open>
  Whole submissions: the order the operations are applied in, the catalogue as the other writers
  see it, and what \<open>submit\<close> guarantees when it returns and when it raises.
\<close>

section \<open>Ordering the operations\<close>

text \<open>What \<open>visit\<close> keeps: the source keys placed are those of the moves placed, each once.\<close>

definition placed :: "move_operation set \<Rightarrow> str list \<Rightarrow> move_operation list \<Rightarrow> bool" where
  "placed M permanent ordered \<longleftrightarrow> set permanent = move_source_key ` set ordered \<and>
     distinct (map move_source_key ordered) \<and> set ordered \<subseteq> M"

lemma visit_placed:
  assumes "visit by_path temporary permanent ordered m = Inr (permanent', ordered')"
    and "placed M permanent ordered" "m \<in> M" "snd ` set by_path \<subseteq> M"
  shows "placed M permanent' ordered' \<and> set permanent \<subseteq> set permanent' \<and>
    set permanent' \<inter> set temporary \<subseteq> set permanent \<and>
    (move_source_key m \<in> set temporary \<or> move_source_key m \<in> set permanent')"
  using assms
proof (induction by_path temporary permanent ordered m arbitrary: permanent' ordered' rule: visit.induct)
  case (1 by_path temporary permanent ordered m)
  let ?k = "move_source_key m"
  show ?case
  proof (cases "?k \<in> set permanent \<or> ?k \<in> set temporary")
    case True
    then show ?thesis using "1.prems" by (subst (asm) visit.simps) (auto split: if_splits)
  next
    case False
    then obtain p where p: "normalize_path (move_path m) = Inr p"
      using "1.prems"(1) by (subst (asm) visit.simps) (auto simp: bindE_def split: sum.splits)
    show ?thesis
    proof (cases "\<exists>dep. map_of by_path p = Some dep \<and> move_source_key dep \<noteq> ?k")
      case True
      then obtain dep where dep: "map_of by_path p = Some dep" "move_source_key dep \<noteq> ?k" by blast
      then obtain pm om where r: "visit by_path (?k # temporary) permanent ordered dep = Inr (pm, om)"
          "permanent' = ?k # pm" "ordered' = om @ [m]"
        using "1.prems"(1) False p by (subst (asm) visit.simps) (auto simp: bindE_def split: sum.splits)
      have "dep \<in> M" using dep(1) "1.prems"(4) by (force dest: map_of_SomeD)
      then have IH: "placed M pm om \<and> set permanent \<subseteq> set pm \<and> set pm \<inter> set (?k # temporary) \<subseteq> set permanent"
        using "1.IH" [of p dep pm om] False p dep r(1) "1.prems" by simp
      then have "?k \<notin> set pm" using False by auto
      then show ?thesis using IH r "1.prems"(3) False by (auto simp: placed_def)
    next
      case none: False
      then have "permanent' = ?k # permanent" "ordered' = ordered @ [m]"
        using "1.prems"(1) False p by (subst (asm) visit.simps; auto split: option.splits if_splits)+
      then show ?thesis using "1.prems" False by (auto simp: placed_def)
    qed
  qed
qed

lemma visit_all_placed:
  assumes "visit_all by_path permanent ordered ms = Inr ordered'" "placed M permanent ordered"
    and "set ms \<subseteq> M" "snd ` set by_path \<subseteq> M"
  shows "\<exists>permanent'. placed M permanent' ordered' \<and> set permanent \<union> move_source_key ` set ms \<subseteq> set permanent'"
  using assms
proof (induction ms arbitrary: permanent ordered)
  case (Cons m ms)
  then obtain pm om where v: "visit by_path [] permanent ordered m = Inr (pm, om)"
      "visit_all by_path pm om ms = Inr ordered'"
    by (auto simp: bindE_def split: sum.splits)
  have p: "placed M pm om \<and> set permanent \<subseteq> set pm \<and> move_source_key m \<in> set pm"
    using visit_placed [OF v(1) Cons.prems(2)] Cons.prems(3,4) by auto
  then obtain permanent' where "placed M permanent' ordered'" "set pm \<union> move_source_key ` set ms \<subseteq> set permanent'"
    using Cons.IH [OF v(2)] Cons.prems(3,4) by auto
  then show ?case using p by (intro exI [of _ permanent']) auto
qed auto

lemma moves_by_path_sub: "snd ` set (moves_by_path writer ps moves) \<subseteq> set moves"
proof -
  have "snd ` set (fold (\<lambda>m d. case ps (writer, move_source_key m) of None \<Rightarrow> d | Some p \<Rightarrow> AList.update p m d) ms d)
      \<subseteq> snd ` set d \<union> set ms" for ms and d :: "(str \<times> move_operation) list"
  proof (induction ms arbitrary: d)
    case (Cons m ms)
    have "snd ` set (AList.update p m d) \<subseteq> insert m (snd ` set d)" for p
      by (induction d) auto
    then show ?case using Cons [of "case ps (writer, move_source_key m) of None \<Rightarrow> d | Some p \<Rightarrow> AList.update p m d"]
      by (cases "ps (writer, move_source_key m)") (simp_all add: subset_iff, blast+)
  qed simp
  from this [of moves "[]"] show ?thesis by (simp add: moves_by_path_def)
qed

lemma visit_all_perm:
  assumes "visit_all (moves_by_path writer ps moves) [] [] moves = Inr ordered"
    and "distinct (map move_source_key moves)"
  shows "mset ordered = mset moves"
proof -
  have "placed (set moves) [] []" by (simp add: placed_def)
  from visit_all_placed [OF assms(1) this _ moves_by_path_sub] obtain pm where
    pm: "placed (set moves) pm ordered" "move_source_key ` set moves \<subseteq> set pm" by auto
  have inj: "inj_on move_source_key (set moves)" using assms(2) by (simp add: distinct_map)
  have "set moves \<subseteq> set ordered"
  proof
    fix m assume m: "m \<in> set moves"
    then obtain m' where m': "m' \<in> set ordered" "move_source_key m = move_source_key m'"
      using pm by (auto simp: placed_def)
    then have "m = m'" using inj m pm(1) by (auto simp: placed_def dest: inj_onD)
    then show "m \<in> set ordered" using m'(1) by simp
  qed
  then have "set ordered = set moves" using pm(1) by (auto simp: placed_def)
  moreover have "distinct ordered" "distinct moves" using pm(1) assms(2) by (simp_all add: placed_def distinct_map)
  ultimately show ?thesis by (simp add: set_eq_iff_mset_eq_distinct [symmetric])
qed

lemma moves_of_simps [simp]:
  "moves_of [] = []" "moves_of (Move m # ops) = m # moves_of ops" "moves_of (Put p # ops) = moves_of ops"
  "moves_of (Delete d # ops) = moves_of ops" "moves_of (Decide c # ops) = moves_of ops"
  "moves_of (xs @ ys) = moves_of xs @ moves_of ys" "moves_of (map Move ms) = ms"
proof -
  show "moves_of (xs @ ys) = moves_of xs @ moves_of ys"
    by (induction xs) (auto simp: moves_of_def map_filter_simps split: option.splits)
  show "moves_of (map Move ms) = ms" by (induction ms) (simp_all add: moves_of_def map_filter_simps)
qed (simp_all add: moves_of_def map_filter_simps)

lemma moves_of_no_move: "\<forall>x \<in> set ops. kind x \<noteq> MOVE \<Longrightarrow> moves_of ops = []"
proof (induction ops)
  case (Cons x ops)
  then show ?case by (cases x) auto
qed simp

lemma filter_move: "map Move (moves_of ops) = filter (\<lambda>p. kind p = MOVE) ops"
proof (induction ops)
  case (Cons x ops)
  then show ?case by (cases x) auto
qed simp

lemma reject_duplicate_iff:
  "reject_duplicate_move_sources seen ops = Inr () \<longleftrightarrow>
     distinct (map move_source_key (moves_of ops)) \<and> move_source_key ` set (moves_of ops) \<inter> seen = {}"
  by (induction seen ops rule: reject_duplicate_move_sources.induct) auto

lemma ordered_operations_form:
  assumes "ordered_operations user writer ops d = Inr ordered" "distinct (map move_source_key (moves_of ops))"
  obtains ms where "mset ms = mset (moves_of ops)"
    "ordered = filter (\<lambda>p. kind p = DELETE) ops @ map Move ms @ filter (\<lambda>p. kind p = PUT) ops
       @ filter (\<lambda>p. kind p = DECISION) ops"
  using assms(1) visit_all_perm [OF _ assms(2)]
  by (auto simp: ordered_operations_def Let_def bindE_def split: if_splits sum.splits)

lemma mset_kinds:
  "mset (filter (\<lambda>p. kind p = DELETE) ops) + mset (filter (\<lambda>p. kind p = MOVE) ops)
     + (mset (filter (\<lambda>p. kind p = PUT) ops) + mset (filter (\<lambda>p. kind p = DECISION) ops)) = mset ops"
proof (induction ops)
  case (Cons x ops)
  then show ?case by (cases x) (simp_all add: ac_simps)
qed simp

lemma ordered_operations_mset:
  assumes "ordered_operations user writer ops d = Inr ordered" "distinct (map move_source_key (moves_of ops))"
  shows "mset ordered = mset ops"
proof -
  obtain ms where ms: "mset ms = mset (moves_of ops)"
    "ordered = filter (\<lambda>p. kind p = DELETE) ops @ map Move ms @ filter (\<lambda>p. kind p = PUT) ops
       @ filter (\<lambda>p. kind p = DECISION) ops"
    by (rule ordered_operations_form [OF assms]) (rule that)
  have "mset (map Move ms) = mset (filter (\<lambda>p. kind p = MOVE) ops)"
    using ms(1) by (simp flip: filter_move)
  then show ?thesis using mset_kinds [of ops] by (simp add: ms(2) ac_simps)
qed

section \<open>Steps that leave the catalogue alone\<close>

text \<open>They may draw UUIDs, which are never given back.\<close>

definition keeps_db :: "(world, 'a) act \<Rightarrow> bool" where
  "keeps_db m \<longleftrightarrow> (\<forall>w r w'. m w = (r, w') \<longrightarrow> w_db w' = w_db w \<and> w_uuids w \<le> w_uuids w')"

named_theorems keeps_db_rules \<open>Steps that leave the catalogue alone.\<close>

lemma keeps_dbD: "keeps_db m \<Longrightarrow> m w = (r, w') \<Longrightarrow> w_db w' = w_db w"
  "keeps_db m \<Longrightarrow> m w = (r, w') \<Longrightarrow> w_uuids w \<le> w_uuids w'"
  by (auto simp: keeps_db_def)

lemma keeps_db_basic [keeps_db_rules]:
  "keeps_db (ret x)" "keeps_db (raise e)" "keeps_db (liftE v)" "keeps_db (gets g)"
  "keeps_db (fresh_uuid E)" "keeps_db (now E)" "keeps_db (readE f)" "keeps_db (on_fs a)"
  "keeps_db (push_undo u)" "keeps_db (push_cleanup c)"
  by (auto simp: keeps_db_def act_simps fresh_uuid_def now_def readE_def on_fs_def push_undo_def push_cleanup_def
      split: prod.splits)

lemma keeps_db_bindS [keeps_db_rules]:
  assumes "keeps_db m" "\<And>x. keeps_db (f x)"
  shows "keeps_db (bindS m f)"
  unfolding keeps_db_def bindS_def
  using keeps_dbD [OF assms(1)] keeps_dbD [OF assms(2)]
  by (auto split: prod.splits sum.splits) (metis order_trans)+

lemma keeps_db_catchS [keeps_db_rules]:
  assumes "keeps_db m" "\<And>e. keeps_db (f e)"
  shows "keeps_db (catchS m f)"
  unfolding keeps_db_def catchS_def
  using keeps_dbD [OF assms(1)] keeps_dbD [OF assms(2)]
  by (auto split: prod.splits sum.splits) (metis order_trans)+

lemma keeps_db_cases [keeps_db_rules]:
  "(c \<Longrightarrow> keeps_db m) \<Longrightarrow> (\<not> c \<Longrightarrow> keeps_db n) \<Longrightarrow> keeps_db (if c then m else n)"
  "keeps_db m \<Longrightarrow> (\<And>x. keeps_db (f x)) \<Longrightarrow> keeps_db (case p of None \<Rightarrow> m | Some x \<Rightarrow> f x)"
  by (auto split: option.splits)

lemma keeps_db_tree [keeps_db_rules]:
  "keeps_db (undo_path E x)" "keeps_db (unlink_backup b)" "keeps_db (backup_tree_entry E l)"
proof -
  have u: "keeps_db (undo_path E x)" for x unfolding undo_path_def by (intro keeps_db_rules)
  show "keeps_db (undo_path E x)" by (rule u)
  show "keeps_db (unlink_backup b)" unfolding unlink_backup_def by (intro keeps_db_rules)
  have "keeps_db (bindS (undo_path E ''backup'') (\<lambda>backup. bindS (on_fs (fsop (\<lambda>fs. link fs l backup))) (\<lambda>_.
           ret (Some backup))))" by (intro keeps_db_rules u)
  then show "keeps_db (backup_tree_entry E l)" by (auto simp: keeps_db_def backup_tree_entry_def act_simps split: if_splits)
qed

lemma keeps_db_entries [keeps_db_rules]:
  "keeps_db (replace_tree_entry E user p obj)" "keeps_db (rename_tree_file E user s t)"
  "keeps_db (rename_tree_entry E user p q)" "keeps_db (remove_tree_entry E user p)"
proof -
  show "keeps_db (replace_tree_entry E user p obj)" unfolding replace_tree_entry_def by (intro keeps_db_rules)
  show *: "keeps_db (rename_tree_file E user s t)" for s t unfolding rename_tree_file_def by (intro keeps_db_rules)
  show "keeps_db (rename_tree_entry E user p q)" unfolding rename_tree_entry_def by (intro keeps_db_rules *)
  have c: "keeps_db (case e of FileNotFoundError _ \<Rightarrow> bindS (unlink_backup b) (\<lambda>_. ret False) | _ \<Rightarrow> raise e)" for e b
    by (cases e) (auto intro: keeps_db_rules)
  show "keeps_db (remove_tree_entry E user p)" unfolding remove_tree_entry_def
    by (intro keeps_db_rules c)
qed

lemma keeps_db_put [keeps_db_rules]:
  "keeps_db (write_object E user data)" "keeps_db (put_object E user p data ex)" "keeps_db (put_tree E user p data ex)"
proof -
  show w: "keeps_db (write_object E user data)" unfolding write_object_def by (intro keeps_db_rules)
  have *: "keeps_db (put_object E user p data ex)" for ex
    unfolding put_object_def split_def by (intro keeps_db_rules w)
  then show "keeps_db (put_object E user p data ex)" .
  show "keeps_db (put_tree E user p data ex)" unfolding put_tree_def by (intro keeps_db_rules *)
qed

lemma keeps_db_break [keeps_db_rules]: "keeps_db (break_cycles E user dests cycles locations temps)"
  by (induction cycles arbitrary: locations temps) (simp, intro keeps_db_rules, simp, intro keeps_db_rules, assumption+)

section \<open>Applying the operations\<close>

lemma safe_actD:
  assumes "safe_act E user h s0 m" "working E user h s0 w" "m w = (r, w')"
  shows "journal E user h s0 w' \<and> (r = Inr x \<longrightarrow> working E user h s0 w')"
proof -
  have "case r of Inl e \<Rightarrow> journal E user h s0 w' | Inr _ \<Rightarrow> working E user h s0 w'"
    using assms unfolding safe_act_def hoare_def by blast
  then show ?thesis by (cases r) (simp_all add: working_def)
qed

lemma apply_cons_run:
  assumes "journal E user h s0 w1 \<and> (r1 = Inr () \<longrightarrow> working E user h s0 w1)" "m w = (r1, w1)"
    and "bindS m (\<lambda>_. n) w = (r, w')"
    and "working E user h s0 w1 \<Longrightarrow> r1 = Inr () \<Longrightarrow> n w1 = (r, w') \<Longrightarrow>
      journal E user h s0 w' \<and> (r = Inr () \<longrightarrow> working E user h s0 w')"
  shows "journal E user h s0 w' \<and> (r = Inr () \<longrightarrow> working E user h s0 w')"
  using assms by (cases r1) (auto simp: bindS_def)

lemma apply_no_move_run:
  assumes E: "env_ok E user h" and "working E user h s0 w" "\<forall>op \<in> set ops. kind op \<noteq> MOVE"
    and "apply_operations E user writer ops w = (r, w')"
  shows "journal E user h s0 w' \<and> (r = Inr () \<longrightarrow> working E user h s0 w')"
  using assms(2-4)
proof (induction ops arbitrary: w)
  case Nil
  then show ?case by (auto simp: act_simps working_def)
next
  case (Cons op ops)
  have safe: "safe_act E user h s0 m \<Longrightarrow> bindS m (\<lambda>_. apply_operations E user writer ops) w = (r, w') \<Longrightarrow>
      journal E user h s0 w' \<and> (r = Inr () \<longrightarrow> working E user h s0 w')" for m :: "(world, unit) act"
  proof -
    assume m: "safe_act E user h s0 m" and run: "bindS m (\<lambda>_. apply_operations E user writer ops) w = (r, w')"
    obtain r1 w1 where one: "m w = (r1, w1)" by force
    show ?thesis
      by (rule apply_cons_run [OF safe_actD [OF m Cons.prems(1) one] one run])
        (use Cons.IH Cons.prems(2) in auto)
  qed
  show ?case
  proof (cases op)
    case (Put x)
    then show ?thesis using safe [OF put_op_safe [OF E, of s0 writer x]] Cons.prems(3) by simp
  next
    case (Delete x)
    then show ?thesis using safe [OF delete_op_safe [OF E, of s0 writer x]] Cons.prems(3) by simp
  next
    case (Decide x)
    then show ?thesis using safe [OF decision_op_safe [of E user h s0 writer x]] Cons.prems(3) by simp
  qed (use Cons.prems(2) in simp)
qed

lemma delete_op_rows:
  "delete_op E user writer op w = (Inr (), w') \<Longrightarrow> set (entry_rows (w_db w')) \<subseteq> set (entry_rows (w_db w))"
  by (auto simp: delete_op_def bindS_gets_modify bindS_Inr_iff on_db_def readE_def act_simps delete_entry_def
      set_delete_where dest!: keeps_dbD(1) [OF keeps_db_entries(4)] split: option.splits)

lemma self_move_mono:
  assumes "keys_ok (entry_rows d)" "keys_ok (entry_rows d')" "set (entry_rows d') \<subseteq> set (entry_rows d)"
    "self_move user writer d' op"
  shows "self_move user writer d op"
proof -
  obtain e where e: "entry_by_source_key user writer (move_source_key op) d' = Some e"
    "normalize_path (move_path op) = Inr (entry_path e)" using assms(4) by (auto simp: self_move_def split: option.splits)
  then obtain r where r: "row_by_source_key user writer (move_source_key op) d' = Some r" "e = entry_from_row r"
    by (auto simp: entry_by_source_key_def)
  then have "row_by_source_key user writer (move_source_key op) d = Some r"
    using assms(1-3) by (auto simp: row_by_source_key_Some)
  then show ?thesis using r e by (simp add: self_move_def entry_by_source_key_def)
qed

lemma apply_ordered_run:
  assumes E: "env_ok E user h" and "working E user h s0 w" "\<forall>op \<in> set dels. kind op = DELETE"
    and d: "distinct (map move_source_key ms)" and rest: "\<forall>op \<in> set rest. kind op \<noteq> MOVE"
    and "\<forall>op \<in> set ms. \<not> self_move user writer (w_db w) op"
    and "apply_operations E user writer (dels @ map Move ms @ rest) w = (r, w')"
  shows "journal E user h s0 w' \<and> (r = Inr () \<longrightarrow> working E user h s0 w')"
  using assms(2,3,6,7)
proof (induction dels arbitrary: w)
  case Nil
  show ?case
  proof (cases ms)
    case Nil
    then show ?thesis using apply_no_move_run [OF E] Nil.prems rest by simp
  next
    case (Cons m ms')
    have t: "takeWhile (\<lambda>p. kind p = MOVE) (map Move ms' @ rest) = map Move ms'"
      "dropWhile (\<lambda>p. kind p = MOVE) (map Move ms' @ rest) = rest"
      using rest by (cases rest; simp add: takeWhile_append dropWhile_append; fail)+
    have run: "bindS (move_batch E user writer ms) (\<lambda>_. apply_operations E user writer rest) w = (r, w')"
      using Nil.prems(4) Cons t by simp
    obtain r1 w1 where one: "move_batch E user writer ms w = (r1, w1)" by force
    have ns: "\<And>op. op \<in> set ms \<Longrightarrow> \<not> self_move user writer (w_db w) op" using Nil.prems(3) by blast
    show ?thesis
      by (rule apply_cons_run [OF move_batch_run [OF E Nil.prems(1) d ns one] one run])
        (use apply_no_move_run [OF E _ rest] in auto)
  qed
next
  case (Cons op dels)
  obtain x where op: "op = Delete x" using Cons.prems(2) by (cases op) auto
  have run: "bindS (delete_op E user writer x) (\<lambda>_. apply_operations E user writer (dels @ map Move ms @ rest)) w = (r, w')"
    using Cons.prems(4) op by simp
  obtain r1 w1 where one: "delete_op E user writer x w = (r1, w1)" by force
  show ?case
  proof (rule apply_cons_run [OF safe_actD [OF delete_op_safe [OF E] Cons.prems(1) one] one run])
    assume w1: "working E user h s0 w1" "r1 = Inr ()"
      and run1: "apply_operations E user writer (dels @ map Move ms @ rest) w1 = (r, w')"
    have sub: "set (entry_rows (w_db w1)) \<subseteq> set (entry_rows (w_db w))" using delete_op_rows one w1(2) by blast
    have "\<forall>op \<in> set ms. \<not> self_move user writer (w_db w1) op"
      using self_move_mono [OF _ _ sub] Cons.prems(1,3) w1(1) by (auto simp: working_def rows_ok_def)
    then show "journal E user h s0 w' \<and> (r = Inr () \<longrightarrow> working E user h s0 w')"
      using Cons.IH [OF w1(1) _ _ run1] Cons.prems(2) by simp
  qed
qed

section \<open>Cleaning up\<close>

text \<open>A cleanup only takes backups, objects and empty directories away.\<close>

definition pruned :: "fs \<Rightarrow> fs \<Rightarrow> bool" where
  "pruned s t \<longleftrightarrow> wf_fs t \<and> idata t = idata s \<and> (\<forall>q. fm t q = fm s q \<or> fm t q = None) \<and>
     (\<forall>q. look t q = Some Dir \<longrightarrow> look s q = Some Dir) \<and>
     (\<forall>q. \<not> backup_loc q \<longrightarrow> \<not> prefix [objects_dir] q \<longrightarrow> fm t q = fm s q)"

lemma pruned_refl: "wf_fs s \<Longrightarrow> pruned s s"
  by (simp add: pruned_def)

lemma pruned_trans: "pruned s t \<Longrightarrow> pruned t u \<Longrightarrow> pruned s u"
  unfolding pruned_def by metis

lemma pruned_unlink:
  assumes "wf_fs s" "unlink_if_exists s p = Inr t"
    and "\<And>l. p = Some l \<Longrightarrow> backup_loc l \<or> prefix [objects_dir] l"
  shows "pruned s t"
proof (cases "t = s")
  case False
  then obtain l where l: "p = Some l" "unlink s l = Inr t"
    using assms(2) by (auto simp: unlink_if_exists_def split: option.splits sum.splits exn.splits)
  then obtain i where i: "look s l = Some (File i)" "t = del_node s l"
    by (auto simp: unlink_def split: option.splits node.splits)
  have "l \<noteq> []" using i(1) by (auto simp: look_simps)
  then show ?thesis
    using wf_del_file [OF assms(1) i(1)] assms(3) [OF l(1)] by (auto simp: pruned_def i(2) fm_del look_simps)
qed (use assms(1) pruned_refl in simp)

lemma pruned_rep: "wf_fs s \<Longrightarrow> pruned s (remove_empty_parents s p stop)"
  using rep_keeps [of s p stop] by (simp add: pruned_def)

lemma run_cleanup_pruned:
  assumes wf: "wf_fs s" and c: "clean_ok c" and run: "run_cleanup E user c s = (r, t)"
  shows "pruned s t"
proof (cases c)
  case (CleanBackup b)
  then show ?thesis
    using run c pruned_refl [OF wf] by (auto simp: fsop_def clean_ok_def intro: pruned_unlink [OF wf] split: sum.splits)
next
  case (CleanObject obj)
  have o: "\<And>l. Some obj = Some l \<Longrightarrow> backup_loc l \<or> prefix [objects_dir] l"
    using c CleanObject by (cases obj) (auto simp: clean_ok_def)
  show ?thesis
  proof (cases "unlink_if_exists s (Some obj)")
    case (Inl e)
    then have "t = s" using run CleanObject by (simp add: remove_object_entry_def bindS_def fsop_def)
    then show ?thesis using pruned_refl [OF wf] by simp
  next
    case (Inr s1)
    note s1 = pruned_unlink [OF wf Inr o]
    then have "wf_fs s1" by (simp add: pruned_def)
    then have "pruned s1 t"
      using run CleanObject Inr pruned_refl pruned_rep [of s1]
      by (auto simp: remove_object_entry_def bindS_def fsop_def act_simps split: sum.splits)
    then show ?thesis using pruned_trans s1 by blast
  qed
qed

lemma run_all_cleanup_pruned:
  assumes "wf_fs s" "list_all clean_ok cs" "run_all (map (run_cleanup E user) cs) s = (es, t)"
  shows "pruned s t"
  using assms
proof (induction cs arbitrary: s es)
  case (Cons c cs)
  obtain r s1 where r: "run_cleanup E user c s = (r, s1)" by force
  have p: "pruned s s1" by (rule run_cleanup_pruned [OF Cons.prems(1) _ r]) (use Cons.prems(2) in simp)
  then have "wf_fs s1" by (simp add: pruned_def)
  moreover obtain es' where "run_all (map (run_cleanup E user) cs) s1 = (es', t)"
    using Cons.prems(3) r by (cases r) (auto split: prod.splits)
  ultimately show ?case using Cons.IH [of s1 es'] Cons.prems(2) pruned_trans [OF p] by simp
qed (simp add: pruned_refl)

lemma pruned_fs_ok:
  assumes "pruned s t" "fs_ok E h k s"
  shows "fs_ok E h k t"
proof -
  have f: "fm t q = Some i \<Longrightarrow> fm s q = Some i" for q i
  proof -
    have "fm t q = fm s q \<or> fm t q = None" using assms(1) by (simp add: pruned_def)
    then show "fm t q = Some i \<Longrightarrow> fm s q = Some i" by auto
  qed
  have n: "look s q = None \<Longrightarrow> look t q = None" for q
  proof -
    assume "look s q = None"
    then have "fm s q = None" by (simp add: fm_None_iff)
    then have "fm t q = None" using f [of q] by (cases "fm t q") auto
    moreover have "look t q \<noteq> Some Dir" using assms(1) \<open>look s q = None\<close> unfolding pruned_def by force
    ultimately have "fm t q = None" "look t q \<noteq> Some Dir" by auto
    then show ?thesis by (auto simp: fm_None_iff)
  qed
  have b: "fm t q = None" if "q \<in> base_locs h" for q
    using f [of q] assms(2) that by (cases "fm t q") (auto simp: fs_ok_def)
  have u: "look t q = None" if "m \<ge> k" "uuid_loc E h m q" for m q
    using n assms(2) that unfolding fs_ok_def by blast
  have l: "p = q" if "live_loc h p" "live_loc h q" "fm t p = Some i" "fm t q = Some i" for p q i
    using f [OF that(3)] f [OF that(4)] that(1,2) assms(2) unfolding fs_ok_def by blast
  have "wf_fs t" using assms(1) by (simp add: pruned_def)
  then show ?thesis unfolding fs_ok_def using b u l by blast
qed

lemma pruned_rows_ok: "pruned s t \<Longrightarrow> rows_ok E user h d s \<Longrightarrow> rows_ok E user h d t"
proof (erule rows_ok_frame)
  fix r i assume "pruned s t" "fm s (tree_at h (entry_path r)) = Some i"
  moreover have "\<not> backup_loc (tree_at h p)" "\<not> prefix [objects_dir] (tree_at h p)" for p
    by (simp_all add: backup_loc_def tree_at_def)
  ultimately show "fm t (tree_at h (entry_path r)) = Some i \<and> idata t i = idata s i"
    by (simp add: pruned_def)
qed

section \<open>Rolling back\<close>

lemma rollback_run:
  assumes "journal E user h s0 w" "wf_fs (w_fs w)"
  obtains t where "rollback_filesystem E user w = (Inr None, w\<lparr>w_fs := t\<rparr>)" "fle [users_dir, h] t s0"
proof -
  have "restores (run_undo E user) (fle [users_dir, h]) (w_undo w) (w_fs w) s0"
    using assms(1) by (simp add: journal_def)
  then obtain t where t: "foldr (\<lambda>u r. bindS r (\<lambda>_. run_undo E user u)) (w_undo w) (ret ()) (w_fs w) = (Inr (), t)"
      "fle [users_dir, h] t s0"
    using fs_log.restoresD fle_refl [OF assms(2)] by metis
  show thesis using that [of t] t run_all_foldr [OF t(1)] by (simp add: rollback_filesystem_def)
qed

lemma fle_fs_ok:
  assumes "fle [users_dir, h] t s" "fs_ok E h k s" "k \<le> k'"
  shows "fs_ok E h k' t"
proof -
  have f: "fm t = fm s" "wf_fs t" using assms(1) by (simp_all add: fle_def)
  have "look t q = None" if q: "n \<ge> k'" "uuid_loc E h n q" for n q
  proof -
    have "n \<ge> k" using q(1) assms(3) by simp
    then have "look s q = None" using assms(2) q(2) unfolding fs_ok_def by blast
    moreover have "guarded [users_dir, h] q" using q(2) by (auto simp: uuid_loc_def guarded_def)
    ultimately have "look t q \<noteq> Some Dir" "fm t q = None" using assms(1) f by (auto simp: fle_def fm_None_iff)
    then show ?thesis by (auto simp: fm_None_iff)
  qed
  then show ?thesis using assms(2) f by (auto simp: fs_ok_def)
qed

lemma fle_rows_ok: "fle [users_dir, h] t s \<Longrightarrow> rows_ok E user h d s \<Longrightarrow> rows_ok E user h d t"
  by (erule rows_ok_frame) (auto simp: fle_def)

section \<open>What the operations of a writer do to the catalogue\<close>

definition steps :: "(db \<Rightarrow> db \<Rightarrow> bool) \<Rightarrow> (world, 'a) act \<Rightarrow> bool" where
  "steps R m \<longleftrightarrow> (\<forall>w r w'. m w = (r, w') \<longrightarrow> R (w_db w) (w_db w') \<and> w_uuids w \<le> w_uuids w')"

lemma stepsD: "steps R m \<Longrightarrow> m w = (r, w') \<Longrightarrow> R (w_db w) (w_db w')"
  "steps R m \<Longrightarrow> m w = (r, w') \<Longrightarrow> w_uuids w \<le> w_uuids w'"
  by (auto simp: steps_def)

text \<open>
  A relation of catalogues that every statement of a writer keeps: the client of the four
  statements on the tables \<open>entries\<close> and \<open>decisions\<close>.
\<close>

locale writer_relation =
  fixes R :: "db \<Rightarrow> db \<Rightarrow> bool" and user writer :: str
  assumes refl: "R d d" and trans: "R a b \<Longrightarrow> R b c \<Longrightarrow> R a c"
    and upsert: "upsert_entry n d = Inr d' \<Longrightarrow> row_user n = user \<Longrightarrow> row_writer n = writer \<Longrightarrow> R d d'"
    and update: "update_entry user writer sk p f d = Inr d' \<Longrightarrow> (\<And>r. ident (f r) = ident r) \<Longrightarrow> R d d'"
    and delete: "R d (delete_entry user writer sk d)"
    and decide: "dec_user m = user \<Longrightarrow> dec_writer m = writer \<Longrightarrow> R d (upsert_decision m d)"
begin

lemma steps_keeps: "keeps_db m \<Longrightarrow> steps R m"
  using refl by (auto simp: steps_def keeps_db_def)

lemma steps_bindS:
  assumes "steps R m" "\<And>x. steps R (f x)"
  shows "steps R (bindS m f)"
  unfolding steps_def bindS_def
  using stepsD [OF assms(1)] stepsD [OF assms(2)]
  by (auto split: prod.splits sum.splits) (meson trans order_trans)+

lemma steps_cases:
  "(c \<Longrightarrow> steps R m) \<Longrightarrow> (\<not> c \<Longrightarrow> steps R n) \<Longrightarrow> steps R (if c then m else n)"
  "steps R m \<Longrightarrow> (\<And>x. steps R (f x)) \<Longrightarrow> steps R (case p of None \<Rightarrow> m | Some x \<Rightarrow> f x)"
  by (auto split: option.splits)

lemma steps_on_db:
  "(\<And>d d'. g d = Inr d' \<Longrightarrow> R d d') \<Longrightarrow> steps R (on_dbE g)" "(\<And>d. R d (k d)) \<Longrightarrow> steps R (on_db k)"
  using refl by (auto simp: steps_def on_dbE_def on_db_def split: sum.splits)

lemma steps_forS: "(\<And>x. steps R (f x)) \<Longrightarrow> steps R (forS xs f)"
  by (induction xs) (auto intro: steps_bindS steps_keeps keeps_db_rules)

lemmas steps_rules = steps_bindS steps_cases

lemma steps_put: "steps R (put_op E user writer op)"
  unfolding put_op_def
  by (intro steps_rules; (rule steps_keeps, intro keeps_db_rules)?)
    (rule steps_on_db, rule upsert, assumption, simp_all add: put_entry_row_def)

lemma steps_delete: "steps R (delete_op E user writer op)"
  unfolding delete_op_def
  by (intro steps_rules; (rule steps_keeps, intro keeps_db_rules)?) (rule steps_on_db, rule delete)

lemma steps_decide: "steps R (decision_op E user writer op)"
  unfolding decision_op_def
  by (intro steps_rules; (rule steps_keeps, intro keeps_db_rules)?) (rule steps_on_db, rule decide, simp_all)

lemma steps_park: "steps R (park_row E user writer sk p)"
  unfolding park_row_def
  by (intro steps_rules; (rule steps_keeps, intro keeps_db_rules)?)
    (rule steps_on_db, erule update, simp add: ident_def)

lemma steps_move_one: "steps R (move_one E user writer bs temps op)"
  unfolding move_one_def move_file_def
  by (intro steps_rules; (rule steps_keeps, intro keeps_db_rules)?)
    (rule steps_on_db, erule update, simp add: ident_def)

lemma steps_move_batch: "steps R (move_batch E user writer ops)"
  unfolding move_batch_def Let_def break_move_cycles_def split_def
  by (intro steps_rules steps_forS steps_move_one steps_park; (rule steps_keeps, intro keeps_db_rules)?)

lemma steps_apply: "steps R (apply_operations E user writer ops)"
proof (induction ops rule: length_induct)
  case (1 ops)
  show ?case
  proof (cases ops)
    case Nil
    then show ?thesis by (simp add: steps_keeps keeps_db_rules)
  next
    case (Cons op rest)
    have len: "length (dropWhile (\<lambda>p. kind p = MOVE) rest) < length ops"
      using length_dropWhile_le [of "\<lambda>p. kind p = MOVE" rest] Cons by simp
    then show ?thesis
      using 1 Cons steps_put steps_delete steps_decide steps_move_batch
      by (cases op) (auto intro!: steps_bindS)
  qed
qed

end

text \<open>
  The rest of the catalogue, as the other writers see it: all tables but \<open>entries\<close> and
  \<open>decisions\<close>, and the rows of these that are not the writer's.
\<close>

definition others :: "str \<Rightarrow> str \<Rightarrow> db \<Rightarrow> db" where
  "others user writer d =
     d\<lparr>entry_rows := filter (\<lambda>r. (row_user r, row_writer r) \<noteq> (user, writer)) (entry_rows d),
       decision_rows := filter (\<lambda>r. (dec_user r, dec_writer r) \<noteq> (user, writer)) (decision_rows d)\<rparr>"

lemma others_simps [simp]:
  "prefix_rows (others user writer d) = prefix_rows d" "submission_rows (others user writer d) = submission_rows d"
  by (simp_all add: others_def)

lemma filter_update_where:
  "(\<And>r. P r \<Longrightarrow> \<not> Q r \<and> \<not> Q (f r)) \<Longrightarrow> filter Q (update_where P f rows) = filter Q rows"
  by (induction rows) (auto simp: update_where_def)

lemma filter_delete_where: "(\<And>r. P r \<Longrightarrow> \<not> Q r) \<Longrightarrow> filter Q (delete_where P rows) = filter Q rows"
  by (induction rows) (auto simp: delete_where_def)

interpretation frame: writer_relation "\<lambda>d d'. others user writer d' = others user writer d" user writer for user writer
proof unfold_locales
  fix d d' n assume up: "upsert_entry n d = Inr d'" "row_user n = user" "row_writer n = writer"
  have "filter (\<lambda>r. (row_user r, row_writer r) \<noteq> (user, writer)) (update_where (same_source user writer (entry_source_key n))
      (\<lambda>r. n\<lparr>created_at := created_at r\<rparr>) (entry_rows d)) = filter (\<lambda>r. (row_user r, row_writer r) \<noteq> (user, writer)) (entry_rows d)"
    by (rule filter_update_where) (use up in \<open>auto simp: same_source_def\<close>)
  then show "others user writer d' = others user writer d"
    using up by (auto simp: upsert_entry_def Let_def others_def split: if_splits)
next
  fix d d' sk p and f :: "entry_row \<Rightarrow> entry_row"
  assume up: "update_entry user writer sk p f d = Inr d'" and f: "\<And>r. ident (f r) = ident r"
  have "filter (\<lambda>r. (row_user r, row_writer r) \<noteq> (user, writer)) (update_where (same_source user writer sk)
      (\<lambda>r. (f r)\<lparr>entry_path := p\<rparr>) (entry_rows d)) = filter (\<lambda>r. (row_user r, row_writer r) \<noteq> (user, writer)) (entry_rows d)"
    by (rule filter_update_where) (use f in \<open>auto simp: ident_def same_source_def\<close>)
  then show "others user writer d' = others user writer d"
    using up by (auto simp: update_entry_def others_def split: if_splits)
next
  fix d :: db and m :: decision_row assume m: "dec_user m = user" "dec_writer m = writer"
  have "filter (\<lambda>r. (dec_user r, dec_writer r) \<noteq> (user, writer)) (update_where (same_decision user writer (dec_source_key m))
      (\<lambda>r. m\<lparr>dec_created_at := dec_created_at r\<rparr>) (decision_rows d)) = filter (\<lambda>r. (dec_user r, dec_writer r) \<noteq> (user, writer)) (decision_rows d)"
    by (rule filter_update_where) (use m in \<open>auto simp: same_decision_def\<close>)
  then show "others user writer (upsert_decision m d) = others user writer d"
    using m by (simp add: upsert_decision_def Let_def others_def)
next
  fix d :: db and sk
  have "filter (\<lambda>r. (row_user r, row_writer r) \<noteq> (user, writer)) (delete_where (same_source user writer sk) (entry_rows d))
      = filter (\<lambda>r. (row_user r, row_writer r) \<noteq> (user, writer)) (entry_rows d)"
    by (rule filter_delete_where) (auto simp: same_source_def)
  then show "others user writer (delete_entry user writer sk d) = others user writer d"
    by (simp add: others_def delete_entry_def)
qed (auto simp: others_def)

interpretation keys: writer_relation "\<lambda>d d'. keys_ok (entry_rows d) \<longrightarrow> keys_ok (entry_rows d')" user writer for user writer
proof unfold_locales
  show "upsert_entry n d = Inr d' \<Longrightarrow> keys_ok (entry_rows d) \<longrightarrow> keys_ok (entry_rows d')" for d d' n
    using upsert_keys by blast
next
  fix d d' sk p and f :: "entry_row \<Rightarrow> entry_row"
  assume up: "update_entry user writer sk p f d = Inr d'" and f: "\<And>r. ident (f r) = ident r"
  show "keys_ok (entry_rows d) \<longrightarrow> keys_ok (entry_rows d')"
    using keys_ok_update_entry [OF _ up f] by blast
qed (auto simp: delete_entry_def keys_ok_delete)

section \<open>Whole submissions\<close>

definition store_ok :: "env \<Rightarrow> str \<Rightarrow> str \<Rightarrow> world \<Rightarrow> bool" where
  "store_ok E user h w \<longleftrightarrow> fs_ok E h (w_uuids w) (w_fs w) \<and> rows_ok E user h (w_db w) (w_fs w)"

definition no_self_moves :: "str \<Rightarrow> str \<Rightarrow> operation list \<Rightarrow> db \<Rightarrow> bool" where
  "no_self_moves user writer ops d \<longleftrightarrow> (\<forall>op \<in> set (moves_of ops). \<not> self_move user writer d op)"

lemma rows_ok_cong: "entry_rows d' = entry_rows d \<Longrightarrow> rows_ok E user h d' s = rows_ok E user h d s"
  by (simp add: rows_ok_def)

lemma store_ok_working:
  "store_ok E user h w \<Longrightarrow> w_undo w = [] \<Longrightarrow> w_cleanup w = [] \<Longrightarrow> working E user h (w_fs w) w"
  by (auto simp: store_ok_def working_def journal_def fs_ok_def intro: fs_log.restores_Nil fle_refl)

lemma set_submission_simps [simp]:
  "entry_rows (set_submission sid f d) = entry_rows d" "decision_rows (set_submission sid f d) = decision_rows d"
  "prefix_rows (set_submission sid f d) = prefix_rows d"
  "submission_rows (set_submission sid f d) = update_where (\<lambda>r. sub_id r = sid) f (submission_rows d)"
  by (simp_all add: set_submission_def)

lemma run_submission_cases:
  assumes run: "run_submission E user writer sid ops w = (r, w')"
  shows "(\<exists>e. r = Inl e \<and> w' = w) \<or> (\<exists>ordered. reject_duplicate_move_sources {} ops = Inr () \<and>
    ordered_operations user writer ops (w_db w) = Inr ordered \<and>
    preflight_submission user writer ordered (w_db w) = Inr () \<and>
    transaction (bindS (apply_operations E user writer ordered) (\<lambda>_. bindS (now E) (\<lambda>t.
         on_db (set_submission sid (\<lambda>r. r\<lparr>sub_state := APPLIED, sub_updated_at := t\<rparr>))))) w = (r, w'))"
proof (cases "reject_duplicate_move_sources {} ops")
  case (Inl e)
  then have "run_submission E user writer sid ops w = (Inl e, w)" by (simp add: run_submission_def raise_def)
  then show ?thesis using run by simp
next
  case rej: (Inr u)
  show ?thesis
  proof (cases "ordered_operations user writer ops (w_db w)")
    case (Inl e)
    then have "run_submission E user writer sid ops w = (Inl e, w)"
      by (simp add: run_submission_def bindS_def readE_def rej)
    then show ?thesis using run by simp
  next
    case ord: (Inr ordered)
    show ?thesis
    proof (cases "preflight_submission user writer ordered (w_db w)")
      case (Inl e)
      then have "run_submission E user writer sid ops w = (Inl e, w)"
        by (simp add: run_submission_def bindS_def readE_def rej ord)
      then show ?thesis using run by simp
    qed (use run rej ord in \<open>simp add: run_submission_def bindS_def readE_def\<close>)
  qed
qed

lemma run_submission_run:
  assumes E: "env_ok E user h" and W: "working E user h s0 w" and ns: "no_self_moves user writer ops (w_db w)"
    and run: "run_submission E user writer sid ops w = (r, w')"
  shows "journal E user h s0 w' \<and> (r = Inr () \<longrightarrow> working E user h s0 w')"
proof -
  have J: "journal E user h s0 w" using W by (simp add: working_def)
  consider e where "r = Inl e" "w' = w" | ordered where "reject_duplicate_move_sources {} ops = Inr ()"
      "ordered_operations user writer ops (w_db w) = Inr ordered"
      "transaction (bindS (apply_operations E user writer ordered) (\<lambda>_. bindS (now E) (\<lambda>t.
         on_db (set_submission sid (\<lambda>r. r\<lparr>sub_state := APPLIED, sub_updated_at := t\<rparr>))))) w = (r, w')"
    using run_submission_cases [OF run] by blast
  then show ?thesis
  proof cases
    case 1
    then show ?thesis using J by simp
  next
    case 2
    have d: "distinct (map move_source_key (moves_of ops))" using 2(1) by (simp add: reject_duplicate_iff)
    obtain ms where ms: "mset ms = mset (moves_of ops)"
      "ordered = filter (\<lambda>p. kind p = DELETE) ops @ map Move ms @ filter (\<lambda>p. kind p = PUT) ops
         @ filter (\<lambda>p. kind p = DECISION) ops"
      by (rule ordered_operations_form [OF 2(2) d]) (rule that)
    have "mset (map move_source_key ms) = mset (map move_source_key (moves_of ops))" using ms(1) by simp
    then have dm: "distinct (map move_source_key ms)" using d by (metis mset_eq_imp_distinct_iff)
    have nm: "\<forall>op \<in> set ms. \<not> self_move user writer (w_db w) op"
      using ns mset_eq_setD [OF ms(1)] by (simp add: no_self_moves_def)
    obtain r1 w1 where ap: "apply_operations E user writer ordered w = (r1, w1)" by force
    have rest: "\<forall>op \<in> set (filter (\<lambda>p. kind p = PUT) ops @ filter (\<lambda>p. kind p = DECISION) ops). kind op \<noteq> MOVE"
      by auto
    have a: "journal E user h s0 w1 \<and> (r1 = Inr () \<longrightarrow> working E user h s0 w1)"
      by (rule apply_ordered_run [OF E W _ dm rest nm ap [unfolded ms(2)]]) simp
    show ?thesis
    proof (cases r1)
      case (Inl e)
      then show ?thesis using 2(3) ap a by (auto simp: transaction_def bindS_def journal_ignores)
    next
      case (Inr u)
      then have "r = Inr ()" "w' = w1\<lparr>w_clock := Suc (w_clock w1),
          w_db := set_submission sid (\<lambda>r. r\<lparr>sub_state := APPLIED, sub_updated_at := e_time E (w_clock w1)\<rparr>) (w_db w1)\<rparr>"
        using 2(3) ap by (auto simp: transaction_def bindS_def now_def on_db_def)
      then show ?thesis using a Inr by (simp add: working_def journal_ignores rows_ok_def)
    qed
  qed
qed

lemma run_submission_db:
  assumes "run_submission E user writer sid ops w = (r, w')"
  shows "w_uuids w \<le> w_uuids w'" "case r of Inl e \<Rightarrow> w_db w' = w_db w
    | Inr _ \<Rightarrow> \<exists>t. others user writer (w_db w') = others user writer (set_submission sid
        (\<lambda>r. r\<lparr>sub_state := APPLIED, sub_updated_at := t\<rparr>) (w_db w))"
proof -
  have "w_uuids w \<le> w_uuids w' \<and> (case r of Inl e \<Rightarrow> w_db w' = w_db w
    | Inr _ \<Rightarrow> \<exists>t. others user writer (w_db w') = others user writer (set_submission sid
        (\<lambda>r. r\<lparr>sub_state := APPLIED, sub_updated_at := t\<rparr>) (w_db w)))"
    using run_submission_cases [OF assms]
  proof (elim disjE exE conjE)
    fix ordered assume run: "transaction (bindS (apply_operations E user writer ordered) (\<lambda>_. bindS (now E) (\<lambda>t.
         on_db (set_submission sid (\<lambda>r. r\<lparr>sub_state := APPLIED, sub_updated_at := t\<rparr>))))) w = (r, w')"
    obtain r1 w1 where a: "apply_operations E user writer ordered w = (r1, w1)" by force
    have o: "others user writer (w_db w1) = others user writer (w_db w)" "w_uuids w \<le> w_uuids w1"
      using stepsD [OF frame.steps_apply a] by auto
    have c: "others user writer (set_submission sid f d) = set_submission sid f (others user writer d)" for f d
      by (simp add: others_def set_submission_def)
    show ?thesis
    proof (cases r1)
      case (Inl e)
      then have "r = Inl e" "w' = w1\<lparr>w_db := w_db w\<rparr>" using run a by (auto simp: transaction_def bindS_def)
      then show ?thesis using o by simp
    next
      case (Inr u)
      then have "r = Inr ()" "w' = w1\<lparr>w_clock := Suc (w_clock w1), w_db := set_submission sid
          (\<lambda>r. r\<lparr>sub_state := APPLIED, sub_updated_at := e_time E (w_clock w1)\<rparr>) (w_db w1)\<rparr>"
        using run a by (auto simp: transaction_def bindS_def now_def on_db_def)
      then show ?thesis using o by (auto simp: c)
    qed
  qed simp
  then show "w_uuids w \<le> w_uuids w'" "case r of Inl e \<Rightarrow> w_db w' = w_db w
    | Inr _ \<Rightarrow> \<exists>t. others user writer (w_db w') = others user writer (set_submission sid
        (\<lambda>r. r\<lparr>sub_state := APPLIED, sub_updated_at := t\<rparr>) (w_db w))" by auto
qed

text \<open>The row \<open>submit\<close> inserts and the world in which it runs the operations.\<close>

definition new_submission :: "env \<Rightarrow> str \<Rightarrow> str \<Rightarrow> operation list \<Rightarrow> world \<Rightarrow> submission_row" where
  "new_submission E user writer ops w =
     \<lparr>sub_id = e_uuid E (w_uuids w), sub_user = user, sub_writer = writer, sub_state = QUEUED,
      sub_count = length ops, sub_error = None, sub_created_at = e_time E (w_clock w),
      sub_updated_at = e_time E (w_clock w)\<rparr>"

definition submit_start :: "world \<Rightarrow> db \<Rightarrow> world" where
  "submit_start w d = w\<lparr>w_uuids := Suc (w_uuids w), w_clock := Suc (w_clock w), w_db := d,
     w_undo := [], w_cleanup := []\<rparr>"

lemma cleanup_run:
  "cleanup_filesystem E user w =
     (Inr (), w\<lparr>w_fs := snd (run_all (map (run_cleanup E user) (w_cleanup w)) (w_fs w))\<rparr>)"
  by (simp add: cleanup_filesystem_def split_def)

lemma submit_cases:
  assumes "submit E user writer ops w = (r, w')"
  obtains (duplicate) e where "insert_submission (new_submission E user writer ops w) (w_db w) = Inl e" "r = Inl e"
      "w' = w\<lparr>w_uuids := Suc (w_uuids w), w_clock := Suc (w_clock w)\<rparr>"
  | (applied) d w2 where "insert_submission (new_submission E user writer ops w) (w_db w) = Inr d"
      "run_submission E user writer (e_uuid E (w_uuids w)) ops (submit_start w d) = (Inr (), w2)"
      "cleanup_filesystem E user w2 = (Inr (), w')" "r = submission_of (e_uuid E (w_uuids w)) (w_db w2)"
  | (failed) d w2 exc x w3 where "insert_submission (new_submission E user writer ops w) (w_db w) = Inr d"
      "run_submission E user writer (e_uuid E (w_uuids w)) ops (submit_start w d) = (Inl exc, w2)"
      "rollback_filesystem E user w2 = (Inr x, w3)"
      "cleanup_filesystem E user (w3\<lparr>w_clock := Suc (w_clock w3), w_db := set_submission (e_uuid E (w_uuids w))
          (\<lambda>r. r\<lparr>sub_state := FAILED, sub_error := Some (exn_text exc), sub_updated_at := e_time E (w_clock w3)\<rparr>)
          (w_db w3)\<rparr>) = (Inr (), w')"
      "r = Inl (case x of Some y \<Rightarrow> y | None \<Rightarrow> exc)"
proof (cases "insert_submission (new_submission E user writer ops w) (w_db w)")
  case (Inl e)
  then show ?thesis using assms duplicate
    by (simp add: submit_def new_submission_def bindS_def fresh_uuid_def now_def transaction_def on_dbE_def)
next
  case d: (Inr d)
  let ?sid = "e_uuid E (w_uuids w)"
  let ?tail = "\<lambda>_ :: unit. bindS (cleanup_filesystem E user) (\<lambda>_. readE (submission_of ?sid))"
  let ?handler = "\<lambda>exc. bindS (rollback_filesystem E user) (\<lambda>rollback_exc.
          bindS (now E) (\<lambda>t.
          bindS (transaction (on_db (set_submission ?sid
             (\<lambda>r. r\<lparr>sub_state := FAILED, sub_error := Some (exn_text exc), sub_updated_at := t\<rparr>)))) (\<lambda>_.
          bindS (cleanup_filesystem E user) (\<lambda>_.
          raise (case rollback_exc of Some x \<Rightarrow> x | None \<Rightarrow> exc)))))"
  have run: "bindS (catchS (run_submission E user writer ?sid ops) ?handler) ?tail (submit_start w d) = (r, w')"
    using assms d
    by (simp add: submit_def new_submission_def bindS_def [of "fresh_uuid E"] bindS_def [of "now E" _ "w\<lparr>w_uuids := _\<rparr>"]
        bindS_def [of "transaction (on_dbE _)"] bindS_gets_modify
        fresh_uuid_def now_def transaction_def on_dbE_def submit_start_def)
  obtain r2 w2 where r2: "run_submission E user writer ?sid ops (submit_start w d) = (r2, w2)" by force
  show ?thesis
  proof (cases r2)
    case (Inr u)
    then show ?thesis using run r2 applied [OF d, of w2]
      by (simp add: bindS_def catchS_def cleanup_run readE_def)
  next
    case (Inl exc)
    then have h: "bindS (?handler exc) ?tail w2 = (r, w')" using run r2 by (simp add: bindS_def catchS_def)
    obtain x w3 where x: "rollback_filesystem E user w2 = (Inr x, w3)"
      by (cases "run_all (map (run_undo E user) (rev (w_undo w2))) (w_fs w2)") (simp add: rollback_filesystem_def)
    show ?thesis
      using h x r2 Inl failed [OF d _ x]
      by (simp add: bindS_def now_def transaction_def on_db_def cleanup_run raise_def)
  qed
qed

section \<open>What a submission guarantees\<close>

lemma insert_submission_keeps:
  assumes "insert_submission s d = Inr d'"
  shows "entry_rows d' = entry_rows d" "decision_rows d' = decision_rows d" "prefix_rows d' = prefix_rows d"
    "submission_rows d' = submission_rows d @ [s]" "\<forall>r \<in> set (submission_rows d). sub_id r \<noteq> sub_id s"
    "d' = d\<lparr>submission_rows := submission_rows d @ [s]\<rparr>"
  using assms by (auto simp: insert_submission_def list_ex_iff split: if_splits)

lemma submit_start_working:
  assumes "store_ok E user h w" "insert_submission s (w_db w) = Inr d"
  shows "working E user h (w_fs w) (submit_start w d)"
proof -
  have "fs_ok E h (Suc (w_uuids w)) (w_fs w)"
    by (rule fle_fs_ok [OF fle_refl, of _ E h "w_uuids w"]) (use assms(1) in \<open>simp_all add: store_ok_def fs_ok_def\<close>)
  moreover have "rows_ok E user h d (w_fs w)"
    using assms(1) rows_ok_cong [OF insert_submission_keeps(1) [OF assms(2)]] by (simp add: store_ok_def)
  ultimately have "store_ok E user h (submit_start w d)" by (simp add: store_ok_def submit_start_def)
  then show ?thesis using store_ok_working [of E user h "submit_start w d"] by (simp add: submit_start_def)
qed

lemma no_self_moves_cong:
  "entry_rows d' = entry_rows d \<Longrightarrow> no_self_moves user writer ops d' = no_self_moves user writer ops d"
  by (simp add: no_self_moves_def self_move_def entry_by_source_key_def row_by_source_key_def)

lemma cleanup_store_ok:
  assumes "journal E user h s0 w" "rows_ok E user h (w_db w) (w_fs w)" "cleanup_filesystem E user w = (Inr (), w')"
  shows "store_ok E user h w' \<and> pruned (w_fs w) (w_fs w') \<and> w_db w' = w_db w"
proof -
  obtain es t where t: "run_all (map (run_cleanup E user) (w_cleanup w)) (w_fs w) = (es, t)" by force
  have p: "pruned (w_fs w) t"
    by (rule run_all_cleanup_pruned [OF _ _ t]) (use assms(1) in \<open>auto simp: journal_def fs_ok_def\<close>)
  have "fs_ok E h (w_uuids w) t" using pruned_fs_ok [OF p] assms(1) by (simp add: journal_def)
  moreover have "rows_ok E user h (w_db w) t" by (rule pruned_rows_ok [OF p assms(2)])
  moreover have "w' = w\<lparr>w_fs := t\<rparr>" using assms(3) t by (simp add: cleanup_run)
  ultimately show ?thesis using p by (simp add: store_ok_def)
qed

text \<open>The files of the tree, as a reader sees them.\<close>

definition contents :: "fs \<Rightarrow> loc \<Rightarrow> bytes option" where
  "contents s q = map_option (idata s) (fm s q)"

lemma fle_contents: "fle ur t s \<Longrightarrow> contents t q = contents s q"
  by (cases "fm s q") (auto simp: fle_def contents_def)

lemma pruned_contents: "pruned s t \<Longrightarrow> \<not> backup_loc q \<Longrightarrow> \<not> prefix [objects_dir] q \<Longrightarrow> contents t q = contents s q"
  by (simp add: pruned_def contents_def)

lemma journal_cleanup:
  "journal E user h s0 w \<Longrightarrow> fs_ok E h (w_uuids w') (w_fs w') \<Longrightarrow> w_undo w' = [] \<Longrightarrow> w_cleanup w' = w_cleanup w \<Longrightarrow>
    journal E user h (w_fs w') w'"
  by (auto simp: journal_def fs_ok_def intro: fs_log.restores_Nil fle_refl)

theorem submit_guarantee:
  assumes E: "env_ok E user h" and ok: "store_ok E user h w" and ns: "no_self_moves user writer ops (w_db w)"
    and run: "submit E user writer ops w = (r, w')"
  shows "store_ok E user h w'"
    and "r = Inl e \<Longrightarrow> entry_rows (w_db w') = entry_rows (w_db w) \<and> decision_rows (w_db w') = decision_rows (w_db w) \<and>
      prefix_rows (w_db w') = prefix_rows (w_db w) \<and>
      (\<forall>q. \<not> backup_loc q \<longrightarrow> \<not> prefix [objects_dir] q \<longrightarrow> contents (w_fs w') q = contents (w_fs w) q)"
proof -
  have fs: "fs_ok E h (w_uuids w) (w_fs w)" and rows: "rows_ok E user h (w_db w) (w_fs w)"
    using ok by (simp_all add: store_ok_def)
  have wf: "wf_fs (w_fs w)" using fs by (simp add: fs_ok_def)
  let ?Q = "store_ok E user h w' \<and> (\<forall>e. r = Inl e \<longrightarrow>
      entry_rows (w_db w') = entry_rows (w_db w) \<and> decision_rows (w_db w') = decision_rows (w_db w) \<and>
      prefix_rows (w_db w') = prefix_rows (w_db w) \<and>
      (\<forall>q. \<not> backup_loc q \<longrightarrow> \<not> prefix [objects_dir] q \<longrightarrow> contents (w_fs w') q = contents (w_fs w) q))"
  have ?Q
    using run
  proof (cases rule: submit_cases)
    case (duplicate e)
    have "fs_ok E h (Suc (w_uuids w)) (w_fs w)" by (rule fle_fs_ok [OF fle_refl [OF wf] fs]) simp
    then show ?thesis using duplicate rows by (simp add: store_ok_def)
  next
    case (applied d w2)
    note ins = insert_submission_keeps [OF applied(1)]
    have ns': "no_self_moves user writer ops (w_db (submit_start w d))"
      using ns no_self_moves_cong [OF ins(1)] by (simp add: submit_start_def)
    have W2: "working E user h (w_fs w) w2"
      using run_submission_run [OF E submit_start_working [OF ok applied(1)] ns' applied(2)] by simp
    then have "store_ok E user h w'" using cleanup_store_ok [OF _ _ applied(3)] by (auto simp: working_def)
    moreover obtain t where t: "others user writer (w_db w2) = others user writer (set_submission (e_uuid E (w_uuids w))
        (\<lambda>r. r\<lparr>sub_state := APPLIED, sub_updated_at := t\<rparr>) d)"
      using run_submission_db(2) [OF applied(2)] by (auto simp: submit_start_def)
    have sr: "submission_rows (w_db w2) = update_where (\<lambda>r. sub_id r = e_uuid E (w_uuids w))
        (\<lambda>r. r\<lparr>sub_state := APPLIED, sub_updated_at := t\<rparr>) (submission_rows d)"
      using arg_cong [OF t, where f = submission_rows] by simp
    have "\<exists>s. submission_of (e_uuid E (w_uuids w)) (w_db w2) = Inr s"
      using ins(4) sr by (auto simp: submission_of_def update_where_def new_submission_def find_None_iff split: option.splits)
    ultimately show ?thesis using applied(4) by auto
  next
    case (failed d w2 exc x w3)
    note ins = insert_submission_keeps [OF failed(1)]
    have ns': "no_self_moves user writer ops (w_db (submit_start w d))"
      using ns no_self_moves_cong [OF ins(1)] by (simp add: submit_start_def)
    have J2: "journal E user h (w_fs w) w2"
      using run_submission_run [OF E submit_start_working [OF ok failed(1)] ns' failed(2)] by simp
    have d2: "w_db w2 = d" using run_submission_db(2) [OF failed(2)] by (simp add: submit_start_def)
    obtain t where t: "rollback_filesystem E user w2 = (Inr None, w2\<lparr>w_fs := t\<rparr>)" "fle [users_dir, h] t (w_fs w)"
      by (rule rollback_run [OF J2]) (use J2 in \<open>auto simp: journal_def fs_ok_def\<close>)
    then have w3: "w3 = w2\<lparr>w_fs := t\<rparr>" using failed(3) by simp
    let ?w4 = "w3\<lparr>w_clock := Suc (w_clock w3), w_db := set_submission (e_uuid E (w_uuids w))
          (\<lambda>r. r\<lparr>sub_state := FAILED, sub_error := Some (exn_text exc), sub_updated_at := e_time E (w_clock w3)\<rparr>)
          (w_db w3)\<rparr>"
    have "w_uuids w \<le> w_uuids w2"
      using run_submission_db(1) [OF failed(2)] by (simp add: submit_start_def)
    then have f4: "fs_ok E h (w_uuids w2) t" using fle_fs_ok [OF t(2) fs] by simp
    have r4: "rows_ok E user h (w_db ?w4) (w_fs ?w4)"
      using fle_rows_ok [OF t(2) rows] by (subst rows_ok_cong [of _ "w_db w"]) (simp_all add: w3 d2 ins(1))
    have "journal E user h t (?w4\<lparr>w_undo := []\<rparr>)"
      using journal_cleanup [OF J2, of "?w4\<lparr>w_undo := []\<rparr>"] f4 by (simp add: w3)
    moreover have c: "cleanup_filesystem E user (?w4\<lparr>w_undo := []\<rparr>) = (Inr (), w'\<lparr>w_undo := []\<rparr>)"
      using failed(4) by (auto simp: cleanup_run)
    ultimately have s: "store_ok E user h (w'\<lparr>w_undo := []\<rparr>) \<and> pruned t (w_fs w') \<and> w_db w' = w_db ?w4"
      using cleanup_store_ok [OF _ _ c] r4 by (simp add: w3)
    then have "store_ok E user h (w'\<lparr>w_undo := []\<rparr>)" by (rule conjunct1)
    then have "store_ok E user h w'" by (simp add: store_ok_def)
    moreover have "entry_rows (w_db w') = entry_rows (w_db w)" "decision_rows (w_db w') = decision_rows (w_db w)"
        "prefix_rows (w_db w') = prefix_rows (w_db w)"
      using s ins(1-3) by (simp_all add: w3 d2)
    ultimately show ?thesis using s fle_contents [OF t(2)] pruned_contents [of t] by simp
  qed
  then show "store_ok E user h w'"
    and "r = Inl e \<Longrightarrow> entry_rows (w_db w') = entry_rows (w_db w) \<and> decision_rows (w_db w') = decision_rows (w_db w) \<and>
      prefix_rows (w_db w') = prefix_rows (w_db w) \<and>
      (\<forall>q. \<not> backup_loc q \<longrightarrow> \<not> prefix [objects_dir] q \<longrightarrow> contents (w_fs w') q = contents (w_fs w) q)" by auto
qed

end
