(* ===== verification/Writers.thy ===== *)
theory Writers
  imports Submission
begin

text \<open>
  The writers of a user: prefixes registered for two writers do not overlap, a submission writes
  only rows at paths the writer is authorized for, and leaves the rows of the others alone.
\<close>

section \<open>Registered prefixes\<close>

definition writers_apart :: "db \<Rightarrow> bool" where
  "writers_apart d \<longleftrightarrow> (\<forall>r \<in> set (prefix_rows d). valid_path (pr_prefix r)) \<and>
     (\<forall>r \<in> set (prefix_rows d). \<forall>q \<in> set (prefix_rows d).
        pr_user r = pr_user q \<longrightarrow> pr_writer r \<noteq> pr_writer q \<longrightarrow> \<not> overlap (pr_prefix r) (pr_prefix q))"

lemma anyE_Inr_list_ex:
  assumes "\<And>x. x \<in> set xs \<Longrightarrow> f x = Inr (g x)"
  shows "anyE f xs = Inr (list_ex g xs)"
  by (rule anyE_total) (rule assms)

lemma register_prefix_cases:
  assumes "register_prefix E user writer pfx w = (r, w')" "writers_apart (w_db w)"
  obtains (invalid) m where "\<not> valid_path pfx" "r = Inl (ValueError m)" "w' = w"
  | (conflict) q where "valid_path pfx" "q \<in> set (prefix_rows (w_db w))" "pr_user q = user" "pr_writer q \<noteq> writer"
      "overlap pfx (pr_prefix q)" "r = Inl (PrefixAuthorizationError ''writer prefix overlaps'')"
      "w' = w\<lparr>w_clock := Suc (w_clock w)\<rparr>"
  | (registered) "valid_path pfx" "r = Inr ()"
      "\<forall>q \<in> set (prefix_rows (w_db w)). pr_user q = user \<longrightarrow> pr_writer q \<noteq> writer \<longrightarrow> \<not> overlap pfx (pr_prefix q)"
      "w' = w\<lparr>w_clock := Suc (w_clock w), w_db := insert_prefix \<lparr>pr_user = user, pr_writer = writer,
         pr_prefix = pfx, pr_created_at = e_time E (w_clock w)\<rparr> (w_db w)\<rparr>"
proof (cases "valid_path pfx")
  case False
  then obtain m where "normalize_path pfx = Inl (ValueError m)" using normalize_path_invalid by blast
  then have "register_prefix E user writer pfx w = (Inl (ValueError m), w)" by (simp add: register_prefix_def raise_def)
  then show thesis using assms(1) invalid [OF False, of m] by simp
next
  case True
  let ?rows = "filter (\<lambda>r. pr_user r = user \<and> pr_writer r \<noteq> writer) (prefix_rows (w_db w))"
  have c: "other_prefix_conflict (w_db w) user writer pfx = Inr (list_ex (\<lambda>r. overlap pfx (pr_prefix r)) ?rows)"
    unfolding other_prefix_conflict_def
    by (rule anyE_total) (use assms(2) True in \<open>auto simp: writers_apart_def prefixes_overlap_valid\<close>)
  show thesis
  proof (cases "list_ex (\<lambda>r. overlap pfx (pr_prefix r)) ?rows")
    case t: True
    then obtain q where "q \<in> set (prefix_rows (w_db w))" "pr_user q = user" "pr_writer q \<noteq> writer" "overlap pfx (pr_prefix q)"
      by (auto simp: list_ex_iff)
    then show thesis using assms(1) conflict [OF True, of q] c t True
      by (simp add: register_prefix_def normalize_path_valid bindS_def now_def transaction_def readE_def raise_def)
  next
    case f: False
    then have n: "\<forall>q \<in> set (prefix_rows (w_db w)). pr_user q = user \<longrightarrow> pr_writer q \<noteq> writer \<longrightarrow> \<not> overlap pfx (pr_prefix q)"
      by (auto simp: list_ex_iff)
    show thesis using assms(1) c f True
      by (intro registered [OF True _ n])
        (auto simp: register_prefix_def normalize_path_valid bindS_def now_def transaction_def readE_def on_db_def)
  qed
qed

lemma insert_prefix_rows:
  "set (prefix_rows (insert_prefix n d)) \<subseteq> insert n (set (prefix_rows d))"
  "entry_rows (insert_prefix n d) = entry_rows d" "decision_rows (insert_prefix n d) = decision_rows d"
  by (auto simp: insert_prefix_def)

lemma register_prefix_apart:
  assumes "register_prefix E user writer pfx w = (r, w')" "writers_apart (w_db w)"
  shows "writers_apart (w_db w')"
  using assms
proof (cases rule: register_prefix_cases)
  case registered
  let ?n = "\<lparr>pr_user = user, pr_writer = writer, pr_prefix = pfx, pr_created_at = e_time E (w_clock w)\<rparr>"
  have "a \<in> set (prefix_rows (w_db w')) \<Longrightarrow> a = ?n \<or> a \<in> set (prefix_rows (w_db w))" for a
    using insert_prefix_rows(1) [of ?n "w_db w"] registered(4) by auto
  then show ?thesis using assms(2) registered(1,3) overlap_sym unfolding writers_apart_def
    by (smt (verit) prefix_row.select_convs)
qed (use assms(2) in auto)

lemma register_prefix_store_ok:
  assumes "register_prefix E user' writer pfx w = (r, w')" "writers_apart (w_db w)" "store_ok E user h w"
  shows "store_ok E user h w'"
  using assms(1,2)
  by (cases rule: register_prefix_cases) (use assms(3) in \<open>auto simp: store_ok_def insert_prefix_rows intro: rows_ok_cong [THEN iffD2]\<close>)

lemma require_authorized_Inr:
  assumes "writers_apart d"
  shows "require_authorized_path user writer p d = Inr () \<longleftrightarrow> valid_path p \<and>
    (\<exists>r \<in> set (prefix_rows d). pr_user r = user \<and> pr_writer r = writer \<and> path_within p (pr_prefix r))"
proof (cases "valid_path p")
  case True
  have "anyE (path_is_within_prefix p) (writer_prefixes d user writer)
      = Inr (list_ex (path_within p) (writer_prefixes d user writer))"
    by (rule anyE_total) (use assms True in \<open>auto simp: writers_apart_def writer_prefixes_def path_is_within_prefix_Inr\<close>)
  then show ?thesis using True
    by (auto simp: require_authorized_path_def list_ex_iff writer_prefixes_def)
next
  case False
  then have "path_is_within_prefix p x \<noteq> Inr b" for x b by (simp add: path_is_within_prefix_Inr)
  then have "anyE (path_is_within_prefix p) xs \<noteq> Inr True" for xs
    by (induction xs) (auto simp: bindE_def split: sum.splits)
  then show ?thesis using False by (auto simp: require_authorized_path_def bindE_def split: sum.splits if_splits)
qed

lemma authorized_unique:
  assumes "writers_apart d" "require_authorized_path user writer p d = Inr ()"
    "require_authorized_path user writer' p d = Inr ()"
  shows "writer = writer'"
  using assms overlap_shared unfolding require_authorized_Inr [OF assms(1)] writers_apart_def by metis

lemma require_authorized_cong:
  "prefix_rows d = prefix_rows d' \<Longrightarrow> require_authorized_path user writer p d = require_authorized_path user writer p d'"
  by (simp add: require_authorized_path_def writer_prefixes_def)

section \<open>Authorization of what a submission writes\<close>

text \<open>
  The rows since \<open>d0\<close>: a new or changed row is the writer's, at a path it is authorized for, or one
  of \<open>K\<close>, the sources parked while a cycle of moves is broken.
\<close>

definition written :: "str \<Rightarrow> str \<Rightarrow> db \<Rightarrow> (str \<times> str \<times> str) set \<Rightarrow> db \<Rightarrow> bool" where
  "written user writer d0 K d \<longleftrightarrow> prefix_rows d = prefix_rows d0 \<and>
     (\<forall>r \<in> set (entry_rows d). r \<in> set (entry_rows d0) \<or> row_user r = user \<and> row_writer r = writer \<and>
        (require_authorized_path user writer (entry_path r) d0 = Inr () \<or> ident r \<in> K))"

lemma written_mono: "written user writer d0 K d \<Longrightarrow> K \<subseteq> K' \<Longrightarrow> written user writer d0 K' d"
  by (auto simp: written_def)

lemma upsert_entry_written:
  assumes "written user writer d0 K d" "upsert_entry n d = Inr d'" "row_user n = user" "row_writer n = writer"
    "require_authorized_path user writer (entry_path n) d0 = Inr ()"
  shows "written user writer d0 K d'"
proof -
  have "prefix_rows d' = prefix_rows d" using assms(2) by (auto simp: upsert_entry_def Let_def split: if_splits)
  moreover have "r \<in> set (entry_rows d) \<or> (\<exists>c. r = n\<lparr>created_at := c\<rparr>) \<or> r = n" if "r \<in> set (entry_rows d')" for r
    using assms(2) that by (auto simp: upsert_entry_def Let_def set_update_where split: if_splits)
  ultimately show ?thesis using assms unfolding written_def by fastforce
qed

lemma update_entry_written:
  assumes "written user writer d0 K d" "update_entry user writer sk p f d = Inr d'" "\<And>r. ident (f r) = ident r"
    and "require_authorized_path user writer p d0 = Inr () \<or> (user, writer, sk) \<in> K'" "K \<subseteq> insert (user, writer, sk) K'"
  shows "written user writer d0 K' d'"
proof -
  have "prefix_rows d' = prefix_rows d" using assms(2) by (auto simp: update_entry_def split: if_splits)
  moreover have "r \<in> set (entry_rows d) \<and> ident r \<noteq> (user, writer, sk) \<or> ident r = (user, writer, sk) \<and> entry_path r = p"
    if r: "r \<in> set (entry_rows d')" for r
  proof -
    have "set (entry_rows d') = (\<lambda>q. if same_source user writer sk q then (f q)\<lparr>entry_path := p\<rparr> else q) ` set (entry_rows d)"
      using assms(2) by (auto simp only: update_entry_def set_update_where [symmetric] split: if_splits) auto
    then obtain q where "q \<in> set (entry_rows d)" "r = (if same_source user writer sk q then (f q)\<lparr>entry_path := p\<rparr> else q)"
      using r by blast
    moreover have "ident ((f q)\<lparr>entry_path := p\<rparr>) = ident q" for q using assms(3) [of q] by (simp add: ident_def)
    ultimately show ?thesis by (auto simp: same_source_ident)
  qed
  ultimately show ?thesis using assms(1,4,5) unfolding written_def by (fastforce simp: ident_def)
qed

lemma readE_Inr: "readE f w = (Inr x, w') \<longleftrightarrow> f (w_db w) = Inr x \<and> w' = w"
  by (auto simp: readE_def)

lemma liftE_Inr: "liftE v w = (Inr x, w') \<longleftrightarrow> v = Inr x \<and> w' = w"
  by (auto simp: liftE_def)

lemma on_dbE_Inr: "on_dbE f w = (Inr u, w') \<longleftrightarrow> (\<exists>d. f (w_db w) = Inr d \<and> w' = w\<lparr>w_db := d\<rparr>)"
  by (auto simp: on_dbE_def split: sum.splits)

lemma put_op_written:
  assumes "put_op E user writer op w = (Inr (), w')" "written user writer d0 K (w_db w)"
  shows "written user writer d0 K (w_db w')"
proof -
  obtain p body data t w1 w2 oid where s: "normalize_path (put_path op) = Inr p"
      "require_authorized_path user writer p (w_db w) = Inr ()" "now E w = (Inr t, w1)"
      "put_tree E user p data (entry_by_source_key user writer (put_source_key op) (w_db w1)) w1 = (Inr oid, w2)"
      "\<exists>d. upsert_entry (put_entry_row user writer op p body data (sha256 E data) oid
        (case entry_by_source_key user writer (put_source_key op) (w_db w1) of Some e \<Rightarrow> created_at e | None \<Rightarrow> t) t) (w_db w2) = Inr d
        \<and> w_db w' = d"
    using assms(1) by (auto simp: put_op_def bindS_Inr_iff bindS_gets_modify readE_Inr liftE_Inr on_dbE_Inr)
  have d: "w_db w1 = w_db w" "w_db w2 = w_db w1"
    using s(3) keeps_dbD(1) [OF keeps_db_put(3) s(4)] by (auto simp: now_def)
  have a: "require_authorized_path user writer p d0 = Inr ()"
    using s(2) assms(2) require_authorized_cong [of "w_db w" d0] by (simp add: written_def)
  have w2: "written user writer d0 K (w_db w2)" using assms(2) d by simp
  from s(5) obtain n where n: "upsert_entry n (w_db w2) = Inr (w_db w')" "row_user n = user" "row_writer n = writer"
      "entry_path n = p" by (fastforce simp: put_entry_row_def)
  show ?thesis by (rule upsert_entry_written [OF w2 n(1,2,3)]) (simp add: n(4) a)
qed

lemma delete_op_written:
  assumes "delete_op E user writer op w = (Inr (), w')" "written user writer d0 K (w_db w)"
  shows "written user writer d0 K (w_db w')"
proof -
  have "others user writer (w_db w') = others user writer (w_db w)" using stepsD(1) [OF frame.steps_delete assms(1)] .
  then have "prefix_rows (w_db w') = prefix_rows (w_db w)" by (metis others_simps(1))
  then show ?thesis using delete_op_rows [OF assms(1)] assms(2) by (auto simp: written_def)
qed

lemma decision_op_written:
  assumes "decision_op E user writer op w = (Inr (), w')" "written user writer d0 K (w_db w)"
  shows "written user writer d0 K (w_db w')"
proof -
  have o: "others user writer (w_db w') = others user writer (w_db w)" using stepsD(1) [OF frame.steps_decide assms(1)] .
  then have "prefix_rows (w_db w') = prefix_rows (w_db w)" by (metis others_simps(1))
  moreover have "entry_rows (w_db w') = entry_rows (w_db w)"
    using assms(1) by (auto simp: decision_op_def bindS_Inr_iff liftE_Inr now_def act_simps on_db_def readE_Inr split: option.splits)
  ultimately show ?thesis using assms(2) by (simp add: written_def)
qed

lemma park_row_written:
  assumes "park_row E user writer sk p w = (Inr (), w')" "written user writer d0 K (w_db w)" "(user, writer, sk) \<in> K"
  shows "written user writer d0 K (w_db w')"
proof (cases "update_entry user writer sk p (\<lambda>r. r\<lparr>updated_at := e_time E (w_clock w)\<rparr>) (w_db w)")
  case (Inl e)
  then show ?thesis using assms(1) by (simp add: park_row_run)
next
  case (Inr d)
  have "w_db w' = d" using assms(1) Inr by (auto simp: park_row_run)
  moreover have "written user writer d0 K d"
    by (rule update_entry_written [OF assms(2) Inr]) (use assms(3) in \<open>simp_all add: ident_def subset_insertI\<close>)
  ultimately show ?thesis by simp
qed

lemma move_one_Inr:
  "move_one E user writer by_source temps op w = (Inr (), w') \<longleftrightarrow>
     (\<exists>e p w1 d. lookup_key by_source (move_source_key op) = Inr e \<and> normalize_path (move_path op) = Inr p \<and>
        move_file E user temps (entry_path e) p w = (Inr (), w1) \<and>
        update_entry user writer (move_source_key op) p
          (\<lambda>r. r\<lparr>source_version := move_source_version op, updated_at := e_time E (w_clock w1)\<rparr>) (w_db w1) = Inr d \<and>
        w' = w1\<lparr>w_clock := Suc (w_clock w1), w_db := d\<rparr>)"
  by (simp add: move_one_def bindS_Inr_iff liftE_Inr on_dbE_Inr now_def del: normalize_path_Inr_iff)

lemma move_one_written:
  assumes "move_one E user writer by_source temps op w = (Inr (), w')" "written user writer d0 K (w_db w)"
    and "\<And>p. normalize_path (move_path op) = Inr p \<Longrightarrow> require_authorized_path user writer p d0 = Inr ()"
  shows "written user writer d0 (K - {(user, writer, move_source_key op)}) (w_db w')"
proof -
  obtain e :: entry and p w1 d where s: "normalize_path (move_path op) = Inr p" "move_file E user temps (entry_path e) p w = (Inr (), w1)"
      "update_entry user writer (move_source_key op) p
        (\<lambda>r. r\<lparr>source_version := move_source_version op, updated_at := e_time E (w_clock w1)\<rparr>) (w_db w1) = Inr d" "w_db w' = d"
    using assms(1) unfolding move_one_Inr by (elim exE conjE) (rule that, assumption+, simp)
  have "keeps_db (move_file E user temps (entry_path e) p)" unfolding move_file_def by (intro keeps_db_rules)
  then have "w_db w1 = w_db w" using keeps_dbD(1) s(2) by blast
  then show ?thesis
    unfolding s(4) using assms(2)
    by (intro update_entry_written [OF _ s(3)]) (use assms(3) [OF s(1)] in \<open>auto simp: ident_def\<close>)
qed

lemma move_loop_written:
  assumes "forS ops (move_one E user writer by_source temps) w = (Inr (), w')" "written user writer d0 K (w_db w)"
    and "\<And>op p. op \<in> set ops \<Longrightarrow> normalize_path (move_path op) = Inr p \<Longrightarrow> require_authorized_path user writer p d0 = Inr ()"
  shows "written user writer d0 (K - (\<lambda>op. (user, writer, move_source_key op)) ` set ops) (w_db w')"
  using assms
proof (induction ops arbitrary: w K)
  case Nil
  then show ?case by (auto simp: act_simps)
next
  case (Cons op ops)
  then obtain w1 where w1: "move_one E user writer by_source temps op w = (Inr (), w1)"
      "forS ops (move_one E user writer by_source temps) w1 = (Inr (), w')"
    by (auto simp: bindS_Inr_iff)
  have "written user writer d0 (K - {(user, writer, move_source_key op)}) (w_db w1)"
    using move_one_written [OF w1(1) Cons.prems(2)] Cons.prems(3) by auto
  then have "written user writer d0 (K - {(user, writer, move_source_key op)} - (\<lambda>op. (user, writer, move_source_key op)) ` set ops) (w_db w')"
    using Cons.IH [OF w1(2)] Cons.prems(3) by auto
  then show ?case by (rule written_mono) auto
qed

lemma fold_update_keys: "fst ` set (fold (\<lambda>(k, v). AList.update k v) xs ys) \<subseteq> fst ` set xs \<union> fst ` set ys"
proof (induction xs arbitrary: ys)
  case (Cons x xs)
  have "fst ` set (AList.update (fst x) (snd x) ys) \<subseteq> insert (fst x) (fst ` set ys)" by (induction ys) auto
  then show ?case using Cons [of "AList.update (fst x) (snd x) ys"] by (simp add: split_def) blast
qed simp

lemma park_loop_written:
  assumes "forS temps (\<lambda>(old_path, _, temp_path). bindS (liftE (lookup_key keyp old_path))
      (\<lambda>sk. park_row E user writer sk temp_path)) w = (Inr u, w')" "written user writer d0 K (w_db w)"
    and keyp: "\<And>p sk. map_of keyp p = Some sk \<Longrightarrow> (user, writer, sk) \<in> K"
  shows "written user writer d0 K (w_db w')"
  using assms(1,2)
proof (induction temps arbitrary: w)
  case (Cons t temps)
  obtain old l p where t: "t = (old, l, p)" by (cases t) auto
  then obtain sk w1 where s: "map_of keyp old = Some sk" "park_row E user writer sk p w = (Inr (), w1)"
      "forS temps (\<lambda>(old_path, _, temp_path). bindS (liftE (lookup_key keyp old_path))
        (\<lambda>sk. park_row E user writer sk temp_path)) w1 = (Inr u, w')"
    using Cons.prems(1) by (auto simp: bindS_Inr_iff liftE_Inr lookup_key_def split: option.splits)
  show ?case by (rule Cons.IH [OF s(3) park_row_written [OF s(2) Cons.prems(2) keyp [OF s(1)]]])
qed (simp add: act_simps)

lemma move_batch_written:
  assumes run: "move_batch E user writer ops w = (Inr (), w')" and W: "written user writer d0 {} (w_db w)"
  shows "written user writer d0 {} (w_db w')"
proof (cases "ops = []")
  case True
  then show ?thesis using run W by (simp add: move_batch_def act_simps)
next
  case False
  let ?K = "(\<lambda>op. (user, writer, move_source_key op)) ` set ops"
  obtain pairs locations ds temps u w1 w2 where
    p: "mapE (\<lambda>op. bindE (validated_move_entry user writer op (w_db w)) (\<lambda>e. Inr (move_source_key op, e))) ops = Inr pairs"
    and br: "break_move_cycles E user ds locations w = (Inr temps, w1)"
    and pk: "forS temps (\<lambda>(old_path, _, temp_path). bindS (liftE (lookup_key (fold (\<lambda>(k, e). AList.update (entry_path e) k)
        (fold (\<lambda>(k, e). AList.update k e) pairs []) []) old_path)) (\<lambda>sk. park_row E user writer sk temp_path)) w1 = (Inr u, w2)"
    and lp: "forS ops (move_one E user writer (fold (\<lambda>(k, e). AList.update k e) pairs []) temps) w2 = (Inr (), w')"
    using run False unfolding move_batch_def Let_def if_not_P [OF False] bindS_Inr_iff readE_Inr liftE_Inr
    by (elim exE conjE, hypsubst) (rule that, assumption+)
  have keys: "k \<in> move_source_key ` set ops" if "(k, e) \<in> set (fold (\<lambda>(k, e). AList.update k e) pairs [])" for k e
  proof -
    have "k \<in> fst ` set pairs" using fold_update_keys [of pairs "[]"] imageI [OF that, of fst] by auto
    then obtain e' where "(k, e') \<in> set pairs" by force
    then show ?thesis by (rule mapE_set [OF p]) (auto simp: bindE_def split: sum.splits)
  qed
  have d1: "w_db w1 = w_db w"
    by (rule keeps_dbD(1) [where m = "break_move_cycles E user ds locations", OF _ br]) (simp add: break_move_cycles_def keeps_db_break)
  have "written user writer d0 ?K (w_db w1)" using written_mono [OF W, of ?K] d1 by simp
  then have "written user writer d0 ?K (w_db w2)"
  proof (rule park_loop_written [OF pk])
    fix q sk assume "map_of (fold (\<lambda>(k, e). AList.update (entry_path e) k) (fold (\<lambda>(k, e). AList.update k e) pairs []) []) q = Some sk"
    then have "\<exists>e. (sk, e) \<in> set (fold (\<lambda>(k, e). AList.update k e) pairs [])"
      using map_of_fold_update [of "entry_path \<circ> snd" fst "fold (\<lambda>(k, e). AList.update k e) pairs []" "[]" q sk]
      by (auto simp: split_def)
    then show "(user, writer, sk) \<in> ?K" using keys by auto
  qed
  then have "written user writer d0 (?K - ?K) (w_db w')"
  proof (rule move_loop_written [OF lp])
    fix op q assume op: "op \<in> set ops" "normalize_path (move_path op) = Inr q"
    have "list_all2 (\<lambda>op y. bindE (validated_move_entry user writer op (w_db w)) (\<lambda>e. Inr (move_source_key op, e)) = Inr y) ops pairs"
      using p by (simp add: mapE_Inr_all2)
    then obtain y where "bindE (validated_move_entry user writer op (w_db w)) (\<lambda>e. Inr (move_source_key op, e)) = Inr y"
      using op(1) by (auto simp: list_all2_conv_all_nth in_set_conv_nth)
    then have "require_authorized_path user writer q (w_db w) = Inr ()"
      using op(2) by (auto simp: validated_move_entry_def bindE_Inr_iff)
    then show "require_authorized_path user writer q d0 = Inr ()"
      using W require_authorized_cong [of "w_db w" d0] by (simp add: written_def)
  qed
  then show ?thesis by simp
qed

lemma apply_written:
  assumes "apply_operations E user writer ops w = (Inr (), w')" "written user writer d0 {} (w_db w)"
  shows "written user writer d0 {} (w_db w')"
  using assms
proof (induction ops arbitrary: w rule: length_induct)
  case (1 ops)
  show ?case
  proof (cases ops)
    case Nil
    then show ?thesis using "1.prems" by (simp add: act_simps)
  next
    case (Cons op rest)
    have len: "length (dropWhile (\<lambda>p. kind p = MOVE) rest) < length ops"
      using length_dropWhile_le [of "\<lambda>p. kind p = MOVE" rest] Cons by simp
    show ?thesis
    proof (cases op)
      case (Move m)
      then obtain w1 where w1: "move_batch E user writer (m # moves_of (takeWhile (\<lambda>p. kind p = MOVE) rest)) w = (Inr (), w1)"
          "apply_operations E user writer (dropWhile (\<lambda>p. kind p = MOVE) rest) w1 = (Inr (), w')"
        using "1.prems"(1) Cons by (auto simp: bindS_Inr_iff)
      show ?thesis using "1.IH" len w1(2) move_batch_written [OF w1(1) "1.prems"(2)] by blast
    next
      case (Put x)
      then obtain w1 where w1: "put_op E user writer x w = (Inr (), w1)" "apply_operations E user writer rest w1 = (Inr (), w')"
        using "1.prems"(1) Cons by (auto simp: bindS_Inr_iff)
      show ?thesis using "1.IH" Cons w1(2) put_op_written [OF w1(1) "1.prems"(2)] by auto
    next
      case (Delete x)
      then obtain w1 where w1: "delete_op E user writer x w = (Inr (), w1)" "apply_operations E user writer rest w1 = (Inr (), w')"
        using "1.prems"(1) Cons by (auto simp: bindS_Inr_iff)
      show ?thesis using "1.IH" Cons w1(2) delete_op_written [OF w1(1) "1.prems"(2)] by auto
    next
      case (Decide x)
      then obtain w1 where w1: "decision_op E user writer x w = (Inr (), w1)" "apply_operations E user writer rest w1 = (Inr (), w')"
        using "1.prems"(1) Cons by (auto simp: bindS_Inr_iff)
      show ?thesis using "1.IH" Cons w1(2) decision_op_written [OF w1(1) "1.prems"(2)] by auto
    qed
  qed
qed

section \<open>The catalogue after a submission\<close>

lemma transaction_Inr: "transaction m w = (Inr x, w') \<longleftrightarrow> m w = (Inr x, w')"
  by (auto simp: transaction_def split: prod.splits sum.splits)

lemma find_last: "(\<And>y. y \<in> set xs \<Longrightarrow> \<not> P y) \<Longrightarrow> P x \<Longrightarrow> List.find P (xs @ [x]) = Some x"
  by (induction xs) auto

lemma set_submission_new:
  assumes "insert_submission s d = Inr d'"
  shows "submission_rows (set_submission (sub_id s) f d') = submission_rows d @ [f s]"
proof -
  note ins = insert_submission_keeps [OF assms]
  have "update_where (\<lambda>r. sub_id r = sub_id s) f (submission_rows d) = submission_rows d"
    using ins(5) by (auto simp: update_where_def intro!: map_idI)
  then show ?thesis using ins(4) by (simp add: update_where_def)
qed

lemma submit_db:
  assumes run: "submit E user writer ops w = (r, w')"
  defines "n \<equiv> new_submission E user writer ops w"
  shows "(others user writer (w_db w'))\<lparr>submission_rows := []\<rparr> = (others user writer (w_db w))\<lparr>submission_rows := []\<rparr>"
    and "r = Inl e \<Longrightarrow> entry_rows (w_db w') = entry_rows (w_db w) \<and> decision_rows (w_db w') = decision_rows (w_db w) \<and>
      (submission_rows (w_db w') = submission_rows (w_db w) \<or> (\<exists>m t. submission_rows (w_db w') =
         submission_rows (w_db w) @ [n\<lparr>sub_state := FAILED, sub_error := Some m, sub_updated_at := t\<rparr>]))"
    and "r = Inr s \<Longrightarrow> s = \<lparr>submission_id = sub_id n, submission_state = APPLIED, operation_count = length ops,
        submission_error = None\<rparr> \<and>
      (\<exists>t. submission_rows (w_db w') = submission_rows (w_db w) @ [n\<lparr>sub_state := APPLIED, sub_updated_at := t\<rparr>]) \<and>
      written user writer (w_db w) {} (w_db w')"
proof -
  let ?E = "\<lambda>e. r = Inl e \<longrightarrow> entry_rows (w_db w') = entry_rows (w_db w) \<and> decision_rows (w_db w') = decision_rows (w_db w) \<and>
      (submission_rows (w_db w') = submission_rows (w_db w) \<or> (\<exists>m t. submission_rows (w_db w') =
         submission_rows (w_db w) @ [n\<lparr>sub_state := FAILED, sub_error := Some m, sub_updated_at := t\<rparr>]))"
  let ?S = "\<lambda>s. r = Inr s \<longrightarrow> s = \<lparr>submission_id = sub_id n, submission_state = APPLIED, operation_count = length ops,
        submission_error = None\<rparr> \<and>
      (\<exists>t. submission_rows (w_db w') = submission_rows (w_db w) @ [n\<lparr>sub_state := APPLIED, sub_updated_at := t\<rparr>]) \<and>
      written user writer (w_db w) {} (w_db w')"
  let ?O = "(others user writer (w_db w'))\<lparr>submission_rows := []\<rparr> = (others user writer (w_db w))\<lparr>submission_rows := []\<rparr>"
  have id: "sub_id n = e_uuid E (w_uuids w)" by (simp add: n_def new_submission_def)
  have c: "others user writer (set_submission sid f d) = set_submission sid f (others user writer d)" for sid f d
    by (simp add: others_def set_submission_def)
  have "?O \<and> ?E e \<and> ?S s"
    using run
  proof (cases rule: submit_cases)
    case (duplicate x)
    then show ?thesis by simp
  next
    case (applied d w2)
    note ins = insert_submission_keeps [OF applied(1)]
    obtain t where t: "others user writer (w_db w2) = others user writer (set_submission (sub_id n)
        (\<lambda>r. r\<lparr>sub_state := APPLIED, sub_updated_at := t\<rparr>) d)"
      using run_submission_db(2) [OF applied(2)] by (auto simp: submit_start_def id)
    have db: "w_db w' = w_db w2" using applied(3) by (auto simp: cleanup_run)
    have "submission_rows (w_db w2) = submission_rows (set_submission (sub_id n) (\<lambda>r. r\<lparr>sub_state := APPLIED, sub_updated_at := t\<rparr>) d)"
      using arg_cong [OF t, where f = submission_rows] by (simp only: others_simps)
    then have sr: "submission_rows (w_db w2) = submission_rows (w_db w) @ [n\<lparr>sub_state := APPLIED, sub_updated_at := t\<rparr>]"
      using set_submission_new [OF applied(1)] by (simp add: n_def)
    have nid: "sub_id r \<noteq> sub_id n" if "r \<in> set (submission_rows (w_db w))" for r
      using ins(5) that by (simp add: n_def)
    have f: "List.find (\<lambda>r. sub_id r = sub_id n) (submission_rows (w_db w2)) = Some (n\<lparr>sub_state := APPLIED, sub_updated_at := t\<rparr>)"
      unfolding sr by (rule find_last) (use nid in auto)
    have s: "r = Inr \<lparr>submission_id = sub_id n, submission_state = APPLIED, operation_count = length ops, submission_error = None\<rparr>"
      using applied(4) f by (simp add: submission_of_def id n_def new_submission_def)
    have o: ?O using arg_cong [OF t, where f = "\<lambda>d. d\<lparr>submission_rows := []\<rparr>"] ins(6)
      by (simp add: db c) (simp add: set_submission_def others_def)
    have "written user writer (w_db w) {} d" using ins(1,3) by (simp add: written_def)
    moreover obtain ordered w3 where ap: "apply_operations E user writer ordered (submit_start w d) = (Inr (), w3)"
        "entry_rows (w_db w2) = entry_rows (w_db w3)" "prefix_rows (w_db w2) = prefix_rows (w_db w3)"
      using run_submission_cases [OF applied(2)]
      by (auto simp: transaction_Inr bindS_Inr_iff now_def on_db_def)
    ultimately have "written user writer (w_db w) {} (w_db w3)"
      using apply_written [OF ap(1)] by (simp add: submit_start_def)
    then have "written user writer (w_db w) {} (w_db w')" using ap(2,3) by (simp add: written_def db)
    then show ?thesis using s o sr db by auto
  next
    case (failed d w2 exc x w3)
    note ins = insert_submission_keeps [OF failed(1)]
    have d2: "w_db w2 = d" using run_submission_db(2) [OF failed(2)] by (simp add: submit_start_def)
    have w3: "w_db w3 = d"
      using failed(3) d2 by (auto simp: rollback_filesystem_def split: prod.splits)
    have db: "w_db w' = set_submission (sub_id n)
          (\<lambda>r. r\<lparr>sub_state := FAILED, sub_error := Some (exn_text exc), sub_updated_at := e_time E (w_clock w3)\<rparr>) d"
      using arg_cong [OF failed(4), where f = "w_db \<circ> snd"] w3 by (simp add: cleanup_run id)
    have "submission_rows (w_db w') = submission_rows (w_db w) @
        [n\<lparr>sub_state := FAILED, sub_error := Some (exn_text exc), sub_updated_at := e_time E (w_clock w3)\<rparr>]"
      using set_submission_new [OF failed(1)] by (simp add: db n_def)
    moreover have ?O using ins(6) by (simp add: db set_submission_def others_def)
    moreover have "entry_rows (w_db w') = entry_rows (w_db w)" "decision_rows (w_db w') = decision_rows (w_db w)"
      using ins(1,2) by (simp_all add: db)
    moreover have "r \<noteq> Inr s" using failed(5) by simp
    ultimately show ?thesis by blast
  qed
  then show ?O and "r = Inl e \<Longrightarrow> entry_rows (w_db w') = entry_rows (w_db w) \<and> decision_rows (w_db w') = decision_rows (w_db w) \<and>
      (submission_rows (w_db w') = submission_rows (w_db w) \<or> (\<exists>m t. submission_rows (w_db w') =
         submission_rows (w_db w) @ [n\<lparr>sub_state := FAILED, sub_error := Some m, sub_updated_at := t\<rparr>]))"
    and "r = Inr s \<Longrightarrow> s = \<lparr>submission_id = sub_id n, submission_state = APPLIED, operation_count = length ops,
        submission_error = None\<rparr> \<and>
      (\<exists>t. submission_rows (w_db w') = submission_rows (w_db w) @ [n\<lparr>sub_state := APPLIED, sub_updated_at := t\<rparr>]) \<and>
      written user writer (w_db w) {} (w_db w')" by blast+
qed

text \<open>A store that is opened for the first time is complete.\<close>

lemma store_ok_new_world: "env_ok E user h \<Longrightarrow> store_ok E user h new_world"
proof -
  have l: "look new_fs q = (if q = [] \<or> q \<in> {[users_dir], [objects_dir], [undo_dir]} then Some Dir else None)" for q
    by (auto simp: look_def new_fs_def)
  then have f: "fm new_fs q = None" for q by (auto simp: fm_None_iff)
  have "wf_fs new_fs" by (auto simp: wf_fs_def l split: if_splits)
  moreover have "look new_fs q = None" if "uuid_loc E h n q" for n q
    using that by (auto simp: uuid_loc_def l)
  ultimately show ?thesis
    by (auto simp: store_ok_def fs_ok_def f new_world_def rows_ok_def empty_db_def keys_ok_def)
qed

section \<open>The histories of a user's store\<close>

text \<open>
  The worlds that prefix registrations and submissions of one user reach from a new store. A
  submission that moves an entry to the path it already has is left out: the code loses its file
  (the root theory proves it).
\<close>

inductive history :: "env \<Rightarrow> str \<Rightarrow> world \<Rightarrow> bool" for E user where
  opened: "history E user new_world"
| registered: "history E user w \<Longrightarrow> register_prefix E user writer pfx w = (r, w') \<Longrightarrow> history E user w'"
| submitted: "history E user w \<Longrightarrow> no_self_moves user writer ops (w_db w) \<Longrightarrow>
    submit E user writer ops w = (s, w') \<Longrightarrow> history E user w'"

lemma submit_prefix_rows:
  assumes "submit E user writer ops w = (r, w')"
  shows "prefix_rows (w_db w') = prefix_rows (w_db w)"
  using arg_cong [OF submit_db(1) [OF assms], where f = prefix_rows] by (simp add: others_def)

lemma history_ok:
  assumes "history E user w" "env_ok E user h"
  shows "store_ok E user h w \<and> writers_apart (w_db w)"
  using assms(1)
proof (induction rule: history.induct)
  case opened
  then show ?case using store_ok_new_world [OF assms(2)] by (simp add: writers_apart_def new_world_def empty_db_def)
next
  case (registered w writer pfx r w')
  then show ?case using register_prefix_apart register_prefix_store_ok by blast
next
  case (submitted w writer ops s w')
  have "writers_apart (w_db w')"
    using submitted.IH submit_prefix_rows [OF submitted.hyps(3)] by (simp add: writers_apart_def)
  then show ?case using submit_guarantee(1) [OF assms(2) _ submitted.hyps(2,3)] submitted.IH by blast
qed

end
