(* ===== verification/Service.thy ===== *)
theory Service
  imports Reads Writers
begin

text \<open>
  The service boundary of \<open>src/ctxfs/service.py\<close>: the durable queue that accepts submissions, the
  applier that drains it into the store, and the management operations that delete a prefix, an
  integration or a user. The read service passes its calls on to the store (\<open>Reads\<close>).
\<close>

section \<open>The queue\<close>

definition new_service_row :: "env \<Rightarrow> str \<Rightarrow> str \<Rightarrow> operation list \<Rightarrow> world \<Rightarrow> service_row" where
  "new_service_row E user writer ops w =
     \<lparr>sv_id = e_uuid E (w_uuids w), sv_user = user, sv_writer = writer, sv_state = QUEUED,
      sv_count = length ops, sv_operations = ops, sv_applied = None, sv_error = None,
      sv_created_at = e_time E (w_clock w), sv_updated_at = e_time E (w_clock w)\<rparr>"

definition insert_service_row :: "service_row \<Rightarrow> db \<Rightarrow> db res" where
  "insert_service_row r d =
     (if list_ex (\<lambda>q. sv_id q = sv_id r) (service_rows d)
      then Inl (IntegrityError ''UNIQUE constraint failed: service_submissions.submission_id'')
      else Inr (d\<lparr>service_rows := service_rows d @ [r]\<rparr>))"

text \<open>\<open>CtxfsWriteService.submit\<close>: the submission is accepted, not applied.\<close>

definition enqueue :: "env \<Rightarrow> str \<Rightarrow> str \<Rightarrow> operation list \<Rightarrow> (world, submission) act" where
  "enqueue E user writer ops =
     bindS (gets (new_service_row E user writer ops)) (\<lambda>row.
     bindS (fresh_uuid E) (\<lambda>sid.
     bindS (now E) (\<lambda>t.
     bindS (transaction (on_dbE (insert_service_row row))) (\<lambda>_.
     ret \<lparr>submission_id = sid, submission_state = QUEUED, operation_count = length ops,
          submission_error = None\<rparr>))))"

text \<open>
  \<open>operations_json\<close>. A row keeps the operations that \<open>json.dumps\<close> wrote; what \<open>_OPERATIONS_ADAPTER.validate_json\<close>
  makes of that text is computed when the row is used. \<open>json.dumps\<close> escapes each surrogate of a string
  on its own, and the parser joins a high surrogate with the low one that follows and refuses any
  other surrogate; every other character comes back as it is.
\<close>

fun reparse_text :: "str \<Rightarrow> str res" where
  "reparse_text [] = Inr []"
| "reparse_text [c] = (if surrogate c then invalid else Inr [c])"
| "reparse_text (c # d # s) =
     (if 0xD800 \<le> c \<and> c \<le> 0xDBFF \<and> 0xDC00 \<le> d \<and> d \<le> 0xDFFF
      then bindE (reparse_text s) (\<lambda>r. Inr ((0x10000 + (c - 0xD800) * 1024 + (d - 0xDC00)) # r))
      else if surrogate c then invalid
      else bindE (reparse_text (d # s)) (\<lambda>r. Inr (c # r)))"

definition reparse_opt :: "str option \<Rightarrow> str option res" where
  "reparse_opt v = (case v of None \<Rightarrow> Inr None | Some s \<Rightarrow> bindE (reparse_text s) (\<lambda>r. Inr (Some r)))"

definition reparse_provenance :: "provenance \<Rightarrow> provenance res" where
  "reparse_provenance p =
     bindE (reparse_text (producer p)) (\<lambda>a.
     bindE (reparse_text (producer_version p)) (\<lambda>b.
     bindE (mapE reparse_text (warnings p)) (\<lambda>ws.
     Inr (p\<lparr>producer := a, producer_version := b, warnings := ws\<rparr>))))"

fun reparse_operation :: "operation \<Rightarrow> operation res" where
  "reparse_operation (Put p) =
     bindE (reparse_text (put_path p)) (\<lambda>path.
     bindE (reparse_text (put_source_key p)) (\<lambda>k.
     bindE (reparse_text (put_source_version p)) (\<lambda>v.
     bindE (reparse_text (put_file_format p)) (\<lambda>fmt.
     bindE (reparse_text (put_text p)) (\<lambda>body.
     bindE (reparse_provenance (put_provenance p)) (\<lambda>prov.
     Inr (Put (p\<lparr>put_path := path, put_source_key := k, put_source_version := v, put_file_format := fmt,
       put_text := body, put_provenance := prov\<rparr>))))))))"
| "reparse_operation (Move m) =
     bindE (reparse_text (move_source_key m)) (\<lambda>k.
     bindE (reparse_text (move_path m)) (\<lambda>path.
     bindE (reparse_text (move_source_version m)) (\<lambda>v.
     bindE (reparse_text (move_expected_content_hash m)) (\<lambda>h.
     Inr (Move (m\<lparr>move_source_key := k, move_path := path, move_source_version := v,
       move_expected_content_hash := h\<rparr>))))))"
| "reparse_operation (Delete q) =
     bindE (reparse_text (delete_source_key q)) (\<lambda>k.
     bindE (reparse_text (delete_source_version q)) (\<lambda>v.
     Inr (Delete (q\<lparr>delete_source_key := k, delete_source_version := v\<rparr>))))"
| "reparse_operation (Decide q) =
     bindE (reparse_text (decision_source_key q)) (\<lambda>k.
     bindE (reparse_text (decision_source_version q)) (\<lambda>v.
     bindE (reparse_opt (decision_path q)) (\<lambda>path.
     bindE (reparse_opt (decision_failure_code q)) (\<lambda>code.
     bindE (reparse_opt (decision_failure_message q)) (\<lambda>msg.
     Inr (Decide (q\<lparr>decision_source_key := k, decision_source_version := v, decision_path := path,
       decision_failure_code := code, decision_failure_message := msg\<rparr>)))))))"

definition validate_operations_json :: "operation list \<Rightarrow> operation list res" where
  "validate_operations_json ops =
     bindE (mapE reparse_operation ops) (\<lambda>parsed. if list_all operation_ok parsed then Inr parsed else invalid)"

definition set_service :: "str \<Rightarrow> (service_row \<Rightarrow> service_row) \<Rightarrow> db \<Rightarrow> db" where
  "set_service sid f d = d\<lparr>service_rows := update_where (\<lambda>r. sv_id r = sid) f (service_rows d)\<rparr>"

definition mark_applied :: "env \<Rightarrow> str \<Rightarrow> nat \<Rightarrow> str \<Rightarrow> (world, submission) act" where
  "mark_applied E sid n applied_id =
     bindS (now E) (\<lambda>t.
     bindS (transaction (on_db (set_service sid
        (\<lambda>r. r\<lparr>sv_state := APPLIED, sv_applied := Some applied_id, sv_error := None, sv_updated_at := t\<rparr>)))) (\<lambda>_.
     ret \<lparr>submission_id = sid, submission_state = APPLIED, operation_count = n,
          submission_error = None\<rparr>))"

definition mark_failed :: "env \<Rightarrow> str \<Rightarrow> nat \<Rightarrow> exn \<Rightarrow> (world, submission) act" where
  "mark_failed E sid n exc =
     bindS (now E) (\<lambda>t.
     bindS (transaction (on_db (set_service sid
        (\<lambda>r. r\<lparr>sv_state := FAILED, sv_error := Some (exn_text exc), sv_updated_at := t\<rparr>)))) (\<lambda>_.
     ret \<lparr>submission_id = sid, submission_state = FAILED, operation_count = n,
          submission_error = Some (exn_text exc)\<rparr>))"

text \<open>\<open>ORDER BY created_at, submission_id\<close>.\<close>

definition queued_rows :: "db \<Rightarrow> service_row list" where
  "queued_rows d =
     sort_key (\<lambda>r. (sv_created_at r, sv_id r)) (filter (\<lambda>r. sv_state r = QUEUED) (service_rows d))"

definition apply_next :: "env \<Rightarrow> (world, submission option) act" where
  "apply_next E =
     bindS (gets (\<lambda>w. queued_rows (w_db w))) (\<lambda>rows.
     case rows of
       [] \<Rightarrow> ret None
     | row # _ \<Rightarrow>
         bindS (liftE (validate_operations_json (sv_operations row))) (\<lambda>operations.
         bindS (catchS
            (bindS (submit E (sv_user row) (sv_writer row) operations) (\<lambda>applied. ret (Inr applied)))
            (\<lambda>exc. ret (Inl exc))) (\<lambda>outcome.
         bindS (case outcome of
             Inl exc \<Rightarrow> mark_failed E (sv_id row) (sv_count row) exc
           | Inr applied \<Rightarrow> mark_applied E (sv_id row) (sv_count row) (submission_id applied)) (\<lambda>s.
         ret (Some s)))))"

definition queue_depth_of :: "db \<Rightarrow> nat" where
  "queue_depth_of d = count_where (\<lambda>r. sv_state r = QUEUED) (service_rows d)"

text \<open>What an application does to the queue: it touches no row but the one it takes.\<close>

lemma submit_service_rows:
  assumes "submit E user writer ops w = (r, w')"
  shows "service_rows (w_db w') = service_rows (w_db w)"
proof -
  have "service_rows ((others user writer (w_db w'))\<lparr>submission_rows := []\<rparr>)
      = service_rows ((others user writer (w_db w))\<lparr>submission_rows := []\<rparr>)"
    by (simp only: submit_db(1) [OF assms])
  then show ?thesis by (simp add: others_def)
qed

lemma apply_next_stuck:
  assumes "queued_rows (w_db w) = row # rows" "validate_operations_json (sv_operations row) = Inl e"
  shows "apply_next E w = (Inl e, w)"
  using assms by (simp add: apply_next_def run_simps)

text \<open>The outcome that the applier records is the outcome of the store.\<close>

definition outcome_of :: "env \<Rightarrow> submission res \<Rightarrow> nat \<Rightarrow> service_row \<Rightarrow> service_row" where
  "outcome_of E r t = (case r of
      Inl e \<Rightarrow> \<lambda>q. q\<lparr>sv_state := FAILED, sv_error := Some (exn_text e), sv_updated_at := e_time E t\<rparr>
    | Inr s \<Rightarrow> \<lambda>q. q\<lparr>sv_state := APPLIED, sv_applied := Some (submission_id s), sv_error := None, sv_updated_at := e_time E t\<rparr>)"

lemma apply_next_outcome:
  assumes "queued_rows (w_db w) = row # rows" "validate_operations_json (sv_operations row) = Inr ops"
    and "submit E (sv_user row) (sv_writer row) ops w = (r, w1)"
  shows "apply_next E w = (Inr (Some \<lparr>submission_id = sv_id row,
      submission_state = (case r of Inl _ \<Rightarrow> FAILED | Inr _ \<Rightarrow> APPLIED), operation_count = sv_count row,
      submission_error = (case r of Inl e \<Rightarrow> Some (exn_text e) | Inr _ \<Rightarrow> None)\<rparr>),
    w1\<lparr>w_clock := Suc (w_clock w1), w_db := set_service (sv_id row) (outcome_of E r (w_clock w1)) (w_db w1)\<rparr>)"
  using assms
  by (cases r) (simp_all add: apply_next_def run_simps mark_failed_def mark_applied_def now_def transaction_def on_db_def
      set_service_def outcome_of_def)

lemma apply_next_cases:
  assumes "apply_next E w = (x, w')"
  obtains (empty) "queued_rows (w_db w) = []" "x = Inr None" "w' = w"
  | (stuck) row rows e where "queued_rows (w_db w) = row # rows" "validate_operations_json (sv_operations row) = Inl e"
      "x = Inl e" "w' = w"
  | (taken) row rows ops s f where "queued_rows (w_db w) = row # rows" "validate_operations_json (sv_operations row) = Inr ops"
      "x = Inr (Some s)" "submission_id s = sv_id row"
      "operation_count s = sv_count row" "submission_state s \<in> {APPLIED, FAILED}"
      "service_rows (w_db w') = update_where (\<lambda>r. sv_id r = sv_id row) f (service_rows (w_db w))"
      "\<And>r. sv_state (f r) = submission_state s \<and> sv_id (f r) = sv_id r \<and> sv_error (f r) = submission_error s"
proof (cases "queued_rows (w_db w)")
  case Nil
  then have "(x, w') = (Inr None, w)" using assms by (simp add: apply_next_def run_simps)
  then show thesis using Nil by (intro empty) simp_all
next
  case (Cons row rows)
  show thesis
  proof (cases "validate_operations_json (sv_operations row)")
    case (Inl e)
    then show thesis using stuck [OF Cons Inl] apply_next_stuck [OF Cons Inl, of E] assms by simp
  next
    case (Inr ops)
    obtain r w1 where w1: "submit E (sv_user row) (sv_writer row) ops w = (r, w1)" by force
    note a = apply_next_outcome [OF Cons Inr w1] submit_service_rows [OF w1]
    show thesis
      by (rule taken [OF Cons Inr, where f = "outcome_of E r (w_clock w1)"])
        (use a assms in \<open>auto simp: set_service_def outcome_of_def split: sum.splits\<close>)
  qed
qed

lemma queued_head: "queued_rows d = row # rows \<Longrightarrow> row \<in> set (service_rows d) \<and> sv_state row = QUEUED"
  using set_sort [of "\<lambda>r. (sv_created_at r, sv_id r)" "filter (\<lambda>r. sv_state r = QUEUED) (service_rows d)"]
  by (auto simp: queued_rows_def)

lemma count_update_less:
  assumes "r \<in> set rows" "P r" "c r" "\<And>r. \<not> P (f r)"
  shows "count_where P (update_where c f rows) < count_where P rows"
proof -
  have le: "count_where P (update_where c f xs) \<le> count_where P xs" for xs
    using assms(4) by (induction xs) (auto simp: count_where_def update_where_def)
  show ?thesis using assms(1)
  proof (induction rows)
    case (Cons x rows)
    then show ?case using assms(2-4) le [of rows] by (auto simp: count_where_def update_where_def less_Suc_eq_le)
  qed simp
qed

lemma apply_next_fewer:
  assumes "apply_next E w = (Inr (Some s), w')"
  shows "queue_depth_of (w_db w') < queue_depth_of (w_db w)"
  using assms
proof (cases rule: apply_next_cases)
  case (taken row rows ops s f)
  show ?thesis using queued_head [OF taken(1)] taken(3,6,7,8)
    by (auto simp: queue_depth_of_def intro!: count_update_less [where r = row])
qed simp_all

text \<open>The loop of \<open>drain\<close>, which ends because every turn takes a row from the queue.\<close>

function drain_from :: "env \<Rightarrow> int option \<Rightarrow> submission list \<Rightarrow> (world, submission list) act" where
  "drain_from E limit applied w =
     (if (case limit of None \<Rightarrow> True | Some l \<Rightarrow> int (length applied) < l)
      then (case apply_next E w of
          (Inl e, w') \<Rightarrow> (Inl e, w')
        | (Inr None, w') \<Rightarrow> (Inr applied, w')
        | (Inr (Some s), w') \<Rightarrow> drain_from E limit (applied @ [s]) w')
      else (Inr applied, w))"
  by pat_completeness auto
termination
  by (relation "measure (\<lambda>(_, _, _, w). queue_depth_of (w_db w))") (auto dest: apply_next_fewer [OF sym])

declare drain_from.simps [simp del]

definition drain :: "env \<Rightarrow> int option \<Rightarrow> (world, submission list) act" where
  "drain E limit =
     (if (case limit of None \<Rightarrow> False | Some l \<Rightarrow> l \<le> 0) then raise (ValueError ''limit must be positive'')
      else drain_from E limit [])"

text \<open>\<open>CtxfsMaintainer.preflight\<close>, without SQLite's own check of its file.\<close>

definition preflight :: "fs \<Rightarrow> unit res" where
  "preflight fs = bindE (mapE (\<lambda>p.
      if \<not> fs_exists fs p then Inl (FileNotFoundError ''no such directory'')
      else if \<not> is_dir fs p then Inl (NotADirectoryError ''not a directory'')
      else Inr ()) [[], [users_dir], [objects_dir], [undo_dir]]) (\<lambda>_. Inr ())"

section \<open>Management\<close>

definition writer_entry_rows :: "str \<Rightarrow> str \<Rightarrow> db \<Rightarrow> entry_row list" where
  "writer_entry_rows user writer d =
     sort_key entry_path (filter (\<lambda>r. row_user r = user \<and> row_writer r = writer) (entry_rows d))"

definition entry_rows_under_prefix :: "str \<Rightarrow> str \<Rightarrow> str \<Rightarrow> db \<Rightarrow> entry_row list res" where
  "entry_rows_under_prefix user writer pfx d =
     filterE (\<lambda>r. path_is_within_prefix (entry_path r) pfx) (writer_entry_rows user writer d)"

definition user_entry_rows :: "str \<Rightarrow> db \<Rightarrow> entry_row list" where
  "user_entry_rows user d = sort_key entry_path (filter (\<lambda>r. row_user r = user) (entry_rows d))"

text \<open>The files of one entry, in the tree and among the objects, and the directories left empty.\<close>

definition delete_entry_files :: "env \<Rightarrow> str \<Rightarrow> entry_row \<Rightarrow> (world, unit) act" where
  "delete_entry_files E user row =
     bindS (liftE (tree_path E user (entry_path row))) (\<lambda>p.
     bindS (on_fs (fsop (\<lambda>fs. unlink_if_exists fs (Some p)))) (\<lambda>_.
     bindS (liftE (user_root E user)) (\<lambda>root_dir.
     bindS (on_fs (fsop (\<lambda>fs. Inr (remove_empty_parents fs (butlast p) root_dir)))) (\<lambda>_.
     bindS (liftE (object_path E user (object_id row))) (\<lambda>obj.
     bindS (on_fs (fsop (\<lambda>fs. unlink_if_exists fs (Some obj)))) (\<lambda>_.
     bindS (liftE (objects_root E user)) (\<lambda>objects.
     on_fs (fsop (\<lambda>fs. Inr (remove_empty_parents fs (butlast obj) objects))))))))))"

definition delete_entry_rows_and_files :: "env \<Rightarrow> str \<Rightarrow> entry_row list \<Rightarrow> (world, unit) act" where
  "delete_entry_rows_and_files E user rows =
     bindS (forS rows (delete_entry_files E user)) (\<lambda>_.
     transaction (on_db (\<lambda>d. fold (\<lambda>r. delete_entry user (row_writer r) (entry_source_key r)) rows d)))"

text \<open>A \<open>DELETE\<close> on the table of decisions and the number of rows it removes.\<close>

definition delete_decisions :: "(decision_row \<Rightarrow> bool) \<Rightarrow> (world, nat) act" where
  "delete_decisions P =
     bindS (gets (\<lambda>w. count_where P (decision_rows (w_db w)))) (\<lambda>n.
     bindS (transaction (on_db (\<lambda>d. d\<lparr>decision_rows := delete_where P (decision_rows d)\<rparr>))) (\<lambda>_. ret n))"

definition decision_in_scope :: "str \<Rightarrow> str \<Rightarrow> str \<Rightarrow> str list \<Rightarrow> decision_row \<Rightarrow> bool" where
  "decision_in_scope user writer pfx source_keys r =
     (dec_user r = user \<and> dec_writer r = writer \<and>
      ((case dec_path r of None \<Rightarrow> False | Some p \<Rightarrow> p = pfx \<or> sql_like (pfx @ lit ''/%'') p) \<or>
       dec_source_key r \<in> set source_keys))"

definition queued_of_user :: "str \<Rightarrow> str option \<Rightarrow> db \<Rightarrow> service_row list" where
  "queued_of_user user writer d =
     filter (\<lambda>r. sv_user r = user \<and> (writer = None \<or> writer = Some (sv_writer r)) \<and> sv_state r = QUEUED) (service_rows d)"

text \<open>The last two tests are made even when the path of a move is outside the prefix.\<close>

definition operation_targets_prefix :: "operation \<Rightarrow> str \<Rightarrow> str list \<Rightarrow> bool res" where
  "operation_targets_prefix op pfx source_keys =
     (case op of
        Put p \<Rightarrow> path_is_within_prefix (put_path p) pfx
      | Move m \<Rightarrow> bindE (path_is_within_prefix (move_path m) pfx) (\<lambda>b.
          Inr (b \<or> move_source_key m \<in> set source_keys))
      | Delete q \<Rightarrow> Inr (delete_source_key q \<in> set source_keys)
      | Decide q \<Rightarrow> (case decision_path q of
            None \<Rightarrow> Inr False
          | Some p \<Rightarrow> path_is_within_prefix p pfx))"

definition discard_service_submission :: "env \<Rightarrow> str \<Rightarrow> (world, unit) act" where
  "discard_service_submission E sid =
     bindS (now E) (\<lambda>t. transaction (on_db (set_service sid
       (\<lambda>r. r\<lparr>sv_state := DISCARDED, sv_error := Some ''discarded by destructive scope'', sv_updated_at := t\<rparr>))))"

definition replace_service_operations :: "env \<Rightarrow> str \<Rightarrow> operation list \<Rightarrow> (world, unit) act" where
  "replace_service_operations E sid ops =
     bindS (now E) (\<lambda>t. transaction (on_db (set_service sid
       (\<lambda>r. r\<lparr>sv_count := length ops, sv_operations := ops,
              sv_error := Some ''partially discarded by destructive scope'', sv_updated_at := t\<rparr>))))"

fun discard_for_prefix :: "env \<Rightarrow> str \<Rightarrow> str list \<Rightarrow> service_row list \<Rightarrow> nat \<Rightarrow> (world, nat) act" where
  "discard_for_prefix E pfx source_keys [] discarded = ret discarded"
| "discard_for_prefix E pfx source_keys (row # rows) discarded =
     bindS (liftE (validate_operations_json (sv_operations row))) (\<lambda>operations.
     bindS (liftE (filterE (\<lambda>op. bindE (operation_targets_prefix op pfx source_keys) (\<lambda>b. Inr (\<not> b)))
        operations)) (\<lambda>kept.
     if length kept = length operations then discard_for_prefix E pfx source_keys rows discarded else
     bindS (if kept \<noteq> [] then replace_service_operations E (sv_id row) kept
            else discard_service_submission E (sv_id row)) (\<lambda>_.
     discard_for_prefix E pfx source_keys rows (Suc discarded))))"

definition record_deletion :: "env \<Rightarrow> deletion_result \<Rightarrow> (world, unit) act" where
  "record_deletion E r =
     bindS (fresh_uuid E) (\<lambda>did.
     bindS (now E) (\<lambda>t.
     transaction (on_dbE (\<lambda>d.
       if list_ex (\<lambda>q. deletion_id q = did) (deletion_rows d)
       then Inl (IntegrityError ''UNIQUE constraint failed: deletion_records.deletion_id'')
       else Inr (d\<lparr>deletion_rows := deletion_rows d @ [deletion_result.extend r
              (deletion_row.fields did t)]\<rparr>)))))"

definition delete_prefix :: "env \<Rightarrow> str \<Rightarrow> str \<Rightarrow> str \<Rightarrow> str option \<Rightarrow> (world, deletion_result) act" where
  "delete_prefix E user writer pfx the_receipt =
     bindS (liftE (normalize_path pfx)) (\<lambda>normalized_prefix.
     bindS (readE (require_authorized_path user writer normalized_prefix)) (\<lambda>_.
     bindS (readE (entry_rows_under_prefix user writer normalized_prefix)) (\<lambda>rows.
     let source_keys = map entry_source_key rows in
     bindS (delete_decisions (decision_in_scope user writer normalized_prefix source_keys)) (\<lambda>decisions.
     bindS (gets (\<lambda>w. queued_of_user user (Some writer) (w_db w))) (\<lambda>queued.
     bindS (discard_for_prefix E normalized_prefix source_keys queued 0) (\<lambda>discarded.
     bindS (delete_entry_rows_and_files E user rows) (\<lambda>_.
     let result = \<lparr>deletion_scope = lit ''prefix'', deletion_user_id = user, deletion_writer_id = Some writer,
         deletion_prefix = Some normalized_prefix, receipt = the_receipt, deleted_entry_count = length rows,
         deleted_decision_count = decisions, queued_submission_count = discarded, writer_registration_count = 0\<rparr>
     in bindS (record_deletion E result) (\<lambda>_. ret result))))))))"

text \<open>\<open>DELETE FROM writer_prefixes\<close> and its row count.\<close>

definition delete_registrations :: "(prefix_row \<Rightarrow> bool) \<Rightarrow> (world, nat) act" where
  "delete_registrations P =
     bindS (gets (\<lambda>w. count_where P (prefix_rows (w_db w)))) (\<lambda>n.
     bindS (on_db (\<lambda>d. d\<lparr>prefix_rows := delete_where P (prefix_rows d)\<rparr>)) (\<lambda>_. ret n))"

definition delete_integration :: "env \<Rightarrow> str \<Rightarrow> str \<Rightarrow> str option \<Rightarrow> (world, deletion_result) act" where
  "delete_integration E user writer the_receipt =
     bindS (gets (\<lambda>w. sort (writer_prefixes (w_db w) user writer))) (\<lambda>pfxs.
     bindS (gets (\<lambda>w. writer_entry_rows user writer (w_db w))) (\<lambda>rows.
     bindS (delete_decisions (\<lambda>r. dec_user r = user \<and> dec_writer r = writer)) (\<lambda>decisions.
     bindS (gets (\<lambda>w. queued_of_user user (Some writer) (w_db w))) (\<lambda>queued.
     bindS (forS queued (\<lambda>row. discard_service_submission E (sv_id row))) (\<lambda>_.
     bindS (delete_entry_rows_and_files E user rows) (\<lambda>_.
     bindS (transaction (delete_registrations (\<lambda>r. pr_user r = user \<and> pr_writer r = writer))) (\<lambda>registrations.
     let result = \<lparr>deletion_scope = lit ''integration'', deletion_user_id = user, deletion_writer_id = Some writer,
         deletion_prefix = (if pfxs = [] then None else Some (join_with 44 pfxs)), receipt = the_receipt,
         deleted_entry_count = length rows, deleted_decision_count = decisions,
         queued_submission_count = length queued, writer_registration_count = registrations\<rparr>
     in bindS (record_deletion E result) (\<lambda>_. ret result))))))))"

text \<open>\<open>shutil.rmtree(path, ignore_errors=True)\<close>.\<close>

definition rmtree :: "fs \<Rightarrow> loc \<Rightarrow> fs" where
  "rmtree fs p = (if is_dir fs p then fs\<lparr>nodes := filter (\<lambda>(q, _). \<not> prefix p q) (nodes fs)\<rparr> else fs)"

definition assert_user_removed :: "env \<Rightarrow> str \<Rightarrow> world \<Rightarrow> unit res" where
  "assert_user_removed E user w =
     (let d = w_db w in
      if list_ex (\<lambda>r. row_user r = user) (entry_rows d) then Inl (RuntimeError ''ctxfs delete_user left rows in entries'')
      else if list_ex (\<lambda>r. dec_user r = user) (decision_rows d) then Inl (RuntimeError ''ctxfs delete_user left rows in decisions'')
      else if list_ex (\<lambda>r. sub_user r = user) (submission_rows d) then Inl (RuntimeError ''ctxfs delete_user left rows in submissions'')
      else if list_ex (\<lambda>r. sv_user r = user) (service_rows d) then Inl (RuntimeError ''ctxfs delete_user left rows in service_submissions'')
      else if list_ex (\<lambda>r. pr_user r = user) (prefix_rows d) then Inl (RuntimeError ''ctxfs delete_user left rows in writer_prefixes'')
      else bindE (user_root E user) (\<lambda>root_dir.
        if fs_exists (w_fs w) root_dir then Inl (RuntimeError ''ctxfs delete_user left tree files'')
        else bindE (objects_root E user) (\<lambda>objects.
          if fs_exists (w_fs w) objects then Inl (RuntimeError ''ctxfs delete_user left object files'') else Inr ())))"

definition delete_user :: "env \<Rightarrow> str \<Rightarrow> str \<Rightarrow> (world, deletion_result) act" where
  "delete_user E user the_receipt =
     (if the_receipt = [] then raise (ValueError ''delete_user requires a receipt'') else
      bindS (gets (\<lambda>w. user_entry_rows user (w_db w))) (\<lambda>rows.
      bindS (delete_decisions (\<lambda>r. dec_user r = user)) (\<lambda>decisions.
      bindS (gets (\<lambda>w. queued_of_user user None (w_db w))) (\<lambda>queued.
      bindS (transaction (on_db (\<lambda>d. d\<lparr>service_rows :=
         delete_where (\<lambda>r. sv_user r = user \<and> sv_state r = QUEUED) (service_rows d)\<rparr>))) (\<lambda>_.
      bindS (transaction (
        bindS (delete_registrations (\<lambda>r. pr_user r = user)) (\<lambda>registrations.
        bindS (on_db (\<lambda>d. d\<lparr>submission_rows := delete_where (\<lambda>r. sub_user r = user) (submission_rows d)\<rparr>)) (\<lambda>_.
        bindS (on_db (\<lambda>d. d\<lparr>service_rows := delete_where (\<lambda>r. sv_user r = user) (service_rows d)\<rparr>)) (\<lambda>_.
        bindS (on_db (\<lambda>d. d\<lparr>entry_rows := delete_where (\<lambda>r. row_user r = user) (entry_rows d)\<rparr>)) (\<lambda>_.
        ret registrations)))))) (\<lambda>registrations.
      bindS (liftE (user_root E user)) (\<lambda>root_dir.
      bindS (on_fs (fsop (\<lambda>fs. Inr (rmtree fs root_dir)))) (\<lambda>_.
      bindS (liftE (objects_root E user)) (\<lambda>objects.
      bindS (on_fs (fsop (\<lambda>fs. Inr (rmtree fs objects)))) (\<lambda>_.
      let result = \<lparr>deletion_scope = lit ''user'', deletion_user_id = user, deletion_writer_id = None,
          deletion_prefix = None, receipt = Some the_receipt, deleted_entry_count = length rows,
          deleted_decision_count = decisions, queued_submission_count = length queued,
          writer_registration_count = registrations\<rparr>
      in bindS (record_deletion E result) (\<lambda>_.
         bindS (gets (assert_user_removed E user)) (\<lambda>check.
         bindS (liftE check) (\<lambda>_. ret result)))))))))))))"

section \<open>Draining\<close>

text \<open>
  A queue that is drained: a step settles the item at its head unless the item has a flaw, which makes
  the step raise and leaves everything as it is; the loop repeats the step until the queue is empty,
  the limit is reached or a step raises.
\<close>

locale work_queue =
  fixes pending :: "'w \<Rightarrow> 'k list" and ok :: "'w \<Rightarrow> bool" and step :: "('w, 's option) act" and key :: "'s \<Rightarrow> 'i"
    and name :: "'k \<Rightarrow> 'i" and flaw :: "'k \<Rightarrow> exn option" and settled :: "'i \<Rightarrow> 'w \<Rightarrow> bool"
    and run :: "int option \<Rightarrow> 's list \<Rightarrow> ('w, 's list) act"
  assumes empty: "pending w = [] \<Longrightarrow> step w = (Inr None, w)"
    and stuck: "pending w = k # ks \<Longrightarrow> flaw k = Some e \<Longrightarrow> step w = (Inl e, w)"
    and head: "ok w \<Longrightarrow> pending w = k # ks \<Longrightarrow> flaw k = None \<Longrightarrow> \<exists>s w'. step w = (Inr (Some s), w') \<and> key s = name k \<and>
      pending w' = ks \<and> ok w' \<and> settled (name k) w' \<and> (\<forall>i. settled i w \<longrightarrow> settled i w')"
    and run: "run limit results w =
      (if (case limit of None \<Rightarrow> True | Some l \<Rightarrow> int (length results) < l)
       then (case step w of (Inl e, w') \<Rightarrow> (Inl e, w') | (Inr None, w') \<Rightarrow> (Inr results, w')
         | (Inr (Some s), w') \<Rightarrow> run limit (results @ [s]) w')
       else (Inr results, w))"
begin

text \<open>The items a drain gets to, and those of them before the first flaw.\<close>

definition reached :: "int option \<Rightarrow> nat \<Rightarrow> 'k list \<Rightarrow> 'k list" where
  "reached limit n ks = (case limit of None \<Rightarrow> ks | Some l \<Rightarrow> take (nat l - n) ks)"

definition drains :: "int option \<Rightarrow> 's list \<Rightarrow> 'w \<Rightarrow> 'w \<Rightarrow> bool" where
  "drains limit results w w' \<longleftrightarrow>
     (let todo = reached limit (length results) (pending w); fine = takeWhile (\<lambda>k. flaw k = None) todo in
      pending w' = drop (length fine) (pending w) \<and> ok w' \<and> (\<forall>k \<in> set fine. settled (name k) w') \<and>
      (\<forall>i. settled i w \<longrightarrow> settled i w') \<and>
      (case drop (length fine) todo of
         [] \<Rightarrow> \<exists>ss. run limit results w = (Inr (results @ ss), w') \<and> map key ss = map name fine
       | k # _ \<Rightarrow> \<exists>e. flaw k = Some e \<and> run limit results w = (Inl e, w')))"

lemma drained:
  assumes "ok w"
  shows "\<exists>w'. drains limit results w w'"
  using assms
proof (induction "pending w" arbitrary: w results)
  case Nil
  have "run limit results w = (Inr results, w)"
    using empty [of w] Nil.hyps by (subst run) simp
  then show ?case using Nil by (intro exI [of _ w]) (auto simp: drains_def reached_def split: option.splits)
next
  case (Cons k ks)
  note p = Cons.hyps(2) [symmetric]
  show ?case
  proof (cases "case limit of None \<Rightarrow> True | Some l \<Rightarrow> int (length results) < l")
    case go: True
    have todo: "reached limit (length results) (k # ks) = k # reached limit (Suc (length results)) ks"
    proof (cases limit)
      case None
      then show ?thesis by (simp add: reached_def)
    next
      case (Some l)
      then have "nat l - length results = Suc (nat l - Suc (length results))" using go by simp
      then show ?thesis using Some by (simp add: reached_def)
    qed
    show ?thesis
    proof (cases "flaw k")
      case (Some e)
      have "run limit results w = (Inl e, w)" using go stuck [OF p Some] by (subst run) simp
      then show ?thesis using Cons.prems Some by (intro exI [of _ w]) (simp add: drains_def Let_def p todo)
    next
      case None
      obtain s w1 where s: "step w = (Inr (Some s), w1)" "key s = name k" "pending w1 = ks" "ok w1"
          "settled (name k) w1" "\<forall>i. settled i w \<longrightarrow> settled i w1"
        using head [OF Cons.prems p None] by blast
      have r: "run limit results w = run limit (results @ [s]) w1" using go by (subst run) (simp add: s(1))
      obtain w' where "drains limit (results @ [s]) w1 w'" using Cons.hyps(1) [OF s(3) [symmetric] s(4)] by blast
      then have "drains limit results w w'"
        using None s(2,5,6) unfolding drains_def r Let_def s(3) p todo
        by (auto split: list.splits intro: exI [of _ "s # _"])
      then show ?thesis by blast
    qed
  next
    case False
    then have "run limit results w = (Inr results, w)" by (subst run) simp
    moreover have "reached limit (length results) (pending w) = []"
      using False by (auto simp: reached_def split: option.splits)
    ultimately show ?thesis using Cons.prems by (intro exI [of _ w]) (simp add: drains_def)
  qed
qed

end

definition queue_ok :: "world \<Rightarrow> bool" where
  "queue_ok w \<longleftrightarrow> distinct (map sv_id (service_rows (w_db w)))"

lemma filter_update_queued:
  assumes "\<And>r. \<not> P (f r)"
  shows "filter P (update_where c f rows) = filter (\<lambda>r. \<not> c r) (filter P rows)"
  using assms by (induction rows) (auto simp: update_where_def)

lemma queued_rows_distinct:
  assumes "distinct (map sv_id (service_rows d))"
  shows "distinct (map sv_id (queued_rows d))"
proof -
  have "mset (map sv_id (queued_rows d)) = mset (map sv_id (filter (\<lambda>r. sv_state r = QUEUED) (service_rows d)))"
    by (simp add: queued_rows_def)
  moreover have "distinct (map sv_id (filter (\<lambda>r. sv_state r = QUEUED) (service_rows d)))"
    using assms by (simp add: distinct_map_filter)
  ultimately show ?thesis using mset_eq_imp_distinct_iff by blast
qed

lemma queued_rows_taken:
  assumes "queued_rows d = row # rows" "distinct (map sv_id (service_rows d))"
    "service_rows d' = update_where (\<lambda>r. sv_id r = sv_id row) f (service_rows d)" "\<And>r. sv_state (f r) \<noteq> QUEUED"
  shows "queued_rows d' = rows"
proof -
  have "queued_rows d' = filter (\<lambda>r. sv_id r \<noteq> sv_id row) (queued_rows d)"
    unfolding queued_rows_def assms(3) by (simp add: filter_update_queued assms(4) filter_sort)
  then show ?thesis using queued_rows_distinct [OF assms(2)] unfolding assms(1) by (auto simp: filter_id_conv) (metis image_eqI)
qed

definition row_flaw :: "service_row \<Rightarrow> exn option" where
  "row_flaw row = (case validate_operations_json (sv_operations row) of Inl e \<Rightarrow> Some e | Inr _ \<Rightarrow> None)"

text \<open>A row of the queue has been applied or has failed.\<close>

definition is_settled :: "str \<Rightarrow> world \<Rightarrow> bool" where
  "is_settled sid w = list_ex (\<lambda>r. sv_id r = sid \<and> (sv_state r = APPLIED \<or> sv_state r = FAILED)) (service_rows (w_db w))"

lemma is_settled_update:
  assumes "service_rows (w_db w') = update_where (\<lambda>r. sv_id r = sid) f (service_rows (w_db w))"
    and "\<And>r. (sv_state (f r) = APPLIED \<or> sv_state (f r) = FAILED) \<and> sv_id (f r) = sv_id r"
  shows "is_settled i w \<Longrightarrow> is_settled i w'" "r \<in> set (service_rows (w_db w)) \<Longrightarrow> sv_id r = sid \<Longrightarrow> is_settled sid w'"
  using assms(2) by (auto simp: is_settled_def list_ex_iff assms(1) set_update_where)

interpretation queue: work_queue "\<lambda>w. queued_rows (w_db w)" queue_ok "apply_next E" submission_id sv_id row_flaw
  is_settled "drain_from E" for E
proof
  show "apply_next E w = (Inr None, w)" if "queued_rows (w_db w) = []" for w
    using that by (simp add: apply_next_def run_simps)
next
  show "apply_next E w = (Inl e, w)" if "queued_rows (w_db w) = k # ks" "row_flaw k = Some e" for w k ks e
    using apply_next_stuck [OF that(1)] that(2) by (auto simp: row_flaw_def split: sum.splits)
next
  fix w k ks assume a: "queue_ok w" "queued_rows (w_db w) = k # ks" "row_flaw k = None"
  obtain x w' where x: "apply_next E w = (x, w')" by force
  then show "\<exists>s w'. apply_next E w = (Inr (Some s), w') \<and> submission_id s = sv_id k \<and> queued_rows (w_db w') = ks \<and> queue_ok w' \<and>
      is_settled (sv_id k) w' \<and> (\<forall>i. is_settled i w \<longrightarrow> is_settled i w')"
  proof (cases rule: apply_next_cases)
    case empty
    then show ?thesis using a(2) by simp
  next
    case (stuck row rows e)
    then show ?thesis using a(2,3) by (simp add: row_flaw_def)
  next
    case (taken row rows ops s f)
    have r: "row = k" "rows = ks" using taken(1) a(2) by simp_all
    have st: "(sv_state (f q) = APPLIED \<or> sv_state (f q) = FAILED) \<and> sv_id (f q) = sv_id q" for q using taken(6,8) by auto
    have "queued_rows (w_db w') = rows"
      by (rule queued_rows_taken [OF taken(1) _ taken(7)]) (use a(1) taken(6,8) in \<open>auto simp: queue_ok_def\<close>)
    moreover have "map sv_id (service_rows (w_db w')) = map sv_id (service_rows (w_db w))"
      using taken(7,8) by (simp add: update_where_def)
    moreover have "is_settled (sv_id row) w'"
      using is_settled_update(2) [OF taken(7) st] queued_head [OF taken(1)] by blast
    moreover have "\<forall>i. is_settled i w \<longrightarrow> is_settled i w'"
      using is_settled_update(1) [OF taken(7) st] by blast
    ultimately show ?thesis using x a taken(3,4) r by (simp add: queue_ok_def)
  qed
next
  show "drain_from E limit results w =
      (if (case limit of None \<Rightarrow> True | Some l \<Rightarrow> int (length results) < l)
       then (case apply_next E w of (Inl e, w') \<Rightarrow> (Inl e, w') | (Inr None, w') \<Rightarrow> (Inr results, w')
         | (Inr (Some s), w') \<Rightarrow> drain_from E limit (results @ [s]) w')
       else (Inr results, w))" for limit results w
    by (rule drain_from.simps)
qed

text \<open>Accepting a submission touches nothing but the queue.\<close>

lemma enqueue_run:
  assumes "enqueue E user writer ops w = (r, w')"
  shows "w_fs w' = w_fs w \<and> w_uuids w \<le> w_uuids w' \<and> (\<exists>rows. w_db w' = (w_db w)\<lparr>service_rows := rows\<rparr>)"
proof -
  have "\<exists>rows. w_db w = (w_db w)\<lparr>service_rows := rows\<rparr>" by (metis db.surjective db.update_convs(7))
  then show ?thesis using assms
    by (auto simp: enqueue_def run_simps fresh_uuid_def now_def transaction_def on_dbE_def insert_service_row_def split: if_splits)
qed

end
