(* ===== verification/Management.thy ===== *)
theory Management
  imports Service
begin

text \<open>
  What the management operations of \<open>Service\<close> remove, and that they remove nothing else: the files
  and rows of an entry, the queued operations of a prefix, the rows and files of a user.
\<close>

section \<open>Removing files\<close>

text \<open>The files of \<open>S\<close> are gone, directories may be gone, and nothing else has changed.\<close>

definition gone :: "loc set \<Rightarrow> fs \<Rightarrow> fs \<Rightarrow> bool" where
  "gone S s t \<longleftrightarrow> fm t = (\<lambda>q. if q \<in> S then None else fm s q) \<and> idata t = idata s \<and> next_ino t = next_ino s \<and>
     (\<forall>q. look t q = Some Dir \<longrightarrow> look s q = Some Dir) \<and> (wf_fs s \<longrightarrow> wf_fs t)"

lemma gone_refl: "gone {} s s"
  by (simp add: gone_def)

lemma gone_trans: "gone S s t \<Longrightarrow> gone T t u \<Longrightarrow> gone (S \<union> T) s u"
  by (auto simp: gone_def fun_eq_iff)

lemma gone_contents: "gone S s t \<Longrightarrow> contents t q = (if q \<in> S then None else contents s q)"
  by (simp add: gone_def contents_def)

lemma gone_look_None: "gone S s t \<Longrightarrow> look s q = None \<Longrightarrow> look t q = None"
proof (cases "look t q")
  case (Some n)
  assume g: "gone S s t" and l: "look s q = None"
  show ?thesis
  proof (cases n)
    case Dir
    then show ?thesis using g l Some by (auto simp: gone_def)
  next
    case (File i)
    then have "fm t q = Some i" using Some by (simp add: fm_Some_iff)
    then have "fm s q = Some i" using g by (auto simp: gone_def split: if_splits)
    then show ?thesis using l by (simp add: fm_Some_iff)
  qed
qed

lemma gone_fs_ok:
  assumes "gone S s t" "fs_ok E h k s" shows "fs_ok E h k t"
  unfolding fs_ok_def
proof (intro conjI allI impI ballI)
  have fm: "fm t q = Some i \<Longrightarrow> fm s q = Some i" for q i using assms(1) by (auto simp: gone_def split: if_splits)
  show "wf_fs t" using assms by (simp add: gone_def fs_ok_def)
  show "fm t q = None" if "q \<in> base_locs h" for q
    using assms that fm [of q] by (cases "fm t q") (auto simp: fs_ok_def)
  show "look t q = None" if "k \<le> n" "uuid_loc E h n q" for n q
    using gone_look_None [OF assms(1)] assms(2) that by (auto simp: fs_ok_def)
  show "p = q" if "live_loc h p" "live_loc h q" "fm t p = Some i" "fm t q = Some i" for p q i
    using assms(2) that(1,2) fm [OF that(3)] fm [OF that(4)] unfolding fs_ok_def by blast
qed

lemma gone_unlink:
  assumes "unlink_if_exists fs (Some p) = Inr fs'"
  shows "gone {p} fs fs'"
proof (cases "look fs p")
  case None
  then have "fs' = fs" using assms by (auto simp: unlink_if_exists_def unlink_def missing_def split: if_splits)
  moreover have "fm fs p = None" using None by (simp add: fm_def)
  ultimately show ?thesis by (auto simp: gone_def)
next
  case (Some n)
  then obtain i where i: "n = File i" "fs' = del_node fs p"
    using assms by (cases n) (auto simp: unlink_if_exists_def unlink_def)
  moreover have "p \<noteq> []" using Some i(1) look_None_not_Nil(2) by blast
  ultimately show ?thesis using Some wf_del_file [of fs p i]
    by (auto simp: gone_def fm_del look_del_node look_Nil fun_eq_iff split: if_splits)
qed

lemma gone_parents: "gone {} fs (remove_empty_parents fs p stop)"
  using rep_keeps [of fs p stop] by (simp add: gone_def)

text \<open>The two locations of an entry.\<close>

definition entry_locs :: "str \<Rightarrow> entry_row \<Rightarrow> loc set" where
  "entry_locs h r = {tree_at h (entry_path r), [objects_dir, h, object_id r]}"

lemma on_fs_fsop: "on_fs (fsop f) w = (Inr u, w') \<longleftrightarrow> (\<exists>fs'. f (w_fs w) = Inr fs' \<and> w' = w\<lparr>w_fs := fs'\<rparr>)"
  by (auto simp: on_fs_def fsop_def split: sum.splits)

lemma delete_entry_files_gone:
  assumes "env_ok E user h" "good_path (entry_path row)" "delete_entry_files E user row w = (Inr u, w')"
  shows "\<exists>fs'. w' = w\<lparr>w_fs := fs'\<rparr> \<and> gone (entry_locs h row) (w_fs w) fs'"
proof -
  let ?p = "tree_at h (entry_path row)" and ?o = "[objects_dir, h, object_id row]"
  obtain f1 f2 where f: "unlink_if_exists (w_fs w) (Some ?p) = Inr f1"
    "unlink_if_exists (remove_empty_parents f1 (butlast ?p) [users_dir, h]) (Some ?o) = Inr f2"
    "w' = w\<lparr>w_fs := remove_empty_parents f2 (butlast ?o) [objects_dir, h]\<rparr>"
    using assms(3) tree_path_good [OF assms(1,2)] env_ok_roots(1-3) [OF assms(1)]
    by (auto simp: delete_entry_files_def bindS_Inr_iff liftE_Inr on_fs_fsop)
  have "gone ({?p} \<union> {} \<union> {?o} \<union> {}) (w_fs w) (remove_empty_parents f2 (butlast ?o) [objects_dir, h])"
    by (intro gone_trans [OF gone_trans [OF gone_trans [OF gone_unlink [OF f(1)] gone_parents] gone_unlink [OF f(2)]] gone_parents])
  then show ?thesis using f(3) by (auto simp: entry_locs_def insert_commute)
qed

lemma delete_loop_gone:
  assumes "env_ok E user h" "\<And>r. r \<in> set rows \<Longrightarrow> good_path (entry_path r)"
    "forS rows (delete_entry_files E user) w = (Inr u, w')"
  shows "\<exists>fs'. w' = w\<lparr>w_fs := fs'\<rparr> \<and> gone (\<Union>r \<in> set rows. entry_locs h r) (w_fs w) fs'"
  using assms(2,3)
proof (induction rows arbitrary: w)
  case Nil
  then show ?case by (auto simp: act_simps intro: exI [of _ "w_fs w"] gone_refl)
next
  case (Cons r rows)
  obtain w1 where w1: "delete_entry_files E user r w = (Inr (), w1)" "forS rows (delete_entry_files E user) w1 = (Inr u, w')"
    using Cons.prems(2) by (auto simp: bindS_Inr_iff)
  obtain f1 where f1: "w1 = w\<lparr>w_fs := f1\<rparr>" "gone (entry_locs h r) (w_fs w) f1"
    using delete_entry_files_gone [OF assms(1) _ w1(1)] Cons.prems(1) by auto
  obtain f2 where f2: "w' = w1\<lparr>w_fs := f2\<rparr>" "gone (\<Union>r \<in> set rows. entry_locs h r) (w_fs w1) f2"
    using Cons.IH [OF _ w1(2)] Cons.prems(1) by auto
  then show ?case using f1 gone_trans [OF f1(2), of _ f2] by auto
qed

lemma fold_delete_entry:
  "fold (\<lambda>r. delete_entry user (row_writer r) (entry_source_key r)) rows d =
     d\<lparr>entry_rows := filter (\<lambda>q. \<forall>r \<in> set rows. ident q \<noteq> (user, row_writer r, entry_source_key r)) (entry_rows d)\<rparr>"
proof (induction rows arbitrary: d)
  case (Cons r rows)
  have del: "delete_entry user a b d = d\<lparr>entry_rows := filter (\<lambda>q. ident q \<noteq> (user, a, b)) (entry_rows d)\<rparr>" for a b
    by (simp add: delete_entry_def delete_where_def same_source_ident)
  have eq: "fold (\<lambda>r. delete_entry user (row_writer r) (entry_source_key r)) (r # rows) d =
      (delete_entry user (row_writer r) (entry_source_key r) d)\<lparr>entry_rows :=
        filter (\<lambda>q. \<forall>r \<in> set rows. ident q \<noteq> (user, row_writer r, entry_source_key r))
          (entry_rows (delete_entry user (row_writer r) (entry_source_key r) d))\<rparr>"
    unfolding fold.simps o_apply by (rule Cons.IH)
  show ?case unfolding eq del by (simp add: conj_commute)
qed simp

text \<open>The rows of the user that are selected are removed with their files; the store stays complete.\<close>

lemma delete_entries:
  assumes E: "env_ok E user h" and ok: "store_ok E user h w"
    and rows: "\<And>r. r \<in> set rows \<longleftrightarrow> r \<in> set (entry_rows (w_db w0)) \<and> row_user r = user \<and> P r"
    and same: "entry_rows (w_db w) = entry_rows (w_db w0)"
    and run: "delete_entry_rows_and_files E user rows w = (Inr u, w')"
  obtains fs' where "w' = w\<lparr>w_fs := fs', w_db := (w_db w)\<lparr>entry_rows := filter (\<lambda>r. \<not> (row_user r = user \<and> P r)) (entry_rows (w_db w))\<rparr>\<rparr>"
    "gone (\<Union>r \<in> set rows. entry_locs h r) (w_fs w) fs'" "store_ok E user h w'"
proof -
  have fs: "fs_ok E h (w_uuids w) (w_fs w)" and ro: "rows_ok E user h (w_db w) (w_fs w)"
    using ok by (simp_all add: store_ok_def)
  have k: "keys_ok (entry_rows (w_db w))" using ro by (simp add: rows_ok_def)
  have good: "good_path (entry_path r)" if "r \<in> set rows" for r
    using rows_okD(1) [OF ro] that rows same by simp
  obtain w1 where w1: "forS rows (delete_entry_files E user) w = (Inr (), w1)"
    "w' = w1\<lparr>w_db := fold (\<lambda>r. delete_entry user (row_writer r) (entry_source_key r)) rows (w_db w1)\<rparr>"
    using run by (auto simp: delete_entry_rows_and_files_def bindS_Inr_iff transaction_Inr on_db_def)
  obtain f where f: "w1 = w\<lparr>w_fs := f\<rparr>" "gone (\<Union>r \<in> set rows. entry_locs h r) (w_fs w) f"
    using delete_loop_gone [OF E good w1(1)] by blast
  have sel: "(\<forall>r \<in> set rows. ident q \<noteq> (user, row_writer r, entry_source_key r)) \<longleftrightarrow> \<not> (row_user q = user \<and> P q)"
    if q: "q \<in> set (entry_rows (w_db w))" for q
  proof
    assume "\<forall>r \<in> set rows. ident q \<noteq> (user, row_writer r, entry_source_key r)"
    then show "\<not> (row_user q = user \<and> P q)" using q rows same by (auto simp: ident_def)
  next
    assume n: "\<not> (row_user q = user \<and> P q)"
    show "\<forall>r \<in> set rows. ident q \<noteq> (user, row_writer r, entry_source_key r)"
    proof
      fix r assume r: "r \<in> set rows"
      show "ident q \<noteq> (user, row_writer r, entry_source_key r)"
      proof
        assume "ident q = (user, row_writer r, entry_source_key r)"
        then have "ident q = ident r" using r rows by (simp add: ident_def)
        moreover have "r \<in> set (entry_rows (w_db w))" using r rows same by simp
        ultimately have "q = r" using k q by (auto simp: keys_ok_def distinct_map dest: inj_onD)
        then show False using n r rows by simp
      qed
    qed
  qed
  let ?d = "(w_db w)\<lparr>entry_rows := filter (\<lambda>r. \<not> (row_user r = user \<and> P r)) (entry_rows (w_db w))\<rparr>"
  have w': "w' = w\<lparr>w_fs := f, w_db := ?d\<rparr>"
    using w1(2) f(1) sel by (simp add: fold_delete_entry cong: filter_cong)
  have "keys_ok (entry_rows ?d)"
    using k by (simp add: keys_ok_def distinct_map_filter)
  moreover have "good_path (entry_path r) \<and> backed E h f r" if r: "r \<in> set (entry_rows ?d)" "row_user r = user" for r
  proof -
    have r': "r \<in> set (entry_rows (w_db w))" "\<not> P r" using r by auto
    note b = rows_okD [OF ro r'(1) r(2)]
    have "tree_at h (entry_path r) \<notin> entry_locs h q" if q: "q \<in> set rows" for q
    proof -
      have "entry_path q \<noteq> entry_path r"
      proof
        assume "entry_path q = entry_path r"
        then have "path_key q = path_key r" using q rows r(2) by (simp add: path_key_def)
        moreover have "q \<in> set (entry_rows (w_db w))" using q rows same by simp
        ultimately have "q = r" using k r'(1) by (auto simp: keys_ok_def distinct_map dest: inj_onD)
        then show False using q rows r'(2) by simp
      qed
      then have "tree_at h (entry_path q) \<noteq> tree_at h (entry_path r)"
        using tree_at_inj [OF good [OF q] b(1)] by blast
      moreover have "tree_at h (entry_path r) \<noteq> [objects_dir, h, object_id q]" by (simp add: tree_at_def lit_def)
      ultimately show ?thesis by (simp add: entry_locs_def)
    qed
    then have "fm f (tree_at h (entry_path r)) = fm (w_fs w) (tree_at h (entry_path r))" "idata f = idata (w_fs w)"
      using f(2) by (auto simp: gone_def)
    then show ?thesis using b by (simp add: backed_def)
  qed
  ultimately have "rows_ok E user h ?d f" by (simp add: rows_ok_def)
  then have "store_ok E user h w'" using gone_fs_ok [OF f(2) fs] by (simp add: store_ok_def w')
  then show thesis using that [OF w' f(2)] by blast
qed

section \<open>Discarding queued operations\<close>

text \<open>
  What becomes of a row of the queue when a prefix is deleted: a queued row of the writer loses the
  operations that target the prefix, and is discarded when it has no other; every other row stays.
\<close>

definition kept_operations :: "str \<Rightarrow> str list \<Rightarrow> operation list \<Rightarrow> operation list" where
  "kept_operations pfx source_keys = filter (\<lambda>op. operation_targets_prefix op pfx source_keys = Inr False)"

definition queued_for :: "str \<Rightarrow> str \<Rightarrow> service_row \<Rightarrow> bool" where
  "queued_for user writer q = (sv_user q = user \<and> sv_writer q = writer \<and> sv_state q = QUEUED)"

definition discarded_from :: "str \<Rightarrow> str list \<Rightarrow> service_row \<Rightarrow> service_row \<Rightarrow> bool" where
  "discarded_from pfx source_keys q q' =
     (case validate_operations_json (sv_operations q) of
        Inl _ \<Rightarrow> False
      | Inr ops \<Rightarrow>
          let kept = kept_operations pfx source_keys ops in
          q' = (if kept = ops then q
            else if kept = [] then q\<lparr>sv_state := DISCARDED, sv_error := Some ''discarded by destructive scope'',
              sv_updated_at := sv_updated_at q'\<rparr>
            else q\<lparr>sv_count := length kept, sv_operations := kept,
              sv_error := Some ''partially discarded by destructive scope'', sv_updated_at := sv_updated_at q'\<rparr>))"

lemma kept_of_filter:
  assumes "filterE (\<lambda>op. bindE (operation_targets_prefix op pfx source_keys) (\<lambda>b. Inr (\<not> b))) ops = Inr kept"
  shows "kept = kept_operations pfx source_keys ops" "length kept = length ops \<longleftrightarrow> kept_operations pfx source_keys ops = ops"
proof -
  show k: "kept = kept_operations pfx source_keys ops"
    using filterE_Inr [OF assms] unfolding kept_operations_def by (auto intro!: filter_cong)
  show "length kept = length ops \<longleftrightarrow> kept_operations pfx source_keys ops = ops"
    unfolding k kept_operations_def by (metis filter_True length_filter_less nat_less_le)
qed

lemma list_all2_update:
  assumes "list_all2 R (update_where c f xs) ys" "\<And>x y. x \<in> set xs \<Longrightarrow> R (if c x then f x else x) y \<Longrightarrow> S x y"
  shows "list_all2 S xs ys"
  using assms by (auto simp: update_where_def list_all2_conv_all_nth)

lemma discard_for_prefix_run:
  assumes "discard_for_prefix E pfx source_keys rows n w = (Inr m, w')" "distinct (map sv_id rows)"
    and "\<And>row q. row \<in> set rows \<Longrightarrow> q \<in> set (service_rows (w_db w)) \<Longrightarrow> sv_id q = sv_id row \<Longrightarrow> q = row"
  shows "\<exists>rows' c. w' = w\<lparr>w_clock := c, w_db := (w_db w)\<lparr>service_rows := rows'\<rparr>\<rparr> \<and>
    list_all2 (\<lambda>q q'. if sv_id q \<in> sv_id ` set rows then discarded_from pfx source_keys q q' else q' = q)
      (service_rows (w_db w)) rows'"
  using assms
proof (induction rows arbitrary: n w)
  case Nil
  then have "w' = w" by (simp add: act_simps)
  then show ?case by (intro exI [of _ "service_rows (w_db w)"] exI [of _ "w_clock w"]) (simp add: list_all2_same)
next
  case (Cons row rows)
  let ?R = "\<lambda>rows q q'. if sv_id q \<in> sv_id ` set rows then discarded_from pfx source_keys q q' else q' = q"
  have dist: "distinct (map sv_id rows)" "sv_id row \<notin> sv_id ` set rows" using Cons.prems(2) by auto
  obtain ops kept where ops: "validate_operations_json (sv_operations row) = Inr ops"
    and kept: "filterE (\<lambda>op. bindE (operation_targets_prefix op pfx source_keys) (\<lambda>b. Inr (\<not> b))) ops = Inr kept"
    using Cons.prems(1) by (auto simp: bindS_Inr_iff liftE_Inr)
  note k = kept_of_filter [OF kept]
  obtain f c1 n1 where f: "\<And>q. sv_id (f q) = sv_id q" "discarded_from pfx source_keys row (f row)"
    and run: "discard_for_prefix E pfx source_keys rows n1 (w\<lparr>w_clock := c1, w_db := set_service (sv_id row) f (w_db w)\<rparr>) = (Inr m, w')"
  proof (cases "kept = ops")
    case True
    show thesis
      by (rule that [of "\<lambda>r. r" "n" "w_clock w"])
        (use Cons.prems(1) ops kept k True in \<open>simp_all add: discarded_from_def set_service_def update_where_def\<close>)
  next
    case False
    show thesis
    proof (cases "kept = []")
      case True
      show thesis
        by (rule that [of "\<lambda>r. r\<lparr>sv_state := DISCARDED, sv_error := Some ''discarded by destructive scope'', sv_updated_at := e_time E (w_clock w)\<rparr>"
              "Suc n" "Suc (w_clock w)"])
          (use Cons.prems(1) ops kept k False True in
            \<open>auto simp: discarded_from_def Let_def discard_service_submission_def run_simps now_def transaction_def on_db_def\<close>)
    next
      case ne: False
      show thesis
        by (rule that [of "\<lambda>r. r\<lparr>sv_count := length kept, sv_operations := kept,
              sv_error := Some ''partially discarded by destructive scope'', sv_updated_at := e_time E (w_clock w)\<rparr>" "Suc n" "Suc (w_clock w)"])
          (use Cons.prems(1) ops kept k False ne in
            \<open>auto simp: discarded_from_def Let_def replace_service_operations_def run_simps now_def transaction_def on_db_def\<close>)
    qed
  qed
  let ?w = "w\<lparr>w_clock := c1, w_db := set_service (sv_id row) f (w_db w)\<rparr>"
  have sr: "service_rows (w_db ?w) = update_where (\<lambda>r. sv_id r = sv_id row) f (service_rows (w_db w))"
    by (simp add: set_service_def)
  have "q = x" if x: "x \<in> set rows" "q \<in> set (service_rows (w_db ?w))" "sv_id q = sv_id x" for x q
  proof -
    have "sv_id x \<noteq> sv_id row" using x(1) dist(2) by (metis image_eqI)
    then have qw: "q \<in> set (service_rows (w_db w))" using x(2) [unfolded sr] x(3) f by (auto simp: set_update_where split: if_splits)
    show ?thesis by (rule Cons.prems(3) [OF _ qw x(3)]) (simp add: x(1))
  qed
  from Cons.IH [OF run dist(1) this] obtain rows' c where r: "w' = ?w\<lparr>w_clock := c, w_db := (w_db ?w)\<lparr>service_rows := rows'\<rparr>\<rparr>"
    "list_all2 (?R rows) (service_rows (w_db ?w)) rows'"
    by blast
  have "list_all2 (?R (row # rows)) (service_rows (w_db w)) rows'"
  proof (rule list_all2_update [OF r(2) [unfolded sr]])
    fix q q' assume q: "q \<in> set (service_rows (w_db w))"
      and R: "?R rows (if sv_id q = sv_id row then f q else q) q'"
    show "?R (row # rows) q q'"
    proof (cases "sv_id q = sv_id row")
      case True
      have "q = row" by (rule Cons.prems(3) [OF _ q True]) simp
      then show ?thesis using R f dist(2) by simp
    next
      case False
      then have "(if sv_id q = sv_id row then f q else q) = q" by simp
      then have "?R rows q q'" using R by (simp only:)
      then show ?thesis using False by simp
    qed
  qed
  then show ?case using r(1) by (intro exI [of _ rows'] exI [of _ c]) (simp add: set_service_def)
qed

section \<open>Deleting a prefix\<close>

lemma delete_decisions_run:
  "delete_decisions P w = (Inr n, w') \<longleftrightarrow> n = count_where P (decision_rows (w_db w)) \<and>
     w' = w\<lparr>w_db := (w_db w)\<lparr>decision_rows := delete_where P (decision_rows (w_db w))\<rparr>\<rparr>"
  by (auto simp: delete_decisions_def run_simps transaction_def on_db_def)

lemma record_deletion_run:
  assumes "record_deletion E r w = (Inr u, w')"
  shows "\<exists>rows. w' = w\<lparr>w_uuids := Suc (w_uuids w), w_clock := Suc (w_clock w), w_db := (w_db w)\<lparr>deletion_rows := rows\<rparr>\<rparr> \<and>
    (\<exists>x. rows = deletion_rows (w_db w) @ [x] \<and> deletion_result.truncate x = r)"
  using assms
  by (auto simp: record_deletion_def run_simps fresh_uuid_def now_def transaction_def on_dbE_def deletion_result.defs
      deletion_row.defs split: if_splits prod.splits sum.splits)

lemma store_ok_mono:
  assumes "store_ok E user h w" "w_fs w' = w_fs w" "entry_rows (w_db w') = entry_rows (w_db w)" "w_uuids w \<le> w_uuids w'"
  shows "store_ok E user h w'"
proof -
  have "fs_ok E h (w_uuids w') (w_fs w)"
    using assms(1,4) unfolding store_ok_def fs_ok_def by (meson order_trans)
  then show ?thesis using assms(1,2) rows_ok_cong [OF assms(3)] by (simp add: store_ok_def)
qed

lemma rows_under_prefix:
  assumes "entry_rows_under_prefix user writer pfx d = Inr rows"
  shows "r \<in> set rows \<longleftrightarrow> r \<in> set (entry_rows d) \<and> row_user r = user \<and> row_writer r = writer \<and> path_within (entry_path r) pfx"
proof -
  note f = filterE_Inr [OF assms [unfolded entry_rows_under_prefix_def]]
  have m: "r \<in> set (writer_entry_rows user writer d) \<longleftrightarrow> r \<in> set (entry_rows d) \<and> row_user r = user \<and> row_writer r = writer"
    by (auto simp: writer_entry_rows_def)
  have "r \<in> set rows \<longleftrightarrow> r \<in> set (writer_entry_rows user writer d) \<and> path_is_within_prefix (entry_path r) pfx = Inr True"
    using f by simp
  moreover have "path_is_within_prefix (entry_path r) pfx = Inr True \<longleftrightarrow> path_within (entry_path r) pfx"
    if "r \<in> set (writer_entry_rows user writer d)"
    using f that by (metis path_is_within_prefix_Inr)
  ultimately show ?thesis using m by blast
qed

lemma queued_distinct: "queue_ok w \<Longrightarrow> distinct (map sv_id (queued_of_user user writer (w_db w)))"
  by (simp add: queued_of_user_def queue_ok_def distinct_map_filter)

lemma queued_row:
  assumes "queue_ok w" "row \<in> set (queued_of_user user writer (w_db w))" "q \<in> set (service_rows (w_db w))" "sv_id q = sv_id row"
  shows "q = row"
proof -
  have "row \<in> set (service_rows (w_db w))" using assms(2) by (simp add: queued_of_user_def)
  then show ?thesis using assms(1,3,4) by (auto simp: queue_ok_def distinct_map dest: inj_onD)
qed

lemma delete_prefix_run:
  assumes E: "env_ok E user h" and ok: "store_ok E user h w" "queue_ok w"
    and run: "delete_prefix E user writer pfx the_receipt w = (Inr res, w')"
  defines "inside \<equiv> \<lambda>r. row_writer r = writer \<and> path_within (entry_path r) pfx"
  obtains source_keys where "require_authorized_path user writer pfx (w_db w) = Inr ()"
    "set source_keys = entry_source_key ` {r \<in> set (entry_rows (w_db w)). row_user r = user \<and> inside r}"
    "store_ok E user h w'"
    "entry_rows (w_db w') = filter (\<lambda>r. \<not> (row_user r = user \<and> inside r)) (entry_rows (w_db w))"
    "\<And>r. r \<in> set (entry_rows (w_db w)) \<Longrightarrow> row_user r = user \<Longrightarrow>
      contents (w_fs w') (tree_at h (entry_path r)) = (if inside r then None else contents (w_fs w) (tree_at h (entry_path r)))"
    "decision_rows (w_db w') = delete_where (decision_in_scope user writer pfx source_keys) (decision_rows (w_db w))"
    "list_all2 (\<lambda>q q'. if queued_for user writer q then discarded_from pfx source_keys q q' else q' = q)
      (service_rows (w_db w)) (service_rows (w_db w'))"
    "prefix_rows (w_db w') = prefix_rows (w_db w)"
proof -
  obtain rows n m w1 w2 w3 where rows: "valid_path pfx" "require_authorized_path user writer pfx (w_db w) = Inr ()"
      "entry_rows_under_prefix user writer pfx (w_db w) = Inr rows"
    and dec: "delete_decisions (decision_in_scope user writer pfx (map entry_source_key rows)) w = (Inr n, w1)"
    and dis: "discard_for_prefix E pfx (map entry_source_key rows) (queued_of_user user (Some writer) (w_db w1)) 0 w1 = (Inr m, w2)"
    and del: "delete_entry_rows_and_files E user rows w2 = (Inr (), w3)"
    and rec: "record_deletion E res w3 = (Inr (), w')"
    using run by (auto simp: delete_prefix_def bindS_Inr_iff liftE_Inr readE_Inr act_simps Let_def)
  let ?keys = "map entry_source_key rows"
  have w1: "w1 = w\<lparr>w_db := (w_db w)\<lparr>decision_rows := delete_where (decision_in_scope user writer pfx ?keys) (decision_rows (w_db w))\<rparr>\<rparr>"
    using dec by (simp add: delete_decisions_run)
  have q1: "queue_ok w1" using ok(2) by (simp add: w1 queue_ok_def)
  have ops: "q = row" if "row \<in> set (queued_of_user user (Some writer) (w_db w1))"
      "q \<in> set (service_rows (w_db w1))" "sv_id q = sv_id row" for row q
    by (rule queued_row [OF q1 that])
  obtain rows' c where w2: "w2 = w1\<lparr>w_clock := c, w_db := (w_db w1)\<lparr>service_rows := rows'\<rparr>\<rparr>"
    "list_all2 (\<lambda>q q'. if sv_id q \<in> sv_id ` set (queued_of_user user (Some writer) (w_db w1)) then discarded_from pfx ?keys q q' else q' = q)
      (service_rows (w_db w1)) rows'"
    using discard_for_prefix_run [OF dis queued_distinct [OF q1] ops] by blast
  have dq: "list_all2 (\<lambda>q q'. if queued_for user writer q then discarded_from pfx ?keys q q' else q' = q) (service_rows (w_db w1)) rows'"
  proof (rule list.rel_mono_strong [OF w2(2)])
    fix q q' assume q: "q \<in> set (service_rows (w_db w1))"
      and R: "if sv_id q \<in> sv_id ` set (queued_of_user user (Some writer) (w_db w1)) then discarded_from pfx ?keys q q' else q' = q"
    have "sv_id q \<in> sv_id ` set (queued_of_user user (Some writer) (w_db w1)) \<longleftrightarrow> queued_for user writer q"
    proof
      assume "sv_id q \<in> sv_id ` set (queued_of_user user (Some writer) (w_db w1))"
      then obtain x where x: "x \<in> set (queued_of_user user (Some writer) (w_db w1))" "sv_id q = sv_id x" by auto
      then show "queued_for user writer q" using ops [OF x(1) q x(2)] by (auto simp: queued_of_user_def queued_for_def)
    next
      assume "queued_for user writer q"
      then show "sv_id q \<in> sv_id ` set (queued_of_user user (Some writer) (w_db w1))"
        using q by (intro imageI) (simp add: queued_of_user_def queued_for_def)
    qed
    then show "if queued_for user writer q then discarded_from pfx ?keys q q' else q' = q" using R by simp
  qed
  have ok2: "store_ok E user h w2" by (rule store_ok_mono [OF ok(1)]) (simp_all add: w1 w2(1))
  have rs: "r \<in> set rows \<longleftrightarrow> r \<in> set (entry_rows (w_db w)) \<and> row_user r = user \<and> inside r" for r
    using rows_under_prefix [OF rows(3)] by (simp add: inside_def)
  have e2: "entry_rows (w_db w2) = entry_rows (w_db w)" by (simp add: w1 w2(1))
  obtain fs' where w3: "w3 = w2\<lparr>w_fs := fs', w_db := (w_db w2)\<lparr>entry_rows := filter (\<lambda>r. \<not> (row_user r = user \<and> inside r)) (entry_rows (w_db w2))\<rparr>\<rparr>"
    "gone (\<Union>r \<in> set rows. entry_locs h r) (w_fs w2) fs'" "store_ok E user h w3"
    by (rule delete_entries [OF E ok2 rs e2 del])
  obtain rows3 where w': "w' = w3\<lparr>w_uuids := Suc (w_uuids w3), w_clock := Suc (w_clock w3), w_db := (w_db w3)\<lparr>deletion_rows := rows3\<rparr>\<rparr>"
    using record_deletion_run [OF rec] by blast
  have ro: "rows_ok E user h (w_db w) (w_fs w)" using ok(1) by (simp add: store_ok_def)
  show thesis
  proof (rule that [of ?keys])
    show "require_authorized_path user writer pfx (w_db w) = Inr ()" by (rule rows(2))
    show "set ?keys = entry_source_key ` {r \<in> set (entry_rows (w_db w)). row_user r = user \<and> inside r}" using rs by auto
    show "store_ok E user h w'" by (rule store_ok_mono [OF w3(3)]) (simp_all add: w')
    show "entry_rows (w_db w') = filter (\<lambda>r. \<not> (row_user r = user \<and> inside r)) (entry_rows (w_db w))"
      by (simp add: w' w3(1) e2)
    show "decision_rows (w_db w') = delete_where (decision_in_scope user writer pfx ?keys) (decision_rows (w_db w))"
      by (simp add: w' w3(1) w2(1) w1)
    show "prefix_rows (w_db w') = prefix_rows (w_db w)" by (simp add: w' w3(1) w2(1) w1)
    show "list_all2 (\<lambda>q q'. if queued_for user writer q then discarded_from pfx ?keys q q' else q' = q)
        (service_rows (w_db w)) (service_rows (w_db w'))"
      using dq by (simp add: w' w3(1) w2(1) w1)
  next
    fix r assume r: "r \<in> set (entry_rows (w_db w))" "row_user r = user"
    have fs: "w_fs w' = fs'" "w_fs w2 = w_fs w" by (simp_all add: w' w3(1) w2(1) w1)
    have g: "good_path (entry_path r)" by (rule rows_okD(1) [OF ro r])
    have "tree_at h (entry_path r) \<in> (\<Union>r \<in> set rows. entry_locs h r) \<longleftrightarrow> inside r"
    proof
      assume "tree_at h (entry_path r) \<in> (\<Union>r \<in> set rows. entry_locs h r)"
      then obtain q where q: "q \<in> set rows" "tree_at h (entry_path r) = tree_at h (entry_path q)"
        by (auto simp: entry_locs_def tree_at_def lit_def)
      then have "entry_path r = entry_path q"
        using tree_at_inj [OF g rows_okD(1) [OF ro]] rs by blast
      then have "path_key r = path_key q" using q(1) rs r(2) by (simp add: path_key_def)
      moreover have "q \<in> set (entry_rows (w_db w))" using q(1) rs by simp
      moreover have "inj_on path_key (set (entry_rows (w_db w)))" using ro by (simp add: rows_ok_def keys_ok_def distinct_map)
      ultimately have "r = q" using r(1) by (auto dest: inj_onD)
      then show "inside r" using q(1) rs by simp
    next
      assume "inside r"
      then have "r \<in> set rows" using r rs by simp
      then show "tree_at h (entry_path r) \<in> (\<Union>r \<in> set rows. entry_locs h r)" by (auto simp: entry_locs_def)
    qed
    then show "contents (w_fs w') (tree_at h (entry_path r)) = (if inside r then None else contents (w_fs w) (tree_at h (entry_path r)))"
      using gone_contents [OF w3(2)] fs by simp
  qed
qed

section \<open>Deleting a user\<close>

lemma look_rmtree: "look (rmtree s p) q = (if is_dir s p \<and> prefix p q \<and> q \<noteq> [] then None else look s q)"
proof -
  have "map_of (filter (\<lambda>(q, _). \<not> prefix p q) xs) q = (if prefix p q then None else map_of xs q)" for xs :: "(loc \<times> node) list"
    by (induction xs) auto
  then show ?thesis by (auto simp: rmtree_def look_def)
qed

lemma rmtree_idata [simp]: "idata (rmtree s p) = idata s" "next_ino (rmtree s p) = next_ino s"
  by (simp_all add: rmtree_def)

lemma rmtree_contents: "contents (rmtree s p) q = (if is_dir s p \<and> prefix p q \<and> q \<noteq> [] then None else contents s q)"
  by (simp add: contents_def fm_def look_rmtree)

lemma delete_registrations_run:
  "delete_registrations P w = (Inr n, w') \<longleftrightarrow> n = count_where P (prefix_rows (w_db w)) \<and>
     w' = w\<lparr>w_db := (w_db w)\<lparr>prefix_rows := delete_where P (prefix_rows (w_db w))\<rparr>\<rparr>"
  by (auto simp: delete_registrations_def run_simps on_db_def)

lemma delete_user_run:
  assumes E: "env_ok E user h" and run: "delete_user E user the_receipt w = (Inr res, w')"
  shows "entry_rows (w_db w') = filter (\<lambda>r. row_user r \<noteq> user) (entry_rows (w_db w))"
    "decision_rows (w_db w') = filter (\<lambda>r. dec_user r \<noteq> user) (decision_rows (w_db w))"
    "submission_rows (w_db w') = filter (\<lambda>r. sub_user r \<noteq> user) (submission_rows (w_db w))"
    "service_rows (w_db w') = filter (\<lambda>r. sv_user r \<noteq> user) (service_rows (w_db w))"
    "prefix_rows (w_db w') = filter (\<lambda>r. pr_user r \<noteq> user) (prefix_rows (w_db w))"
    "machine_rows (w_db w') = machine_rows (w_db w)" "folder_rows (w_db w') = folder_rows (w_db w)"
    "\<exists>x. deletion_rows (w_db w') = deletion_rows (w_db w) @ [x] \<and> deletion_result.truncate x = res"
    "look (w_fs w') [users_dir, h] = None" "look (w_fs w') [objects_dir, h] = None"
    "\<not> prefix [users_dir, h] q \<Longrightarrow> \<not> prefix [objects_dir, h] q \<Longrightarrow> contents (w_fs w') q = contents (w_fs w) q"
proof -
  note roots = env_ok_roots(1,2) [OF E]
  let ?d = "(w_db w)\<lparr>entry_rows := filter (\<lambda>r. row_user r \<noteq> user) (entry_rows (w_db w)),
      decision_rows := filter (\<lambda>r. dec_user r \<noteq> user) (decision_rows (w_db w)),
      submission_rows := filter (\<lambda>r. sub_user r \<noteq> user) (submission_rows (w_db w)),
      service_rows := filter (\<lambda>r. sv_user r \<noteq> user) (service_rows (w_db w)),
      prefix_rows := filter (\<lambda>r. pr_user r \<noteq> user) (prefix_rows (w_db w))\<rparr>"
  let ?fs = "rmtree (rmtree (w_fs w) [users_dir, h]) [objects_dir, h]"
  have sv: "filter (\<lambda>r. (sv_user r = user \<longrightarrow> sv_state r \<noteq> QUEUED) \<and> sv_user r \<noteq> user) rows = filter (\<lambda>r. sv_user r \<noteq> user) rows" for rows
    by (induction rows) auto
  obtain w3 where w3: "record_deletion E res w3 = (Inr (), w')" "w_db w3 = ?d" "w_fs w3 = ?fs"
    and check: "assert_user_removed E user w' = Inr ()"
    using run
    by (auto simp: delete_user_def bindS_Inr_iff liftE_Inr act_simps delete_decisions_run delete_registrations_run on_db_def
        transaction_Inr on_fs_fsop roots Let_def delete_where_def filter_filter sv split: if_splits)
  obtain rows where w': "w' = w3\<lparr>w_uuids := Suc (w_uuids w3), w_clock := Suc (w_clock w3), w_db := (w_db w3)\<lparr>deletion_rows := rows\<rparr>\<rparr>"
    "\<exists>x. rows = deletion_rows (w_db w3) @ [x] \<and> deletion_result.truncate x = res"
    using record_deletion_run [OF w3(1)] by blast
  show "entry_rows (w_db w') = filter (\<lambda>r. row_user r \<noteq> user) (entry_rows (w_db w))"
    "decision_rows (w_db w') = filter (\<lambda>r. dec_user r \<noteq> user) (decision_rows (w_db w))"
    "submission_rows (w_db w') = filter (\<lambda>r. sub_user r \<noteq> user) (submission_rows (w_db w))"
    "service_rows (w_db w') = filter (\<lambda>r. sv_user r \<noteq> user) (service_rows (w_db w))"
    "prefix_rows (w_db w') = filter (\<lambda>r. pr_user r \<noteq> user) (prefix_rows (w_db w))"
    "machine_rows (w_db w') = machine_rows (w_db w)" "folder_rows (w_db w') = folder_rows (w_db w)"
    by (simp_all add: w'(1) w3)
  show "\<exists>x. deletion_rows (w_db w') = deletion_rows (w_db w) @ [x] \<and> deletion_result.truncate x = res"
    using w' w3(2) by simp
  show "look (w_fs w') [users_dir, h] = None" "look (w_fs w') [objects_dir, h] = None"
    using check by (auto simp: assert_user_removed_def Let_def roots fs_exists_def split: if_splits)
  show "\<not> prefix [users_dir, h] q \<Longrightarrow> \<not> prefix [objects_dir, h] q \<Longrightarrow> contents (w_fs w') q = contents (w_fs w) q"
    by (simp add: w'(1) w3 rmtree_contents)
qed

lemma enqueue_store_ok:
  assumes "enqueue E user writer ops w = (r, w')" "store_ok E user' h w"
  shows "store_ok E user' h w'"
  using enqueue_run [OF assms(1)] by (intro store_ok_mono [OF assms(2)]) auto

lemma record_deletion_fresh:
  assumes "\<forall>q \<in> set (deletion_rows (w_db w)). deletion_id q \<noteq> e_uuid E (w_uuids w)"
  shows "\<exists>rows. record_deletion E r w =
    (Inr (), w\<lparr>w_uuids := Suc (w_uuids w), w_clock := Suc (w_clock w), w_db := (w_db w)\<lparr>deletion_rows := rows\<rparr>\<rparr>)"
proof -
  have "\<not> list_ex (\<lambda>q. deletion_id q = e_uuid E (w_uuids w)) (deletion_rows (w_db w))"
    using assms by (simp add: list_ex_iff)
  then show ?thesis
    by (auto simp: record_deletion_def run_simps fresh_uuid_def now_def transaction_def on_dbE_def)
qed

lemma delete_user_succeeds:
  assumes E: "env_ok E user h" and receipt: "the_receipt \<noteq> []"
    and fresh: "\<forall>q \<in> set (deletion_rows (w_db w)). deletion_id q \<noteq> e_uuid E (w_uuids w)"
    and roots: "\<not> is_file (w_fs w) [users_dir, h]" "\<not> is_file (w_fs w) [objects_dir, h]"
  shows "\<exists>result w'. delete_user E user the_receipt w = (Inr result, w') \<and> deletion_scope result = lit ''user'' \<and>
     deletion_user_id result = user \<and> receipt result = Some the_receipt \<and>
     deleted_entry_count result = count_where (\<lambda>r. row_user r = user) (entry_rows (w_db w))"
proof -
  note r = env_ok_roots(1,2) [OF E]
  let ?fs = "rmtree (rmtree (w_fs w) [users_dir, h]) [objects_dir, h]"
  have n: "look ?fs [users_dir, h] = None" "look ?fs [objects_dir, h] = None"
    using roots by (auto simp: look_rmtree is_file_def is_dir_def split: node.splits option.splits)
  have fin: "\<exists>w'. record_deletion E R v = (Inr (), w') \<and> assert_user_removed E user w' = Inr () \<and>
      length (user_entry_rows user (w_db w)) = count_where (\<lambda>r. row_user r = user) (entry_rows (w_db w))"
    if "w_fs v = ?fs" "deletion_rows (w_db v) = deletion_rows (w_db w)" "w_uuids v = w_uuids w"
      "\<forall>q \<in> set (entry_rows (w_db v)). row_user q \<noteq> user" "\<forall>q \<in> set (decision_rows (w_db v)). dec_user q \<noteq> user"
      "\<forall>q \<in> set (submission_rows (w_db v)). sub_user q \<noteq> user" "\<forall>q \<in> set (service_rows (w_db v)). sv_user q \<noteq> user"
      "\<forall>q \<in> set (prefix_rows (w_db v)). pr_user q \<noteq> user" for R v
    using record_deletion_fresh [of v E R] that fresh
    by (auto simp: assert_user_removed_def list_ex_iff r fs_exists_def n user_entry_rows_def count_where_def)
  show ?thesis
    by (simp add: delete_user_def bindS_Inr_iff liftE_Inr act_simps delete_decisions_run delete_registrations_run on_db_def
        transaction_Inr on_fs_fsop r receipt Let_def delete_where_def filter_filter) (rule fin; simp)
qed

end
