(* ===== verification/Demo.thy ===== *)
theory Demo
  imports Auth Registry Management
begin

text \<open>
  Concrete worlds and operations, on which the properties of the root theory are instantiated: a
  store with a registered prefix, and the same store with one file.
\<close>

definition demo_env :: env where
  "demo_env = \<lparr>e_sha = map uint, e_uuid = (\<lambda>n. replicate (Suc n) 48), e_time = of_nat,
     e_nfkd = id, e_casefold = id\<rparr>"

definition demo_put :: "string \<Rightarrow> string \<Rightarrow> str \<Rightarrow> operation" where
  "demo_put key p body = Put \<lparr>put_path = lit p, put_source_key = lit key, put_source_version = lit ''1'',
     put_doc_class = EDITABLE, put_file_format = lit ''text'', put_text = body,
     put_provenance = \<lparr>producer = lit ''p'', producer_version = lit ''1'', confidence = None, warnings = []\<rparr>\<rparr>"

definition demo_move :: "string \<Rightarrow> string \<Rightarrow> str \<Rightarrow> operation" where
  "demo_move key p body = Move \<lparr>move_source_key = lit key, move_path = lit p, move_source_version = lit ''2'',
     move_expected_content_hash = lit ''sha256:'' @ body\<rparr>"

definition demo_world :: world where
  "demo_world = snd (register_prefix demo_env (lit ''u'') (lit ''w'') (lit ''d'') new_world)"

definition demo_filled :: world where
  "demo_filled = snd (submit demo_env (lit ''u'') (lit ''w'')
     [demo_put ''a'' ''d/a'' (lit ''A''), demo_put ''b'' ''d/b'' (lit ''B'')] demo_world)"

lemma demo_env_ok: "env_ok demo_env (lit ''u'') (lit ''u'')"
proof -
  have "inj (\<lambda>n. replicate (Suc n) (48 :: int))" by (rule injI) (metis length_replicate Suc_inject)
  moreover have "disk_name demo_env (lit ''u'') = Inr (lit ''u'')" by code_simp
  ultimately show ?thesis by (simp add: env_ok_def demo_env_def)
qed

lemma no_self_moves_puts: "moves_of ops = [] \<Longrightarrow> no_self_moves user writer ops d"
  by (simp add: no_self_moves_def)

lemma demo_world_history: "history demo_env (lit ''u'') demo_world"
  unfolding demo_world_def by (rule history.registered [OF history.opened]) (rule prod.collapse [symmetric])

lemma demo_filled_history: "history demo_env (lit ''u'') demo_filled"
  unfolding demo_filled_def
  by (rule history.submitted [OF demo_world_history _ prod.collapse [symmetric]])
    (simp add: no_self_moves_puts demo_put_def)

lemmas demo_filled_ok = history_ok [OF demo_filled_history demo_env_ok]

lemmas demo_ok = demo_env_ok demo_filled_history demo_world_history demo_filled_ok [THEN conjunct1]
  demo_filled_ok [THEN conjunct2]

lemma demo_filled_submit:
  "\<exists>s. submit demo_env (lit ''u'') (lit ''w'')
     [demo_put ''a'' ''d/a'' (lit ''A''), demo_put ''b'' ''d/b'' (lit ''B'')] demo_world = (Inr s, demo_filled)"
proof -
  have "\<not> isl (fst (submit demo_env (lit ''u'') (lit ''w'')
      [demo_put ''a'' ''d/a'' (lit ''A''), demo_put ''b'' ''d/b'' (lit ''B'')] demo_world))" by code_simp
  then show ?thesis unfolding demo_filled_def by (metis isl_def prod.collapse sum.exhaust)
qed

lemma demo_sha_inj: "inj (e_sha demo_env)"
  by (simp add: demo_env_def inj_map)

text \<open>A catalogue with one machine, and a queue with two submissions.\<close>

definition demo_catalog :: world where
  "demo_catalog = (case register_machine 2 demo_env (lit ''u'') (lit ''r1'') (lit ''Laptop'') None None None None False (Some 1)
     new_world of None \<Rightarrow> new_world | Some (_, w) \<Rightarrow> w)"

definition demo_machine :: machine where
  "demo_machine = \<lparr>machine_id = lit ''0'', machine_key = lit ''laptop'', machine_name = lit ''Laptop'', machine_description = None,
        machine_state = M_UNKNOWN, machine_platform = None, machine_ctxd_version = None, credential_key_id = None, machine_registered_at = 1\<rparr>"

lemma demo_registered:
  "register_machine 2 demo_env (lit ''u'') (lit ''r1'') (lit ''Laptop'') None None None None False (Some 1)
     new_world = Some (Inr demo_machine, demo_catalog)"
proof -
  have "map_option fst (register_machine 2 demo_env (lit ''u'') (lit ''r1'') (lit ''Laptop'') None None None None False (Some 1)
     new_world) = Some (Inr demo_machine)" by code_simp
  then show ?thesis by (auto simp: demo_catalog_def)
qed

definition demo_queued :: world where
  "demo_queued = snd (enqueue demo_env (lit ''u'') (lit ''w'') [demo_put ''z'' ''e/z'' []]
     (snd (enqueue demo_env (lit ''u'') (lit ''w'') [demo_put ''c'' ''d/c'' (lit ''C'')] demo_filled)))"

text \<open>The same queue with a third submission behind one whose text is a lone surrogate.\<close>

definition demo_blocked :: world where
  "demo_blocked = snd (enqueue demo_env (lit ''u'') (lit ''w'') [demo_put ''y'' ''d/y'' (lit ''Y'')]
     (snd (enqueue demo_env (lit ''u'') (lit ''w'') [demo_put ''x'' ''d/x'' [55296]] demo_queued)))"

lemma demo_blocked_ok: "queue_ok demo_blocked"
  unfolding queue_ok_def by code_simp

lemma demo_queue_ok: "queue_ok demo_queued"
  unfolding queue_ok_def by code_simp

definition demo_deleted :: world where
  "demo_deleted = snd (delete_prefix demo_env (lit ''u'') (lit ''w'') (lit ''d'') None demo_queued)"

lemma demo_queued_ok: "store_ok demo_env (lit ''u'') (lit ''u'') demo_queued"
  unfolding demo_queued_def by (intro enqueue_store_ok [OF prod.collapse [symmetric]] demo_ok(4))

definition demo_principal :: principal where
  "demo_principal = \<lparr>principal_id = lit ''p'', principal_kind = API_KEY, scopes = {SUBMIT}, key_id = Some (lit ''k''),
     prefixes = [lit ''d''], principal_machine_id = None\<rparr>"

lemma demo_catalog_history: "catalog_history demo_env demo_catalog"
  by (rule catalog_history.machine_registered [OF catalog_history.opened demo_registered])

lemma demo_queued_rows: "list_all (\<lambda>r. row_user r = lit ''u'') (entry_rows (w_db demo_queued))"
  by code_simp

lemma demo_user_deleted: "\<exists>result w'. delete_user demo_env (lit ''u'') (lit ''r'') demo_queued = (Inr result, w')"
proof -
  have r: "lit ''r'' \<noteq> []" by (simp add: lit_def)
  have "list_all (\<lambda>q. deletion_id q \<noteq> e_uuid demo_env (w_uuids demo_queued)) (deletion_rows (w_db demo_queued))"
    "\<not> is_file (w_fs demo_queued) [users_dir, lit ''u'']" "\<not> is_file (w_fs demo_queued) [objects_dir, lit ''u'']" by code_simp+
  with delete_user_succeeds [OF demo_env_ok r, of demo_queued] show ?thesis by (auto simp: list_all_iff)
qed

end
