(* ===== verification/Json.thy ===== *)
theory Json
  imports Catalog
begin

text \<open>
  JSON texts as \<open>json.dumps(value, separators=(",", ":"), sort_keys=True)\<close> writes them: ASCII only,
  with the keys of objects sorted. A number with a fraction or an exponent is kept as its text; the
  code reads such numbers from other programs and writes none.
\<close>

datatype json =
    JNull
  | JBool bool
  | JInt int
  | JFloat str
  | JStr str
  | JArr "json list"
  | JObj "(str \<times> json) list"

definition hex4 :: "int \<Rightarrow> str" where
  "hex4 n = map hex_digit [n div 4096 mod 16, n div 256 mod 16, n div 16 mod 16, n mod 16]"

definition json_escape :: "int \<Rightarrow> str" where
  "json_escape c =
     (if c = 34 then [92, 34]
      else if c = 92 then [92, 92]
      else if c = 10 then lit [CHR 92, CHR ''n'']
      else if c = 13 then lit [CHR 92, CHR ''r'']
      else if c = 9 then lit [CHR 92, CHR ''t'']
      else if c = 12 then lit [CHR 92, CHR ''f'']
      else if c = 8 then lit [CHR 92, CHR ''b'']
      else if 32 \<le> c \<and> c \<le> 126 then [c]
      else if c < 65536 then 92 # 117 # hex4 c
      else let d = c - 65536 in
        92 # 117 # hex4 (55296 + d div 1024) @ 92 # 117 # hex4 (56320 + d mod 1024))"

definition json_string :: "str \<Rightarrow> str" where
  "json_string s = 34 # concat (map json_escape s) @ [34]"

definition json_int :: "int \<Rightarrow> str" where
  "json_int n = (if n < 0 then dash # decimal (nat (- n)) else decimal (nat n))"

fun json_dumps :: "json \<Rightarrow> str" where
  "json_dumps JNull = lit ''null''"
| "json_dumps (JBool b) = (if b then lit ''true'' else lit ''false'')"
| "json_dumps (JInt n) = json_int n"
| "json_dumps (JFloat t) = t"
| "json_dumps (JStr s) = json_string s"
| "json_dumps (JArr xs) = 91 # join_with 44 (map json_dumps xs) @ [93]"
| "json_dumps (JObj kvs) =
     123 # join_with 44 (map (\<lambda>(k, t). json_string k @ 58 # t) (sort_key fst (map (\<lambda>(k, x). (k, json_dumps x)) kvs))) @ [125]"

definition json_opt :: "str option \<Rightarrow> json" where
  "json_opt v = (case v of None \<Rightarrow> JNull | Some s \<Rightarrow> JStr s)"

end
