(* ===== verification/Codec.thy ===== *)
theory Codec
  imports Json
begin

text \<open>
  What \<open>src/ctxfs/store.py\<close> uses of Python's \<open>base64\<close> and \<open>json\<close> modules to read continuation
  cursors and the records of ripgrep: \<open>b64decode(\<dots>, validate=True)\<close>, \<open>urlsafe_b64encode\<close>, and
  \<open>json.loads\<close> of bytes. The nesting limit of the JSON parser (\<open>RecursionError\<close>) is not modelled.
  The parser takes fuel; \<open>json_loads\<close> gives it more than one unit for each character.
\<close>

section \<open>Base 64\<close>

definition b64_digit :: "int \<Rightarrow> int" where
  "b64_digit n =
     (if n < 26 then 65 + n else if n < 52 then 71 + n else if n < 62 then n - 4 else if n = 62 then 45 else 95)"

fun urlsafe_b64encode :: "int list \<Rightarrow> str" where
  "urlsafe_b64encode [] = []"
| "urlsafe_b64encode [a] = [b64_digit (a div 4), b64_digit (a mod 4 * 16), 61, 61]"
| "urlsafe_b64encode [a, b] =
     [b64_digit (a div 4), b64_digit (a mod 4 * 16 + b div 16), b64_digit (b mod 16 * 4), 61]"
| "urlsafe_b64encode (a # b # c # r) =
     b64_digit (a div 4) # b64_digit (a mod 4 * 16 + b div 16) # b64_digit (b mod 16 * 4 + c div 64)
       # b64_digit (c mod 64) # urlsafe_b64encode r"

definition b64_value :: "int \<Rightarrow> int option" where
  "b64_value c =
     (if 65 \<le> c \<and> c \<le> 90 then Some (c - 65)
      else if 97 \<le> c \<and> c \<le> 122 then Some (c - 71)
      else if 48 \<le> c \<and> c \<le> 57 then Some (c + 4)
      else if c = 43 then Some 62
      else if c = 47 then Some 63
      else None)"

text \<open>
  \<open>binascii.a2b_base64(s, strict_mode=True)\<close>: the position within a quad, the padding seen in it, and
  the bits left of the previous character.
\<close>

fun a2b_loop :: "bool \<Rightarrow> nat \<Rightarrow> nat \<Rightarrow> int \<Rightarrow> str \<Rightarrow> int list option" where
  "a2b_loop padded quad pads left [] = (if quad = 0 then Some [] else None)"
| "a2b_loop padded quad pads left (c # cs) =
     (if c = 61 then
        (if 2 \<le> quad \<and> 4 \<le> quad + pads + 1 then (if cs = [] then Some [] else None)
         else a2b_loop True quad (if 2 \<le> quad then pads + 1 else pads) left cs)
      else (case b64_value c of
          None \<Rightarrow> None
        | Some v \<Rightarrow>
            if padded then None
            else if quad = 0 then a2b_loop False 1 0 v cs
            else if quad = 1 then map_option (Cons (left * 4 + v div 16)) (a2b_loop False 2 0 (v mod 16) cs)
            else if quad = 2 then map_option (Cons (left * 16 + v div 4)) (a2b_loop False 3 0 (v mod 4) cs)
            else map_option (Cons (left * 64 + v)) (a2b_loop False 0 0 0 cs)))"

definition b64decode :: "str \<Rightarrow> bytes res" where
  "b64decode s =
     (if list_ex (\<lambda>c. 128 \<le> c) s then Inl (ValueError ''string argument should contain only ASCII characters'')
      else if s \<noteq> [] \<and> hd s = 61 then Inl (ValueError ''leading padding not allowed'')
      else (case a2b_loop False 0 0 0 s of
          None \<Rightarrow> Inl (ValueError ''invalid base64-encoded string'')
        | Some xs \<Rightarrow> Inr (map word_of_int xs)))"

definition b64decode_urlsafe :: "str \<Rightarrow> bytes res" where
  "b64decode_urlsafe s = b64decode (map (\<lambda>c. if c = 45 then 43 else if c = 95 then 47 else c) s)"

section \<open>The encodings of JSON texts\<close>

text \<open>\<open>bytes.decode(\<dots>, "surrogatepass")\<close>.\<close>

function utf8_pass :: "int list \<Rightarrow> str res" where
  "utf8_pass bs =
     (if bs = [] then Inr []
      else (case utf8_next bs of
          Inr (c, n) \<Rightarrow> bindE (utf8_pass (drop n bs)) (\<lambda>cs. Inr (c # cs))
        | Inl _ \<Rightarrow>
            let x = (bs ! 0 mod 16) * 4096 + (bs ! 1 mod 64) * 64 + bs ! 2 mod 64 in
            if 3 \<le> length bs \<and> bs ! 0 div 16 = 14 \<and> cont (bs ! 1) \<and> cont (bs ! 2) \<and> surrogate x
            then bindE (utf8_pass (drop 3 bs)) (\<lambda>cs. Inr (x # cs))
            else Inl (UnicodeError ''invalid utf-8'')))"
  by pat_completeness auto
termination
  by (relation "measure length") (auto dest: utf8_next_pos)

declare utf8_pass.simps [simp del]

fun units :: "bool \<Rightarrow> int list \<Rightarrow> int list option" where
  "units big [] = Some []"
| "units big [a] = None"
| "units big (a # b # r) = map_option (Cons (if big then 256 * a + b else 256 * b + a)) (units big r)"

fun join_units :: "int list \<Rightarrow> str" where
  "join_units [] = []"
| "join_units [u] = [u]"
| "join_units (u # v # r) =
     (if 0xD800 \<le> u \<and> u \<le> 0xDBFF \<and> 0xDC00 \<le> v \<and> v \<le> 0xDFFF
      then (0x10000 + (u - 0xD800) * 1024 + (v - 0xDC00)) # join_units r
      else u # join_units (v # r))"

fun quads :: "bool \<Rightarrow> int list \<Rightarrow> int list option" where
  "quads big [] = Some []"
| "quads big (a # b # c # d # r) =
     (let x = (if big then ((a * 256 + b) * 256 + c) * 256 + d else ((d * 256 + c) * 256 + b) * 256 + a) in
      if x < 0x110000 then map_option (Cons x) (quads big r) else None)"
| "quads big r = None"

definition decoding :: "str option \<Rightarrow> str res" where
  "decoding x = (case x of None \<Rightarrow> Inl (UnicodeError ''truncated data'') | Some s \<Rightarrow> Inr s)"

definition utf16 :: "bool \<Rightarrow> int list \<Rightarrow> str res" where
  "utf16 big bs = decoding (map_option join_units (units big bs))"

definition utf32 :: "bool \<Rightarrow> int list \<Rightarrow> str res" where
  "utf32 big bs = decoding (quads big bs)"

text \<open>\<open>json.detect_encoding\<close> and the decoding it selects.\<close>

definition json_decode :: "bytes \<Rightarrow> str res" where
  "json_decode data =
     (let bs = map uint data; n = length bs in
      if take 4 bs = [0, 0, 254, 255] then utf32 True (drop 4 bs)
      else if take 4 bs = [255, 254, 0, 0] then utf32 False (drop 4 bs)
      else if take 2 bs = [254, 255] then utf16 True (drop 2 bs)
      else if take 2 bs = [255, 254] then utf16 False (drop 2 bs)
      else if take 3 bs = [239, 187, 191] then utf8_pass (drop 3 bs)
      else if 4 \<le> n \<and> bs ! 0 = 0 then (if bs ! 1 \<noteq> 0 then utf16 True bs else utf32 True bs)
      else if 4 \<le> n \<and> bs ! 1 = 0 then (if bs ! 2 \<noteq> 0 \<or> bs ! 3 \<noteq> 0 then utf16 False bs else utf32 False bs)
      else if n = 2 \<and> bs ! 0 = 0 then utf16 True bs
      else if n = 2 \<and> bs ! 1 = 0 then utf16 False bs
      else utf8_pass bs)"

section \<open>\<open>json.loads\<close>\<close>

definition skip_ws :: "str \<Rightarrow> str" where
  "skip_ws s = dropWhile (\<lambda>c. c \<in> {32, 9, 10, 13}) s"

definition unescape :: "int \<Rightarrow> int option" where
  "unescape e =
     (if e \<in> {34, 92, 47} then Some e
      else if e = 98 then Some 8
      else if e = 102 then Some 12
      else if e = 110 then Some 10
      else if e = 114 then Some 13
      else if e = 116 then Some 9
      else None)"

fun unhex4 :: "str \<Rightarrow> (int \<times> str) option" where
  "unhex4 (a # b # c # d # r) =
     (case (hex_value a, hex_value b, hex_value c, hex_value d) of
        (Some w, Some x, Some y, Some z) \<Rightarrow> Some (w * 4096 + x * 256 + y * 16 + z, r)
      | _ \<Rightarrow> None)"
| "unhex4 _ = None"

lemma unhex4_shorter: "unhex4 s = Some (u, r) \<Longrightarrow> length r < length s"
  by (induction s rule: unhex4.induct) (auto split: option.splits)

text \<open>The rest of a string after its opening quote; a pair of escaped surrogates is one character.\<close>

function scan_string :: "str \<Rightarrow> (str \<times> str) option" where
  "scan_string [] = None"
| "scan_string (c # cs) =
     (if c = 34 then Some ([], cs)
      else if c < 32 then None
      else if c \<noteq> 92 then map_option (\<lambda>(s, r). (c # s, r)) (scan_string cs)
      else (case cs of
          [] \<Rightarrow> None
        | e # es \<Rightarrow>
            if e \<noteq> 117
            then (case unescape e of None \<Rightarrow> None | Some u \<Rightarrow> map_option (\<lambda>(s, r). (u # s, r)) (scan_string es))
            else (case unhex4 es of
                None \<Rightarrow> None
              | Some (u, r) \<Rightarrow>
                  if 0xD800 \<le> u \<and> u \<le> 0xDBFF \<and> take 2 r = [92, 117]
                  then (case unhex4 (drop 2 r) of
                      None \<Rightarrow> None
                    | Some (v, r') \<Rightarrow>
                        if 0xDC00 \<le> v \<and> v \<le> 0xDFFF
                        then map_option (\<lambda>(s, q). ((0x10000 + (u - 0xD800) * 1024 + (v - 0xDC00)) # s, q)) (scan_string r')
                        else map_option (\<lambda>(s, q). (u # s, q)) (scan_string r))
                  else map_option (\<lambda>(s, q). (u # s, q)) (scan_string r))))"
  by pat_completeness auto
termination
  by (relation "measure length") (auto dest!: unhex4_shorter)

declare scan_string.simps(2) [simp del]

definition digit :: "int \<Rightarrow> bool" where
  "digit c = (48 \<le> c \<and> c \<le> 57)"

definition bad_json :: "'a res" where
  "bad_json = Inl (JSONDecodeError ''invalid JSON'')"

definition json_number :: "str \<Rightarrow> (json \<times> str) res" where
  "json_number s =
     (let (sign, r) = (if take 1 s = [45] then ([45], drop 1 s) else ([], s));
          ds = (if take 1 r = [48] then [48] else takeWhile digit r);
          r1 = drop (length ds) r;
          frac = (if take 1 r1 = [46] \<and> takeWhile digit (drop 1 r1) \<noteq> [] then 46 # takeWhile digit (drop 1 r1) else []);
          r2 = drop (length frac) r1;
          e = (if r2 \<noteq> [] \<and> hd r2 \<in> {69, 101}
               then take 1 r2 @ (if drop 1 r2 \<noteq> [] \<and> hd (drop 1 r2) \<in> {43, 45} then take 1 (drop 1 r2) else []) else []);
          es = takeWhile digit (drop (length e) r2);
          expo = (if e \<noteq> [] \<and> es \<noteq> [] then e @ es else [])
      in if ds = [] then bad_json
         else if frac = [] \<and> expo = []
         then (if 4300 < int (length ds) then Inl (ValueError ''exceeds the limit for integer string conversion'')
               else Inr (JInt (if sign = [] then int (undecimal ds) else - int (undecimal ds)), r1))
         else Inr (JFloat (sign @ ds @ frac @ expo), drop (length expo) r2))"

definition json_atoms :: "(str \<times> json) list" where
  "json_atoms =
     [(lit ''null'', JNull), (lit ''true'', JBool True), (lit ''false'', JBool False), (lit ''NaN'', JFloat (lit ''NaN'')),
      (lit ''Infinity'', JFloat (lit ''Infinity'')), (lit ''-Infinity'', JFloat (lit ''-Infinity''))]"

definition json_scalar :: "str \<Rightarrow> (json \<times> str) res" where
  "json_scalar s =
     (case find (\<lambda>(t, _). startswith s t) json_atoms of
        Some (t, x) \<Rightarrow> Inr (x, drop (length t) s)
      | None \<Rightarrow> json_number s)"

fun json_value :: "nat \<Rightarrow> str \<Rightarrow> (json \<times> str) res"
  and json_items :: "nat \<Rightarrow> str \<Rightarrow> (json list \<times> str) res"
  and json_members :: "nat \<Rightarrow> str \<Rightarrow> ((str \<times> json) list \<times> str) res" where
  "json_value 0 s = bad_json"
| "json_value (Suc n) s =
     (case s of
        [] \<Rightarrow> bad_json
      | c # cs \<Rightarrow>
          if c = 34 then (case scan_string cs of None \<Rightarrow> bad_json | Some (t, r) \<Rightarrow> Inr (JStr t, r))
          else if c = 91
          then (if take 1 (skip_ws cs) = [93] then Inr (JArr [], drop 1 (skip_ws cs))
                else bindE (json_items n (skip_ws cs)) (\<lambda>(xs, r). Inr (JArr xs, r)))
          else if c = 123
          then (if take 1 (skip_ws cs) = [125] then Inr (JObj [], drop 1 (skip_ws cs))
                else bindE (json_members n (skip_ws cs)) (\<lambda>(kvs, r). Inr (JObj kvs, r)))
          else json_scalar s)"
| "json_items 0 s = bad_json"
| "json_items (Suc n) s =
     bindE (json_value n s) (\<lambda>(x, r).
     case skip_ws r of
       [] \<Rightarrow> bad_json
     | c # cs \<Rightarrow>
         if c = 93 then Inr ([x], cs)
         else if c = 44 then bindE (json_items n (skip_ws cs)) (\<lambda>(xs, q). Inr (x # xs, q))
         else bad_json)"
| "json_members 0 s = bad_json"
| "json_members (Suc n) s =
     (case s of
        [] \<Rightarrow> bad_json
      | c # cs \<Rightarrow>
          if c \<noteq> 34 then bad_json else
          (case scan_string cs of
             None \<Rightarrow> bad_json
           | Some (k, r) \<Rightarrow>
               if take 1 (skip_ws r) \<noteq> [58] then bad_json else
               bindE (json_value n (skip_ws (drop 1 (skip_ws r)))) (\<lambda>(x, q).
               case skip_ws q of
                 [] \<Rightarrow> bad_json
               | d # ds \<Rightarrow>
                   if d = 125 then Inr ([(k, x)], ds)
                   else if d = 44 then bindE (json_members n (skip_ws ds)) (\<lambda>(kvs, z). Inr ((k, x) # kvs, z))
                   else bad_json)))"

definition json_loads :: "bytes \<Rightarrow> json res" where
  "json_loads data =
     bindE (json_decode data) (\<lambda>s.
     bindE (json_value (2 * length s + 2) (skip_ws s)) (\<lambda>(x, r).
     if skip_ws r = [] then Inr x else bad_json))"

text \<open>\<open>payload.get(key)\<close>: of equal keys the last one counts.\<close>

definition json_get :: "(str \<times> json) list \<Rightarrow> string \<Rightarrow> json option" where
  "json_get kvs k = map_of (rev kvs) (lit k)"

end
