(* ===== verification/Cursor.thy ===== *)
theory Cursor
  imports Codec
begin

text \<open>
  The continuation cursors of \<open>src/ctxfs/store.py\<close>: \<open>_GrepCursor\<close>, \<open>_encode_grep_cursor\<close> and
  \<open>_decode_grep_cursor\<close>, and that decoding returns every cursor that was encoded.
\<close>

datatype cursor_mode = AFTER_MATCH | LEGACY_AFTER_MATCH | FILE_START | SEARCH_START

record grep_cursor =
  cu_prefix_hash :: str
  cu_pattern_hash :: str
  cu_path :: str
  cu_content_hash :: "str option"
  cu_mode :: cursor_mode
  cu_anchor :: "(int \<times> int \<times> int) option"
  cu_catalog_mismatch :: bool
  cu_version :: int

definition GREP_MAX_CURSOR_BYTES :: int where
  "GREP_MAX_CURSOR_BYTES = 4096"

definition mode_name :: "cursor_mode \<Rightarrow> str" where
  "mode_name m =
     (case m of
        AFTER_MATCH \<Rightarrow> lit ''after_match''
      | LEGACY_AFTER_MATCH \<Rightarrow> lit ''legacy_after_match''
      | FILE_START \<Rightarrow> lit ''file_start''
      | SEARCH_START \<Rightarrow> lit ''search_start'')"

definition mode_of :: "str \<Rightarrow> cursor_mode option" where
  "mode_of s = find (\<lambda>m. mode_name m = s) [AFTER_MATCH, LEGACY_AFTER_MATCH, FILE_START, SEARCH_START]"

text \<open>\<open>_GREP_CONTENT_HASH_RE\<close> and \<open>_GREP_PATH_IDENTITY_RE\<close>; \<open>\d\<close> matches the digits of all scripts.\<close>

definition grep_content_hash :: "str \<Rightarrow> bool" where
  "grep_content_hash s =
     (startswith s (lit ''sha256:'') \<and> length s = 71 \<and>
      list_all (\<lambda>c. 48 \<le> c \<and> c \<le> 57 \<or> 97 \<le> c \<and> c \<le> 102) (drop 7 s))"

definition digits :: "str \<Rightarrow> bool" where
  "digits s = (s \<noteq> [] \<and> list_all (\<lambda>c. list_ex (\<lambda>z. z \<le> c \<and> c \<le> z + 9) nd_zeros) s)"

definition signed_digits :: "str \<Rightarrow> bool" where
  "signed_digits s = digits (if take 1 s = [45] then drop 1 s else s)"

fun path_identity_fields :: "str list \<Rightarrow> bool" where
  "path_identity_fields [tag, dev, ino, bytes, mtime, ctime] =
     (tag = lit ''stat'' \<and> digits dev \<and> digits ino \<and> digits bytes \<and> signed_digits mtime \<and> signed_digits ctime)"
| "path_identity_fields _ = False"

definition grep_path_identity :: "str \<Rightarrow> bool" where
  "grep_path_identity s = path_identity_fields (split_on 58 s)"

section \<open>Encoding\<close>

definition cursor_payload :: "grep_cursor \<Rightarrow> json" where
  "cursor_payload c =
     JObj [(lit ''v'', JInt 3), (lit ''p'', JStr (cu_prefix_hash c)), (lit ''q'', JStr (cu_pattern_hash c)),
       (lit ''r'', JStr (cu_path c)), (lit ''h'', json_opt (cu_content_hash c)), (lit ''m'', JStr (mode_name (cu_mode c))),
       (lit ''a'', case cu_anchor c of None \<Rightarrow> JNull | Some (x, y, z) \<Rightarrow> JArr [JInt x, JInt y, JInt z]),
       (lit ''c'', JBool (cu_catalog_mismatch c))]"

definition encode_grep_cursor :: "grep_cursor \<Rightarrow> str res" where
  "encode_grep_cursor c =
     bindE (utf8_encode (json_dumps (cursor_payload c))) (\<lambda>data.
     let encoded = rstrip_by (\<lambda>c. c = 61) (urlsafe_b64encode (map uint data)) in
     if GREP_MAX_CURSOR_BYTES < int (length encoded) then Inl (ValueError ''ctxfs grep cursor is too large'')
     else Inr encoded)"

section \<open>Decoding\<close>

definition invalid_cursor :: "'a res" where
  "invalid_cursor = Inl (ValueError ''invalid ctxfs grep cursor'')"

definition json_text :: "json option \<Rightarrow> str option" where
  "json_text x = (case x of Some (JStr s) \<Rightarrow> Some s | _ \<Rightarrow> None)"

text \<open>\<open>content_hash\<close>, which is a string or null.\<close>

definition json_opt_text :: "json option \<Rightarrow> str option option" where
  "json_opt_text x = (case x of Some JNull \<Rightarrow> Some None | Some (JStr s) \<Rightarrow> Some (Some s) | _ \<Rightarrow> None)"

definition cursor_anchor :: "json option \<Rightarrow> (int \<times> int \<times> int) option" where
  "cursor_anchor x =
     (case x of
        Some (JArr [JInt a, JInt b, JInt c]) \<Rightarrow> if 1 \<le> a \<and> 0 \<le> b \<and> 0 \<le> c then Some (a, b, c) else None
      | _ \<Rightarrow> None)"

definition decode_payload :: "(str \<times> json) list \<Rightarrow> grep_cursor res" where
  "decode_payload kvs =
     (case json_get kvs ''v'' of
        Some (JInt version) \<Rightarrow>
          if version \<noteq> 2 \<and> version \<noteq> 3 then invalid_cursor else
          let expected = map lit ([''v'', ''p'', ''q'', ''r'', ''h'', ''m'', ''a''] @ (if version = 3 then [''c''] else [])) in
          if set (map fst kvs) \<noteq> set expected then invalid_cursor else
          (case (if version = 3 then json_get kvs ''c'' else Some (JBool False),
                 json_text (json_get kvs ''p''), json_text (json_get kvs ''q''), json_text (json_get kvs ''r''),
                 json_text (json_get kvs ''m''), json_opt_text (json_get kvs ''h'')) of
             (Some (JBool mismatch), Some p, Some q, Some r, Some m, Some the_hash) \<Rightarrow>
               if \<not> grep_content_hash p \<or> \<not> grep_content_hash q then invalid_cursor else
               (case mode_of m of
                  None \<Rightarrow> invalid_cursor
                | Some mode \<Rightarrow>
                    let is_content_hash = (case the_hash of Some h \<Rightarrow> grep_content_hash h | None \<Rightarrow> False);
                        is_path_identity = (case the_hash of Some h \<Rightarrow> grep_path_identity h | None \<Rightarrow> False);
                        anchored = (mode \<in> {AFTER_MATCH, LEGACY_AFTER_MATCH});
                        anchor = cursor_anchor (json_get kvs ''a'')
                    in if anchored \<and> (\<not> is_content_hash \<or> anchor = None) then invalid_cursor
                       else if \<not> anchored \<and> json_get kvs ''a'' \<noteq> Some JNull then invalid_cursor
                       else if mode = SEARCH_START \<and> (r \<noteq> [] \<or> the_hash \<noteq> None) then invalid_cursor
                       else if mode = FILE_START \<and> \<not> (is_content_hash \<or> is_path_identity) then invalid_cursor
                       else (case (if r = [] then Inr [] else normalize_path r) of
                           Inl _ \<Rightarrow> invalid_cursor
                         | Inr path \<Rightarrow>
                             if path \<noteq> r then invalid_cursor
                             else Inr \<lparr>cu_prefix_hash = p, cu_pattern_hash = q, cu_path = path,
                                       cu_content_hash = the_hash, cu_mode = mode,
                                       cu_anchor = (if anchored then anchor else None),
                                       cu_catalog_mismatch = mismatch, cu_version = version\<rparr>))
           | _ \<Rightarrow> invalid_cursor)
      | _ \<Rightarrow> invalid_cursor)"

definition decode_grep_cursor :: "str \<Rightarrow> grep_cursor res" where
  "decode_grep_cursor s =
     (if s = [] \<or> GREP_MAX_CURSOR_BYTES < int (length s) then invalid_cursor else
      case bindE (b64decode_urlsafe (s @ replicate (nat (- int (length s) mod 4)) 61)) (\<lambda>raw.
           if GREP_MAX_CURSOR_BYTES < int (length raw) then Inl (ValueError '''') else json_loads raw) of
        Inl _ \<Rightarrow> invalid_cursor
      | Inr (JObj kvs) \<Rightarrow> decode_payload kvs
      | Inr _ \<Rightarrow> invalid_cursor)"

section \<open>Base 64 round trip\<close>

definition octets :: "int list \<Rightarrow> bool" where
  "octets xs = list_all (\<lambda>x. 0 \<le> x \<and> x < 256) xs"

lemma octets_simps [simp]: "octets []" "octets (x # xs) \<longleftrightarrow> 0 \<le> x \<and> x < 256 \<and> octets xs"
  by (simp_all add: octets_def)

lemma b64_digit_value:
  assumes "0 \<le> n" "n < 64"
  shows "b64_value (if b64_digit n = 45 then 43 else if b64_digit n = 95 then 47 else b64_digit n) = Some n"
    "b64_digit n \<noteq> 61" "0 \<le> b64_digit n" "b64_digit n < 128"
  using assms by (auto simp: b64_digit_def b64_value_def)

abbreviation std :: "int \<Rightarrow> int" where
  "std c \<equiv> if c = 45 then 43 else if c = 95 then 47 else c"

lemma std_digit: "0 \<le> n \<Longrightarrow> n < 64 \<Longrightarrow> std (b64_digit n) \<noteq> 61"
  by (auto simp: b64_digit_def)

lemma a2b_digit:
  assumes "0 \<le> v" "v < 64"
  shows "a2b_loop False q p l (std (b64_digit v) # cs) =
     (if q = 0 then a2b_loop False 1 0 v cs
      else if q = 1 then map_option (Cons (l * 4 + v div 16)) (a2b_loop False 2 0 (v mod 16) cs)
      else if q = 2 then map_option (Cons (l * 16 + v div 4)) (a2b_loop False 3 0 (v mod 4) cs)
      else map_option (Cons (l * 64 + v)) (a2b_loop False 0 0 0 cs))"
  using std_digit [OF assms] b64_digit_value(1) [OF assms] by simp

lemma a2b_encode: "octets xs \<Longrightarrow> a2b_loop False 0 0 0 (map std (urlsafe_b64encode xs)) = Some xs"
proof (induction xs rule: urlsafe_b64encode.induct)
  case 1
  then show ?case by simp
next
  case (2 a)
  then have b: "0 \<le> a div 4" "a div 4 < 64" "0 \<le> a mod 4 * 16" "a mod 4 * 16 < 64" by auto
  show ?case by (simp add: a2b_digit [OF b(1,2)] a2b_digit [OF b(3,4)] del: a2b_loop.simps(2)) simp
next
  case (3 a b)
  then have b: "0 \<le> a div 4" "a div 4 < 64" "0 \<le> a mod 4 * 16 + b div 16" "a mod 4 * 16 + b div 16 < 64"
    "0 \<le> b mod 16 * 4" "b mod 16 * 4 < 64" by auto
  show ?case by (simp add: a2b_digit [OF b(1,2)] a2b_digit [OF b(3,4)] a2b_digit [OF b(5,6)] del: a2b_loop.simps(2)) (use 3 in auto)
next
  case (4 a b c r)
  then have b: "0 \<le> a div 4" "a div 4 < 64" "0 \<le> a mod 4 * 16 + b div 16" "a mod 4 * 16 + b div 16 < 64"
    "0 \<le> b mod 16 * 4 + c div 64" "b mod 16 * 4 + c div 64 < 64" "0 \<le> c mod 64" "c mod 64 < 64" by auto
  show ?case
    by (simp add: a2b_digit [OF b(1,2)] a2b_digit [OF b(3,4)] a2b_digit [OF b(5,6)] a2b_digit [OF b(7,8)] del: a2b_loop.simps(2))
      (use 4 in auto)
qed


lemma b64_shape:
  "octets xs \<Longrightarrow> \<exists>core k. urlsafe_b64encode xs = core @ replicate k 61 \<and> k < 3 \<and> 61 \<notin> set core \<and>
     (length core + k) mod 4 = 0 \<and> length xs \<le> length core \<and> list_all (\<lambda>c. c < 128) core"
proof (induction xs rule: urlsafe_b64encode.induct)
  case 1
  show ?case by (rule exI [of _ "[]"], rule exI [of _ 0]) simp
next
  case (2 a)
  then have b: "0 \<le> a div 4" "a div 4 < 64" "0 \<le> a mod 4 * 16" "a mod 4 * 16 < 64" by auto
  show ?case
    by (rule exI [of _ "[b64_digit (a div 4), b64_digit (a mod 4 * 16)]"], rule exI [of _ 2])
      (use b64_digit_value(2,4) [OF b(1,2)] b64_digit_value(2,4) [OF b(3,4)] in \<open>auto simp: numeral_2_eq_2\<close>)
next
  case (3 a b)
  then have b: "0 \<le> a div 4" "a div 4 < 64" "0 \<le> a mod 4 * 16 + b div 16" "a mod 4 * 16 + b div 16 < 64"
    "0 \<le> b mod 16 * 4" "b mod 16 * 4 < 64" by auto
  show ?case
    by (rule exI [of _ "[b64_digit (a div 4), b64_digit (a mod 4 * 16 + b div 16), b64_digit (b mod 16 * 4)]"], rule exI [of _ 1])
      (use b64_digit_value(2,4) [OF b(1,2)] b64_digit_value(2,4) [OF b(3,4)] b64_digit_value(2,4) [OF b(5,6)] in auto)
next
  case (4 a b c r)
  then have b: "0 \<le> a div 4" "a div 4 < 64" "0 \<le> a mod 4 * 16 + b div 16" "a mod 4 * 16 + b div 16 < 64"
    "0 \<le> b mod 16 * 4 + c div 64" "b mod 16 * 4 + c div 64 < 64" "0 \<le> c mod 64" "c mod 64 < 64" by auto
  have "octets r" using 4(2) by simp
  then obtain core k where IH: "urlsafe_b64encode r = core @ replicate k 61" "k < 3" "61 \<notin> set core" "(length core + k) mod 4 = 0"
    "length r \<le> length core" "list_all (\<lambda>c. c < 128) core" using 4(1) [OF \<open>octets r\<close>] by (elim exE conjE)
  let ?q = "[b64_digit (a div 4), b64_digit (a mod 4 * 16 + b div 16), b64_digit (b mod 16 * 4 + c div 64), b64_digit (c mod 64)]"
  have "(length (?q @ core) + k) mod 4 = 0" using IH(4) by (simp add: mod_eq_0_iff_dvd)
  then show ?case
    by (intro exI [of _ "?q @ core"] exI [of _ k])
      (use IH b64_digit_value(2,4) [OF b(1,2)] b64_digit_value(2,4) [OF b(3,4)] b64_digit_value(2,4) [OF b(5,6)]
        b64_digit_value(2,4) [OF b(7,8)] in auto)
qed

lemma rstrip_replicate: "x \<notin> set core \<Longrightarrow> rstrip_by (\<lambda>c. c = x) (core @ replicate k x) = core"
proof -
  assume a: "x \<notin> set core"
  have "dropWhile (\<lambda>c. c = x) (replicate k x @ rev core) = rev core"
    using a by (induction k) (auto simp: dropWhile_eq_self_iff hd_rev)
  then show ?thesis by (simp add: rstrip_by_def)
qed

lemma b64decode_encode:
  assumes "octets xs" "s = rstrip_by (\<lambda>c. c = 61) (urlsafe_b64encode xs)"
  shows "b64decode_urlsafe (s @ replicate (nat (- int (length s) mod 4)) 61) = Inr (map word_of_int xs)"
    "length xs \<le> length s"
proof -
  obtain core k where c: "urlsafe_b64encode xs = core @ replicate k 61" "k < 3" "61 \<notin> set core"
    "(length core + k) mod 4 = 0" "length xs \<le> length core" "list_all (\<lambda>c. c < 128) core"
    using b64_shape [OF assms(1)] by (elim exE conjE)
  have s: "s = core" unfolding assms(2) c(1) by (rule rstrip_replicate [OF c(3)])
  then show "length xs \<le> length s" using c(5) by simp
  have k: "- int (length core) mod 4 = int k" using c(2,4) by presburger
  have e: "s @ replicate (nat (- int (length s) mod 4)) 61 = urlsafe_b64encode xs"
    by (simp add: s k c(1))
  let ?t = "map std (urlsafe_b64encode xs)"
  have "\<not> list_ex (\<lambda>c. 128 \<le> c) ?t" using c(6) by (auto simp: c(1) list_ex_iff list_all_iff)
  moreover have "?t = [] \<or> hd ?t \<noteq> 61"
  proof (cases core)
    case Nil
    then have "k = 0" using c(2,4) by simp
    then show ?thesis by (simp add: c(1) Nil)
  next
    case (Cons x xs')
    then show ?thesis using c(3) by (auto simp: c(1))
  qed
  ultimately show "b64decode_urlsafe (s @ replicate (nat (- int (length s) mod 4)) 61) = Inr (map word_of_int xs)"
    unfolding e b64decode_urlsafe_def b64decode_def using a2b_encode [OF assms(1)] by auto
qed

section \<open>JSON round trip\<close>

lemma horner4:
  fixes c d1 d2 d3 m0 m1 m2 :: int
  assumes "c = d1 * 16 + m0" "d1 = d2 * 16 + m1" "d2 = d3 * 16 + m2"
  shows "d3 * 4096 + m2 * 256 + m1 * 16 + m0 = c"
  using assms by simp

lemma unhex4_hex4:
  assumes "0 \<le> c" "c < 65536"
  shows "unhex4 (hex4 c @ r) = Some (c, r)"
proof -
  have d: "c div 256 = c div 16 div 16" "c div 4096 = c div 16 div 16 div 16"
    using zdiv_zmult2_eq [of 16 c 16] zdiv_zmult2_eq [of 16 "c div 16" 16] zdiv_zmult2_eq [of 256 c 16] by simp_all
  have m: "c div 4096 mod 16 = c div 4096" using assms by simp
  have "c = c div 16 * 16 + c mod 16" by (rule div_mult_mod_eq [symmetric])
  moreover have "c div 16 = c div 256 * 16 + c div 16 mod 16" unfolding d(1) by (rule div_mult_mod_eq [symmetric])
  moreover have "c div 256 = c div 4096 * 16 + c div 256 mod 16" unfolding d by (rule div_mult_mod_eq [symmetric])
  ultimately have "c div 4096 * 4096 + c div 256 mod 16 * 256 + c div 16 mod 16 * 16 + c mod 16 = c"
    by (rule horner4)
  then have e: "c div 4096 mod 16 * 4096 + c div 256 mod 16 * 256 + c div 16 mod 16 * 16 + c mod 16 = c" unfolding m .
  have v: "hex_value (hex_digit (n mod 16)) = Some (n mod 16)" for n :: int by (rule hex_value_digit) simp_all
  show ?thesis unfolding hex4_def list.map append.simps unhex4.simps v option.case prod.case e by (rule refl)
qed

lemma hex4_split: "\<exists>a b c d. hex4 n = [a, b, c, d]"
  by (simp add: hex4_def)

lemma scan_plain: "32 \<le> c \<Longrightarrow> c \<noteq> 34 \<Longrightarrow> c \<noteq> 92 \<Longrightarrow>
    scan_string (c # cs) = map_option (\<lambda>(s, r). (c # s, r)) (scan_string cs)"
  by (simp add: scan_string.simps(2))

lemma scan_short: "unescape e = Some u \<Longrightarrow> e \<noteq> 117 \<Longrightarrow>
    scan_string (92 # e # es) = map_option (\<lambda>(s, r). (u # s, r)) (scan_string es)"
  by (simp add: scan_string.simps(2))

lemma scan_unicode: "0 \<le> c \<Longrightarrow> c < 65536 \<Longrightarrow> \<not> (0xD800 \<le> c \<and> c \<le> 0xDBFF) \<Longrightarrow>
    scan_string (92 # 117 # hex4 c @ es) = map_option (\<lambda>(s, r). (c # s, r)) (scan_string es)"
  by (auto simp: scan_string.simps(2) unhex4_hex4)

lemma scan_pair:
  assumes "0x10000 \<le> c" "c < 0x110000"
  shows "scan_string (92 # 117 # hex4 (55296 + (c - 65536) div 1024) @ 92 # 117 # hex4 (56320 + (c - 65536) mod 1024) @ es)
    = map_option (\<lambda>(s, r). (c # s, r)) (scan_string es)"
proof -
  let ?u = "55296 + (c - 65536) div 1024" and ?v = "56320 + (c - 65536) mod 1024"
  have b: "0 \<le> ?u" "?u < 65536" "0xD800 \<le> ?u" "?u \<le> 0xDBFF" "0 \<le> ?v" "?v < 65536" "0xDC00 \<le> ?v" "?v \<le> 0xDFFF"
    using assms by auto
  have e: "0x10000 + (?u - 0xD800) * 1024 + (?v - 0xDC00) = c" by simp
  have "scan_string (92 # 117 # hex4 ?u @ 92 # 117 # hex4 ?v @ es)
      = map_option (\<lambda>(s, r). ((0x10000 + (?u - 0xD800) * 1024 + (?v - 0xDC00)) # s, r)) (scan_string es)"
    unfolding scan_string.simps(2) [of 92] using b
    by (simp add: unhex4_hex4 [OF b(1,2)] unhex4_hex4 [OF b(5,6)] del: e)
  then show ?thesis unfolding e .
qed

lemma scan_escape:
  assumes "scalar c"
  shows "scan_string (json_escape c @ es) = map_option (\<lambda>(s, r). (c # s, r)) (scan_string es)"
proof -
  have c: "0 \<le> c" "c < 0x110000" "\<not> (0xD800 \<le> c \<and> c \<le> 0xDFFF)" using assms by (auto simp: scalar_def surrogate_def)
  consider "c \<in> {34, 92, 10, 13, 9, 12, 8}" | "c \<notin> {34, 92, 10, 13, 9, 12, 8}" "32 \<le> c" "c \<le> 126"
    | "c \<notin> {34, 92, 10, 13, 9, 12, 8}" "\<not> (32 \<le> c \<and> c \<le> 126)" "c < 65536"
    | "65536 \<le> c" by linarith
  then show ?thesis
  proof cases
    case 1
    then show ?thesis by (auto simp: json_escape_def lit_def scan_short unescape_def)
  next
    case 2
    then show ?thesis by (simp add: json_escape_def scan_plain)
  next
    case 3
    then have "json_escape c = 92 # 117 # hex4 c" by (auto simp: json_escape_def)
    then show ?thesis using scan_unicode [of c es] c 3(3) by auto
  next
    case 4
    then have "json_escape c = 92 # 117 # hex4 (55296 + (c - 65536) div 1024) @ 92 # 117 # hex4 (56320 + (c - 65536) mod 1024)"
      by (simp add: json_escape_def Let_def)
    then show ?thesis using scan_pair [OF 4 c(2), of es] by simp
  qed
qed

lemma scan_json_string: "scalar_str s \<Longrightarrow> scan_string (concat (map json_escape s) @ 34 # r) = Some (s, r)"
proof (induction s)
  case Nil
  then show ?case by (simp add: scan_string.simps(2))
next
  case (Cons c s)
  then have "scalar c" "scan_string (concat (map json_escape s) @ 34 # r) = Some (s, r)" by (simp_all add: scalar_str_def)
  then show ?case by (simp add: scan_escape)
qed

definition delimited :: "str \<Rightarrow> bool" where
  "delimited r \<longleftrightarrow> r \<noteq> [] \<and> hd r \<in> {44, 93, 125}"

text \<open>With \<open>k\<close> units of fuel the parser reads \<open>x\<close> off the text \<open>t\<close>, whatever delimiter follows.\<close>

definition parses :: "nat \<Rightarrow> str \<Rightarrow> json \<Rightarrow> bool" where
  "parses k t x \<longleftrightarrow> t \<noteq> [] \<and> hd t \<notin> {32, 9, 10, 13} \<and>
     (\<forall>n r. k \<le> n \<longrightarrow> delimited r \<longrightarrow> json_value n (t @ r) = Inr (x, r))"

lemma skip_ws_Cons: "c \<notin> {32, 9, 10, 13} \<Longrightarrow> skip_ws (c # s) = c # s"
  by (simp add: skip_ws_def)

lemma skip_ws_hd: "t \<noteq> [] \<Longrightarrow> hd t \<notin> {32, 9, 10, 13} \<Longrightarrow> skip_ws (t @ r) = t @ r"
  by (cases t) (simp_all add: skip_ws_def)

lemma fuel_Suc: "0 < n \<Longrightarrow> \<exists>m. n = Suc m"
  by (cases n) auto

lemma parses_string: "scalar_str s \<Longrightarrow> parses 1 (json_string s) (JStr s)"
  unfolding parses_def
proof (intro conjI allI impI)
  fix n r assume s: "scalar_str s" and n: "1 \<le> (n :: nat)"
  obtain m where m: "n = Suc m" using fuel_Suc [of n] n by auto
  show "json_value n (json_string s @ r) = Inr (JStr s, r)"
    using scan_json_string [OF s, of r] by (simp add: m json_string_def)
qed (simp_all add: json_string_def)

lemma parses_atoms: "parses 1 (lit ''null'') JNull" "parses 1 (lit ''true'') (JBool True)" "parses 1 (lit ''false'') (JBool False)"
proof -
  have "json_value n (lit ''null'' @ r) = Inr (JNull, r)" "json_value n (lit ''true'' @ r) = Inr (JBool True, r)"
      "json_value n (lit ''false'' @ r) = Inr (JBool False, r)" if "1 \<le> n" for n r
  proof -
    obtain m where m: "n = Suc m" using fuel_Suc [of n] \<open>1 \<le> n\<close> by auto
    show "json_value n (lit ''null'' @ r) = Inr (JNull, r)" "json_value n (lit ''true'' @ r) = Inr (JBool True, r)"
      "json_value n (lit ''false'' @ r) = Inr (JBool False, r)"
      by (simp_all add: m lit_def json_scalar_def json_atoms_def startswith_def)
  qed
  then show "parses 1 (lit ''null'') JNull" "parses 1 (lit ''true'') (JBool True)" "parses 1 (lit ''false'') (JBool False)"
    by (simp_all add: parses_def lit_def)
qed

lemma decimal_head: "decimal n \<noteq> [] \<and> digit (hd (decimal n)) \<and> (hd (decimal n) = 48 \<longrightarrow> n = 0)"
proof (induction n rule: decimal.induct)
  case (1 n)
  show ?case
  proof (cases "n < 10")
    case True
    then show ?thesis by (subst (1 2 3) decimal.simps) (auto simp: digit_def)
  next
    case False
    then show ?thesis using 1 by (subst (1 2 3) decimal.simps) (auto simp: hd_append)
  qed
qed

lemma decimal_0: "decimal 0 = [48]"
  by (simp add: decimal.simps)

lemma json_number_bad:
  assumes "\<not> digit c" "c \<noteq> 45"
  shows "json_number (c # s) = bad_json"
proof -
  have sign: "take 1 (c # s) \<noteq> [45]" using assms(2) by simp
  have ds: "(if take 1 (c # s) = [48] then [48] else takeWhile digit (c # s)) = []" using assms(1) by (auto simp: digit_def)
  show ?thesis unfolding json_number_def Let_def if_not_P [OF sign] prod.case ds by (rule if_P) (rule refl)
qed

lemma json_number_decimal:
  assumes "delimited r" "length (decimal n) \<le> 4300"
  shows "json_number (decimal n @ r) = Inr (JInt (int n), r)"
proof -
  have d: "decimal n \<noteq> []" "digit (hd (decimal n))" "hd (decimal n) = 48 \<longrightarrow> n = 0" using decimal_head [of n] by auto
  obtain c s where s: "decimal n = c # s" using d(1) by (cases "decimal n") auto
  have c: "digit c" "c = 48 \<longrightarrow> decimal n = [48]" using d(2,3) s decimal_0 by auto
  have r: "\<not> digit (hd r)" "r \<noteq> []" "hd r \<notin> {46, 69, 101}" using assms(1) by (auto simp: delimited_def digit_def)
  have all: "list_all digit (decimal n)" using decimal_digits [of _ n] by (auto simp: list_all_iff digit_def)
  have tw: "takeWhile digit (decimal n @ r) = decimal n"
    using all r(1,2) by (cases r) (auto simp: takeWhile_append2 list_all_iff)
  have ds: "(if take 1 (decimal n @ r) = [48] then [48] else takeWhile digit (decimal n @ r)) = decimal n"
    using c(2) tw by (auto simp: s)
  have sign: "take 1 (decimal n @ r) \<noteq> [45]" using c(1) by (auto simp: s digit_def)
  obtain e q where q: "r = e # q" using r(2) by (cases r) auto
  have dr: "drop (length (decimal n)) (decimal n @ r) = r" by simp
  show ?thesis
    unfolding json_number_def Let_def if_not_P [OF sign] prod.case ds dr
    using r(3) d(1) assms(2) undecimal_decimal [of n] by (simp add: q)
qed

lemma parses_decimal:
  assumes "length (decimal n) \<le> 4300"
  shows "parses 1 (decimal n) (JInt (int n))"
proof -
  obtain c s where s: "decimal n = c # s" using decimal_head [of n] by (cases "decimal n") auto
  have c: "digit c" using decimal_head [of n] by (simp add: s)
  then have b: "48 \<le> c" "c \<le> 57" by (simp_all add: digit_def)
  have "json_value k (decimal n @ r) = Inr (JInt (int n), r)" if k: "1 \<le> k" and r: "delimited r" for k r
  proof -
    obtain m where m: "k = Suc m" using fuel_Suc [of k] k by auto
    have "json_value k (decimal n @ r) = json_scalar (decimal n @ r)" using b by (simp add: m s)
    also have "\<dots> = json_number (decimal n @ r)" using b by (simp add: json_scalar_def json_atoms_def startswith_def s lit_def)
    finally show ?thesis using json_number_decimal [OF r assms] by simp
  qed
  then show ?thesis using b by (auto simp: parses_def s)
qed

lemma parsesD:
  assumes "parses k t x"
  shows "k \<le> n \<Longrightarrow> delimited r \<Longrightarrow> json_value n (t @ r) = Inr (x, r)" "skip_ws (t @ q) = t @ q"
  using assms skip_ws_hd [of t q] by (simp_all add: parses_def)

lemma items_step:
  assumes "parses k t x" "Suc k \<le> n"
  shows "skip_ws r = r \<Longrightarrow> json_items n (t @ 44 # r) = bindE (json_items (n - 1) r) (\<lambda>(xs, q). Inr (x # xs, q))"
    "json_items n (t @ 93 # r) = Inr ([x], r)"
proof -
  obtain m where m: "n = Suc m" "k \<le> m" using fuel_Suc [of n] assms(2) by auto
  show "json_items n (t @ 44 # r) = bindE (json_items (n - 1) r) (\<lambda>(xs, q). Inr (x # xs, q))" if "skip_ws r = r"
    using parsesD(1) [OF assms(1) m(2), of "44 # r"] that by (simp add: m delimited_def skip_ws_Cons)
  show "json_items n (t @ 93 # r) = Inr ([x], r)"
    using parsesD(1) [OF assms(1) m(2), of "93 # r"] by (simp add: m delimited_def skip_ws_Cons)
qed

lemma members_step:
  assumes "parses k t x" "scalar_str key" "Suc k \<le> n"
  shows "skip_ws r = r \<Longrightarrow>
      json_members n (json_string key @ 58 # t @ 44 # r) = bindE (json_members (n - 1) r) (\<lambda>(kvs, z). Inr ((key, x) # kvs, z))"
    "json_members n (json_string key @ 58 # t @ 125 # r) = Inr ([(key, x)], r)"
proof -
  obtain m where m: "n = Suc m" "k \<le> m" using fuel_Suc [of n] assms(3) by auto
  have s: "scan_string (concat (map json_escape key) @ 34 # 58 # z) = Some (key, 58 # z)" for z
    by (rule scan_json_string [OF assms(2)])
  note ws = parsesD(2) [OF assms(1)]
  show "json_members n (json_string key @ 58 # t @ 44 # r) = bindE (json_members (n - 1) r) (\<lambda>(kvs, z). Inr ((key, x) # kvs, z))"
    if "skip_ws r = r"
    using parsesD(1) [OF assms(1) m(2), of "44 # r"] that
    by (simp add: m delimited_def json_string_def s skip_ws_Cons ws)
  show "json_members n (json_string key @ 58 # t @ 125 # r) = Inr ([(key, x)], r)"
    using parsesD(1) [OF assms(1) m(2), of "125 # r"]
    by (simp add: m delimited_def json_string_def s skip_ws_Cons ws)
qed

lemma parses_triple:
  assumes "parses 1 t x" "parses 1 u y" "parses 1 v z"
  shows "parses 6 (91 # t @ 44 # u @ 44 # v @ [93]) (JArr [x, y, z])"
  unfolding parses_def
proof (intro conjI allI impI)
  fix n r assume n: "6 \<le> (n :: nat)"
  obtain m where m: "n = Suc m" "5 \<le> m" using fuel_Suc [of n] n by auto
  have f: "t @ q \<noteq> []" "take 1 (t @ q) \<noteq> [93]" for q
  proof -
    have "t \<noteq> []" using assms(1) by (simp add: parses_def)
    moreover have "hd t \<noteq> 93"
    proof
      assume "hd t = 93"
      then obtain w where "t = 93 # w" using \<open>t \<noteq> []\<close> by (cases t) auto
      then have "json_value 1 (t @ [44]) = json_scalar (93 # w @ [44])" by simp
      also have "\<dots> = bad_json" by (simp add: json_scalar_def json_atoms_def startswith_def lit_def json_number_bad digit_def)
      finally show False using parsesD(1) [OF assms(1), of 1 "[44]"] by (simp add: delimited_def bad_json_def)
    qed
    ultimately show "t @ q \<noteq> []" "take 1 (t @ q) \<noteq> [93]" by (cases t; simp)+
  qed
  have "json_items m (t @ 44 # u @ 44 # v @ 93 # r) = Inr ([x, y, z], r)"
    using m(2) by (simp add: items_step(1) [OF assms(1)] items_step(1) [OF assms(2)] items_step(2) [OF assms(3)]
      parsesD(2) [OF assms(2)] parsesD(2) [OF assms(3)])
  then show "json_value n ((91 # t @ 44 # u @ 44 # v @ [93]) @ r) = Inr (JArr [x, y, z], r)"
    using f(2) by (simp add: m parsesD(2) [OF assms(1)])
qed simp_all

section \<open>Texts of cursors\<close>

lemma json_value_object:
  assumes "skip_ws cs = cs" "take 1 cs \<noteq> [125]" "json_members n cs = Inr (kvs, r)"
  shows "json_value (Suc n) (123 # cs) = Inr (JObj kvs, r)"
  using assms by simp

definition ascii :: "str \<Rightarrow> bool" where
  "ascii s \<longleftrightarrow> list_all (\<lambda>c. 32 \<le> c \<and> c < 127) s"

lemma ascii_simps [simp]: "ascii []" "ascii (c # s) \<longleftrightarrow> 32 \<le> c \<and> c < 127 \<and> ascii s" "ascii (s @ t) \<longleftrightarrow> ascii s \<and> ascii t"
  by (simp_all add: ascii_def)

lemma hex_digit_ascii: "0 \<le> n \<Longrightarrow> n < 16 \<Longrightarrow> 32 \<le> hex_digit n \<and> hex_digit n < 127"
  by (simp add: hex_digit_def)

lemma ascii_hex4: "ascii (hex4 n)"
proof -
  have "32 \<le> hex_digit (m mod 16) \<and> hex_digit (m mod 16) < 127" for m :: int
    by (rule hex_digit_ascii) simp_all
  then show ?thesis by (simp add: hex4_def)
qed

lemma ascii_escape: "ascii (json_escape c)"
  by (simp add: json_escape_def lit_def ascii_hex4 Let_def)

lemma ascii_json_string: "ascii (json_string s)"
  by (induction s) (simp_all add: json_string_def ascii_escape)

lemma ascii_decimal: "ascii (decimal n)"
  unfolding ascii_def list_all_iff using decimal_digits by fastforce

lemma ascii_json: "ascii (lit ''null'')" "ascii (lit ''true'')" "ascii (lit ''false'')"
  by (simp_all add: lit_def)

lemma utf8_encode_ascii: "ascii s \<Longrightarrow> utf8_encode s = Inr (map word_of_int s)"
  by (induction s) (simp_all add: scalar_def surrogate_def utf8_cp_def)

lemma octets_ascii: "ascii s \<Longrightarrow> octets s"
  by (induction s) simp_all

lemma uint_octets: "octets s \<Longrightarrow> map uint (map (word_of_int :: int \<Rightarrow> byte) s) = s"
  by (induction s) (simp_all add: uint_word8)

lemma utf8_pass_ascii: "ascii s \<Longrightarrow> utf8_pass s = Inr s"
proof (induction s)
  case Nil
  then show ?case by (simp add: utf8_pass.simps)
next
  case (Cons c s)
  then have n: "utf8_next (c # s) = Inr (c, 1)" by simp
  show ?case using Cons by (subst utf8_pass.simps) (simp add: n del: utf8_next.simps)
qed

lemma json_decode_ascii:
  assumes "ascii (c # d # s)" "2 \<le> length s"
  shows "json_decode (map word_of_int (c # d # s)) = Inr (c # d # s)"
proof -
  have u: "map uint (map (word_of_int :: int \<Rightarrow> byte) (c # d # s)) = c # d # s"
    by (rule uint_octets [OF octets_ascii [OF assms(1)]])
  have b: "32 \<le> c" "c < 127" "32 \<le> d" "d < 127" using assms(1) by simp_all
  have l: "length (c # d # s) \<noteq> 2" using assms(2) by auto
  show ?thesis
    unfolding json_decode_def Let_def u using b l utf8_pass_ascii [OF assms(1)] by (simp add: numeral_eq_Suc)
qed

definition anchor_json :: "(int \<times> int \<times> int) option \<Rightarrow> json" where
  "anchor_json a = (case a of None \<Rightarrow> JNull | Some (x, y, z) \<Rightarrow> JArr [JInt x, JInt y, JInt z])"

definition cursor_text :: "grep_cursor \<Rightarrow> str" where
  "cursor_text c =
     123 # json_string (lit ''a'') @ 58 # json_dumps (anchor_json (cu_anchor c)) @ 44 #
     json_string (lit ''c'') @ 58 # json_dumps (JBool (cu_catalog_mismatch c)) @ 44 #
     json_string (lit ''h'') @ 58 # json_dumps (json_opt (cu_content_hash c)) @ 44 #
     json_string (lit ''m'') @ 58 # json_string (mode_name (cu_mode c)) @ 44 #
     json_string (lit ''p'') @ 58 # json_string (cu_prefix_hash c) @ 44 #
     json_string (lit ''q'') @ 58 # json_string (cu_pattern_hash c) @ 44 #
     json_string (lit ''r'') @ 58 # json_string (cu_path c) @ 44 #
     json_string (lit ''v'') @ 58 # decimal 3 @ 125 # []"

lemma json_dumps_cursor: "json_dumps (cursor_payload c) = cursor_text c"
  unfolding cursor_payload_def anchor_json_def [symmetric] cursor_text_def
  by (simp add: lit_def json_int_def del: json_dumps.simps(2-7)) (simp add: json_int_def)


definition cursor_ok :: "grep_cursor \<Rightarrow> bool" where
  "cursor_ok c \<longleftrightarrow> cu_version c = 3 \<and> grep_content_hash (cu_prefix_hash c) \<and> grep_content_hash (cu_pattern_hash c) \<and>
     scalar_str (cu_path c) \<and> (cu_path c = [] \<or> valid_path (cu_path c)) \<and>
     (case cu_mode c of
        FILE_START \<Rightarrow> cu_anchor c = None \<and> (\<exists>h. cu_content_hash c = Some h \<and> (grep_content_hash h \<or> grep_path_identity h))
      | SEARCH_START \<Rightarrow> cu_anchor c = None \<and> cu_content_hash c = None \<and> cu_path c = []
      | _ \<Rightarrow> (\<exists>h. cu_content_hash c = Some h \<and> grep_content_hash h) \<and>
          (\<exists>x y z. cu_anchor c = Some (x, y, z) \<and> 1 \<le> x \<and> 0 \<le> y \<and> 0 \<le> z))"

lemma scalar_append [simp]: "scalar_str (s @ t) \<longleftrightarrow> scalar_str s \<and> scalar_str t"
  by (simp add: scalar_str_def)

lemma scalar_Cons [simp]: "scalar_str (c # s) \<longleftrightarrow> scalar c \<and> scalar_str s" "scalar_str []"
  by (simp_all add: scalar_str_def)

lemma scalar_ascii: "0 \<le> c \<Longrightarrow> c < 128 \<Longrightarrow> scalar c"
  by (simp add: scalar_def surrogate_def)

lemma scalar_content_hash: "grep_content_hash s \<Longrightarrow> scalar_str s"
proof -
  assume s: "grep_content_hash s"
  then obtain r where r: "s = lit ''sha256:'' @ r" by (auto simp: grep_content_hash_def startswith_def prefix_def)
  have "scalar_str r" using s
    by (auto simp: r lit_def grep_content_hash_def scalar_str_def list_all_iff scalar_def surrogate_def)
  then show ?thesis by (simp add: r lit_def scalar_ascii)
qed

lemma scalar_digits: "digits s \<Longrightarrow> scalar_str s"
proof -
  have "list_all (\<lambda>z. 0 \<le> z \<and> (z + 9 < 55296 \<or> 57343 < z \<and> z + 9 < 0x110000)) nd_zeros" by (simp add: nd_zeros_def)
  then show "digits s \<Longrightarrow> scalar_str s"
    by (fastforce simp: digits_def scalar_str_def list_all_iff list_ex_iff scalar_def surrogate_def)
qed

lemma scalar_signed: "signed_digits s \<Longrightarrow> scalar_str s"
  using scalar_digits [of "drop 1 s"] scalar_digits [of s]
  by (cases s) (auto simp: signed_digits_def scalar_ascii split: if_splits)

lemma scalar_path_identity:
  assumes "grep_path_identity s"
  shows "scalar_str s"
proof -
  obtain a b c d e f where x: "split_on 58 s = [a, b, c, d, e, f]"
    using assms by (cases "split_on 58 s" rule: path_identity_fields.cases) (auto simp: grep_path_identity_def)
  then have f: "a = lit ''stat''" "digits b" "digits c" "digits d" "signed_digits e" "signed_digits f"
    using assms by (simp_all add: grep_path_identity_def)
  have "s = join_with 58 (split_on 58 s)" by simp
  then show ?thesis unfolding x using f scalar_digits scalar_signed
    by (simp add: scalar_ascii) (simp add: lit_def scalar_ascii)
qed

lemma scalar_mode: "scalar_str (mode_name m)"
  by (cases m) (simp_all add: mode_name_def lit_def scalar_ascii)

section \<open>The round trip\<close>

lemma parses_hash: "(\<And>h. x = Some h \<Longrightarrow> scalar_str h) \<Longrightarrow> parses 1 (json_dumps (json_opt x)) (json_opt x)"
  by (cases x) (simp_all add: json_opt_def parses_atoms parses_string del: One_nat_def)

lemma parses_bool: "parses 1 (json_dumps (JBool b)) (JBool b)"
  by (cases b) (simp_all add: parses_atoms del: One_nat_def)

lemma parses_mono: "parses k t x \<Longrightarrow> k \<le> l \<Longrightarrow> parses l t x"
  by (auto simp: parses_def)

lemma parses_anchor:
  assumes "\<And>x y z. a = Some (x, y, z) \<Longrightarrow> 0 \<le> x \<and> 0 \<le> y \<and> 0 \<le> z" "length (json_dumps (anchor_json a)) \<le> 4300"
  shows "parses 6 (json_dumps (anchor_json a)) (anchor_json a)"
proof (cases a)
  case None
  then show ?thesis using parses_mono [OF parses_atoms(1)] by (simp add: anchor_json_def)
next
  case (Some p)
  obtain x y z where p: "p = (x, y, z)" by (cases p)
  have s: "0 \<le> x" "0 \<le> y" "0 \<le> z" using assms(1) Some p by auto
  then have d: "json_dumps (anchor_json a) = 91 # decimal (nat x) @ 44 # decimal (nat y) @ 44 # decimal (nat z) @ [93]"
    by (simp add: anchor_json_def Some p json_int_def)
  then have l: "length (decimal (nat x)) \<le> 4300" "length (decimal (nat y)) \<le> 4300" "length (decimal (nat z)) \<le> 4300"
    using assms(2) by simp_all
  show ?thesis unfolding d
    using parses_triple [OF parses_decimal [OF l(1)] parses_decimal [OF l(2)] parses_decimal [OF l(3)]] s
    by (simp add: anchor_json_def Some p)
qed

definition cursor_members :: "grep_cursor \<Rightarrow> (str \<times> json) list" where
  "cursor_members c =
     [(lit ''a'', anchor_json (cu_anchor c)), (lit ''c'', JBool (cu_catalog_mismatch c)),
      (lit ''h'', json_opt (cu_content_hash c)), (lit ''m'', JStr (mode_name (cu_mode c))),
      (lit ''p'', JStr (cu_prefix_hash c)), (lit ''q'', JStr (cu_pattern_hash c)), (lit ''r'', JStr (cu_path c)),
      (lit ''v'', JInt 3)]"

lemma key_scalar: "scalar_str (lit ''a'')" "scalar_str (lit ''c'')" "scalar_str (lit ''h'')" "scalar_str (lit ''m'')"
  "scalar_str (lit ''p'')" "scalar_str (lit ''q'')" "scalar_str (lit ''r'')" "scalar_str (lit ''v'')"
  by (simp_all add: lit_def scalar_ascii)

lemma key_no_ws: "skip_ws (json_string k @ r) = json_string k @ r"
  by (simp add: json_string_def skip_ws_Cons)

lemma anchor_nonneg: "cursor_ok c \<Longrightarrow> cu_anchor c = Some (x, y, z) \<Longrightarrow> 0 \<le> x \<and> 0 \<le> y \<and> 0 \<le> z"
  by (auto simp: cursor_ok_def split: cursor_mode.splits)

lemma hash_scalar: "cursor_ok c \<Longrightarrow> cu_content_hash c = Some h \<Longrightarrow> scalar_str h"
  using scalar_content_hash scalar_path_identity by (auto simp: cursor_ok_def split: cursor_mode.splits)

lemma members_cursor:
  assumes "cursor_ok c" "length (json_dumps (anchor_json (cu_anchor c))) \<le> 4300" "14 \<le> n"
  shows "json_value n (cursor_text c) = Inr (JObj (cursor_members c), [])"
proof -
  obtain m where m: "n = Suc m" "13 \<le> m" using fuel_Suc [of n] assms(3) by auto
  have a: "parses 6 (json_dumps (anchor_json (cu_anchor c))) (anchor_json (cu_anchor c))"
    by (rule parses_anchor) (use anchor_nonneg [OF assms(1)] assms(2) in auto)
  have h: "parses 1 (json_dumps (json_opt (cu_content_hash c))) (json_opt (cu_content_hash c))"
    by (rule parses_hash) (rule hash_scalar [OF assms(1)])
  have s: "scalar_str (cu_prefix_hash c)" "scalar_str (cu_pattern_hash c)" "scalar_str (cu_path c)"
    using assms(1) scalar_content_hash by (simp_all add: cursor_ok_def)
  have v: "parses 1 (decimal 3) (JInt 3)" using parses_decimal [of 3] by (simp add: decimal.simps)
  note p = members_step(1) [OF a key_scalar(1)] members_step(1) [OF parses_bool key_scalar(2)] members_step(1) [OF h key_scalar(3)]
    members_step(1) [OF parses_string [OF scalar_mode] key_scalar(4)] members_step(1) [OF parses_string [OF s(1)] key_scalar(5)]
    members_step(1) [OF parses_string [OF s(2)] key_scalar(6)] members_step(1) [OF parses_string [OF s(3)] key_scalar(7)]
    members_step(2) [OF v key_scalar(8)]
  have "json_members m (tl (cursor_text c)) = Inr (cursor_members c, [])"
    unfolding cursor_text_def cursor_members_def list.sel using m(2)
    by (simp add: p key_no_ws del: json_dumps.simps)
  moreover have "skip_ws (tl (cursor_text c)) = tl (cursor_text c)" "take 1 (tl (cursor_text c)) \<noteq> [125]"
    by (simp_all add: cursor_text_def key_no_ws) (simp add: json_string_def)
  moreover have "cursor_text c = 123 # tl (cursor_text c)" by (simp add: cursor_text_def)
  ultimately show ?thesis
    by (metis (no_types, lifting) json_value_object m(1))
qed

lemma ascii_json_dumps_cursor: "cursor_ok c \<Longrightarrow> ascii (cursor_text c)"
proof -
  assume ok: "cursor_ok c"
  have "ascii (json_dumps (anchor_json (cu_anchor c)))"
    using anchor_nonneg [OF ok] by (cases "cu_anchor c") (auto simp: anchor_json_def json_int_def ascii_decimal lit_def)
  moreover have "ascii (json_dumps (JBool (cu_catalog_mismatch c)))" "ascii (json_dumps (json_opt (cu_content_hash c)))"
    by (simp_all add: ascii_json ascii_json_string json_opt_def split: option.split)
  ultimately show ?thesis by (simp add: cursor_text_def ascii_json_string ascii_decimal del: json_dumps.simps)
qed

lemma anchor_text_length: "length (json_dumps (anchor_json (cu_anchor c))) \<le> length (cursor_text c)"
  by (simp add: cursor_text_def del: json_dumps.simps)

lemma cursor_text_head: "\<exists>s. cursor_text c = 123 # 34 # s \<and> 12 \<le> length s"
  by (simp add: cursor_text_def json_string_def)

lemma json_loads_cursor:
  assumes "cursor_ok c" "length (cursor_text c) \<le> 4300"
  shows "json_loads (map word_of_int (cursor_text c)) = Inr (JObj (cursor_members c))"
proof -
  obtain s where s: "cursor_text c = 123 # 34 # s" "12 \<le> length s" using cursor_text_head by blast
  have d: "json_decode (map word_of_int (cursor_text c)) = Inr (cursor_text c)"
    using json_decode_ascii [of 123 34 s] ascii_json_dumps_cursor [OF assms(1)] s by simp
  have ws: "skip_ws (cursor_text c) = cursor_text c" by (simp add: s(1) skip_ws_Cons)
  have v: "json_value (2 * length (cursor_text c) + 2) (cursor_text c) = Inr (JObj (cursor_members c), [])"
    by (rule members_cursor [OF assms(1)]) (use anchor_text_length [of c] assms(2) s in simp_all)
  have e: "skip_ws [] = []" by (simp add: skip_ws_def)
  show ?thesis unfolding json_loads_def d bindE_simps ws v prod.case e by simp
qed

lemma members_get:
  "json_get (cursor_members c) ''v'' = Some (JInt 3)" "json_get (cursor_members c) ''c'' = Some (JBool (cu_catalog_mismatch c))"
  "json_get (cursor_members c) ''p'' = Some (JStr (cu_prefix_hash c))" "json_get (cursor_members c) ''q'' = Some (JStr (cu_pattern_hash c))"
  "json_get (cursor_members c) ''r'' = Some (JStr (cu_path c))" "json_get (cursor_members c) ''m'' = Some (JStr (mode_name (cu_mode c)))"
  "json_get (cursor_members c) ''h'' = Some (json_opt (cu_content_hash c))" "json_get (cursor_members c) ''a'' = Some (anchor_json (cu_anchor c))"
  by (simp_all add: json_get_def cursor_members_def lit_def)

lemma mode_of_name [simp]: "mode_of (mode_name m) = Some m"
  by (cases m) (simp_all add: mode_of_def mode_name_def lit_def)

lemma members_keys: "set (map fst (cursor_members c)) = set (map lit ([''v'', ''p'', ''q'', ''r'', ''h'', ''m'', ''a''] @ [''c'']))"
  by (auto simp: cursor_members_def)

lemma opt_text: "json_opt_text (Some (json_opt x)) = Some x"
  by (cases x) (simp_all add: json_opt_text_def json_opt_def)

lemma decode_cursor_members:
  assumes "cursor_ok c"
  shows "decode_payload (cursor_members c) = Inr c"
proof -
  have ok: "grep_content_hash (cu_prefix_hash c)" "grep_content_hash (cu_pattern_hash c)" "cu_version c = 3"
    using assms by (simp_all add: cursor_ok_def)
  have path: "cu_path c \<noteq> [] \<Longrightarrow> normalize_path (cu_path c) = Inr (cu_path c)"
    using assms normalize_path_valid by (auto simp: cursor_ok_def)
  have t: "json_text (Some (JStr s)) = Some s" for s by (simp add: json_text_def)
  have n: "cu_mode c \<notin> {AFTER_MATCH, LEGACY_AFTER_MATCH} \<Longrightarrow> cu_anchor c = None"
    "cu_mode c \<notin> {AFTER_MATCH, LEGACY_AFTER_MATCH} \<Longrightarrow> anchor_json (cu_anchor c) = JNull"
    using assms by (auto simp: cursor_ok_def anchor_json_def split: cursor_mode.splits)
  have a: "cu_mode c \<in> {AFTER_MATCH, LEGACY_AFTER_MATCH} \<Longrightarrow>
      cursor_anchor (Some (anchor_json (cu_anchor c))) = cu_anchor c \<and> cu_anchor c \<noteq> None \<and>
      (case cu_content_hash c of Some h \<Rightarrow> grep_content_hash h | None \<Rightarrow> False)"
    using assms by (auto simp: cursor_ok_def anchor_json_def cursor_anchor_def)
  have f: "cu_mode c = FILE_START \<Longrightarrow> (case cu_content_hash c of Some h \<Rightarrow> grep_content_hash h | None \<Rightarrow> False) \<or>
      (case cu_content_hash c of Some h \<Rightarrow> grep_path_identity h | None \<Rightarrow> False)"
    using assms by (auto simp: cursor_ok_def)
  have s: "cu_mode c = SEARCH_START \<Longrightarrow> cu_path c = [] \<and> cu_content_hash c = None"
    using assms by (auto simp: cursor_ok_def)
  have c: "\<lparr>cu_prefix_hash = cu_prefix_hash c, cu_pattern_hash = cu_pattern_hash c, cu_path = cu_path c,
      cu_content_hash = cu_content_hash c, cu_mode = cu_mode c,
      cu_anchor = (if cu_mode c \<in> {AFTER_MATCH, LEGACY_AFTER_MATCH} then cu_anchor c else None),
      cu_catalog_mismatch = cu_catalog_mismatch c, cu_version = 3\<rparr> = c"
    using n(1) ok(3) by (cases "cu_mode c \<in> {AFTER_MATCH, LEGACY_AFTER_MATCH}") simp_all
  show ?thesis
  proof (cases "cu_mode c \<in> {AFTER_MATCH, LEGACY_AFTER_MATCH}")
    case True
    then show ?thesis using a ok c
      unfolding decode_payload_def members_get members_keys opt_text t
      by (auto simp: Let_def path)
  next
    case False
    then have "cu_mode c = FILE_START \<or> cu_mode c = SEARCH_START" by (cases "cu_mode c") simp_all
    then show ?thesis using n(2) [OF False] f s ok c False
      unfolding decode_payload_def members_get members_keys opt_text t
      by (auto simp: Let_def path)
  qed
qed

theorem cursor_roundtrip:
  assumes "cursor_ok c" "encode_grep_cursor c = Inr s"
  shows "decode_grep_cursor s = Inr c"
proof -
  let ?t = "cursor_text c"
  have asc: "ascii ?t" by (rule ascii_json_dumps_cursor [OF assms(1)])
  have sc: "s = rstrip_by (\<lambda>c. c = 61) (urlsafe_b64encode ?t) \<and> length s \<le> 4096"
    using assms(2) uint_octets [OF octets_ascii [OF asc], simplified] by (auto simp: encode_grep_cursor_def json_dumps_cursor utf8_encode_ascii [OF asc] Let_def
        uint_octets [OF octets_ascii [OF asc]] GREP_MAX_CURSOR_BYTES_def split: if_splits del: map_map)
  note s = sc [THEN conjunct1] sc [THEN conjunct2]
  note b = b64decode_encode [OF octets_ascii [OF asc] s(1)]
  have l: "length ?t \<le> 4096" using b(2) s(2) by simp
  have "s \<noteq> []" using b(2) cursor_text_head [of c] by auto
  moreover have "json_loads (map word_of_int ?t) = Inr (JObj (cursor_members c))"
    by (rule json_loads_cursor [OF assms(1)]) (use l in simp)
  ultimately show ?thesis using s(2) l
    by (simp add: decode_grep_cursor_def b(1) GREP_MAX_CURSOR_BYTES_def decode_cursor_members [OF assms(1)])
qed

end
