(* ===== verification/Search.thy ===== *)
theory Search
  imports Cursor Reads
begin

text \<open>
  Search, \<open>CtxfsStore.grep\<close> of \<open>src/ctxfs/store.py\<close>: the scan over the records of ripgrep, the
  verification of each match against the bytes of the file and its digest in the catalogue, and the
  cursors that continue a search that stopped. What is outside the store is a parameter: the output
  and exit codes of ripgrep, the monotonic clock, and what \<open>stat\<close> reports. The timings that are only
  logged are left out.
\<close>

section \<open>What is outside\<close>

record stat_result =
  st_dev :: int
  st_ino :: int
  st_size :: int
  st_mtime_ns :: int
  st_ctime_ns :: int

text \<open>One round of the reading loop: \<open>select\<close> times out, or \<open>os.read\<close> returns bytes.\<close>

datatype rg_read = Rg_Silent | Rg_Chunk bytes

text \<open>
  \<open>g_version\<close> is the exit code of \<open>rg --version\<close> and the version found in its output, \<open>None\<close> when it
  cannot be run; the exit codes are \<open>None\<close> when waiting for them times out. The clock is indexed by the
  number of earlier comparisons with the deadline. \<open>g_stats\<close> has the \<open>fstat\<close> before and after reading a
  file and the \<open>stat\<close> of its path. \<open>g_root\<close> is the absolute path of the store's root.
\<close>

record ripgrep =
  g_which :: bool
  g_version :: "(int \<times> (nat \<times> nat \<times> nat) option) option"
  g_validation :: "str \<Rightarrow> int option"
  g_reads :: "str \<Rightarrow> loc \<Rightarrow> rg_read list"
  g_exit :: "str \<Rightarrow> loc \<Rightarrow> int option"
  g_clock :: "nat \<Rightarrow> rat"
  g_stats :: "loc \<Rightarrow> stat_result \<times> stat_result \<times> stat_result option"
  g_root :: str
  g_cwd :: str

definition GREP_MIN_TIMEOUT_SECONDS :: rat where
  "GREP_MIN_TIMEOUT_SECONDS = 3602879701896397 / 36028797018963968"

definition GREP_MAX_TIMEOUT_SECONDS :: rat where
  "GREP_MAX_TIMEOUT_SECONDS = 60"

definition GREP_JSON_CHUNK_BYTES :: int where
  "GREP_JSON_CHUNK_BYTES = 64 * 1024"

definition GREP_MAX_JSON_RECORD_BYTES :: int where
  "GREP_MAX_JSON_RECORD_BYTES = 1000000"

definition validate_rg_version :: "ripgrep \<Rightarrow> unit res" where
  "validate_rg_version R =
     (case g_version R of
        Some (code, Some version) \<Rightarrow>
          if code \<noteq> 0 then Inl (RuntimeError ''ctxfs could not validate the installed ripgrep'')
          else guardE (\<not> version < (13, 0, 0)) (RuntimeError ''ctxfs requires ripgrep'')
      | _ \<Rightarrow> Inl (RuntimeError ''ctxfs could not validate the installed ripgrep''))"

definition require_rg :: "ripgrep \<Rightarrow> unit res" where
  "require_rg R =
     (if \<not> g_which R then Inl (RuntimeError ''ctxfs grep requires ripgrep (rg); install ripgrep and restart ctxd'')
      else validate_rg_version R)"

text \<open>\<open>os.path.abspath\<close>, and the string of a location below the root.\<close>

fun norm_parts :: "str list \<Rightarrow> str list \<Rightarrow> str list" where
  "norm_parts acc [] = rev acc"
| "norm_parts acc (p # ps) =
     (if p = [] \<or> p = lit ''.'' then norm_parts acc ps
      else if p = lit ''..'' then norm_parts (drop 1 acc) ps
      else norm_parts (p # acc) ps)"

definition abspath :: "ripgrep \<Rightarrow> str \<Rightarrow> str" where
  "abspath R p =
     (let full = (if startswith p (lit ''/'') then p else g_cwd R @ 47 # p);
          slashes = (if startswith full (lit ''//'') \<and> \<not> startswith full (lit ''///'') then lit ''//'' else lit ''/'')
      in slashes @ join_with 47 (norm_parts [] (split_on 47 full)))"

definition loc_text :: "ripgrep \<Rightarrow> loc \<Rightarrow> str" where
  "loc_text R l = g_root R @ concat (map (Cons 47) l)"

text \<open>\<open>path.relative_to(root).parts\<close>.\<close>

definition relative_to :: "str \<Rightarrow> str \<Rightarrow> str list option" where
  "relative_to base path =
     (if path = base then Some []
      else if startswith path (base @ [47]) then Some (split_on 47 (drop (length base + 1) path))
      else None)"

text \<open>\<open>os.fsdecode\<close>: bytes that are not UTF-8 become surrogates.\<close>

function fsdecode :: "int list \<Rightarrow> str" where
  "fsdecode bs =
     (if bs = [] then []
      else (case utf8_next bs of
          Inl n \<Rightarrow> map (\<lambda>b. 0xDC00 + b) (take n bs) @ fsdecode (drop n bs)
        | Inr (c, n) \<Rightarrow> c # fsdecode (drop n bs)))"
  by pat_completeness auto
termination
  by (relation "measure length") (auto dest: utf8_next_pos)

declare fsdecode.simps [simp del]

section \<open>Snapshots\<close>

record snapshot =
  sn_path :: str
  sn_data :: bytes
  sn_hash :: str
  sn_identity :: str
  sn_mismatch :: bool
  sn_verified :: bool

text \<open>\<open>_RgLineNumberState\<close>.\<close>

record line_state =
  ls_data :: bytes
  ls_offset :: nat
  ls_lf_count :: nat
  ls_nul_count :: nat

definition line_state_of :: "bytes \<Rightarrow> line_state" where
  "line_state_of data = \<lparr>ls_data = data, ls_offset = 0, ls_lf_count = 0, ls_nul_count = 0\<rparr>"

text \<open>The variables of a scan, and how often the clock has been compared with the deadline.\<close>

record scan =
  sc_matches :: "grep_match list"
  sc_anchor_found :: bool
  sc_active_path :: "str option"
  sc_snapshot :: "snapshot option"
  sc_lines :: "line_state option"
  sc_last :: "grep_match option"
  sc_mismatch :: bool
  sc_files :: nat
  sc_replayed :: bool
  sc_candidates :: "((str \<times> nat \<times> nat \<times> nat) \<times> grep_match) list"
  sc_ticks :: nat

definition late :: "ripgrep \<Rightarrow> rat \<Rightarrow> (scan, bool) act" where
  "late R deadline s = (Inr (deadline \<le> g_clock R (sc_ticks s)), s\<lparr>sc_ticks := Suc (sc_ticks s)\<rparr>)"

text \<open>So many comparisons with the deadline, the first late one of which raises.\<close>

fun in_time :: "ripgrep \<Rightarrow> rat \<Rightarrow> nat \<Rightarrow> (scan, unit) act" where
  "in_time R deadline 0 = ret ()"
| "in_time R deadline (Suc n) =
     bindS (late R deadline) (\<lambda>l. if l then raise (TimeoutError '''') else in_time R deadline n)"

text \<open>The rounds of a loop over \<open>n\<close> bytes in chunks of 64 KiB.\<close>

definition chunk_rounds :: "nat \<Rightarrow> nat" where
  "chunk_rounds n = nat ((int n + 65535) div 65536)"

definition path_identity :: "stat_result \<Rightarrow> str" where
  "path_identity s =
     lit ''stat'' @ concat (map (\<lambda>n. 58 # json_int n) [st_dev s, st_ino s, st_size s, st_mtime_ns s, st_ctime_ns s])"

definition no_snapshot :: "str \<Rightarrow> snapshot" where
  "no_snapshot path = \<lparr>sn_path = path, sn_data = [], sn_hash = lit ''sha256:'' @ replicate 64 48,
     sn_identity = lit ''stat:0:0:0:0:0'', sn_mismatch = True, sn_verified = False\<rparr>"

definition catalog_hash :: "str \<Rightarrow> str \<Rightarrow> db \<Rightarrow> str option" where
  "catalog_hash user path d =
     map_option content_hash (find (\<lambda>r. row_user r = user \<and> entry_path r = path) (entry_rows d))"

definition snapshot_grep_file :: "env \<Rightarrow> ripgrep \<Rightarrow> world \<Rightarrow> rat \<Rightarrow> str \<Rightarrow> str \<Rightarrow> loc \<Rightarrow> (scan, snapshot) act" where
  "snapshot_grep_file E R w deadline user path l =
     (case read_bytes (w_fs w) l of
        Inl _ \<Rightarrow> ret (no_snapshot path)
      | Inr data \<Rightarrow>
          bindS (in_time R deadline (Suc (chunk_rounds (length data)))) (\<lambda>_.
          let (stat_before, stat_after, path_after) = g_stats R l;
              stable = (stat_before = stat_after \<and> path_after = Some stat_after);
              h = sha256 E data;
              row = catalog_hash user path (w_db w)
          in ret \<lparr>sn_path = path, sn_data = data, sn_hash = h, sn_identity = path_identity stat_after,
               sn_mismatch = (row \<noteq> Some h \<or> \<not> stable),
               sn_verified = (stable \<and> (row = None \<or> row = Some h))\<rparr>))"

section \<open>Records of ripgrep\<close>

definition invalid_record :: "'a res" where
  "invalid_record = Inl (RuntimeError ''ctxfs grep returned invalid JSON'')"

definition rg_failed :: "'a res" where
  "rg_failed = Inl (RuntimeError ''ctxfs grep failed'')"

definition json_members_of :: "json option \<Rightarrow> (str \<times> json) list res" where
  "json_members_of x = (case x of Some (JObj kvs) \<Rightarrow> Inr kvs | _ \<Rightarrow> invalid_record)"

definition parse_record :: "bytes \<Rightarrow> (str \<times> json) list res" where
  "parse_record raw =
     (case json_loads raw of
        Inl (JSONDecodeError _) \<Rightarrow> rg_failed
      | Inl (UnicodeError _) \<Rightarrow> rg_failed
      | Inl e \<Rightarrow> Inl e
      | Inr (JObj kvs) \<Rightarrow> Inr kvs
      | Inr _ \<Rightarrow> Inl (AttributeError ''object has no attribute get''))"

definition rg_event_path :: "(str \<times> json) list \<Rightarrow> str option res" where
  "rg_event_path event =
     (case json_get event ''type'' of
        Some (JArr _) \<Rightarrow> Inl (TypeError ''unhashable type'')
      | Some (JObj _) \<Rightarrow> Inl (TypeError ''unhashable type'')
      | tag \<Rightarrow>
          if json_text tag \<notin> {Some (lit ''begin''), Some (lit ''match''), Some (lit ''end'')} then Inr None else
          bindE (json_members_of (json_get event ''data'')) (\<lambda>data.
          bindE (json_members_of (json_get data ''path'')) (\<lambda>path.
          case json_get path ''text'' of
            Some (JStr t) \<Rightarrow> Inr (Some t)
          | _ \<Rightarrow>
              (case json_get path ''bytes'' of
                 Some (JStr encoded) \<Rightarrow>
                   (case b64decode encoded of
                      Inl _ \<Rightarrow> invalid_record
                    | Inr bs \<Rightarrow> Inr (Some (fsdecode (map uint bs))))
               | _ \<Rightarrow> invalid_record))))"

definition rg_line_bytes :: "(str \<times> json) list \<Rightarrow> bytes res" where
  "rg_line_bytes lines =
     (case json_get lines ''text'' of
        Some (JStr t) \<Rightarrow> utf8_encode t
      | _ \<Rightarrow>
          (case json_get lines ''bytes'' of
             Some (JStr encoded) \<Rightarrow> (case b64decode encoded of Inl _ \<Rightarrow> invalid_record | Inr bs \<Rightarrow> Inr bs)
           | _ \<Rightarrow> invalid_record))"

definition rg_verified_line_length :: "bytes \<Rightarrow> nat \<Rightarrow> bytes \<Rightarrow> nat option" where
  "rg_verified_line_length data off raw =
     (if prefix raw (drop off data) then Some (length raw)
      else if raw \<noteq> [] \<and> last raw = 10 \<and> prefix (butlast raw) (drop off data) \<and> data ! (off + length raw - 1) = 0
      then Some (length raw - 1)
      else None)"

definition advance_line_state :: "line_state \<Rightarrow> nat \<Rightarrow> line_state" where
  "advance_line_state lst off =
     (let skipped = drop (ls_offset lst) (take off (ls_data lst))
      in lst\<lparr>ls_offset := off, ls_lf_count := ls_lf_count lst + count_list skipped 10,
            ls_nul_count := ls_nul_count lst + count_list skipped 0\<rparr>)"

definition rg_line_number_matches ::
  "ripgrep \<Rightarrow> rat \<Rightarrow> bytes \<Rightarrow> nat \<Rightarrow> nat \<Rightarrow> line_state \<Rightarrow> (scan, bool) act" where
  "rg_line_number_matches R deadline data off n lst =
     (if ls_data lst \<noteq> data \<or> off < ls_offset lst \<or> length data < off then ret False
      else if off \<noteq> 0 \<and> data ! (off - 1) \<notin> {10, 0} then ret False
      else bindS (in_time R deadline (Suc (chunk_rounds (off - ls_offset lst)))) (\<lambda>_.
           let lst' = advance_line_state lst off in
           bindS (modify (\<lambda>s. s\<lparr>sc_lines := Some lst'\<rparr>)) (\<lambda>_.
           ret (n \<in> {ls_lf_count lst' + 1, ls_lf_count lst' + 1 + ls_nul_count lst'}))))"

definition json_nat :: "json option \<Rightarrow> nat option" where
  "json_nat x = (case x of Some (JInt n) \<Rightarrow> if 0 \<le> n then Some (nat n) else None | _ \<Rightarrow> None)"

text \<open>\<open>_verified_grep_match\<close>: the parts of the record that have to be there, then the comparisons.\<close>

definition match_fields :: "(str \<times> json) list \<Rightarrow> (nat \<times> (str \<times> json) list \<times> (str \<times> json) list) res" where
  "match_fields data =
     (case (json_nat (json_get data ''line_number''), json_get data ''lines'', json_get data ''submatches'') of
        (Some n, Some (JObj lines), Some (JArr (JObj sub # _))) \<Rightarrow>
          if 0 < n then Inr (n, lines, sub) else invalid_record
      | _ \<Rightarrow> invalid_record)"

definition match_of :: "snapshot \<Rightarrow> nat \<Rightarrow> bytes \<Rightarrow> nat \<Rightarrow> nat \<Rightarrow> grep_match" where
  "match_of sn n raw a b =
     \<lparr>gm_path = sn_path sn, gm_line_number = n,
      gm_line = rstrip_by (\<lambda>c. c \<in> {13, 10}) (utf8_decode_replace raw),
      gm_match_start = length (utf8_decode_replace (take a raw)), gm_match_end = length (utf8_decode_replace (take b raw)),
      gm_content_hash = sn_hash sn\<rparr>"

definition verified_grep_match ::
  "ripgrep \<Rightarrow> rat \<Rightarrow> (str \<times> json) list \<Rightarrow> snapshot \<Rightarrow> line_state \<Rightarrow> (scan, grep_match option) act" where
  "verified_grep_match R deadline event sn lst =
     bindS (liftE (json_members_of (json_get event ''data''))) (\<lambda>data.
     bindS (liftE (match_fields data)) (\<lambda>(n, lines, sub).
     bindS (liftE (rg_line_bytes lines)) (\<lambda>raw.
     case json_nat (json_get data ''absolute_offset'') of
       None \<Rightarrow> ret None
     | Some off \<Rightarrow>
         if length (sn_data sn) < off \<or> length (sn_data sn) - off < length raw then ret None else
         (case rg_verified_line_length (sn_data sn) off raw of
            None \<Rightarrow> ret None
          | Some verified_length \<Rightarrow>
              bindS (rg_line_number_matches R deadline (sn_data sn) off n lst) (\<lambda>fits.
              if \<not> fits then ret None else
              (case (json_nat (json_get sub ''start''), json_nat (json_get sub ''end'')) of
                 (Some a, Some b) \<Rightarrow>
                   if \<not> (a \<le> b \<and> b \<le> length raw) then liftE invalid_record
                   else if verified_length < b then ret None
                   else ret (Some (match_of sn n raw a b))
               | _ \<Rightarrow> liftE invalid_record))))))"


section \<open>The scan\<close>

text \<open>What the closures of \<open>_grep_tree_target\<close> are given and do not change.\<close>

record grep_job =
  j_user :: str
  j_prefix :: str
  j_prefix_hash :: str
  j_pattern_hash :: str
  j_deadline :: rat
  j_limit :: nat
  j_root :: loc
  j_resume :: "grep_cursor option"
  j_resume_path :: str
  j_resume_tree_path :: "str option"
  j_resume_snapshot :: "snapshot option"

record scan_result =
  gs_matches :: "grep_match list"
  gs_stopped_by :: "stop_reason option"
  gs_anchor_found :: bool
  gs_next_cursor :: "grep_cursor option"
  gs_mismatch :: bool
  gs_files :: nat

definition legacy_logical :: "grep_cursor option \<Rightarrow> bool" where
  "legacy_logical resume =
     (case resume of
        None \<Rightarrow> False
      | Some c \<Rightarrow> cu_mode c = LEGACY_AFTER_MATCH \<or> cu_version c = 2 \<and> cu_mode c = AFTER_MATCH)"

definition legacy_file_start :: "grep_cursor option \<Rightarrow> bool" where
  "legacy_file_start resume = (case resume of None \<Rightarrow> False | Some c \<Rightarrow> cu_mode c = FILE_START)"

definition stale :: exn where
  "stale = ValueError ''ctxfs grep cursor is stale''"

definition grep_cursor_for_match :: "env \<Rightarrow> str \<Rightarrow> str \<Rightarrow> grep_match \<Rightarrow> bool \<Rightarrow> cursor_mode \<Rightarrow> grep_cursor res" where
  "grep_cursor_for_match E pfx pattern_hash m mismatch mode =
     bindE (utf8_encode pfx) (\<lambda>data.
     bindE (grep_relative_path pfx (gm_path m)) (\<lambda>path.
     Inr \<lparr>cu_prefix_hash = sha256 E data, cu_pattern_hash = pattern_hash, cu_path = path,
          cu_content_hash = Some (gm_content_hash m), cu_mode = mode,
          cu_anchor = Some (int (gm_line_number m), int (gm_match_start m), int (gm_match_end m)),
          cu_catalog_mismatch = mismatch, cu_version = 3\<rparr>))"

definition grep_search_start_cursor :: "str \<Rightarrow> str \<Rightarrow> bool \<Rightarrow> grep_cursor" where
  "grep_search_start_cursor prefix_hash pattern_hash mismatch =
     \<lparr>cu_prefix_hash = prefix_hash, cu_pattern_hash = pattern_hash, cu_path = [], cu_content_hash = None,
      cu_mode = SEARCH_START, cu_anchor = None, cu_catalog_mismatch = mismatch, cu_version = 3\<rparr>"

definition timeout_cursor :: "env \<Rightarrow> grep_job \<Rightarrow> scan \<Rightarrow> grep_cursor res" where
  "timeout_cursor E j s =
     (case j_resume j of
        Some c \<Rightarrow>
          if legacy_logical (Some c) \<or> legacy_file_start (Some c) \<and> \<not> sc_replayed s \<or> \<not> sc_anchor_found s then Inr c
          else (case sc_last s of
              Some m \<Rightarrow> grep_cursor_for_match E (j_prefix j) (j_pattern_hash j) m (sc_mismatch s) AFTER_MATCH
            | None \<Rightarrow> Inr (grep_search_start_cursor (j_prefix_hash j) (j_pattern_hash j) (sc_mismatch s)))
      | None \<Rightarrow>
          (case sc_last s of
             Some m \<Rightarrow> grep_cursor_for_match E (j_prefix j) (j_pattern_hash j) m (sc_mismatch s) AFTER_MATCH
           | None \<Rightarrow> Inr (grep_search_start_cursor (j_prefix_hash j) (j_pattern_hash j) (sc_mismatch s))))"

definition scan_result_of :: "stop_reason option \<Rightarrow> grep_cursor option \<Rightarrow> scan \<Rightarrow> scan_result" where
  "scan_result_of why cursor s =
     \<lparr>gs_matches = sc_matches s, gs_stopped_by = why, gs_anchor_found = sc_anchor_found s,
      gs_next_cursor = cursor, gs_mismatch = sc_mismatch s, gs_files = sc_files s\<rparr>"

definition stop :: "stop_reason \<Rightarrow> grep_cursor option \<Rightarrow> (scan, scan_result option) act" where
  "stop why cursor = gets (\<lambda>s. Some (scan_result_of (Some why) cursor s))"

definition position :: "grep_match \<Rightarrow> int \<times> int \<times> int" where
  "position m = (int (gm_line_number m), int (gm_match_start m), int (gm_match_end m))"

text \<open>\<open>bisect_right\<close> and the two insertions.\<close>

definition insert_candidate ::
  "grep_match \<Rightarrow> ((str \<times> nat \<times> nat \<times> nat) \<times> grep_match) list \<Rightarrow> ((str \<times> nat \<times> nat \<times> nat) \<times> grep_match) list" where
  "insert_candidate m xs =
     (let key = (gm_path m, gm_line_number m, gm_match_start m, gm_match_end m)
      in takeWhile (\<lambda>(k, _). k \<le> key) xs @ (key, m) # dropWhile (\<lambda>(k, _). k \<le> key) xs)"

text \<open>The digest or the identity a cursor names is that of the file.\<close>

definition same_file :: "snapshot \<Rightarrow> grep_cursor \<Rightarrow> bool" where
  "same_file sn c =
     (let identity = (case cu_content_hash c of Some h \<Rightarrow> startswith h (lit ''stat:'') | None \<Rightarrow> False)
      in Some (if identity then sn_identity sn else sn_hash sn) = cu_content_hash c)"

text \<open>A verified match that is to be returned, and one of a scan that replays version 2 of the cursors.\<close>

definition take_match :: "env \<Rightarrow> grep_job \<Rightarrow> grep_match \<Rightarrow> (scan, scan_result option) act" where
  "take_match E j m =
     bindS (modify (\<lambda>s. s\<lparr>sc_matches := sc_matches s @ [m], sc_last := Some m\<rparr>)) (\<lambda>_.
     bindS (gets (\<lambda>s. (length (sc_matches s), sc_mismatch s))) (\<lambda>(n, mismatch).
     if j_limit j \<le> n
     then bindS (liftE (grep_cursor_for_match E (j_prefix j) (j_pattern_hash j) m mismatch AFTER_MATCH))
            (\<lambda>c. stop LIMIT (Some c))
     else ret None))"

definition legacy_match :: "grep_job \<Rightarrow> grep_cursor \<Rightarrow> str \<Rightarrow> grep_match \<Rightarrow> (scan, scan_result option) act" where
  "legacy_match j c path m =
     (if path = j_resume_path j \<and> Some (position m) = cu_anchor c
      then bindS (modify (\<lambda>s. s\<lparr>sc_anchor_found := True\<rparr>)) (\<lambda>_. ret None)
      else if path = j_resume_path j \<and> (case cu_anchor c of Some a \<Rightarrow> position m < a | None \<Rightarrow> False)
      then ret None
      else bindS (modify (\<lambda>s.
             let xs = insert_candidate m (sc_candidates s)
             in s\<lparr>sc_candidates := (if j_limit j + 1 < length xs then butlast xs else xs)\<rparr>)) (\<lambda>_. ret None))"

text \<open>The snapshot of the file, taken at its first match.\<close>

definition active_snapshot :: "env \<Rightarrow> ripgrep \<Rightarrow> world \<Rightarrow> grep_job \<Rightarrow> str \<Rightarrow> str list \<Rightarrow> (scan, snapshot) act" where
  "active_snapshot E R w j path parts =
     bindS (gets sc_snapshot) (\<lambda>active.
     case filter (\<lambda>sn. sn_path sn = path) (case active of None \<Rightarrow> [] | Some sn \<Rightarrow> [sn]) of
       sn # _ \<Rightarrow> ret sn
     | [] \<Rightarrow>
         bindS (modify (\<lambda>s. s\<lparr>sc_files := Suc (sc_files s)\<rparr>)) (\<lambda>_.
         bindS (snapshot_grep_file E R w (j_deadline j) (j_user j) path (j_root j @ parts)) (\<lambda>sn.
         bindS (modify (\<lambda>s. s\<lparr>sc_snapshot := Some sn, sc_lines := Some (line_state_of (sn_data sn))\<rparr>)) (\<lambda>_.
         ret sn))))"

text \<open>A match of a file that is past the resumption, or the search for the anchor of the cursor.\<close>

definition accept_match :: "env \<Rightarrow> grep_job \<Rightarrow> bool \<Rightarrow> str \<Rightarrow> snapshot \<Rightarrow> grep_match \<Rightarrow> (scan, scan_result option) act" where
  "accept_match E j found path sn m =
     (case j_resume j of
        None \<Rightarrow> if found then take_match E j m else raise stale
      | Some c \<Rightarrow>
          if legacy_logical (Some c) then legacy_match j c path m
          else if found then take_match E j m
          else if \<not> same_file sn c then raise stale
          else if cu_mode c = FILE_START
          then bindS (modify (\<lambda>s. s\<lparr>sc_anchor_found := True\<rparr>)) (\<lambda>_. take_match E j m)
          else if Some (position m) = cu_anchor c
          then bindS (modify (\<lambda>s. s\<lparr>sc_anchor_found := True, sc_last := Some m\<rparr>)) (\<lambda>_. ret None)
          else ret None)"

definition consume_match ::
  "env \<Rightarrow> ripgrep \<Rightarrow> world \<Rightarrow> grep_job \<Rightarrow> (str \<times> json) list \<Rightarrow> str \<Rightarrow> str list \<Rightarrow> (scan, scan_result option) act" where
  "consume_match E R w j event path parts =
     bindS (modify (\<lambda>s. s\<lparr>sc_active_path := Some path\<rparr>)) (\<lambda>_.
     bindS (gets sc_anchor_found) (\<lambda>found.
     if legacy_logical (j_resume j) \<and> path < j_resume_path j then ret None
     else if j_resume j \<noteq> None \<and> \<not> found \<and> \<not> legacy_logical (j_resume j) \<and> path \<noteq> j_resume_path j then ret None
     else
       bindS (active_snapshot E R w j path parts) (\<lambda>sn.
       bindS (modify (\<lambda>s. s\<lparr>sc_mismatch := (sc_mismatch s \<or> sn_mismatch sn)\<rparr>)) (\<lambda>_.
       if \<not> sn_verified sn then stop CATALOG_MISMATCH None else
       bindS (gets (\<lambda>s. case sc_lines s of Some lst \<Rightarrow> lst | None \<Rightarrow> line_state_of (sn_data sn))) (\<lambda>lst.
       bindS (verified_grep_match R (j_deadline j) event sn lst) (\<lambda>found_match.
       case found_match of
         None \<Rightarrow> bindS (modify (\<lambda>s. s\<lparr>sc_mismatch := True\<rparr>)) (\<lambda>_. stop CATALOG_MISMATCH None)
       | Some m \<Rightarrow> accept_match E j found path sn m))))))"

definition begin_file :: "grep_job \<Rightarrow> str \<Rightarrow> str \<Rightarrow> scan \<Rightarrow> scan" where
  "begin_file j path full s =
     (let sn = (if (legacy_file_start (j_resume j) \<or> legacy_logical (j_resume j)) \<and> Some full = j_resume_tree_path j
                then j_resume_snapshot j else None)
      in s\<lparr>sc_active_path := Some path, sc_snapshot := sn,
           sc_lines := map_option (\<lambda>x. line_state_of (sn_data x)) sn\<rparr>)"

definition end_file :: "str \<Rightarrow> scan \<Rightarrow> scan" where
  "end_file path s =
     (if sc_active_path s = Some path then s\<lparr>sc_active_path := None, sc_snapshot := None, sc_lines := None\<rparr> else s)"

text \<open>Where a record belongs: its absolute path, the logical path and the components below the user's root.\<close>

definition unexpected_path :: "'a res" where
  "unexpected_path = Inl (RuntimeError ''ctxfs grep returned an unexpected path'')"

definition record_place :: "ripgrep \<Rightarrow> grep_job \<Rightarrow> str \<Rightarrow> (str \<times> str \<times> str list) res" where
  "record_place R j event_path =
     (let full = abspath R event_path in
      case relative_to (loc_text R (j_root j)) full of
        None \<Rightarrow> unexpected_path
      | Some parts \<Rightarrow>
          (case logical_tree_path parts of
             None \<Rightarrow> unexpected_path
           | Some path \<Rightarrow>
               bindE (if j_prefix j = [] then Inr True else path_is_within_prefix path (j_prefix j)) (\<lambda>inside.
               if \<not> inside then unexpected_path else Inr (full, path, parts))))"

definition consume_record :: "env \<Rightarrow> ripgrep \<Rightarrow> world \<Rightarrow> grep_job \<Rightarrow> bytes \<Rightarrow> (scan, scan_result option) act" where
  "consume_record E R w j raw =
     (if GREP_MAX_JSON_RECORD_BYTES < int (length raw) then stop MAX_BYTES None else
      bindS (liftE (parse_record raw)) (\<lambda>event.
      bindS (liftE (rg_event_path event)) (\<lambda>where_to.
      case where_to of
        None \<Rightarrow> ret None
      | Some event_path \<Rightarrow>
          bindS (liftE (record_place R j event_path)) (\<lambda>(full, path, parts).
          bindS (gets sc_replayed) (\<lambda>replayed.
          if legacy_file_start (j_resume j) \<and> \<not> replayed \<and>
             (case j_resume_tree_path j of Some t \<Rightarrow> full < t | None \<Rightarrow> False)
          then ret None
          else
            bindS (modify (\<lambda>s. s\<lparr>sc_replayed := True\<rparr>)) (\<lambda>_.
            if json_text (json_get event ''type'') = Some (lit ''begin'')
            then bindS (modify (begin_file j path full)) (\<lambda>_. ret None)
            else if json_text (json_get event ''type'') = Some (lit ''end'')
            then bindS (modify (end_file path)) (\<lambda>_. ret None)
            else consume_match E R w j event path parts))))))"

fun consume_all :: "env \<Rightarrow> ripgrep \<Rightarrow> world \<Rightarrow> grep_job \<Rightarrow> bytes list \<Rightarrow> (scan, scan_result option) act" where
  "consume_all E R w j [] = ret None"
| "consume_all E R w j (raw # raws) =
     bindS (consume_record E R w j raw) (\<lambda>r. case r of Some x \<Rightarrow> ret (Some x) | None \<Rightarrow> consume_all E R w j raws)"

text \<open>The loop over \<open>os.read\<close>; when there is nothing more to read it returns no bytes.\<close>

definition before_deadline :: "ripgrep \<Rightarrow> grep_job \<Rightarrow> (scan, 'a) act \<Rightarrow> (scan, 'a) act" where
  "before_deadline R j m = bindS (late R (j_deadline j)) (\<lambda>l. if l then raise (TimeoutError '''') else m)"

definition last_record :: "env \<Rightarrow> ripgrep \<Rightarrow> world \<Rightarrow> grep_job \<Rightarrow> bytes \<Rightarrow> (scan, scan_result option) act" where
  "last_record E R w j pending =
     before_deadline R j (if pending = [] then ret None else consume_record E R w j pending)"

fun read_records :: "env \<Rightarrow> ripgrep \<Rightarrow> world \<Rightarrow> grep_job \<Rightarrow> bytes \<Rightarrow> rg_read list \<Rightarrow> (scan, scan_result option) act" where
  "read_records E R w j pending [] = last_record E R w j pending"
| "read_records E R w j pending (Rg_Silent # reads) = before_deadline R j (raise (TimeoutError ''''))"
| "read_records E R w j pending (Rg_Chunk chunk # reads) =
     (if chunk = [] then last_record E R w j pending
      else
        before_deadline R j (
        let lines = split_on 10 (pending @ chunk) in
        bindS (consume_all E R w j (butlast lines)) (\<lambda>r. case r of
          Some x \<Rightarrow> ret (Some x)
        | None \<Rightarrow>
            if GREP_MAX_JSON_RECORD_BYTES < int (length (last lines)) then stop MAX_BYTES None
            else read_records E R w j (last lines) reads)))"

text \<open>The end of the stream: the exit code, and the candidates of a version 2 cursor.\<close>

definition finish_scan :: "env \<Rightarrow> grep_job \<Rightarrow> int \<Rightarrow> (scan, scan_result) act" where
  "finish_scan E j code =
     bindS (gets sc_anchor_found) (\<lambda>found.
     if \<not> found then raise stale
     else if code \<noteq> 0 \<and> code \<noteq> 1 then liftE rg_failed
     else if \<not> legacy_logical (j_resume j) then gets (scan_result_of None None)
     else
       bindS (gets (\<lambda>s. map snd (sc_candidates s))) (\<lambda>candidates.
       bindS (modify (\<lambda>s. s\<lparr>sc_matches := take (j_limit j) candidates\<rparr>)) (\<lambda>_.
       if length candidates \<le> j_limit j then gets (scan_result_of None None)
       else
         bindS (gets sc_mismatch) (\<lambda>mismatch.
         bindS (liftE (grep_cursor_for_match E (j_prefix j) (j_pattern_hash j)
                   (last (take (j_limit j) candidates)) mismatch LEGACY_AFTER_MATCH)) (\<lambda>c.
         gets (scan_result_of (Some LIMIT) (Some c)))))))"

definition timed_out :: "env \<Rightarrow> grep_job \<Rightarrow> (scan, scan_result) act" where
  "timed_out E j =
     bindS (modify (\<lambda>s. if legacy_logical (j_resume j) then s\<lparr>sc_matches := []\<rparr> else s)) (\<lambda>_.
     bindS (gets (timeout_cursor E j)) (\<lambda>cursor.
     bindS (liftE cursor) (\<lambda>c.
     gets (scan_result_of (Some TIMEOUT) (Some c)))))"

definition catch_timeout :: "(scan, 'a) act \<Rightarrow> (scan, 'a) act \<Rightarrow> (scan, 'a) act" where
  "catch_timeout m handler = catchS m (\<lambda>e. case e of TimeoutError _ \<Rightarrow> handler | _ \<Rightarrow> raise e)"

definition run_scan :: "env \<Rightarrow> ripgrep \<Rightarrow> world \<Rightarrow> grep_job \<Rightarrow> rg_read list \<Rightarrow> int option \<Rightarrow> (scan, scan_result) act" where
  "run_scan E R w j reads exit_code =
     bindS (catch_timeout (bindS (read_records E R w j [] reads) (\<lambda>r. ret (Inr r)))
       (bindS (timed_out E j) (\<lambda>r. ret (Inl r)))) (\<lambda>outcome.
     case outcome of
       Inl r \<Rightarrow> ret r
     | Inr (Some r) \<Rightarrow> ret r
     | Inr None \<Rightarrow> (case exit_code of None \<Rightarrow> timed_out E j | Some code \<Rightarrow> finish_scan E j code))"

section \<open>A search\<close>

definition initial_scan :: "bool \<Rightarrow> bool \<Rightarrow> bool \<Rightarrow> nat \<Rightarrow> scan" where
  "initial_scan anchor_found mismatch replayed ticks =
     \<lparr>sc_matches = [], sc_anchor_found = anchor_found, sc_active_path = None, sc_snapshot = None, sc_lines = None,
      sc_last = None, sc_mismatch = mismatch, sc_files = 0, sc_replayed = replayed, sc_candidates = [], sc_ticks = ticks\<rparr>"

text \<open>The file of an old cursor is looked at before the scan; the result is that of the scan if it cannot be.\<close>

definition resume_file :: "env \<Rightarrow> ripgrep \<Rightarrow> world \<Rightarrow> grep_job \<Rightarrow> grep_cursor \<Rightarrow> (scan, scan_result + snapshot) act" where
  "resume_file E R w j c =
     bindS (liftE (tree_path E (j_user j) (j_resume_path j))) (\<lambda>l.
     catch_timeout
       (bindS (snapshot_grep_file E R w (j_deadline j) (j_user j) (j_resume_path j) l) (\<lambda>sn. ret (Inr sn)))
       (gets (\<lambda>s. Inl \<lparr>gs_matches = [], gs_stopped_by = Some TIMEOUT, gs_anchor_found = False, gs_next_cursor = Some c,
                      gs_mismatch = False, gs_files = 0\<rparr>)))"

definition resume_checked ::
  "env \<Rightarrow> ripgrep \<Rightarrow> grep_job \<Rightarrow> grep_cursor \<Rightarrow> snapshot \<Rightarrow> (grep_job \<Rightarrow> (scan, scan_result) act) \<Rightarrow> (scan, scan_result) act" where
  "resume_checked E R j c sn run =
     bindS (modify (\<lambda>s. s\<lparr>sc_mismatch := (sc_mismatch s \<or> sn_mismatch sn)\<rparr>)) (\<lambda>_.
     if \<not> same_file sn c then raise stale else
     bindS (modify (\<lambda>s. if legacy_file_start (Some c) then s\<lparr>sc_anchor_found := True\<rparr> else s)) (\<lambda>_.
     bindS (liftE (tree_path E (j_user j) (j_resume_path j))) (\<lambda>l.
     run (j\<lparr>j_resume_tree_path := Some (loc_text R l), j_resume_snapshot := Some sn\<rparr>))))"

definition resume_scan ::
  "env \<Rightarrow> ripgrep \<Rightarrow> world \<Rightarrow> grep_job \<Rightarrow> grep_cursor \<Rightarrow> (grep_job \<Rightarrow> (scan, scan_result) act) \<Rightarrow> (scan, scan_result) act" where
  "resume_scan E R w j c run =
     (if \<not> legacy_logical (Some c) \<and> \<not> legacy_file_start (Some c) then run j else
      bindS (resume_file E R w j c) (\<lambda>found.
      case found of Inl r \<Rightarrow> ret r | Inr sn \<Rightarrow> resume_checked E R j c sn run))"

definition grep_tree_target ::
  "env \<Rightarrow> ripgrep \<Rightarrow> world \<Rightarrow> str \<Rightarrow> loc \<Rightarrow> grep_job \<Rightarrow> bool \<Rightarrow> (scan, scan_result) act" where
  "grep_tree_target E R w pattern target j inherited =
     bindS (late R (j_deadline j)) (\<lambda>l.
     if l then ret \<lparr>gs_matches = [], gs_stopped_by = Some TIMEOUT, gs_anchor_found = (j_resume j = None),
         gs_next_cursor = Some (case j_resume j of Some c \<Rightarrow> c
           | None \<Rightarrow> grep_search_start_cursor (j_prefix_hash j) (j_pattern_hash j) inherited),
         gs_mismatch = False, gs_files = 0\<rparr>
     else
     bindS (liftE (require_rg R)) (\<lambda>_.
     bindS (modify (\<lambda>s. initial_scan (j_resume j = None) inherited (\<not> legacy_file_start (j_resume j)) (sc_ticks s))) (\<lambda>_.
     let run = (\<lambda>j. run_scan E R w j (g_reads R pattern target) (g_exit R pattern target)) in
     case j_resume j of
       None \<Rightarrow> run j
     | Some c \<Rightarrow> resume_scan E R w (j\<lparr>j_resume_path := grep_absolute_path (j_prefix j) (cu_path c)\<rparr>) c run)))"

definition validate_grep_pattern :: "ripgrep \<Rightarrow> str \<Rightarrow> rat \<Rightarrow> (scan, unit) act" where
  "validate_grep_pattern R pattern deadline =
     bindS (liftE (require_rg R)) (\<lambda>_.
     bindS (late R deadline) (\<lambda>l.
     if l then raise (TimeoutError '''') else
     case g_validation R pattern of
       None \<Rightarrow> raise (TimeoutError '''')
     | Some code \<Rightarrow>
         if code = 2 then raise (ValueError ''invalid ctxfs grep pattern'')
         else if code \<noteq> 0 \<and> code \<noteq> 1 then raise (RuntimeError ''ctxfs grep pattern validation failed'')
         else ret ()))"

definition grep_page_of :: "grep_match list \<Rightarrow> stop_reason option \<Rightarrow> str option \<Rightarrow> grep_page res" where
  "grep_page_of matches why cursor =
     set_continuation_action \<lparr>gp_items = matches, gp_complete = (why = None), gp_stopped_by = why,
       gp_next_cursor = cursor, gp_continuation_required = False, gp_continuation_hint = None\<rparr>"

definition grep_timeout_page :: "grep_cursor \<Rightarrow> grep_page res" where
  "grep_timeout_page c =
     bindE (encode_grep_cursor c) (\<lambda>text. grep_page_of [] (Some TIMEOUT) (Some text))"

definition page_of_result :: "str option \<Rightarrow> grep_cursor option \<Rightarrow> scan_result \<Rightarrow> grep_page res" where
  "page_of_result cursor resume r =
     (if \<not> gs_anchor_found r \<and> gs_stopped_by r \<noteq> Some TIMEOUT then Inl stale else
      let why = (if gs_stopped_by r = None \<and> gs_mismatch r then Some CATALOG_MISMATCH else gs_stopped_by r) in
      bindE (case gs_next_cursor r of
          None \<Rightarrow> Inr None
        | Some c \<Rightarrow>
            if cursor \<noteq> None \<and> gs_stopped_by r = Some TIMEOUT \<and> Some c = resume then Inr cursor
            else bindE (encode_grep_cursor c) (\<lambda>text. Inr (Some text))) (\<lambda>next_cursor.
      grep_page_of (gs_matches r) why next_cursor))"

text \<open>After the pattern has been validated; \<open>decoded\<close> is the cursor the caller has passed.\<close>

definition inherited_mismatch :: "grep_cursor option \<Rightarrow> bool" where
  "inherited_mismatch decoded = (case decoded of None \<Rightarrow> False | Some c \<Rightarrow> cu_catalog_mismatch c)"

definition resumption :: "grep_cursor option \<Rightarrow> grep_cursor option" where
  "resumption decoded =
     (case decoded of None \<Rightarrow> None | Some c \<Rightarrow> if cu_mode c = SEARCH_START then None else Some c)"

definition grep_job_of :: "str \<Rightarrow> str \<Rightarrow> str \<Rightarrow> str \<Rightarrow> rat \<Rightarrow> int \<Rightarrow> loc \<Rightarrow> grep_cursor option \<Rightarrow> grep_job" where
  "grep_job_of user pfx prefix_hash pattern_hash deadline limit root_dir resume =
     \<lparr>j_user = user, j_prefix = pfx, j_prefix_hash = prefix_hash, j_pattern_hash = pattern_hash,
      j_deadline = deadline, j_limit = nat limit, j_root = root_dir, j_resume = resume, j_resume_path = [],
      j_resume_tree_path = None, j_resume_snapshot = None\<rparr>"

definition grep_files ::
  "env \<Rightarrow> ripgrep \<Rightarrow> world \<Rightarrow> str \<Rightarrow> str \<Rightarrow> str \<Rightarrow> str \<Rightarrow> str \<Rightarrow> rat \<Rightarrow> int \<Rightarrow> str option \<Rightarrow> grep_cursor option \<Rightarrow>
   (scan, grep_page) act" where
  "grep_files E R w user pattern pfx prefix_hash pattern_hash deadline limit cursor decoded =
     bindS (liftE (user_root E user)) (\<lambda>root_dir.
     bindS (liftE (if pfx = [] then Inr root_dir else tree_path E user pfx)) (\<lambda>target.
     if \<not> fs_exists (w_fs w) target
     then (if resumption decoded \<noteq> None then raise stale
           else liftE (grep_page_of [] (if inherited_mismatch decoded then Some CATALOG_MISMATCH else None) None))
     else
       bindS (grep_tree_target E R w pattern target
         (grep_job_of user pfx prefix_hash pattern_hash deadline limit root_dir (resumption decoded))
         (inherited_mismatch decoded)) (\<lambda>r.
       liftE (page_of_result cursor (resumption decoded) r))))"

definition cursor_of :: "str option \<Rightarrow> grep_cursor option res" where
  "cursor_of cursor =
     (case cursor of None \<Rightarrow> Inr None | Some text \<Rightarrow> bindE (decode_grep_cursor text) (\<lambda>c. Inr (Some c)))"

definition cursor_fits :: "str \<Rightarrow> str \<Rightarrow> grep_cursor option \<Rightarrow> bool" where
  "cursor_fits prefix_hash pattern_hash decoded =
     (case decoded of None \<Rightarrow> True | Some c \<Rightarrow> cu_prefix_hash c = prefix_hash \<and> cu_pattern_hash c = pattern_hash)"

text \<open>The deadline.\<close>

definition deadline_after :: "ripgrep \<Rightarrow> rat \<Rightarrow> (scan, rat) act" where
  "deadline_after R timeout_seconds s =
     (Inr (g_clock R (sc_ticks s) + timeout_seconds), s\<lparr>sc_ticks := Suc (sc_ticks s)\<rparr>)"

definition validated ::
  "ripgrep \<Rightarrow> str \<Rightarrow> str \<Rightarrow> str \<Rightarrow> rat \<Rightarrow> grep_cursor option \<Rightarrow> (scan, grep_page option) act" where
  "validated R pattern prefix_hash pattern_hash deadline decoded =
     catch_timeout (bindS (validate_grep_pattern R pattern deadline) (\<lambda>_. ret None))
       (bindS (liftE (grep_timeout_page (case decoded of Some c \<Rightarrow> c
           | None \<Rightarrow> grep_search_start_cursor prefix_hash pattern_hash False))) (\<lambda>page. ret (Some page)))"

definition grep_action ::
  "env \<Rightarrow> ripgrep \<Rightarrow> world \<Rightarrow> str \<Rightarrow> str \<Rightarrow> str \<Rightarrow> int \<Rightarrow> rat \<Rightarrow> str option \<Rightarrow> (scan, grep_page) act" where
  "grep_action E R w user pattern prefix_given limit timeout_seconds cursor =
     (if limit \<le> 0 then raise (ValueError ''limit must be positive'')
      else if \<not> (GREP_MIN_TIMEOUT_SECONDS \<le> timeout_seconds \<and> timeout_seconds \<le> GREP_MAX_TIMEOUT_SECONDS)
      then raise (ValueError ''timeout_seconds must be between 0.1 and 60'') else
      bindS (liftE (optional_prefix prefix_given)) (\<lambda>pfx.
      bindS (liftE (utf8_encode pfx)) (\<lambda>prefix_data.
      bindS (deadline_after R timeout_seconds) (\<lambda>deadline.
      bindS (liftE (utf8_encode pattern)) (\<lambda>pattern_data.
      let prefix_hash = sha256 E prefix_data; pattern_hash = sha256 E pattern_data in
      bindS (liftE (cursor_of cursor)) (\<lambda>decoded.
      if \<not> cursor_fits prefix_hash pattern_hash decoded
      then raise (ValueError ''ctxfs grep cursor does not match this search'') else
      bindS (validated R pattern prefix_hash pattern_hash deadline decoded) (\<lambda>early.
      case early of
        Some page \<Rightarrow> ret page
      | None \<Rightarrow> grep_files E R w user pattern pfx prefix_hash pattern_hash deadline limit cursor decoded)))))))"

definition grep ::
  "env \<Rightarrow> ripgrep \<Rightarrow> str \<Rightarrow> str \<Rightarrow> str \<Rightarrow> int \<Rightarrow> rat \<Rightarrow> str option \<Rightarrow> world \<Rightarrow> grep_page res" where
  "grep E R user pattern pfx limit timeout_seconds cursor w =
     fst (grep_action E R w user pattern pfx limit timeout_seconds cursor (initial_scan False False False 0))"

end
