(* ===== verification/Searching.thy ===== *)
theory Searching
  imports Search
begin

text \<open>
  What a search promises. Every match it returns is genuine: a file of the user, below the prefix and
  registered with the digest the match carries or unknown to the catalogue, holds the line at the
  position the match names. A page never holds more matches than the limit. How the output of ripgrep is
  cut into reads does not matter.
\<close>

section \<open>Matches are genuine\<close>

text \<open>The locations of a path in the user's tree: the one it is stored at, and those whose name decodes to it.\<close>

definition stored_at :: "env \<Rightarrow> str \<Rightarrow> str \<Rightarrow> loc \<Rightarrow> bool" where
  "stored_at E user path l \<longleftrightarrow> (\<exists>base parts. user_root E user = Inr base \<and> l = base @ parts \<and>
     (logical_tree_path parts = Some path \<or> tree_components path = Inr parts))"

definition snapshot_ok :: "env \<Rightarrow> str \<Rightarrow> world \<Rightarrow> snapshot \<Rightarrow> bool" where
  "snapshot_ok E user w sn \<longleftrightarrow> (sn_verified sn \<longrightarrow>
     (\<exists>l. stored_at E user (sn_path sn) l \<and> read_bytes (w_fs w) l = Inr (sn_data sn)) \<and>
     sn_hash sn = sha256 E (sn_data sn) \<and> catalog_hash user (sn_path sn) (w_db w) \<in> {None, Some (sn_hash sn)})"

definition lines_ok :: "line_state \<Rightarrow> bool" where
  "lines_ok lst \<longleftrightarrow> ls_offset lst \<le> length (ls_data lst) \<and>
     ls_lf_count lst = count_list (take (ls_offset lst) (ls_data lst)) 10 \<and>
     ls_nul_count lst = count_list (take (ls_offset lst) (ls_data lst)) 0"

text \<open>
  The line a match shows: at an offset where a line begins there are the bytes of the line, except that
  a final null byte may be shown as a line feed; the number of the line counts the line feeds before it,
  and possibly the null bytes.
\<close>

definition line_at :: "bytes \<Rightarrow> nat \<Rightarrow> bytes \<Rightarrow> bool" where
  "line_at data off raw \<longleftrightarrow> off + length raw \<le> length data \<and> (off = 0 \<or> data ! (off - 1) \<in> {10, 0}) \<and>
     (take (length raw) (drop off data) = raw \<or>
      raw \<noteq> [] \<and> last raw = 10 \<and> take (length raw) (drop off data) = butlast raw @ [0])"

definition shown_in :: "bytes \<Rightarrow> grep_match \<Rightarrow> bool" where
  "shown_in data m \<longleftrightarrow> (\<exists>off raw a b. line_at data off raw \<and> a \<le> b \<and> b \<le> length raw \<and>
     gm_line_number m \<in> {1 + count_list (take off data) 10, 1 + count_list (take off data) 10 + count_list (take off data) 0} \<and>
     gm_line m = rstrip_by (\<lambda>c. c \<in> {13, 10}) (utf8_decode_replace raw) \<and>
     gm_match_start m = length (utf8_decode_replace (take a raw)) \<and>
     gm_match_end m = length (utf8_decode_replace (take b raw)))"

definition genuine :: "env \<Rightarrow> str \<Rightarrow> str \<Rightarrow> world \<Rightarrow> grep_match \<Rightarrow> bool" where
  "genuine E user pfx w m \<longleftrightarrow> (pfx = [] \<or> path_is_within_prefix (gm_path m) pfx = Inr True) \<and>
     catalog_hash user (gm_path m) (w_db w) \<in> {None, Some (gm_content_hash m)} \<and>
     (\<exists>l data. stored_at E user (gm_path m) l \<and> read_bytes (w_fs w) l = Inr data \<and>
        gm_content_hash m = sha256 E data \<and> shown_in data m)"

definition scan_ok :: "env \<Rightarrow> str \<Rightarrow> str \<Rightarrow> world \<Rightarrow> scan \<Rightarrow> bool" where
  "scan_ok E user pfx w s \<longleftrightarrow>
     (\<forall>m \<in> set (sc_matches s) \<union> snd ` set (sc_candidates s). genuine E user pfx w m) \<and>
     (\<forall>sn. sc_snapshot s = Some sn \<longrightarrow> snapshot_ok E user w sn) \<and> (\<forall>lst. sc_lines s = Some lst \<longrightarrow> lines_ok lst)"

text \<open>Code that keeps an invariant of the state, also when it raises, and whose results satisfy \<open>Q\<close>.\<close>

definition yields :: "('s \<Rightarrow> bool) \<Rightarrow> ('a \<Rightarrow> bool) \<Rightarrow> ('s, 'a) act \<Rightarrow> bool" where
  "yields I Q m \<longleftrightarrow> hoare I m (\<lambda>x s. I s \<and> Q x) (\<lambda>_. I)"

named_theorems yields_rules \<open>code that keeps an invariant of a scan\<close>

lemma yieldsI:
  assumes "\<And>s x s'. I s \<Longrightarrow> m s = (Inr x, s') \<Longrightarrow> I s' \<and> Q x" "\<And>s e s'. I s \<Longrightarrow> m s = (Inl e, s') \<Longrightarrow> I s'"
  shows "yields I Q m"
  unfolding yields_def by (rule hoareI) (rule assms; assumption)+

lemma yieldsD:
  assumes "yields I Q m" "I s" "m s = (r, s')"
  shows "I s'" "\<And>x. r = Inr x \<Longrightarrow> Q x"
proof -
  have "case r of Inl e \<Rightarrow> I s' | Inr x \<Rightarrow> I s' \<and> Q x" 
    by (rule assms(1) [unfolded yields_def hoare_def, rule_format, OF assms(2,3)])
  then show "I s'" "\<And>x. r = Inr x \<Longrightarrow> Q x" by (simp_all split: sum.splits)
qed

lemma yields_bindS:
  assumes "yields I Q m" "\<And>x. Q x \<Longrightarrow> yields I Q' (f x)"
  shows "yields I Q' (bindS m f)"
proof (rule yieldsI)
  fix s y s' assume s: "I s" "bindS m f s = (Inr y, s')"
  then obtain x s1 where x: "m s = (Inr x, s1)" "f x s1 = (Inr y, s')" by (auto simp: bindS_Inr_iff)
  show "I s' \<and> Q' y" using yieldsD [OF assms(2) _ x(2)] yieldsD [OF assms(1) s(1) x(1)] by simp
next
  fix s e s' assume s: "I s" "bindS m f s = (Inl e, s')"
  then consider "m s = (Inl e, s')" | x s1 where "m s = (Inr x, s1)" "f x s1 = (Inl e, s')" by (auto simp: bindS_Inl_iff)
  then show "I s'"
  proof cases
    case 1
    then show ?thesis using yieldsD(1) [OF assms(1) s(1)] by simp
  next
    case (2 x s1)
    show ?thesis using yieldsD(1) [OF assms(2) _ 2(2)] yieldsD [OF assms(1) s(1) 2(1)] by simp
  qed
qed

lemma yields_then [yields_rules]:
  "yields I (\<lambda>_. True) m \<Longrightarrow> (\<And>x. yields I Q (f x)) \<Longrightarrow> yields I Q (bindS m f)"
  by (rule yields_bindS)

lemma yields_ret [yields_rules]: "Q x \<Longrightarrow> yields I Q (ret x)"
  by (auto intro!: yieldsI simp: act_simps)

lemma yields_raise [yields_rules]: "yields I Q (raise e)"
  by (auto intro!: yieldsI simp: act_simps)

lemma yields_liftE [yields_rules]: "(\<And>x. q = Inr x \<Longrightarrow> Q x) \<Longrightarrow> yields I Q (liftE q)"
  by (auto intro!: yieldsI simp: act_simps)

lemma yields_gets [yields_rules]: "(\<And>s. I s \<Longrightarrow> Q (g s)) \<Longrightarrow> yields I Q (gets g)"
  by (auto intro!: yieldsI simp: act_simps)

lemma yields_modify [yields_rules]: "(\<And>s. I s \<Longrightarrow> I (f s)) \<Longrightarrow> yields I (\<lambda>_. True) (modify f)"
  by (auto intro!: yieldsI simp: act_simps)

lemma yields_if [yields_rules]:
  "(c \<Longrightarrow> yields I Q m) \<Longrightarrow> (\<not> c \<Longrightarrow> yields I Q n) \<Longrightarrow> yields I Q (if c then m else n)"
  by simp

lemma yields_option [yields_rules]:
  "(y = None \<Longrightarrow> yields I Q m) \<Longrightarrow> (\<And>x. y = Some x \<Longrightarrow> yields I Q (f x)) \<Longrightarrow> yields I Q (case y of None \<Rightarrow> m | Some x \<Rightarrow> f x)"
  by (cases y) simp_all

lemma yields_prod [yields_rules]: "(\<And>a b. y = (a, b) \<Longrightarrow> yields I Q (f a b)) \<Longrightarrow> yields I Q (case y of (a, b) \<Rightarrow> f a b)"
  by (cases y) simp

lemma yields_catch_timeout [yields_rules]:
  assumes "yields I Q m" "yields I Q h"
  shows "yields I Q (catch_timeout m h)"
proof (rule yieldsI)
  fix s x s' assume s: "I s" "catch_timeout m h s = (Inr x, s')"
  obtain r s1 where r: "m s = (r, s1)" by force
  show "I s' \<and> Q x"
  proof (cases r)
    case (Inl e)
    then have "h s1 = (Inr x, s')" using s(2) r by (cases e) (simp_all add: catch_timeout_def catchS_def act_simps)
    then show ?thesis using yieldsD [OF assms(2) yieldsD(1) [OF assms(1) s(1) r]] by blast
  next
    case (Inr y)
    then have "x = y" "s' = s1" using s(2) r by (simp_all add: catch_timeout_def catchS_def)
    then show ?thesis using yieldsD [OF assms(1) s(1) r] Inr by simp
  qed
next
  fix s e s' assume s: "I s" "catch_timeout m h s = (Inl e, s')"
  obtain r s1 where r: "m s = (r, s1)" by force
  have s1: "I s1" by (rule yieldsD(1) [OF assms(1) s(1) r])
  show "I s'"
  proof (cases "s' = s1")
    case False
    then have "h s1 = (Inl e, s')" using s(2) r
      by (cases r; cases "projl r") (auto simp: catch_timeout_def catchS_def act_simps)
    then show ?thesis using yieldsD(1) [OF assms(2) s1] by blast
  qed (use s1 in simp)
qed

lemma yields_weaken: "yields I Q m \<Longrightarrow> (\<And>x. Q x \<Longrightarrow> Q' x) \<Longrightarrow> yields I Q' m"
  by (rule yieldsI) (auto dest: yieldsD)

section \<open>The parts of a scan\<close>

lemma scan_ok_simps [simp]:
  "scan_ok E user pfx w (s\<lparr>sc_ticks := n\<rparr>) = scan_ok E user pfx w s"
  "scan_ok E user pfx w (s\<lparr>sc_files := n\<rparr>) = scan_ok E user pfx w s"
  "scan_ok E user pfx w (s\<lparr>sc_mismatch := b\<rparr>) = scan_ok E user pfx w s"
  "scan_ok E user pfx w (s\<lparr>sc_replayed := b\<rparr>) = scan_ok E user pfx w s"
  "scan_ok E user pfx w (s\<lparr>sc_anchor_found := b\<rparr>) = scan_ok E user pfx w s"
  "scan_ok E user pfx w (s\<lparr>sc_active_path := p\<rparr>) = scan_ok E user pfx w s"
  "scan_ok E user pfx w (s\<lparr>sc_last := l\<rparr>) = scan_ok E user pfx w s"
  by (simp_all add: scan_ok_def)

lemma yields_late [yields_rules]: "yields (scan_ok E user pfx w) (\<lambda>_. True) (late R d)"
  by (rule yieldsI) (auto simp: late_def)

lemma yields_in_time [yields_rules]: "yields (scan_ok E user pfx w) (\<lambda>_. True) (in_time R d n)"
  by (induction n) (auto intro!: yields_rules)

lemma yields_before_deadline [yields_rules]:
  "yields (scan_ok E user pfx w) Q m \<Longrightarrow> yields (scan_ok E user pfx w) Q (before_deadline R j m)"
  unfolding before_deadline_def by (intro yields_rules) simp_all

lemma yields_snapshot:
  assumes "stored_at E user path l"
  shows "yields (scan_ok E user pfx w) (\<lambda>sn. snapshot_ok E user w sn \<and> sn_path sn = path) (snapshot_grep_file E R w d user path l)"
proof (cases "read_bytes (w_fs w) l")
  case (Inl e)
  then show ?thesis by (simp add: snapshot_grep_file_def) (rule yields_ret, simp add: snapshot_ok_def no_snapshot_def)
next
  case (Inr data)
  obtain before after path_after where st: "g_stats R l = (before, after, path_after)" by (cases "g_stats R l")
  show ?thesis unfolding snapshot_grep_file_def Inr sum.case st prod.case Let_def
    by (intro yields_rules) (use assms Inr in \<open>auto simp: snapshot_ok_def\<close>)
qed

lemma advance_lines_ok:
  assumes "lines_ok lst" "ls_offset lst \<le> off" "off \<le> length (ls_data lst)"
  shows "lines_ok (advance_line_state lst off)" "ls_data (advance_line_state lst off) = ls_data lst"
    "ls_offset (advance_line_state lst off) = off"
proof -
  have "take off (ls_data lst) = take (ls_offset lst) (ls_data lst) @ drop (ls_offset lst) (take off (ls_data lst))"
    using assms(2) by (metis append_take_drop_id min.absorb1 take_take)
  then have "count_list (take off (ls_data lst)) x =
      count_list (take (ls_offset lst) (ls_data lst)) x + count_list (drop (ls_offset lst) (take off (ls_data lst))) x" for x
    by (metis count_list_append)
  then show "lines_ok (advance_line_state lst off)"
    using assms by (simp add: lines_ok_def advance_line_state_def Let_def)
qed (simp_all add: advance_line_state_def Let_def)

lemma yields_line_number:
  assumes "lines_ok lst"
  shows "yields (scan_ok E user pfx w)
    (\<lambda>b. b \<longrightarrow> (off = 0 \<or> data ! (off - 1) \<in> {10, 0}) \<and>
      n \<in> {1 + count_list (take off data) 10, 1 + count_list (take off data) 10 + count_list (take off data) 0})
    (rg_line_number_matches R d data off n lst)"
proof (cases "ls_data lst \<noteq> data \<or> off < ls_offset lst \<or> length data < off \<or> off \<noteq> 0 \<and> data ! (off - 1) \<notin> {10, 0}")
  case True
  then show ?thesis by (auto simp: rg_line_number_matches_def intro!: yields_rules)
next
  case False
  then have f: "ls_data lst = data" "ls_offset lst \<le> off" "off \<le> length data" "off = 0 \<or> data ! (off - 1) \<in> {10, 0}" by auto
  let ?l = "advance_line_state lst off"
  have l: "lines_ok ?l" "ls_data ?l = data" "ls_offset ?l = off" using advance_lines_ok [OF assms f(2)] f(1,3) by simp_all
  then have c: "ls_lf_count ?l = count_list (take off data) 10" "ls_nul_count ?l = count_list (take off data) 0"
    by (simp_all add: lines_ok_def)
  have nn: "\<not> (ls_data lst \<noteq> data \<or> off < ls_offset lst \<or> length data < off)" "\<not> (off \<noteq> 0 \<and> data ! (off - 1) \<notin> {10, 0})"
    using f by auto
  have "rg_line_number_matches R d data off n lst =
      bindS (in_time R d (Suc (chunk_rounds (off - ls_offset lst)))) (\<lambda>_.
      bindS (modify (\<lambda>s. s\<lparr>sc_lines := Some ?l\<rparr>)) (\<lambda>_. ret (n \<in> {ls_lf_count ?l + 1, ls_lf_count ?l + 1 + ls_nul_count ?l})))"
    unfolding rg_line_number_matches_def if_not_P [OF nn(1)] if_not_P [OF nn(2)] Let_def ..
  moreover have "yields (scan_ok E user pfx w) (\<lambda>_. True) (modify (\<lambda>s. s\<lparr>sc_lines := Some ?l\<rparr>))"
    by (rule yields_modify) (use l(1) in \<open>simp add: scan_ok_def\<close>)
  ultimately show ?thesis using f(4) unfolding c by (auto intro!: yields_rules simp: add.commute)
qed

lemma line_length_at:
  assumes "rg_verified_line_length data off raw = Some v" "off \<le> length data" "length raw \<le> length data - off"
    "off = 0 \<or> data ! (off - 1) \<in> {10, 0}"
  shows "line_at data off raw"
proof -
  have l: "off + length raw \<le> length data" using assms(2,3) by simp
  have t: "prefix xs (drop off data) \<Longrightarrow> take (length xs) (drop off data) = xs" for xs
    by (metis prefix_def append_eq_conv_conj)
  show ?thesis
  proof (cases "prefix raw (drop off data)")
    case True
    then show ?thesis using l assms(4) t by (simp add: line_at_def)
  next
    case False
    then have r: "raw \<noteq> []" "last raw = 10" "prefix (butlast raw) (drop off data)" "data ! (off + length raw - 1) = 0"
      using assms(1) by (auto simp: rg_verified_line_length_def split: if_splits)
    have n: "length raw = Suc (length (butlast raw))" using r(1) by (simp add: length_greater_0_conv [symmetric] del: length_greater_0_conv)
    have "length (butlast raw) < length (drop off data)" unfolding length_drop using l n by linarith
    then have "take (length raw) (drop off data) = take (length (butlast raw)) (drop off data) @ [drop off data ! length (butlast raw)]"
      unfolding n by (rule take_Suc_conv_app_nth)
    moreover have "off + length raw - 1 = off + length (butlast raw)" using n by linarith
    then have "drop off data ! length (butlast raw) = 0" using r(4) assms(2) by simp
    ultimately have "take (length raw) (drop off data) = butlast raw @ [0]" using t [OF r(3)] by simp
    then show ?thesis using l assms(4) r(1,2) by (simp add: line_at_def)
  qed
qed

definition inside :: "str \<Rightarrow> str \<Rightarrow> bool" where
  "inside pfx path \<longleftrightarrow> pfx = [] \<or> path_is_within_prefix path pfx = Inr True"

lemma match_genuine:
  assumes "snapshot_ok E user w sn" "sn_verified sn" "inside pfx (sn_path sn)"
    and "line_at (sn_data sn) off raw" "a \<le> b" "b \<le> length raw"
    and "n \<in> {1 + count_list (take off (sn_data sn)) 10, 1 + count_list (take off (sn_data sn)) 10 + count_list (take off (sn_data sn)) 0}"
  shows "genuine E user pfx w (match_of sn n raw a b)"
proof -
  have "shown_in (sn_data sn) (match_of sn n raw a b)" unfolding shown_in_def
    by (intro exI [of _ off] exI [of _ raw] exI [of _ a] exI [of _ b] conjI) (use assms(4-7) in \<open>simp_all add: match_of_def\<close>)
  then show ?thesis using assms(1-3) by (auto simp: genuine_def snapshot_ok_def inside_def match_of_def)
qed

lemma yields_lift_then: "(\<And>x. q = Inr x \<Longrightarrow> yields I Q (f x)) \<Longrightarrow> yields I Q (bindS (liftE q) f)"
  by (cases q) (simp_all add: yields_raise)

lemma yields_verified:
  assumes sn: "snapshot_ok E user w sn" "sn_verified sn" "inside pfx (sn_path sn)" and l: "lines_ok lst"
  shows "yields (scan_ok E user pfx w) (\<lambda>r. \<forall>m. r = Some m \<longrightarrow> genuine E user pfx w m) (verified_grep_match R d event sn lst)"
  unfolding verified_grep_match_def
proof (intro yields_lift_then yields_prod yields_option yields_if)
  fix n off v sub and raw :: bytes
  assume len: "\<not> (length (sn_data sn) < off \<or> length (sn_data sn) - off < length raw)"
    and v: "rg_verified_line_length (sn_data sn) off raw = Some v"
  show "yields (scan_ok E user pfx w) (\<lambda>r. \<forall>m. r = Some m \<longrightarrow> genuine E user pfx w m)
     (bindS (rg_line_number_matches R d (sn_data sn) off n lst) (\<lambda>fits.
        if \<not> fits then ret None else
        (case (json_nat (json_get sub ''start''), json_nat (json_get sub ''end'')) of
           (Some a, Some b) \<Rightarrow>
             if \<not> (a \<le> b \<and> b \<le> length raw) then liftE invalid_record
             else if v < b then ret None
             else ret (Some (match_of sn n raw a b))
         | _ \<Rightarrow> liftE invalid_record)))"
  proof (rule yields_bindS [OF yields_line_number [OF l]], intro yields_if)
    fix fits
    assume "fits \<longrightarrow> (off = 0 \<or> sn_data sn ! (off - 1) \<in> {10, 0}) \<and>
        n \<in> {1 + count_list (take off (sn_data sn)) 10, 1 + count_list (take off (sn_data sn)) 10 + count_list (take off (sn_data sn)) 0}"
      and "\<not> \<not> fits"
    then have n: "off = 0 \<or> sn_data sn ! (off - 1) \<in> {10, 0}"
        "n \<in> {1 + count_list (take off (sn_data sn)) 10, 1 + count_list (take off (sn_data sn)) 10 + count_list (take off (sn_data sn)) 0}"
      by simp_all
    have at: "line_at (sn_data sn) off raw" by (rule line_length_at [OF v]) (use len n(1) in auto)
    have g: "a \<le> b \<and> b \<le> length raw \<Longrightarrow> genuine E user pfx w (match_of sn n raw a b)" for a b
      using match_genuine [OF sn at _ _ n(2)] by blast
    show "yields (scan_ok E user pfx w) (\<lambda>r. \<forall>m. r = Some m \<longrightarrow> genuine E user pfx w m)
       (case (json_nat (json_get sub ''start''), json_nat (json_get sub ''end'')) of
           (Some a, Some b) \<Rightarrow>
             if \<not> (a \<le> b \<and> b \<le> length raw) then liftE invalid_record
             else if v < b then ret None
             else ret (Some (match_of sn n raw a b))
         | _ \<Rightarrow> liftE invalid_record)"
      using g by (auto simp: invalid_record_def split: option.splits intro!: yields_ret yields_liftE)
  qed (auto intro: yields_ret)
qed (auto intro: yields_ret)

definition result_ok :: "env \<Rightarrow> str \<Rightarrow> str \<Rightarrow> world \<Rightarrow> scan_result \<Rightarrow> bool" where
  "result_ok E user pfx w r \<longleftrightarrow> (\<forall>m \<in> set (gs_matches r). genuine E user pfx w m)"

definition stop_ok :: "env \<Rightarrow> str \<Rightarrow> str \<Rightarrow> world \<Rightarrow> scan_result option \<Rightarrow> bool" where
  "stop_ok E user pfx w x \<longleftrightarrow> (\<forall>r. x = Some r \<longrightarrow> result_ok E user pfx w r)"

lemma stop_ok_simps [simp]: "stop_ok E user pfx w None" "stop_ok E user pfx w (Some r) \<longleftrightarrow> result_ok E user pfx w r"
  by (simp_all add: stop_ok_def)

lemma scan_result_ok: "scan_ok E user pfx w s \<Longrightarrow> result_ok E user pfx w (scan_result_of why c s)"
  by (simp add: scan_ok_def result_ok_def scan_result_of_def)

lemma yields_stop [yields_rules]: "yields (scan_ok E user pfx w) (stop_ok E user pfx w) (stop why c)"
  unfolding stop_def by (rule yields_gets) (simp add: scan_result_ok)

lemma yields_take_match:
  assumes "genuine E user pfx w m"
  shows "yields (scan_ok E user pfx w) (stop_ok E user pfx w) (take_match E j m)"
  unfolding take_match_def
  by (intro yields_rules) (use assms in \<open>auto simp: scan_ok_def\<close>)

lemma scan_ok_candidates:
  assumes "scan_ok E user pfx w s" "snd ` set c \<subseteq> insert m (snd ` set (sc_candidates s))" "genuine E user pfx w m"
  shows "scan_ok E user pfx w (s\<lparr>sc_candidates := c\<rparr>)"
proof -
  have "genuine E user pfx w x" if "x \<in> set (sc_matches s) \<union> snd ` set c" for x
    using assms that unfolding scan_ok_def by blast
  then show ?thesis using assms(1) by (simp add: scan_ok_def)
qed

lemma insert_candidate_set: "snd ` set (insert_candidate m xs) \<subseteq> insert m (snd ` set xs)"
  by (auto simp: insert_candidate_def Let_def dest: set_takeWhileD set_dropWhileD)

lemma yields_legacy_match:
  assumes "genuine E user pfx w m"
  shows "yields (scan_ok E user pfx w) (stop_ok E user pfx w) (legacy_match j c path m)"
proof -
  have "scan_ok E user pfx w (let xs = insert_candidate m (sc_candidates s)
             in s\<lparr>sc_candidates := (if j_limit j + 1 < length xs then butlast xs else xs)\<rparr>)"
    if s: "scan_ok E user pfx w s" for s
  proof -
    let ?xs = "insert_candidate m (sc_candidates s)"
    have "set (butlast ?xs) \<subseteq> set ?xs" by (auto dest: in_set_butlastD)
    then have "snd ` set (if j_limit j + 1 < length ?xs then butlast ?xs else ?xs) \<subseteq> insert m (snd ` set (sc_candidates s))"
      using insert_candidate_set [of m "sc_candidates s"] by (cases "j_limit j + 1 < length ?xs") (simp_all, blast)
    from scan_ok_candidates [OF s this assms] show ?thesis by (simp add: Let_def)
  qed
  then show ?thesis unfolding legacy_match_def by (intro yields_rules) simp_all
qed

lemma yields_accept:
  assumes "genuine E user pfx w m"
  shows "yields (scan_ok E user pfx w) (stop_ok E user pfx w) (accept_match E j found path sn m)"
  unfolding accept_match_def
  by (intro yields_rules yields_take_match [OF assms] yields_legacy_match [OF assms]) simp_all

definition job_ok :: "env \<Rightarrow> world \<Rightarrow> grep_job \<Rightarrow> bool" where
  "job_ok E w j \<longleftrightarrow> user_root E (j_user j) = Inr (j_root j) \<and>
     (\<forall>sn. j_resume_snapshot j = Some sn \<longrightarrow> snapshot_ok E (j_user j) w sn)"

abbreviation job_scan :: "env \<Rightarrow> world \<Rightarrow> grep_job \<Rightarrow> scan \<Rightarrow> bool" where
  "job_scan E w j \<equiv> scan_ok E (j_user j) (j_prefix j) w"

abbreviation job_stop :: "env \<Rightarrow> world \<Rightarrow> grep_job \<Rightarrow> scan_result option \<Rightarrow> bool" where
  "job_stop E w j \<equiv> stop_ok E (j_user j) (j_prefix j) w"

lemma lines_ok_start [simp]: "lines_ok (line_state_of data)"
  by (simp add: lines_ok_def line_state_of_def)

lemma record_place_inside:
  assumes "record_place R j p = Inr (full, path, parts)"
  shows "logical_tree_path parts = Some path" "inside (j_prefix j) path"
  using assms by (auto simp: record_place_def unexpected_path_def inside_def Let_def bindE_def split: option.splits sum.splits if_splits)

lemma yields_active_snapshot:
  assumes "job_ok E w j" "logical_tree_path parts = Some path"
  shows "yields (job_scan E w j) (\<lambda>sn. snapshot_ok E (j_user j) w sn \<and> sn_path sn = path) (active_snapshot E R w j path parts)"
  unfolding active_snapshot_def
proof (rule yields_bindS [where Q = "\<lambda>x. \<forall>sn. x = Some sn \<longrightarrow> snapshot_ok E (j_user j) w sn"])
  fix x :: "snapshot option"
  assume x: "\<forall>sn. x = Some sn \<longrightarrow> snapshot_ok E (j_user j) w sn"
  have st: "stored_at E (j_user j) path (j_root j @ parts)" using assms by (auto simp: stored_at_def job_ok_def)
  have fresh: "yields (job_scan E w j) (\<lambda>sn. snapshot_ok E (j_user j) w sn \<and> sn_path sn = path)
      (bindS (modify (\<lambda>s. s\<lparr>sc_files := Suc (sc_files s)\<rparr>)) (\<lambda>_.
         bindS (snapshot_grep_file E R w (j_deadline j) (j_user j) path (j_root j @ parts)) (\<lambda>sn.
         bindS (modify (\<lambda>s. s\<lparr>sc_snapshot := Some sn, sc_lines := Some (line_state_of (sn_data sn))\<rparr>)) (\<lambda>_. ret sn))))"
  proof (rule yields_then, rule yields_modify, simp, rule yields_bindS [OF yields_snapshot [OF st]], rule yields_then)
    fix sn assume "snapshot_ok E (j_user j) w sn \<and> sn_path sn = path"
    then show "yields (job_scan E w j) (\<lambda>_. True) (modify (\<lambda>s. s\<lparr>sc_snapshot := Some sn, sc_lines := Some (line_state_of (sn_data sn))\<rparr>))"
      by (intro yields_modify) (simp add: scan_ok_def)
  qed (rule yields_ret)
  show "yields (job_scan E w j) (\<lambda>sn. snapshot_ok E (j_user j) w sn \<and> sn_path sn = path)
    (case filter (\<lambda>sn. sn_path sn = path) (case x of None \<Rightarrow> [] | Some sn \<Rightarrow> [sn]) of
       [] \<Rightarrow> bindS (modify (\<lambda>s. s\<lparr>sc_files := Suc (sc_files s)\<rparr>)) (\<lambda>_.
         bindS (snapshot_grep_file E R w (j_deadline j) (j_user j) path (j_root j @ parts)) (\<lambda>sn.
         bindS (modify (\<lambda>s. s\<lparr>sc_snapshot := Some sn, sc_lines := Some (line_state_of (sn_data sn))\<rparr>)) (\<lambda>_. ret sn)))
     | sn # _ \<Rightarrow> ret sn)"
    using fresh x by (cases x) (auto intro: yields_ret)
qed (rule yields_gets, simp add: scan_ok_def)

lemma yields_consume_match:
  assumes "job_ok E w j" "logical_tree_path parts = Some path" "inside (j_prefix j) path"
  shows "yields (job_scan E w j) (job_stop E w j) (consume_match E R w j event path parts)"
  unfolding consume_match_def
proof (rule yields_then, rule yields_modify, simp, rule yields_then, rule yields_gets, simp, intro yields_if, simp_all add: yields_ret)
  fix found
  show "yields (job_scan E w j) (job_stop E w j)
    (bindS (active_snapshot E R w j path parts) (\<lambda>sn.
       bindS (modify (\<lambda>s. s\<lparr>sc_mismatch := (sc_mismatch s \<or> sn_mismatch sn)\<rparr>)) (\<lambda>_.
       if \<not> sn_verified sn then stop CATALOG_MISMATCH None else
       bindS (gets (\<lambda>s. case sc_lines s of Some lst \<Rightarrow> lst | None \<Rightarrow> line_state_of (sn_data sn))) (\<lambda>lst.
       bindS (verified_grep_match R (j_deadline j) event sn lst) (\<lambda>found_match.
       case found_match of
         None \<Rightarrow> bindS (modify (\<lambda>s. s\<lparr>sc_mismatch := True\<rparr>)) (\<lambda>_. stop CATALOG_MISMATCH None)
       | Some m \<Rightarrow> accept_match E j found path sn m)))))"
  proof (rule yields_bindS [OF yields_active_snapshot [OF assms(1,2)]], rule yields_then, rule yields_modify, simp,
      intro yields_if yields_stop)
    fix sn assume sn: "snapshot_ok E (j_user j) w sn \<and> sn_path sn = path" and v: "\<not> \<not> sn_verified sn"
    show "yields (job_scan E w j) (job_stop E w j)
     (bindS (gets (\<lambda>s. case sc_lines s of Some lst \<Rightarrow> lst | None \<Rightarrow> line_state_of (sn_data sn))) (\<lambda>lst.
       bindS (verified_grep_match R (j_deadline j) event sn lst) (\<lambda>found_match.
       case found_match of
         None \<Rightarrow> bindS (modify (\<lambda>s. s\<lparr>sc_mismatch := True\<rparr>)) (\<lambda>_. stop CATALOG_MISMATCH None)
       | Some m \<Rightarrow> accept_match E j found path sn m)))"
    proof (rule yields_bindS [where Q = lines_ok])
      show "yields (job_scan E w j) lines_ok (gets (\<lambda>s. case sc_lines s of Some lst \<Rightarrow> lst | None \<Rightarrow> line_state_of (sn_data sn)))"
        by (rule yields_gets) (simp add: scan_ok_def split: option.split)
    next
      fix lst assume l: "lines_ok lst"
      show "yields (job_scan E w j) (job_stop E w j)
        (bindS (verified_grep_match R (j_deadline j) event sn lst) (\<lambda>found_match.
         case found_match of
           None \<Rightarrow> bindS (modify (\<lambda>s. s\<lparr>sc_mismatch := True\<rparr>)) (\<lambda>_. stop CATALOG_MISMATCH None)
         | Some m \<Rightarrow> accept_match E j found path sn m))"
        by (rule yields_bindS [OF yields_verified [where pfx = "j_prefix j"]])
          (use sn v l assms(3) in \<open>auto intro!: yields_option yields_accept yields_then yields_modify yields_stop\<close>)
    qed
  qed
qed

lemma yields_consume_record:
  assumes "job_ok E w j"
  shows "yields (job_scan E w j) (job_stop E w j) (consume_record E R w j raw)"
  unfolding consume_record_def
proof (intro yields_if yields_stop yields_lift_then yields_option yields_prod)
  fix event x p y full b path parts
  assume "record_place R j p = Inr y" "y = (full, b)" "b = (path, parts)"
  then have "record_place R j p = Inr (full, path, parts)" by simp
  note place = record_place_inside [OF this]
  have b: "job_scan E w j (begin_file j path full s)" if "job_scan E w j s" for s
    using that assms by (auto simp: begin_file_def scan_ok_def job_ok_def Let_def)
  have e: "job_scan E w j (end_file path s)" if "job_scan E w j s" for s
    using that by (auto simp: end_file_def scan_ok_def)
  show "yields (job_scan E w j) (job_stop E w j)
     (bindS (gets sc_replayed) (\<lambda>replayed.
          if legacy_file_start (j_resume j) \<and> \<not> replayed \<and>
             (case j_resume_tree_path j of None \<Rightarrow> False | Some t \<Rightarrow> full < t)
          then ret None
          else
            bindS (modify (\<lambda>s. s\<lparr>sc_replayed := True\<rparr>)) (\<lambda>_.
            if json_text (json_get event ''type'') = Some (lit ''begin'')
            then bindS (modify (begin_file j path full)) (\<lambda>_. ret None)
            else if json_text (json_get event ''type'') = Some (lit ''end'')
            then bindS (modify (end_file path)) (\<lambda>_. ret None)
            else consume_match E R w j event path parts)))"
    by (intro yields_then yields_if yields_gets yields_modify yields_ret yields_consume_match [OF assms place])
      (simp_all add: b e)
qed (simp add: yields_ret)

lemma yields_consume_all:
  assumes "job_ok E w j"
  shows "yields (job_scan E w j) (job_stop E w j) (consume_all E R w j raws)"
proof (induction raws)
  case Nil
  then show ?case by (simp add: yields_ret)
next
  case (Cons raw raws)
  show ?case unfolding consume_all.simps
    by (rule yields_bindS [OF yields_consume_record [OF assms]]) (auto intro!: yields_option yields_ret Cons)
qed

lemma yields_last_record:
  "job_ok E w j \<Longrightarrow> yields (job_scan E w j) (job_stop E w j) (last_record E R w j pending)"
  unfolding last_record_def by (intro yields_before_deadline yields_if yields_ret yields_consume_record) simp_all

lemma yields_read_records:
  assumes "job_ok E w j"
  shows "yields (job_scan E w j) (job_stop E w j) (read_records E R w j pending reads)"
proof (induction reads arbitrary: pending)
  case Nil
  show ?case using yields_last_record [OF assms] by simp
next
  case (Cons r reads)
  show ?case
  proof (cases r)
    case Rg_Silent
    then show ?thesis by (simp add: yields_before_deadline yields_raise)
  next
    case (Rg_Chunk chunk)
    show ?thesis
    proof (cases "chunk = []")
      case True
      then show ?thesis using yields_last_record [OF assms] by (simp add: Rg_Chunk)
    next
      case False
      have "yields (job_scan E w j) (job_stop E w j)
        (bindS (consume_all E R w j (butlast (split_on 10 (pending @ chunk)))) (\<lambda>r. case r of
            Some x \<Rightarrow> ret (Some x)
          | None \<Rightarrow>
              if GREP_MAX_JSON_RECORD_BYTES < int (length (last (split_on 10 (pending @ chunk)))) then stop MAX_BYTES None
              else read_records E R w j (last (split_on 10 (pending @ chunk))) reads))"
        by (rule yields_bindS [OF yields_consume_all [OF assms]])
          (auto intro!: yields_option yields_if yields_ret yields_stop Cons simp del: read_records.simps)
      then show ?thesis using False by (simp add: Rg_Chunk Let_def yields_before_deadline)
    qed
  qed
qed

lemma yields_timed_out: "yields (job_scan E w j) (result_ok E (j_user j) (j_prefix j) w) (timed_out E j)"
  unfolding timed_out_def
  by (intro yields_then yields_lift_then yields_gets yields_modify) (auto simp: scan_result_ok scan_ok_def yields_liftE)

lemma yields_finish_scan: "yields (job_scan E w j) (result_ok E (j_user j) (j_prefix j) w) (finish_scan E j code)"
  unfolding finish_scan_def
proof (intro yields_then [where m = "gets sc_anchor_found"] yields_gets yields_if yields_raise, simp_all add: rg_failed_def yields_liftE scan_result_ok)
  let ?Q = "\<lambda>xs. \<forall>m \<in> set xs. genuine E (j_user j) (j_prefix j) w m"
  show "yields (job_scan E w j) (result_ok E (j_user j) (j_prefix j) w)
     (bindS (gets (\<lambda>s. map snd (sc_candidates s))) (\<lambda>candidates.
       bindS (modify (\<lambda>s. s\<lparr>sc_matches := take (j_limit j) candidates\<rparr>)) (\<lambda>_.
       if length candidates \<le> j_limit j then gets (scan_result_of None None)
       else
         bindS (gets sc_mismatch) (\<lambda>mismatch.
         bindS (liftE (grep_cursor_for_match E (j_prefix j) (j_pattern_hash j)
                   (last (take (j_limit j) candidates)) mismatch LEGACY_AFTER_MATCH)) (\<lambda>c.
         gets (scan_result_of (Some LIMIT) (Some c)))))))"
  proof (rule yields_bindS [where Q = ?Q])
    show "yields (job_scan E w j) ?Q (gets (\<lambda>s. map snd (sc_candidates s)))"
      by (rule yields_gets) (auto simp: scan_ok_def)
  next
    fix candidates assume c: "?Q candidates"
    have "job_scan E w j (s\<lparr>sc_matches := take (j_limit j) candidates\<rparr>)" if "job_scan E w j s" for s
      using that c by (auto simp: scan_ok_def dest: in_set_takeD)
    then show "yields (job_scan E w j) (result_ok E (j_user j) (j_prefix j) w)
      (bindS (modify (\<lambda>s. s\<lparr>sc_matches := take (j_limit j) candidates\<rparr>)) (\<lambda>_.
       if length candidates \<le> j_limit j then gets (scan_result_of None None)
       else
         bindS (gets sc_mismatch) (\<lambda>mismatch.
         bindS (liftE (grep_cursor_for_match E (j_prefix j) (j_pattern_hash j)
                   (last (take (j_limit j) candidates)) mismatch LEGACY_AFTER_MATCH)) (\<lambda>c.
         gets (scan_result_of (Some LIMIT) (Some c))))))"
      by (intro yields_then yields_modify yields_if yields_gets yields_lift_then) (simp_all add: scan_result_ok)
  qed
qed (auto intro: yields_liftE)

lemma yields_run_scan:
  assumes "job_ok E w j"
  shows "yields (job_scan E w j) (result_ok E (j_user j) (j_prefix j) w) (run_scan E R w j reads code)"
  unfolding run_scan_def
proof (rule yields_bindS [where Q = "\<lambda>x. case x of Inl r \<Rightarrow> result_ok E (j_user j) (j_prefix j) w r | Inr y \<Rightarrow> job_stop E w j y"])
  show "yields (job_scan E w j) (\<lambda>x. case x of Inl r \<Rightarrow> result_ok E (j_user j) (j_prefix j) w r | Inr y \<Rightarrow> job_stop E w j y)
    (catch_timeout (bindS (read_records E R w j [] reads) (\<lambda>r. ret (Inr r))) (bindS (timed_out E j) (\<lambda>r. ret (Inl r))))"
    by (rule yields_catch_timeout)
      (rule yields_bindS [OF yields_read_records [OF assms]] yields_bindS [OF yields_timed_out], rule yields_ret, simp)+
next
  fix x :: "scan_result + scan_result option"
  assume x: "case x of Inl r \<Rightarrow> result_ok E (j_user j) (j_prefix j) w r | Inr y \<Rightarrow> job_stop E w j y"
  show "yields (job_scan E w j) (result_ok E (j_user j) (j_prefix j) w)
     (case x of Inl r \<Rightarrow> ret r | Inr None \<Rightarrow> (case code of None \<Rightarrow> timed_out E j | Some code \<Rightarrow> finish_scan E j code)
      | Inr (Some r) \<Rightarrow> ret r)"
    using x by (auto split: sum.split option.split intro!: yields_ret yields_timed_out yields_finish_scan)
qed

lemma yields_resume_file:
  "yields (job_scan E w j) (\<lambda>x. case x of Inl r \<Rightarrow> result_ok E (j_user j) (j_prefix j) w r | Inr sn \<Rightarrow> snapshot_ok E (j_user j) w sn)
     (resume_file E R w j c)"
  unfolding resume_file_def
proof (rule yields_lift_then, rule yields_catch_timeout)
  fix l assume "tree_path E (j_user j) (j_resume_path j) = Inr l"
  then have st: "stored_at E (j_user j) (j_resume_path j) l" by (auto simp: stored_at_def tree_path_def bindE_def split: sum.splits)
  show "yields (job_scan E w j) (\<lambda>x. case x of Inl r \<Rightarrow> result_ok E (j_user j) (j_prefix j) w r | Inr sn \<Rightarrow> snapshot_ok E (j_user j) w sn)
     (bindS (snapshot_grep_file E R w (j_deadline j) (j_user j) (j_resume_path j) l) (\<lambda>sn. ret (Inr sn)))"
    by (rule yields_bindS [OF yields_snapshot [OF st]]) (rule yields_ret, simp)
qed (rule yields_gets, simp add: result_ok_def)

lemma job_scan_initial: "scan_ok E user pfx w (initial_scan a b c n)"
  by (simp add: scan_ok_def initial_scan_def)

text \<open>A scan of the same search, whatever of it is resumed.\<close>

definition same_search :: "grep_job \<Rightarrow> grep_job \<Rightarrow> bool" where
  "same_search j k \<longleftrightarrow> j_user k = j_user j \<and> j_prefix k = j_prefix j"

lemma yields_resume_scan:
  assumes "job_ok E w j" "\<And>k. job_ok E w k \<Longrightarrow> same_search j k \<Longrightarrow> yields (job_scan E w j) (result_ok E (j_user j) (j_prefix j) w) (run k)"
  shows "yields (job_scan E w j) (result_ok E (j_user j) (j_prefix j) w) (resume_scan E R w j c run)"
  unfolding resume_scan_def
proof (rule yields_if, rule assms(2) [OF assms(1)], simp add: same_search_def, rule yields_bindS [OF yields_resume_file])
  fix x :: "scan_result + snapshot"
  assume x: "case x of Inl r \<Rightarrow> result_ok E (j_user j) (j_prefix j) w r | Inr sn \<Rightarrow> snapshot_ok E (j_user j) w sn"
  have "yields (job_scan E w j) (result_ok E (j_user j) (j_prefix j) w) (resume_checked E R j c sn run)"
    if sn: "snapshot_ok E (j_user j) w sn" for sn
    unfolding resume_checked_def
    by (intro yields_then [OF yields_modify] yields_if yields_raise yields_lift_then assms(2))
      (use assms(1) sn in \<open>simp_all add: job_ok_def same_search_def\<close>)
  then show "yields (job_scan E w j) (result_ok E (j_user j) (j_prefix j) w)
     (case x of Inl r \<Rightarrow> ret r | Inr sn \<Rightarrow> resume_checked E R j c sn run)"
    using x by (cases x) (simp_all add: yields_ret)
qed

lemma yields_grep_tree_target:
  assumes "job_ok E w j"
  shows "yields (job_scan E w j) (result_ok E (j_user j) (j_prefix j) w) (grep_tree_target E R w pattern target j inherited)"
  unfolding grep_tree_target_def Let_def
proof (intro yields_then [OF yields_late] yields_if yields_ret yields_lift_then yields_then [OF yields_modify] yields_option)
  show "job_scan E w j (initial_scan a b c (sc_ticks s))" for a b c s by (rule job_scan_initial)
  show "yields (job_scan E w j) (result_ok E (j_user j) (j_prefix j) w) (run_scan E R w j reads code)" for reads code
    by (rule yields_run_scan [OF assms])
  fix c :: grep_cursor
  let ?k = "j\<lparr>j_resume_path := grep_absolute_path (j_prefix j) (cu_path c)\<rparr>"
  have "yields (job_scan E w ?k) (result_ok E (j_user ?k) (j_prefix ?k) w)
      (resume_scan E R w ?k c (\<lambda>j. run_scan E R w j (g_reads R pattern target) (g_exit R pattern target)))"
  proof (rule yields_resume_scan)
    fix k assume "job_ok E w k" "same_search ?k k"
    then show "yields (job_scan E w ?k) (result_ok E (j_user ?k) (j_prefix ?k) w)
      (run_scan E R w k (g_reads R pattern target) (g_exit R pattern target))"
      using yields_run_scan [of E w k R] by (simp add: same_search_def)
  qed (use assms in \<open>simp add: job_ok_def\<close>)
  then show "yields (job_scan E w j) (result_ok E (j_user j) (j_prefix j) w)
      (resume_scan E R w ?k c (\<lambda>j. run_scan E R w j (g_reads R pattern target) (g_exit R pattern target)))" by simp
qed (simp_all add: result_ok_def)

lemma page_of_items:
  "grep_page_of ms why c = Inr page \<Longrightarrow> gp_items page = ms"
  "page_of_result cursor resume r = Inr page \<Longrightarrow> gp_items page = gs_matches r"
  "grep_timeout_page k = Inr page \<Longrightarrow> gp_items page = []"
proof -
  show p: "grep_page_of ms why c = Inr page \<Longrightarrow> gp_items page = ms" for ms why c
    by (auto simp: grep_page_of_def set_continuation_action_def split: if_splits)
  show "page_of_result cursor resume r = Inr page \<Longrightarrow> gp_items page = gs_matches r"
    using p by (auto simp: page_of_result_def Let_def bindE_def split: if_splits sum.splits)
  show "grep_timeout_page k = Inr page \<Longrightarrow> gp_items page = []"
    using p by (auto simp: grep_timeout_page_def bindE_def split: sum.splits)
qed

lemma yields_validate: "yields (scan_ok E user pfx w) (\<lambda>_. True) (validate_grep_pattern R pattern deadline)"
  unfolding validate_grep_pattern_def
  by (intro yields_lift_then yields_then [OF yields_late] yields_if yields_raise yields_option yields_ret) simp_all

abbreviation page_ok :: "env \<Rightarrow> str \<Rightarrow> str \<Rightarrow> world \<Rightarrow> grep_page \<Rightarrow> bool" where
  "page_ok E user pfx w page \<equiv> \<forall>m \<in> set (gp_items page). genuine E user pfx w m"

lemma yields_validated:
  "yields (scan_ok E user pfx w) (\<lambda>x. \<forall>page. x = Some page \<longrightarrow> page_ok E user pfx w page)
     (validated R pattern prefix_hash pattern_hash deadline decoded)"
  unfolding validated_def
  by (intro yields_catch_timeout yields_then [OF yields_validate] yields_lift_then yields_ret) (auto dest: page_of_items(3))

lemma yields_grep_files:
  "yields (scan_ok E user pfx w) (page_ok E user pfx w)
     (grep_files E R w user pattern pfx prefix_hash pattern_hash deadline limit cursor decoded)"
  unfolding grep_files_def
proof (intro yields_lift_then yields_if yields_raise)
  fix base target assume root: "user_root E user = Inr base"
  let ?j = "grep_job_of user pfx prefix_hash pattern_hash deadline limit base (resumption decoded)"
  have j: "job_ok E w ?j" "j_user ?j = user" "j_prefix ?j = pfx" using root by (simp_all add: job_ok_def grep_job_of_def)
  show "yields (scan_ok E user pfx w) (page_ok E user pfx w)
    (bindS (grep_tree_target E R w pattern target ?j (inherited_mismatch decoded)) (\<lambda>r.
     liftE (page_of_result cursor (resumption decoded) r)))"
    by (rule yields_bindS [OF yields_grep_tree_target [OF j(1), unfolded j(2,3)]], rule yields_liftE)
      (auto simp: result_ok_def dest: page_of_items(2))
qed (rule yields_liftE, auto dest: page_of_items(1))

lemma grep_genuine:
  assumes "grep E R user pattern pfx limit timeout_seconds cursor w = Inr page"
  shows "page_ok E user pfx w page"
proof -
  have y: "yields (scan_ok E user pfx w) (page_ok E user pfx w) (grep_action E R w user pattern pfx limit timeout_seconds cursor)"
    unfolding grep_action_def Let_def
  proof (intro yields_if yields_raise yields_lift_then)
    fix p data assume "optional_prefix pfx = Inr p"
    then have p: "p = pfx" by (auto simp: optional_prefix_def split: if_splits)
    show "yields (scan_ok E user pfx w) (page_ok E user pfx w)
     (bindS (deadline_after R timeout_seconds) (\<lambda>deadline.
      bindS (liftE (utf8_encode pattern)) (\<lambda>pattern_data.
      bindS (liftE (cursor_of cursor)) (\<lambda>decoded.
      if \<not> cursor_fits (sha256 E data) (sha256 E pattern_data) decoded
      then raise (ValueError ''ctxfs grep cursor does not match this search'') else
      bindS (validated R pattern (sha256 E data) (sha256 E pattern_data) deadline decoded) (\<lambda>early.
      case early of
        None \<Rightarrow> grep_files E R w user pattern p (sha256 E data) (sha256 E pattern_data) deadline limit cursor decoded
      | Some page \<Rightarrow> ret page)))))"
      unfolding p
    proof (rule yields_then, rule yieldsI, simp_all add: deadline_after_def del: bindS_simps, intro yields_lift_then yields_if yields_raise)
      fix deadline pattern_data decoded
      show "yields (scan_ok E user pfx w) (page_ok E user pfx w)
        (bindS (validated R pattern (sha256 E data) (sha256 E pattern_data) deadline decoded) (\<lambda>early.
          case early of
            None \<Rightarrow> grep_files E R w user pattern pfx (sha256 E data) (sha256 E pattern_data) deadline limit cursor decoded
          | Some page \<Rightarrow> ret page))"
        by (rule yields_bindS [OF yields_validated]) (auto intro!: yields_option yields_ret yields_grep_files)
    qed
  qed
  obtain r s where g: "grep_action E R w user pattern pfx limit timeout_seconds cursor (initial_scan False False False 0) = (r, s)"
    by force
  have "r = Inr page" using assms g by (simp add: grep_def)
  then show ?thesis by (rule yieldsD(2) [OF y _ g, rotated]) (rule job_scan_initial)
qed

section \<open>Code that looks only at the file being searched\<close>

definition never_late :: "ripgrep \<Rightarrow> rat \<Rightarrow> bool" where
  "never_late R deadline \<longleftrightarrow> (\<forall>n. g_clock R n < deadline)"

type_synonym 'a effect = "'a res \<times> snapshot option \<times> line_state option \<times> bool \<times> nat"

fun apply_effect :: "'a effect \<Rightarrow> nat \<Rightarrow> scan \<Rightarrow> 'a res \<times> scan" where
  "apply_effect (r, sn, lst, b, c) n s =
     (r, s\<lparr>sc_snapshot := sn, sc_lines := lst, sc_mismatch := (sc_mismatch s \<or> b), sc_files := sc_files s + c, sc_ticks := n\<rparr>)"

text \<open>The result and the changes depend on the snapshot and the line counter alone.\<close>

definition local :: "(scan, 'a) act \<Rightarrow> bool" where
  "local m \<longleftrightarrow> (\<exists>F. \<forall>s. \<exists>n. m s = apply_effect (F (sc_snapshot s) (sc_lines s)) n s)"

named_theorems local_rules \<open>code that looks only at the snapshot and the line counter\<close>

lemma localI: "(\<And>s. \<exists>n. m s = apply_effect (F (sc_snapshot s) (sc_lines s)) n s) \<Longrightarrow> local m"
  by (auto simp: local_def)

lemma localI':
  assumes "\<And>s. m s = apply_effect (F (sc_snapshot s) (sc_lines s)) (k s) s"
  shows "local m"
proof (rule localI)
  fix s
  show "\<exists>n. m s = apply_effect (F (sc_snapshot s) (sc_lines s)) n s" by (rule exI [of _ "k s"]) (rule assms)
qed

lemma local_bindS [local_rules]:
  assumes "local m" "\<And>x. local (f x)"
  shows "local (bindS m f)"
proof -
  obtain F where F: "\<And>s. \<exists>n. m s = apply_effect (F (sc_snapshot s) (sc_lines s)) n s" using assms(1) by (auto simp: local_def)
  obtain G where G: "\<And>x s. \<exists>n. f x s = apply_effect (G x (sc_snapshot s) (sc_lines s)) n s"
    using assms(2) unfolding local_def by metis
  define H where "H sn lst = (case F sn lst of
      (Inl e, sn', lst', b, c) \<Rightarrow> (Inl e, sn', lst', b, c)
    | (Inr x, sn', lst', b, c) \<Rightarrow> (case G x sn' lst' of (r, sn'', lst'', b', c') \<Rightarrow> (r, sn'', lst'', b \<or> b', c + c')))" for sn lst
  show ?thesis
  proof (rule localI [of _ H])
    fix s
    obtain n where n: "m s = apply_effect (F (sc_snapshot s) (sc_lines s)) n s" using F by blast
    obtain r sn lst b c where E: "F (sc_snapshot s) (sc_lines s) = (r, sn, lst, b, c)" by (cases "F (sc_snapshot s) (sc_lines s)")
    let ?s = "s\<lparr>sc_snapshot := sn, sc_lines := lst, sc_mismatch := (sc_mismatch s \<or> b), sc_files := sc_files s + c, sc_ticks := n\<rparr>"
    have m: "m s = (r, ?s)" using n by (simp add: E)
    show "\<exists>n. bindS m f s = apply_effect (H (sc_snapshot s) (sc_lines s)) n s"
    proof (cases r)
      case (Inl e)
      then show ?thesis by (intro exI [of _ n]) (simp add: bindS_def m H_def E)
    next
      case (Inr x)
      obtain k where k: "f x ?s = apply_effect (G x (sc_snapshot ?s) (sc_lines ?s)) k ?s" using G by blast
      obtain r' sn' lst' b' c' where E': "G x sn lst = (r', sn', lst', b', c')" by (cases "G x sn lst")
      show ?thesis using k
        by (intro exI [of _ k]) (simp add: bindS_def m Inr H_def E E' disj_assoc add.assoc)
    qed
  qed
qed

lemma local_pure: "(\<And>s. m s = (r, s)) \<Longrightarrow> local m"
  by (rule localI' [where F = "\<lambda>sn lst. (r, sn, lst, False, 0)" and k = sc_ticks]) simp

lemma local_basic [local_rules]: "local (ret x)" "local (raise e)" "local (liftE q)"
  by (rule local_pure, simp add: act_simps)+

lemma local_gets: "(\<And>s. g s = h (sc_snapshot s) (sc_lines s)) \<Longrightarrow> local (gets g)"
  by (rule localI' [where F = "\<lambda>sn lst. (Inr (h sn lst), sn, lst, False, 0)" and k = "sc_ticks"]) (simp add: act_simps)

lemma local_mismatch [local_rules]: "local (modify (\<lambda>s. s\<lparr>sc_mismatch := (sc_mismatch s \<or> b)\<rparr>))"
  by (rule localI' [where F = "\<lambda>sn lst. (Inr (), sn, lst, b, 0)" and k = "sc_ticks"]) (simp add: act_simps)

lemma local_lines [local_rules]: "local (modify (\<lambda>s. s\<lparr>sc_lines := l\<rparr>))"
  by (rule localI' [where F = "\<lambda>sn lst. (Inr (), sn, l, False, 0)" and k = "sc_ticks"]) (simp add: act_simps)

lemma local_snapshot [local_rules]: "local (modify (\<lambda>s. s\<lparr>sc_snapshot := n, sc_lines := l\<rparr>))"
  by (rule localI' [where F = "\<lambda>sn lst. (Inr (), n, l, False, 0)" and k = "sc_ticks"]) (simp add: act_simps)

lemma local_files [local_rules]: "local (modify (\<lambda>s. s\<lparr>sc_files := Suc (sc_files s)\<rparr>))"
  by (rule localI' [where F = "\<lambda>sn lst. (Inr (), sn, lst, False, 1)" and k = "sc_ticks"]) (simp add: act_simps)

lemma local_late: "never_late R d \<Longrightarrow> local (late R d)"
  by (rule localI' [where F = "\<lambda>sn lst. (Inr False, sn, lst, False, 0)" and k = "\<lambda>s. Suc (sc_ticks s)"]) (simp add: late_def never_late_def not_le)

lemma local_cases [local_rules]:
  "(c \<Longrightarrow> local m) \<Longrightarrow> (\<not> c \<Longrightarrow> local n) \<Longrightarrow> local (if c then m else n)"
  "local m \<Longrightarrow> (\<And>x. local (f x)) \<Longrightarrow> local (case y of None \<Rightarrow> m | Some x \<Rightarrow> f x)"
  "(\<And>a b. local (g a b)) \<Longrightarrow> local (case p of (a, b) \<Rightarrow> g a b)"
  "local m \<Longrightarrow> (\<And>x xs. local (k x xs)) \<Longrightarrow> local (case zs of [] \<Rightarrow> m | x # xs \<Rightarrow> k x xs)"
  by (simp_all split: option.split prod.split list.split)

lemma local_in_time: "never_late R d \<Longrightarrow> local (in_time R d n)"
  by (induction n) (auto intro!: local_rules local_late)

lemma local_snapshot_file: "never_late R d \<Longrightarrow> local (snapshot_grep_file E R w d user path l)"
  unfolding snapshot_grep_file_def
  by (cases "read_bytes (w_fs w) l"; cases "g_stats R l") (auto simp: Let_def intro!: local_rules local_in_time local_late)

lemma local_active_snapshot: "never_late R (j_deadline j) \<Longrightarrow> local (active_snapshot E R w j path parts)"
  unfolding active_snapshot_def
  by (intro local_rules local_gets local_snapshot_file) simp_all

lemma local_line_number: "never_late R d \<Longrightarrow> local (rg_line_number_matches R d data off n lst)"
  unfolding rg_line_number_matches_def Let_def by (intro local_rules local_in_time)

lemma local_verified: "never_late R d \<Longrightarrow> local (verified_grep_match R d event sn lst)"
  unfolding verified_grep_match_def
  by (intro local_rules local_line_number) (auto intro!: local_rules split: prod.split option.split)

text \<open>What a record of a match is found to be, before it is decided whether it is returned.\<close>

definition examine ::
  "env \<Rightarrow> ripgrep \<Rightarrow> world \<Rightarrow> grep_job \<Rightarrow> (str \<times> json) list \<Rightarrow> str \<Rightarrow> str list \<Rightarrow> (scan, (snapshot \<times> grep_match) option) act" where
  "examine E R w j event path parts =
     bindS (active_snapshot E R w j path parts) (\<lambda>sn.
     bindS (modify (\<lambda>s. s\<lparr>sc_mismatch := (sc_mismatch s \<or> sn_mismatch sn)\<rparr>)) (\<lambda>_.
     if \<not> sn_verified sn then ret None else
     bindS (gets (\<lambda>s. case sc_lines s of Some lst \<Rightarrow> lst | None \<Rightarrow> line_state_of (sn_data sn))) (\<lambda>lst.
     bindS (verified_grep_match R (j_deadline j) event sn lst) (\<lambda>m.
     case m of
       None \<Rightarrow> bindS (modify (\<lambda>s. s\<lparr>sc_mismatch := (sc_mismatch s \<or> True)\<rparr>)) (\<lambda>_. ret None)
     | Some m \<Rightarrow> ret (Some (sn, m))))))"

lemma local_examine: "never_late R (j_deadline j) \<Longrightarrow> local (examine E R w j event path parts)"
  unfolding examine_def
  by (intro local_rules local_active_snapshot local_verified) (simp_all add: local_gets)

lemma bindS_distrib:
  "bindS (if c then m else n) f = (if c then bindS m f else bindS n f)"
  "bindS (case y of None \<Rightarrow> a | Some x \<Rightarrow> b x) h = (case y of None \<Rightarrow> bindS a h | Some x \<Rightarrow> bindS (b x) h)"
  by (simp_all split: option.split)

lemma consume_match_examine:
  "consume_match E R w j event path parts =
     bindS (modify (\<lambda>s. s\<lparr>sc_active_path := Some path\<rparr>)) (\<lambda>_.
     bindS (gets sc_anchor_found) (\<lambda>found.
     if legacy_logical (j_resume j) \<and> path < j_resume_path j then ret None
     else if j_resume j \<noteq> None \<and> \<not> found \<and> \<not> legacy_logical (j_resume j) \<and> path \<noteq> j_resume_path j then ret None
     else bindS (examine E R w j event path parts) (\<lambda>x. case x of
         None \<Rightarrow> stop CATALOG_MISMATCH None
       | Some (sn, m) \<Rightarrow> accept_match E j found path sn m)))"
  unfolding consume_match_def examine_def
  by (simp add: bindS_assoc bindS_distrib cong: if_cong option.case_cong)

section \<open>Code that does not depend on how often the clock was read\<close>

definition insens :: "(scan, 'a) act \<Rightarrow> bool" where
  "insens m \<longleftrightarrow> (\<forall>s n. \<exists>k. m (s\<lparr>sc_ticks := n\<rparr>) = (fst (m s), (snd (m s))\<lparr>sc_ticks := k\<rparr>))"

named_theorems insens_rules \<open>code that does not depend on the number of clock readings\<close>

lemma insensD: "insens m \<Longrightarrow> m s = (r, s') \<Longrightarrow> \<exists>k. m (s\<lparr>sc_ticks := n\<rparr>) = (r, s'\<lparr>sc_ticks := k\<rparr>)"
  by (metis insens_def fst_conv snd_conv)

lemma insensI: "(\<And>s n r s'. m s = (r, s') \<Longrightarrow> \<exists>k. m (s\<lparr>sc_ticks := n\<rparr>) = (r, s'\<lparr>sc_ticks := k\<rparr>)) \<Longrightarrow> insens m"
  by (simp add: insens_def)

lemma local_insens:
  assumes "local m"
  shows "insens m"
proof (rule insensI)
  fix s n r s' assume m: "m s = (r, s')"
  obtain F where F: "\<And>s. \<exists>n. m s = apply_effect (F (sc_snapshot s) (sc_lines s)) n s" using assms by (auto simp: local_def)
  obtain q sn lst b c where e: "F (sc_snapshot s) (sc_lines s) = (q, sn, lst, b, c)" by (cases "F (sc_snapshot s) (sc_lines s)")
  obtain k1 where k1: "m s = apply_effect (q, sn, lst, b, c) k1 s" using F [of s] e by auto
  obtain k2 where k2: "m (s\<lparr>sc_ticks := n\<rparr>) = apply_effect (q, sn, lst, b, c) k2 (s\<lparr>sc_ticks := n\<rparr>)"
    using F [of "s\<lparr>sc_ticks := n\<rparr>"] e by auto
  show "\<exists>k. m (s\<lparr>sc_ticks := n\<rparr>) = (r, s'\<lparr>sc_ticks := k\<rparr>)"
    by (rule exI [of _ k2]) (use m k1 k2 in auto)
qed

lemma insens_bindS [insens_rules]:
  assumes "insens m" "\<And>x. insens (f x)"
  shows "insens (bindS m f)"
proof (rule insensI)
  fix s n r s' assume b: "bindS m f s = (r, s')"
  obtain q s1 where q: "m s = (q, s1)" by force
  obtain k where k: "m (s\<lparr>sc_ticks := n\<rparr>) = (q, s1\<lparr>sc_ticks := k\<rparr>)" using insensD [OF assms(1) q] by blast
  show "\<exists>k. bindS m f (s\<lparr>sc_ticks := n\<rparr>) = (r, s'\<lparr>sc_ticks := k\<rparr>)"
  proof (cases q)
    case (Inl e)
    then show ?thesis using b q k by (auto simp: bindS_def)
  next
    case (Inr x)
    then have "f x s1 = (r, s')" using b q by (simp add: bindS_def)
    then show ?thesis using insensD [OF assms(2)] k Inr by (simp add: bindS_def)
  qed
qed

lemma insens_basic [insens_rules]: "insens (ret x)" "insens (raise e)" "insens (liftE q)"
  by (auto simp: insens_def act_simps)

lemma insens_gets [insens_rules]: "(\<And>s n. g (s\<lparr>sc_ticks := n\<rparr>) = g s) \<Longrightarrow> insens (gets g)"
  by (auto simp: insens_def act_simps)

lemma insens_modify [insens_rules]: "(\<And>s n. f (s\<lparr>sc_ticks := n\<rparr>) = (f s)\<lparr>sc_ticks := n\<rparr>) \<Longrightarrow> insens (modify f)"
  by (auto simp: insens_def act_simps)

lemma insens_cases [insens_rules]:
  "(c \<Longrightarrow> insens m) \<Longrightarrow> (\<not> c \<Longrightarrow> insens n) \<Longrightarrow> insens (if c then m else n)"
  "insens a \<Longrightarrow> (\<And>x. insens (f x)) \<Longrightarrow> insens (case y of None \<Rightarrow> a | Some x \<Rightarrow> f x)"
  "(\<And>a b. insens (g a b)) \<Longrightarrow> insens (case p of (a, b) \<Rightarrow> g a b)"
  by (simp_all split: option.split prod.split)

lemma insens_stop [insens_rules]: "insens (stop why c)"
  unfolding stop_def by (intro insens_rules) (simp add: scan_result_of_def)

lemma insens_take_match [insens_rules]: "insens (take_match E j m)"
  unfolding take_match_def by (intro insens_rules) simp_all

lemma insens_legacy_match [insens_rules]: "insens (legacy_match j c path m)"
  unfolding legacy_match_def Let_def by (intro insens_rules) simp_all

lemma insens_accept [insens_rules]: "insens (accept_match E j found path sn m)"
  unfolding accept_match_def by (intro insens_rules) simp_all

lemma insens_consume_match:
  "never_late R (j_deadline j) \<Longrightarrow> insens (consume_match E R w j event path parts)"
  unfolding consume_match_examine by (intro insens_rules local_insens [OF local_examine]) simp_all

lemma insens_consume_record:
  "never_late R (j_deadline j) \<Longrightarrow> insens (consume_record E R w j raw)"
  unfolding consume_record_def
  by (intro insens_rules insens_consume_match) (simp_all add: begin_file_def end_file_def Let_def)

lemma insens_consume_all:
  "never_late R (j_deadline j) \<Longrightarrow> insens (consume_all E R w j raws)"
  by (induction raws) (auto intro!: insens_rules insens_consume_record)

section \<open>How the stream is cut does not matter\<close>

text \<open>The bytes read until the end of the stream, and its records.\<close>

fun stream :: "rg_read list \<Rightarrow> bytes" where
  "stream [] = []"
| "stream (Rg_Silent # reads) = []"
| "stream (Rg_Chunk chunk # reads) = (if chunk = [] then [] else chunk @ stream reads)"

definition records_of :: "bytes \<Rightarrow> bytes list" where
  "records_of bs = (let lines = split_on 10 bs in if last lines = [] then butlast lines else lines)"

lemma split_on_last: "split_on c (xs @ ys) = butlast (split_on c xs) @ split_on c (last (split_on c xs) @ ys)"
proof (induction xs)
  case Nil
  then show ?case by simp
next
  case (Cons x xs)
  obtain y zs where y: "split_on c xs = y # zs" by (cases "split_on c xs") auto
  show ?case
  proof (cases "x = c")
    case True
    then show ?thesis using Cons by simp
  next
    case False
    then show ?thesis using Cons by (cases zs) (auto simp: y split: list.split)
  qed
qed

lemma records_append: "records_of (xs @ ys) = butlast (split_on 10 xs) @ records_of (last (split_on 10 xs) @ ys)"
  unfolding records_of_def Let_def split_on_last [of 10 xs ys] by (simp add: butlast_append)

lemma records_of_Nil [simp]: "records_of [] = []"
  by (simp add: records_of_def)

lemma records_of_line: "10 \<notin> set p \<Longrightarrow> p \<noteq> [] \<Longrightarrow> records_of p = [p]"
  by (simp add: records_of_def split_on_id)

lemma records_of_long:
  assumes "10 \<notin> set p" "p \<noteq> []"
  shows "\<exists>q rest. records_of (p @ ys) = (p @ q) # rest"
proof -
  obtain z zs where z: "split_on 10 ys = z # zs" by (cases "split_on 10 ys") auto
  have "split_on 10 (p @ ys) = (p @ z) # zs" using assms(1) by (induction p) (auto simp: z)
  then show ?thesis using assms(2) by (cases zs) (auto simp: records_of_def Let_def)
qed

lemma consume_all_append:
  "consume_all E R w j (xs @ ys) = bindS (consume_all E R w j xs) (\<lambda>r. case r of Some x \<Rightarrow> ret (Some x) | None \<Rightarrow> consume_all E R w j ys)"
proof (induction xs)
  case Nil
  then show ?case by simp
next
  case (Cons x xs)
  then show ?case by (simp add: bindS_assoc bindS_distrib cong: option.case_cong)
qed

lemma split_on_clean: "x \<in> set (split_on c xs) \<Longrightarrow> c \<notin> set x"
  by (induction xs arbitrary: x) (auto split: list.splits if_splits)

lemma before_deadline_in_time:
  "never_late R (j_deadline j) \<Longrightarrow> before_deadline R j m s = m (s\<lparr>sc_ticks := Suc (sc_ticks s)\<rparr>)"
  by (simp add: before_deadline_def late_def bindS_def never_late_def not_le [symmetric] del: not_le)

lemma insens_tick:
  assumes "insens m"
  shows "\<exists>k. m (s\<lparr>sc_ticks := n\<rparr>) = (fst (m s), (snd (m s))\<lparr>sc_ticks := k\<rparr>)"
  by (rule insensD [OF assms]) simp

lemma insens_fst: "insens m \<Longrightarrow> fst (m (s\<lparr>sc_ticks := n\<rparr>)) = fst (m s)"
  by (metis fst_conv insens_tick)

text \<open>Outcomes that differ only in how often the clock was read.\<close>

definition alike :: "'a res \<times> scan \<Rightarrow> 'a res \<times> scan \<Rightarrow> bool" where
  "alike x y \<longleftrightarrow> fst x = fst y \<and> (\<exists>k. snd x = (snd y)\<lparr>sc_ticks := k\<rparr>)"

lemma alike_insens:
  assumes "insens m"
  shows "alike (m (s\<lparr>sc_ticks := n\<rparr>)) (m s)"
proof -
  obtain k where "m (s\<lparr>sc_ticks := n\<rparr>) = (fst (m s), (snd (m s))\<lparr>sc_ticks := k\<rparr>)" using insens_tick [OF assms] by blast
  then show ?thesis by (auto simp: alike_def)
qed

lemma alike_bindS:
  assumes "alike (m s) (m' s')" "\<And>x u n. alike (f x (u\<lparr>sc_ticks := n\<rparr>)) (f' x u)"
  shows "alike (bindS m f s) (bindS m' f' s')"
proof -
  obtain r u r' u' where r: "m s = (r, u)" "m' s' = (r', u')" by force
  then obtain k where k: "r = r'" "u = u'\<lparr>sc_ticks := k\<rparr>" using assms(1) by (auto simp: alike_def)
  show ?thesis using assms(2) by (cases r') (auto simp: bindS_def r k alike_def)
qed

lemma alike_in_time:
  assumes "never_late R (j_deadline j)" "\<And>n. alike (m (s\<lparr>sc_ticks := n\<rparr>)) y"
  shows "alike (before_deadline R j m (s\<lparr>sc_ticks := n\<rparr>)) y"
  using assms(2) [of "Suc n"] by (simp add: before_deadline_in_time [OF assms(1)])

lemma alike_last_record:
  assumes "never_late R (j_deadline j)" "10 \<notin> set pending"
  shows "alike (last_record E R w j pending (s\<lparr>sc_ticks := n\<rparr>)) (consume_all E R w j (records_of pending) s)"
  unfolding last_record_def
proof (rule alike_in_time [OF assms(1)])
  fix n
  have one: "bindS (consume_record E R w j pending) (\<lambda>r. case r of Some x \<Rightarrow> ret (Some x) | None \<Rightarrow> ret None) = consume_record E R w j pending"
    by (rule ext) (simp add: bindS_def ret_def split: sum.split prod.split option.split)
  show "alike ((if pending = [] then ret None else consume_record E R w j pending) (s\<lparr>sc_ticks := n\<rparr>)) (consume_all E R w j (records_of pending) s)"
    using one alike_insens [OF insens_consume_record [OF assms(1)]] assms(2)
    by (cases "pending = []") (simp_all add: records_of_line alike_def ret_def exI [of _ n])
qed

lemma alike_long:
  assumes "GREP_MAX_JSON_RECORD_BYTES < int (length line)" "10 \<notin> set line"
  shows "alike (stop MAX_BYTES None (s\<lparr>sc_ticks := n\<rparr>)) (consume_all E R w j (records_of (line @ rest)) s)"
proof -
  have "line \<noteq> []" using assms(1) by (auto simp: GREP_MAX_JSON_RECORD_BYTES_def)
  then obtain q more' where q: "records_of (line @ rest) = (line @ q) # more'" using records_of_long [OF assms(2)] by blast
  have "GREP_MAX_JSON_RECORD_BYTES < int (length (line @ q))" using assms(1) by simp
  then have "consume_all E R w j (records_of (line @ rest)) s = stop MAX_BYTES None s"
    unfolding q consume_all.simps consume_record_def by (simp add: bindS_def stop_def act_simps)
  then show ?thesis using alike_insens [OF insens_stop] by simp
qed

lemma read_records_alike:
  assumes "never_late R (j_deadline j)" "Rg_Silent \<notin> set reads" "10 \<notin> set pending"
  shows "alike (read_records E R w j pending reads (s\<lparr>sc_ticks := n\<rparr>)) (consume_all E R w j (records_of (pending @ stream reads)) s)"
  using assms(2,3)
proof (induction reads arbitrary: pending s n)
  case Nil
  then show ?case using alike_last_record [OF assms(1)] by simp
next
  case (Cons r reads)
  then obtain chunk where r: "r = Rg_Chunk chunk" by (cases r) auto
  show ?case
  proof (cases "chunk = []")
    case True
    then show ?thesis using alike_last_record [OF assms(1) Cons.prems(2)] r by simp
  next
    case False
    let ?lines = "split_on 10 (pending @ chunk)"
    have clean: "10 \<notin> set (last ?lines)" by (rule split_on_clean [of _ _ "pending @ chunk"]) simp
    have recs: "records_of (pending @ stream (r # reads)) = butlast ?lines @ records_of (last ?lines @ stream reads)"
      using False r records_append [of "pending @ chunk" "stream reads"] by simp
    have rest: "alike ((case x of Some y \<Rightarrow> ret (Some y)
        | None \<Rightarrow> if GREP_MAX_JSON_RECORD_BYTES < int (length (last ?lines)) then stop MAX_BYTES None
            else read_records E R w j (last ?lines) reads) (u\<lparr>sc_ticks := n\<rparr>))
      ((case x of Some y \<Rightarrow> ret (Some y) | None \<Rightarrow> consume_all E R w j (records_of (last ?lines @ stream reads))) u)" for x u n
    proof (cases x)
      case None
      have "alike (read_records E R w j (last ?lines) reads (u\<lparr>sc_ticks := n\<rparr>)) (consume_all E R w j (records_of (last ?lines @ stream reads)) u)"
        by (rule Cons.IH) (use Cons.prems clean in auto)
      then show ?thesis using None alike_long [OF _ clean] by simp
    qed (auto simp: alike_def ret_def)
    note cut = recs [unfolded r]
    show ?thesis
      unfolding r cut consume_all_append read_records.simps Let_def if_not_P [OF False]
      by (intro alike_in_time [OF assms(1)] alike_bindS rest alike_insens [OF insens_consume_all [OF assms(1)]])
  qed
qed

lemma insens_timed_out: "insens (timed_out E j)"
  unfolding timed_out_def by (intro insens_rules) (simp_all add: timeout_cursor_def scan_result_of_def split: option.split)

lemma insens_finish: "insens (finish_scan E j code)"
  unfolding finish_scan_def rg_failed_def by (intro insens_rules) (simp_all add: scan_result_of_def)

lemma alike_catch:
  assumes "alike (m s) (m' s')" "insens h"
  shows "alike (catch_timeout m h s) (catch_timeout m' h s')"
proof -
  obtain r u r' u' where r: "m s = (r, u)" "m' s' = (r', u')" by force
  then obtain k where k: "r = r'" "u = u'\<lparr>sc_ticks := k\<rparr>" using assms(1) by (auto simp: alike_def)
  show ?thesis
  proof (cases r')
    case (Inl e)
    then show ?thesis using alike_insens [OF assms(2), where s = u' and n = k]
      by (cases e) (auto simp: catch_timeout_def catchS_def raise_def r k alike_def)
  qed (auto simp: catch_timeout_def catchS_def r k alike_def)
qed

lemma alike_sym: "alike x y \<Longrightarrow> alike y x"
  unfolding alike_def by (metis scan.surjective scan.update_convs(11))

lemma alike_trans: "alike x y \<Longrightarrow> alike y z \<Longrightarrow> alike x z"
  by (auto simp: alike_def)

text \<open>A scan depends on the bytes it reads, not on how they are cut.\<close>

lemma run_scan_cut:
  assumes "never_late R (j_deadline j)" "Rg_Silent \<notin> set reads" "Rg_Silent \<notin> set reads'" "stream reads = stream reads'"
  shows "fst (run_scan E R w j reads code s) = fst (run_scan E R w j reads' code s)"
proof -
  have s: "s = s\<lparr>sc_ticks := sc_ticks s\<rparr>" by simp
  have one: "alike (read_records E R w j [] reads s) (read_records E R w j [] reads' s)"
    using read_records_alike [OF assms(1,2), where pending = "[]" and E = E and w = w and s = s and n = "sc_ticks s"]
      read_records_alike [OF assms(1,3), where pending = "[]" and E = E and w = w and s = s and n = "sc_ticks s"] assms(4)
    by (auto intro: alike_trans alike_sym)
  have "alike (run_scan E R w j reads code s) (run_scan E R w j reads' code s)"
    unfolding run_scan_def
  proof (rule alike_bindS)
    have "alike (bindS (read_records E R w j [] reads) (\<lambda>r. ret (Inr r :: scan_result + scan_result option)) s)
      (bindS (read_records E R w j [] reads') (\<lambda>r. ret (Inr r)) s)"
      by (rule alike_bindS [where m = "read_records E R w j [] reads" and m' = "read_records E R w j [] reads'", OF one]) (auto simp: alike_def ret_def)
    then show "alike (catch_timeout (bindS (read_records E R w j [] reads) (\<lambda>r. ret (Inr r))) (bindS (timed_out E j) (\<lambda>r. ret (Inl r))) s)
      (catch_timeout (bindS (read_records E R w j [] reads') (\<lambda>r. ret (Inr r))) (bindS (timed_out E j) (\<lambda>r. ret (Inl r))) s)"
      by (rule alike_catch) (intro insens_rules insens_timed_out)
  next
    fix x :: "scan_result + scan_result option" and u :: scan and n :: nat
    have "insens (case x of Inl r \<Rightarrow> ret r | Inr None \<Rightarrow> (case code of None \<Rightarrow> timed_out E j | Some code \<Rightarrow> finish_scan E j code)
      | Inr (Some r) \<Rightarrow> ret r)"
      by (auto split: sum.split option.split intro!: insens_rules insens_timed_out insens_finish)
    then show "alike ((case x of Inl r \<Rightarrow> ret r | Inr None \<Rightarrow> (case code of None \<Rightarrow> timed_out E j | Some code \<Rightarrow> finish_scan E j code)
      | Inr (Some r) \<Rightarrow> ret r) (u\<lparr>sc_ticks := n\<rparr>)) ((case x of Inl r \<Rightarrow> ret r
      | Inr None \<Rightarrow> (case code of None \<Rightarrow> timed_out E j | Some code \<Rightarrow> finish_scan E j code) | Inr (Some r) \<Rightarrow> ret r) u)"
      by (rule alike_insens)
  qed
  then show ?thesis by (simp add: alike_def)
qed

end
