(* ===== verification/PageLimits.thy ===== *)
theory PageLimits
  imports Searching
begin

text \<open>
  A page of a search holds no more matches than the limit, and a cursor comes only with a page that the
  limit or the timeout has cut off.
\<close>

section \<open>A page holds no more than the limit\<close>

text \<open>Code that takes no match, and code that stops as soon as there are \<open>n\<close> of them.\<close>

definition steady :: "(scan, 'a) act \<Rightarrow> bool" where
  "steady m \<longleftrightarrow> (\<forall>ms. yields (\<lambda>s. sc_matches s = ms) (\<lambda>_. True) m)"

definition fills :: "nat \<Rightarrow> (scan, scan_result option) act \<Rightarrow> bool" where
  "fills n m \<longleftrightarrow> (\<forall>s r s'. length (sc_matches s) < n \<longrightarrow> m s = (r, s') \<longrightarrow> length (sc_matches s') \<le> n \<and>
     (case r of Inr None \<Rightarrow> length (sc_matches s') < n | Inr (Some x) \<Rightarrow> length (gs_matches x) \<le> n | Inl _ \<Rightarrow> True))"

definition within_limit :: "nat \<Rightarrow> (scan, scan_result) act \<Rightarrow> bool" where
  "within_limit n m \<longleftrightarrow> (\<forall>s x s'. length (sc_matches s) \<le> n \<longrightarrow> m s = (Inr x, s') \<longrightarrow> length (gs_matches x) \<le> n)"

named_theorems steady_rules \<open>code that takes no match\<close>
named_theorems fills_rules \<open>code that stops at the limit\<close>

lemma steadyD: "steady m \<Longrightarrow> m s = (r, s') \<Longrightarrow> sc_matches s' = sc_matches s"
  unfolding steady_def by (drule spec [of _ "sc_matches s"]) (erule yieldsD(1), simp_all)

lemma steady_modify [steady_rules]: "(\<And>s. sc_matches (f s) = sc_matches s) \<Longrightarrow> steady (modify f)"
  unfolding steady_def by (intro allI yields_modify) simp

lemma steady_basic [steady_rules]: "steady (ret x)" "steady (raise e)" "steady (liftE q)" "steady (gets g)"
  unfolding steady_def by (intro allI yields_ret yields_raise yields_liftE yields_gets TrueI)+

lemma steady_bindS [steady_rules]: "steady m \<Longrightarrow> (\<And>x. steady (f x)) \<Longrightarrow> steady (bindS m f)"
  unfolding steady_def by (intro allI yields_then) simp_all

lemma steady_cases [steady_rules]:
  "(c \<Longrightarrow> steady m) \<Longrightarrow> (\<not> c \<Longrightarrow> steady k) \<Longrightarrow> steady (if c then m else k)"
  "steady m \<Longrightarrow> (\<And>x. steady (f x)) \<Longrightarrow> steady (case y of None \<Rightarrow> m | Some x \<Rightarrow> f x)"
  "(\<And>a b. steady (g a b)) \<Longrightarrow> steady (case p of (a, b) \<Rightarrow> g a b)"
  "steady m \<Longrightarrow> (\<And>x xs. steady (h x xs)) \<Longrightarrow> steady (case zs of [] \<Rightarrow> m | x # xs \<Rightarrow> h x xs)"
  by (simp_all split: option.split prod.split list.split)

lemma steady_late [steady_rules]: "steady (late R d)"
  unfolding steady_def by (intro allI yieldsI) (auto simp: late_def)

lemma steady_in_time [steady_rules]: "steady (in_time R d n)"
  by (induction n) (simp_all, (intro steady_rules | assumption)+)

lemma steady_snapshot [steady_rules]: "steady (snapshot_grep_file E R w d user path l)"
  unfolding snapshot_grep_file_def
  by (cases "read_bytes (w_fs w) l"; cases "g_stats R l") (auto simp: Let_def intro!: steady_rules)

lemma steady_active_snapshot [steady_rules]: "steady (active_snapshot E R w j path parts)"
  unfolding active_snapshot_def by (intro steady_rules) simp_all

lemma steady_verified [steady_rules]: "steady (verified_grep_match R d event sn lst)"
  unfolding verified_grep_match_def rg_line_number_matches_def Let_def
  by (intro steady_rules) (simp_all add: steady_rules split: prod.split option.split)

lemma steady_legacy_match [steady_rules]: "steady (legacy_match j c path m)"
  unfolding legacy_match_def Let_def by (intro steady_rules) simp_all

lemma fillsD: "fills n m \<Longrightarrow> length (sc_matches s) < n \<Longrightarrow> m s = (r, s') \<Longrightarrow> length (sc_matches s') \<le> n \<and>
     (case r of Inr None \<Rightarrow> length (sc_matches s') < n | Inr (Some x) \<Rightarrow> length (gs_matches x) \<le> n | Inl _ \<Rightarrow> True)"
  unfolding fills_def by blast

lemma fills_bindS [fills_rules]:
  assumes "steady m" "\<And>x. fills n (f x)"
  shows "fills n (bindS m f)"
  unfolding fills_def
proof (intro allI impI)
  fix s r s' assume s: "length (sc_matches s) < n" "bindS m f s = (r, s')"
  obtain q s1 where q: "m s = (q, s1)" by force
  have l: "length (sc_matches s1) < n" using steadyD [OF assms(1) q] s(1) by simp
  show "length (sc_matches s') \<le> n \<and>
     (case r of Inr None \<Rightarrow> length (sc_matches s') < n | Inr (Some x) \<Rightarrow> length (gs_matches x) \<le> n | Inl _ \<Rightarrow> True)"
    by (cases q) (use s q l fillsD [OF assms(2) l] in \<open>auto simp: bindS_def\<close>)
qed

lemma fills_basic [fills_rules]: "fills n (ret None)" "fills n (raise e)" "fills n (stop why c)"
  by (auto simp: fills_def act_simps stop_def scan_result_of_def)

lemma fills_cases [fills_rules]:
  "(c \<Longrightarrow> fills n m) \<Longrightarrow> (\<not> c \<Longrightarrow> fills n k) \<Longrightarrow> fills n (if c then m else k)"
  "fills n m \<Longrightarrow> (\<And>x. fills n (f x)) \<Longrightarrow> fills n (case y of None \<Rightarrow> m | Some x \<Rightarrow> f x)"
  "(\<And>a b. fills n (g a b)) \<Longrightarrow> fills n (case p of (a, b) \<Rightarrow> g a b)"
  by (simp_all split: option.split prod.split)

lemma fills_then:
  assumes "fills n m" "fills n k"
  shows "fills n (bindS m (\<lambda>r. case r of Some x \<Rightarrow> ret (Some x) | None \<Rightarrow> k))"
  unfolding fills_def
proof (intro allI impI)
  fix s r s' assume s: "length (sc_matches s) < n" "bindS m (\<lambda>r. case r of Some x \<Rightarrow> ret (Some x) | None \<Rightarrow> k) s = (r, s')"
  obtain q s1 where q: "m s = (q, s1)" by force
  note f = fillsD [OF assms(1) s(1) q]
  show "length (sc_matches s') \<le> n \<and>
     (case r of Inr None \<Rightarrow> length (sc_matches s') < n | Inr (Some x) \<Rightarrow> length (gs_matches x) \<le> n | Inl _ \<Rightarrow> True)"
  proof (cases "q = Inr None")
    case True
    then show ?thesis using f q s(2) fillsD [OF assms(2), of s1 r s'] by (simp add: bindS_def)
  next
    case False
    then show ?thesis using f q s(2) by (cases q) (auto simp: bindS_def ret_def)
  qed
qed

lemma fills_take_match [fills_rules]: "j_limit j = n \<Longrightarrow> fills n (take_match E j m)"
  unfolding fills_def take_match_def stop_def
  by (auto simp: bindS_def act_simps scan_result_of_def split: if_splits sum.splits)

lemma fills_steady: "steady m \<Longrightarrow> (\<And>s r s'. m s = (r, s') \<Longrightarrow> r = Inr None \<or> isl r) \<Longrightarrow> fills n m"
  unfolding fills_def by (fastforce dest: steadyD simp: isl_def)

lemma legacy_match_None: "legacy_match j c path m s = (r, s') \<Longrightarrow> r = Inr None \<or> isl r"
  by (auto simp: legacy_match_def bindS_def act_simps Let_def split: if_splits)

lemma fills_accept [fills_rules]: "j_limit j = n \<Longrightarrow> fills n (accept_match E j found path sn m)"
  unfolding accept_match_def
  by (intro fills_rules steady_rules fills_steady [OF steady_legacy_match legacy_match_None]) simp_all

lemma fills_consume_match [fills_rules]: "j_limit j = n \<Longrightarrow> fills n (consume_match E R w j event path parts)"
  unfolding consume_match_def by (intro fills_rules steady_rules) simp_all

lemma fills_consume_record [fills_rules]: "j_limit j = n \<Longrightarrow> fills n (consume_record E R w j raw)"
  unfolding consume_record_def
  by (intro fills_rules steady_rules) (simp_all add: begin_file_def end_file_def Let_def)

lemma fills_consume_all: "j_limit j = n \<Longrightarrow> fills n (consume_all E R w j raws)"
  by (induction raws) (auto intro!: fills_then fills_basic fills_consume_record)

lemma fills_before_deadline [fills_rules]: "fills n m \<Longrightarrow> fills n (before_deadline R j m)"
  unfolding before_deadline_def by (intro fills_rules steady_rules)

lemma fills_last_record [fills_rules]: "j_limit j = n \<Longrightarrow> fills n (last_record E R w j pending)"
  unfolding last_record_def by (intro fills_rules)

lemma fills_read_records: "j_limit j = n \<Longrightarrow> fills n (read_records E R w j pending reads)"
proof (induction E R w j pending reads rule: read_records.induct)
  case (3 E R w j pending chunk reads)
  have "fills n (read_records E R w j (last (split_on 10 (pending @ chunk))) reads)" if "chunk \<noteq> []"
      "\<not> GREP_MAX_JSON_RECORD_BYTES < int (length (last (split_on 10 (pending @ chunk))))"
    by (rule 3(1) [OF that(1) refl that(2) 3(2)])
  then show ?case unfolding read_records.simps Let_def
    by (intro fills_rules fills_then fills_consume_all 3(2)) simp_all
qed (simp_all, (intro fills_rules | assumption)+)

lemma within_timed_out: "within_limit n (timed_out E j)"
  by (auto simp: within_limit_def timed_out_def bindS_def act_simps scan_result_of_def split: if_splits sum.splits)

lemma within_finish: "j_limit j = n \<Longrightarrow> within_limit n (finish_scan E j code)"
  by (auto simp: within_limit_def finish_scan_def rg_failed_def bindS_def act_simps scan_result_of_def split: if_splits sum.splits)

lemma catch_timeout_cases:
  assumes "catch_timeout m h s = (Inr x, s')"
  obtains "m s = (Inr x, s')" | e s1 where "m s = (Inl e, s1)" "h s1 = (Inr x, s')"
proof -
  obtain r s1 where r: "m s = (r, s1)" by force
  show thesis
  proof (cases r)
    case (Inl e)
    then have "h s1 = (Inr x, s')" using assms r by (cases e) (auto simp: catch_timeout_def catchS_def act_simps)
    then show thesis using that(2) r Inl by blast
  next
    case (Inr y)
    then show thesis using that(1) assms r by (simp add: catch_timeout_def catchS_def)
  qed
qed

lemma within_run_scan:
  assumes "j_limit j = n" "0 < n" "sc_matches s = []" "run_scan E R w j reads code s = (Inr x, s')"
  shows "length (gs_matches x) \<le> n"
proof -
  let ?attempt = "bindS (read_records E R w j [] reads) (\<lambda>r. ret (Inr r))"
  obtain y s1 where y: "catch_timeout ?attempt (bindS (timed_out E j) (\<lambda>r. ret (Inl r))) s = (Inr y, s1)"
      "(case y of Inl r \<Rightarrow> ret r | Inr None \<Rightarrow> (case code of None \<Rightarrow> timed_out E j | Some code \<Rightarrow> finish_scan E j code)
        | Inr (Some r) \<Rightarrow> ret r) s1 = (Inr x, s')"
    using assms(4) by (auto simp: run_scan_def bindS_Inr_iff)
  obtain q s2 where q: "read_records E R w j [] reads s = (q, s2)" by force
  note f = fillsD [OF fills_read_records [OF assms(1)] _ q]
  have f: "length (sc_matches s2) \<le> n" "\<And>r. q = Inr (Some r) \<Longrightarrow> length (gs_matches r) \<le> n"
    using f assms(2,3) by auto
  from y(1) show ?thesis
  proof (cases rule: catch_timeout_cases)
    case 1
    then have "y = Inr (projr q)" "s1 = s2" "\<not> isl q" using q by (cases q; auto simp: bindS_def ret_def)+
    then show ?thesis using y(2) f within_timed_out [of n E j] within_finish [OF assms(1), of E "the code"]
      by (cases q) (auto simp: within_limit_def ret_def split: option.splits)
  next
    case (2 e s3)
    then have "s3 = s2" using q by (cases q) (auto simp: bindS_def ret_def)
    then obtain r where r: "timed_out E j s2 = (Inr r, s1)" "y = Inl r" using 2 by (auto simp: bindS_Inr_iff ret_def)
    have "length (gs_matches r) \<le> n" using within_timed_out [of n E j] r(1) f(1) by (auto simp: within_limit_def)
    then show ?thesis using y(2) r(2) by (simp add: ret_def)
  qed
qed

lemma within_resume_file:
  assumes "resume_file E R w j c s = (Inr x, s')"
  shows "sc_matches s' = sc_matches s" "\<And>r. x = Inl r \<Longrightarrow> gs_matches r = []"
proof -
  obtain l where l: "catch_timeout
       (bindS (snapshot_grep_file E R w (j_deadline j) (j_user j) (j_resume_path j) l) (\<lambda>sn. ret (Inr sn)))
       (gets (\<lambda>s. Inl \<lparr>gs_matches = [], gs_stopped_by = Some TIMEOUT, gs_anchor_found = False, gs_next_cursor = Some c,
                      gs_mismatch = False, gs_files = 0\<rparr>)) s = (Inr x, s')"
    using assms by (auto simp: resume_file_def bindS_Inr_iff liftE_def)
  have st: "steady (bindS (snapshot_grep_file E R w (j_deadline j) (j_user j) (j_resume_path j) l) (\<lambda>sn. ret (Inr sn :: scan_result + snapshot)))"
    by (intro steady_rules)
  from l have "sc_matches s' = sc_matches s \<and> (\<forall>r. x = Inl r \<longrightarrow> gs_matches r = [])"
  proof (cases rule: catch_timeout_cases)
    case 1
    then show ?thesis using steadyD [OF st 1] by (auto simp: bindS_Inr_iff ret_def)
  next
    case (2 e s1)
    then show ?thesis using steadyD [OF st 2(1)] by (auto simp: gets_def)
  qed
  then show "sc_matches s' = sc_matches s" "\<And>r. x = Inl r \<Longrightarrow> gs_matches r = []" by simp_all
qed

lemma within_resume_scan:
  assumes "\<And>k s x s'. j_limit k = j_limit j \<Longrightarrow> sc_matches s = [] \<Longrightarrow> run k s = (Inr x, s') \<Longrightarrow> length (gs_matches x) \<le> n"
    and "sc_matches s = []" "resume_scan E R w j c run s = (Inr x, s')"
  shows "length (gs_matches x) \<le> n"
proof (cases "\<not> legacy_logical (Some c) \<and> \<not> legacy_file_start (Some c)")
  case True
  then show ?thesis using assms(1) [OF refl assms(2)] assms(3) by (simp add: resume_scan_def)
next
  case False
  then obtain y s1 where y: "resume_file E R w j c s = (Inr y, s1)"
      "(case y of Inl r \<Rightarrow> ret r | Inr sn \<Rightarrow> resume_checked E R j c sn run) s1 = (Inr x, s')"
    using assms(3) by (auto simp: resume_scan_def bindS_Inr_iff)
  show ?thesis
  proof (cases y)
    case (Inl r)
    then show ?thesis using within_resume_file(2) [OF y(1)] y(2) by (simp add: ret_def)
  next
    case (Inr sn)
    then obtain k s2 where k: "run k s2 = (Inr x, s')" "j_limit k = j_limit j" "sc_matches s2 = []"
      using y(2) within_resume_file(1) [OF y(1)] assms(2)
      by (auto simp: resume_checked_def bindS_Inr_iff modify_def liftE_def raise_def split: if_splits)
    then show ?thesis using assms(1) by blast
  qed
qed

lemma within_tree_target:
  assumes "0 < j_limit j" "grep_tree_target E R w pattern target j inherited s = (Inr x, s')"
  shows "length (gs_matches x) \<le> j_limit j"
proof -
  obtain l s1 where l: "late R (j_deadline j) s = (Inr l, s1)" by (simp add: late_def)
  show ?thesis
  proof (cases l)
    case True
    then show ?thesis using assms(2) l by (auto simp: grep_tree_target_def bindS_def ret_def)
  next
    case False
    let ?run = "\<lambda>j. run_scan E R w j (g_reads R pattern target) (g_exit R pattern target)"
    let ?s = "initial_scan (j_resume j = None) inherited (\<not> legacy_file_start (j_resume j)) (sc_ticks s1)"
    have s2: "sc_matches ?s = []"
        "(case j_resume j of None \<Rightarrow> ?run j
          | Some c \<Rightarrow> resume_scan E R w (j\<lparr>j_resume_path := grep_absolute_path (j_prefix j) (cu_path c)\<rparr>) c ?run) ?s = (Inr x, s')"
      using assms(2) l False by (auto simp: grep_tree_target_def bindS_Inr_iff modify_def liftE_def initial_scan_def Let_def)
    have run: "length (gs_matches x) \<le> j_limit j" if "j_limit k = j_limit j" "sc_matches s = []" "?run k s = (Inr x, s')" for k s x s'
      by (rule within_run_scan [OF that(1) assms(1) that(2,3)])
    show ?thesis
    proof (cases "j_resume j")
      case None
      then show ?thesis using run [OF refl s2(1)] s2(2) by simp
    next
      case (Some c)
      let ?k = "j\<lparr>j_resume_path := grep_absolute_path (j_prefix j) (cu_path c)\<rparr>"
      have "resume_scan E R w ?k c ?run ?s = (Inr x, s')" using s2(2) Some by simp
      then show ?thesis by (rule within_resume_scan [OF _ s2(1), rotated]) (use run in simp)
    qed
  qed
qed

lemma validated_items:
  assumes "validated R pattern prefix_hash pattern_hash deadline decoded s = (Inr (Some page), s')"
  shows "gp_items page = []"
proof -
  have "catch_timeout (bindS (validate_grep_pattern R pattern deadline) (\<lambda>_. ret None))
       (bindS (liftE (grep_timeout_page (case decoded of Some c \<Rightarrow> c
           | None \<Rightarrow> grep_search_start_cursor prefix_hash pattern_hash False))) (\<lambda>page. ret (Some page))) s = (Inr (Some page), s')"
    using assms by (simp add: validated_def)
  then show ?thesis
  proof (cases rule: catch_timeout_cases)
    case 1
    then show ?thesis by (auto simp: bindS_Inr_iff ret_def)
  next
    case (2 e s1)
    then show ?thesis by (auto simp: bindS_Inr_iff ret_def liftE_def dest: page_of_items(3))
  qed
qed

lemma within_grep_files:
  assumes "0 < limit" "grep_files E R w user pattern pfx prefix_hash pattern_hash deadline limit cursor decoded s = (Inr page, s')"
  shows "length (gp_items page) \<le> nat limit"
proof -
  obtain base target where t: "(if \<not> fs_exists (w_fs w) target
     then (if resumption decoded \<noteq> None then raise stale
           else liftE (grep_page_of [] (if inherited_mismatch decoded then Some CATALOG_MISMATCH else None) None))
     else
       bindS (grep_tree_target E R w pattern target
         (grep_job_of user pfx prefix_hash pattern_hash deadline limit base (resumption decoded))
         (inherited_mismatch decoded)) (\<lambda>r.
       liftE (page_of_result cursor (resumption decoded) r))) s = (Inr page, s')"
    using assms(2) unfolding grep_files_def bindS_Inr_iff liftE_def by auto
  show ?thesis
  proof (cases "fs_exists (w_fs w) target")
    case False
    then show ?thesis using t by (auto simp: raise_def liftE_def dest: page_of_items(1) split: if_splits)
  next
    case True
    let ?j = "grep_job_of user pfx prefix_hash pattern_hash deadline limit base (resumption decoded)"
    obtain r s1 where r: "grep_tree_target E R w pattern target ?j (inherited_mismatch decoded) s = (Inr r, s1)"
        "page_of_result cursor (resumption decoded) r = Inr page"
      using t True by (auto simp: bindS_Inr_iff liftE_def)
    have "j_limit ?j = nat limit" by (simp add: grep_job_of_def)
    then show ?thesis using within_tree_target [OF _ r(1)] assms(1) page_of_items(2) [OF r(2)] by simp
  qed
qed

lemma grep_within_limit:
  assumes "grep E R user pattern pfx limit timeout_seconds cursor w = Inr page"
  shows "int (length (gp_items page)) \<le> limit"
proof (cases "limit \<le> 0")
  case True
  then show ?thesis using assms by (simp add: grep_def grep_action_def raise_def)
next
  case False
  obtain r s where "grep_action E R w user pattern pfx limit timeout_seconds cursor (initial_scan False False False 0) = (r, s)"
    by force
  then have s: "grep_action E R w user pattern pfx limit timeout_seconds cursor (initial_scan False False False 0) = (Inr page, s)"
    using assms by (simp add: grep_def)
  obtain p ph qh deadline decoded early s1 s2 where v:
    "validated R pattern ph qh deadline decoded s1 = (Inr early, s2)"
    "(case early of Some page \<Rightarrow> ret page
      | None \<Rightarrow> grep_files E R w user pattern p ph qh deadline limit cursor decoded) s2 = (Inr page, s)"
    using s False unfolding grep_action_def bindS_Inr_iff liftE_def Let_def
    by (auto simp: raise_def bindS_Inr_iff split: if_splits)
  show ?thesis
  proof (cases early)
    case None
    then show ?thesis using within_grep_files [OF _ v(2) [unfolded None option.case]] False by simp
  next
    case (Some x)
    then show ?thesis using v False validated_items by (auto simp: ret_def)
  qed
qed

section \<open>A cursor comes with the limit or the timeout\<close>

definition resumable :: "scan_result \<Rightarrow> bool" where
  "resumable r \<longleftrightarrow> (gs_next_cursor r \<noteq> None \<longrightarrow> gs_stopped_by r \<in> {Some LIMIT, Some TIMEOUT})"

abbreviation gives :: "('a \<Rightarrow> bool) \<Rightarrow> (scan, 'a) act \<Rightarrow> bool" where
  "gives \<equiv> yields (\<lambda>_. True)"

abbreviation stops_well :: "(scan, scan_result option) act \<Rightarrow> bool" where
  "stops_well \<equiv> gives (\<lambda>x. \<forall>r. x = Some r \<longrightarrow> resumable r)"

lemma gives_any: "gives (\<lambda>_. True) m"
  by (rule yieldsI) simp_all

lemma gives_then: "(\<And>x. gives Q (f x)) \<Longrightarrow> gives Q (bindS m f)"
  by (rule yields_then [OF gives_any])

lemmas gives_rules = gives_then yields_ret yields_raise yields_if yields_option yields_prod yields_gets

lemma stops_well_stop: "c = None \<or> why \<in> {LIMIT, TIMEOUT} \<Longrightarrow> stops_well (stop why c)"
  unfolding stop_def by (rule yields_gets) (auto simp: resumable_def scan_result_of_def)

lemma stops_well_record: "stops_well (consume_record E R w j raw)"
  unfolding consume_record_def consume_match_def accept_match_def take_match_def legacy_match_def Let_def
  by (intro gives_rules stops_well_stop) simp_all

lemma stops_well_all: "stops_well (consume_all E R w j raws)"
proof (induction raws)
  case (Cons raw raws)
  show ?case unfolding consume_all.simps
    by (rule yields_bindS [OF stops_well_record]) (intro yields_option Cons yields_ret, simp)
qed (simp add: yields_ret)

lemma stops_well_read: "stops_well (read_records E R w j pending reads)"
proof (induction E R w j pending reads rule: read_records.induct)
  case (1 E R w j pending)
  show ?case unfolding read_records.simps last_record_def before_deadline_def
    by (intro gives_rules stops_well_record) simp
next
  case (2 E R w j pending reads)
  show ?case unfolding read_records.simps before_deadline_def by (intro gives_rules)
next
  case (3 E R w j pending chunk reads)
  have rest: "stops_well (bindS (consume_all E R w j (butlast (split_on 10 (pending @ chunk)))) (\<lambda>r. case r of
          Some x \<Rightarrow> ret (Some x)
        | None \<Rightarrow>
            if GREP_MAX_JSON_RECORD_BYTES < int (length (last (split_on 10 (pending @ chunk)))) then stop MAX_BYTES None
            else read_records E R w j (last (split_on 10 (pending @ chunk))) reads))" if "chunk \<noteq> []"
    by (rule yields_bindS [OF stops_well_all])
      (intro yields_option yields_if yields_ret stops_well_stop 3(1) [OF that refl], simp_all)
  show ?case unfolding read_records.simps last_record_def before_deadline_def Let_def
    by (intro gives_rules stops_well_record rest) simp_all
qed

lemma gives_timed_out: "gives resumable (timed_out E j)"
  unfolding timed_out_def by (intro gives_rules) (simp_all add: resumable_def scan_result_of_def)

lemma gives_finish: "gives resumable (finish_scan E j code)"
  unfolding finish_scan_def rg_failed_def
  by (intro gives_rules yields_liftE) (simp_all add: resumable_def scan_result_of_def)

lemma gives_run_scan: "gives resumable (run_scan E R w j reads code)"
  unfolding run_scan_def
proof (rule yields_bindS [where Q = "\<lambda>x. case x of Inl r \<Rightarrow> resumable r | Inr y \<Rightarrow> \<forall>r. y = Some r \<longrightarrow> resumable r"])
  show "gives (\<lambda>x. case x of Inl r \<Rightarrow> resumable r | Inr y \<Rightarrow> \<forall>r. y = Some r \<longrightarrow> resumable r)
    (catch_timeout (bindS (read_records E R w j [] reads) (\<lambda>r. ret (Inr r))) (bindS (timed_out E j) (\<lambda>r. ret (Inl r))))"
    by (rule yields_catch_timeout) (rule yields_bindS [OF stops_well_read] yields_bindS [OF gives_timed_out], rule yields_ret, simp)+
next
  fix x :: "scan_result + scan_result option"
  assume "case x of Inl r \<Rightarrow> resumable r | Inr y \<Rightarrow> \<forall>r. y = Some r \<longrightarrow> resumable r"
  then show "gives resumable (case x of Inl r \<Rightarrow> ret r
      | Inr None \<Rightarrow> (case code of None \<Rightarrow> timed_out E j | Some code \<Rightarrow> finish_scan E j code)
      | Inr (Some r) \<Rightarrow> ret r)"
    by (auto split: sum.split option.split intro!: yields_ret gives_timed_out gives_finish)
qed

lemma gives_resume_scan:
  assumes "\<And>k. gives resumable (run k)"
  shows "gives resumable (resume_scan E R w j c run)"
  unfolding resume_scan_def
proof (rule yields_if, rule assms, rule yields_bindS [where Q = "\<lambda>x. \<forall>r. x = Inl r \<longrightarrow> resumable r"])
  show "gives (\<lambda>x. \<forall>r. x = Inl r \<longrightarrow> resumable r) (resume_file E R w j c)"
    unfolding resume_file_def by (intro gives_then yields_catch_timeout yields_ret yields_gets) (simp_all add: resumable_def)
  show "gives resumable (case x of Inl r \<Rightarrow> ret r | Inr sn \<Rightarrow> resume_checked E R j c sn run)" if "\<forall>r. x = Inl r \<longrightarrow> resumable r" for x
  proof (cases x)
    case (Inl r)
    then show ?thesis using that by (simp add: yields_ret)
  next
    case (Inr sn)
    show ?thesis unfolding Inr sum.case resume_checked_def by (intro gives_rules assms)
  qed
qed

lemma gives_tree_target: "gives resumable (grep_tree_target E R w pattern target j inherited)"
  unfolding grep_tree_target_def Let_def
  by (intro gives_rules gives_run_scan gives_resume_scan) (simp add: resumable_def)

text \<open>On a page with a cursor the search stopped at the limit or by the timeout; only a complete page did not stop.\<close>

definition page_resumable :: "grep_page \<Rightarrow> bool" where
  "page_resumable page \<longleftrightarrow> (gp_next_cursor page \<noteq> None \<longrightarrow> gp_stopped_by page \<in> {Some LIMIT, Some TIMEOUT}) \<and>
     (gp_complete page \<longleftrightarrow> gp_stopped_by page = None)"

lemma grep_page_resumable:
  "grep_page_of ms why c = Inr page \<Longrightarrow> c = None \<or> why \<in> {Some LIMIT, Some TIMEOUT} \<Longrightarrow> page_resumable page"
  by (auto simp: grep_page_of_def set_continuation_action_def page_resumable_def split: if_splits)

lemma page_of_result_resumable: "page_of_result cursor resume r = Inr page \<Longrightarrow> resumable r \<Longrightarrow> page_resumable page"
  by (auto simp: page_of_result_def Let_def bindE_def resumable_def elim!: grep_page_resumable split: if_splits sum.splits option.splits)

lemma gives_page: "(\<And>page. q = Inr page \<Longrightarrow> page_resumable page) \<Longrightarrow> gives page_resumable (liftE q)"
  by (rule yields_liftE)

lemma gives_validated: "gives (\<lambda>x. \<forall>page. x = Some page \<longrightarrow> page_resumable page) (validated R pattern ph qh deadline decoded)"
  unfolding validated_def
proof (rule yields_catch_timeout)
  show "gives (\<lambda>x. \<forall>page. x = Some page \<longrightarrow> page_resumable page)
      (bindS (validate_grep_pattern R pattern deadline) (\<lambda>_. ret None))" by (intro gives_rules) simp
  show "gives (\<lambda>x. \<forall>page. x = Some page \<longrightarrow> page_resumable page)
    (bindS (liftE (grep_timeout_page (case decoded of Some c \<Rightarrow> c | None \<Rightarrow> grep_search_start_cursor ph qh False))) (\<lambda>page. ret (Some page)))"
    by (rule yields_lift_then, rule yields_ret) (auto simp: grep_timeout_page_def bindE_def elim!: grep_page_resumable split: sum.splits)
qed

lemma gives_grep_files: "gives page_resumable (grep_files E R w user pattern pfx ph qh deadline limit cursor decoded)"
  unfolding grep_files_def
  by (intro gives_then yields_if yields_raise yields_bindS [OF gives_tree_target] gives_page)
    (auto elim!: grep_page_resumable dest: page_of_result_resumable)

lemma grep_resumable:
  assumes "grep E R user pattern pfx limit timeout_seconds cursor w = Inr page"
  shows "page_resumable page"
proof -
  have y: "gives page_resumable (grep_action E R w user pattern pfx limit timeout_seconds cursor)"
    unfolding grep_action_def Let_def
    by (intro gives_then yields_if yields_raise yields_bindS [OF gives_validated] yields_option gives_grep_files yields_ret) simp
  obtain r s where g: "grep_action E R w user pattern pfx limit timeout_seconds cursor (initial_scan False False False 0) = (r, s)"
    by force
  have "r = Inr page" using assms g by (simp add: grep_def)
  then show ?thesis by (rule yieldsD(2) [OF y _ g, rotated]) simp
qed

end
