(* ===== verification/Paging.thy ===== *)
theory Paging
  imports PageLimits
begin

text \<open>
  The pages of a search put together are the search: with the cursor of a page that stopped at the limit
  the next page begins right behind it. The proof runs the search with the higher limit and its
  continuation side by side, first up to the match of the cursor, of which the continuation looks at
  nothing but the file it is in, then in lockstep.
\<close>

section \<open>Two scans side by side\<close>

text \<open>Two outcomes agree: so do the results, and the states are related.\<close>

definition agree ::
  "('s \<Rightarrow> 's \<Rightarrow> bool) \<Rightarrow> ('a \<Rightarrow> 'b \<Rightarrow> bool) \<Rightarrow> 'a res \<times> 's \<Rightarrow> 'b res \<times> 's \<Rightarrow> bool" where
  "agree Rel P x y \<longleftrightarrow> rel_sum (=) P (fst x) (fst y) \<and> Rel (snd x) (snd y)"

definition sim ::
  "('s \<Rightarrow> 's \<Rightarrow> bool) \<Rightarrow> ('a \<Rightarrow> 'b \<Rightarrow> bool) \<Rightarrow> ('s, 'a) act \<Rightarrow> ('s, 'b) act \<Rightarrow> bool" where
  "sim Rel P m m' \<longleftrightarrow> (\<forall>s s'. Rel s s' \<longrightarrow> agree Rel P (m s) (m' s'))"

named_theorems sim_rules \<open>code that keeps two scans related\<close>

lemma agree_bindS:
  assumes "agree Rel P (m s) (m' s')" "\<And>x x'. P x x' \<Longrightarrow> sim Rel Q (f x) (f' x')"
  shows "agree Rel Q (bindS m f s) (bindS m' f' s')"
proof -
  obtain r t r' t' where r: "m s = (r, t)" "m' s' = (r', t')" by force
  then have a: "rel_sum (=) P r r'" "Rel t t'" using assms(1) by (simp_all add: agree_def)
  show ?thesis
  proof (cases r)
    case (Inl e)
    then show ?thesis using a r by (cases r') (simp_all add: bindS_def agree_def)
  next
    case (Inr x)
    then obtain x' where "r' = Inr x'" "P x x'" using a by (cases r') simp_all
    then show ?thesis using assms(2) a r Inr by (simp add: bindS_def sim_def)
  qed
qed

lemma sim_bindS: "sim Rel P m m' \<Longrightarrow> (\<And>x x'. P x x' \<Longrightarrow> sim Rel Q (f x) (f' x')) \<Longrightarrow> sim Rel Q (bindS m f) (bindS m' f')"
  unfolding sim_def [of Rel P] sim_def [of Rel Q "bindS m f"] by (blast intro: agree_bindS)

lemma sim_then [sim_rules]: "sim Rel (=) m m' \<Longrightarrow> (\<And>x. sim Rel Q (f x) (f' x)) \<Longrightarrow> sim Rel Q (bindS m f) (bindS m' f')"
  by (erule sim_bindS) simp

lemma sim_ret [sim_rules]: "P x x' \<Longrightarrow> sim Rel P (ret x) (ret x')"
  by (simp add: sim_def agree_def act_simps)

lemma sim_raise [sim_rules]: "sim Rel P (raise e) (raise e)"
  by (simp add: sim_def agree_def act_simps)

lemma sim_liftE [sim_rules]: "sim Rel (=) (liftE q) (liftE q)"
  by (cases q) (simp_all add: sim_def agree_def act_simps)

lemma sim_gets [sim_rules]: "(\<And>s s'. Rel s s' \<Longrightarrow> P (g s) (g' s')) \<Longrightarrow> sim Rel P (gets g) (gets g')"
  by (simp add: sim_def agree_def act_simps)

lemma sim_modify [sim_rules]: "(\<And>s s'. Rel s s' \<Longrightarrow> Rel (f s) (f' s')) \<Longrightarrow> sim Rel (=) (modify f) (modify f')"
  by (simp add: sim_def agree_def act_simps)

lemma sim_cases [sim_rules]:
  "(c \<Longrightarrow> sim Rel P m m') \<Longrightarrow> (\<not> c \<Longrightarrow> sim Rel P k k') \<Longrightarrow> sim Rel P (if c then m else k) (if c then m' else k')"
  "sim Rel P m m' \<Longrightarrow> (\<And>x. sim Rel P (f x) (f' x)) \<Longrightarrow>
    sim Rel P (case y of None \<Rightarrow> m | Some x \<Rightarrow> f x) (case y of None \<Rightarrow> m' | Some x \<Rightarrow> f' x)"
  "(\<And>a b. sim Rel P (g a b) (g' a b)) \<Longrightarrow> sim Rel P (case p of (a, b) \<Rightarrow> g a b) (case p of (a, b) \<Rightarrow> g' a b)"
  by (simp_all split: option.split prod.split)

lemma sim_catch_timeout:
  assumes "agree Rel P (m s) (m' s')" "sim Rel P h h'"
  shows "agree Rel P (catch_timeout m h s) (catch_timeout m' h' s')"
proof -
  obtain r t r' t' where r: "m s = (r, t)" "m' s' = (r', t')" by force
  then have a: "rel_sum (=) P r r'" "Rel t t'" using assms(1) by (simp_all add: agree_def)
  show ?thesis
  proof (cases r)
    case (Inl e)
    then have "r' = Inl e" using a by (cases r') simp_all
    then show ?thesis using r Inl a assms(2) by (cases e) (auto simp: catch_timeout_def catchS_def raise_def agree_def sim_def)
  next
    case (Inr x)
    then obtain x' where "r' = Inr x'" "P x x'" using a by (cases r') simp_all
    then show ?thesis using a r Inr by (simp add: catch_timeout_def catchS_def agree_def)
  qed
qed

text \<open>One scan is the other with \<open>ms\<close> taken before it began; files and clock readings are counted apart.\<close>

definition shifted :: "grep_match list \<Rightarrow> scan \<Rightarrow> scan \<Rightarrow> bool" where
  "shifted ms s s' \<longleftrightarrow> sc_anchor_found s \<and> sc_matches s = ms @ sc_matches s' \<and>
     s' = s\<lparr>sc_matches := sc_matches s', sc_files := sc_files s', sc_ticks := sc_ticks s'\<rparr>"

lemma shiftedD:
  assumes "shifted ms s s'"
  shows "sc_anchor_found s" "sc_anchor_found s'" "sc_active_path s' = sc_active_path s" "sc_snapshot s' = sc_snapshot s"
    "sc_lines s' = sc_lines s" "sc_last s' = sc_last s" "sc_mismatch s' = sc_mismatch s" "sc_replayed s' = sc_replayed s"
    "sc_candidates s' = sc_candidates s" "sc_matches s = ms @ sc_matches s'"
proof -
  let ?t = "s\<lparr>sc_matches := sc_matches s', sc_files := sc_files s', sc_ticks := sc_ticks s'\<rparr>"
  have s: "sc_anchor_found s" "sc_matches s = ms @ sc_matches s'" "s' = ?t" using assms by (simp_all add: shifted_def)
  have "f s' = f ?t" for f :: "scan \<Rightarrow> 'a" by (rule arg_cong [OF s(3)])
  note e = this
  show "sc_anchor_found s" "sc_matches s = ms @ sc_matches s'" by (rule s)+
  show "sc_anchor_found s'" "sc_active_path s' = sc_active_path s" "sc_snapshot s' = sc_snapshot s"
    "sc_lines s' = sc_lines s" "sc_last s' = sc_last s" "sc_mismatch s' = sc_mismatch s" "sc_replayed s' = sc_replayed s"
    "sc_candidates s' = sc_candidates s"
    by (subst s(3), simp add: s(1))+
qed

lemma shiftedI:
  "sc_anchor_found s \<Longrightarrow> sc_anchor_found s' \<Longrightarrow> sc_matches s = ms @ sc_matches s' \<Longrightarrow> sc_active_path s' = sc_active_path s \<Longrightarrow>
   sc_snapshot s' = sc_snapshot s \<Longrightarrow> sc_lines s' = sc_lines s \<Longrightarrow> sc_last s' = sc_last s \<Longrightarrow> sc_mismatch s' = sc_mismatch s \<Longrightarrow>
   sc_replayed s' = sc_replayed s \<Longrightarrow> sc_candidates s' = sc_candidates s \<Longrightarrow> shifted ms s s'"
  unfolding shifted_def by (cases s; cases s') simp

lemma sim_local:
  assumes "local m"
  shows "sim (shifted ms) (=) m m"
  unfolding sim_def
proof (intro allI impI)
  fix s s' assume r: "shifted ms s s'"
  obtain F where F: "\<And>s. \<exists>n. m s = apply_effect (F (sc_snapshot s) (sc_lines s)) n s" using assms by (auto simp: local_def)
  obtain q sn lst b c where e: "F (sc_snapshot s) (sc_lines s) = (q, sn, lst, b, c)" by (cases "F (sc_snapshot s) (sc_lines s)")
  obtain k where k: "m s = apply_effect (q, sn, lst, b, c) k s" using F [of s] e by auto
  obtain k' where k': "m s' = apply_effect (q, sn, lst, b, c) k' s'" using F [of s'] e shiftedD [OF r] by auto
  show "agree (shifted ms) (=) (m s) (m s')"
    unfolding k k' by (auto simp: agree_def sum.rel_refl shiftedD [OF r] intro!: shiftedI)
qed

text \<open>The jobs of a search and of its continuation.\<close>

definition same_job :: "grep_job \<Rightarrow> grep_job \<Rightarrow> bool" where
  "same_job j j' \<longleftrightarrow> j_user j' = j_user j \<and> j_prefix j' = j_prefix j \<and> j_prefix_hash j' = j_prefix_hash j \<and>
     j_pattern_hash j' = j_pattern_hash j \<and> j_deadline j' = j_deadline j \<and> j_root j' = j_root j"

text \<open>The continuation at a match: \<open>c\<close> is its cursor.\<close>

definition continues :: "grep_job \<Rightarrow> grep_cursor \<Rightarrow> grep_job \<Rightarrow> bool" where
  "continues j c j' \<longleftrightarrow> same_job j j' \<and> j_resume j = None \<and> j_resume j' = Some c \<and> cu_version c = 3 \<and> cu_mode c = AFTER_MATCH"

lemma continues_simps:
  assumes "continues j c j'"
  shows "j_resume j = None" "j_resume j' = Some c" "\<not> legacy_logical (j_resume j)" "\<not> legacy_logical (j_resume j')"
    "\<not> legacy_file_start (j_resume j)" "\<not> legacy_file_start (j_resume j')" "cu_mode c \<noteq> FILE_START"
    "j_user j' = j_user j" "j_prefix j' = j_prefix j" "j_prefix_hash j' = j_prefix_hash j"
     "j_pattern_hash j' = j_pattern_hash j" "j_deadline j' = j_deadline j" "j_root j' = j_root j"
  using assms by (simp_all add: continues_def same_job_def legacy_logical_def legacy_file_start_def)

lemma same_jobD:
  assumes "same_job j j'"
  shows "j_user j' = j_user j" "j_prefix j' = j_prefix j" "j_deadline j' = j_deadline j" "j_root j' = j_root j"
  using assms by (simp_all add: same_job_def)

lemma examine_same: "same_job j j' \<Longrightarrow> examine E R w j' event path parts = examine E R w j event path parts"
  by (simp only: examine_def active_snapshot_def same_jobD)

lemma record_place_same: "same_job j j' \<Longrightarrow> record_place R j' event_path = record_place R j event_path"
  by (simp only: record_place_def same_jobD)

text \<open>Results of the two scans.\<close>

definition shifted_result :: "grep_match list \<Rightarrow> scan_result \<Rightarrow> scan_result \<Rightarrow> bool" where
  "shifted_result ms r r' \<longleftrightarrow> gs_matches r = ms @ gs_matches r' \<and> gs_stopped_by r' = gs_stopped_by r \<and>
     gs_anchor_found r \<and> gs_anchor_found r' \<and> gs_next_cursor r' = gs_next_cursor r \<and> gs_mismatch r' = gs_mismatch r"

lemma shifted_result_of: "shifted ms s s' \<Longrightarrow> shifted_result ms (scan_result_of why c s) (scan_result_of why c s')"
  by (simp add: shifted_result_def scan_result_of_def shiftedD)

lemma sim_stop [sim_rules]: "sim (shifted ms) (rel_option (shifted_result ms)) (stop why c) (stop why c)"
  unfolding stop_def by (rule sim_gets) (simp add: shifted_result_of)

lemma sim_take_match:
  assumes "continues j c j'" "j_limit j = length ms + j_limit j'"
  shows "sim (shifted ms) (rel_option (shifted_result ms)) (take_match E j m) (take_match E j' m)"
  unfolding take_match_def continues_simps [OF assms(1)]
proof (rule sim_then)
  show "sim (shifted ms) (=) (modify (\<lambda>s. s\<lparr>sc_matches := sc_matches s @ [m], sc_last := Some m\<rparr>))
      (modify (\<lambda>s. s\<lparr>sc_matches := sc_matches s @ [m], sc_last := Some m\<rparr>))"
    by (rule sim_modify) (auto simp: shiftedD intro: shiftedI)
  fix x :: unit
  show "sim (shifted ms) (rel_option (shifted_result ms))
      (bindS (gets (\<lambda>s. (length (sc_matches s), sc_mismatch s))) (\<lambda>(n, mismatch).
        if j_limit j \<le> n then bindS (liftE (grep_cursor_for_match E (j_prefix j) (j_pattern_hash j) m mismatch AFTER_MATCH)) (\<lambda>c. stop LIMIT (Some c))
        else ret None))
      (bindS (gets (\<lambda>s. (length (sc_matches s), sc_mismatch s))) (\<lambda>(n, mismatch).
        if j_limit j' \<le> n then bindS (liftE (grep_cursor_for_match E (j_prefix j) (j_pattern_hash j) m mismatch AFTER_MATCH)) (\<lambda>c. stop LIMIT (Some c))
        else ret None))"
  proof (rule sim_bindS [where P = "\<lambda>(n, b) (n', b'). n = length ms + n' \<and> b = b'"])
    show "sim (shifted ms) (\<lambda>(n, b) (n', b'). n = length ms + n' \<and> b = b')
      (gets (\<lambda>s. (length (sc_matches s), sc_mismatch s))) (gets (\<lambda>s. (length (sc_matches s), sc_mismatch s)))"
      by (rule sim_gets) (simp add: shiftedD)
  qed (auto simp: assms(2) intro!: sim_rules)
qed

lemma sim_accept:
  assumes "continues j c j'" "j_limit j = length ms + j_limit j'"
  shows "sim (shifted ms) (rel_option (shifted_result ms)) (accept_match E j True path sn m) (accept_match E j' True path sn m)"
  using sim_take_match [OF assms] continues_simps [OF assms(1)] by (simp add: accept_match_def)

lemma sim_consume_match:
  assumes "continues j c j'" "j_limit j = length ms + j_limit j'" "never_late R (j_deadline j)"
  shows "sim (shifted ms) (rel_option (shifted_result ms)) (consume_match E R w j event path parts) (consume_match E R w j' event path parts)"
proof -
  have ex: "examine E R w j' event path parts = examine E R w j event path parts"
    using assms(1) by (intro examine_same) (simp add: continues_def)
  show ?thesis
    unfolding consume_match_examine ex
  proof (rule sim_then)
    show "sim (shifted ms) (=) (modify (\<lambda>s. s\<lparr>sc_active_path := Some path\<rparr>)) (modify (\<lambda>s. s\<lparr>sc_active_path := Some path\<rparr>))"
      by (rule sim_modify) (auto simp: shiftedD intro: shiftedI)
  next
    fix x :: unit
    show "sim (shifted ms) (rel_option (shifted_result ms))
     (bindS (gets sc_anchor_found) (\<lambda>found.
     if legacy_logical (j_resume j) \<and> path < j_resume_path j then ret None
     else if j_resume j \<noteq> None \<and> \<not> found \<and> \<not> legacy_logical (j_resume j) \<and> path \<noteq> j_resume_path j then ret None
     else bindS (examine E R w j event path parts) (\<lambda>x. case x of
         None \<Rightarrow> stop CATALOG_MISMATCH None
       | Some (sn, m) \<Rightarrow> accept_match E j found path sn m)))
     (bindS (gets sc_anchor_found) (\<lambda>found.
     if legacy_logical (j_resume j') \<and> path < j_resume_path j' then ret None
     else if j_resume j' \<noteq> None \<and> \<not> found \<and> \<not> legacy_logical (j_resume j') \<and> path \<noteq> j_resume_path j' then ret None
     else bindS (examine E R w j event path parts) (\<lambda>x. case x of
         None \<Rightarrow> stop CATALOG_MISMATCH None
       | Some (sn, m) \<Rightarrow> accept_match E j' found path sn m)))"
    proof (rule sim_bindS [where P = "\<lambda>a b. a \<and> b"])
      show "sim (shifted ms) (\<lambda>a b. a \<and> b) (gets sc_anchor_found) (gets sc_anchor_found)"
        by (rule sim_gets) (simp add: shiftedD)
      fix a b assume "a \<and> b"
      then show "sim (shifted ms) (rel_option (shifted_result ms))
       (if legacy_logical (j_resume j) \<and> path < j_resume_path j then ret None
       else if j_resume j \<noteq> None \<and> \<not> a \<and> \<not> legacy_logical (j_resume j) \<and> path \<noteq> j_resume_path j then ret None
       else bindS (examine E R w j event path parts) (\<lambda>x. case x of
           None \<Rightarrow> stop CATALOG_MISMATCH None
         | Some (sn, m) \<Rightarrow> accept_match E j a path sn m))
       (if legacy_logical (j_resume j') \<and> path < j_resume_path j' then ret None
       else if j_resume j' \<noteq> None \<and> \<not> b \<and> \<not> legacy_logical (j_resume j') \<and> path \<noteq> j_resume_path j' then ret None
       else bindS (examine E R w j event path parts) (\<lambda>x. case x of
           None \<Rightarrow> stop CATALOG_MISMATCH None
         | Some (sn, m) \<Rightarrow> accept_match E j' b path sn m))"
        using continues_simps [OF assms(1)]
        by (simp, intro sim_then sim_local [OF local_examine [OF assms(3)]] sim_cases sim_stop sim_accept [OF assms(1,2)])
    qed
  qed
qed

lemma begin_file_plain:
  "\<not> legacy_logical (j_resume j) \<Longrightarrow> \<not> legacy_file_start (j_resume j) \<Longrightarrow>
   begin_file j path full s = s\<lparr>sc_active_path := Some path, sc_snapshot := None, sc_lines := None\<rparr>"
  by (simp add: begin_file_def)

lemma begin_file_continues:
  "continues j c j' \<Longrightarrow> begin_file j path full s = s\<lparr>sc_active_path := Some path, sc_snapshot := None, sc_lines := None\<rparr>"
  "continues j c j' \<Longrightarrow> begin_file j' path full s = s\<lparr>sc_active_path := Some path, sc_snapshot := None, sc_lines := None\<rparr>"
  by (rule begin_file_plain, erule continues_simps, erule continues_simps)+

lemma sim_consume_record:
  assumes "continues j c j'" "j_limit j = length ms + j_limit j'" "never_late R (j_deadline j)"
  shows "sim (shifted ms) (rel_option (shifted_result ms)) (consume_record E R w j raw) (consume_record E R w j' raw)"
proof -
  have rp: "record_place R j' p = record_place R j p" for p
    using assms(1) by (intro record_place_same) (simp add: continues_def)
  show ?thesis
    unfolding consume_record_def rp
    apply (simp only: continues_simps(5,6) [OF assms(1)] simp_thms if_False)
    apply (intro sim_rules sim_consume_match [OF assms])
         apply (auto simp: shiftedD begin_file_continues [OF assms(1)] end_file_def intro: shiftedI)
    done
qed

lemma sim_consume_all:
  assumes "continues j c j'" "j_limit j = length ms + j_limit j'" "never_late R (j_deadline j)"
  shows "sim (shifted ms) (rel_option (shifted_result ms)) (consume_all E R w j raws) (consume_all E R w j' raws)"
proof (induction raws)
  case (Cons raw raws)
  show ?case unfolding consume_all.simps
  proof (rule sim_bindS [OF sim_consume_record [OF assms]])
    fix x x' assume "rel_option (shifted_result ms) x x'"
    then show "sim (shifted ms) (rel_option (shifted_result ms)) (case x of None \<Rightarrow> consume_all E R w j raws | Some x \<Rightarrow> ret (Some x))
      (case x' of None \<Rightarrow> consume_all E R w j' raws | Some x \<Rightarrow> ret (Some x))"
      by (cases x; cases x') (simp_all add: Cons sim_ret)
  qed
qed (simp add: sim_ret)

section \<open>What a record is\<close>

datatype seen = Too_Long | Failed exn | Ignored | Begins str | Ends str | Matches "(str \<times> json) list" str "str list"

definition kind_of_record :: "ripgrep \<Rightarrow> grep_job \<Rightarrow> bytes \<Rightarrow> seen" where
  "kind_of_record R j raw =
     (if GREP_MAX_JSON_RECORD_BYTES < int (length raw) then Too_Long else
      case parse_record raw of
        Inl e \<Rightarrow> Failed e
      | Inr event \<Rightarrow>
          (case rg_event_path event of
             Inl e \<Rightarrow> Failed e
           | Inr None \<Rightarrow> Ignored
           | Inr (Some event_path) \<Rightarrow>
               (case record_place R j event_path of
                  Inl e \<Rightarrow> Failed e
                | Inr (full, path, parts) \<Rightarrow>
                    if json_text (json_get event ''type'') = Some (lit ''begin'') then Begins path
                    else if json_text (json_get event ''type'') = Some (lit ''end'') then Ends path
                    else Matches event path parts)))"

definition at_file :: "str \<Rightarrow> scan \<Rightarrow> scan" where
  "at_file path s = s\<lparr>sc_replayed := True, sc_active_path := Some path\<rparr>"

text \<open>A scan that does not replay an old cursor.\<close>

lemma consume_record_kind:
  assumes "\<not> legacy_logical (j_resume j)" "\<not> legacy_file_start (j_resume j)"
  shows "consume_record E R w j raw s =
     (case kind_of_record R j raw of
        Too_Long \<Rightarrow> stop MAX_BYTES None s
      | Failed e \<Rightarrow> (Inl e, s)
      | Ignored \<Rightarrow> (Inr None, s)
      | Begins path \<Rightarrow> (Inr None, (at_file path s)\<lparr>sc_snapshot := None, sc_lines := None\<rparr>)
      | Ends path \<Rightarrow> (Inr None, end_file path (s\<lparr>sc_replayed := True\<rparr>))
      | Matches event path parts \<Rightarrow> consume_match E R w j event path parts (s\<lparr>sc_replayed := True\<rparr>))"
  using assms
  by (auto simp: consume_record_def kind_of_record_def bindS_def act_simps begin_file_plain at_file_def split: sum.split option.split prod.split)

lemma consume_match_start:
  "consume_match E R w j event path parts s =
     (if legacy_logical (j_resume j) \<and> path < j_resume_path j then (Inr None, s\<lparr>sc_active_path := Some path\<rparr>)
      else if j_resume j \<noteq> None \<and> \<not> sc_anchor_found s \<and> \<not> legacy_logical (j_resume j) \<and> path \<noteq> j_resume_path j
      then (Inr None, s\<lparr>sc_active_path := Some path\<rparr>)
      else (case examine E R w j event path parts (s\<lparr>sc_active_path := Some path\<rparr>) of
        (Inl e, t) \<Rightarrow> (Inl e, t)
      | (Inr None, t) \<Rightarrow> stop CATALOG_MISMATCH None t
      | (Inr (Some (sn, m)), t) \<Rightarrow> accept_match E j (sc_anchor_found s) path sn m t))"
  by (auto simp: consume_match_examine bindS_def act_simps split: sum.split option.split prod.split)

lemma take_match_run:
  "take_match E j m s =
     (let t = s\<lparr>sc_matches := sc_matches s @ [m], sc_last := Some m\<rparr> in
      if j_limit j \<le> length (sc_matches t)
      then (case grep_cursor_for_match E (j_prefix j) (j_pattern_hash j) m (sc_mismatch t) AFTER_MATCH of
          Inl e \<Rightarrow> (Inl e, t)
        | Inr c \<Rightarrow> (Inr (Some (scan_result_of (Some LIMIT) (Some c) t)), t))
      else (Inr None, t))"
  by (simp add: take_match_def bindS_def act_simps stop_def Let_def split: sum.split)

lemma examine_frame:
  assumes "never_late R (j_deadline j)" "examine E R w j event path parts s = (q, t)"
  obtains sn lst b c n where
    "t = s\<lparr>sc_snapshot := sn, sc_lines := lst, sc_mismatch := (sc_mismatch s \<or> b), sc_files := sc_files s + c, sc_ticks := n\<rparr>"
    "\<And>s'. sc_snapshot s' = sc_snapshot s \<Longrightarrow> sc_lines s' = sc_lines s \<Longrightarrow> \<exists>n'. examine E R w j event path parts s' =
      (q, s'\<lparr>sc_snapshot := sn, sc_lines := lst, sc_mismatch := (sc_mismatch s' \<or> b), sc_files := sc_files s' + c, sc_ticks := n'\<rparr>)"
proof -
  obtain F where F: "\<And>s. \<exists>n. examine E R w j event path parts s = apply_effect (F (sc_snapshot s) (sc_lines s)) n s"
    using local_examine [OF assms(1), of E w event path parts] unfolding local_def by blast
  obtain q' sn lst b c where e: "F (sc_snapshot s) (sc_lines s) = (q', sn, lst, b, c)" by (cases "F (sc_snapshot s) (sc_lines s)")
  obtain n where n: "examine E R w j event path parts s = apply_effect (q', sn, lst, b, c) n s" using F [of s] e by auto
  have q: "q' = q" and t: "t = s\<lparr>sc_snapshot := sn, sc_lines := lst, sc_mismatch := (sc_mismatch s \<or> b), sc_files := sc_files s + c, sc_ticks := n\<rparr>"
    using n assms(2) by simp_all
  show thesis
  proof (rule that [OF t])
    fix s' :: scan assume "sc_snapshot s' = sc_snapshot s" "sc_lines s' = sc_lines s"
    then show "\<exists>n'. examine E R w j event path parts s' =
      (q, s'\<lparr>sc_snapshot := sn, sc_lines := lst, sc_mismatch := (sc_mismatch s' \<or> b), sc_files := sc_files s' + c, sc_ticks := n'\<rparr>)"
      using F [of s'] e q by auto
  qed
qed

lemma match_fields_line: "match_fields data = Inr (n, lines, sub) \<Longrightarrow> 0 < n"
  by (auto simp: match_fields_def invalid_record_def split: option.splits json.splits list.splits if_splits)

lemma gives_verified:
  "gives (\<lambda>x. \<forall>m. x = Some m \<longrightarrow> gm_path m = sn_path sn \<and> gm_content_hash m = sn_hash sn \<and> 0 < gm_line_number m)
     (verified_grep_match R d event sn lst)"
  unfolding verified_grep_match_def
  by (intro yields_lift_then gives_then yields_prod yields_option yields_if yields_ret)
    (auto simp: match_of_def invalid_record_def dest: match_fields_line intro!: gives_then yields_prod yields_option yields_if yields_ret yields_liftE
      split: option.split)

lemma verified_match_of:
  "verified_grep_match R d event sn lst s = (Inr (Some m), t) \<Longrightarrow> gm_path m = sn_path sn \<and> gm_content_hash m = sn_hash sn \<and> 0 < gm_line_number m"
  using yieldsD(2) [OF gives_verified] by blast

lemma active_snapshot_path: "active_snapshot E R w j path parts s = (Inr sn, t) \<Longrightarrow> sn_path sn = path"
  by (auto simp: active_snapshot_def bindS_Inr_iff act_simps snapshot_grep_file_def no_snapshot_def Let_def
      dest!: arg_cong [of "filter _ _" _ set] split: list.splits if_splits sum.splits prod.splits option.splits)

lemma examine_match:
  assumes "examine E R w j event path parts s = (Inr (Some (sn, m)), t)"
  shows "gm_path m = path" "gm_content_hash m = sn_hash sn" "0 < gm_line_number m"
proof -
  obtain s1 where sn: "active_snapshot E R w j path parts s = (Inr sn, s1)"
      and v: "\<exists>lst s2 s3. verified_grep_match R (j_deadline j) event sn lst s2 = (Inr (Some m), s3)"
    using assms by (fastforce simp: examine_def bindS_Inr_iff act_simps split: if_splits option.splits)
  show "gm_path m = path" "gm_content_hash m = sn_hash sn" "0 < gm_line_number m"
    using v verified_match_of active_snapshot_path [OF sn] by blast+
qed

section \<open>A search from the beginning\<close>

lemma fresh_match:
  assumes "j_resume j = None" "sc_anchor_found s"
  shows "consume_match E R w j event path parts s =
    (case examine E R w j event path parts (s\<lparr>sc_active_path := Some path\<rparr>) of
        (Inl e, t) \<Rightarrow> (Inl e, t)
      | (Inr None, t) \<Rightarrow> stop CATALOG_MISMATCH None t
      | (Inr (Some (sn, m)), t) \<Rightarrow> take_match E j m t)"
  unfolding consume_match_start accept_match_def using assms
  by (auto simp: legacy_logical_def split: sum.split option.split prod.split)

lemma not_legacy_fresh: "j_resume j = None \<Longrightarrow> \<not> legacy_logical (j_resume j)" "j_resume j = None \<Longrightarrow> \<not> legacy_file_start (j_resume j)"
  by (simp_all add: legacy_logical_def legacy_file_start_def)

lemmas fresh_record = consume_record_kind [OF not_legacy_fresh]

text \<open>What a record that does not end the scan makes of the state.\<close>

definition next_file :: "seen \<Rightarrow> str option \<Rightarrow> str option" where
  "next_file k active =
     (case k of Begins p \<Rightarrow> Some p | Matches _ p _ \<Rightarrow> Some p | Ends p \<Rightarrow> if active = Some p then None else active | _ \<Rightarrow> active)"

definition grows :: "scan \<Rightarrow> scan \<Rightarrow> bool" where
  "grows s t \<longleftrightarrow> sc_anchor_found t = sc_anchor_found s \<and> (sc_mismatch s \<longrightarrow> sc_mismatch t) \<and> prefix (sc_matches s) (sc_matches t)"

lemma grows_refl [simp]: "grows s s"
  by (simp add: grows_def)

lemma grows_trans: "grows s t \<Longrightarrow> grows t u \<Longrightarrow> grows s u"
  unfolding grows_def by (auto intro: prefix_order.trans)

text \<open>A match that is taken.\<close>

lemma fresh_taken:
  assumes "never_late R (j_deadline j)" "j_resume j = None" "sc_anchor_found s" "kind_of_record R j raw = Matches event path parts"
    and "consume_record E R w j raw s = (r, t)" "r = Inr None \<or> (\<exists>x. r = Inr (Some x) \<and> gs_stopped_by x = Some LIMIT)"
  obtains sn m u where "examine E R w j event path parts (at_file path s) = (Inr (Some (sn, m)), u)"
    "t = u\<lparr>sc_matches := sc_matches s @ [m], sc_last := Some m\<rparr>" "take_match E j m u = (r, t)" "sc_matches u = sc_matches s"
proof -
  obtain q u where q: "examine E R w j event path parts (at_file path s) = (q, u)" by force
  have c: "(r, t) = (case (q, u) of
        (Inl e, t) \<Rightarrow> (Inl e, t)
      | (Inr None, t) \<Rightarrow> stop CATALOG_MISMATCH None t
      | (Inr (Some (sn, m)), t) \<Rightarrow> take_match E j m t)"
    using assms(5) fresh_record [OF assms(2,2), of E R w raw s] fresh_match [OF assms(2), of "s\<lparr>sc_replayed := True\<rparr>"] assms(3,4) q
    by (simp add: at_file_def)
  have "q \<noteq> Inr None" using c assms(6) by (auto simp: stop_def act_simps scan_result_of_def)
  moreover have "\<not> isl q" using c assms(6) by (cases q) auto
  ultimately obtain sn m where m: "q = Inr (Some (sn, m))" by (cases q) auto
  have u: "sc_matches u = sc_matches s" by (rule examine_frame [OF assms(1) q]) (simp add: at_file_def)
  have "take_match E j m u = (r, t)" using c m by simp
  then have "t = u\<lparr>sc_matches := sc_matches s @ [m], sc_last := Some m\<rparr>"
    using u by (auto simp: take_match_run Let_def split: if_splits sum.splits)
  then show thesis using that q m u \<open>take_match E j m u = (r, t)\<close> by blast
qed

lemma fresh_step:
  assumes "never_late R (j_deadline j)" "j_resume j = None" "sc_anchor_found s" "consume_record E R w j raw s = (Inr None, t)"
  shows "grows s t" "sc_active_path t = next_file (kind_of_record R j raw) (sc_active_path s)" "kind_of_record R j raw \<noteq> Too_Long" "\<And>e. kind_of_record R j raw \<noteq> Failed e"
proof -
  have "grows s t \<and> sc_active_path t = next_file (kind_of_record R j raw) (sc_active_path s) \<and> kind_of_record R j raw \<noteq> Too_Long \<and> (\<forall>e. kind_of_record R j raw \<noteq> Failed e)"
  proof (cases "kind_of_record R j raw")
    case (Matches event path parts)
    show ?thesis
    proof (rule fresh_taken [OF assms(1,2,3) Matches assms(4)])
      fix sn m u assume u: "examine E R w j event path parts (at_file path s) = (Inr (Some (sn, m)), u)"
        "t = u\<lparr>sc_matches := sc_matches s @ [m], sc_last := Some m\<rparr>"
      have "sc_anchor_found u = sc_anchor_found s \<and> (sc_mismatch s \<longrightarrow> sc_mismatch u) \<and> sc_active_path u = Some path"
        by (rule examine_frame [OF assms(1) u(1)]) (simp add: at_file_def)
      then show ?thesis using u(2) Matches by (simp add: grows_def next_file_def)
    qed simp
  qed (use assms(4) in \<open>auto simp: fresh_record [OF assms(2,2)] stop_def act_simps at_file_def end_file_def grows_def next_file_def\<close>)
  then show "grows s t" "sc_active_path t = next_file (kind_of_record R j raw) (sc_active_path s)" "kind_of_record R j raw \<noteq> Too_Long" "\<And>e. kind_of_record R j raw \<noteq> Failed e"
    by auto
qed

lemma fresh_steps:
  assumes "never_late R (j_deadline j)" "j_resume j = None" "sc_anchor_found s" "consume_all E R w j raws s = (Inr None, t)"
  shows "grows s t"
  using assms(3,4)
proof (induction raws arbitrary: s)
  case (Cons raw raws)
  obtain u where u: "consume_record E R w j raw s = (Inr None, u)" "consume_all E R w j raws u = (Inr None, t)"
    using Cons.prems(2) by (auto simp: bindS_Inr_iff ret_def split: option.splits)
  have g: "grows s u" by (rule fresh_step(1) [OF assms(1,2) Cons.prems(1) u(1)])
  then show ?case using Cons.IH [OF _ u(2)] Cons.prems(1) grows_trans by (auto simp: grows_def)
qed (simp add: ret_def)

text \<open>
  A scan that stops at the limit: it has taken a match of the record it stopped at, and a scan with a
  higher limit goes on behind that record in the same state.
\<close>

definition stops_at ::
  "env \<Rightarrow> ripgrep \<Rightarrow> world \<Rightarrow> grep_job \<Rightarrow> grep_job \<Rightarrow> bytes \<Rightarrow> scan \<Rightarrow> scan_result \<Rightarrow> grep_cursor \<Rightarrow> scan \<Rightarrow> bool" where
  "stops_at E R w j j2 raw s r c t \<longleftrightarrow>
     (\<exists>event path parts sn m u. kind_of_record R j raw = Matches event path parts \<and>
        examine E R w j event path parts (at_file path s) = (Inr (Some (sn, m)), u) \<and>
        t = u\<lparr>sc_matches := sc_matches s @ [m], sc_last := Some m\<rparr> \<and>
        grep_cursor_for_match E (j_prefix j) (j_pattern_hash j) m (sc_mismatch u) AFTER_MATCH = Inr c) \<and>
     r = scan_result_of (Some LIMIT) (Some c) t \<and> j_limit j = length (sc_matches t) \<and>
     consume_record E R w j2 raw s = (Inr None, t)"

lemma same_job_refl: "same_job j (j\<lparr>j_limit := n\<rparr>)"
  by (simp add: same_job_def)

lemma kind_same: "same_job j j' \<Longrightarrow> kind_of_record R j' raw = kind_of_record R j raw"
  by (simp only: kind_of_record_def record_place_same)

lemma higher_limit_step:
  assumes "never_late R (j_deadline j)" "j_resume j = None" "sc_anchor_found s" "j_limit j < n" "length (sc_matches s) < j_limit j"
    and "consume_record E R w j raw s = (r, t)"
  shows "r = Inr None \<Longrightarrow> consume_record E R w (j\<lparr>j_limit := n\<rparr>) raw s = (Inr None, t) \<and> length (sc_matches t) < j_limit j"
    "\<And>x. r = Inr (Some x) \<Longrightarrow> gs_stopped_by x = Some LIMIT \<Longrightarrow> \<exists>c. stops_at E R w j (j\<lparr>j_limit := n\<rparr>) raw s x c t"
proof -
  let ?j = "j\<lparr>j_limit := n\<rparr>"
  have resume: "j_resume ?j = None" using assms(2) by simp
  have lk: "kind_of_record R ?j raw = kind_of_record R j raw" by (rule kind_same [OF same_job_refl])
  have ex: "examine E R w ?j event path parts = examine E R w j event path parts" for event path parts
    by (rule examine_same [OF same_job_refl])
  have match: "consume_record E R w ?j raw s = take_match E ?j m u"
    if "kind_of_record R j raw = Matches event path parts" "examine E R w j event path parts (at_file path s) = (Inr (Some (sn, m)), u)" for event path parts sn m u
    using that assms(3) fresh_match [OF resume, of "s\<lparr>sc_replayed := True\<rparr>"]
    by (simp add: fresh_record [OF resume resume] lk ex at_file_def)
  {
    assume r: "r = Inr None"
    show "consume_record E R w ?j raw s = (Inr None, t) \<and> length (sc_matches t) < j_limit j"
    proof (cases "kind_of_record R j raw")
      case (Matches event path parts)
      show ?thesis
      proof (rule fresh_taken [OF assms(1,2,3) Matches assms(6)], rule disjI1, rule r)
        fix sn m u assume u: "examine E R w j event path parts (at_file path s) = (Inr (Some (sn, m)), u)"
          "t = u\<lparr>sc_matches := sc_matches s @ [m], sc_last := Some m\<rparr>" "take_match E j m u = (r, t)" "sc_matches u = sc_matches s"
        show ?thesis using match [OF Matches u(1)] u(2,3,4) r assms(4)
          by (auto simp: take_match_run Let_def split: if_splits sum.splits)
      qed
    qed (use assms(5,6) r in \<open>auto simp: fresh_record [OF assms(2,2)] fresh_record [OF resume resume] lk stop_def act_simps at_file_def end_file_def\<close>)
  }
  {
    fix x assume x: "r = Inr (Some x)" "gs_stopped_by x = Some LIMIT"
    obtain event path parts where Matches: "kind_of_record R j raw = Matches event path parts"
      using assms(6) x by (cases "kind_of_record R j raw") (auto simp: fresh_record [OF assms(2,2)] stop_def act_simps scan_result_of_def)
    show "\<exists>c. stops_at E R w j ?j raw s x c t"
    proof (rule fresh_taken [OF assms(1,2,3) Matches assms(6)])
      fix sn m u assume u: "examine E R w j event path parts (at_file path s) = (Inr (Some (sn, m)), u)"
        "t = u\<lparr>sc_matches := sc_matches s @ [m], sc_last := Some m\<rparr>" "take_match E j m u = (r, t)" "sc_matches u = sc_matches s"
      have l: "j_limit j \<le> Suc (length (sc_matches s))" "\<exists>c. grep_cursor_for_match E (j_prefix j) (j_pattern_hash j) m (sc_mismatch u) AFTER_MATCH = Inr c \<and>
          x = scan_result_of (Some LIMIT) (Some c) t"
        using u(2,3,4) x(1) by (auto simp: take_match_run Let_def split: if_splits sum.splits)
      have "consume_record E R w ?j raw s = (Inr None, t)"
        using match [OF Matches u(1)] u(2,4) assms(4,5) by (auto simp: take_match_run Let_def split: if_splits sum.splits)
      moreover have "j_limit j = length (sc_matches t)" using l(1) u(2) assms(5) by simp
      ultimately show ?thesis using l(2) Matches u(1,2) unfolding stops_at_def by auto
    qed (use x in blast)
  }
qed

lemma higher_limit:
  assumes "never_late R (j_deadline j)" "j_resume j = None" "j_limit j < n"
    and "sc_anchor_found s" "length (sc_matches s) < j_limit j" "consume_all E R w j raws s = (Inr (Some x), t)" "gs_stopped_by x = Some LIMIT"
  shows "\<exists>before raw behind u c. raws = before @ raw # behind \<and> consume_all E R w (j\<lparr>j_limit := n\<rparr>) before s = (Inr None, u) \<and>
    stops_at E R w j (j\<lparr>j_limit := n\<rparr>) raw u x c t"
  using assms(4,5,6)
proof (induction raws arbitrary: s)
  case (Cons raw raws)
  let ?j = "j\<lparr>j_limit := n\<rparr>"
  note step = higher_limit_step [OF assms(1,2) Cons.prems(1) assms(3) Cons.prems(2)]
  obtain r u where r: "consume_record E R w j raw s = (r, u)" by force
  have "(case r of Inl e \<Rightarrow> (Inl e, u) | Inr None \<Rightarrow> consume_all E R w j raws u | Inr (Some y) \<Rightarrow> (Inr (Some y), u)) = (Inr (Some x), t)"
    using Cons.prems(3) r by (simp add: bindS_def ret_def split: sum.splits option.splits)
  then consider "r = Inr (Some x)" "u = t" | "r = Inr None" "consume_all E R w j raws u = (Inr (Some x), t)"
    by (simp split: sum.splits option.splits)
  then show ?case
  proof cases
    case 1
    then obtain c where c: "stops_at E R w j ?j raw s x c t" using step(2) [OF r] assms(7) by blast
    have "consume_all E R w ?j [] s = (Inr None, s)" by (simp add: ret_def)
    then show ?thesis by (intro exI [of _ "[]"] exI [of _ raw] exI [of _ raws] exI [of _ s] exI [of _ c] conjI c append_Nil [symmetric])
  next
    case 2
    have u: "consume_record E R w ?j raw s = (Inr None, u)" "length (sc_matches u) < j_limit j" using step(1) [OF r 2(1)] by auto
    have g: "sc_anchor_found u"
      using fresh_step(1) [OF assms(1,2) Cons.prems(1)] r 2(1) Cons.prems(1) by (auto simp: grows_def)
    obtain before raw' behind v c where v: "raws = before @ raw' # behind" "consume_all E R w ?j before u = (Inr None, v)"
        "stops_at E R w j ?j raw' v x c t"
      using Cons.IH [OF g u(2) 2(2)] by blast
    have "consume_all E R w ?j (raw # before) s = (Inr None, v)" using u(1) v(2) by (simp add: bindS_def)
    then show ?thesis unfolding v(1)
      by (intro exI [of _ "raw # before"] exI [of _ raw'] exI [of _ behind] exI [of _ v] exI [of _ c] conjI v(3) append_Cons [symmetric])
  qed
qed (simp add: ret_def)

section \<open>The continuation up to the match of its cursor\<close>

text \<open>Begin and end of each file enclose its matches.\<close>

fun framed :: "ripgrep \<Rightarrow> grep_job \<Rightarrow> str option \<Rightarrow> bytes list \<Rightarrow> bool" where
  "framed R j active [] \<longleftrightarrow> True"
| "framed R j active (raw # raws) \<longleftrightarrow>
     (case kind_of_record R j raw of Matches _ path _ \<Rightarrow> active = Some path | _ \<Rightarrow> True) \<and>
     framed R j (next_file (kind_of_record R j raw) active) raws"

text \<open>A scan and its continuation, which looks only at the file \<open>p\<close> until it finds the match.\<close>

definition searching :: "str \<Rightarrow> scan \<Rightarrow> scan \<Rightarrow> bool" where
  "searching p s s' \<longleftrightarrow> sc_anchor_found s \<and> \<not> sc_anchor_found s' \<and> sc_active_path s' = sc_active_path s \<and>
     (sc_active_path s = Some p \<longrightarrow> sc_snapshot s' = sc_snapshot s \<and> sc_lines s' = sc_lines s) \<and>
     sc_matches s' = [] \<and> sc_replayed s \<and> sc_replayed s' \<and> sc_candidates s' = sc_candidates s"

definition passed :: "str \<Rightarrow> grep_cursor \<Rightarrow> grep_match list \<Rightarrow> bool" where
  "passed p c ms \<longleftrightarrow> (\<forall>m \<in> set ms. gm_path m = p \<longrightarrow> Some (position m) \<noteq> cu_anchor c \<and> cu_content_hash c = Some (gm_content_hash m))"

lemma continued_match:
  assumes "continues j c j'" "\<not> sc_anchor_found s"
  shows "consume_match E R w j' event path parts s =
    (if path \<noteq> j_resume_path j' then (Inr None, s\<lparr>sc_active_path := Some path\<rparr>)
     else (case examine E R w j event path parts (s\<lparr>sc_active_path := Some path\<rparr>) of
        (Inl e, t) \<Rightarrow> (Inl e, t)
      | (Inr None, t) \<Rightarrow> stop CATALOG_MISMATCH None t
      | (Inr (Some (sn, m)), t) \<Rightarrow>
          if \<not> same_file sn c then (Inl stale, t)
          else if Some (position m) = cu_anchor c then (Inr None, t\<lparr>sc_anchor_found := True, sc_last := Some m\<rparr>)
          else (Inr None, t)))"
proof -
  have ex: "examine E R w j' event path parts = examine E R w j event path parts"
    using assms(1) by (intro examine_same) (simp add: continues_def)
  show ?thesis unfolding consume_match_start accept_match_def ex using assms(2) continues_simps [OF assms(1)]
    by (auto simp: bindS_def act_simps split: sum.split option.split prod.split)
qed

lemmas continued_record = consume_record_kind [OF continues_simps(4,6)]

lemma same_file_hash: "cu_content_hash c = Some (sn_hash sn) \<Longrightarrow> \<not> startswith (sn_hash sn) (lit ''stat:'') \<Longrightarrow> same_file sn c"
  by (simp add: same_file_def)

lemma skip_step:
  assumes "never_late R (j_deadline j)" "continues j c j'" "searching (j_resume_path j') s s'" "consume_record E R w j raw s = (Inr None, t)"
    and "framed R j (sc_active_path s) [raw]" "sc_mismatch t \<longrightarrow> sc_mismatch s'" "passed (j_resume_path j') c (sc_matches t)"
    and "\<And>h. cu_content_hash c = Some h \<Longrightarrow> \<not> startswith h (lit ''stat:'')"
  shows "\<exists>t'. consume_record E R w j' raw s' = (Inr None, t') \<and> searching (j_resume_path j') t t' \<and> sc_mismatch t' = sc_mismatch s'"
proof -
  note resume = continues_simps(1) [OF assms(2)]
  note rel = assms(3) [unfolded searching_def]
  have lk: "kind_of_record R j' raw = kind_of_record R j raw" by (rule kind_same) (use assms(2) in \<open>simp add: continues_def\<close>)
  show ?thesis
  proof (cases "kind_of_record R j raw")
    case (Matches event path parts)
    show ?thesis
    proof (rule fresh_taken [OF assms(1) resume _ Matches assms(4)])
      fix sn m u assume u: "examine E R w j event path parts (at_file path s) = (Inr (Some (sn, m)), u)"
        "t = u\<lparr>sc_matches := sc_matches s @ [m], sc_last := Some m\<rparr>"
      obtain sn' lst b k n where f: "u = (at_file path s)\<lparr>sc_snapshot := sn', sc_lines := lst,
          sc_mismatch := (sc_mismatch (at_file path s) \<or> b), sc_files := sc_files (at_file path s) + k, sc_ticks := n\<rparr>"
        and f': "\<And>s'. sc_snapshot s' = sc_snapshot (at_file path s) \<Longrightarrow> sc_lines s' = sc_lines (at_file path s) \<Longrightarrow>
          \<exists>n'. examine E R w j event path parts s' = (Inr (Some (sn, m)),
            s'\<lparr>sc_snapshot := sn', sc_lines := lst, sc_mismatch := (sc_mismatch s' \<or> b), sc_files := sc_files s' + k, sc_ticks := n'\<rparr>)"
        by (rule examine_frame [OF assms(1) u(1)]) blast
      have run: "consume_record E R w j' raw s' = consume_match E R w j' event path parts (s'\<lparr>sc_replayed := True\<rparr>)"
        using Matches by (simp add: continued_record [OF assms(2,2)] lk)
      show ?thesis
      proof (cases "path = j_resume_path j'")
        case False
        have "consume_record E R w j' raw s' = (Inr None, at_file path s')"
          unfolding run using continued_match [OF assms(2), of "s'\<lparr>sc_replayed := True\<rparr>"] False rel by (simp add: at_file_def)
        moreover have "searching (j_resume_path j') t (at_file path s')"
          using rel False by (simp add: searching_def u(2) f at_file_def)
        ultimately show ?thesis by (simp add: at_file_def)
      next
        case True
        have "sc_active_path s = Some path" using assms(5) Matches by simp
        then have eq: "sc_snapshot (at_file path s') = sc_snapshot (at_file path s)" "sc_lines (at_file path s') = sc_lines (at_file path s)"
          using rel True by (simp_all add: at_file_def)
        obtain n' where n': "examine E R w j event path parts (at_file path s') = (Inr (Some (sn, m)),
            (at_file path s')\<lparr>sc_snapshot := sn', sc_lines := lst, sc_mismatch := (sc_mismatch (at_file path s') \<or> b),
              sc_files := sc_files (at_file path s') + k, sc_ticks := n'\<rparr>)" (is "_ = (_, ?t')")
          using f' [OF eq] by blast
        have m: "m \<in> set (sc_matches t)" "gm_path m = j_resume_path j'" using u(2) examine_match(1) [OF u(1)] True by simp_all
        then have p: "Some (position m) \<noteq> cu_anchor c" "cu_content_hash c = Some (sn_hash sn)"
          using assms(7) examine_match(2) [OF u(1)] by (auto simp: passed_def)
        have "consume_record E R w j' raw s' = (Inr None, ?t')"
          unfolding run using continued_match [OF assms(2), of "s'\<lparr>sc_replayed := True\<rparr>"] True rel n' p same_file_hash assms(8)
          by (simp add: at_file_def)
        moreover have "searching (j_resume_path j') t ?t'"
          using rel by (simp add: searching_def u(2) f at_file_def)
        moreover have "b \<longrightarrow> sc_mismatch s'" using assms(6) u(2) f by auto
        ultimately show ?thesis by (auto simp: at_file_def)
      qed
    qed (use rel in simp_all)
  qed (use assms(4) rel in \<open>auto simp: fresh_record [OF resume resume] continued_record [OF assms(2,2)] lk stop_def act_simps
      at_file_def end_file_def searching_def\<close>)
qed

lemma passed_prefix: "prefix ms ms' \<Longrightarrow> passed p c ms' \<Longrightarrow> passed p c ms"
  by (auto simp: passed_def dest: set_mono_prefix)

lemma skip_all:
  assumes "never_late R (j_deadline j)" "continues j c j'" "\<And>h. cu_content_hash c = Some h \<Longrightarrow> \<not> startswith h (lit ''stat:'')"
    and "searching (j_resume_path j') s s'" "consume_all E R w j raws s = (Inr None, t)" "framed R j (sc_active_path s) (raws @ more')"
    and "sc_mismatch t \<longrightarrow> sc_mismatch s'" "passed (j_resume_path j') c (sc_matches t)"
  shows "\<exists>t'. consume_all E R w j' raws s' = (Inr None, t') \<and> searching (j_resume_path j') t t' \<and> sc_mismatch t' = sc_mismatch s' \<and>
    framed R j (sc_active_path t) more'"
  using assms(4-8)
proof (induction raws arbitrary: s s')
  case (Cons raw raws)
  note resume = continues_simps(1) [OF assms(2)]
  obtain u where u: "consume_record E R w j raw s = (Inr None, u)" "consume_all E R w j raws u = (Inr None, t)"
    using Cons.prems(2) by (auto simp: bindS_Inr_iff ret_def split: option.splits)
  have found: "sc_anchor_found s" using Cons.prems(1) by (simp add: searching_def)
  note step = fresh_step [OF assms(1) resume found u(1)]
  have "sc_anchor_found u" using step(1) found by (simp add: grows_def)
  then have g: "grows u t" by (rule fresh_steps [OF assms(1) resume _ u(2)])
  have one: "framed R j (sc_active_path s) [raw]" and rest: "framed R j (sc_active_path u) (raws @ more')"
    using Cons.prems(3) step(2) by simp_all
  have mis: "sc_mismatch u \<longrightarrow> sc_mismatch s'" and pas: "passed (j_resume_path j') c (sc_matches u)"
    using g Cons.prems(4,5) passed_prefix by (auto simp: grows_def)
  obtain u' where u': "consume_record E R w j' raw s' = (Inr None, u')" "searching (j_resume_path j') u u'" "sc_mismatch u' = sc_mismatch s'"
    using skip_step [OF assms(1,2) Cons.prems(1) u(1) one mis pas assms(3)] by blast
  obtain t' where "consume_all E R w j' raws u' = (Inr None, t')" "searching (j_resume_path j') t t'" "sc_mismatch t' = sc_mismatch u'"
      "framed R j (sc_active_path t) more'"
    using Cons.IH [OF u'(2) u(2) rest _ Cons.prems(5)] Cons.prems(4) u'(3) by auto
  then show ?case using u' by (simp add: bindS_def)
qed (simp add: ret_def)

text \<open>At the match of the cursor the continuation joins the scan.\<close>

lemma joins:
  assumes "never_late R (j_deadline j)" "continues j c j'" "searching (j_resume_path j') s s'" "framed R j (sc_active_path s) [raw]"
    and "kind_of_record R j raw = Matches event path parts" "examine E R w j event path parts (at_file path s) = (Inr (Some (sn, m)), u)"
    and "path = j_resume_path j'" "Some (position m) = cu_anchor c" "cu_content_hash c = Some (gm_content_hash m)"
    and "\<not> startswith (gm_content_hash m) (lit ''stat:'')" "sc_mismatch u = sc_mismatch s'"
  shows "\<exists>t'. consume_record E R w j' raw s' = (Inr None, t') \<and>
    shifted (sc_matches s @ [m]) (u\<lparr>sc_matches := sc_matches s @ [m], sc_last := Some m\<rparr>) t'"
proof -
  note rel = assms(3) [unfolded searching_def]
  have lk: "kind_of_record R j' raw = kind_of_record R j raw" by (rule kind_same) (use assms(2) in \<open>simp add: continues_def\<close>)
  have active: "sc_active_path s = Some path" using assms(4,5) by simp
  then have eq: "sc_snapshot (at_file path s') = sc_snapshot (at_file path s)" "sc_lines (at_file path s') = sc_lines (at_file path s)"
    using rel assms(7) by (simp_all add: at_file_def)
  obtain sn' lst b k n where f: "u = (at_file path s)\<lparr>sc_snapshot := sn', sc_lines := lst,
      sc_mismatch := (sc_mismatch (at_file path s) \<or> b), sc_files := sc_files (at_file path s) + k, sc_ticks := n\<rparr>"
    and f': "\<And>s'. sc_snapshot s' = sc_snapshot (at_file path s) \<Longrightarrow> sc_lines s' = sc_lines (at_file path s) \<Longrightarrow>
      \<exists>n'. examine E R w j event path parts s' = (Inr (Some (sn, m)),
        s'\<lparr>sc_snapshot := sn', sc_lines := lst, sc_mismatch := (sc_mismatch s' \<or> b), sc_files := sc_files s' + k, sc_ticks := n'\<rparr>)"
    by (rule examine_frame [OF assms(1,6)]) blast
  obtain n' where n': "examine E R w j event path parts (at_file path s') = (Inr (Some (sn, m)),
      (at_file path s')\<lparr>sc_snapshot := sn', sc_lines := lst, sc_mismatch := (sc_mismatch (at_file path s') \<or> b),
        sc_files := sc_files (at_file path s') + k, sc_ticks := n'\<rparr>)" (is "_ = (_, ?t')")
    using f' [OF eq] by blast
  have same: "same_file sn c" using same_file_hash assms(9,10) examine_match(2) [OF assms(6)] by simp
  have "consume_record E R w j' raw s' = (Inr None, ?t'\<lparr>sc_anchor_found := True, sc_last := Some m\<rparr>)"
    using continued_match [OF assms(2), of "s'\<lparr>sc_replayed := True\<rparr>"] rel n' same assms(5,7,8)
    by (simp add: continued_record [OF assms(2,2)] lk at_file_def)
  moreover have "shifted (sc_matches s @ [m]) (u\<lparr>sc_matches := sc_matches s @ [m], sc_last := Some m\<rparr>)
      (?t'\<lparr>sc_anchor_found := True, sc_last := Some m\<rparr>)"
    using rel assms(11) by (intro shiftedI) (auto simp: f at_file_def)
  ultimately show ?thesis by blast
qed

text \<open>The whole of the records.\<close>

lemma relative_absolute: "grep_relative_path pfx path = Inr q \<Longrightarrow> valid_path path \<Longrightarrow> grep_absolute_path pfx q = path"
  using valid_path_not_end [of path]
  by (auto simp: grep_relative_path_def grep_absolute_path_def Let_def startswith_def endswith_def suffix_def lit_def prefix_def split: if_splits)

lemma cursor_of_match:
  assumes "grep_cursor_for_match E pfx q m mismatch mode = Inr c"
  shows "cu_version c = 3" "cu_mode c = mode" "cu_anchor c = Some (position m)" "cu_content_hash c = Some (gm_content_hash m)"
    "cu_catalog_mismatch c = mismatch" "grep_relative_path pfx (gm_path m) = Inr (cu_path c)"
    "cu_pattern_hash c = q" "\<exists>data. utf8_encode pfx = Inr data \<and> cu_prefix_hash c = sha256 E data"
  using assms by (auto simp: grep_cursor_for_match_def position_def bindE_def split: sum.splits)

text \<open>No position is taken twice, and a file has one digest.\<close>

definition apart :: "grep_match list \<Rightarrow> bool" where
  "apart ms \<longleftrightarrow> distinct (map (\<lambda>m. (gm_path m, position m)) ms) \<and>
     (\<forall>m \<in> set ms. \<forall>m' \<in> set ms. gm_path m = gm_path m' \<longrightarrow> gm_content_hash m = gm_content_hash m')"

lemma framed_same: "same_job j j' \<Longrightarrow> framed R j' active raws = framed R j active raws"
  by (induction raws arbitrary: active) (simp_all add: kind_same)

lemma apart_passed:
  assumes "apart (ms @ [m])" "cu_anchor c = Some (position m)" "cu_content_hash c = Some (gm_content_hash m)"
  shows "passed (gm_path m) c ms"
  unfolding passed_def
proof (intro ballI impI conjI)
  fix k assume k: "k \<in> set ms" "gm_path k = gm_path m"
  have "distinct (map (\<lambda>m. (gm_path m, position m)) (ms @ [m]))" using assms(1) unfolding apart_def by (rule conjunct1)
  then have d: "(gm_path m, position m) \<notin> (\<lambda>m. (gm_path m, position m)) ` set ms" by simp
  have "position k \<noteq> position m"
  proof
    assume "position k = position m"
    with k have "(gm_path m, position m) \<in> (\<lambda>m. (gm_path m, position m)) ` set ms" by (intro image_eqI [of _ _ k]) simp_all
    with d show False by simp
  qed
  then show "Some (position k) \<noteq> cu_anchor c" by (simp add: assms(2))
  have "gm_content_hash k = gm_content_hash m"
    using assms(1) [unfolded apart_def, THEN conjunct2, rule_format, of k m] k by simp
  then show "cu_content_hash c = Some (gm_content_hash k)" by (simp add: assms(3))
qed

lemma continuation:
  assumes "never_late R (j_deadline j)" "j_resume j = None" "j_limit j < n" "0 < j_limit j"
    and "sc_anchor_found s" "sc_matches s = []" "sc_replayed s" "sc_candidates s = []" "sc_active_path s = None"
    and "consume_all E R w j raws s = (Inr (Some x), t)" "gs_stopped_by x = Some LIMIT"
    and "framed R j None raws" "apart (gs_matches x)" "\<And>m. m \<in> set (gs_matches x) \<Longrightarrow> valid_path (gm_path m) \<and> \<not> startswith (gm_content_hash m) (lit ''stat:'')"
    and "gs_next_cursor x = Some c"
    and "j' = j\<lparr>j_limit := n - length (gs_matches x), j_resume := Some c, j_resume_path := grep_absolute_path (j_prefix j) (cu_path c)\<rparr>"
    and "s' = s\<lparr>sc_anchor_found := False, sc_mismatch := cu_catalog_mismatch c, sc_files := k, sc_ticks := l\<rparr>"
  shows "agree (shifted (gs_matches x)) (rel_option (shifted_result (gs_matches x)))
      (consume_all E R w (j\<lparr>j_limit := n\<rparr>) raws s) (consume_all E R w j' raws s')"
proof -
  let ?j = "j\<lparr>j_limit := n\<rparr>"
  obtain before raw behind u d where split: "raws = before @ raw # behind" "consume_all E R w ?j before s = (Inr None, u)"
      "stops_at E R w j ?j raw u x d t"
    using higher_limit [OF assms(1,2,3,5) _ assms(10,11)] assms(4,6) by auto
  have d: "d = c" using split(3) assms(15) by (auto simp: stops_at_def scan_result_of_def)
  obtain event path parts sn m v where stop: "kind_of_record R j raw = Matches event path parts"
      "examine E R w j event path parts (at_file path u) = (Inr (Some (sn, m)), v)"
      "t = v\<lparr>sc_matches := sc_matches u @ [m], sc_last := Some m\<rparr>"
      "grep_cursor_for_match E (j_prefix j) (j_pattern_hash j) m (sc_mismatch v) AFTER_MATCH = Inr c"
    using split(3) [unfolded d] unfolding stops_at_def by blast
  have whole: "x = scan_result_of (Some LIMIT) (Some c) t" "j_limit j = length (sc_matches t)" "consume_record E R w ?j raw u = (Inr None, t)"
    using split(3) [unfolded d] unfolding stops_at_def by simp_all
  have ms: "gs_matches x = sc_matches u @ [m]" using whole(1) stop(3) by (simp add: scan_result_of_def)
  note cur = cursor_of_match [OF stop(4)]
  have late: "never_late R (j_deadline ?j)" and res: "j_resume ?j = None" using assms(1,2) by simp_all
  have cont: "continues ?j c j'" using cur(1,2) assms(2,16) by (simp add: continues_def same_job_def)
  have ok: "valid_path (gm_path m)" "\<not> startswith (gm_content_hash m) (lit ''stat:'')" using assms(14) [of m] ms by simp_all
  have p: "j_resume_path j' = gm_path m" using assms(16) relative_absolute [OF cur(6) ok(1)] by simp
  have rel: "searching (gm_path m) s s'" using assms(5-9,17) by (simp add: searching_def)
  have nostat: "\<not> startswith h (lit ''stat:'')" if "cu_content_hash c = Some h" for h
    using ok(2) cur(4) that by simp
  have fr: "framed R ?j (sc_active_path s) (before @ raw # behind)"
    using assms(9,12) framed_same [OF same_job_refl] split(1) by simp
  have found: "sc_anchor_found u"
    using fresh_steps [OF late res assms(5) split(2)] assms(5) by (simp add: grows_def)
  have mis: "sc_mismatch u \<longrightarrow> sc_mismatch s'"
    using fresh_step(1) [OF late res found whole(3)] stop(3) cur(5) assms(17) by (simp add: grows_def)
  have pas: "passed (gm_path m) c (sc_matches u)"
    by (rule apart_passed [OF _ cur(3,4)]) (use assms(13) ms in simp)
  obtain u' where u': "consume_all E R w j' before s' = (Inr None, u')" "searching (gm_path m) u u'" "sc_mismatch u' = sc_mismatch s'"
      "framed R ?j (sc_active_path u) (raw # behind)"
    using skip_all [OF late cont nostat _ split(2) fr mis] rel pas p by auto
  have path: "gm_path m = path" by (rule examine_match(1) [OF stop(2)])
  obtain t' where t': "consume_record E R w j' raw u' = (Inr None, t')" "shifted (gs_matches x) t t'"
  proof -
    have "\<exists>t'. consume_record E R w j' raw u' = (Inr None, t') \<and>
      shifted (sc_matches u @ [m]) (v\<lparr>sc_matches := sc_matches u @ [m], sc_last := Some m\<rparr>) t'"
    proof (rule joins [OF late cont])
      show "searching (j_resume_path j') u u'" using u'(2) p by simp
      show "framed R ?j (sc_active_path u) [raw]" using u'(4) by simp
      show "kind_of_record R ?j raw = Matches event path parts" using stop(1) kind_same [OF same_job_refl] by simp
      show "examine E R w ?j event path parts (at_file path u) = (Inr (Some (sn, m)), v)"
        using stop(2) examine_same [OF same_job_refl] by simp
      show "sc_mismatch v = sc_mismatch u'" using u'(3) cur(5) assms(17) by simp
    qed (use path p cur ok in simp_all)
    then show thesis using that ms stop(3) by auto
  qed
  have "consume_all E R w ?j raws s = consume_all E R w ?j behind t"
    unfolding split(1) consume_all_append using split(2) whole(3) by (simp add: bindS_def)
  moreover have "consume_all E R w j' raws s' = consume_all E R w j' behind t'"
    unfolding split(1) consume_all_append using u'(1) t'(1) by (simp add: bindS_def)
  moreover have "j_limit ?j = length (gs_matches x) + j_limit j'"
    using assms(3,16) whole(2) ms stop(3) by simp
  ultimately show ?thesis using sim_consume_all [OF cont _ late] t'(2) by (simp add: sim_def)
qed

lemma shifted_alike:
  assumes "alike x x'" "alike y y'" "agree (shifted ms) P x' y'"
  shows "agree (shifted ms) P x y"
proof -
  obtain k l where k: "fst x = fst x'" "snd x = (snd x')\<lparr>sc_ticks := k\<rparr>" "fst y = fst y'" "snd y = (snd y')\<lparr>sc_ticks := l\<rparr>"
    using assms(1,2) by (auto simp: alike_def)
  have r: "shifted ms (snd x') (snd y')" "rel_sum (=) P (fst x') (fst y')" using assms(3) by (simp_all add: agree_def)
  have "shifted ms ((snd x')\<lparr>sc_ticks := k\<rparr>) ((snd y')\<lparr>sc_ticks := l\<rparr>)"
    by (rule shiftedI) (simp_all add: shiftedD [OF r(1)])
  then show ?thesis using k r by (simp add: agree_def)
qed

section \<open>The end of the scans\<close>

lemma sim_result [sim_rules]: "sim (shifted ms) (shifted_result ms) (gets (scan_result_of why c)) (gets (scan_result_of why c))"
  by (rule sim_gets) (rule shifted_result_of)

lemma timeout_cursor_shifted:
  assumes "continues j c j'" "shifted ms s s'"
  shows "timeout_cursor E j' s' = timeout_cursor E j s"
  using continues_simps [OF assms(1)] by (simp add: timeout_cursor_def shiftedD [OF assms(2)] cong: option.case_cong)

lemma sim_timed_out:
  assumes "continues j c j'"
  shows "sim (shifted ms) (shifted_result ms) (timed_out E j) (timed_out E j')"
  unfolding timed_out_def
proof (rule sim_then)
  show "sim (shifted ms) (=) (modify (\<lambda>s. if legacy_logical (j_resume j) then s\<lparr>sc_matches := []\<rparr> else s))
    (modify (\<lambda>s. if legacy_logical (j_resume j') then s\<lparr>sc_matches := []\<rparr> else s))"
    using continues_simps(3,4) [OF assms] by (intro sim_modify) simp
  fix x :: unit
  show "sim (shifted ms) (shifted_result ms)
     (bindS (gets (timeout_cursor E j)) (\<lambda>cursor. bindS (liftE cursor) (\<lambda>c. gets (scan_result_of (Some TIMEOUT) (Some c)))))
     (bindS (gets (timeout_cursor E j')) (\<lambda>cursor. bindS (liftE cursor) (\<lambda>c. gets (scan_result_of (Some TIMEOUT) (Some c)))))"
    by (intro sim_rules) (simp add: timeout_cursor_shifted [OF assms])
qed

lemma sim_fail [sim_rules]: "sim Rel P (liftE (Inl e)) (liftE (Inl e))"
  by (simp add: sim_def agree_def act_simps)

lemma sim_finish:
  assumes "continues j c j'"
  shows "sim (shifted ms) (shifted_result ms) (finish_scan E j code) (finish_scan E j' code)"
  unfolding finish_scan_def rg_failed_def
proof (rule sim_then)
  show "sim (shifted ms) (=) (gets sc_anchor_found) (gets sc_anchor_found)" by (rule sim_gets) (simp add: shiftedD)
qed (use continues_simps(3,4) [OF assms] in \<open>simp only: not_False_eq_True if_True, (intro sim_rules)\<close>)

lemma agree_run_scan:
  assumes "continues j c j'"
    and "agree (shifted ms) (rel_option (shifted_result ms)) (read_records E R w j [] reads s) (read_records E R w j' [] reads s')"
  shows "agree (shifted ms) (shifted_result ms) (run_scan E R w j reads code s) (run_scan E R w j' reads code s')"
  unfolding run_scan_def
proof (rule agree_bindS [where P = "rel_sum (shifted_result ms) (rel_option (shifted_result ms))"])
  show "agree (shifted ms) (rel_sum (shifted_result ms) (rel_option (shifted_result ms)))
    (catch_timeout (bindS (read_records E R w j [] reads) (\<lambda>r. ret (Inr r))) (bindS (timed_out E j) (\<lambda>r. ret (Inl r))) s)
    (catch_timeout (bindS (read_records E R w j' [] reads) (\<lambda>r. ret (Inr r))) (bindS (timed_out E j') (\<lambda>r. ret (Inl r))) s')"
  proof (rule sim_catch_timeout)
    show "agree (shifted ms) (rel_sum (shifted_result ms) (rel_option (shifted_result ms)))
      (bindS (read_records E R w j [] reads) (\<lambda>r. ret (Inr r)) s) (bindS (read_records E R w j' [] reads) (\<lambda>r. ret (Inr r)) s')"
      by (rule agree_bindS [where m = "read_records E R w j [] reads" and m' = "read_records E R w j' [] reads", OF assms(2)]) (rule sim_ret, simp)
    show "sim (shifted ms) (rel_sum (shifted_result ms) (rel_option (shifted_result ms)))
      (bindS (timed_out E j) (\<lambda>r. ret (Inl r))) (bindS (timed_out E j') (\<lambda>r. ret (Inl r)))"
      by (rule sim_bindS [OF sim_timed_out [OF assms(1)]]) (rule sim_ret, simp)
  qed
next
  fix x y :: "scan_result + scan_result option"
  assume "rel_sum (shifted_result ms) (rel_option (shifted_result ms)) x y"
  then show "sim (shifted ms) (shifted_result ms)
     (case x of Inl r \<Rightarrow> ret r | Inr None \<Rightarrow> (case code of None \<Rightarrow> timed_out E j | Some code \<Rightarrow> finish_scan E j code) | Inr (Some r) \<Rightarrow> ret r)
     (case y of Inl r \<Rightarrow> ret r | Inr None \<Rightarrow> (case code of None \<Rightarrow> timed_out E j' | Some code \<Rightarrow> finish_scan E j' code) | Inr (Some r) \<Rightarrow> ret r)"
    by (cases x; cases y) (auto split: option.split intro!: sim_ret sim_timed_out [OF assms(1)] sim_finish [OF assms(1)] elim: option.rel_cases)
qed

lemma run_scan_limit:
  assumes "run_scan E R w j reads code s = (Inr x, t)" "gs_stopped_by x = Some LIMIT" "\<not> legacy_logical (j_resume j)"
  shows "\<exists>u. read_records E R w j [] reads s = (Inr (Some x), u)"
proof -
  have out: "\<not> (timed_out E j s' = (Inr x, t'))" for s' t'
    using assms(2) by (auto simp: timed_out_def bindS_Inr_iff act_simps scan_result_of_def)
  have fin: "\<not> (finish_scan E j code s' = (Inr x, t'))" for code s' t'
    using assms(2,3) by (auto simp: finish_scan_def bindS_Inr_iff act_simps scan_result_of_def rg_failed_def split: if_splits)
  obtain y s1 where y: "catch_timeout (bindS (read_records E R w j [] reads) (\<lambda>r. ret (Inr r))) (bindS (timed_out E j) (\<lambda>r. ret (Inl r))) s = (Inr y, s1)"
      "(case y of Inl r \<Rightarrow> ret r | Inr None \<Rightarrow> (case code of None \<Rightarrow> timed_out E j | Some code \<Rightarrow> finish_scan E j code)
        | Inr (Some r) \<Rightarrow> ret r) s1 = (Inr x, t)"
    using assms(1) by (auto simp: run_scan_def bindS_Inr_iff)
  from y(1) show ?thesis
  proof (cases rule: catch_timeout_cases)
    case 1
    then show ?thesis using y(2) out fin by (auto simp: bindS_Inr_iff ret_def split: option.splits)
  next
    case (2 e s2)
    then show ?thesis using y(2) out by (auto simp: bindS_Inr_iff ret_def)
  qed
qed

section \<open>Pages\<close>

text \<open>What is done before the scan depends neither on the limit nor on the cursor.\<close>

definition scan_of ::
  "env \<Rightarrow> ripgrep \<Rightarrow> world \<Rightarrow> str \<Rightarrow> loc \<Rightarrow> grep_job \<Rightarrow> bool \<Rightarrow> nat \<Rightarrow> scan_result res" where
  "scan_of E R w pattern target j mismatch n =
     fst (run_scan E R w j (g_reads R pattern target) (g_exit R pattern target) (initial_scan (j_resume j = None) mismatch True n))"

definition search_job :: "env \<Rightarrow> str \<Rightarrow> str \<Rightarrow> bytes \<Rightarrow> bytes \<Rightarrow> rat \<Rightarrow> loc \<Rightarrow> int \<Rightarrow> grep_job" where
  "search_job E user pfx pd qd deadline base limit = grep_job_of user pfx (sha256 E pd) (sha256 E qd) deadline limit base None"

lemma fst_bindS: "fst (bindS m f s) = (case m s of (Inl e, _) \<Rightarrow> Inl e | (Inr x, t) \<Rightarrow> fst (f x t))"
  by (simp add: bindS_def split: prod.split sum.split)

lemma late_never: "never_late R d \<Longrightarrow> late R d s = (Inr False, s\<lparr>sc_ticks := Suc (sc_ticks s)\<rparr>)"
  by (simp add: late_def never_late_def not_le)

lemma bindS_lift: "fst (bindS m (\<lambda>x. liftE (q x)) s) = bindE (fst (m s)) q"
  by (simp add: bindS_def bindE_def liftE_def split: prod.split sum.split)

lemma tree_target_scan:
  assumes "never_late R (j_deadline j)" "require_rg R = Inr ()" "\<not> legacy_logical (j_resume j)" "\<not> legacy_file_start (j_resume j)"
  shows "\<exists>n. fst (grep_tree_target E R w pattern target j inherited s) =
    scan_of E R w pattern target (case j_resume j of None \<Rightarrow> j | Some c \<Rightarrow> j\<lparr>j_resume_path := grep_absolute_path (j_prefix j) (cu_path c)\<rparr>)
      inherited n"
  using assms
  by (cases "j_resume j")
    (auto simp: grep_tree_target_def bindS_def late_never act_simps Let_def resume_scan_def scan_of_def legacy_logical_def legacy_file_start_def
      split: if_splits)

lemma validated_early:
  assumes "never_late R d" "fst (validated R pattern ph qh d decoded s) = Inr None"
  shows "require_rg R = Inr () \<and> (\<forall>decoded s. \<exists>n. validated R pattern ph qh d decoded s = (Inr None, s\<lparr>sc_ticks := n\<rparr>))"
proof -
  have v: "validate_grep_pattern R pattern d s = (Inr (), s\<lparr>sc_ticks := Suc (sc_ticks s)\<rparr>) \<and> require_rg R = Inr ()"
  proof -
    obtain q t where q: "validated R pattern ph qh d decoded s = (q, t)" by force
    then have "validated R pattern ph qh d decoded s = (Inr None, t)" using assms(2) by simp
    then have "\<exists>t. validate_grep_pattern R pattern d s = (Inr (), t)"
      unfolding validated_def
      by (rule catch_timeout_cases) (auto simp: bindS_Inr_iff ret_def)
    then show ?thesis
      by (auto simp: validate_grep_pattern_def bindS_Inr_iff late_never [OF assms(1)] act_simps split: if_splits option.splits)
  qed
  have "validate_grep_pattern R pattern d s' = (Inr (), s'\<lparr>sc_ticks := Suc (sc_ticks s')\<rparr>)" for s'
    using v by (auto simp: validate_grep_pattern_def bindS_Inr_iff late_never [OF assms(1)] act_simps bindS_def split: if_splits option.splits sum.splits)
  then have "validated R pattern ph qh d decoded s' = (Inr None, s'\<lparr>sc_ticks := Suc (sc_ticks s')\<rparr>)" for decoded s'
    by (simp add: validated_def catch_timeout_def catchS_def bindS_def ret_def)
  then show ?thesis using v by blast
qed

lemma grep_scan:
  assumes "never_late R (g_clock R 0 + timeout_seconds)"
    and "grep E R user pattern pfx limit timeout_seconds None w = Inr page" "gp_stopped_by page = Some LIMIT"
  obtains base target pd qd where "user_root E user = Inr base" "(if pfx = [] then Inr base else tree_path E user pfx) = Inr target"
    "utf8_encode pfx = Inr pd"
    "\<And>l. 0 < l \<Longrightarrow> \<exists>n. grep E R user pattern pfx l timeout_seconds None w =
      bindE (scan_of E R w pattern target (search_job E user pfx pd qd (g_clock R 0 + timeout_seconds) base l) False n) (page_of_result None None)"
    "\<And>l text c. 0 < l \<Longrightarrow> decode_grep_cursor text = Inr c \<Longrightarrow> cu_version c = 3 \<Longrightarrow> cu_mode c = AFTER_MATCH \<Longrightarrow>
       cu_prefix_hash c = sha256 E pd \<Longrightarrow> cu_pattern_hash c = sha256 E qd \<Longrightarrow>
       \<exists>n. grep E R user pattern pfx l timeout_seconds (Some text) w =
        bindE (scan_of E R w pattern target ((search_job E user pfx pd qd (g_clock R 0 + timeout_seconds) base l)
          \<lparr>j_resume := Some c, j_resume_path := grep_absolute_path pfx (cu_path c)\<rparr>) (cu_catalog_mismatch c) n) (page_of_result (Some text) (Some c))"
proof -
  let ?d = "g_clock R 0 + timeout_seconds"
  let ?s = "(initial_scan False False False 0)\<lparr>sc_ticks := 1\<rparr>"
  have lim: "0 < limit" and time: "GREP_MIN_TIMEOUT_SECONDS \<le> timeout_seconds \<and> timeout_seconds \<le> GREP_MAX_TIMEOUT_SECONDS"
    using assms(2) by (auto simp: grep_def grep_action_def raise_def split: if_splits)
  have dead: "deadline_after R timeout_seconds (initial_scan False False False 0) = (Inr ?d, ?s)"
    by (simp add: deadline_after_def initial_scan_def)
  have run: "grep E R user pattern pfx l timeout_seconds cursor w =
      bindE (optional_prefix pfx) (\<lambda>p. bindE (utf8_encode p) (\<lambda>pd. bindE (utf8_encode pattern) (\<lambda>qd. bindE (cursor_of cursor) (\<lambda>decoded.
        if \<not> cursor_fits (sha256 E pd) (sha256 E qd) decoded then Inl (ValueError ''ctxfs grep cursor does not match this search'')
        else fst (bindS (validated R pattern (sha256 E pd) (sha256 E qd) ?d decoded) (\<lambda>early. case early of
            Some page \<Rightarrow> ret page
          | None \<Rightarrow> grep_files E R w user pattern p (sha256 E pd) (sha256 E qd) ?d l cursor decoded) ?s)))))" if "0 < l" for l cursor
    using that time
    by (simp add: grep_def grep_action_def fst_bindS bindE_def liftE_def raise_def dead Let_def split: sum.split)
  obtain p pd qd where p: "optional_prefix pfx = Inr p" "utf8_encode p = Inr pd" "utf8_encode pattern = Inr qd"
    and first: "fst (bindS (validated R pattern (sha256 E pd) (sha256 E qd) ?d None) (\<lambda>early. case early of
            Some page \<Rightarrow> ret page
          | None \<Rightarrow> grep_files E R w user pattern p (sha256 E pd) (sha256 E qd) ?d limit None None) ?s) = Inr page"
    using assms(2) unfolding run [OF lim] by (auto simp: bindE_def cursor_of_def cursor_fits_def split: sum.splits)
  have pfx: "p = pfx" using p(1) by (auto simp: optional_prefix_def split: if_splits)
  obtain early s1 where early: "validated R pattern (sha256 E pd) (sha256 E qd) ?d None ?s = (Inr early, s1)"
    using first by (cases "validated R pattern (sha256 E pd) (sha256 E qd) ?d None ?s") (auto simp: fst_bindS split: sum.splits)
  have "early = None"
  proof (cases early)
    case (Some x)
    then have "x = page" using first early by (simp add: fst_bindS ret_def)
    moreover have "gp_stopped_by x = Some TIMEOUT" using early Some
      by (auto simp: validated_def bindS_Inr_iff ret_def raise_def liftE_def grep_timeout_page_def grep_page_of_def set_continuation_action_def bindE_def
          elim!: catch_timeout_cases split: if_splits sum.splits)
    ultimately show ?thesis using assms(3) by simp
  qed
  then have e: "fst (validated R pattern (sha256 E pd) (sha256 E qd) ?d None ?s) = Inr None" using early by simp
  note v = validated_early [OF assms(1) e]
  have files: "\<exists>s. grep E R user pattern pfx l timeout_seconds cursor w =
      fst (grep_files E R w user pattern pfx (sha256 E pd) (sha256 E qd) ?d l cursor decoded s)"
    if "0 < l" "cursor_of cursor = Inr decoded" "cursor_fits (sha256 E pd) (sha256 E qd) decoded" for l cursor decoded
  proof -
    obtain n where "validated R pattern (sha256 E pd) (sha256 E qd) ?d decoded ?s = (Inr None, ?s\<lparr>sc_ticks := n\<rparr>)" using v by blast
    then show ?thesis unfolding run [OF that(1)] using that p by (auto simp: bindE_def fst_bindS pfx)
  qed
  obtain s2 where f: "fst (grep_files E R w user pattern pfx (sha256 E pd) (sha256 E qd) ?d limit None None s2) = Inr page"
    using files [OF lim, of None None] assms(2) by (auto simp: cursor_of_def cursor_fits_def)
  obtain base target where t: "user_root E user = Inr base" "(if pfx = [] then Inr base else tree_path E user pfx) = Inr target"
    using f unfolding grep_files_def by (cases "user_root E user"; cases "if pfx = [] then user_root E user else tree_path E user pfx")
      (auto simp: fst_bindS liftE_def raise_def split: if_splits)
  have exists: "fs_exists (w_fs w) target"
  proof (rule ccontr)
    assume "\<not> fs_exists (w_fs w) target"
    then have "grep_page_of [] None None = Inr page" using f t
      by (simp add: grep_files_def fst_bindS liftE_def resumption_def inherited_mismatch_def)
    then show False using assms(3) by (auto simp: grep_page_of_def set_continuation_action_def split: if_splits)
  qed
  have scan: "fst (grep_files E R w user pattern pfx (sha256 E pd) (sha256 E qd) ?d l cursor decoded s) =
      bindE (fst (grep_tree_target E R w pattern target
         (grep_job_of user pfx (sha256 E pd) (sha256 E qd) ?d l base (resumption decoded)) (inherited_mismatch decoded) s))
        (page_of_result cursor (resumption decoded))" for l cursor decoded s
    using t exists by (simp add: grep_files_def fst_bindS liftE_def bindE_def split: sum.split prod.split)
  show thesis
  proof (rule that [OF t p(2) [unfolded pfx], of qd])
    fix l :: int assume l: "0 < l"
    let ?j = "grep_job_of user pfx (sha256 E pd) (sha256 E qd) ?d l base None"
    obtain s where s: "grep E R user pattern pfx l timeout_seconds None w =
      fst (grep_files E R w user pattern pfx (sha256 E pd) (sha256 E qd) ?d l None None s)"
      using files [OF l, of None None] by (auto simp: cursor_of_def cursor_fits_def)
    have "never_late R (j_deadline ?j)" using assms(1) by (simp add: grep_job_of_def)
    then obtain n where "fst (grep_tree_target E R w pattern target ?j False s) = scan_of E R w pattern target ?j False n"
      using tree_target_scan [of R ?j E w pattern target False s] v by (auto simp: legacy_logical_def legacy_file_start_def grep_job_of_def)
    then show "\<exists>n. grep E R user pattern pfx l timeout_seconds None w =
      bindE (scan_of E R w pattern target (search_job E user pfx pd qd ?d base l) False n) (page_of_result None None)"
      unfolding s scan by (auto simp: search_job_def resumption_def inherited_mismatch_def)
  next
    fix l :: int and tx :: str and c :: grep_cursor
    assume l: "0 < l" and c: "decode_grep_cursor tx = Inr c" "cu_version c = 3" "cu_mode c = AFTER_MATCH"
       "cu_prefix_hash c = sha256 E pd" "cu_pattern_hash c = sha256 E qd"
    let ?j = "grep_job_of user pfx (sha256 E pd) (sha256 E qd) ?d l base (Some c)"
    obtain s where s: "grep E R user pattern pfx l timeout_seconds (Some tx) w =
      fst (grep_files E R w user pattern pfx (sha256 E pd) (sha256 E qd) ?d l (Some tx) (Some c) s)"
      using files [OF l, of "Some tx" "Some c"] c by (auto simp: cursor_of_def cursor_fits_def bindE_def)
    have "never_late R (j_deadline ?j)" using assms(1) by (simp add: grep_job_of_def)
    then obtain n where "fst (grep_tree_target E R w pattern target ?j (cu_catalog_mismatch c) s) =
        scan_of E R w pattern target (?j\<lparr>j_resume_path := grep_absolute_path pfx (cu_path c)\<rparr>) (cu_catalog_mismatch c) n"
      using tree_target_scan [of R ?j E w pattern target "cu_catalog_mismatch c" s] v c(2,3)
      by (auto simp: legacy_logical_def legacy_file_start_def grep_job_of_def)
    then show "\<exists>n. grep E R user pattern pfx l timeout_seconds (Some tx) w =
        bindE (scan_of E R w pattern target ((search_job E user pfx pd qd ?d base l)
          \<lparr>j_resume := Some c, j_resume_path := grep_absolute_path pfx (cu_path c)\<rparr>) (cu_catalog_mismatch c) n) (page_of_result (Some tx) (Some c))"
      unfolding s scan using c(3) by (auto simp: search_job_def resumption_def inherited_mismatch_def grep_job_of_def)
  qed
qed

text \<open>The match a scan has stopped at is that of its cursor.\<close>

lemma limit_facts:
  assumes "never_late R (j_deadline j)" "j_resume j = None" "0 < j_limit j" "sc_anchor_found s" "sc_matches s = []"
    and "consume_all E R w j raws s = (Inr (Some x), t)" "gs_stopped_by x = Some LIMIT" "gs_next_cursor x = Some c"
  shows "length (gs_matches x) = j_limit j"
    "\<exists>m mismatch. m \<in> set (gs_matches x) \<and> 0 < gm_line_number m \<and>
      grep_cursor_for_match E (j_prefix j) (j_pattern_hash j) m mismatch AFTER_MATCH = Inr c"
proof -
  obtain raw u d where "stops_at E R w j (j\<lparr>j_limit := Suc (j_limit j)\<rparr>) raw u x d t"
    using higher_limit [OF assms(1,2) lessI assms(4) _ assms(6,7)] assms(3,5) by auto
  moreover from this have "d = c" using assms(8) by (auto simp: stops_at_def scan_result_of_def)
  ultimately obtain event path parts sn m v where stop:
      "examine E R w j event path parts (at_file path u) = (Inr (Some (sn, m)), v)"
      "t = v\<lparr>sc_matches := sc_matches u @ [m], sc_last := Some m\<rparr>"
      "grep_cursor_for_match E (j_prefix j) (j_pattern_hash j) m (sc_mismatch v) AFTER_MATCH = Inr c"
      "x = scan_result_of (Some LIMIT) (Some c) t" "j_limit j = length (sc_matches t)"
    unfolding stops_at_def by blast
  show "length (gs_matches x) = j_limit j" using stop(4,5) by (simp add: scan_result_of_def)
  have "m \<in> set (gs_matches x)" using stop(2,4) by (simp add: scan_result_of_def)
  then show "\<exists>m mismatch. m \<in> set (gs_matches x) \<and> 0 < gm_line_number m \<and>
      grep_cursor_for_match E (j_prefix j) (j_pattern_hash j) m mismatch AFTER_MATCH = Inr c"
    using stop(3) examine_match(3) [OF stop(1)] by blast
qed

text \<open>A path a cursor can name.\<close>

definition nameable :: "str \<Rightarrow> grep_match \<Rightarrow> bool" where
  "nameable pfx m \<longleftrightarrow> valid_path (gm_path m) \<and> scalar_str (gm_path m) \<and>
     (case grep_relative_path pfx (gm_path m) of Inl _ \<Rightarrow> True | Inr q \<Rightarrow> q = [] \<or> valid_path q)"

lemma relative_scalar: "grep_relative_path pfx path = Inr q \<Longrightarrow> scalar_str path \<Longrightarrow> scalar_str q"
  by (auto simp: grep_relative_path_def Let_def scalar_str_def list_all_iff dest: in_set_dropD split: if_splits)

lemma match_cursor_ok:
  assumes "grep_cursor_for_match E pfx (sha256 E qd) m mismatch AFTER_MATCH = Inr c" "nameable pfx m" "0 < gm_line_number m"
    and "\<And>bs. grep_content_hash (sha256 E bs)" "\<exists>data. gm_content_hash m = sha256 E data"
  shows "cursor_ok c"
proof -
  note cur = cursor_of_match [OF assms(1)]
  have "grep_content_hash (cu_prefix_hash c)" "grep_content_hash (cu_pattern_hash c)" "grep_content_hash (gm_content_hash m)"
    using cur(7,8) assms(4,5) by auto
  moreover have "scalar_str (cu_path c)" "cu_path c = [] \<or> valid_path (cu_path c)"
    using assms(2) cur(6) relative_scalar by (auto simp: nameable_def)
  ultimately show ?thesis using cur assms(3) by (simp add: cursor_ok_def position_def)
qed

text \<open>The output of ripgrep ends by itself, and begin and end of each file enclose its matches.\<close>

definition well_delimited :: "env \<Rightarrow> ripgrep \<Rightarrow> str \<Rightarrow> str \<Rightarrow> str \<Rightarrow> bool" where
  "well_delimited E R user pattern pfx =
     (case user_root E user of
        Inl _ \<Rightarrow> True
      | Inr base \<Rightarrow>
          (case (if pfx = [] then Inr base else tree_path E user pfx) of
             Inl _ \<Rightarrow> True
           | Inr target \<Rightarrow> Rg_Silent \<notin> set (g_reads R pattern target) \<and>
               framed R (grep_job_of user pfx [] [] 0 1 base None) None (records_of (stream (g_reads R pattern target)))))"

lemma kind_place: "j_root j' = j_root j \<Longrightarrow> j_prefix j' = j_prefix j \<Longrightarrow> kind_of_record R j' raw = kind_of_record R j raw"
  by (simp only: kind_of_record_def record_place_def)

lemma framed_place: "j_root j' = j_root j \<Longrightarrow> j_prefix j' = j_prefix j \<Longrightarrow> framed R j' active raws = framed R j active raws"
  by (induction raws arbitrary: active) (simp_all add: kind_place [of j' j])

lemma well_delimitedD:
  assumes "well_delimited E R user pattern pfx" "user_root E user = Inr base" "(if pfx = [] then Inr base else tree_path E user pfx) = Inr target"
    "j_root j = base" "j_prefix j = pfx"
  shows "Rg_Silent \<notin> set (g_reads R pattern target)" "framed R j None (records_of (stream (g_reads R pattern target)))"
  using assms framed_place [of j "grep_job_of user pfx [] [] 0 1 base None"] by (simp_all add: well_delimited_def grep_job_of_def)

lemma page_shifted:
  assumes "rel_sum (=) (shifted_result ms) r r'" "encode_grep_cursor c = Inr text"
  shows "bindE r (page_of_result None None) =
    map_sum id (\<lambda>rest. rest\<lparr>gp_items := ms @ gp_items rest\<rparr>) (bindE r' (page_of_result (Some text) (Some c)))"
proof (cases r)
  case (Inl e)
  then show ?thesis using assms(1) by (cases r') (simp_all add: bindE_def)
next
  case (Inr x)
  then obtain y where y: "r' = Inr y" "shifted_result ms x y" using assms(1) by (cases r') simp_all
  have page: "grep_page_of (ms @ xs) why cur = map_sum id (\<lambda>rest. rest\<lparr>gp_items := ms @ gp_items rest\<rparr>) (grep_page_of xs why cur)" for xs why cur
    by (simp add: grep_page_of_def set_continuation_action_def)
  show ?thesis using y(2) assms(2) unfolding Inr y(1)
    by (auto simp: page_of_result_def shifted_result_def bindE_def Let_def page split: option.split sum.split)
qed

lemma pages_join:
  assumes "never_late R (g_clock R 0 + timeout_seconds)" "well_delimited E R user pattern pfx" "\<And>bs. grep_content_hash (sha256 E bs)"
    and "grep E R user pattern pfx limit timeout_seconds None w = Inr first" "gp_stopped_by first = Some LIMIT"
    and "gp_next_cursor first = Some text" "apart (gp_items first)" "\<forall>m \<in> set (gp_items first). nameable pfx m" "0 < further"
  shows "grep E R user pattern pfx (limit + further) timeout_seconds None w =
    map_sum id (\<lambda>rest. rest\<lparr>gp_items := gp_items first @ gp_items rest\<rparr>) (grep E R user pattern pfx further timeout_seconds (Some text) w)"
proof -
  let ?d = "g_clock R 0 + timeout_seconds"
  obtain base target pd qd where t: "user_root E user = Inr base" "(if pfx = [] then Inr base else tree_path E user pfx) = Inr target"
    "utf8_encode pfx = Inr pd"
    and fresh: "\<And>l. 0 < l \<Longrightarrow> \<exists>n. grep E R user pattern pfx l timeout_seconds None w =
      bindE (scan_of E R w pattern target (search_job E user pfx pd qd ?d base l) False n) (page_of_result None None)"
    and again: "\<And>l text c. 0 < l \<Longrightarrow> decode_grep_cursor text = Inr c \<Longrightarrow> cu_version c = 3 \<Longrightarrow> cu_mode c = AFTER_MATCH \<Longrightarrow>
       cu_prefix_hash c = sha256 E pd \<Longrightarrow> cu_pattern_hash c = sha256 E qd \<Longrightarrow>
       \<exists>n. grep E R user pattern pfx l timeout_seconds (Some text) w =
        bindE (scan_of E R w pattern target ((search_job E user pfx pd qd ?d base l)
          \<lparr>j_resume := Some c, j_resume_path := grep_absolute_path pfx (cu_path c)\<rparr>) (cu_catalog_mismatch c) n) (page_of_result (Some text) (Some c))"
    by (rule grep_scan [OF assms(1,4,5)]) (rule that, assumption+)
  let ?j = "search_job E user pfx pd qd ?d base"
  let ?reads = "g_reads R pattern target" and ?code = "g_exit R pattern target"
  let ?raws = "records_of (stream ?reads)"
  have j: "j_limit (?j l) = nat l" "j_resume (?j l) = None" "j_deadline (?j l) = ?d" "j_prefix (?j l) = pfx" "j_root (?j l) = base"
      "j_pattern_hash (?j l) = sha256 E qd" for l
    by (simp_all add: search_job_def grep_job_of_def)
  have late: "never_late R (j_deadline (?j l))" for l using assms(1) j by simp
  have limit: "0 < limit" using grep_within_limit [OF assms(4)] assms(4)
    by (cases "limit \<le> 0") (auto simp: grep_def grep_action_def raise_def)
  note wd = well_delimitedD [OF assms(2) t(1,2)]
  have silent: "Rg_Silent \<notin> set ?reads" and framed: "framed R (?j limit) None ?raws" using wd [of "?j limit"] j by simp_all
  obtain n0 x where x: "scan_of E R w pattern target (?j limit) False n0 = Inr x" "page_of_result None None x = Inr first"
  proof -
    obtain n where n: "grep E R user pattern pfx limit timeout_seconds None w =
        bindE (scan_of E R w pattern target (?j limit) False n) (page_of_result None None)"
      using fresh [OF limit] by blast
    then have "bindE (scan_of E R w pattern target (?j limit) False n) (page_of_result None None) = Inr first"
      using assms(4) by (rule trans [OF sym])
    then show thesis using that [of n] by (cases "scan_of E R w pattern target (?j limit) False n") (simp_all add: bindE_def)
  qed
  let ?s = "initial_scan True False True n0"
  obtain u where u: "run_scan E R w (?j limit) ?reads ?code ?s = (Inr x, u)"
    using x(1) j by (cases "run_scan E R w (?j limit) ?reads ?code ?s") (simp add: scan_of_def)
  obtain c where c: "gs_stopped_by x = Some LIMIT" "gs_next_cursor x = Some c" "encode_grep_cursor c = Inr text" "gs_matches x = gp_items first"
    using x(2) assms(5,6) page_of_items(2) [OF x(2)]
    by (auto simp: page_of_result_def Let_def bindE_def grep_page_of_def set_continuation_action_def split: if_splits option.splits sum.splits)
  obtain v where v: "read_records E R w (?j limit) [] ?reads ?s = (Inr (Some x), v)"
    using run_scan_limit [OF u c(1)] j by (auto simp: legacy_logical_def)
  have reading: "alike (read_records E R w k [] ?reads (s\<lparr>sc_ticks := n\<rparr>)) (consume_all E R w k ?raws s)" if "j_deadline k = ?d" for k s n
    using read_records_alike [where R = R and j = k and reads = ?reads and pending = "[]" and E = E and w = w and s = s and n = n] silent assms(1) that by simp
  have "alike (read_records E R w (?j limit) [] ?reads (?s\<lparr>sc_ticks := n0\<rparr>)) (consume_all E R w (?j limit) ?raws ?s)" by (rule reading) (rule j)
  then obtain v' where v': "consume_all E R w (?j limit) ?raws ?s = (Inr (Some x), v')"
    using v by (cases "consume_all E R w (?j limit) ?raws ?s") (auto simp: alike_def initial_scan_def)
  have init: "sc_anchor_found ?s" "sc_matches ?s = []" "sc_replayed ?s" "sc_candidates ?s = []" "sc_active_path ?s = None"
    by (simp_all add: initial_scan_def)
  have pos: "0 < j_limit (?j limit)" using limit j by simp
  note facts = limit_facts [OF late j(2) pos init(1,2) v' c(1,2)]
  obtain m mismatch where m: "m \<in> set (gp_items first)" "0 < gm_line_number m"
      "grep_cursor_for_match E pfx (sha256 E qd) m mismatch AFTER_MATCH = Inr c"
    using facts(2) j c(4) by auto
  have sha: "\<exists>data. gm_content_hash m = sha256 E data" if "m \<in> set (gp_items first)" for m
    using grep_genuine [OF assms(4)] that by (auto simp: genuine_def)
  have ok: "cursor_ok c" by (rule match_cursor_ok [OF m(3) _ m(2) assms(3) sha [OF m(1)]]) (use assms(8) m(1) in blast)
  have decode: "decode_grep_cursor text = Inr c" by (rule cursor_roundtrip [OF ok c(3)])
  note cur = cursor_of_match [OF m(3)]
  let ?k = "(?j further)\<lparr>j_resume := Some c, j_resume_path := grep_absolute_path pfx (cu_path c)\<rparr>"
  obtain n1 where n1: "grep E R user pattern pfx (limit + further) timeout_seconds None w =
      bindE (scan_of E R w pattern target (?j (limit + further)) False n1) (page_of_result None None)"
    using fresh [of "limit + further"] limit assms(9) by auto
  obtain n2 where n2: "grep E R user pattern pfx further timeout_seconds (Some text) w =
      bindE (scan_of E R w pattern target ?k (cu_catalog_mismatch c) n2) (page_of_result (Some text) (Some c))"
    using again [OF assms(9) decode cur(1,2)] cur(7,8) t(3) by auto
  let ?s' = "initial_scan False (cu_catalog_mismatch c) True n2"
  have job: "(?j limit)\<lparr>j_limit := nat (limit + further)\<rparr> = ?j (limit + further)"
    "?k = (?j limit)\<lparr>j_limit := nat (limit + further) - length (gs_matches x), j_resume := Some c, j_resume_path := grep_absolute_path pfx (cu_path c)\<rparr>"
    using facts(1) limit assms(9) j(1) by (simp_all add: search_job_def grep_job_of_def nat_add_distrib)
  have agree: "agree (shifted (gs_matches x)) (rel_option (shifted_result (gs_matches x)))
      (consume_all E R w ((?j limit)\<lparr>j_limit := nat (limit + further)\<rparr>) ?raws ?s) (consume_all E R w ?k ?raws ?s')"
  proof (rule continuation [OF late j(2) _ pos init v' c(1) framed])
    show "j_limit (?j limit) < nat (limit + further)" using j(1) limit assms(9) by simp
    show "apart (gs_matches x)" using assms(7) c(4) by simp
    show "valid_path (gm_path m) \<and> \<not> startswith (gm_content_hash m) (lit ''stat:'')" if "m \<in> set (gs_matches x)" for m
    proof -
      have m: "m \<in> set (gp_items first)" using that c(4) by simp
      obtain data where d: "gm_content_hash m = sha256 E data" using sha [OF m] by blast
      show ?thesis using assms(3) [of data] assms(8) m unfolding d
        by (auto simp: nameable_def grep_content_hash_def startswith_def lit_def prefix_def)
    qed
    show "gs_next_cursor x = Some c" by (rule c)
    show "?k = (?j limit)\<lparr>j_limit := nat (limit + further) - length (gs_matches x), j_resume := Some c,
        j_resume_path := grep_absolute_path (j_prefix (?j limit)) (cu_path c)\<rparr>" using job(2) j(4) by simp
    show "?s' = ?s\<lparr>sc_anchor_found := False, sc_mismatch := cu_catalog_mismatch c, sc_files := 0, sc_ticks := n2\<rparr>"
      by (simp add: initial_scan_def)
  qed
  have cont: "continues (?j (limit + further)) c ?k"
    using cur(1,2) by (simp add: continues_def same_job_def search_job_def grep_job_of_def)
  have "agree (shifted (gs_matches x)) (rel_option (shifted_result (gs_matches x)))
      (read_records E R w (?j (limit + further)) [] ?reads (?s\<lparr>sc_ticks := n1\<rparr>)) (read_records E R w ?k [] ?reads (?s'\<lparr>sc_ticks := n2\<rparr>))"
    by (rule shifted_alike [OF reading reading agree [unfolded job(1)]]) (simp_all add: j)
  then have "agree (shifted (gs_matches x)) (shifted_result (gs_matches x))
      (run_scan E R w (?j (limit + further)) ?reads ?code (?s\<lparr>sc_ticks := n1\<rparr>)) (run_scan E R w ?k ?reads ?code (?s'\<lparr>sc_ticks := n2\<rparr>))"
    by (rule agree_run_scan [OF cont])
  moreover have "?s\<lparr>sc_ticks := n1\<rparr> = initial_scan True False True n1" "?s'\<lparr>sc_ticks := n2\<rparr> = ?s'" by (simp_all add: initial_scan_def)
  ultimately have "rel_sum (=) (shifted_result (gs_matches x)) (scan_of E R w pattern target (?j (limit + further)) False n1)
      (scan_of E R w pattern target ?k (cu_catalog_mismatch c) n2)"
    using j(2) by (simp add: agree_def scan_of_def)
  then show ?thesis unfolding n1 n2 c(4) [symmetric] by (rule page_shifted [OF _ c(3)])
qed

end
