(* ===== verification/Credentials.thy ===== *)
theory Credentials
  imports Auth Catalog
begin

text \<open>
  The credential store of \<open>src/ctxfs/credentials.py\<close>: issued API keys, kept as salted verifiers,
  their verification, rotation and revocation, and the ledger of single-use enrollments.
\<close>

section \<open>Code that may not return\<close>

text \<open>\<open>None\<close> stands for code that runs forever.\<close>

type_synonym ('s, 'a) run = "'s \<Rightarrow> ('a res \<times> 's) option"

definition returns :: "('s, 'a) act \<Rightarrow> ('s, 'a) run" where
  "returns m s = Some (m s)"

definition bindR :: "('s, 'a) run \<Rightarrow> ('a \<Rightarrow> ('s, 'b) run) \<Rightarrow> ('s, 'b) run" where
  "bindR m f s =
     (case m s of
        None \<Rightarrow> None
      | Some (Inl e, s') \<Rightarrow> Some (Inl e, s')
      | Some (Inr x, s') \<Rightarrow> f x s')"

lemma bindR_Some:
  "bindR m f s = Some (Inr y, s') \<longleftrightarrow> (\<exists>x s1. m s = Some (Inr x, s1) \<and> f x s1 = Some (Inr y, s'))"
  by (auto simp: bindR_def split: option.splits prod.splits sum.splits)

lemma returns_Some: "returns m s = Some (r, s') \<longleftrightarrow> m s = (r, s')"
  by (simp add: returns_def)

section \<open>State\<close>

text \<open>
  What the store takes from outside: \<open>secrets.token_urlsafe(n)\<close> and \<open>secrets.token_bytes(16)\<close> in the
  order of the draws, and \<open>hashlib.scrypt\<close> with the parameters of the module.
\<close>

record secret_source =
  s_urlsafe :: "nat \<Rightarrow> nat \<Rightarrow> str"
  s_salt :: "nat \<Rightarrow> bytes"
  s_scrypt :: "bytes \<Rightarrow> bytes \<Rightarrow> bytes"

record credential =
  cred_key_id :: str
  cred_name :: str
  cred_scopes :: "scope set"
  cred_prefixes :: "str list"
  cred_created_at :: rat
  expires_at :: "rat option"
  revoked_at :: "rat option"
  replaced_by :: "str option"
  cred_machine_id :: "str option"
  rotation_from :: "str option"

text \<open>A row of \<open>credentials\<close>: the JSON of scopes and prefixes is kept as what it encodes.\<close>

record credential_row = credential +
  salt :: bytes
  verifier :: bytes

record issued_credential =
  issued :: credential
  token :: str

record enrollment_use =
  use_key_id :: str
  use_registration_id :: str
  use_fingerprint :: str
  use_machine_id :: "str option"
  use_created_at :: rat

text \<open>The database of credentials, the number of draws, and the world with the catalogue and the clock.\<close>

record vault =
  v_creds :: "credential_row list"
  v_uses :: "enrollment_use list"
  v_draws :: nat
  v_salts :: nat
  v_world :: world

definition on_world :: "(world, 'a) act \<Rightarrow> (vault, 'a) act" where
  "on_world m v = (case m (v_world v) of (r, w) \<Rightarrow> (r, v\<lparr>v_world := w\<rparr>))"

definition the_time :: "env \<Rightarrow> (vault, rat) act" where
  "the_time E = on_world (now E)"

definition urlsafe :: "secret_source \<Rightarrow> nat \<Rightarrow> (vault, str) act" where
  "urlsafe S n v = (Inr (s_urlsafe S n (v_draws v)), v\<lparr>v_draws := Suc (v_draws v)\<rparr>)"

definition fresh_salt :: "secret_source \<Rightarrow> (vault, bytes) act" where
  "fresh_salt S v = (Inr (s_salt S (v_salts v)), v\<lparr>v_salts := Suc (v_salts v)\<rparr>)"

definition on_creds :: "(credential_row list \<Rightarrow> credential_row list) \<Rightarrow> (vault, unit) act" where
  "on_creds f v = (Inr (), v\<lparr>v_creds := f (v_creds v)\<rparr>)"

text \<open>\<open>with self.connection\<close> and \<open>immediate_transaction\<close>: the credential database is rolled back.\<close>

definition undone :: "vault \<Rightarrow> vault \<Rightarrow> vault" where
  "undone v v' = v'\<lparr>v_creds := v_creds v, v_uses := v_uses v\<rparr>"

definition cred_transaction :: "(vault, 'a) act \<Rightarrow> (vault, 'a) act" where
  "cred_transaction m v = (case m v of (Inl e, v') \<Rightarrow> (Inl e, undone v v') | (Inr x, v') \<Rightarrow> (Inr x, v'))"

definition immediate_transaction :: "(vault, 'a) run \<Rightarrow> (vault, 'a) run" where
  "immediate_transaction m v =
     map_option (\<lambda>(r, v'). (r, case r of Inl _ \<Rightarrow> undone v v' | Inr _ \<Rightarrow> v')) (m v)"

section \<open>Tokens\<close>

text \<open>\<open>[A-Za-z0-9_-]\<close>, and the two patterns.\<close>

definition token_char :: "int \<Rightarrow> bool" where
  "token_char c = (65 \<le> c \<and> c \<le> 90 \<or> 97 \<le> c \<and> c \<le> 122 \<or> 48 \<le> c \<and> c \<le> 57 \<or> c = 95 \<or> c = 45)"

definition key_id_pattern :: "str \<Rightarrow> bool" where
  "key_id_pattern s = (length s = 16 \<and> list_all token_char s)"

definition secret_pattern :: "str \<Rightarrow> bool" where
  "secret_pattern s = (length s = 43 \<and> list_all token_char s)"

definition make_token :: "str \<Rightarrow> str \<Rightarrow> str" where
  "make_token kid secret = lit ''ctxfs'' @ 46 # kid @ 46 # secret"

definition parse_token :: "str \<Rightarrow> str option" where
  "parse_token tok =
     (case split_on 46 tok of
        [p, kid, secret] \<Rightarrow>
          if p = lit ''ctxfs'' \<and> key_id_pattern kid \<and> secret_pattern secret then Some kid else None
      | _ \<Rightarrow> None)"

definition validate_key_id :: "str \<Rightarrow> unit res" where
  "validate_key_id kid = guardE (key_id_pattern kid) (ValueError ''invalid credential key ID'')"

definition derive :: "secret_source \<Rightarrow> str \<Rightarrow> bytes \<Rightarrow> bytes res" where
  "derive S tok the_salt = bindE (utf8_encode tok) (\<lambda>data. Inr (s_scrypt S data the_salt))"

section \<open>Issuing\<close>

definition credential_of :: "credential_row \<Rightarrow> credential" where
  "credential_of r = credential.truncate r"

text \<open>\<open>Credential.active\<close>, which reads the clock only for a credential that may have expired.\<close>

definition active :: "env \<Rightarrow> credential \<Rightarrow> (vault, bool) act" where
  "active E c =
     (case revoked_at c of
        Some _ \<Rightarrow> ret False
      | None \<Rightarrow> (case expires_at c of
          None \<Rightarrow> ret True
        | Some t \<Rightarrow> bindS (the_time E) (\<lambda>current. ret (current < t))))"

text \<open>\<open>while key_id.startswith("-")\<close>: key ids are drawn until one does not start with a dash.\<close>

partial_function (option) draw_key_id :: "secret_source \<Rightarrow> vault \<Rightarrow> (str res \<times> vault) option" where
  "draw_key_id S v =
     (let kid = s_urlsafe S 12 (v_draws v); v' = v\<lparr>v_draws := Suc (v_draws v)\<rparr>
      in if startswith kid (lit ''-'') then draw_key_id S v' else Some (Inr kid, v'))"

definition clean_credential_name :: "str \<Rightarrow> str res" where
  "clean_credential_name name =
     (let clean = strip name in
      if clean = [] then Inl (ValueError ''credential name must be non-empty'')
      else if length clean > 128 then Inl (ValueError ''credential name must be at most 128 characters'')
      else if has_control_character clean then Inl (ValueError ''credential name cannot contain control characters'')
      else Inr clean)"

definition prepare ::
  "env \<Rightarrow> secret_source \<Rightarrow> str \<Rightarrow> scope set \<Rightarrow> str list \<Rightarrow> rat option \<Rightarrow> str option \<Rightarrow> str option \<Rightarrow>
   (vault, issued_credential \<times> bytes \<times> bytes) run" where
  "prepare E S name scps pfxs expires machine rotated =
     bindR (returns (liftE (clean_credential_name name))) (\<lambda>clean_name.
     if scps = {} then returns (raise (ValueError ''credential must have at least one scope'')) else
     bindR (draw_key_id S) (\<lambda>kid.
     returns (
     bindS (urlsafe S 32) (\<lambda>secret.
     let tok = make_token kid secret in
     bindS (liftE (make_grant \<lparr>grant_principal_id = kid, grant_key_id = kid, grant_scopes = scps,
        grant_prefixes = pfxs, grant_machine_id = machine\<rparr>)) (\<lambda>g.
     bindS (the_time E) (\<lambda>t.
     if (case expires of None \<Rightarrow> False | Some x \<Rightarrow> x \<le> t)
     then raise (ValueError ''credential expiry must be a finite time in the future'') else
     bindS (fresh_salt S) (\<lambda>the_salt.
     bindS (liftE (derive S tok the_salt)) (\<lambda>ver.
     ret (\<lparr>issued = \<lparr>cred_key_id = kid, cred_name = clean_name, cred_scopes = grant_scopes g,
          cred_prefixes = grant_prefixes g, cred_created_at = t, expires_at = expires, revoked_at = None,
          replaced_by = None, cred_machine_id = machine, rotation_from = rotated\<rparr>, token = tok\<rparr>,
         the_salt, ver)))))))))"

definition insert_credential :: "credential \<Rightarrow> bytes \<Rightarrow> bytes \<Rightarrow> (vault, unit) act" where
  "insert_credential c the_salt ver v =
     (if list_ex (\<lambda>r. cred_key_id r = cred_key_id c) (v_creds v)
      then (Inl (IntegrityError ''UNIQUE constraint failed: credentials.key_id''), v)
      else (Inr (), v\<lparr>v_creds := v_creds v @
             [credential.extend (c\<lparr>revoked_at := None, replaced_by := None\<rparr>) (credential_row.fields the_salt ver)]\<rparr>))"

definition create_credential ::
  "env \<Rightarrow> secret_source \<Rightarrow> str \<Rightarrow> scope set \<Rightarrow> str list \<Rightarrow> rat option \<Rightarrow> (vault, issued_credential) run" where
  "create_credential E S name scps pfxs expires =
     bindR (prepare E S name scps pfxs expires None None) (\<lambda>(i, the_salt, ver).
     returns (bindS (cred_transaction (insert_credential (issued i) the_salt ver)) (\<lambda>_. ret i)))"

definition issue_machine ::
  "env \<Rightarrow> secret_source \<Rightarrow> str \<Rightarrow> str \<Rightarrow> str option \<Rightarrow> (vault, issued_credential) run" where
  "issue_machine E S mid mkey rotated =
     bindR (prepare E S (lit ''machine:'' @ mid) {SUBMIT, STATUS_WRITE} [lit ''machines/'' @ mkey] None (Some mid) rotated)
       (\<lambda>(i, the_salt, ver).
     returns (bindS (insert_credential (issued i) the_salt ver) (\<lambda>_. ret i)))"

section \<open>Looking up\<close>

definition row_by_key_id :: "str \<Rightarrow> credential_row list \<Rightarrow> credential_row option" where
  "row_by_key_id kid rows = List.find (\<lambda>r. cred_key_id r = kid) rows"

definition list_credentials :: "credential_row list \<Rightarrow> credential list" where
  "list_credentials rows = map credential_of (sort_key (\<lambda>r. (cred_created_at r, cred_key_id r)) rows)"

definition get_credential :: "str \<Rightarrow> credential_row list \<Rightarrow> credential res" where
  "get_credential kid rows =
     bindE (validate_key_id kid) (\<lambda>_.
     case row_by_key_id kid rows of
       None \<Rightarrow> Inl (ValueError ''unknown credential'')
     | Some r \<Rightarrow> Inr (credential_of r))"

definition machine_credentials :: "str \<Rightarrow> credential_row list \<Rightarrow> credential list" where
  "machine_credentials mid rows =
     map credential_of (sort_key (\<lambda>r. (cred_created_at r, cred_key_id r))
       (filter (\<lambda>r. cred_machine_id r = Some mid) rows))"

definition credential_grant_of :: "credential \<Rightarrow> credential_grant res" where
  "credential_grant_of c = make_grant \<lparr>grant_principal_id = cred_key_id c, grant_key_id = cred_key_id c,
     grant_scopes = cred_scopes c, grant_prefixes = cred_prefixes c, grant_machine_id = cred_machine_id c\<rparr>"

text \<open>The checks of \<open>verify\<close> on the row of the key, at the time \<open>current\<close>.\<close>

definition usable_at :: "rat \<Rightarrow> credential_row \<Rightarrow> bool" where
  "usable_at current r =
     (revoked_at r = None \<and> (case expires_at r of None \<Rightarrow> True | Some t \<Rightarrow> current < t))"

definition verify :: "env \<Rightarrow> secret_source \<Rightarrow> str \<Rightarrow> rat option \<Rightarrow> (vault, credential_grant option) act" where
  "verify E S tok at_time =
     (case parse_token tok of
        None \<Rightarrow> ret None
      | Some kid \<Rightarrow>
          bindS (gets (\<lambda>v. row_by_key_id kid (v_creds v))) (\<lambda>row.
          case row of
            None \<Rightarrow> ret None
          | Some r \<Rightarrow>
              bindS (liftE (derive S tok (salt r))) (\<lambda>ver.
              if ver \<noteq> verifier r then ret None else
              bindS (case at_time of None \<Rightarrow> the_time E | Some t \<Rightarrow> ret t) (\<lambda>current.
              if \<not> usable_at current r then ret None else
              bindS (liftE (credential_grant_of (credential_of r))) (\<lambda>g. ret (Some g))))))"

section \<open>Enrollments\<close>

definition use_of :: "str \<Rightarrow> enrollment_use list \<Rightarrow> enrollment_use option" where
  "use_of kid uses = List.find (\<lambda>u. use_key_id u = kid) uses"

definition consume_enrollment :: "env \<Rightarrow> str \<Rightarrow> str \<Rightarrow> str \<Rightarrow> (vault, bool) act" where
  "consume_enrollment E kid registration fingerprint =
     bindS (gets (\<lambda>v. use_of kid (v_uses v))) (\<lambda>use.
     case use of
       None \<Rightarrow>
         bindS (the_time E) (\<lambda>t.
         bindS (modify (\<lambda>v. v\<lparr>v_uses := v_uses v @ [\<lparr>use_key_id = kid, use_registration_id = registration,
            use_fingerprint = fingerprint, use_machine_id = None, use_created_at = t\<rparr>]\<rparr>)) (\<lambda>_.
         ret False))
     | Some u \<Rightarrow>
         if use_registration_id u \<noteq> registration \<or> use_fingerprint u \<noteq> fingerprint
         then raise (EnrollmentConsumedError ''enrollment credential already consumed'')
         else ret True)"

definition bindable :: "str \<Rightarrow> str \<Rightarrow> enrollment_use \<Rightarrow> bool" where
  "bindable kid mid u = (use_key_id u = kid \<and> (use_machine_id u = None \<or> use_machine_id u = Some mid))"

definition bind_enrollment_use :: "str \<Rightarrow> str \<Rightarrow> (vault, unit) act" where
  "bind_enrollment_use kid mid v =
     (let n = count_where (bindable kid mid) (v_uses v);
          v' = v\<lparr>v_uses := update_where (bindable kid mid) (\<lambda>u. u\<lparr>use_machine_id := Some mid\<rparr>) (v_uses v)\<rparr>
      in if n \<noteq> 1 then (Inl (EnrollmentConsumedError ''enrollment credential already consumed''), v')
         else (Inr (), v'))"

section \<open>Revocation and rotation\<close>

text \<open>\<open>COALESCE(a, b)\<close>.\<close>

definition coalesce :: "'a option \<Rightarrow> 'a option \<Rightarrow> 'a option" where
  "coalesce a b = (case a of None \<Rightarrow> b | Some _ \<Rightarrow> a)"

definition revoke_row :: "rat \<Rightarrow> str option \<Rightarrow> credential_row \<Rightarrow> credential_row" where
  "revoke_row t successor r =
     r\<lparr>revoked_at := coalesce (revoked_at r) (Some t), replaced_by := coalesce (replaced_by r) successor\<rparr>"

definition revoke_machine_key :: "env \<Rightarrow> str \<Rightarrow> str \<Rightarrow> str option \<Rightarrow> (vault, credential) act" where
  "revoke_machine_key E kid mid successor =
     (let mine = (\<lambda>r. cred_key_id r = kid \<and> cred_machine_id r = Some mid) in
      bindS (the_time E) (\<lambda>t.
      bindS (gets (\<lambda>v. count_where mine (v_creds v))) (\<lambda>n.
      bindS (on_creds (update_where mine (revoke_row t successor))) (\<lambda>_.
      if n \<noteq> 1 then raise (ValueError ''unknown machine credential'') else
      bindS (gets (\<lambda>v. get_credential kid (v_creds v))) liftE))))"

definition revoke_credential :: "env \<Rightarrow> str \<Rightarrow> (vault, credential) act" where
  "revoke_credential E kid =
     bindS (liftE (validate_key_id kid)) (\<lambda>_.
     bindS (gets (\<lambda>v. get_credential kid (v_creds v))) (\<lambda>old.
     bindS (liftE old) (\<lambda>c.
     if cred_machine_id c \<noteq> None
     then raise (MachineCredentialLifecycleError ''machine credentials require coordinated revocation'') else
     bindS (the_time E) (\<lambda>t.
     bindS (cred_transaction (
       bindS (gets (\<lambda>v. count_where (\<lambda>r. cred_key_id r = kid) (v_creds v))) (\<lambda>n.
       bindS (on_creds (update_where (\<lambda>r. cred_key_id r = kid)
         (\<lambda>r. r\<lparr>revoked_at := coalesce (revoked_at r) (Some t)\<rparr>))) (\<lambda>_.
       if n \<noteq> 1 then raise (ValueError ''unknown credential'') else ret ())))) (\<lambda>_.
     bindS (gets (\<lambda>v. get_credential kid (v_creds v))) liftE)))))"

definition rotate_credential :: "env \<Rightarrow> secret_source \<Rightarrow> str \<Rightarrow> (vault, issued_credential) run" where
  "rotate_credential E S kid =
     bindR (returns (bindS (gets (\<lambda>v. get_credential kid (v_creds v))) liftE)) (\<lambda>old.
     if cred_machine_id old \<noteq> None
     then returns (raise (MachineCredentialLifecycleError ''machine credentials require coordinated rotation''))
     else if revoked_at old \<noteq> None then returns (raise (ValueError ''cannot rotate a revoked credential'')) else
     bindR (prepare E S (cred_name old) (cred_scopes old) (cred_prefixes old) (expires_at old) None None)
       (\<lambda>(i, the_salt, ver).
     returns (
     bindS (the_time E) (\<lambda>t.
     bindS (cred_transaction (
       let mine = (\<lambda>r. cred_key_id r = kid \<and> revoked_at r = None) in
       bindS (insert_credential (issued i) the_salt ver) (\<lambda>_.
       bindS (gets (\<lambda>v. count_where mine (v_creds v))) (\<lambda>n.
       bindS (on_creds (update_where mine
         (\<lambda>r. r\<lparr>revoked_at := Some t, replaced_by := Some (cred_key_id (issued i))\<rparr>))) (\<lambda>_.
       if n \<noteq> 1 then raise (ValueError ''credential was revoked during rotation'') else ret ()))))) (\<lambda>_.
     ret i)))))"

end
