(* ===== verification/Enrollment.thy ===== *)
theory Enrollment
  imports Credentials Json
begin

text \<open>
  The coordination of machine credentials of \<open>src/ctxfs/enrollment.py\<close>: registration by an
  enrollment, rotation in two phases and revocation. The catalogue commits on its own; the
  credential database is one transaction around each operation.
\<close>

record registration_request =
  rq_local_registration_id :: str
  rq_name :: str
  rq_description :: "str option"
  rq_platform :: "str option"
  rq_ctxd_version :: "str option"

record registration_result =
  rr_machine :: machine
  rr_key_id :: str
  rr_token :: str
  rr_recovered :: bool

record prepared_credential =
  pc_key_id :: str
  pc_token :: str

text \<open>\<open>_request_fingerprint\<close>: the digest of the trimmed request as JSON.\<close>

definition optional_strip :: "str option \<Rightarrow> json" where
  "optional_strip v = (case v of None \<Rightarrow> JNull | Some s \<Rightarrow> JStr (strip s))"

definition request_fingerprint :: "env \<Rightarrow> registration_request \<Rightarrow> str res" where
  "request_fingerprint E rq =
     (let payload = JObj
        [(lit ''ctxd_version'', optional_strip (rq_ctxd_version rq)),
         (lit ''description'', optional_strip (rq_description rq)),
         (lit ''local_registration_id'', JStr (strip (rq_local_registration_id rq))),
         (lit ''name'', JStr (strip (rq_name rq))),
         (lit ''platform'', optional_strip (rq_platform rq))]
      in bindE (utf8_encode (json_dumps payload)) (\<lambda>encoded. Inr (e_sha E encoded)))"

definition require_current :: "str \<Rightarrow> principal \<Rightarrow> str \<Rightarrow> bool \<Rightarrow> db \<Rightarrow> machine res" where
  "require_current user p mid allow_cleared d =
     bindE (machine_of user mid d) (\<lambda>m.
     if ADMIN \<in> scopes p then Inr m else
     let binding_matches = credential_key_id m = key_id p \<or> allow_cleared \<and> credential_key_id m = None in
     if principal_machine_id p \<noteq> Some mid \<or> key_id p = None \<or> \<not> binding_matches
     then Inl (MachineCredentialNotCurrentError ''machine_credential_not_current'')
     else Inr m)"

definition require_machine_credential :: "env \<Rightarrow> credential \<Rightarrow> machine \<Rightarrow> (vault, unit) act" where
  "require_machine_credential E c m =
     bindS (active E c) (\<lambda>is_active.
     if \<not> is_active \<or> cred_machine_id c \<noteq> Some (machine_id m) \<or> cred_scopes c \<noteq> {SUBMIT, STATUS_WRITE} \<or>
        cred_prefixes c \<noteq> [lit ''machines/'' @ machine_key m]
     then raise (ValueError ''invalid replacement machine credential'') else ret ())"

text \<open>The loop that revokes the active credentials of a machine, except the one \<open>keep\<close>.\<close>

fun revoke_others :: "env \<Rightarrow> str \<Rightarrow> str option \<Rightarrow> credential list \<Rightarrow> (vault, unit) act" where
  "revoke_others E mid keep [] = ret ()"
| "revoke_others E mid keep (c # cs) =
     bindS (if Some (cred_key_id c) = keep then ret False else active E c) (\<lambda>due.
     bindS (if due then bindS (revoke_machine_key E (cred_key_id c) mid None) (\<lambda>_. ret ()) else ret ()) (\<lambda>_.
     revoke_others E mid keep cs))"

definition catalog_machine ::
  "nat \<Rightarrow> env \<Rightarrow> str \<Rightarrow> registration_request \<Rightarrow> str option \<Rightarrow> bool \<Rightarrow> (vault, machine) run" where
  "catalog_machine fuel E user rq enrollment recovered v =
     map_option (\<lambda>(r, w). (r, v\<lparr>v_world := w\<rparr>))
       (register_machine fuel E user (rq_local_registration_id rq) (rq_name rq) (rq_description rq)
          (rq_platform rq) (rq_ctxd_version rq) enrollment recovered None (v_world v))"

definition read_catalog :: "(db \<Rightarrow> 'a res) \<Rightarrow> (vault, 'a) act" where
  "read_catalog f = on_world (readE f)"

definition creds_of :: "str \<Rightarrow> (vault, credential list) act" where
  "creds_of mid = gets (\<lambda>v. machine_credentials mid (v_creds v))"

definition find_credential :: "str \<Rightarrow> (vault, credential) act" where
  "find_credential kid = bindS (gets (\<lambda>v. get_credential kid (v_creds v))) liftE"

text \<open>\<open>assert principal.key_id is not None\<close>.\<close>

definition enrollment_key :: "principal \<Rightarrow> str res" where
  "enrollment_key p = (case key_id p of None \<Rightarrow> Inl (AssertionError '''') | Some k \<Rightarrow> Inr k)"

text \<open>The catalogue is bound to the new credential, and the credential it was bound to is replaced.\<close>

definition hand_over ::
  "env \<Rightarrow> str \<Rightarrow> machine \<Rightarrow> credential list \<Rightarrow> issued_credential \<Rightarrow> bool \<Rightarrow> (vault, registration_result) act" where
  "hand_over E user m creds i recovered =
     bindS (on_world (bind_machine_credential user (machine_id m) (credential_key_id m) (cred_key_id (issued i)))) (\<lambda>m'.
     bindS (case credential_key_id m of
         Some k \<Rightarrow> if list_ex (\<lambda>c. cred_key_id c = k) creds
           then bindS (revoke_machine_key E k (machine_id m') (Some (cred_key_id (issued i)))) (\<lambda>_. ret ()) else ret ()
       | None \<Rightarrow> ret ()) (\<lambda>_.
     ret \<lparr>rr_machine = m', rr_key_id = cred_key_id (issued i), rr_token = token i, rr_recovered = recovered\<rparr>))"

definition register ::
  "nat \<Rightarrow> env \<Rightarrow> secret_source \<Rightarrow> str \<Rightarrow> principal \<Rightarrow> registration_request \<Rightarrow> (vault, registration_result) run" where
  "register fuel E S user p rq =
     (if ADMIN \<notin> scopes p \<and> ENROLL \<notin> scopes p then returns (raise (PermissionError ''enrollment authority required'')) else
      let admin = ADMIN \<in> scopes p in
      bindR (returns (liftE (request_fingerprint E rq))) (\<lambda>fingerprint.
      immediate_transaction (
      bindR (returns (if admin then ret False else
         bindS (liftE (enrollment_key p)) (\<lambda>k.
         consume_enrollment E k (strip (rq_local_registration_id rq)) fingerprint))) (\<lambda>recovered.
      bindR (returns (read_catalog (machine_for_registration user (rq_local_registration_id rq)))) (\<lambda>existing.
      bindR (catalog_machine fuel E user rq (if admin then None else key_id p) recovered) (\<lambda>m.
      let recovered = (case existing of Some (_, bound) \<Rightarrow> if admin then recovered else bound = key_id p | None \<Rightarrow> recovered) in
      bindR (returns (creds_of (machine_id m))) (\<lambda>creds.
      bindR (returns (if admin then ret () else
         bindS (liftE (enrollment_key p)) (\<lambda>k. bind_enrollment_use k (machine_id m)))) (\<lambda>_.
      bindR (returns (revoke_others E (machine_id m) (credential_key_id m) creds)) (\<lambda>_.
      bindR (issue_machine E S (machine_id m) (machine_key m) None) (\<lambda>i.
      returns (hand_over E user m creds i recovered)))))))))))"

definition prepare_rotation ::
  "env \<Rightarrow> secret_source \<Rightarrow> str \<Rightarrow> principal \<Rightarrow> str \<Rightarrow> (vault, prepared_credential) run" where
  "prepare_rotation E S user p mid =
     immediate_transaction (
       bindR (returns (read_catalog (require_current user p mid False))) (\<lambda>m.
       bindR (returns (creds_of mid)) (\<lambda>creds.
       bindR (returns (revoke_others E mid (credential_key_id m) creds)) (\<lambda>_.
       bindR (issue_machine E S (machine_id m) (machine_key m) (credential_key_id m)) (\<lambda>i.
       returns (ret \<lparr>pc_key_id = cred_key_id (issued i), pc_token = token i\<rparr>))))))"

text \<open>The retry of a confirmation that the catalogue had committed.\<close>

definition confirm_again :: "env \<Rightarrow> principal \<Rightarrow> str \<Rightarrow> machine \<Rightarrow> str \<Rightarrow> (vault, machine) act" where
  "confirm_again E p mid m replacement_key =
     bindS (find_credential replacement_key) (\<lambda>replacement.
     bindS (require_machine_credential E replacement m) (\<lambda>_.
     case rotation_from replacement of
       None \<Rightarrow> raise (ValueError ''invalid rotation confirmation retry'')
     | Some predecessor_key \<Rightarrow>
         if ADMIN \<notin> scopes p \<and> key_id p \<noteq> Some replacement_key
         then raise (ValueError ''invalid rotation confirmation retry'') else
         bindS (find_credential predecessor_key) (\<lambda>predecessor.
         if cred_machine_id predecessor \<noteq> Some mid
         then raise (ValueError ''invalid rotation confirmation retry'') else
         bindS (active E predecessor) (\<lambda>first.
         if first \<and> replaced_by predecessor \<noteq> None
         then raise (ValueError ''invalid rotation confirmation retry'') else
         bindS (active E predecessor) (\<lambda>second.
         if \<not> second \<and> replaced_by predecessor \<noteq> Some replacement_key
         then raise (ValueError ''invalid rotation confirmation retry'') else
         bindS (active E predecessor) (\<lambda>third.
         bindS (if third then bindS (revoke_machine_key E (cred_key_id predecessor) mid (Some replacement_key)) (\<lambda>_. ret ())
                else ret ()) (\<lambda>_.
         ret m)))))))"

definition confirm_rotation ::
  "env \<Rightarrow> str \<Rightarrow> principal \<Rightarrow> str \<Rightarrow> str \<Rightarrow> (vault, machine) act" where
  "confirm_rotation E user p mid replacement_key =
     cred_transaction (
       bindS (read_catalog (require_current user p mid False)) (\<lambda>m.
       if credential_key_id m = Some replacement_key then confirm_again E p mid m replacement_key else
       bindS (find_credential replacement_key) (\<lambda>replacement.
       bindS (require_machine_credential E replacement m) (\<lambda>_.
       case credential_key_id m of
         None \<Rightarrow> raise (AssertionError '''')
       | Some old_key \<Rightarrow>
           if rotation_from replacement \<noteq> Some old_key
           then raise (ValueError ''replacement credential was not prepared for current key'') else
           bindS (on_world (bind_machine_credential user mid (Some old_key) replacement_key)) (\<lambda>m'.
           bindS (revoke_machine_key E old_key mid (Some replacement_key)) (\<lambda>_.
           ret m'))))))"

definition revoke_machine :: "env \<Rightarrow> str \<Rightarrow> principal \<Rightarrow> str \<Rightarrow> (vault, machine) act" where
  "revoke_machine E user p mid =
     cred_transaction (
       bindS (read_catalog (require_current user p mid True)) (\<lambda>m.
       case credential_key_id m of
         None \<Rightarrow>
           bindS (creds_of mid) (\<lambda>creds.
           bindS (revoke_others E mid None creds) (\<lambda>_. ret m))
       | Some kid \<Rightarrow>
           bindS (revoke_machine_key E kid mid None) (\<lambda>_.
           on_world (clear_machine_credential user mid kid))))"

end
