(* ===== verification/Server.thy ===== *)
theory Server
  imports Enrollment Search
begin

text \<open>
  The HTTP server of \<open>src/ctxd/local_ctxfs_server.py\<close>: authentication before routing, the scopes
  the endpoints require, the status codes exceptions become, and the endpoints. What the framework
  makes of a request (routing, the JSON of its body) is the component \<open>h_call\<close> of the request, with
  \<open>None\<close> for a body or for parameters of the wrong types. The runs of ripgrep a search makes and the
  clock of \<open>src/ctxd/_grep_timeout.py\<close> are parameters.
\<close>

definition LOCAL_CTXFS_USER_ID :: str where
  "LOCAL_CTXFS_USER_ID = lit ''local''"

datatype auth_mode = TRUSTED_LOCAL | BEARER

section \<open>Requests and replies\<close>

text \<open>\<open>_operation_from_payload\<close> is given what its \<open>kind\<close> selects.\<close>

datatype payload = Kinded operation | Other_Kind

record submission_request =
  sr_user_id :: "str option"
  sr_writer_id :: str
  sr_writer_prefix :: str
  sr_run_id :: str
  sr_sequence :: int
  sr_is_full_scan :: bool
  sr_operations :: "payload list"

record grep_request =
  gr_pattern :: str
  gr_prefix :: str
  gr_limit :: int
  gr_timeout_seconds :: rat
  gr_cursor :: "str option"

datatype tool =
    Tool_Ls str int
  | Tool_Tree str "int option" int
  | Tool_Glob str str int
  | Tool_Stat str
  | Tool_Read str int
  | Tool_Read_Lines str int int
  | Tool_Grep str str "int option" rat
  | Tool_Unknown

text \<open>The messages of MCP: the method, whether there is an id, and the tool of a call.\<close>

datatype mcp_method = Initialize | Ping | Notified_Initialized | Tools_List | Tools_Call "tool option" | Other_Method

record mcp_message =
  mcp_method :: mcp_method
  mcp_id :: "json option"

datatype api_call =
    Register "registration_request option"
  | Prepare str
  | Confirm str "str option"
  | Revoke str
  | Health
  | Mcp "mcp_message option"
  | Stat "str option"
  | Ls "(str \<times> int) option"
  | Tree "(str \<times> int option \<times> int) option"
  | Glob "(str \<times> str \<times> int) option"
  | Read "(str \<times> int) option"
  | Read_Lines "(str \<times> int \<times> int) option"
  | Grep "grep_request option"
  | Submit "submission_request option"
  | Unrouted nat

record http_request =
  h_method :: str
  h_path :: str
  h_authorization :: "str option"
  h_user_id :: "str option"
  h_call :: api_call

datatype answer =
    Entry_Value entry
  | Listing_Value "directory_entry bounded"
  | Text_Value read_result
  | Lines_Value read_lines_result
  | Grep_Value grep_page
  | Found_Value "grep_match list" "stop_reason option"

datatype rpc = Rpc_Initialized | Rpc_Pong | Rpc_Tools | Rpc_Value answer | Rpc_Failed string | Rpc_Error int

datatype content =
    Empty
  | Detail string
  | Credential_Body machine str str
  | Machine_Body machine
  | Submission_Body submission
  | Value_Body answer
  | Rpc_Body json rpc
  | Healthy

record reply =
  status :: nat
  content :: content

type_synonym endpoint = "(vault, reply) run"

section \<open>Exceptions\<close>

text \<open>\<open>except \<dots> as exc: raise \<dots> from exc\<close>.\<close>

definition reraise :: "(exn \<Rightarrow> exn) \<Rightarrow> ('s, 'a) act \<Rightarrow> ('s, 'a) act" where
  "reraise f m s = (case m s of (Inl e, s') \<Rightarrow> (Inl (f e), s') | (Inr x, s') \<Rightarrow> (Inr x, s'))"

definition reraiseR :: "(exn \<Rightarrow> exn) \<Rightarrow> ('s, 'a) run \<Rightarrow> ('s, 'a) run" where
  "reraiseR f m s = map_option (\<lambda>(r, s'). (map_sum f id r, s')) (m s)"

fun is_KeyError :: "exn \<Rightarrow> bool" where
  "is_KeyError (KeyError _) = True"
| "is_KeyError _ = False"

text \<open>\<open>_call_store\<close>.\<close>

definition store_error :: "exn \<Rightarrow> exn" where
  "store_error e =
     (case e of
        FileNotFoundError m \<Rightarrow> HTTPException 404 m
      | KeyError m \<Rightarrow> HTTPException 404 m
      | _ \<Rightarrow> if is_ValueError e then HTTPException 400 (exn_message e) else e)"

definition registration_error :: "exn \<Rightarrow> exn" where
  "registration_error e =
     (case e of
        EnrollmentConsumedError _ \<Rightarrow> HTTPException 409 ''enrollment_credential_consumed''
      | CatalogConflictError _ \<Rightarrow> HTTPException 409 ''machine_registration_conflict''
      | CatalogBindingConflictError m \<Rightarrow> HTTPException 409 m
      | _ \<Rightarrow> e)"

definition lifecycle_error :: "exn \<Rightarrow> exn" where
  "lifecycle_error e =
     (case e of
        MachineCredentialNotCurrentError m \<Rightarrow> HTTPException 403 m
      | _ \<Rightarrow> if is_KeyError e \<or> is_ValueError e then HTTPException 409 (exn_message e) else e)"

definition submission_error_of :: "exn \<Rightarrow> exn" where
  "submission_error_of e =
     (if is_PermissionError e then HTTPException 403 (exn_message e)
      else if is_ValueError e then HTTPException 400 (exn_message e) else e)"

text \<open>What the framework answers: an \<open>HTTPException\<close> with its status, anything else with 500.\<close>

definition reply_of :: "reply res \<Rightarrow> reply" where
  "reply_of r =
     (case r of
        Inr x \<Rightarrow> x
      | Inl (HTTPException n m) \<Rightarrow> \<lparr>status = n, content = Detail m\<rparr>
      | Inl _ \<Rightarrow> \<lparr>status = 500, content = Empty\<rparr>)"

section \<open>Authentication\<close>

definition bearer_token :: "str option \<Rightarrow> str option" where
  "bearer_token header =
     (case header of
        None \<Rightarrow> None
      | Some h \<Rightarrow>
          let scheme = takeWhile (\<lambda>c. c \<noteq> 32) h; rest = dropWhile (\<lambda>c. c \<noteq> 32) h; tok = tl rest in
          if rest = [] \<or> map ascii_lower scheme \<noteq> lit ''bearer'' \<or> tok = [] then None
          else if strip tok \<noteq> tok \<or> 32 \<in> set tok then None
          else Some tok)"

definition authenticate :: "env \<Rightarrow> secret_source \<Rightarrow> auth_mode \<Rightarrow> str option \<Rightarrow> (vault, principal option) act" where
  "authenticate E S mode header =
     (case mode of
        TRUSTED_LOCAL \<Rightarrow> liftE (local_socket_principal TRUSTED_ADMIN)
      | BEARER \<Rightarrow>
          (case bearer_token header of
             None \<Rightarrow> ret None
           | Some tok \<Rightarrow>
               bindS (verify E S tok None) (\<lambda>g.
               case g of None \<Rightarrow> ret None | Some g \<Rightarrow> liftE (bindE (grant_principal g) (\<lambda>p. Inr (Some p))))))"

definition auth_response :: reply where
  "auth_response = \<lparr>status = 401, content = Detail ''missing or invalid bearer credential''\<rparr>"

definition revoke_path :: "str \<Rightarrow> str" where
  "revoke_path mid = lit ''/api/ctxfs/machines/'' @ mid @ lit ''/credential''"

definition machine_credential_is_admissible :: "principal \<Rightarrow> str \<Rightarrow> str \<Rightarrow> db \<Rightarrow> bool res" where
  "machine_credential_is_admissible p method path d =
     (case (principal_machine_id p, key_id p) of
        (Some mid, Some k) \<Rightarrow>
          (case machine_of LOCAL_CTXFS_USER_ID mid d of
             Inl (KeyError _) \<Rightarrow> Inr False
           | Inl e \<Rightarrow> Inl e
           | Inr m \<Rightarrow>
               if credential_key_id m = Some k then Inr True
               else Inr (credential_key_id m = None \<and> method = lit ''DELETE'' \<and> path = revoke_path mid))
      | _ \<Rightarrow> Inr False)"

text \<open>The dependencies \<open>require(scope)\<close>, \<open>require_current_machine\<close> and \<open>_reject_user_id_query\<close>.\<close>

definition denial :: "authorization_decision \<Rightarrow> exn" where
  "denial d = HTTPException (case http_status d of Some n \<Rightarrow> n | None \<Rightarrow> 403)
     (case denial_reason d of
        Some UNAUTHENTICATED \<Rightarrow> ''unauthenticated''
      | Some MISSING_SCOPE \<Rightarrow> ''missing_scope''
      | Some PREFIX_REQUIRED \<Rightarrow> ''prefix_required''
      | Some PREFIX_NOT_GRANTED \<Rightarrow> ''prefix_not_granted''
      | None \<Rightarrow> ''denied'')"

definition require :: "principal \<Rightarrow> scope \<Rightarrow> unit res" where
  "require p s =
     bindE (authorize (Some p) s (if s = SUBMIT \<and> prefixes p \<noteq> [] then Some (hd (prefixes p)) else None)) (\<lambda>d.
     guardE (allowed d) (denial d))"

definition require_current_machine :: "principal \<Rightarrow> str \<Rightarrow> unit res" where
  "require_current_machine p mid =
     guardE (ADMIN \<in> scopes p \<or> principal_machine_id p = Some mid)
       (HTTPException 403 ''machine_credential_not_current'')"

definition reject_user_id_query :: "str option \<Rightarrow> unit res" where
  "reject_user_id_query user =
     guardE (user = None) (HTTPException 400 ''ctxfs local user identity is derived by the service'')"

definition authenticate_mcp :: "mcp_message \<Rightarrow> principal \<Rightarrow> unit res" where
  "authenticate_mcp m p =
     bindE (authorize (Some p) (if mcp_method m \<in> {Initialize, Ping, Notified_Initialized} then STATUS else READ) None)
       (\<lambda>d. guardE (allowed d) (denial d))"

section \<open>Bodies and parameters\<close>

text \<open>A body or parameters that do not validate are refused with 422, after the dependencies have run.\<close>

definition valid :: "('a \<Rightarrow> bool) \<Rightarrow> 'a option \<Rightarrow> 'a res" where
  "valid ok x =
     (case x of
        Some v \<Rightarrow> if ok v then Inr v else Inl (HTTPException 422 '''')
      | None \<Rightarrow> Inl (HTTPException 422 ''''))"

definition body_text_ok :: "str \<Rightarrow> bool" where
  "body_text_ok v = (strip v \<noteq> [] \<and> \<not> has_control_character (strip v))"

definition registration_body_ok :: "registration_request \<Rightarrow> bool" where
  "registration_body_ok rq =
     (list_all (\<lambda>v. len_1_128 v \<and> body_text_ok v) [rq_local_registration_id rq, rq_name rq] \<and>
      list_all (opt_ok (\<lambda>v. length v \<le> 128 \<and> body_text_ok v)) [rq_platform rq, rq_ctxd_version rq] \<and>
      opt_ok (\<lambda>v. length v \<le> 1024 \<and> \<not> has_control_character v) (rq_description rq))"

definition submission_request_ok :: "submission_request \<Rightarrow> bool" where
  "submission_request_ok b =
     (sr_writer_id b \<noteq> [] \<and> sr_writer_prefix b \<noteq> [] \<and> sr_run_id b \<noteq> [] \<and> 0 \<le> sr_sequence b)"

definition limit_ok :: "int \<Rightarrow> bool" where
  "limit_ok n = (1 \<le> n \<and> n \<le> 5000)"

definition grep_request_ok :: "grep_request \<Rightarrow> bool" where
  "grep_request_ok g =
     (gr_pattern g \<noteq> [] \<and> limit_ok (gr_limit g) \<and> GREP_MIN_TIMEOUT_SECONDS \<le> gr_timeout_seconds g \<and> gr_timeout_seconds g \<le> 60 \<and>
      opt_ok (\<lambda>c. 1 \<le> length c \<and> length c \<le> 4096) (gr_cursor g))"

section \<open>Endpoints\<close>

definition reading :: "(world \<Rightarrow> 'a res) \<Rightarrow> (vault, 'a) act" where
  "reading f = bindS (gets v_world) (\<lambda>w. liftE (f w))"

definition ok :: "content \<Rightarrow> reply" where
  "ok c = \<lparr>status = 200, content = c\<rparr>"

definition answering :: "(vault, answer) act \<Rightarrow> (vault, reply) act" where
  "answering m = bindS m (\<lambda>x. ret (ok (Value_Body x)))"

definition valued :: "('a \<Rightarrow> answer) \<Rightarrow> (world \<Rightarrow> 'a res) \<Rightarrow> (vault, answer) act" where
  "valued f q = reraise store_error (bindS (reading q) (\<lambda>x. ret (f x)))"

definition stat_or_404 :: "env \<Rightarrow> str \<Rightarrow> (vault, answer) act" where
  "stat_or_404 E path =
     bindS (reraise store_error (reading (stat E LOCAL_CTXFS_USER_ID path))) (\<lambda>e.
     case e of
       None \<Rightarrow> raise (HTTPException 404 ''ctxfs path not found'')
     | Some e \<Rightarrow> ret (Entry_Value e))"

text \<open>
  The runs of ripgrep, one for each page, and the readings of the clock by \<open>GrepTimeoutBudget\<close>: when
  the budget starts, then each time what remains of it is asked for.
\<close>

record searches =
  se_run :: "nat \<Rightarrow> ripgrep"
  se_clock :: "nat \<Rightarrow> rat"

definition incomplete_grep_error :: "stop_reason option \<Rightarrow> exn" where
  "incomplete_grep_error why =
     CtxdIncompleteSearchError (case why of
         Some LIMIT \<Rightarrow> ''ctxfs grep stopped because of limit''
       | Some TIMEOUT \<Rightarrow> ''ctxfs grep stopped because of timeout''
       | Some MAX_BYTES \<Rightarrow> ''ctxfs grep stopped because of max_bytes''
       | Some CATALOG_MISMATCH \<Rightarrow> ''ctxfs grep stopped because of catalog_mismatch''
       | _ \<Rightarrow> ''ctxfs grep stopped because of an unknown safety bound'')"

definition budget_start :: "searches \<Rightarrow> rat \<Rightarrow> rat" where
  "budget_start G timeout_seconds = se_clock G 0 + timeout_seconds"

definition budget_remaining :: "searches \<Rightarrow> rat \<Rightarrow> nat \<Rightarrow> rat res" where
  "budget_remaining G deadline n =
     (let remaining = deadline - se_clock G n
      in if remaining < GREP_MIN_TIMEOUT_SECONDS then Inl (incomplete_grep_error (Some TIMEOUT)) else Inr remaining)"

definition GREP_MAX_TRANSPORT_PAGES :: nat where
  "GREP_MAX_TRANSPORT_PAGES = 100"

text \<open>\<open>_execute_ctxfs_grep\<close>: \<open>n\<close> pages may still be asked for and \<open>i\<close> have been.\<close>

fun grep_pages ::
  "env \<Rightarrow> searches \<Rightarrow> str \<Rightarrow> str \<Rightarrow> int option \<Rightarrow> rat \<Rightarrow> world \<Rightarrow> nat \<Rightarrow> nat \<Rightarrow> grep_match list \<Rightarrow> str option \<Rightarrow> rat \<Rightarrow> answer res" where
  "grep_pages E G pattern pfx limit deadline w 0 i taken cursor page_timeout =
     Inl (CtxdIncompleteSearchError ''ctxfs grep exceeded its continuation safety limit'')"
| "grep_pages E G pattern pfx limit deadline w (Suc n) i taken cursor page_timeout =
     bindE (map_sum store_error id (grep E (se_run G i) LOCAL_CTXFS_USER_ID pattern pfx
         (case limit of None \<Rightarrow> 1000 | Some l \<Rightarrow> max 1 (l - int (length taken))) page_timeout cursor w)) (\<lambda>page.
     let found = taken @ gp_items page in
     if gp_complete page then Inr (Found_Value found (gp_stopped_by page))
     else if gp_stopped_by page = Some LIMIT \<and> limit \<noteq> None then Inr (Found_Value found (Some LIMIT))
     else if gp_stopped_by page = Some TIMEOUT then Inl (incomplete_grep_error (Some TIMEOUT))
     else (case gp_next_cursor page of
         None \<Rightarrow> Inl (incomplete_grep_error (gp_stopped_by page))
       | Some c \<Rightarrow>
           bindE (budget_remaining G deadline (Suc i)) (\<lambda>remaining.
           grep_pages E G pattern pfx limit deadline w n (Suc i) found (Some c) remaining)))"

definition execute_ctxfs_grep :: "env \<Rightarrow> searches \<Rightarrow> str \<Rightarrow> str \<Rightarrow> int option \<Rightarrow> rat \<Rightarrow> world \<Rightarrow> answer res" where
  "execute_ctxfs_grep E G pattern pfx limit timeout_seconds w =
     grep_pages E G pattern pfx limit (budget_start G timeout_seconds) w GREP_MAX_TRANSPORT_PAGES 0 [] None timeout_seconds"

text \<open>\<open>_execute_ctxfs_tool\<close>.\<close>

definition execute_tool :: "env \<Rightarrow> searches \<Rightarrow> tool \<Rightarrow> (vault, answer) act" where
  "execute_tool E G t =
     (case t of
        Tool_Ls path limit \<Rightarrow> valued Listing_Value (ls E LOCAL_CTXFS_USER_ID path limit)
      | Tool_Tree pfx depth limit \<Rightarrow> valued Listing_Value (tree E LOCAL_CTXFS_USER_ID pfx depth limit)
      | Tool_Glob pattern pfx limit \<Rightarrow> valued Listing_Value (glob E LOCAL_CTXFS_USER_ID pattern pfx limit)
      | Tool_Stat path \<Rightarrow> stat_or_404 E path
      | Tool_Read path max_bytes \<Rightarrow> valued Text_Value (read E LOCAL_CTXFS_USER_ID path max_bytes)
      | Tool_Read_Lines path a b \<Rightarrow> valued Lines_Value (read_lines E LOCAL_CTXFS_USER_ID path a b)
      | Tool_Grep pattern pfx limit timeout_seconds \<Rightarrow>
          reading (execute_ctxfs_grep E G pattern pfx limit timeout_seconds)
      | Tool_Unknown \<Rightarrow> raise (ValueError ''Unknown ctxfs tool''))"

text \<open>\<open>handle_message\<close> of \<open>src/ctxd/mcp_server.py\<close>: failures of a tool are results.\<close>

definition handle_message ::
  "(tool \<Rightarrow> (vault, answer) act) \<Rightarrow> mcp_message \<Rightarrow> (vault, (json \<times> rpc) option) act" where
  "handle_message execute m =
     (case mcp_id m of
        None \<Rightarrow> ret None
      | Some i \<Rightarrow>
         (case mcp_method m of
            Initialize \<Rightarrow> ret (Some (i, Rpc_Initialized))
          | Ping \<Rightarrow> ret (Some (i, Rpc_Pong))
          | Tools_List \<Rightarrow> ret (Some (i, Rpc_Tools))
          | Tools_Call t \<Rightarrow>
              catchS (bindS (case t of None \<Rightarrow> raise (ValueError ''arguments'') | Some t \<Rightarrow> execute t)
                        (\<lambda>x. ret (Some (i, Rpc_Value x))))
                (\<lambda>e. ret (Some (i, Rpc_Failed (exn_message e))))
          | _ \<Rightarrow> ret (Some (i, Rpc_Error (-32601)))))"

definition operation_from_payload :: "payload \<Rightarrow> operation res" where
  "operation_from_payload p =
     (case p of
        Kinded op \<Rightarrow> if operation_ok op then Inr op else Inl (ValidationError '''')
      | Other_Kind \<Rightarrow> Inl (ValueError ''unsupported ctxfs operation kind''))"

text \<open>\<open>_submission_prefix\<close>: the longest grant, the first one where several are longest.\<close>

fun longest :: "'a list list \<Rightarrow> 'a list option" where
  "longest [] = None"
| "longest (x # xs) =
     (case longest xs of None \<Rightarrow> Some x | Some y \<Rightarrow> if length x \<ge> length y then Some x else Some y)"

definition submission_prefix :: "principal \<Rightarrow> str \<Rightarrow> str res" where
  "submission_prefix p claimed =
     (if ADMIN \<in> scopes p then Inr claimed else
      case longest (filter (\<lambda>pfx. claimed = pfx \<or> startswith claimed (pfx @ lit ''/'')) (prefixes p)) of
        None \<Rightarrow> Inl (ValueError ''max() arg is an empty sequence'')
      | Some x \<Rightarrow> Inr x)"

definition server_writer :: "principal \<Rightarrow> str \<Rightarrow> str" where
  "server_writer p granted =
     (case key_id p of Some k \<Rightarrow> if k = [] then principal_id p else k | None \<Rightarrow> principal_id p) @ 58 # granted"

definition submit_operations :: "env \<Rightarrow> principal \<Rightarrow> submission_request \<Rightarrow> (vault, submission) act" where
  "submit_operations E p b =
     reraise submission_error_of (
       bindS (liftE (authorize (Some p) SUBMIT (Some (sr_writer_prefix b)))) (\<lambda>d.
       if \<not> allowed d then raise (denial d) else
       bindS (liftE (submission_prefix p (sr_writer_prefix b))) (\<lambda>granted.
       let writer = server_writer p granted in
       bindS (on_world (register_prefix E LOCAL_CTXFS_USER_ID writer granted)) (\<lambda>_.
       bindS (liftE (mapE operation_from_payload (sr_operations b))) (\<lambda>ops.
       on_world (submit E LOCAL_CTXFS_USER_ID writer ops))))))"

definition register_endpoint :: "nat \<Rightarrow> env \<Rightarrow> secret_source \<Rightarrow> principal \<Rightarrow> registration_request \<Rightarrow> endpoint" where
  "register_endpoint fuel E S p rq =
     bindR (reraiseR registration_error (register fuel E S LOCAL_CTXFS_USER_ID p rq)) (\<lambda>res.
     returns (ret \<lparr>status = (if rr_recovered res then 200 else 201),
                  content = Credential_Body (rr_machine res) (rr_key_id res) (rr_token res)\<rparr>))"

definition prepare_endpoint :: "env \<Rightarrow> secret_source \<Rightarrow> principal \<Rightarrow> str \<Rightarrow> endpoint" where
  "prepare_endpoint E S p mid =
     bindR (reraiseR lifecycle_error (prepare_rotation E S LOCAL_CTXFS_USER_ID p mid)) (\<lambda>pc.
     returns (
     bindS (read_catalog (machine_of LOCAL_CTXFS_USER_ID mid)) (\<lambda>m.
     ret (ok (Credential_Body m (pc_key_id pc) (pc_token pc))))))"

definition confirm_endpoint :: "env \<Rightarrow> principal \<Rightarrow> str \<Rightarrow> str \<Rightarrow> (vault, reply) act" where
  "confirm_endpoint E p mid key =
     bindS (reraise lifecycle_error (confirm_rotation E LOCAL_CTXFS_USER_ID p mid key)) (\<lambda>m.
     ret (ok (Machine_Body m)))"

definition revoke_endpoint :: "env \<Rightarrow> principal \<Rightarrow> str \<Rightarrow> (vault, reply) act" where
  "revoke_endpoint E p mid =
     bindS (reraise lifecycle_error (revoke_machine E LOCAL_CTXFS_USER_ID p mid)) (\<lambda>_.
     ret \<lparr>status = 204, content = Empty\<rparr>)"

definition mcp_endpoint ::
  "env \<Rightarrow> searches \<Rightarrow> principal \<Rightarrow> mcp_message \<Rightarrow> (vault, reply) act" where
  "mcp_endpoint E G p m =
     bindS (liftE (authenticate_mcp m p)) (\<lambda>_.
     bindS (handle_message (execute_tool E G) m) (\<lambda>r.
     ret (case r of
            None \<Rightarrow> \<lparr>status = 202, content = Empty\<rparr>
          | Some (i, x) \<Rightarrow> ok (Rpc_Body i x))))"

text \<open>The search endpoint: \<open>_call_store\<close> and, outside it, \<open>RuntimeError\<close> as 503.\<close>

definition grep_error :: "exn \<Rightarrow> exn" where
  "grep_error e = (case store_error e of RuntimeError m \<Rightarrow> HTTPException 503 m | x \<Rightarrow> x)"

definition grep_endpoint :: "env \<Rightarrow> searches \<Rightarrow> grep_request \<Rightarrow> (vault, answer) act" where
  "grep_endpoint E G g =
     reraise grep_error
       (bindS (reading (grep E (se_run G 0) LOCAL_CTXFS_USER_ID (gr_pattern g) (gr_prefix g) (gr_limit g)
           (gr_timeout_seconds g) (gr_cursor g))) (\<lambda>page. ret (Grep_Value page)))"

text \<open>A reading endpoint: the scope, the query parameter \<open>user_id\<close>, its own parameters, the store.\<close>

definition read_endpoint ::
  "principal \<Rightarrow> http_request \<Rightarrow> ('a \<Rightarrow> bool) \<Rightarrow> 'a option \<Rightarrow> ('a \<Rightarrow> (vault, answer) act) \<Rightarrow> (vault, reply) act" where
  "read_endpoint p rq good x m =
     bindS (liftE (require p READ)) (\<lambda>_.
     bindS (liftE (reject_user_id_query (h_user_id rq))) (\<lambda>_.
     bindS (liftE (valid good x)) (\<lambda>y. answering (m y))))"

definition endpoint ::
  "nat \<Rightarrow> env \<Rightarrow> secret_source \<Rightarrow> searches \<Rightarrow> principal \<Rightarrow> http_request \<Rightarrow> endpoint" where
  "endpoint fuel E S G p rq =
     (case h_call rq of
        Register body \<Rightarrow>
          bindR (returns (bindS (liftE (require p ENROLL)) (\<lambda>_. liftE (valid registration_body_ok body))))
            (register_endpoint fuel E S p)
      | Prepare mid \<Rightarrow> bindR (returns (liftE (require_current_machine p mid))) (\<lambda>_. prepare_endpoint E S p mid)
      | Confirm mid key \<Rightarrow>
          returns (bindS (liftE (require_current_machine p mid)) (\<lambda>_.
            bindS (liftE (valid (\<lambda>k. k \<noteq> []) key)) (confirm_endpoint E p mid)))
      | Revoke mid \<Rightarrow> returns (bindS (liftE (require_current_machine p mid)) (\<lambda>_. revoke_endpoint E p mid))
      | Health \<Rightarrow> returns (bindS (liftE (require p STATUS)) (\<lambda>_. ret (ok Healthy)))
      | Mcp m \<Rightarrow> returns (bindS (liftE (valid (\<lambda>_. True) m)) (mcp_endpoint E G p))
      | Stat x \<Rightarrow> returns (read_endpoint p rq (\<lambda>path. path \<noteq> []) x (stat_or_404 E))
      | Ls x \<Rightarrow> returns (read_endpoint p rq (\<lambda>(_, limit). limit_ok limit) x
          (\<lambda>(path, limit). execute_tool E G (Tool_Ls path limit)))
      | Tree x \<Rightarrow> returns (read_endpoint p rq (\<lambda>(_, depth, limit). limit_ok limit \<and> opt_ok (\<lambda>d. 0 \<le> d) depth) x
          (\<lambda>(pfx, depth, limit). execute_tool E G (Tool_Tree pfx depth limit)))
      | Glob x \<Rightarrow> returns (read_endpoint p rq (\<lambda>(pattern, _, limit). pattern \<noteq> [] \<and> limit_ok limit) x
          (\<lambda>(pattern, pfx, limit). execute_tool E G (Tool_Glob pattern pfx limit)))
      | Read x \<Rightarrow> returns (read_endpoint p rq (\<lambda>(path, n). path \<noteq> [] \<and> 1 \<le> n \<and> n \<le> 5000000) x
          (\<lambda>(path, n). execute_tool E G (Tool_Read path n)))
      | Read_Lines x \<Rightarrow> returns (read_endpoint p rq (\<lambda>(path, a, b). path \<noteq> [] \<and> 1 \<le> a \<and> 1 \<le> b) x
          (\<lambda>(path, a, b). execute_tool E G (Tool_Read_Lines path a b)))
      | Grep x \<Rightarrow> returns (read_endpoint p rq grep_request_ok x
          (grep_endpoint E G))
      | Submit body \<Rightarrow>
          returns (bindS (liftE (require p SUBMIT)) (\<lambda>_.
            bindS (liftE (reject_user_id_query (h_user_id rq))) (\<lambda>_.
            bindS (liftE (valid submission_request_ok body)) (\<lambda>b.
            bindS (submit_operations E p b) (\<lambda>s. ret (ok (Submission_Body s)))))))
      | Unrouted n \<Rightarrow> returns (raise (HTTPException n '''')))"

text \<open>The middleware \<open>authenticate_request\<close> around the routes.\<close>

definition authenticate_request ::
  "nat \<Rightarrow> env \<Rightarrow> secret_source \<Rightarrow> searches \<Rightarrow> auth_mode \<Rightarrow> http_request \<Rightarrow> endpoint" where
  "authenticate_request fuel E S G mode rq =
     bindR (returns (authenticate E S mode (h_authorization rq))) (\<lambda>who.
     case who of
       None \<Rightarrow> returns (ret auth_response)
     | Some p \<Rightarrow>
         bindR (returns (if principal_machine_id p = None then ret True
           else read_catalog (machine_credential_is_admissible p (h_method rq) (h_path rq)))) (\<lambda>admissible.
         if \<not> admissible then returns (ret \<lparr>status = 403, content = Detail ''machine_credential_not_current''\<rparr>)
         else endpoint fuel E S G p rq))"

definition respond ::
  "nat \<Rightarrow> env \<Rightarrow> secret_source \<Rightarrow> searches \<Rightarrow> auth_mode \<Rightarrow> http_request \<Rightarrow>
   vault \<Rightarrow> (reply \<times> vault) option" where
  "respond fuel E S G mode rq v =
     map_option (\<lambda>(r, v'). (reply_of r, v')) (authenticate_request fuel E S G mode rq v)"

end
