(* ===== verification/SearchTool.thy ===== *)
theory SearchTool
  imports PageLimits Server
begin

text \<open>
  Searches through MCP: the pages are put together, and the search fails where it cannot be complete.
\<close>

lemma grep_pages_found:
  assumes "grep_pages E G pattern pfx limit deadline w n i taken cursor page_timeout = Inr a"
    and "\<forall>m \<in> set taken. genuine E LOCAL_CTXFS_USER_ID pfx w m" "limit \<noteq> None \<longrightarrow> taken = []"
  shows "\<exists>found why. a = Found_Value found why \<and> (\<forall>m \<in> set found. genuine E LOCAL_CTXFS_USER_ID pfx w m) \<and>
    (case limit of None \<Rightarrow> why = None | Some l \<Rightarrow> int (length found) \<le> max 1 l \<and> why \<in> {None, Some LIMIT})"
  using assms
proof (induction n arbitrary: i taken cursor page_timeout)
  case (Suc n)
  let ?limit = "case limit of None \<Rightarrow> 1000 | Some l \<Rightarrow> max 1 (l - int (length taken))"
  obtain page where page: "grep E (se_run G i) LOCAL_CTXFS_USER_ID pattern pfx ?limit page_timeout cursor w = Inr page"
    using Suc.prems(1) by (cases "grep E (se_run G i) LOCAL_CTXFS_USER_ID pattern pfx ?limit page_timeout cursor w") (auto simp: bindE_def)
  note res = Suc.prems(1) [unfolded grep_pages.simps page, simplified, unfolded Let_def]
  have g: "\<forall>m \<in> set (taken @ gp_items page). genuine E LOCAL_CTXFS_USER_ID pfx w m"
    using Suc.prems(2) grep_genuine [OF page] by auto
  have len: "limit = Some l \<Longrightarrow> int (length (taken @ gp_items page)) \<le> max 1 l" for l
    using grep_within_limit [OF page] Suc.prems(3) by auto
  have pr: "page_resumable page" by (rule grep_resumable [OF page])
  show ?case
  proof (cases "gp_complete page \<or> gp_stopped_by page = Some LIMIT \<and> limit \<noteq> None")
    case True
    then have "a = Found_Value (taken @ gp_items page) (gp_stopped_by page)" "gp_complete page \<longrightarrow> gp_stopped_by page = None"
      using res pr by (auto simp: page_resumable_def split: if_splits)
    then show ?thesis using g len True by (auto split: option.split)
  next
    case False
    then obtain c where c: "gp_next_cursor page = Some c" "gp_stopped_by page \<noteq> Some TIMEOUT"
      using res by (auto split: if_splits option.splits)
    then have "limit = None" using pr False by (auto simp: page_resumable_def)
    moreover obtain t where "grep_pages E G pattern pfx limit deadline w n (Suc i) (taken @ gp_items page) (Some c) t = Inr a"
      using res False c by (auto simp: bindE_def split: if_splits sum.splits)
    ultimately show ?thesis using Suc.IH g by simp
  qed
qed simp

lemma mcp_search_found:
  assumes "execute_ctxfs_grep E G pattern pfx limit timeout_seconds w = Inr a"
  shows "\<exists>found why. a = Found_Value found why \<and> (\<forall>m \<in> set found. genuine E LOCAL_CTXFS_USER_ID pfx w m) \<and>
    (case limit of None \<Rightarrow> why = None | Some l \<Rightarrow> int (length found) \<le> max 1 l \<and> why \<in> {None, Some LIMIT})"
  using grep_pages_found [OF assms [unfolded execute_ctxfs_grep_def]] by simp

end
