(* ===== verification/DemoSearch.thy ===== *)
theory DemoSearch
  imports Demo Paging SearchTool
begin

text \<open>
  A store with one file of two lines, digests of the shape of SHA-256, and a concrete run of ripgrep
  over it, for the properties of searches.
\<close>

definition demo_hex_env :: env where
  "demo_hex_env = demo_env\<lparr>e_sha := (\<lambda>bs. take 64 (hex bs @ replicate 64 48))\<rparr>"

lemma hex_digit_range: "0 \<le> n \<Longrightarrow> n < 16 \<Longrightarrow> 48 \<le> hex_digit n \<and> hex_digit n \<le> 57 \<or> 97 \<le> hex_digit n \<and> hex_digit n \<le> 102"
  by (auto simp: hex_digit_def)

lemma demo_hex: "grep_content_hash (sha256 demo_hex_env bs)"
proof -
  have h: "list_all (\<lambda>c. 48 \<le> c \<and> c \<le> 57 \<or> 97 \<le> c \<and> c \<le> 102) (hex bs)"
  proof (induction bs)
    case (Cons b bs)
    have "0 \<le> uint b" "uint b < 256" using uint_ge_0 [of b] uint_bounded [of b] by simp_all
    then show ?case using Cons hex_digit_range [of "uint b div 16"] hex_digit_range [of "uint b mod 16"]
      by (simp add: pos_imp_zdiv_nonneg_iff)
  qed simp
  have "list_all (\<lambda>c. 48 \<le> c \<and> c \<le> 57 \<or> 97 \<le> c \<and> c \<le> 102) (take 64 (hex bs @ replicate 64 48))"
    unfolding list_all_iff
  proof
    fix c assume "c \<in> set (take 64 (hex bs @ replicate 64 48))"
    then have "c \<in> set (hex bs) \<or> c = 48" using in_set_takeD by force
    then show "48 \<le> c \<and> c \<le> 57 \<or> 97 \<le> c \<and> c \<le> 102" using h by (auto simp: list_all_iff)
  qed
  then show ?thesis
    by (simp add: grep_content_hash_def sha256_def demo_hex_env_def startswith_def lit_def)
qed

definition demo_owner :: str where
  "demo_owner = lit ''6c6f63616c'' @ replicate 54 48"

definition demo_row :: entry_row where
  "demo_row = \<lparr>entry_path = lit ''d/a'', entry_source_key = lit ''a'', source_version = lit ''1'', doc_class = EDITABLE,
     file_format = lit ''text'', content_hash = sha256 demo_hex_env [65, 10, 65], size_bytes = 3, entry_line_count = 2,
     object_id = lit ''a'', entry_provenance = \<lparr>producer = lit ''p'', producer_version = lit ''1'', confidence = None, warnings = []\<rparr>,
     created_at = 0, updated_at = 0, row_user = LOCAL_CTXFS_USER_ID, row_writer = lit ''w''\<rparr>"

definition demo_found :: world where
  "demo_found = \<lparr>w_db = empty_db\<lparr>entry_rows := [demo_row]\<rparr>,
     w_fs = \<lparr>nodes = [([users_dir, demo_owner, lit ''p-64''], Dir), ([users_dir, demo_owner, lit ''p-64'', lit ''p-61''], File 0)],
       idata = (\<lambda>_. [65, 10, 65]), next_ino = 1\<rparr>,
     w_uuids = 0, w_clock = 0, w_undo = [], w_cleanup = []\<rparr>"

definition demo_stat :: stat_result where
  "demo_stat = \<lparr>st_dev = 1, st_ino = 2, st_size = 3, st_mtime_ns = 3, st_ctime_ns = 4\<rparr>"

definition demo_event :: "string \<Rightarrow> string \<Rightarrow> bytes" where
  "demo_event tag rest =
     map of_int (lit ''{\"type\":\"'' @ lit tag @ lit ''\",\"data\":{\"path\":{\"text\":\"/users/'' @ demo_owner @
       lit ''/p-64/p-61\"}'' @ lit rest @ lit ''}}'' @ [10])"

definition demo_ripgrep :: ripgrep where
  "demo_ripgrep = \<lparr>g_which = True, g_version = Some (0, Some (14, 1, 0)), g_validation = (\<lambda>_. Some 1),
     g_reads = (\<lambda>_ _. [Rg_Chunk (demo_event ''begin'' []),
       Rg_Chunk (demo_event ''match''
         ('',\"lines\":{\"text\":\"A'' @ [CHR 0x5C] @ ''n\"},\"line_number\":1,\"absolute_offset\":0,\"submatches\":[{\"start\":0,\"end\":1}]'')),
       Rg_Chunk (demo_event ''match''
         '',\"lines\":{\"text\":\"A\"},\"line_number\":2,\"absolute_offset\":2,\"submatches\":[{\"start\":0,\"end\":1}]'')]),
     g_exit = (\<lambda>_ _. Some 0), g_clock = (\<lambda>_. 0), g_stats = (\<lambda>_. (demo_stat, demo_stat, Some demo_stat)),
     g_root = [], g_cwd = lit ''/''\<rparr>"

definition demo_searches :: searches where
  "demo_searches = \<lparr>se_run = (\<lambda>_. demo_ripgrep), se_clock = (\<lambda>_. 0)\<rparr>"

definition demo_grep :: "int \<Rightarrow> str option \<Rightarrow> grep_page res" where
  "demo_grep limit cursor = grep demo_hex_env demo_ripgrep LOCAL_CTXFS_USER_ID (lit ''.'') (lit ''d'') limit 2 cursor demo_found"

text \<open>The first page of one match, and the records of the run.\<close>

lemma demo_first:
  "map_sum id (\<lambda>p. (map (\<lambda>m. (gm_path m, gm_line_number m)) (gp_items p), gp_stopped_by p, gp_next_cursor p = None)) (demo_grep 1 None)
    = Inr ([(lit ''d/a'', 1)], Some LIMIT, False)"
  by code_simp

lemma demo_well_delimited: "well_delimited demo_hex_env demo_ripgrep LOCAL_CTXFS_USER_ID (lit ''.'') (lit ''d'')"
  unfolding well_delimited_def by code_simp

lemma demo_never_late: "never_late demo_ripgrep (g_clock demo_ripgrep 0 + 2)"
  by (simp add: never_late_def demo_ripgrep_def)

end
