(* ===== verification/Keys.thy ===== *)
theory Keys
  imports Enrollment
begin

text \<open>
  What \<open>Credentials\<close> promises: a token that is issued is accepted until it expires or is revoked, no
  other token is, and a revoked one is never accepted again.
\<close>

section \<open>Tokens\<close>

lemma token_char_bounds: "token_char c \<Longrightarrow> 0 \<le> c \<and> c < 128"
  by (auto simp: token_char_def)

lemma token_chars_no_dot: "list_all token_char s \<Longrightarrow> 46 \<notin> set s"
  by (auto simp: list_all_iff token_char_def)

lemma parse_token_iff:
  "parse_token t = Some kid \<longleftrightarrow> (\<exists>secret. t = make_token kid secret \<and> key_id_pattern kid \<and> secret_pattern secret)"
proof
  assume p: "parse_token t = Some kid"
  obtain a secret where s: "split_on 46 t = [a, kid, secret]" "a = lit ''ctxfs''" "key_id_pattern kid" "secret_pattern secret"
    using p by (auto simp: parse_token_def split: list.splits if_splits)
  have "t = join_with 46 (split_on 46 t)" by (simp add: join_split)
  then show "\<exists>secret. t = make_token kid secret \<and> key_id_pattern kid \<and> secret_pattern secret"
    using s by (auto simp: make_token_def)
next
  assume "\<exists>secret. t = make_token kid secret \<and> key_id_pattern kid \<and> secret_pattern secret"
  then obtain secret where t: "t = make_token kid secret" "key_id_pattern kid" "secret_pattern secret" by blast
  have "split_on 46 t = [lit ''ctxfs'', kid, secret]"
    unfolding t(1) make_token_def split_on_append_sep
    using token_chars_no_dot [of kid] token_chars_no_dot [of secret] t(2,3)
    by (simp add: split_on_id key_id_pattern_def secret_pattern_def lit_def)
  then show "parse_token t = Some kid" using t(2,3) by (simp add: parse_token_def)
qed

lemma parse_token_encodes:
  assumes "parse_token t = Some kid"
  shows "\<exists>data. utf8_encode t = Inr data"
proof -
  obtain secret where t: "t = make_token kid secret" "key_id_pattern kid" "secret_pattern secret"
    using assms parse_token_iff by blast
  have "\<forall>c \<in> set t. 0 \<le> c \<and> c < 128"
    using t(2,3) token_char_bounds [of c for c] unfolding t(1) make_token_def key_id_pattern_def secret_pattern_def list_all_iff
    by (auto simp: lit_def dest!: bspec)
  then have "\<And>c. c \<in> set t \<Longrightarrow> scalar c" by (auto simp: scalar_def surrogate_def)
  then show ?thesis by (induction t) auto
qed

text \<open>The token belongs to the row: it names the row's key and the verifier was derived from it.\<close>

definition keyed :: "secret_source \<Rightarrow> str \<Rightarrow> credential_row \<Rightarrow> bool" where
  "keyed S t r \<longleftrightarrow> parse_token t = Some (cred_key_id r) \<and> derive S t (salt r) = Inr (verifier r)"

lemma keyed_unique:
  assumes "\<And>s. inj (\<lambda>data. s_scrypt S data s)" "keyed S t r" "keyed S u r"
  shows "t = u"
proof -
  obtain d e where d: "utf8_encode t = Inr d" "utf8_encode u = Inr e" using assms(2,3) parse_token_encodes unfolding keyed_def by metis
  have "s_scrypt S d (salt r) = s_scrypt S e (salt r)" using assms(2,3) d by (simp add: keyed_def derive_def)
  with assms(1) have "d = e" by (rule injD)
  then show ?thesis using d utf8_encode_inj by blast
qed

section \<open>Rows\<close>

definition granted :: "credential_row \<Rightarrow> credential_grant" where
  "granted r = \<lparr>grant_principal_id = cred_key_id r, grant_key_id = cred_key_id r, grant_scopes = cred_scopes r,
     grant_prefixes = cred_prefixes r, grant_machine_id = cred_machine_id r\<rparr>"

lemma credential_of_sel [simp]:
  "cred_key_id (credential_of r) = cred_key_id r" "cred_scopes (credential_of r) = cred_scopes r"
  "cred_prefixes (credential_of r) = cred_prefixes r" "cred_machine_id (credential_of r) = cred_machine_id r"
  "expires_at (credential_of r) = expires_at r" "revoked_at (credential_of r) = revoked_at r"
  "replaced_by (credential_of r) = replaced_by r" "rotation_from (credential_of r) = rotation_from r"
  "cred_name (credential_of r) = cred_name r" "cred_created_at (credential_of r) = cred_created_at r"
  by (simp_all add: credential_of_def credential.defs)

lemma credential_grant_of_row: "credential_grant_of (credential_of r) = make_grant (granted r)"
  by (simp add: credential_grant_of_def granted_def)

text \<open>What holds of a row since it was inserted; a machine's credentials do not expire.\<close>

definition row_ok :: "credential_row \<Rightarrow> bool" where
  "row_ok r \<longleftrightarrow> grant_ok (granted r) \<and> (cred_machine_id r \<noteq> None \<longrightarrow> expires_at r = None)"

text \<open>Retiring a row sets the time of its revocation, once, and may name a successor.\<close>

definition retires :: "credential_row \<Rightarrow> credential_row \<Rightarrow> bool" where
  "retires r r' \<longleftrightarrow> (\<exists>t b. r' = r\<lparr>revoked_at := Some t, replaced_by := b\<rparr> \<and> (revoked_at r \<noteq> None \<longrightarrow> revoked_at r = Some t))"

lemma retires_same [simp]:
  assumes "retires r r'"
  shows "cred_key_id r' = cred_key_id r" "salt r' = salt r" "verifier r' = verifier r" "expires_at r' = expires_at r"
    "cred_machine_id r' = cred_machine_id r" "granted r' = granted r" "keyed S t r' = keyed S t r" "row_ok r' = row_ok r"
    "revoked_at r' \<noteq> None" "revoked_at r \<noteq> None \<Longrightarrow> revoked_at r' = revoked_at r"
  using assms by (auto simp: retires_def keyed_def row_ok_def granted_def)

lemma revoke_row_retires: "retires r (revoke_row t successor r)"
  unfolding retires_def revoke_row_def
  by (cases "revoked_at r") (auto simp: coalesce_def intro: exI [of _ t])

section \<open>Steps of the credential database\<close>

text \<open>
  The database together with the set of tokens handed out: a credential is inserted and its token
  returned, or rows are retired.
\<close>

inductive key_step :: "secret_source \<Rightarrow> str set \<times> credential_row list \<Rightarrow> str set \<times> credential_row list \<Rightarrow> bool" for S where
  issue: "keyed S t r \<Longrightarrow> row_ok r \<Longrightarrow> revoked_at r = None \<Longrightarrow> cred_key_id r \<notin> cred_key_id ` set rows \<Longrightarrow>
    key_step S (T, rows) (insert t T, rows @ [r])"
| retire: "(\<And>r. c r \<Longrightarrow> retires r (f r)) \<Longrightarrow> key_step S (T, rows) (T, update_where c f rows)"

abbreviation key_steps where "key_steps S \<equiv> (key_step S)\<^sup>*\<^sup>*"

definition issued_ok :: "secret_source \<Rightarrow> str set \<times> credential_row list \<Rightarrow> bool" where
  "issued_ok S = (\<lambda>(T, rows). distinct (map cred_key_id rows) \<and> (\<forall>r \<in> set rows. row_ok r \<and> (\<exists>t \<in> T. keyed S t r)) \<and>
     (\<forall>t \<in> T. \<exists>r \<in> set rows. keyed S t r))"

lemma retire_map:
  assumes "\<And>r. c r \<Longrightarrow> retires r (f r)"
  shows "map cred_key_id (update_where c f rows) = map cred_key_id rows"
  using assms by (auto simp: update_where_def)

lemma key_step_ok: "key_step S x y \<Longrightarrow> issued_ok S x \<Longrightarrow> issued_ok S y"
proof (induction rule: key_step.induct)
  case (retire c f T rows)
  note h = retires_same [OF retire.hyps]
  have d: "distinct (map cred_key_id (update_where c f rows))" using retire by (simp add: issued_ok_def retire_map)
  have r: "row_ok (if c r then f r else r) = row_ok r" "keyed S t (if c r then f r else r) = keyed S t r" for r t
    by (simp_all add: h)
  show ?case using retire.prems d unfolding issued_ok_def prod.case set_update_where ball_simps bex_simps r by blast
qed (auto simp: issued_ok_def)

lemma key_steps_ok: "key_steps S x y \<Longrightarrow> issued_ok S x \<Longrightarrow> issued_ok S y"
  by (induction rule: rtranclp_induct) (auto intro: key_step_ok)

lemma key_step_revoked:
  assumes "key_step S x y" "r \<in> set (snd x)" "revoked_at r \<noteq> None"
  shows "\<exists>r' \<in> set (snd y). cred_key_id r' = cred_key_id r \<and> revoked_at r' = revoked_at r"
  using assms(1)
proof (cases rule: key_step.cases)
  case (retire c f T rows)
  let ?r = "if c r then f r else r"
  have "?r \<in> set (snd y)" using assms(2) by (auto simp: retire set_update_where)
  moreover have "cred_key_id ?r = cred_key_id r \<and> revoked_at ?r = revoked_at r"
    using retires_same [OF retire(3)] assms(3) by simp
  ultimately show ?thesis by blast
qed (use assms(2) in auto)

lemma key_steps_revoked:
  assumes "key_steps S x y" "r \<in> set (snd x)" "revoked_at r \<noteq> None"
  shows "\<exists>r' \<in> set (snd y). cred_key_id r' = cred_key_id r \<and> revoked_at r' = revoked_at r"
  using assms(1)
proof (induction rule: rtranclp_induct)
  case base
  then show ?case using assms(2) by auto
next
  case (step y z)
  then obtain q where "q \<in> set (snd y)" "cred_key_id q = cred_key_id r" "revoked_at q = revoked_at r" by blast
  with key_step_revoked [OF step.hyps(2), of q] assms(3) show ?case by metis
qed

section \<open>Verification\<close>

lemma row_by_key_id_Some:
  assumes "distinct (map cred_key_id rows)"
  shows "row_by_key_id kid rows = Some r \<longleftrightarrow> r \<in> set rows \<and> cred_key_id r = kid"
proof
  assume "row_by_key_id kid rows = Some r"
  then show "r \<in> set rows \<and> cred_key_id r = kid" by (auto simp: row_by_key_id_def find_Some_iff)
next
  assume "r \<in> set rows \<and> cred_key_id r = kid"
  then show "row_by_key_id kid rows = Some r"
    unfolding row_by_key_id_def using assms by (intro find_unique) (auto simp: distinct_map inj_on_def)
qed

lemma verify_Some:
  assumes "distinct (map cred_key_id (v_creds v))"
  shows "verify E S t (Some tm) v = (Inr (Some g), v') \<longleftrightarrow>
    (\<exists>r \<in> set (v_creds v). keyed S t r \<and> usable_at tm r \<and> grant_ok (granted r) \<and> g = granted r \<and> v' = v)"
  (is "?L \<longleftrightarrow> ?R")
proof
  assume ?L
  then show ?R
    by (auto simp: verify_def run_simps row_by_key_id_Some [OF assms] credential_grant_of_row make_grant_Inr keyed_def
      split: option.splits if_splits sum.splits)
next
  assume ?R
  then obtain r where r: "r \<in> set (v_creds v)" "keyed S t r" "usable_at tm r" "make_grant (granted r) = Inr (granted r)"
      "g = granted r" "v' = v" by (auto simp: make_grant_Inr)
  then show ?L
    by (simp add: verify_def run_simps row_by_key_id_Some [OF assms, THEN iffD2] credential_grant_of_row keyed_def)
qed

text \<open>Once revoked, a credential is refused in every later state.\<close>

lemma verify_revoked:
  assumes "key_steps S (T, v_creds v) (T', v_creds v')" "issued_ok S (T, v_creds v)"
    and "r \<in> set (v_creds v)" "revoked_at r \<noteq> None" "parse_token t = Some (cred_key_id r)"
  shows "verify E S t (Some tm) v' \<noteq> (Inr (Some g), v'')"
proof
  assume ver: "verify E S t (Some tm) v' = (Inr (Some g), v'')"
  have d: "distinct (map cred_key_id (v_creds v'))" using key_steps_ok [OF assms(1,2)] by (simp add: issued_ok_def)
  obtain q where q: "q \<in> set (v_creds v')" "keyed S t q" "usable_at tm q" using ver verify_Some [OF d] by blast
  obtain r' where r': "r' \<in> set (v_creds v')" "cred_key_id r' = cred_key_id r" "revoked_at r' = revoked_at r"
    using key_steps_revoked [OF assms(1) _ assms(4)] assms(3) by auto
  have "cred_key_id q = cred_key_id r'" using q(2) assms(5) r'(2) by (simp add: keyed_def)
  then have "q = r'" using d q(1) r'(1) by (auto simp: distinct_map dest: inj_onD)
  then show False using q(3) r'(3) assms(4) by (simp add: usable_at_def)
qed

section \<open>Issuing\<close>

text \<open>What is documented of \<open>secrets.token_urlsafe\<close>: the characters and the length of a token of \<open>n\<close> bytes.\<close>

definition secrets_ok :: "secret_source \<Rightarrow> bool" where
  "secrets_ok S \<longleftrightarrow> (\<forall>k. key_id_pattern (s_urlsafe S 12 k) \<and> secret_pattern (s_urlsafe S 32 k))"

lemma draw_key_id_result:
  assumes "draw_key_id S v = Some x"
  shows "\<exists>n. x = (Inr (s_urlsafe S 12 n), v\<lparr>v_draws := Suc n\<rparr>)"
proof (rule draw_key_id.raw_induct [OF _ assms])
  fix f S v x
  assume 1: "\<And>S v x. f S v = Some x \<Longrightarrow> \<exists>n. x = (Inr (s_urlsafe S 12 n), v\<lparr>v_draws := Suc n\<rparr>)"
    "(let kid = s_urlsafe S 12 (v_draws v); v' = v\<lparr>v_draws := Suc (v_draws v)\<rparr>
      in if startswith kid (lit ''-'') then f S v' else Some (Inr kid, v')) = Some x"
  show "\<exists>n. x = (Inr (s_urlsafe S 12 n), v\<lparr>v_draws := Suc n\<rparr>)"
  proof (cases "startswith (s_urlsafe S 12 (v_draws v)) (lit ''-'')")
    case True
    then have "f S (v\<lparr>v_draws := Suc (v_draws v)\<rparr>) = Some x" using 1(2) by (simp add: Let_def)
    from 1(1) [OF this] show ?thesis by auto
  next
    case False
    then show ?thesis using 1(2) by (auto simp: Let_def)
  qed
qed

lemma draw_key_id_returns:
  assumes "v_draws v \<le> n" "\<not> startswith (s_urlsafe S 12 n) (lit ''-'')"
  shows "draw_key_id S v \<noteq> None"
  using assms
proof (induction "n - v_draws v" arbitrary: v)
  case 0
  then show ?case by (subst draw_key_id.simps) (simp add: Let_def)
next
  case (Suc m)
  then show ?case by (subst draw_key_id.simps) (simp add: Let_def)
qed

text \<open>A credential that has been prepared fits its salt, its verifier and its token.\<close>

definition prepared :: "secret_source \<Rightarrow> issued_credential \<Rightarrow> bytes \<Rightarrow> bytes \<Rightarrow> bool" where
  "prepared S i the_salt ver \<longleftrightarrow> parse_token (token i) = Some (cred_key_id (issued i)) \<and>
     derive S (token i) the_salt = Inr ver \<and> grant_ok (granted (credential.extend (issued i) (credential_row.fields the_salt ver))) \<and>
     revoked_at (issued i) = None \<and> replaced_by (issued i) = None"

lemma prepare_run:
  assumes "prepare E S name scps pfxs expires machine rotated v = Some (r, v')" "secrets_ok S"
  shows "v_creds v' = v_creds v \<and> v_uses v' = v_uses v \<and> w_db (v_world v') = w_db (v_world v) \<and>
    (case r of Inl e \<Rightarrow> True | Inr (i, the_salt, ver) \<Rightarrow> prepared S i the_salt ver \<and> cred_scopes (issued i) = scps \<and>
      cred_prefixes (issued i) = pfxs \<and> expires_at (issued i) = expires \<and> cred_machine_id (issued i) = machine \<and>
      rotation_from (issued i) = rotated)"
proof -
  show ?thesis
  proof (cases "draw_key_id S v")
    case None
    then show ?thesis using assms(1)
      by (auto simp: prepare_def bindR_def returns_def run_simps split: sum.splits if_splits)
  next
    case (Some x)
    then obtain n where x: "x = (Inr (s_urlsafe S 12 n), v\<lparr>v_draws := Suc n\<rparr>)" using draw_key_id_result by blast
    have p: "parse_token (make_token (s_urlsafe S 12 n) (s_urlsafe S 32 k)) = Some (s_urlsafe S 12 n)" for k
      using assms(2) unfolding parse_token_iff secrets_ok_def by blast
    show ?thesis using assms(1) Some x
      by (auto simp: prepare_def bindR_def returns_def run_simps urlsafe_def the_time_def on_world_def now_def fresh_salt_def
        prepared_def p make_grant_Inr granted_def credential.defs credential_row.defs Let_def
        split: sum.splits if_splits)
  qed
qed

definition new_row :: "issued_credential \<Rightarrow> bytes \<Rightarrow> bytes \<Rightarrow> credential_row" where
  "new_row i the_salt ver = credential.extend (issued i) (credential_row.fields the_salt ver)"

lemma new_row_sel [simp]:
  "cred_key_id (new_row i s w) = cred_key_id (issued i)" "salt (new_row i s w) = s" "verifier (new_row i s w) = w"
  "expires_at (new_row i s w) = expires_at (issued i)" "revoked_at (new_row i s w) = revoked_at (issued i)"
  "cred_machine_id (new_row i s w) = cred_machine_id (issued i)" "cred_scopes (new_row i s w) = cred_scopes (issued i)"
  "cred_prefixes (new_row i s w) = cred_prefixes (issued i)" "rotation_from (new_row i s w) = rotation_from (issued i)"
  "credential_of (new_row i s w) = issued i"
  by (simp_all add: new_row_def credential.defs credential_row.defs credential_of_def)

lemma insert_credential_run:
  assumes "insert_credential (issued i) s w v = (r, v')" "revoked_at (issued i) = None" "replaced_by (issued i) = None"
  shows "(case r of Inl e \<Rightarrow> v' = v
    | Inr _ \<Rightarrow> cred_key_id (issued i) \<notin> cred_key_id ` set (v_creds v) \<and> v' = v\<lparr>v_creds := v_creds v @ [new_row i s w]\<rparr>)"
proof -
  have "(issued i)\<lparr>revoked_at := None, replaced_by := None\<rparr> = issued i" using assms(2,3) by simp
  then show ?thesis using assms(1)
    by (auto simp: insert_credential_def new_row_def list_ex_iff split: if_splits) blast
qed

lemma prepared_issue:
  assumes "prepared S i s w" "cred_key_id (issued i) \<notin> cred_key_id ` set rows"
    and "cred_machine_id (issued i) \<noteq> None \<longrightarrow> expires_at (issued i) = None"
  shows "key_step S (T, rows) (insert (token i) T, rows @ [new_row i s w])"
  by (rule key_step.issue) (use assms in \<open>auto simp: prepared_def keyed_def row_ok_def new_row_def [symmetric]\<close>)

lemma create_run:
  assumes "create_credential E S name scps pfxs expires v = Some (r, v')" "secrets_ok S"
  shows "case r of Inl e \<Rightarrow> v_creds v' = v_creds v
    | Inr i \<Rightarrow> \<exists>s w. prepared S i s w \<and> v_creds v' = v_creds v @ [new_row i s w] \<and>
        cred_key_id (issued i) \<notin> cred_key_id ` set (v_creds v) \<and>
        cred_scopes (issued i) = scps \<and> cred_prefixes (issued i) = pfxs \<and> expires_at (issued i) = expires \<and>
        cred_machine_id (issued i) = None"
proof -
  obtain p v1 where p: "prepare E S name scps pfxs expires None None v = Some (p, v1)"
    using assms(1) by (auto simp: create_credential_def bindR_def split: option.splits)
  note pr = prepare_run [OF p assms(2)]
  show ?thesis
  proof (cases p)
    case (Inl e)
    then have "r = Inl e \<and> v' = v1" using assms(1) p by (simp add: create_credential_def bindR_def)
    then show ?thesis using pr by simp
  next
    case (Inr x)
    obtain i s w where x: "x = (i, s, w)" by (cases x)
    obtain q v2 where q: "insert_credential (issued i) s w v1 = (q, v2)" by force
    have n: "revoked_at (issued i) = None" "replaced_by (issued i) = None" using pr Inr x by (auto simp: prepared_def)
    have c: "create_credential E S name scps pfxs expires v = Some (case q of Inl e \<Rightarrow> (Inl e, undone v1 v2) | Inr _ \<Rightarrow> (Inr i, v2))"
      using p q unfolding Inr x
      by (simp add: create_credential_def bindR_def returns_def run_simps cred_transaction_def split: sum.splits)
    show ?thesis using assms(1) c pr insert_credential_run [OF q n] unfolding Inr x
      by (cases q) (auto simp: undone_def, blast)
  qed
qed

lemma create_steps:
  assumes "create_credential E S name scps pfxs expires v = Some (r, v')" "secrets_ok S"
  shows "key_steps S (T, v_creds v) ((case r of Inl e \<Rightarrow> T | Inr i \<Rightarrow> insert (token i) T), v_creds v')"
  using create_run [OF assms] by (auto split: sum.splits intro!: r_into_rtranclp prepared_issue)

text \<open>Operations that hand out no token retire rows.\<close>

definition ownership :: "credential_row list \<Rightarrow> (str \<times> str option) list" where
  "ownership rows = map (\<lambda>r. (cred_key_id r, cred_machine_id r)) rows"

definition retiring :: "secret_source \<Rightarrow> (vault, 'a) act \<Rightarrow> bool" where
  "retiring S m \<longleftrightarrow> (\<forall>v r v'. m v = (r, v') \<longrightarrow>
     ownership (v_creds v') = ownership (v_creds v) \<and> (\<forall>T. key_steps S (T, v_creds v) (T, v_creds v')))"

named_theorems retiring_rules \<open>operations that hand out no token\<close>

lemma retiringD: "retiring S m \<Longrightarrow> m v = (r, v') \<Longrightarrow> key_steps S (T, v_creds v) (T, v_creds v')"
  by (auto simp: retiring_def)

lemma retiring_ownership: "retiring S m \<Longrightarrow> m v = (r, v') \<Longrightarrow> ownership (v_creds v') = ownership (v_creds v)"
  by (auto simp: retiring_def)

lemma ownershipD:
  "ownership rows' = ownership rows \<Longrightarrow> r \<in> set rows \<Longrightarrow>
   \<exists>q \<in> set rows'. cred_key_id q = cred_key_id r \<and> cred_machine_id q = cred_machine_id r"
proof -
  assume o: "ownership rows' = ownership rows" and r: "r \<in> set rows"
  have "(cred_key_id r, cred_machine_id r) \<in> set (ownership rows)" using r by (simp add: ownership_def)
  then show ?thesis unfolding o [symmetric] by (auto simp: ownership_def)
qed

lemma retiring_basic [retiring_rules]:
  "retiring S (ret x)" "retiring S (raise e)" "retiring S (liftE q)" "retiring S (gets g)" "retiring S (on_world m)"
  "retiring S (the_time E)"
  by (auto simp: retiring_def run_simps on_world_def the_time_def split: prod.splits)

lemma retiring_bindS [retiring_rules]:
  assumes "retiring S m" "\<And>x. retiring S (f x)"
  shows "retiring S (bindS m f)"
  unfolding retiring_def
proof (intro allI impI)
  fix v r v' assume b: "bindS m f v = (r, v')"
  obtain q v1 where q: "m v = (q, v1)" by force
  show "ownership (v_creds v') = ownership (v_creds v) \<and> (\<forall>T. key_steps S (T, v_creds v) (T, v_creds v'))"
  proof (cases q)
    case (Inl e)
    then show ?thesis using b q assms(1) by (auto simp: bindS_def retiring_def)
  next
    case (Inr x)
    then have n: "f x v1 = (r, v')" using b q by (simp add: bindS_def)
    show ?thesis using retiring_ownership [OF assms(1) q] retiring_ownership [OF assms(2) n]
      rtranclp_trans [OF retiringD [OF assms(1) q] retiringD [OF assms(2) n]] by simp
  qed
qed

lemma retiring_if [retiring_rules]: "(c \<Longrightarrow> retiring S m) \<Longrightarrow> (\<not> c \<Longrightarrow> retiring S n) \<Longrightarrow> retiring S (if c then m else n)"
  by simp

lemma retiring_option [retiring_rules]:
  "retiring S m \<Longrightarrow> (\<And>x. retiring S (f x)) \<Longrightarrow> retiring S (case y of None \<Rightarrow> m | Some x \<Rightarrow> f x)"
  by (cases y) auto

lemma retiring_on_creds [retiring_rules]: "(\<And>r. c r \<Longrightarrow> retires r (f r)) \<Longrightarrow> retiring S (on_creds (update_where c f))"
  by (auto simp: retiring_def on_creds_def ownership_def update_where_def intro!: r_into_rtranclp key_step.retire [unfolded update_where_def])

lemma retiring_transaction [retiring_rules]: "retiring S m \<Longrightarrow> retiring S (cred_transaction m)"
  by (auto simp: retiring_def cred_transaction_def undone_def split: prod.splits sum.splits)

lemma retiring_revoke_machine_key [retiring_rules]: "retiring S (revoke_machine_key E kid mid successor)"
  unfolding revoke_machine_key_def Let_def by (intro retiring_rules revoke_row_retires)

lemma retires_coalesce: "retires r (r\<lparr>revoked_at := coalesce (revoked_at r) (Some t)\<rparr>)"
proof (cases "revoked_at r")
  case None
  then show ?thesis unfolding retires_def by (intro exI [of _ t] exI [of _ "replaced_by r"]) (simp add: coalesce_def)
next
  case (Some u)
  then show ?thesis unfolding retires_def by (intro exI [of _ u] exI [of _ "replaced_by r"]) (simp add: coalesce_def)
qed

lemma retiring_revoke_credential [retiring_rules]: "retiring S (revoke_credential E kid)"
  unfolding revoke_credential_def by (intro retiring_rules retires_coalesce)

lemma issue_machine_run:
  assumes "issue_machine E S mid mkey rotated v = Some (r, v')" "secrets_ok S"
  shows "v_uses v' = v_uses v \<and> w_db (v_world v') = w_db (v_world v) \<and> (case r of Inl e \<Rightarrow> v_creds v' = v_creds v
    | Inr i \<Rightarrow> \<exists>s w. prepared S i s w \<and> v_creds v' = v_creds v @ [new_row i s w] \<and>
        cred_key_id (issued i) \<notin> cred_key_id ` set (v_creds v) \<and> expires_at (issued i) = None \<and>
        cred_machine_id (issued i) = Some mid \<and> cred_scopes (issued i) = {SUBMIT, STATUS_WRITE} \<and>
        cred_prefixes (issued i) = [lit ''machines/'' @ mkey] \<and> rotation_from (issued i) = rotated)"
proof -
  obtain p v1 where p: "prepare E S (lit ''machine:'' @ mid) {SUBMIT, STATUS_WRITE} [lit ''machines/'' @ mkey] None
      (Some mid) rotated v = Some (p, v1)"
    using assms(1) by (auto simp: issue_machine_def bindR_def split: option.splits)
  note pr = prepare_run [OF p assms(2)]
  show ?thesis
  proof (cases p)
    case (Inl e)
    then have "r = Inl e \<and> v' = v1" using assms(1) p by (simp add: issue_machine_def bindR_def)
    then show ?thesis using pr by simp
  next
    case (Inr x)
    obtain i s w where x: "x = (i, s, w)" by (cases x)
    obtain q v2 where q: "insert_credential (issued i) s w v1 = (q, v2)" by force
    have n: "revoked_at (issued i) = None" "replaced_by (issued i) = None" using pr Inr x by (auto simp: prepared_def)
    have c: "issue_machine E S mid mkey rotated v = Some (case q of Inl e \<Rightarrow> (Inl e, v2) | Inr _ \<Rightarrow> (Inr i, v2))"
      using p q unfolding Inr x by (simp add: issue_machine_def bindR_def returns_def run_simps split: sum.splits)
    note pi = pr [unfolded Inr x sum.case prod.case] and ins = insert_credential_run [OF q n]
    show ?thesis
    proof (cases q)
      case (Inl e)
      then have "r = Inl e" "v' = v2" "v2 = v1" using assms(1) c ins by simp_all
      then show ?thesis using pi by simp
    next
      case (Inr u)
      then have "r = Inr i" "v' = v1\<lparr>v_creds := v_creds v1 @ [new_row i s w]\<rparr>"
          "cred_key_id (issued i) \<notin> cred_key_id ` set (v_creds v1)"
        using assms(1) c ins by simp_all
      then show ?thesis using pi by simp blast
    qed
  qed
qed

lemma issue_machine_steps:
  assumes "issue_machine E S mid mkey rotated v = Some (r, v')" "secrets_ok S"
  shows "key_steps S (T, v_creds v) ((case r of Inl e \<Rightarrow> T | Inr i \<Rightarrow> insert (token i) T), v_creds v')"
  using issue_machine_run [OF assms] by (auto split: sum.splits intro!: r_into_rtranclp prepared_issue)

lemma get_credential_Inr:
  "get_credential kid rows = Inr c \<Longrightarrow> \<exists>r \<in> set rows. cred_key_id r = kid \<and> c = credential_of r"
  by (auto simp: get_credential_def row_by_key_id_def find_Some_iff split: option.splits)

lemma rotate_run:
  assumes "rotate_credential E S kid v = Some (r, v')" "secrets_ok S"
  shows "case r of Inl e \<Rightarrow> v_creds v' = v_creds v
    | Inr i \<Rightarrow> \<exists>s w t old. prepared S i s w \<and> old \<in> set (v_creds v) \<and> cred_key_id old = kid \<and> revoked_at old = None \<and>
        cred_machine_id old = None \<and>
        v_creds v' = update_where (\<lambda>r. cred_key_id r = kid \<and> revoked_at r = None)
          (\<lambda>r. r\<lparr>revoked_at := Some t, replaced_by := Some (cred_key_id (issued i))\<rparr>) (v_creds v @ [new_row i s w]) \<and>
        cred_key_id (issued i) \<notin> cred_key_id ` set (v_creds v) \<and>
        cred_scopes (issued i) = cred_scopes old \<and> cred_prefixes (issued i) = cred_prefixes old \<and>
        expires_at (issued i) = expires_at old \<and> cred_machine_id (issued i) = None"
proof (cases "get_credential kid (v_creds v)")
  case (Inl e)
  then show ?thesis using assms(1) by (auto simp: rotate_credential_def bindR_def returns_def run_simps)
next
  case (Inr c)
  then obtain old where old: "old \<in> set (v_creds v)" "cred_key_id old = kid" "c = credential_of old"
    using get_credential_Inr by blast
  show ?thesis
  proof (cases "cred_machine_id old = None \<and> revoked_at old = None")
    case False
    then show ?thesis using assms(1) Inr old
      by (auto simp: rotate_credential_def bindR_def returns_def run_simps split: if_splits)
  next
    case True
    then have rot: "rotate_credential E S kid v = bindR (prepare E S (cred_name old) (cred_scopes old) (cred_prefixes old)
        (expires_at old) None None) (\<lambda>(i, the_salt, ver).
     returns (
     bindS (the_time E) (\<lambda>t.
     bindS (cred_transaction (
       let mine = (\<lambda>r. cred_key_id r = kid \<and> revoked_at r = None) in
       bindS (insert_credential (issued i) the_salt ver) (\<lambda>_.
       bindS (gets (\<lambda>v. count_where mine (v_creds v))) (\<lambda>n.
       bindS (on_creds (update_where mine
         (\<lambda>r. r\<lparr>revoked_at := Some t, replaced_by := Some (cred_key_id (issued i))\<rparr>))) (\<lambda>_.
       if n \<noteq> 1 then raise (ValueError ''credential was revoked during rotation'') else ret ()))))) (\<lambda>_.
     ret i)))) v"
      using Inr old by (simp add: rotate_credential_def bindR_def returns_def run_simps)
    obtain p v1 where p: "prepare E S (cred_name old) (cred_scopes old) (cred_prefixes old) (expires_at old) None None v = Some (p, v1)"
      using assms(1) unfolding rot by (auto simp: bindR_def split: option.splits)
    note pr = prepare_run [OF p assms(2)]
    show ?thesis
    proof (cases p)
      case (Inl e)
      then have "r = Inl e \<and> v' = v1" using assms(1) p unfolding rot by (simp add: bindR_def)
      then show ?thesis using pr by simp
    next
      case (Inr x)
      obtain i s w where x: "x = (i, s, w)" by (cases x)
      obtain t v2 where t: "the_time E v1 = (Inr t, v2)" "v_creds v2 = v_creds v1"
        by (simp add: the_time_def on_world_def now_def)
      obtain q v3 where q: "insert_credential (issued i) s w v2 = (q, v3)" by force
      have n: "revoked_at (issued i) = None" "replaced_by (issued i) = None" using pr Inr x by (auto simp: prepared_def)
      note ins = insert_credential_run [OF q n]
      show ?thesis
      proof (cases q)
        case Inl: (Inl e)
        then show ?thesis using assms(1) p pr t q ins Inr x unfolding rot
          by (auto simp: bindR_def returns_def run_simps cred_transaction_def Let_def undone_def)
      next
        case Inr': (Inr u)
        let ?rows = "v_creds v @ [new_row i s w]" and ?mine = "\<lambda>r. cred_key_id r = kid \<and> revoked_at r = None"
        let ?v = "v3\<lparr>v_creds := update_where ?mine (\<lambda>r. r\<lparr>revoked_at := Some t, replaced_by := Some (cred_key_id (issued i))\<rparr>) ?rows\<rparr>"
        have v3: "v_creds v3 = ?rows" "cred_key_id (issued i) \<notin> cred_key_id ` set (v_creds v)" using ins Inr' pr t(2) by simp_all
        have "(r, v') = (if count_where ?mine ?rows \<noteq> 1 then (Inl (ValueError ''credential was revoked during rotation''), undone v2 ?v)
            else (Inr i, ?v))"
          using assms(1) p t(1) q Inr x Inr' v3(1) unfolding rot
          by (auto simp: bindR_def returns_def run_simps cred_transaction_def Let_def on_creds_def split: if_splits)
        then consider e where "r = Inl e" "v_creds v' = v_creds v" | "r = Inr i" "v_creds v' = v_creds ?v"
          using t(2) pr by (auto simp: undone_def split: if_splits)
        then show ?thesis
        proof cases
          case 2
          then show ?thesis using pr [unfolded Inr x sum.case prod.case] old True v3(2)
            by (simp del: split_paired_Ex) blast
        qed simp
      qed
    qed
  qed
qed

section \<open>Dead keys\<close>

text \<open>A key that has been issued and revoked; it stays so, and its token is refused.\<close>

definition dead :: "str \<Rightarrow> credential_row list \<Rightarrow> bool" where
  "dead kid rows \<longleftrightarrow> kid \<in> cred_key_id ` set rows \<and> (\<forall>r \<in> set rows. cred_key_id r = kid \<longrightarrow> revoked_at r \<noteq> None)"

lemma dead_step:
  assumes "key_step S x y" "dead kid (snd x)"
  shows "dead kid (snd y)"
  using assms(1)
proof (cases rule: key_step.cases)
  case (issue t r rows T)
  then have "cred_key_id r \<noteq> kid" using assms(2) by (auto simp: dead_def)
  then show ?thesis using issue assms(2) by (auto simp: dead_def)
next
  case (retire c f T rows)
  have keys: "cred_key_id ` set (update_where c f rows) = cred_key_id ` set rows"
    using retire_map [of c f rows, OF retire(3)] by (metis set_map)
  have "revoked_at q \<noteq> None" if q: "q \<in> set (update_where c f rows)" "cred_key_id q = kid" for q
  proof -
    obtain r where r: "r \<in> set rows" "q = (if c r then f r else r)" using q(1) by (auto simp: set_update_where)
    have "cred_key_id r = kid" using r(2) q(2) retires_same(1) [OF retire(3)] by (simp split: if_splits)
    then have "revoked_at r \<noteq> None" using assms(2) r(1) by (simp add: dead_def retire(1))
    then show ?thesis using r(2) retires_same(9) [OF retire(3)] by simp
  qed
  moreover have "kid \<in> cred_key_id ` set (update_where c f rows)"
    using assms(2) unfolding keys retire(1) dead_def by simp
  ultimately show ?thesis unfolding dead_def retire(2) snd_conv by blast
qed

lemma dead_steps: "key_steps S x y \<Longrightarrow> dead kid (snd x) \<Longrightarrow> dead kid (snd y)"
  by (induction rule: rtranclp_induct) (auto intro: dead_step)

lemma row_by_key_idD:
  "row_by_key_id kid rows = Some r \<Longrightarrow> r \<in> set rows \<and> cred_key_id r = kid"
  "row_by_key_id kid rows = None \<Longrightarrow> kid \<notin> cred_key_id ` set rows"
  by (auto simp: row_by_key_id_def find_Some_iff find_None_iff)

lemma dead_refused:
  assumes "dead kid (v_creds v)" "parse_token t = Some kid"
  shows "\<exists>v'. verify E S t at_time v = (Inr None, v') \<and> v_creds v' = v_creds v"
proof -
  obtain r where r: "row_by_key_id kid (v_creds v) = Some r" "revoked_at r \<noteq> None"
    using assms(1) row_by_key_idD unfolding dead_def by (cases "row_by_key_id kid (v_creds v)") blast+
  obtain data where d: "utf8_encode t = Inr data" using parse_token_encodes [OF assms(2)] by blast
  have u: "\<not> usable_at tm r" for tm using r(2) by (simp add: usable_at_def)
  show ?thesis
    by (cases "s_scrypt S data (salt r) = verifier r"; cases at_time)
      (simp_all add: verify_def run_simps assms(2) r(1) derive_def d u the_time_def on_world_def now_def)
qed

lemma revoke_machine_key_dead:
  assumes "revoke_machine_key E kid mid successor v = (Inr c, v')" "distinct (map cred_key_id (v_creds v))"
  shows "dead kid (v_creds v')"
proof -
  let ?mine = "\<lambda>r. cred_key_id r = kid \<and> cred_machine_id r = Some mid"
  let ?t = "e_time E (w_clock (v_world v))"
  have v': "v_creds v' = update_where ?mine (revoke_row ?t successor) (v_creds v)" "count_where ?mine (v_creds v) = 1"
    using assms(1) by (auto simp: revoke_machine_key_def Let_def run_simps the_time_def on_world_def now_def on_creds_def split: if_splits)
  from v'(2) obtain r where "filter ?mine (v_creds v) = [r]" by (auto simp: count_where_def length_Suc_conv)
  then have "r \<in> set (filter ?mine (v_creds v))" by simp
  then have r: "r \<in> set (v_creds v)" "?mine r" by simp_all
  have same: "q = r" if "q \<in> set (v_creds v)" "cred_key_id q = kid" for q
    using that r assms(2) by (auto simp: distinct_map dest: inj_onD)
  have kid: "cred_key_id (if ?mine q then revoke_row ?t successor q else q) = cred_key_id q" for q
    by (simp add: revoke_row_def)
  have "revoked_at p \<noteq> None" if p: "p \<in> set (v_creds v')" "cred_key_id p = kid" for p
  proof -
    obtain q where q: "q \<in> set (v_creds v)" "p = (if ?mine q then revoke_row ?t successor q else q)"
      using p(1) unfolding v'(1) set_update_where by blast
    then have "q = r" using same p(2) kid by metis
    then show ?thesis using q(2) r(2) by (simp add: revoke_row_def coalesce_def split: option.splits)
  qed
  moreover have "kid \<in> cred_key_id ` set (v_creds v')"
    using r unfolding v'(1) set_update_where image_image kid by blast
  ultimately show ?thesis by (simp add: dead_def)
qed

lemma key_steps_distinct: "key_steps S x y \<Longrightarrow> distinct (map cred_key_id (snd x)) \<Longrightarrow> distinct (map cred_key_id (snd y))"
proof (induction rule: rtranclp_induct)
  case (step y z)
  show ?case using step.hyps(2)
  proof (cases rule: key_step.cases)
    case (retire c f T rows)
    then show ?thesis using step.IH [OF step.prems] retire_map [OF retire(3)] by simp
  qed (use step.IH [OF step.prems] in auto)
qed

lemma retiring_revoke_others [retiring_rules]: "retiring S (revoke_others E mid keep cs)"
proof (induction cs)
  case (Cons c cs)
  show ?case unfolding revoke_others.simps active_def by (intro retiring_rules Cons.IH)
qed (simp add: retiring_rules)

lemmas retiring_dead = dead_steps [OF retiringD, unfolded snd_conv]
lemmas retiring_distinct = key_steps_distinct [OF retiringD, unfolded snd_conv]

text \<open>Credentials without expiry that the loop is given are dead after it, but the one it keeps.\<close>

lemma revoke_others_dead:
  assumes "revoke_others E mid keep cs v = (Inr u, v')" "distinct (map cred_key_id (v_creds v))"
    and "\<And>c. c \<in> set cs \<Longrightarrow> expires_at c = None \<and> (revoked_at c \<noteq> None \<longrightarrow> dead (cred_key_id c) (v_creds v))"
    and "c \<in> set cs" "Some (cred_key_id c) \<noteq> keep"
  shows "dead (cred_key_id c) (v_creds v')"
  using assms
proof (induction cs arbitrary: v)
  case (Cons a cs)
  define m where "m = bindS (if Some (cred_key_id a) = keep then ret False else active E a) (\<lambda>due.
     if due then bindS (revoke_machine_key E (cred_key_id a) mid None) (\<lambda>_. ret ()) else ret ())"
  obtain v1 where v1: "m v = (Inr (), v1)" and rest: "revoke_others E mid keep cs v1 = (Inr u, v')"
    using Cons.prems(1) bindS_Inr_iff [of m "\<lambda>_. revoke_others E mid keep cs" v u v']
    by (auto simp: m_def bindS_assoc)
  have "retiring S m" for S
    unfolding m_def active_def by (intro retiring_rules)
  then have keep: "dead k (v_creds v) \<Longrightarrow> dead k (v_creds v1)" "distinct (map cred_key_id (v_creds v1))" for k
    using retiring_dead [where m = m, OF _ v1] retiring_distinct [where m = m, OF _ v1] Cons.prems(2) by blast+
  show ?case
  proof (cases "c = a")
    case True
    have "active E a v = (Inr (revoked_at a = None), v)"
      using Cons.prems(3) [of a] by (simp add: active_def act_simps split: option.splits)
    then have mv: "m v = (if revoked_at a = None then bindS (revoke_machine_key E (cred_key_id a) mid None) (\<lambda>_. ret ()) v else (Inr (), v))"
      using Cons.prems(5) True by (simp add: m_def run_simps)
    have "dead (cred_key_id a) (v_creds v1)"
    proof (cases "revoked_at a = None")
      case True
      then obtain x where "revoke_machine_key E (cred_key_id a) mid None v = (Inr x, v1)"
        using v1 mv by (auto simp: bindS_Inr_iff act_simps)
      then show ?thesis by (rule revoke_machine_key_dead [OF _ Cons.prems(2)])
    next
      case False
      then show ?thesis using v1 Cons.prems(3) [of a] unfolding mv if_not_P [OF False] by simp
    qed
    then show ?thesis using retiring_dead [where m = "revoke_others E mid keep cs", OF retiring_revoke_others rest] True by blast
  next
    case False
    then show ?thesis using Cons.IH [OF rest keep(2)] Cons.prems(3-5) keep(1) by simp
  qed
qed simp

end
