(* ===== verification/Lifecycle.thy ===== *)
theory Lifecycle
  imports Keys Registry
begin

text \<open>
  The life of the credentials of machines: what the operations of \<open>Enrollment\<close> do to the
  credential database, and the histories of that database.
\<close>

section \<open>What the coordinator does\<close>

lemma immediate_Inr: "immediate_transaction m v = Some (Inr x, v') \<longleftrightarrow> m v = Some (Inr x, v')"
  by (auto simp: immediate_transaction_def split: sum.splits)

lemma immediate_Inl: "immediate_transaction m v = Some (Inl e, v') \<Longrightarrow> v_creds v' = v_creds v \<and> v_uses v' = v_uses v"
  by (auto simp: immediate_transaction_def undone_def split: sum.splits)

lemma cred_transaction_Inr: "cred_transaction m v = (Inr x, v') \<longleftrightarrow> m v = (Inr x, v')"
  by (auto simp: cred_transaction_def split: prod.splits sum.splits)

lemma cred_transaction_Inl: "cred_transaction m v = (Inl e, v') \<Longrightarrow> v_creds v' = v_creds v \<and> v_uses v' = v_uses v"
  by (auto simp: cred_transaction_def undone_def split: prod.splits sum.splits)

lemma on_world_Inr:
  "on_world m v = (Inr x, v') \<longleftrightarrow> (\<exists>w. m (v_world v) = (Inr x, w) \<and> v' = v\<lparr>v_world := w\<rparr>)"
  by (auto simp: on_world_def split: prod.splits)

lemma read_catalog_Inr: "read_catalog f v = (Inr x, v') \<longleftrightarrow> f (w_db (v_world v)) = Inr x \<and> v' = v"
  by (auto simp: read_catalog_def on_world_Inr readE_def)

lemma validate_machine_Inr: "validate_machine m = Inr n \<Longrightarrow> n = m"
  by (simp add: validate_machine_def invalid_def split: if_splits)

lemma machine_of_Inr:
  assumes "machine_of user mid d = Inr m"
  shows "\<exists>r \<in> set (machine_rows d). mr_user r = user \<and> mr_id r = mid \<and> machine_from_row r = Inr m \<and> machine_id m = mid \<and>
    credential_key_id m = mr_credential_key_id r"
proof -
  obtain r where r: "machine_row_of user mid d = Some r" "machine_from_row r = Inr m"
    using assms by (auto simp: machine_of_def split: option.splits)
  have "r \<in> set (machine_rows d) \<and> mr_user r = user \<and> mr_id r = mid"
    using r(1) by (auto simp: machine_row_of_def find_Some_iff)
  then show ?thesis using r(2) validate_machine_Inr unfolding machine_from_row_def by fastforce
qed

lemma bind_machine_credential_run:
  assumes "bind_machine_credential user mid expected new w = (Inr m, w')"
  shows "machine_of user mid (w_db w') = Inr m \<and> credential_key_id m = Some new \<and>
    (\<exists>m0. machine_of user mid (w_db w) = Inr m0 \<and> machine_key m = machine_key m0 \<and> credential_key_id m0 = expected)"
proof -
  obtain m0 where m0: "machine_of user mid (w_db w) = Inr m0" "credential_key_id m0 = expected"
      "bind_credential user mid expected new (w_db w) = Inr (w_db w')" "machine_of user mid (w_db w') = Inr m"
    using assms
    by (auto simp: bind_machine_credential_def bindS_Inr_iff transaction_def readE_def on_dbE_def act_simps split: prod.splits sum.splits if_splits)
  obtain r where r: "machine_row_of user mid (w_db w) = Some r" "machine_from_row r = Inr m0"
    using m0(1) by (auto simp: machine_of_def split: option.splits)
  have key: "machine_from_row q = Inr n \<Longrightarrow> credential_key_id n = mr_credential_key_id q \<and> machine_key n = mr_key q" for q n
    using validate_machine_Inr unfolding machine_from_row_def by fastforce
  have e: "mr_credential_key_id r = expected" "mr_user r = user" "mr_id r = mid"
    using key [OF r(2)] m0(2) r(1) by (auto simp: machine_row_of_def find_Some_iff)
  have "machine_row_of user mid (w_db w') = Some (r\<lparr>mr_credential_key_id := Some new\<rparr>)"
  proof -
    have "w_db w' = set_machine user mid (\<lambda>q. if mr_credential_key_id q = expected
        then q\<lparr>mr_credential_key_id := Some new\<rparr> else q) (w_db w)"
      using m0(3) unfolding bind_credential_def if_Inl_iff sum.inject by (elim conjE) (rule sym)
    then show ?thesis using r(1) e by (simp add: machine_row_of_def set_machine_def find_update_where)
  qed
  then have row: "machine_from_row (r\<lparr>mr_credential_key_id := Some new\<rparr>) = Inr m" using m0(4) by (simp add: machine_of_def)
  have "machine_key m = machine_key m0" using key [OF row] key [OF r(2)] by simp
  then show ?thesis using m0(1,2,4) key [OF row] by auto
qed

lemma revoke_machine_key_run:
  assumes "revoke_machine_key E kid mid successor v = (Inr c, v')"
  shows "\<exists>t. v' = v\<lparr>v_world := (v_world v)\<lparr>w_clock := Suc (w_clock (v_world v))\<rparr>,
    v_creds := update_where (\<lambda>r. cred_key_id r = kid \<and> cred_machine_id r = Some mid) (revoke_row t successor) (v_creds v)\<rparr>"
  using assms by (auto simp: revoke_machine_key_def Let_def run_simps the_time_def on_world_def now_def on_creds_def split: if_splits)

lemma register_cases:
  assumes "register fuel E S user p rq v = Some (Inr res, v')"
  obtains recovered recovered' fingerprint v1 existing m v2 v3 v4 i v5 where
    "ADMIN \<in> scopes p \<or> ENROLL \<in> scopes p"
    "(if ADMIN \<in> scopes p then ret False else bindS (liftE (enrollment_key p)) (\<lambda>k.
       consume_enrollment E k (strip (rq_local_registration_id rq)) fingerprint)) v = (Inr recovered, v1)"
    "machine_for_registration user (rq_local_registration_id rq) (w_db (v_world v1)) = Inr existing"
    "catalog_machine fuel E user rq (if ADMIN \<in> scopes p then None else key_id p) recovered v1 = Some (Inr m, v2)"
    "(if ADMIN \<in> scopes p then ret () else bindS (liftE (enrollment_key p)) (\<lambda>k. bind_enrollment_use k (machine_id m))) v2 = (Inr (), v3)"
    "revoke_others E (machine_id m) (credential_key_id m) (machine_credentials (machine_id m) (v_creds v2)) v3 = (Inr (), v4)"
    "issue_machine E S (machine_id m) (machine_key m) None v4 = Some (Inr i, v5)"
    "hand_over E user m (machine_credentials (machine_id m) (v_creds v2)) i recovered' v5 = (Inr res, v')"
proof (cases "ADMIN \<in> scopes p")
  case True
  show thesis using assms True
    by (auto simp: register_def bindR_Some returns_Some immediate_Inr act_simps Let_def creds_of_def read_catalog_Inr intro: that)
next
  case False
  show thesis using assms False
    by (auto simp: register_def bindR_Some returns_Some immediate_Inr act_simps Let_def creds_of_def read_catalog_Inr intro: that split: if_splits)
qed

text \<open>Parts that do not touch the credentials.\<close>

lemma retiring_quiet: "(\<And>v r v'. m v = (r, v') \<Longrightarrow> v_creds v' = v_creds v) \<Longrightarrow> retiring S m"
  by (auto simp: retiring_def)

lemma consume_enrollment_run:
  assumes "consume_enrollment E kid registration fingerprint v = (r, v')"
  shows "v_creds v' = v_creds v \<and> w_db (v_world v') = w_db (v_world v) \<and>
    (v_uses v' = v_uses v \<or> (\<exists>u. use_of kid (v_uses v) = None \<and> v_uses v' = v_uses v @ [u] \<and> use_key_id u = kid))"
  using assms
  by (auto simp: consume_enrollment_def run_simps the_time_def on_world_def now_def split: option.splits if_splits)

lemma bind_enrollment_use_run:
  assumes "bind_enrollment_use kid mid v = (r, v')"
  shows "v' = v\<lparr>v_uses := update_where (bindable kid mid) (\<lambda>u. u\<lparr>use_machine_id := Some mid\<rparr>) (v_uses v)\<rparr> \<and>
    (r = Inr () \<longrightarrow> count_where (bindable kid mid) (v_uses v) = 1)"
  using assms by (auto simp: bind_enrollment_use_def Let_def split: if_splits)

lemma retiring_enrollment [retiring_rules]:
  "retiring S (consume_enrollment E kid registration fingerprint)" "retiring S (bind_enrollment_use kid mid)"
  using consume_enrollment_run bind_enrollment_use_run by (fastforce intro!: retiring_quiet)+

lemma retiring_hand_over [retiring_rules]: "retiring S (hand_over E user m creds i recovered)"
  unfolding hand_over_def by (intro retiring_rules)

lemma retiring_reads [retiring_rules]: "retiring S (creds_of mid)" "retiring S (find_credential kid)" "retiring S (read_catalog f)"
  "retiring S (active E c)" "retiring S (require_machine_credential E c m)"
  unfolding creds_of_def find_credential_def read_catalog_def active_def require_machine_credential_def
  by (intro retiring_rules)+

lemma retiring_confirm [retiring_rules]: "retiring S (confirm_rotation E user p mid key)"
  unfolding confirm_rotation_def confirm_again_def by (intro retiring_rules)

lemma retiring_revoke [retiring_rules]: "retiring S (revoke_machine E user p mid)"
  unfolding revoke_machine_def by (intro retiring_rules)

lemma retiring_verify [retiring_rules]: "retiring S' (verify E S tok at_time)"
  unfolding verify_def by (intro retiring_rules)

section \<open>Operations that hand out tokens\<close>

lemma catalog_machine_quiet:
  "catalog_machine fuel E user rq enrollment recovered v = Some (r, v') \<Longrightarrow> v_creds v' = v_creds v \<and> v_uses v' = v_uses v"
  by (auto simp: catalog_machine_def)

lemma hand_over_run:
  assumes "hand_over E user m creds i recovered v = (Inr res, v')"
  shows "rr_token res = token i \<and> rr_key_id res = cred_key_id (issued i) \<and> machine_id (rr_machine res) = machine_id m \<and>
    credential_key_id (rr_machine res) = Some (rr_key_id res) \<and>
    machine_of user (machine_id m) (w_db (v_world v')) = Inr (rr_machine res) \<and>
    (\<exists>m0. machine_of user (machine_id m) (w_db (v_world v)) = Inr m0 \<and> machine_key (rr_machine res) = machine_key m0) \<and>
    v_uses v' = v_uses v \<and>
    (\<forall>k c. credential_key_id m = Some k \<longrightarrow> c \<in> set creds \<longrightarrow> cred_key_id c = k \<longrightarrow> distinct (map cred_key_id (v_creds v)) \<longrightarrow>
      dead k (v_creds v')) \<and>
    (\<forall>r \<in> set (v_creds v). (\<forall>k c. credential_key_id m = Some k \<longrightarrow> c \<in> set creds \<longrightarrow> cred_key_id c = k \<longrightarrow> cred_key_id r \<noteq> k) \<longrightarrow>
      r \<in> set (v_creds v'))"
proof -
  obtain m' w' where b: "bind_machine_credential user (machine_id m) (credential_key_id m) (cred_key_id (issued i)) (v_world v) = (Inr m', w')"
    and rest: "(case credential_key_id m of
         Some k \<Rightarrow> if list_ex (\<lambda>c. cred_key_id c = k) creds
           then bindS (revoke_machine_key E k (machine_id m') (Some (cred_key_id (issued i)))) (\<lambda>_. ret ()) else ret ()
       | None \<Rightarrow> ret ()) (v\<lparr>v_world := w'\<rparr>) = (Inr (), v')"
    and res: "res = \<lparr>rr_machine = m', rr_key_id = cred_key_id (issued i), rr_token = token i, rr_recovered = recovered\<rparr>"
    using assms unfolding hand_over_def by (auto simp: bindS_Inr_iff [of "on_world _"] bindS_Inr_iff [of "case_option _ _ _"] on_world_Inr act_simps)
  note m' = bind_machine_credential_run [OF b]
  have id: "machine_id m' = machine_id m" using machine_of_Inr [OF conjunct1 [OF m']] by blast
  show ?thesis
  proof (cases "\<exists>k c. credential_key_id m = Some k \<and> c \<in> set creds \<and> cred_key_id c = k")
    case True
    then obtain k c where k: "credential_key_id m = Some k" "list_ex (\<lambda>c. cred_key_id c = k) creds" by (auto simp: list_ex_iff)
    then obtain x where r: "revoke_machine_key E k (machine_id m') (Some (cred_key_id (issued i))) (v\<lparr>v_world := w'\<rparr>) = (Inr x, v')"
      using rest by (auto simp: bindS_Inr_iff act_simps)
    obtain t where v': "v' = v\<lparr>v_world := w'\<lparr>w_clock := Suc (w_clock w')\<rparr>,
        v_creds := update_where (\<lambda>r. cred_key_id r = k \<and> cred_machine_id r = Some (machine_id m')) (revoke_row t (Some (cred_key_id (issued i)))) (v_creds v)\<rparr>"
      using revoke_machine_key_run [OF r] by auto
    have "dead k (v_creds v')" if "distinct (map cred_key_id (v_creds v))"
      using revoke_machine_key_dead [OF r] that by simp
    then show ?thesis using m' id k by (auto simp: res v' set_update_where list_ex_iff)
  next
    case False
    then have "(case credential_key_id m of Some k \<Rightarrow> if list_ex (\<lambda>c. cred_key_id c = k) creds
           then bindS (revoke_machine_key E k (machine_id m') (Some (cred_key_id (issued i)))) (\<lambda>_. ret ()) else ret ()
       | None \<Rightarrow> ret ()) = ret ()" by (auto simp: list_ex_iff split: option.splits)
    then have "v' = v\<lparr>v_world := w'\<rparr>" using rest by (simp add: act_simps)
    then show ?thesis using m' id False by (auto simp: res)
  qed
qed

lemma register_steps:
  assumes "register fuel E S user p rq v = Some (r, v')" "secrets_ok S"
  shows "key_steps S (T, v_creds v) ((case r of Inl e \<Rightarrow> T | Inr res \<Rightarrow> insert (rr_token res) T), v_creds v')"
proof (cases r)
  case (Inl e)
  then have "v_creds v' = v_creds v" using assms(1)
    by (auto simp: register_def Let_def bindR_def returns_def act_simps dest: immediate_Inl split: if_splits sum.splits)
  then show ?thesis using Inl by simp
next
  case (Inr res)
  have run: "register fuel E S user p rq v = Some (Inr res, v')" using assms(1) Inr by simp
  from run show ?thesis
  proof (rule register_cases)
    fix recovered recovered' fingerprint v1 existing m v2 v3 v4 i v5
    assume r: "(if ADMIN \<in> scopes p then ret False else bindS (liftE (enrollment_key p)) (\<lambda>k.
         consume_enrollment E k (strip (rq_local_registration_id rq)) fingerprint)) v = (Inr recovered, v1)"
      "catalog_machine fuel E user rq (if ADMIN \<in> scopes p then None else key_id p) recovered v1 = Some (Inr m, v2)"
      "(if ADMIN \<in> scopes p then ret () else bindS (liftE (enrollment_key p)) (\<lambda>k. bind_enrollment_use k (machine_id m))) v2 = (Inr (), v3)"
      "revoke_others E (machine_id m) (credential_key_id m) (machine_credentials (machine_id m) (v_creds v2)) v3 = (Inr (), v4)"
      "issue_machine E S (machine_id m) (machine_key m) None v4 = Some (Inr i, v5)"
      "hand_over E user m (machine_credentials (machine_id m) (v_creds v2)) i recovered' v5 = (Inr res, v')"
    have q1: "retiring S (if ADMIN \<in> scopes p then ret False else bindS (liftE (enrollment_key p)) (\<lambda>k.
       consume_enrollment E k (strip (rq_local_registration_id rq)) fingerprint))"
      and q2: "retiring S (if ADMIN \<in> scopes p then ret () else bindS (liftE (enrollment_key p)) (\<lambda>k. bind_enrollment_use k (machine_id m)))"
      by (intro retiring_rules)+
    have "key_steps S (T, v_creds v) (T, v_creds v1)" by (rule retiringD [OF q1 r(1)])
    also have "v_creds v1 = v_creds v2" using catalog_machine_quiet [OF r(2)] by simp
    also have "key_steps S (T, v_creds v2) (T, v_creds v3)" by (rule retiringD [OF q2 r(3)])
    also have "key_steps S (T, v_creds v3) (T, v_creds v4)" by (rule retiringD [OF retiring_revoke_others r(4)])
    also have "key_steps S (T, v_creds v4) (insert (token i) T, v_creds v5)" using issue_machine_steps [OF r(5) assms(2), of T] by simp
    also have "key_steps S (insert (token i) T, v_creds v5) (insert (token i) T, v_creds v')" by (rule retiringD [OF retiring_hand_over r(6)])
    finally show ?thesis using hand_over_run [OF r(6)] Inr by simp
  qed
qed

lemma prepare_rotation_cases:
  assumes "prepare_rotation E S user p mid v = Some (Inr pc, v')"
  shows "\<exists>m v1 i. require_current user p mid False (w_db (v_world v)) = Inr m \<and>
    revoke_others E mid (credential_key_id m) (machine_credentials mid (v_creds v)) v = (Inr (), v1) \<and>
    issue_machine E S (machine_id m) (machine_key m) (credential_key_id m) v1 = Some (Inr i, v') \<and>
    pc = \<lparr>pc_key_id = cred_key_id (issued i), pc_token = token i\<rparr>"
proof -
  obtain m s1 cs s2 u s3 i s4 where a: "require_current user p mid False (w_db (v_world v)) = Inr m \<and> s1 = v"
      "gets (\<lambda>v. machine_credentials mid (v_creds v)) s1 = (Inr cs, s2)"
      "revoke_others E mid (credential_key_id m) cs s2 = (Inr u, s3)"
      "issue_machine E S (machine_id m) (machine_key m) (credential_key_id m) s3 = Some (Inr i, s4)"
      "ret \<lparr>pc_key_id = cred_key_id (issued i), pc_token = token i\<rparr> s4 = (Inr pc, v')"
    using assms unfolding prepare_rotation_def immediate_Inr bindR_Some returns_Some read_catalog_Inr creds_of_def by blast
  have "cs = machine_credentials mid (v_creds v)" "s2 = v" using a(1,2) by (auto simp: act_simps)
  moreover have "s4 = v'" "pc = \<lparr>pc_key_id = cred_key_id (issued i), pc_token = token i\<rparr>" using a(5) by (auto simp: act_simps)
  ultimately show ?thesis using a(1,3,4) by auto
qed

lemma prepare_rotation_steps:
  assumes "prepare_rotation E S user p mid v = Some (r, v')" "secrets_ok S"
  shows "key_steps S (T, v_creds v) ((case r of Inl e \<Rightarrow> T | Inr pc \<Rightarrow> insert (pc_token pc) T), v_creds v')"
proof (cases r)
  case (Inl e)
  then show ?thesis using assms(1) by (auto simp: prepare_rotation_def dest: immediate_Inl)
next
  case (Inr pc)
  then have "prepare_rotation E S user p mid v = Some (Inr pc, v')" using assms(1) by simp
  from prepare_rotation_cases [OF this] obtain m :: machine and v1 i where run:
      "revoke_others E mid (credential_key_id m) (machine_credentials mid (v_creds v)) v = (Inr (), v1)"
      "issue_machine E S (machine_id m) (machine_key m) (credential_key_id m) v1 = Some (Inr i, v')"
      "pc = \<lparr>pc_key_id = cred_key_id (issued i), pc_token = token i\<rparr>"
    by (elim exE conjE) (rule that; assumption)
  have "key_steps S (T, v_creds v) (T, v_creds v1)" by (rule retiringD [OF retiring_revoke_others run(1)])
  also have "key_steps S (T, v_creds v1) (insert (token i) T, v_creds v')" using issue_machine_steps [OF run(2) assms(2), of T] by simp
  finally show ?thesis using Inr run(3) by simp
qed

lemma retires_now: "revoked_at r = None \<Longrightarrow> retires r (r\<lparr>revoked_at := Some t, replaced_by := b\<rparr>)"
  unfolding retires_def by (intro exI conjI impI) simp_all

lemma rotate_steps:
  assumes "rotate_credential E S kid v = Some (r, v')" "secrets_ok S"
  shows "key_steps S (T, v_creds v) ((case r of Inl e \<Rightarrow> T | Inr i \<Rightarrow> insert (token i) T), v_creds v')"
proof (cases r)
  case (Inl e)
  then show ?thesis using rotate_run [OF assms] by simp
next
  case (Inr i)
  obtain s w t where r: "prepared S i s w" "cred_machine_id (issued i) = None"
      "cred_key_id (issued i) \<notin> cred_key_id ` set (v_creds v)"
      "v_creds v' = update_where (\<lambda>r. cred_key_id r = kid \<and> revoked_at r = None)
          (\<lambda>r. r\<lparr>revoked_at := Some t, replaced_by := Some (cred_key_id (issued i))\<rparr>) (v_creds v @ [new_row i s w])"
    using rotate_run [OF assms, unfolded Inr sum.case] by (elim exE conjE) (rule that; assumption)
  have "key_step S (T, v_creds v) (insert (token i) T, v_creds v @ [new_row i s w])"
    using r(1-3) by (intro prepared_issue) auto
  moreover have "key_step S (insert (token i) T, v_creds v @ [new_row i s w]) (insert (token i) T, v_creds v')"
    unfolding r(4) by (rule key_step.retire) (simp only: retires_now)
  ultimately have "key_steps S (T, v_creds v) (insert (token i) T, v_creds v')" by (meson converse_rtranclp_into_rtranclp r_into_rtranclp)
  then show ?thesis using Inr by simp
qed

section \<open>Histories\<close>

text \<open>
  The tokens handed out and the vault: the operations of the credential store and of the coordinator,
  whatever they return, and changes of the catalogue and the clock by others.
\<close>

definition handing :: "('a \<Rightarrow> str) \<Rightarrow> 'a res \<Rightarrow> str set \<Rightarrow> str set" where
  "handing f r T = (case r of Inl _ \<Rightarrow> T | Inr x \<Rightarrow> insert (f x) T)"

inductive vault_step :: "env \<Rightarrow> secret_source \<Rightarrow> str set \<times> vault \<Rightarrow> str set \<times> vault \<Rightarrow> bool" for E S where
  created: "create_credential E S name scps pfxs expires v = Some (r, v') \<Longrightarrow> vault_step E S (T, v) (handing token r T, v')"
| rotated: "rotate_credential E S kid v = Some (r, v') \<Longrightarrow> vault_step E S (T, v) (handing token r T, v')"
| revoked: "revoke_credential E kid v = (r', v') \<Longrightarrow> vault_step E S (T, v) (T, v')"
| verified: "verify E S tok at_time v = (q, v') \<Longrightarrow> vault_step E S (T, v) (T, v')"
| registered: "register fuel E S user p rq v = Some (rr, v') \<Longrightarrow> vault_step E S (T, v) (handing rr_token rr T, v')"
| prepared: "prepare_rotation E S user p mid v = Some (rp, v') \<Longrightarrow> vault_step E S (T, v) (handing pc_token rp T, v')"
| confirmed: "confirm_rotation E user p mid key v = (rm, v') \<Longrightarrow> vault_step E S (T, v) (T, v')"
| machine_revoked: "revoke_machine E user p mid v = (rm, v') \<Longrightarrow> vault_step E S (T, v) (T, v')"
| world: "vault_step E S (T, v) (T, v\<lparr>v_world := w\<rparr>)"

abbreviation vault_steps where "vault_steps E S \<equiv> (vault_step E S)\<^sup>*\<^sup>*"

lemma vault_step_keys:
  assumes "vault_step E S x y" "secrets_ok S"
  shows "key_steps S (fst x, v_creds (snd x)) (fst y, v_creds (snd y))"
  using assms(1)
proof (cases rule: vault_step.cases)
  case created
  then show ?thesis using create_steps [OF created(3) assms(2)] by (simp add: handing_def)
next
  case rotated
  then show ?thesis using rotate_steps [OF rotated(3) assms(2)] by (simp add: handing_def)
next
  case revoked
  then show ?thesis using retiringD [OF retiring_revoke_credential revoked(3)] by simp
next
  case verified
  then show ?thesis using retiringD [OF retiring_verify verified(3)] by simp
next
  case registered
  then show ?thesis using register_steps [OF registered(3) assms(2)] by (simp add: handing_def)
next
  case prepared
  then show ?thesis using prepare_rotation_steps [OF prepared(3) assms(2)] by (simp add: handing_def)
next
  case confirmed
  then show ?thesis using retiringD [OF retiring_confirm confirmed(3)] by simp
next
  case machine_revoked
  then show ?thesis using retiringD [OF retiring_revoke machine_revoked(3)] by simp
next
  case world
  then show ?thesis by simp
qed

lemma vault_steps_keys:
  assumes "vault_steps E S (T, v) (T', v')" "secrets_ok S"
  shows "key_steps S (T, v_creds v) (T', v_creds v')"
proof -
  have "vault_steps E S x y \<Longrightarrow> key_steps S (fst x, v_creds (snd x)) (fst y, v_creds (snd y))" for x y
    by (induction rule: rtranclp_induct) (auto dest: vault_step_keys [OF _ assms(2)])
  from this [OF assms(1)] show ?thesis by simp
qed

definition fresh_vault :: "vault \<Rightarrow> bool" where
  "fresh_vault v \<longleftrightarrow> v_creds v = [] \<and> v_uses v = []"

lemma history_keys_ok:
  assumes "fresh_vault v0" "vault_steps E S ({}, v0) (T, v)" "secrets_ok S"
  shows "issued_ok S (T, v_creds v)"
  using key_steps_ok [OF vault_steps_keys [OF assms(2,3)]] assms(1) by (simp add: issued_ok_def fresh_vault_def)

lemma history_dead:
  assumes "vault_steps E S (T, v) (T', v')" "secrets_ok S" "dead kid (v_creds v)"
  shows "dead kid (v_creds v')"
  using dead_steps [OF vault_steps_keys [OF assms(1,2)]] assms(3) by simp

section \<open>Enrollments\<close>

text \<open>The enrollment has registered the machine.\<close>

definition spent_on :: "str \<Rightarrow> str \<Rightarrow> enrollment_use list \<Rightarrow> bool" where
  "spent_on kid mid us \<longleftrightarrow> (\<exists>u \<in> set us. use_key_id u = kid \<and> use_machine_id u = Some mid)"

definition uses_keep :: "enrollment_use list \<Rightarrow> enrollment_use list \<Rightarrow> bool" where
  "uses_keep us us' \<longleftrightarrow> (distinct (map use_key_id us) \<longrightarrow>
     distinct (map use_key_id us') \<and> (\<forall>kid mid. spent_on kid mid us \<longrightarrow> spent_on kid mid us'))"

lemma uses_keep_refl [simp]: "uses_keep us us"
  by (simp add: uses_keep_def)

lemma uses_keep_trans: "uses_keep a b \<Longrightarrow> uses_keep b c \<Longrightarrow> uses_keep a c"
  by (auto simp: uses_keep_def)

definition keeping_uses :: "(vault, 'a) act \<Rightarrow> bool" where
  "keeping_uses m \<longleftrightarrow> (\<forall>v r v'. m v = (r, v') \<longrightarrow> uses_keep (v_uses v) (v_uses v'))"

named_theorems uses_rules \<open>operations that keep the spent enrollments\<close>

lemma keeping_usesD: "keeping_uses m \<Longrightarrow> m v = (r, v') \<Longrightarrow> uses_keep (v_uses v) (v_uses v')"
  by (auto simp: keeping_uses_def)

lemma keeping_uses_basic [uses_rules]:
  "keeping_uses (ret x)" "keeping_uses (raise e)" "keeping_uses (liftE q)" "keeping_uses (gets g)"
  "keeping_uses (on_world m)" "keeping_uses (the_time E)" "keeping_uses (on_creds f)"
  by (auto simp: keeping_uses_def run_simps on_world_def the_time_def on_creds_def split: prod.splits)

lemma keeping_uses_bindS [uses_rules]:
  assumes "keeping_uses m" "\<And>x. keeping_uses (f x)"
  shows "keeping_uses (bindS m f)"
  unfolding keeping_uses_def
proof (intro allI impI)
  fix v r v' assume b: "bindS m f v = (r, v')"
  obtain q v1 where q: "m v = (q, v1)" by force
  show "uses_keep (v_uses v) (v_uses v')"
  proof (cases q)
    case (Inl e)
    then show ?thesis using b q keeping_usesD [OF assms(1) q] by (simp add: bindS_def)
  next
    case (Inr x)
    then have "f x v1 = (r, v')" using b q by (simp add: bindS_def)
    from uses_keep_trans [OF keeping_usesD [OF assms(1) q] keeping_usesD [OF assms(2) this]] show ?thesis .
  qed
qed

lemma keeping_uses_if [uses_rules]: "(c \<Longrightarrow> keeping_uses m) \<Longrightarrow> (\<not> c \<Longrightarrow> keeping_uses n) \<Longrightarrow> keeping_uses (if c then m else n)"
  by simp

lemma keeping_uses_option [uses_rules]:
  "keeping_uses m \<Longrightarrow> (\<And>x. keeping_uses (f x)) \<Longrightarrow> keeping_uses (case y of None \<Rightarrow> m | Some x \<Rightarrow> f x)"
  by (cases y) auto

lemma keeping_uses_transaction [uses_rules]: "keeping_uses m \<Longrightarrow> keeping_uses (cred_transaction m)"
  by (auto simp: keeping_uses_def cred_transaction_def undone_def split: prod.splits sum.splits)

lemma use_of_None: "use_of kid us = None \<longleftrightarrow> kid \<notin> use_key_id ` set us"
  by (auto simp: use_of_def find_None_iff)

lemma keeping_consume [uses_rules]: "keeping_uses (consume_enrollment E kid registration fingerprint)"
  unfolding keeping_uses_def
proof (intro allI impI)
  fix v r v' assume "consume_enrollment E kid registration fingerprint v = (r, v')"
  then consider "v_uses v' = v_uses v" | u where "use_of kid (v_uses v) = None" "v_uses v' = v_uses v @ [u]" "use_key_id u = kid"
    using consume_enrollment_run by blast
  then show "uses_keep (v_uses v) (v_uses v')"
    by cases (auto simp: uses_keep_def spent_on_def use_of_None)
qed

lemma keeping_bind [uses_rules]: "keeping_uses (bind_enrollment_use kid mid)"
  unfolding keeping_uses_def
proof (intro allI impI)
  fix v r v' assume "bind_enrollment_use kid mid v = (r, v')"
  then have v': "v_uses v' = update_where (bindable kid mid) (\<lambda>u. u\<lparr>use_machine_id := Some mid\<rparr>) (v_uses v)"
    using bind_enrollment_use_run by fastforce
  have keys: "map use_key_id (v_uses v') = map use_key_id (v_uses v)" unfolding v' by (auto simp: update_where_def)
  have "spent_on k m (v_uses v')" if "spent_on k m (v_uses v)" for k m
    using that unfolding spent_on_def v' set_update_where bex_simps by (rule bexE) (rule bexI, auto simp: bindable_def)
  then show "uses_keep (v_uses v) (v_uses v')" by (simp add: uses_keep_def keys)
qed

lemma keeping_uses_parts [uses_rules]:
  "keeping_uses (revoke_machine_key E kid mid successor)" "keeping_uses (creds_of mid)" "keeping_uses (find_credential kid)"
  "keeping_uses (read_catalog f)" "keeping_uses (active E c)" "keeping_uses (require_machine_credential E c m)"
  unfolding revoke_machine_key_def Let_def creds_of_def find_credential_def read_catalog_def active_def require_machine_credential_def
  by (intro uses_rules)+

lemma keeping_uses_ops [uses_rules]:
  "keeping_uses (revoke_credential E kid)" "keeping_uses (verify E S tok at_time)" "keeping_uses (confirm_rotation E user p mid key)"
  unfolding revoke_credential_def verify_def confirm_rotation_def confirm_again_def
  by (intro uses_rules)+

lemma keeping_uses_hand_over [uses_rules]: "keeping_uses (hand_over E user m creds i recovered)"
  unfolding hand_over_def by (intro uses_rules)

lemma keeping_uses_revoke_others [uses_rules]: "keeping_uses (revoke_others E mid keep cs)"
proof (induction cs)
  case (Cons c cs)
  show ?case unfolding revoke_others.simps by (intro uses_rules Cons.IH)
qed (simp add: uses_rules)

lemma keeping_uses_revoke_machine [uses_rules]: "keeping_uses (revoke_machine E user p mid)"
  unfolding revoke_machine_def by (intro uses_rules)

lemma insert_credential_uses: "insert_credential c s w v = (r, v') \<Longrightarrow> v_uses v' = v_uses v"
  by (auto simp: insert_credential_def split: if_splits)

lemma create_uses:
  assumes "create_credential E S name scps pfxs expires v = Some (r, v')" "secrets_ok S"
  shows "v_uses v' = v_uses v"
proof -
  obtain p v1 where p: "prepare E S name scps pfxs expires None None v = Some (p, v1)"
    using assms(1) by (auto simp: create_credential_def bindR_def split: option.splits)
  then have "v_uses v1 = v_uses v" using prepare_run [OF p assms(2)] by simp
  moreover have "v_uses v' = v_uses v1" using assms(1) p
    by (auto simp: create_credential_def bindR_def returns_def run_simps cred_transaction_def undone_def
      split: sum.splits prod.splits dest: insert_credential_uses)
  ultimately show ?thesis by simp
qed

lemma rotate_uses:
  assumes "rotate_credential E S kid v = Some (r, v')" "secrets_ok S"
  shows "v_uses v' = v_uses v"
proof -
  consider "v' = v" | name scps pfxs expires p v1 where "prepare E S name scps pfxs expires None None v = Some (p, v1)"
      "case p of Inl e \<Rightarrow> v' = v1 | Inr (i, s, w) \<Rightarrow> v_uses v' = v_uses v1"
  proof (cases "get_credential kid (v_creds v)")
    case (Inr c)
    show ?thesis
    proof (cases "cred_machine_id c \<noteq> None \<or> revoked_at c \<noteq> None")
      case True
      then show ?thesis using assms(1) Inr that(1)
        by (auto simp: rotate_credential_def bindR_def returns_def run_simps split: if_splits)
    next
      case False
      then obtain p v1 where p: "prepare E S (cred_name c) (cred_scopes c) (cred_prefixes c) (expires_at c) None None v = Some (p, v1)"
        using assms(1) Inr by (auto simp: rotate_credential_def bindR_def returns_def run_simps split: option.splits)
      have "case p of Inl e \<Rightarrow> v' = v1 | Inr (i, s, w) \<Rightarrow> v_uses v' = v_uses v1"
        using assms(1) Inr False p
        by (auto simp: rotate_credential_def bindR_def returns_def run_simps cred_transaction_def undone_def Let_def
          the_time_def on_world_def now_def on_creds_def split: sum.splits prod.splits if_splits dest!: insert_credential_uses)
      with p show ?thesis by (rule that(2))
    qed
  qed (use assms(1) that(1) in \<open>auto simp: rotate_credential_def bindR_def returns_def run_simps\<close>)
  then show ?thesis
  proof cases
    case 2
    then show ?thesis using prepare_run [OF 2(1) assms(2)] by (auto split: sum.splits)
  qed simp
qed

lemma register_uses:
  assumes "register fuel E S user p rq v = Some (r, v')" "secrets_ok S"
  shows "uses_keep (v_uses v) (v_uses v')"
proof (cases r)
  case (Inl e)
  then have "v_uses v' = v_uses v" using assms(1)
    by (auto simp: register_def Let_def bindR_def returns_def act_simps dest: immediate_Inl split: if_splits sum.splits)
  then show ?thesis by simp
next
  case (Inr res)
  have run: "register fuel E S user p rq v = Some (Inr res, v')" using assms(1) Inr by simp
  from run show ?thesis
  proof (rule register_cases)
    fix recovered recovered' fingerprint v1 existing m v2 v3 v4 i v5
    assume r: "(if ADMIN \<in> scopes p then ret False else bindS (liftE (enrollment_key p)) (\<lambda>k.
         consume_enrollment E k (strip (rq_local_registration_id rq)) fingerprint)) v = (Inr recovered, v1)"
      "catalog_machine fuel E user rq (if ADMIN \<in> scopes p then None else key_id p) recovered v1 = Some (Inr m, v2)"
      "(if ADMIN \<in> scopes p then ret () else bindS (liftE (enrollment_key p)) (\<lambda>k. bind_enrollment_use k (machine_id m))) v2 = (Inr (), v3)"
      "revoke_others E (machine_id m) (credential_key_id m) (machine_credentials (machine_id m) (v_creds v2)) v3 = (Inr (), v4)"
      "issue_machine E S (machine_id m) (machine_key m) None v4 = Some (Inr i, v5)"
      "hand_over E user m (machine_credentials (machine_id m) (v_creds v2)) i recovered' v5 = (Inr res, v')"
    have q1: "keeping_uses (if ADMIN \<in> scopes p then ret False else bindS (liftE (enrollment_key p)) (\<lambda>k.
       consume_enrollment E k (strip (rq_local_registration_id rq)) fingerprint))"
      and q2: "keeping_uses (if ADMIN \<in> scopes p then ret () else bindS (liftE (enrollment_key p)) (\<lambda>k. bind_enrollment_use k (machine_id m)))"
      by (intro uses_rules)+
    note steps = keeping_usesD [OF q1 r(1)] catalog_machine_quiet [OF r(2)] keeping_usesD [OF q2 r(3)]
      keeping_usesD [OF keeping_uses_revoke_others r(4)] issue_machine_run [OF r(5) assms(2)]
      keeping_usesD [OF keeping_uses_hand_over r(6)]
    show ?thesis using steps uses_keep_trans by metis
  qed
qed

lemma prepare_rotation_uses:
  assumes "prepare_rotation E S user p mid v = Some (r, v')" "secrets_ok S"
  shows "uses_keep (v_uses v) (v_uses v')"
proof (cases r)
  case (Inl e)
  then show ?thesis using assms(1) by (auto simp: prepare_rotation_def dest: immediate_Inl)
next
  case (Inr pc)
  then have "prepare_rotation E S user p mid v = Some (Inr pc, v')" using assms(1) by simp
  from prepare_rotation_cases [OF this] obtain m :: machine and v1 i where run:
      "revoke_others E mid (credential_key_id m) (machine_credentials mid (v_creds v)) v = (Inr (), v1)"
      "issue_machine E S (machine_id m) (machine_key m) (credential_key_id m) v1 = Some (Inr i, v')"
    by (elim exE conjE) (rule that; assumption)
  show ?thesis using keeping_usesD [OF keeping_uses_revoke_others run(1)] issue_machine_run [OF run(2) assms(2)] by simp
qed

lemma vault_step_uses:
  assumes "vault_step E S x y" "secrets_ok S"
  shows "uses_keep (v_uses (snd x)) (v_uses (snd y))"
  using assms(1)
proof (cases rule: vault_step.cases)
  case created
  then show ?thesis using create_uses [OF created(3) assms(2)] by simp
next
  case rotated
  then show ?thesis using rotate_uses [OF rotated(3) assms(2)] by simp
next
  case registered
  then show ?thesis using register_uses [OF registered(3) assms(2)] by simp
next
  case prepared
  then show ?thesis using prepare_rotation_uses [OF prepared(3) assms(2)] by simp
qed (auto intro: keeping_usesD uses_rules)

lemma vault_steps_uses:
  assumes "vault_steps E S (T, v) (T', v')" "secrets_ok S"
  shows "uses_keep (v_uses v) (v_uses v')"
proof -
  have "vault_steps E S x y \<Longrightarrow> uses_keep (v_uses (snd x)) (v_uses (snd y))" for x y
    by (induction rule: rtranclp_induct) (auto dest: vault_step_uses [OF _ assms(2)] intro: uses_keep_trans)
  from this [OF assms(1)] show ?thesis by simp
qed

lemma bind_spends:
  assumes "bind_enrollment_use kid mid v = (Inr (), v')"
  shows "spent_on kid mid (v_uses v')"
proof -
  have v': "v_uses v' = update_where (bindable kid mid) (\<lambda>u. u\<lparr>use_machine_id := Some mid\<rparr>) (v_uses v)"
    and n: "count_where (bindable kid mid) (v_uses v) = 1"
    using bind_enrollment_use_run [OF assms] by simp_all
  from n obtain u where "filter (bindable kid mid) (v_uses v) = [u]" by (auto simp: count_where_def length_Suc_conv)
  then have "u \<in> set (filter (bindable kid mid) (v_uses v))" by simp
  then have u: "u \<in> set (v_uses v)" "bindable kid mid u" by simp_all
  then have "u\<lparr>use_machine_id := Some mid\<rparr> \<in> set (v_uses v')" unfolding v' set_update_where by force
  then show ?thesis using u(2) unfolding spent_on_def bindable_def by (intro bexI [of _ "u\<lparr>use_machine_id := Some mid\<rparr>"]) simp_all
qed

text \<open>A registration with an enrollment leaves the enrollment spent on the machine.\<close>

lemma register_spends:
  assumes "register fuel E S user p rq v = Some (Inr res, v')" "secrets_ok S" "ADMIN \<notin> scopes p" "key_id p = Some k"
    and "distinct (map use_key_id (v_uses v))"
  shows "spent_on k (machine_id (rr_machine res)) (v_uses v')"
  using assms(1)
proof (rule register_cases)
  fix recovered recovered' fingerprint v1 existing m v2 v3 v4 i v5
  assume r: "(if ADMIN \<in> scopes p then ret False else bindS (liftE (enrollment_key p)) (\<lambda>k.
       consume_enrollment E k (strip (rq_local_registration_id rq)) fingerprint)) v = (Inr recovered, v1)"
    "catalog_machine fuel E user rq (if ADMIN \<in> scopes p then None else key_id p) recovered v1 = Some (Inr m, v2)"
    "(if ADMIN \<in> scopes p then ret () else bindS (liftE (enrollment_key p)) (\<lambda>k. bind_enrollment_use k (machine_id m))) v2 = (Inr (), v3)"
    "revoke_others E (machine_id m) (credential_key_id m) (machine_credentials (machine_id m) (v_creds v2)) v3 = (Inr (), v4)"
    "issue_machine E S (machine_id m) (machine_key m) None v4 = Some (Inr i, v5)"
    "hand_over E user m (machine_credentials (machine_id m) (v_creds v2)) i recovered' v5 = (Inr res, v')"
  have q1: "keeping_uses (if ADMIN \<in> scopes p then ret False else bindS (liftE (enrollment_key p)) (\<lambda>k.
       consume_enrollment E k (strip (rq_local_registration_id rq)) fingerprint))"
    by (intro uses_rules)
  have b: "bind_enrollment_use k (machine_id m) v2 = (Inr (), v3)"
    using r(3) assms(3,4) by (simp add: enrollment_key_def act_simps)
  have "distinct (map use_key_id (v_uses v2))"
    using keeping_usesD [OF q1 r(1)] catalog_machine_quiet [OF r(2)] assms(5) by (simp add: uses_keep_def)
  then have d: "distinct (map use_key_id (v_uses v3))"
    using keeping_usesD [OF keeping_bind b] by (simp add: uses_keep_def)
  have "uses_keep (v_uses v3) (v_uses v')"
    using keeping_usesD [OF keeping_uses_revoke_others r(4)] issue_machine_run [OF r(5) assms(2)]
      keeping_usesD [OF keeping_uses_hand_over r(6)] uses_keep_trans by metis
  then show ?thesis using bind_spends [OF b] d hand_over_run [OF r(6)] by (simp add: uses_keep_def)
qed

lemma spent_once:
  "distinct (map use_key_id us) \<Longrightarrow> spent_on k m us \<Longrightarrow> spent_on k m' us \<Longrightarrow> m = m'"
  unfolding spent_on_def distinct_map by (metis inj_onD option.inject)

section \<open>The one active credential of a machine\<close>

lemma distinct_dead:
  "distinct (map cred_key_id rows) \<Longrightarrow> r \<in> set rows \<Longrightarrow> revoked_at r \<noteq> None \<Longrightarrow> dead (cred_key_id r) rows"
  unfolding dead_def distinct_map by (auto dest: inj_onD)

lemma deadD: "dead kid rows \<Longrightarrow> r \<in> set rows \<Longrightarrow> cred_key_id r = kid \<Longrightarrow> revoked_at r \<noteq> None"
  by (simp add: dead_def)

lemma machine_credentials_set:
  "c \<in> set (machine_credentials mid rows) \<longleftrightarrow> (\<exists>r \<in> set rows. cred_machine_id r = Some mid \<and> c = credential_of r)"
  by (auto simp: machine_credentials_def)

lemma others_dead:
  assumes "revoke_others E mid keep (machine_credentials mid rows) v = (Inr u, v')"
    and "issued_ok S (T, rows)" "issued_ok S (T, v_creds v)" "key_steps S (T, rows) (T, v_creds v)"
    and "r \<in> set rows" "cred_machine_id r = Some mid" "Some (cred_key_id r) \<noteq> keep"
  shows "dead (cred_key_id r) (v_creds v')"
proof -
  have d: "distinct (map cred_key_id rows)" "distinct (map cred_key_id (v_creds v))" using assms(2,3) by (simp_all add: issued_ok_def)
  have "expires_at c = None \<and> (revoked_at c \<noteq> None \<longrightarrow> dead (cred_key_id c) (v_creds v))"
    if c: "c \<in> set (machine_credentials mid rows)" for c
  proof -
    obtain q where q: "q \<in> set rows" "cred_machine_id q = Some mid" "c = credential_of q"
      using c machine_credentials_set by blast
    have "expires_at q = None" using assms(2) q(1,2) by (simp add: issued_ok_def row_ok_def)
    moreover have "dead (cred_key_id q) (v_creds v)" if "revoked_at q \<noteq> None"
      using dead_steps [OF assms(4)] distinct_dead [OF d(1) q(1) that] by simp
    ultimately show ?thesis using q(3) by simp
  qed
  moreover have "credential_of r \<in> set (machine_credentials mid rows)" using assms(5,6) machine_credentials_set by blast
  ultimately have "dead (cred_key_id (credential_of r)) (v_creds v')"
    using assms(7) by (intro revoke_others_dead [OF assms(1) d(2)]) simp_all
  then show ?thesis by simp
qed

lemma revoke_others_db: "revoke_others E mid keep cs v = (r, v') \<Longrightarrow> w_db (v_world v') = w_db (v_world v)"
proof (induction cs arbitrary: v)
  case (Cons c cs)
  have step: "revoke_machine_key E (cred_key_id c) mid None v = (q, v1) \<Longrightarrow> w_db (v_world v1) = w_db (v_world v)" for q v v1
    by (auto simp: revoke_machine_key_def Let_def run_simps the_time_def on_world_def now_def on_creds_def split: if_splits)
  have act: "active E c v = (q, v1) \<Longrightarrow> w_db (v_world v1) = w_db (v_world v)" for q v v1
    by (auto simp: active_def run_simps the_time_def on_world_def now_def split: option.splits)
  from Cons.prems show ?case using Cons.IH
    by (auto simp: run_simps split: if_splits prod.splits sum.splits dest!: act step)
qed (simp add: run_simps)

lemma register_sole:
  assumes "register fuel E S user p rq v = Some (Inr res, v')" "secrets_ok S" "issued_ok S (T, v_creds v)"
    and "catalog_ok (w_db (v_world v))"
  shows "(\<exists>r \<in> set (v_creds v'). cred_key_id r = rr_key_id res \<and> revoked_at r = None \<and> expires_at r = None \<and>
      keyed S (rr_token res) r \<and> granted r = \<lparr>grant_principal_id = rr_key_id res, grant_key_id = rr_key_id res,
        grant_scopes = {SUBMIT, STATUS_WRITE}, grant_prefixes = [lit ''machines/'' @ machine_key (rr_machine res)],
        grant_machine_id = Some (machine_id (rr_machine res))\<rparr>) \<and>
    (\<forall>r \<in> set (v_creds v'). cred_machine_id r = Some (machine_id (rr_machine res)) \<longrightarrow> cred_key_id r \<noteq> rr_key_id res \<longrightarrow>
      revoked_at r \<noteq> None) \<and>
    machine_of user (machine_id (rr_machine res)) (w_db (v_world v')) = Inr (rr_machine res) \<and>
    credential_key_id (rr_machine res) = Some (rr_key_id res)"
  using assms(1)
proof (rule register_cases)
  fix recovered recovered' fingerprint v1 existing m v2 v3 v4 i v5
  assume r: "(if ADMIN \<in> scopes p then ret False else bindS (liftE (enrollment_key p)) (\<lambda>k.
       consume_enrollment E k (strip (rq_local_registration_id rq)) fingerprint)) v = (Inr recovered, v1)"
    "catalog_machine fuel E user rq (if ADMIN \<in> scopes p then None else key_id p) recovered v1 = Some (Inr m, v2)"
    "(if ADMIN \<in> scopes p then ret () else bindS (liftE (enrollment_key p)) (\<lambda>k. bind_enrollment_use k (machine_id m))) v2 = (Inr (), v3)"
    "revoke_others E (machine_id m) (credential_key_id m) (machine_credentials (machine_id m) (v_creds v2)) v3 = (Inr (), v4)"
    "issue_machine E S (machine_id m) (machine_key m) None v4 = Some (Inr i, v5)"
    "hand_over E user m (machine_credentials (machine_id m) (v_creds v2)) i recovered' v5 = (Inr res, v')"
  let ?mid = "machine_id m" and ?k = "cred_key_id (issued i)"
  have q1: "retiring S (if ADMIN \<in> scopes p then ret False else bindS (liftE (enrollment_key p)) (\<lambda>k.
     consume_enrollment E k (strip (rq_local_registration_id rq)) fingerprint))"
    and q2: "retiring S (if ADMIN \<in> scopes p then ret () else bindS (liftE (enrollment_key p)) (\<lambda>k. bind_enrollment_use k (machine_id m)))"
    by (intro retiring_rules)+
  have s2: "key_steps S (T, v_creds v) (T, v_creds v2)" using retiringD [OF q1 r(1)] catalog_machine_quiet [OF r(2)] by simp
  have s3: "key_steps S (T, v_creds v2) (T, v_creds v3)" by (rule retiringD [OF q2 r(3)])
  have s4: "key_steps S (T, v_creds v3) (T, v_creds v4)" by (rule retiringD [OF retiring_revoke_others r(4)])
  have ok2: "issued_ok S (T, v_creds v2)" by (rule key_steps_ok [OF s2 assms(3)])
  have ok3: "issued_ok S (T, v_creds v3)" by (rule key_steps_ok [OF s3 ok2])
  have ok4: "issued_ok S (T, v_creds v4)" by (rule key_steps_ok [OF s4 ok3])
  obtain s w where i: "prepared S i s w" "v_creds v5 = v_creds v4 @ [new_row i s w]" "?k \<notin> cred_key_id ` set (v_creds v4)"
      "expires_at (issued i) = None" "cred_machine_id (issued i) = Some ?mid" "cred_scopes (issued i) = {SUBMIT, STATUS_WRITE}"
      "cred_prefixes (issued i) = [lit ''machines/'' @ machine_key m]"
    using issue_machine_run [OF r(5) assms(2), unfolded sum.case] by (elim exE conjE) (rule that; assumption)
  have s5: "key_step S (T, v_creds v4) (insert (token i) T, v_creds v5)"
    unfolding i(2) using i(1,3,4) by (intro prepared_issue) auto
  have ok5: "issued_ok S (insert (token i) T, v_creds v5)" by (rule key_step_ok [OF s5 ok4])
  have s6: "key_steps S (insert (token i) T, v_creds v5) (insert (token i) T, v_creds v')"
    by (rule retiringD [OF retiring_hand_over r(6)])
  note ho = hand_over_run [OF r(6)]
  have own: "ownership (v_creds v') = ownership (v_creds v2) @ [(?k, Some ?mid)]"
    using retiring_ownership [OF retiring_hand_over r(6)] retiring_ownership [OF retiring_revoke_others r(4)]
      retiring_ownership [OF q2 r(3)] i(2,5) by (simp add: ownership_def)
  have own4: "ownership (v_creds v4) = ownership (v_creds v2)"
    using retiring_ownership [OF retiring_revoke_others r(4)] retiring_ownership [OF q2 r(3)] by simp
  have others: "revoked_at x \<noteq> None" if x: "x \<in> set (v_creds v')" "cred_machine_id x = Some ?mid" "cred_key_id x \<noteq> ?k" for x
  proof -
    have "(cred_key_id x, Some ?mid) \<in> set (ownership (v_creds v2))"
      using x own unfolding ownership_def by (metis (mono_tags, lifting) Un_iff empty_iff fst_conv image_eqI list.set(1) list.set(2) set_append set_map insertE)
    then obtain q where q: "q \<in> set (v_creds v2)" "cred_key_id q = cred_key_id x" "cred_machine_id q = Some ?mid"
      by (auto simp: ownership_def)
    have "dead (cred_key_id x) (v_creds v')"
    proof (cases "Some (cred_key_id q) = credential_key_id m")
      case True
      have "credential_of q \<in> set (machine_credentials ?mid (v_creds v2))" using q(1,3) machine_credentials_set by blast
      then show ?thesis using ho ok5 True q(2) by (simp add: issued_ok_def)
    next
      case False
      have "dead (cred_key_id q) (v_creds v4)" by (rule others_dead [OF r(4) ok2 ok3 s3 q(1,3) False])
      then show ?thesis using dead_step [OF s5] dead_steps [OF s6] q(2) by simp
    qed
    then show ?thesis using x(1) deadD by blast
  qed
  have "new_row i s w \<in> set (v_creds v')"
  proof -
    have "?k \<noteq> k" if c: "c \<in> set (machine_credentials ?mid (v_creds v2))" "cred_key_id c = k" for k c
    proof -
      obtain q where "q \<in> set (v_creds v2)" "cred_key_id q = k" using c machine_credentials_set by fastforce
      then obtain q' where "q' \<in> set (v_creds v4)" "cred_key_id q' = k" using ownershipD [OF own4] by metis
      then show ?thesis using i(3) by (metis image_eqI)
    qed
    then show ?thesis using ho i(2) by simp
  qed
  moreover have "keyed S (token i) (new_row i s w)" "revoked_at (new_row i s w) = None"
    using i(1) by (simp_all add: prepared_def keyed_def)
  moreover have mk: "machine_key (rr_machine res) = machine_key m"
  proof -
    have "w_db (v_world v1) = w_db (v_world v)"
      using r(1) consume_enrollment_run by (auto simp: run_simps enrollment_key_def split: if_splits option.splits)
    then have "catalog_ok (w_db (v_world v1))" using assms(4) by simp
    moreover obtain w2 where w2: "register_machine fuel E user (rq_local_registration_id rq) (rq_name rq) (rq_description rq)
        (rq_platform rq) (rq_ctxd_version rq) (if ADMIN \<in> scopes p then None else key_id p) recovered None (v_world v1) = Some (Inr m, w2)"
        "v2 = v1\<lparr>v_world := w2\<rparr>"
      using r(2) by (auto simp: catalog_machine_def)
    ultimately have "machine_of user ?mid (w_db (v_world v2)) = Inr m" using register_machine_of [OF w2(1)] w2(2) by simp
    moreover have "w_db (v_world v3) = w_db (v_world v2)"
      using r(3) by (auto simp: run_simps enrollment_key_def split: if_splits option.splits dest!: bind_enrollment_use_run)
    moreover have "w_db (v_world v4) = w_db (v_world v3)" by (rule revoke_others_db [OF r(4)])
    moreover have "w_db (v_world v5) = w_db (v_world v4)" using issue_machine_run [OF r(5) assms(2)] by simp
    ultimately have "machine_of user ?mid (w_db (v_world v5)) = Inr m" by simp
    then show ?thesis using ho by auto
  qed
  moreover have "granted (new_row i s w) = \<lparr>grant_principal_id = ?k, grant_key_id = ?k, grant_scopes = {SUBMIT, STATUS_WRITE},
      grant_prefixes = [lit ''machines/'' @ machine_key m], grant_machine_id = Some ?mid\<rparr>"
    using i(5-7) by (simp add: granted_def)
  ultimately have row: "\<exists>r \<in> set (v_creds v'). cred_key_id r = ?k \<and> revoked_at r = None \<and> expires_at r = None \<and> keyed S (token i) r \<and>
      granted r = \<lparr>grant_principal_id = ?k, grant_key_id = ?k, grant_scopes = {SUBMIT, STATUS_WRITE},
        grant_prefixes = [lit ''machines/'' @ machine_key (rr_machine res)], grant_machine_id = Some ?mid\<rparr>"
    using i(4) by (intro bexI [of _ "new_row i s w"]) simp_all
  have "rr_key_id res = ?k" "rr_token res = token i" "machine_id (rr_machine res) = ?mid"
    "machine_of user ?mid (w_db (v_world v')) = Inr (rr_machine res)" "credential_key_id (rr_machine res) = Some ?k"
    using ho by simp_all
  then show ?thesis using row others by simp
qed

section \<open>Confirming a rotation\<close>

lemma find_credential_Inr:
  "find_credential kid v = (Inr c, v') \<longleftrightarrow> get_credential kid (v_creds v) = Inr c \<and> v' = v"
  by (auto simp: find_credential_def run_simps split: sum.splits)

lemma active_unexpiring:
  "expires_at c = None \<Longrightarrow> active E c v = (Inr b, v') \<longleftrightarrow> b = (revoked_at c = None) \<and> v' = v"
  by (auto simp: active_def act_simps split: option.splits)

lemma active_ret: "expires_at c = None \<Longrightarrow> active E c = ret (revoked_at c = None)"
  by (auto simp: active_def split: option.splits)

lemma require_machine_credential_Inr:
  assumes "require_machine_credential E c m v = (Inr u, v')"
  shows "revoked_at c = None \<and> cred_machine_id c = Some (machine_id m) \<and> v_creds v' = v_creds v"
proof -
  obtain b where b: "active E c v = (Inr b, v')" "b" "cred_machine_id c = Some (machine_id m)"
    using assms unfolding require_machine_credential_def bindS_Inr_iff by (auto simp: act_simps split: if_splits)
  then show ?thesis by (auto simp: active_def the_time_def on_world_def now_def run_simps split: option.splits)
qed

lemma require_current_Inr:
  "require_current user p mid cleared d = Inr m \<Longrightarrow> machine_of user mid d = Inr m"
  by (auto simp: require_current_def Let_def split: sum.splits if_splits)

text \<open>A confirmed rotation: the catalogue is bound to the replacement and the predecessor is dead.\<close>

definition rotated_to :: "str \<Rightarrow> str \<Rightarrow> vault \<Rightarrow> bool" where
  "rotated_to old kid v \<longleftrightarrow> dead old (v_creds v) \<and>
     (old \<noteq> kid \<longrightarrow> (\<exists>r \<in> set (v_creds v). cred_key_id r = kid \<and> revoked_at r = None \<and> rotation_from r = Some old))"

lemma confirm_again_run:
  assumes "confirm_again E p mid m kid v = (Inr m', v')" "issued_ok S (T, v_creds v)"
  shows "m' = m \<and> w_db (v_world v') = w_db (v_world v) \<and> (\<exists>old. rotated_to old kid v')"
proof -
  obtain c v1 where c: "get_credential kid (v_creds v) = Inr c" "require_machine_credential E c m v = (Inr (), v1)"
    and rest: "(case rotation_from c of None \<Rightarrow> raise (ValueError ''invalid rotation confirmation retry'')
     | Some predecessor_key \<Rightarrow>
         if ADMIN \<notin> scopes p \<and> key_id p \<noteq> Some kid
         then raise (ValueError ''invalid rotation confirmation retry'') else
         bindS (find_credential predecessor_key) (\<lambda>predecessor.
         if cred_machine_id predecessor \<noteq> Some mid
         then raise (ValueError ''invalid rotation confirmation retry'') else
         bindS (active E predecessor) (\<lambda>first.
         if first \<and> replaced_by predecessor \<noteq> None
         then raise (ValueError ''invalid rotation confirmation retry'') else
         bindS (active E predecessor) (\<lambda>second.
         if \<not> second \<and> replaced_by predecessor \<noteq> Some kid
         then raise (ValueError ''invalid rotation confirmation retry'') else
         bindS (active E predecessor) (\<lambda>third.
         bindS (if third then bindS (revoke_machine_key E (cred_key_id predecessor) mid (Some kid)) (\<lambda>_. ret ())
                else ret ()) (\<lambda>_.
         ret m)))))) v1 = (Inr m', v')"
    using assms(1) unfolding confirm_again_def by (auto simp: bindS_Inr_iff find_credential_Inr)
  obtain r where r: "r \<in> set (v_creds v)" "cred_key_id r = kid" "c = credential_of r" using get_credential_Inr [OF c(1)] by blast
  have rm: "revoked_at r = None" "cred_machine_id r = Some (machine_id m)" using require_machine_credential_Inr [OF c(2)] r(3) by simp_all
  have rows: "\<And>q. q \<in> set (v_creds v) \<Longrightarrow> row_ok q" and d: "distinct (map cred_key_id (v_creds v))"
    using assms(2) by (simp_all add: issued_ok_def)
  have "expires_at c = None" using rows [OF r(1)] rm(2) r(3) by (simp add: row_ok_def)
  then have v1: "v1 = v" using c(2)
    by (auto simp: require_machine_credential_def bindS_Inr_iff active_unexpiring act_simps split: if_splits)
  obtain old where old: "rotation_from r = Some old" using rest r(3) by (auto simp: act_simps split: option.splits)
  have "\<exists>c2. get_credential old (v_creds v) = Inr c2 \<and> (if cred_machine_id c2 \<noteq> Some mid
         then raise (ValueError ''invalid rotation confirmation retry'') else
         bindS (active E c2) (\<lambda>first.
         if first \<and> replaced_by c2 \<noteq> None
         then raise (ValueError ''invalid rotation confirmation retry'') else
         bindS (active E c2) (\<lambda>second.
         if \<not> second \<and> replaced_by c2 \<noteq> Some kid
         then raise (ValueError ''invalid rotation confirmation retry'') else
         bindS (active E c2) (\<lambda>third.
         bindS (if third then bindS (revoke_machine_key E (cred_key_id c2) mid (Some kid)) (\<lambda>_. ret ()) else ret ()) (\<lambda>_.
         ret m))))) v = (Inr m', v')" (is "\<exists>c2. _ \<and> ?R c2")
  proof (cases "ADMIN \<notin> scopes p \<and> key_id p \<noteq> Some kid")
    case True
    then show ?thesis using rest unfolding r(3) credential_of_sel old option.case by (simp add: act_simps)
  next
    case False
    show ?thesis using rest unfolding r(3) credential_of_sel old option.case v1 if_not_P [OF False]
        bindS_Inr_iff [of "find_credential _"] find_credential_Inr by blast
  qed
  then obtain c2 where c2: "get_credential old (v_creds v) = Inr c2" and rest2: "?R c2" by (elim exE conjE) (rule that)
  obtain q where q: "q \<in> set (v_creds v)" "cred_key_id q = old" "c2 = credential_of q" using get_credential_Inr [OF c2] by blast
  have qm: "cred_machine_id q = Some mid" using rest2 q(3) by (simp add: act_simps split: if_splits)
  have qe: "expires_at c2 = None" using rows [OF q(1)] qm q(3) by (simp add: row_ok_def)
  have run: "bindS (if revoked_at q = None then bindS (revoke_machine_key E old mid (Some kid)) (\<lambda>_. ret ()) else ret ()) (\<lambda>_. ret m) v = (Inr m', v')"
    using rest2 qm q(2) unfolding active_ret [OF qe] unfolding q(3) by (auto simp: act_simps split: if_splits)
  show ?thesis
  proof (cases "revoked_at q = None")
    case True
    then obtain x where x: "revoke_machine_key E old mid (Some kid) v = (Inr x, v')" "m' = m"
      using run by (auto simp: bindS_Inr_iff act_simps)
    have "r \<in> set (v_creds v')" if "old \<noteq> kid"
      using revoke_machine_key_run [OF x(1)] r(1,2) that by (auto simp: set_update_where)
    then have "rotated_to old kid v'" using revoke_machine_key_dead [OF x(1) d] r(2) rm(1) old by (auto simp: rotated_to_def)
    then show ?thesis using revoke_machine_key_run [OF x(1)] x(2) by auto
  next
    case False
    then have "v' = v" "m' = m" using run by (auto simp: act_simps)
    moreover have "dead old (v_creds v)" using distinct_dead [OF d q(1)] False q(2) by simp
    ultimately show ?thesis using r(1,2) rm(1) old by (auto simp: rotated_to_def)
  qed
qed

lemma confirm_rotation_run:
  assumes "confirm_rotation E user p mid kid v = (Inr m, v')" "issued_ok S (T, v_creds v)"
  shows "machine_of user mid (w_db (v_world v')) = Inr m \<and> credential_key_id m = Some kid \<and>
    (\<exists>m0 old. machine_of user mid (w_db (v_world v)) = Inr m0 \<and> credential_key_id m0 \<in> {Some kid, Some old} \<and> rotated_to old kid v')"
proof -
  obtain m0 where m0: "require_current user p mid False (w_db (v_world v)) = Inr m0"
    and rest: "(if credential_key_id m0 = Some kid then confirm_again E p mid m0 kid else
       bindS (find_credential kid) (\<lambda>replacement.
       bindS (require_machine_credential E replacement m0) (\<lambda>_.
       case credential_key_id m0 of
         None \<Rightarrow> raise (AssertionError '''')
       | Some old_key \<Rightarrow>
           if rotation_from replacement \<noteq> Some old_key
           then raise (ValueError ''replacement credential was not prepared for current key'') else
           bindS (on_world (bind_machine_credential user mid (Some old_key) kid)) (\<lambda>m'.
           bindS (revoke_machine_key E old_key mid (Some kid)) (\<lambda>_.
           ret m'))))) v = (Inr m, v')"
    using assms(1) unfolding confirm_rotation_def cred_transaction_Inr bindS_Inr_iff read_catalog_Inr by blast
  show ?thesis
  proof (cases "credential_key_id m0 = Some kid")
    case True
    have "confirm_again E p mid m0 kid v = (Inr m, v')" using rest unfolding if_P [OF True] .
    from confirm_again_run [OF this assms(2)] show ?thesis using True require_current_Inr [OF m0] by auto
  next
    case False
    from rest obtain c u v1 where c: "get_credential kid (v_creds v) = Inr c" "require_machine_credential E c m0 v = (Inr u, v1)"
      and rest: "(case credential_key_id m0 of
         None \<Rightarrow> raise (AssertionError '''')
       | Some old_key \<Rightarrow>
           if rotation_from c \<noteq> Some old_key
           then raise (ValueError ''replacement credential was not prepared for current key'') else
           bindS (on_world (bind_machine_credential user mid (Some old_key) kid)) (\<lambda>m'.
           bindS (revoke_machine_key E old_key mid (Some kid)) (\<lambda>_.
           ret m'))) v1 = (Inr m, v')"
      unfolding if_not_P [OF False] bindS_Inr_iff [of "find_credential _"] bindS_Inr_iff [of "require_machine_credential _ _ _"]
        find_credential_Inr by (elim exE conjE) (hypsubst, rule that; assumption)
    then obtain old where old: "credential_key_id m0 = Some old" "rotation_from c = Some old"
      by (auto simp: act_simps split: option.splits if_splits)
    then have "\<exists>n w'. bind_machine_credential user mid (Some old) kid (v_world v1) = (Inr n, w') \<and>
        bindS (revoke_machine_key E old mid (Some kid)) (\<lambda>_. ret n) (v1\<lparr>v_world := w'\<rparr>) = (Inr m, v')"
      using rest by (auto simp: bindS_Inr_iff [of "on_world _"] on_world_Inr)
    then obtain w' where w': "bind_machine_credential user mid (Some old) kid (v_world v1) = (Inr m, w')"
        "bindS (revoke_machine_key E old mid (Some kid)) (\<lambda>_. ret m) (v1\<lparr>v_world := w'\<rparr>) = (Inr m, v')"
      by (auto simp: bindS_Inr_iff act_simps)
    note run = c old w'
    from w'(2) obtain x where x: "revoke_machine_key E old mid (Some kid) (v1\<lparr>v_world := w'\<rparr>) = (Inr x, v')"
      by (auto simp: bindS_Inr_iff act_simps)
    have v1: "v_creds v1 = v_creds v" using require_machine_credential_Inr [OF run(2)] by simp
    obtain r where r: "r \<in> set (v_creds v)" "cred_key_id r = kid" "c = credential_of r" using get_credential_Inr [OF run(1)] by blast
    have ne: "old \<noteq> kid" using False run(3) by simp
    have "r \<in> set (v_creds v')" using revoke_machine_key_run [OF x] r(1,2) ne v1 by (auto simp: set_update_where)
    moreover have "dead old (v_creds v')" by (rule revoke_machine_key_dead [OF x]) (use assms(2) v1 in \<open>simp add: issued_ok_def\<close>)
    ultimately have "rotated_to old kid v'"
      using r(2,3) run(4) require_machine_credential_Inr [OF run(2)] by (auto simp: rotated_to_def)
    moreover have "w_db (v_world v') = w_db w'" using revoke_machine_key_run [OF x] by auto
    ultimately show ?thesis using bind_machine_credential_run [OF run(5)] require_current_Inr [OF m0] run(3) by auto
  qed
qed

section \<open>Keys that stay dead\<close>

lemma same_key: "distinct (map cred_key_id rows) \<Longrightarrow> q \<in> set rows \<Longrightarrow> r \<in> set rows \<Longrightarrow> cred_key_id q = cred_key_id r \<Longrightarrow> q = r"
  by (auto simp: distinct_map dest: inj_onD)

lemma update_dead:
  assumes "\<And>r. c r \<Longrightarrow> retires r (f r)" "kid \<in> cred_key_id ` set rows"
    and "\<And>r. r \<in> set rows \<Longrightarrow> cred_key_id r = kid \<Longrightarrow> c r \<or> revoked_at r \<noteq> None"
  shows "dead kid (update_where c f rows)"
proof -
  have "cred_key_id ` set (update_where c f rows) = cred_key_id ` set rows"
    using retire_map [of c f rows, OF assms(1)] by (metis set_map)
  moreover have "revoked_at (if c r then f r else r) \<noteq> None"
    if "r \<in> set rows" "cred_key_id (if c r then f r else r) = kid" for r
  proof (cases "c r")
    case True
    then show ?thesis using retires_same(9) [OF assms(1) [OF True]] by simp
  next
    case False
    then show ?thesis using that assms(3) by auto
  qed
  ultimately show ?thesis using assms(2) unfolding dead_def set_update_where by blast
qed

lemma revoke_credential_dead:
  assumes "revoke_credential E kid v = (Inr c, v')"
  shows "dead kid (v_creds v')"
proof -
  let ?t = "e_time E (w_clock (v_world v))"
  have v': "v_creds v' = update_where (\<lambda>r. cred_key_id r = kid) (\<lambda>r. r\<lparr>revoked_at := coalesce (revoked_at r) (Some ?t)\<rparr>) (v_creds v)"
    and n: "count_where (\<lambda>r. cred_key_id r = kid) (v_creds v) = 1"
    using assms
    by (auto simp: revoke_credential_def Let_def run_simps the_time_def on_world_def now_def on_creds_def cred_transaction_def
      undone_def split: if_splits sum.splits)
  from n have "filter (\<lambda>r. cred_key_id r = kid) (v_creds v) \<noteq> []" by (auto simp: count_where_def)
  then have "kid \<in> cred_key_id ` set (v_creds v)" by (auto simp: filter_empty_conv)
  then show ?thesis unfolding v' by (intro update_dead retires_coalesce) simp_all
qed

lemma history_verify:
  assumes "fresh_vault v0" "vault_steps E S ({}, v0) (T, v)" "secrets_ok S" "\<And>s. inj (\<lambda>data. s_scrypt S data s)"
  shows "verify E S t (Some tm) v = (Inr (Some g), v') \<longleftrightarrow> v' = v \<and> t \<in> T \<and>
    (\<exists>r \<in> set (v_creds v). parse_token t = Some (cred_key_id r) \<and> usable_at tm r \<and> g = granted r)" (is "?L \<longleftrightarrow> ?R")
proof -
  have ok: "issued_ok S (T, v_creds v)" by (rule history_keys_ok [OF assms(1-3)])
  then have d: "distinct (map cred_key_id (v_creds v))" by (simp add: issued_ok_def)
  show ?thesis
  proof
    assume ?L
    then obtain r where r: "r \<in> set (v_creds v)" "keyed S t r" "usable_at tm r" "g = granted r" "v' = v"
      using verify_Some [OF d] by blast
    obtain u where u: "u \<in> T" "keyed S u r" using ok r(1) by (auto simp: issued_ok_def)
    have "t = u" by (rule keyed_unique [OF assms(4) r(2) u(2)])
    then show ?R using r u(1) by (auto simp: keyed_def)
  next
    assume ?R
    then obtain r where r: "v' = v" "t \<in> T" "r \<in> set (v_creds v)" "parse_token t = Some (cred_key_id r)" "usable_at tm r" "g = granted r"
      by blast
    obtain q where q: "q \<in> set (v_creds v)" "keyed S t q" using ok r(2) by (auto simp: issued_ok_def)
    have "q = r" using q r(3,4) d by (auto simp: keyed_def distinct_map dest: inj_onD)
    moreover have "grant_ok (granted r)" using ok r(3) by (auto simp: issued_ok_def row_ok_def)
    ultimately show ?L using r q verify_Some [OF d] by blast
  qed
qed

lemma rotate_dead:
  assumes "rotate_credential E S kid v = Some (Inr i, v')" "secrets_ok S"
  shows "dead kid (v_creds v')"
proof -
  obtain s w t old where r: "old \<in> set (v_creds v)" "cred_key_id old = kid"
      "v_creds v' = update_where (\<lambda>r. cred_key_id r = kid \<and> revoked_at r = None)
          (\<lambda>r. r\<lparr>revoked_at := Some t, replaced_by := Some (cred_key_id (issued i))\<rparr>) (v_creds v @ [new_row i s w])"
    using rotate_run [OF assms, unfolded sum.case] by (elim exE conjE) (rule that; assumption)
  have "kid \<in> cred_key_id ` set (v_creds v @ [new_row i s w])" using r(1,2) by auto
  then show ?thesis unfolding r(3) by (intro update_dead) (simp_all only: retires_now, blast)
qed

end
