(* ===== verification/Serving.thy ===== *)
theory Serving
  imports Server Lifecycle Writers
begin

text \<open>What the server of \<open>Server\<close> lets through.\<close>

section \<open>Authentication\<close>

lemma verify_now:
  assumes "verify E S t None v = (r, v')"
  shows "verify E S t (Some (e_time E (w_clock (v_world v)))) v = (r, v) \<and>
    v' \<in> {v, v\<lparr>v_world := (v_world v)\<lparr>w_clock := Suc (w_clock (v_world v))\<rparr>\<rparr>}"
  using assms
  by (auto simp: verify_def run_simps the_time_def on_world_def now_def split: option.splits if_splits sum.splits)

lemma verify_total:
  assumes "issued_ok S (T, v_creds v)" "verify E S t (Some tm) v = (r, v')"
  shows "\<exists>g. r = Inr g"
proof (cases "parse_token t")
  case None
  then show ?thesis using assms(2) by (auto simp: verify_def act_simps)
next
  case (Some kid)
  obtain data where d: "utf8_encode t = Inr data" using parse_token_encodes [OF Some] by blast
  show ?thesis
  proof (cases "row_by_key_id kid (v_creds v)")
    case None
    then show ?thesis using assms(2) Some by (auto simp: verify_def run_simps)
  next
    case row: (Some q)
    then have "grant_ok (granted q)" using assms(1) row_by_key_idD(1) [OF row] by (auto simp: issued_ok_def row_ok_def)
    then have "make_grant (granted q) = Inr (granted q)" by (simp add: make_grant_Inr)
    then show ?thesis using assms(2) Some row d
      by (auto simp: verify_def run_simps derive_def credential_grant_of_row split: if_splits)
  qed
qed

definition untouched :: "vault \<Rightarrow> vault \<Rightarrow> bool" where
  "untouched v v' \<longleftrightarrow> v_creds v' = v_creds v \<and> v_uses v' = v_uses v \<and> w_db (v_world v') = w_db (v_world v) \<and>
     w_fs (v_world v') = w_fs (v_world v)"

lemma authenticate_run:
  assumes "issued_ok S (T, v_creds v)" "authenticate E S BEARER header v = (r, v')"
  shows "untouched v v' \<and> (r = Inr None \<or>
    (\<exists>t g. bearer_token header = Some t \<and> verify E S t (Some (e_time E (w_clock (v_world v)))) v = (Inr (Some g), v) \<and>
      r = bindE (grant_principal g) (\<lambda>p. Inr (Some p))))"
proof (cases "bearer_token header")
  case None
  then show ?thesis using assms(2) by (auto simp: authenticate_def act_simps untouched_def)
next
  case (Some t)
  obtain q v1 where q: "verify E S t None v = (q, v1)" by force
  note n = verify_now [OF q]
  obtain g where g: "q = Inr g" using verify_total [OF assms(1) conjunct1 [OF n]] by blast
  have u: "untouched v v1" using n by (auto simp: untouched_def)
  have "(r, v') = (case g of None \<Rightarrow> (Inr None, v1) | Some g \<Rightarrow> (bindE (grant_principal g) (\<lambda>p. Inr (Some p)), v1))"
    using assms(2) Some q g by (auto simp: authenticate_def bindS_def act_simps split: option.splits)
  then show ?thesis using u n Some g by (auto split: option.splits)
qed

text \<open>A grant in use makes a principal with what the grant says.\<close>

definition principal_of :: "credential_row \<Rightarrow> principal" where
  "principal_of r = \<lparr>principal_id = cred_key_id r, principal_kind = API_KEY, scopes = cred_scopes r,
     key_id = Some (cred_key_id r), prefixes = cred_prefixes r, principal_machine_id = cred_machine_id r\<rparr>"

lemma verified_principal:
  assumes "verify E S t at_time v = (Inr (Some g), v')" "grant_principal g = Inr p"
  shows "\<exists>r \<in> set (v_creds v). parse_token t = Some (cred_key_id r) \<and> p = principal_of r"
proof -
  obtain kid r where r: "parse_token t = Some kid" "row_by_key_id kid (v_creds v) = Some r" "credential_grant_of (credential_of r) = Inr g"
    using assms(1) by (auto simp: verify_def run_simps the_time_def on_world_def now_def split: option.splits if_splits sum.splits)
  have "g = granted r" using r(3) by (simp add: credential_grant_of_row make_grant_Inr)
  then have "p = principal_of r"
    using assms(2) by (auto simp: grant_principal_def make_principal_Inr granted_def principal_of_def)
  then show ?thesis using r(1) row_by_key_idD(1) [OF r(2)] by auto
qed

section \<open>Calls that leave prefixes and entries alone\<close>

definition tables :: "world \<Rightarrow> prefix_row list \<times> entry_row list" where
  "tables w = (prefix_rows (w_db w), entry_rows (w_db w))"

definition quietR :: "(vault, 'a) run \<Rightarrow> bool" where
  "quietR m \<longleftrightarrow> (\<forall>v r v'. m v = Some (r, v') \<longrightarrow> tables (v_world v') = tables (v_world v))"

abbreviation quiet :: "(vault, 'a) act \<Rightarrow> bool" where
  "quiet m \<equiv> quietR (returns m)"

named_theorems quiet_rules \<open>code that leaves prefixes and entries alone\<close>

lemma quietI: "(\<And>v r v'. m v = (r, v') \<Longrightarrow> tables (v_world v') = tables (v_world v)) \<Longrightarrow> quiet m"
  by (auto simp: quietR_def returns_def)

lemma quietRD: "quietR m \<Longrightarrow> m v = Some (r, v') \<Longrightarrow> tables (v_world v') = tables (v_world v)"
  by (auto simp: quietR_def)

lemma quietD: "quiet m \<Longrightarrow> m v = (r, v') \<Longrightarrow> tables (v_world v') = tables (v_world v)"
  by (auto simp: quietR_def returns_def)

lemma quietR_bindR [quiet_rules]:
  assumes "quietR m" "\<And>x. quietR (f x)"
  shows "quietR (bindR m f)"
  unfolding quietR_def
proof (intro allI impI)
  fix v r v' assume b: "bindR m f v = Some (r, v')"
  then obtain q v1 where q: "m v = Some (q, v1)" by (auto simp: bindR_def split: option.splits)
  show "tables (v_world v') = tables (v_world v)"
  proof (cases q)
    case (Inl e)
    then show ?thesis using b q quietRD [OF assms(1) q] by (simp add: bindR_def)
  next
    case (Inr x)
    then have "f x v1 = Some (r, v')" using b q by (simp add: bindR_def)
    from quietRD [OF assms(2) this] quietRD [OF assms(1) q] show ?thesis by simp
  qed
qed

lemma quiet_bindS [quiet_rules]:
  assumes "quiet m" "\<And>x. quiet (f x)"
  shows "quiet (bindS m f)"
proof -
  have "returns (bindS m f) = bindR (returns m) (\<lambda>x. returns (f x))"
    by (rule ext) (simp add: returns_def bindR_def bindS_def split: prod.splits sum.splits)
  then show ?thesis using quietR_bindR [OF assms] by simp
qed

lemma quiet_basic [quiet_rules]:
  "quiet (ret x)" "quiet (raise e)" "quiet (liftE q)" "quiet (gets g)" "quiet (the_time E)" "quiet (on_creds f)"
  "quiet (fresh_salt S)" "quiet (urlsafe S n)" "quiet (on_world (readE h))"
  by (auto intro!: quietI simp: run_simps the_time_def on_world_def now_def on_creds_def fresh_salt_def urlsafe_def readE_def tables_def)

lemma quiet_cases [quiet_rules]:
  "(c \<Longrightarrow> quietR m) \<Longrightarrow> (\<not> c \<Longrightarrow> quietR n) \<Longrightarrow> quietR (if c then m else n)"
  "(c \<Longrightarrow> quiet a) \<Longrightarrow> (\<not> c \<Longrightarrow> quiet b) \<Longrightarrow> quiet (if c then a else b)"
  "quiet a \<Longrightarrow> (\<And>x. quiet (f x)) \<Longrightarrow> quiet (case y of None \<Rightarrow> a | Some x \<Rightarrow> f x)"
  "quietR m \<Longrightarrow> (\<And>x. quietR (g x)) \<Longrightarrow> quietR (case y of None \<Rightarrow> m | Some x \<Rightarrow> g x)"
  by (auto split: option.splits)

lemma quiet_handlers [quiet_rules]:
  "quiet m \<Longrightarrow> quiet (reraise f m)" "quietR q \<Longrightarrow> quietR (reraiseR f q)" "quiet m \<Longrightarrow> quiet (cred_transaction m)"
  by (auto simp: quietR_def returns_def reraise_def reraiseR_def cred_transaction_def undone_def
    split: prod.splits sum.splits)

lemma quiet_immediate [quiet_rules]:
  assumes "quietR q"
  shows "quietR (immediate_transaction q)"
  unfolding quietR_def
proof (intro allI impI)
  fix v r v' assume "immediate_transaction q v = Some (r, v')"
  then obtain v1 where v1: "q v = Some (r, v1)" "v' = (case r of Inl _ \<Rightarrow> undone v v1 | Inr _ \<Rightarrow> v1)"
    by (auto simp: immediate_transaction_def)
  then show "tables (v_world v') = tables (v_world v)" using quietRD [OF assms v1(1)] by (cases r) (simp_all add: undone_def)
qed

lemma quiet_catchS [quiet_rules]:
  assumes "quiet m" "\<And>e. quiet (h e)"
  shows "quiet (catchS m h)"
proof (rule quietI)
  fix v r v' assume c: "catchS m h v = (r, v')"
  obtain q v1 where q: "m v = (q, v1)" by force
  show "tables (v_world v') = tables (v_world v)"
    using c q quietD [OF assms(1) q] quietD [OF assms(2)] by (cases q) (auto simp: catchS_def)
qed

lemma set_machine_tables: "prefix_rows (set_machine user mid f d) = prefix_rows d" "entry_rows (set_machine user mid f d) = entry_rows d"
  by (simp_all add: set_machine_def)

lemma quiet_catalog [quiet_rules]:
  "quiet (on_world (bind_machine_credential user mid old new))" "quiet (on_world (clear_machine_credential user mid bound))"
  by (auto intro!: quietI simp: on_world_def bind_machine_credential_def clear_machine_credential_def run_simps transaction_def readE_def
    on_dbE_def on_db_def tables_def bind_credential_def set_machine_tables split: prod.splits sum.splits if_splits)

lemma replay_registration_tables:
  "replay_registration user enrollment recovered requested existing w = (r, w') \<Longrightarrow> tables w' = tables w"
  by (auto simp: replay_registration_def Let_def run_simps on_db_def readE_def tables_def set_machine_tables
    split: if_splits sum.splits option.splits)

lemma insert_machine_loop_tables:
  assumes "insert_machine_loop fuel E n replay base k w = Some (r, w')"
    and "\<And>existing w r w'. replay existing w = (r, w') \<Longrightarrow> tables w' = tables w"
  shows "tables w' = tables w"
  using assms(1)
proof (induction fuel arbitrary: k w)
  case (Suc fuel)
  let ?row = "n\<lparr>mr_id := e_uuid E (w_uuids w), mr_key := suffixed_key base k\<rparr>" and ?w1 = "w\<lparr>w_uuids := Suc (w_uuids w)\<rparr>"
  have w1: "tables ?w1 = tables w" by (simp add: tables_def)
  show ?case
  proof (cases "insert_machine ?row (w_db w)")
    case (Inr d)
    then have "tables w' = (prefix_rows d, entry_rows d)" using Suc.prems by (auto simp: Let_def readE_def tables_def)
    then show ?thesis using Inr by (auto simp: insert_machine_def tables_def split: if_splits)
  next
    case (Inl e)
    then show ?thesis using Suc.prems Suc.IH [of "k + 1" ?w1] assms(2) [of _ ?w1] w1
      by (auto simp: Let_def split: option.splits)
  qed
qed simp

lemma in_transaction_tables:
  assumes "in_transaction x w = Some (r, w')" "tables w = z" "\<And>y v. x = Some (Inr y, v) \<Longrightarrow> tables v = z"
  shows "tables w' = z"
proof (cases r)
  case (Inl e)
  then show ?thesis using assms(1,2) by (auto simp: in_transaction_def tables_def)
next
  case (Inr y)
  then have "x = Some (Inr y, w')" using assms(1) by (auto simp: in_transaction_def)
  then show ?thesis using assms(3) by blast
qed

lemma register_machine_tables:
  assumes "register_machine fuel E user reg name description platform version enrollment recovered at_time w = Some (r, w')"
    and "tables w = z"
  shows "tables w' = z"
proof -
  note rep = replay_registration_tables and loop = insert_machine_loop_tables [OF _ replay_registration_tables]
  have clock: "tables (w\<lparr>w_clock := n\<rparr>) = tables w" for n by (simp add: tables_def)
  show ?thesis
    using assms
    by (auto simp: register_machine_def Let_def clock elim!: in_transaction_tables
        split: sum.splits if_splits option.splits) ((drule rep | drule loop, assumption?); simp add: clock)+
qed

lemma quietR_draw [quiet_rules]: "quietR (draw_key_id S)"
  using draw_key_id_result by (fastforce simp: quietR_def)

lemma quiet_insert [quiet_rules]: "quiet (insert_credential c s w)"
  by (auto intro!: quietI simp: insert_credential_def split: if_splits)

lemma quietR_Let [quiet_rules]: "quietR (f x) \<Longrightarrow> quietR (Let x f)"
  by (simp add: Let_def)

lemma quietR_prepare [quiet_rules]: "quietR (prepare E S name scps pfxs expires machine rotated)"
  unfolding prepare_def Let_def by (intro quiet_rules)

lemma quietR_issue [quiet_rules]: "quietR (issue_machine E S mid mkey rotated)"
proof -
  have "quietR ((\<lambda>(i, s, w). returns (bindS (insert_credential (issued i) s w) (\<lambda>_. ret i))) x)" for x
    by (cases x) (simp, intro quiet_rules)
  then show ?thesis unfolding issue_machine_def by (intro quietR_bindR quiet_rules)
qed

lemma quiet_credentials [quiet_rules]:
  "quiet (revoke_machine_key E kid mid successor)" "quiet (creds_of mid)" "quiet (find_credential kid)"
  "quiet (read_catalog h)" "quiet (active E c)" "quiet (require_machine_credential E c m)"
  unfolding revoke_machine_key_def Let_def creds_of_def find_credential_def read_catalog_def active_def require_machine_credential_def
  by (intro quiet_rules)+

lemma quiet_enrollment [quiet_rules]:
  "quiet (consume_enrollment E kid reg fingerprint)" "quiet (bind_enrollment_use kid mid)"
  by (auto intro!: quietI simp: consume_enrollment_def bind_enrollment_use_def Let_def run_simps the_time_def on_world_def now_def
    tables_def split: option.splits if_splits)

lemma quiet_revoke_others [quiet_rules]: "quiet (revoke_others E mid keep cs)"
proof (induction cs)
  case (Cons c cs)
  show ?case unfolding revoke_others.simps by (intro quiet_rules Cons.IH)
qed (simp add: quiet_rules)

lemma quiet_hand_over [quiet_rules]: "quiet (hand_over E user m creds i recovered)"
  unfolding hand_over_def by (intro quiet_rules)

lemma quietR_catalog_machine [quiet_rules]: "quietR (catalog_machine fuel E user rq enrollment recovered)"
  by (auto simp: quietR_def catalog_machine_def dest: register_machine_tables)

lemma quietR_register [quiet_rules]: "quietR (register fuel E S user p rq)"
  unfolding register_def Let_def by (intro quiet_rules)

lemma quietR_prepare_rotation [quiet_rules]: "quietR (prepare_rotation E S user p mid)"
  unfolding prepare_rotation_def by (intro quiet_rules)

lemma quiet_lifecycle [quiet_rules]:
  "quiet (confirm_rotation E user p mid key)" "quiet (revoke_machine E user p mid)"
  unfolding confirm_rotation_def confirm_again_def revoke_machine_def by (intro quiet_rules)+

lemma quiet_verify [quiet_rules]: "quiet (verify E S tok at_time)"
  unfolding verify_def by (intro quiet_rules)

lemma quiet_authenticate [quiet_rules]: "quiet (authenticate E S mode header)"
  unfolding authenticate_def by (cases mode) (simp_all, (intro quiet_rules)+)

section \<open>Calls that only read\<close>

lemma quiet_reading [quiet_rules]: "quiet (valued f q)" "quiet (stat_or_404 E path)"
  unfolding valued_def stat_or_404_def reading_def by (intro quiet_rules)+

lemma quiet_tool [quiet_rules]: "quiet (execute_tool E G t)"
  unfolding execute_tool_def reading_def by (cases t) (simp_all, (intro quiet_rules)+)

lemma quiet_message [quiet_rules]:
  assumes "\<And>t. quiet (execute t)"
  shows "quiet (handle_message execute m)"
  unfolding handle_message_def
  by (cases "mcp_id m"; cases "mcp_method m") (simp_all, (intro quiet_rules assms)+)

lemma quiet_read_endpoint [quiet_rules]: "(\<And>y. quiet (m y)) \<Longrightarrow> quiet (read_endpoint p rq good x m)"
  unfolding read_endpoint_def answering_def by (intro quiet_rules)

lemma quiet_endpoints [quiet_rules]:
  "quietR (register_endpoint fuel E S p rq)" "quietR (prepare_endpoint E S p mid)"
  "quiet (confirm_endpoint E p mid key)" "quiet (revoke_endpoint E p mid)"
  unfolding register_endpoint_def prepare_endpoint_def confirm_endpoint_def revoke_endpoint_def by (intro quiet_rules)+

lemma quiet_search_endpoints [quiet_rules]: "quiet (mcp_endpoint E G p m)" "quiet (grep_endpoint E G g)"
  unfolding mcp_endpoint_def grep_endpoint_def reading_def by (intro quiet_rules)+

text \<open>Every call but a submission.\<close>

lemma quiet_endpoint:
  assumes "\<And>b. h_call rq \<noteq> Submit b"
  shows "quietR (endpoint fuel E S G p rq)"
proof (cases "h_call rq")
  case (Ls x)
  have "quiet ((\<lambda>(path, limit). execute_tool E G (Tool_Ls path limit)) y)" for y
    by (cases y) (simp, intro quiet_rules)
  then show ?thesis using Ls unfolding endpoint_def by (simp, intro quiet_rules) blast
next
  case (Tree x)
  have "quiet ((\<lambda>(pfx, depth, limit). execute_tool E G (Tool_Tree pfx depth limit)) y)" for y
    by (cases y) (simp, intro quiet_rules)
  then show ?thesis using Tree unfolding endpoint_def by (simp, intro quiet_rules) blast
next
  case (Glob x)
  have "quiet ((\<lambda>(pattern, pfx, limit). execute_tool E G (Tool_Glob pattern pfx limit)) y)" for y
    by (cases y) (simp, intro quiet_rules)
  then show ?thesis using Glob unfolding endpoint_def by (simp, intro quiet_rules) blast
next
  case (Read x)
  have "quiet ((\<lambda>(path, n). execute_tool E G (Tool_Read path n)) y)" for y
    by (cases y) (simp, intro quiet_rules)
  then show ?thesis using Read unfolding endpoint_def by (simp, intro quiet_rules) blast
next
  case (Read_Lines x)
  have "quiet ((\<lambda>(path, a, b). execute_tool E G (Tool_Read_Lines path a b)) y)" for y
    by (cases y) (simp, intro quiet_rules)
  then show ?thesis using Read_Lines unfolding endpoint_def by (simp, intro quiet_rules) blast
next
  case (Submit b)
  then show ?thesis using assms by blast
qed (simp_all add: endpoint_def, (intro quiet_rules)+)

end
