(* ===== verification/Gateway.thy ===== *)
theory Gateway
  imports Serving
begin

text \<open>
  What a caller of the HTTP service can and cannot do, over a whole request as \<open>respond\<close> of
  \<open>Server\<close> answers it: the prefixes the server registers for its callers (\<open>server_prefixes\<close>),
  the rows a submission can change (\<open>confined\<close>), who is served at all (\<open>accepted\<close>, \<open>current\<close>),
  and what becomes of the prefixes of a key once that key is replaced.
\<close>

section \<open>Submissions\<close>

definition writer_base :: "principal \<Rightarrow> str" where
  "writer_base p = (case key_id p of Some k \<Rightarrow> if k = [] then principal_id p else k | None \<Rightarrow> principal_id p)"

lemma server_writer_base: "server_writer p gp = writer_base p @ 58 # gp"
  by (simp add: server_writer_def writer_base_def)

text \<open>The prefixes of the server's user are registered by the server: the writer names its one prefix.\<close>

definition server_prefixes :: "db \<Rightarrow> bool" where
  "server_prefixes d \<longleftrightarrow> writers_apart d \<and>
     (\<forall>q \<in> set (prefix_rows d). pr_user q = LOCAL_CTXFS_USER_ID \<longrightarrow> (\<exists>k. 58 \<notin> set k \<and> pr_writer q = k @ 58 # pr_prefix q))"

lemma colon_split: "58 \<notin> set k \<Longrightarrow> 58 \<notin> set k' \<Longrightarrow> k @ (58 :: int) # p = k' @ 58 # p' \<Longrightarrow> k = k' \<and> p = p'"
proof (induction k arbitrary: k')
  case Nil
  then show ?case by (cases k') auto
next
  case (Cons a k)
  then show ?case by (cases k') auto
qed

lemma submit_operations_cases:
  assumes "submit_operations E p b v = (r, v')"
  obtains (nothing) e where "v_world v' = v_world v" "r = Inl e"
  | (refused) gp e w1 where "submission_prefix p (sr_writer_prefix b) = Inr gp"
      "register_prefix E LOCAL_CTXFS_USER_ID (server_writer p gp) gp (v_world v) = (Inl e, w1)"
      "v_world v' = w1" "r = Inl (submission_error_of e)"
  | (unparsed) gp e w1 where "submission_prefix p (sr_writer_prefix b) = Inr gp"
      "register_prefix E LOCAL_CTXFS_USER_ID (server_writer p gp) gp (v_world v) = (Inr (), w1)"
      "v_world v' = w1" "r = Inl e"
  | (submitted) gp w1 ops s where "submission_prefix p (sr_writer_prefix b) = Inr gp"
      "register_prefix E LOCAL_CTXFS_USER_ID (server_writer p gp) gp (v_world v) = (Inr (), w1)"
      "submit E LOCAL_CTXFS_USER_ID (server_writer p gp) ops w1 = (s, v_world v')"
proof -
  obtain q v1 where q: "bindS (liftE (authorize (Some p) SUBMIT (Some (sr_writer_prefix b)))) (\<lambda>d.
       if \<not> allowed d then raise (denial d) else
       bindS (liftE (submission_prefix p (sr_writer_prefix b))) (\<lambda>gp.
       let writer = server_writer p gp in
       bindS (on_world (register_prefix E LOCAL_CTXFS_USER_ID writer gp)) (\<lambda>_.
       bindS (liftE (mapE operation_from_payload (sr_operations b))) (\<lambda>ops.
       on_world (submit E LOCAL_CTXFS_USER_ID writer ops))))) v = (q, v1)" (is "?m v = _") by force
  have r: "r = (case q of Inl e \<Rightarrow> Inl (submission_error_of e) | Inr x \<Rightarrow> Inr x)" "v' = v1"
    using assms q by (auto simp: submit_operations_def reraise_def split: sum.splits)
  show thesis
  proof (cases "\<exists>d. authorize (Some p) SUBMIT (Some (sr_writer_prefix b)) = Inr d \<and> allowed d")
    case False
    then have "v1 = v \<and> isl q" using q
      by (cases "authorize (Some p) SUBMIT (Some (sr_writer_prefix b))") (auto simp: run_simps split: if_splits)
    then obtain e where "v1 = v" "q = Inl e" by (cases q) auto
    then have "v_world v' = v_world v" "r = Inl (submission_error_of e)" using r by simp_all
    then show thesis by (rule nothing)
  next
    case True
    then have q: "bindS (liftE (submission_prefix p (sr_writer_prefix b))) (\<lambda>gp.
       bindS (on_world (register_prefix E LOCAL_CTXFS_USER_ID (server_writer p gp) gp)) (\<lambda>_.
       bindS (liftE (mapE operation_from_payload (sr_operations b))) (\<lambda>ops.
       on_world (submit E LOCAL_CTXFS_USER_ID (server_writer p gp) ops)))) v = (q, v1)"
      using q by (auto simp: run_simps Let_def)
    show thesis
    proof (cases "submission_prefix p (sr_writer_prefix b)")
      case (Inl e)
      then have "v_world v' = v_world v" "r = Inl (submission_error_of e)" using r q by (auto simp: run_simps)
      then show thesis by (rule nothing)
    next
      case gp: (Inr gp)
      obtain x w1 where x: "register_prefix E LOCAL_CTXFS_USER_ID (server_writer p gp) gp (v_world v) = (x, w1)" by force
      show thesis
      proof (cases x)
        case (Inl e)
        then have "v_world v' = w1" "r = Inl (submission_error_of e)" using r q x gp by (auto simp: run_simps on_world_def)
        then show thesis using x unfolding Inl by (intro refused [OF gp])
      next
        case (Inr u)
        then have q: "bindS (liftE (mapE operation_from_payload (sr_operations b))) (\<lambda>ops.
           on_world (submit E LOCAL_CTXFS_USER_ID (server_writer p gp) ops)) (v\<lparr>v_world := w1\<rparr>) = (q, v1)"
          using q x gp by (simp add: run_simps on_world_def)
        show thesis
        proof (cases "mapE operation_from_payload (sr_operations b)")
          case (Inl e)
          then have "v_world v' = w1" "r = Inl (submission_error_of e)" using r q by (auto simp: run_simps)
          then show thesis using x unfolding Inr by (intro unparsed [OF gp]) simp_all
        next
          case ops: (Inr ops)
          obtain s w2 where s: "submit E LOCAL_CTXFS_USER_ID (server_writer p gp) ops w1 = (s, w2)" by force
          then have "v_world v1 = w2" using q ops by (auto simp: run_simps on_world_def)
          then show thesis using s x unfolding Inr r(2) [symmetric] by (intro submitted [OF gp, of w1 ops s]) simp_all
        qed
      qed
    qed
  qed
qed

lemma longest_mem: "longest xs = Some x \<Longrightarrow> x \<in> set xs"
  by (induction xs arbitrary: x) (auto split: option.splits if_splits)

lemma submission_prefix_granted:
  "submission_prefix p claimed = Inr gp \<Longrightarrow> ADMIN \<in> scopes p \<or> gp \<in> set (prefixes p)"
  using longest_mem [of "filter (\<lambda>pfx. claimed = pfx \<or> startswith claimed (pfx @ lit ''/'')) (prefixes p)" gp]
  by (auto simp: submission_prefix_def split: if_splits option.splits)

lemma register_server_prefix:
  assumes "register_prefix E LOCAL_CTXFS_USER_ID (server_writer p gp) gp w = (r, w1)"
    and "server_prefixes (w_db w)" "58 \<notin> set (writer_base p)"
  shows "server_prefixes (w_db w1) \<and> entry_rows (w_db w1) = entry_rows (w_db w)"
proof -
  have a: "writers_apart (w_db w)" using assms(2) by (simp add: server_prefixes_def)
  have a1: "writers_apart (w_db w1)" by (rule register_prefix_apart [OF assms(1) a])
  show ?thesis using assms(1) a
  proof (cases rule: register_prefix_cases)
    case registered
    define n where "n = \<lparr>pr_user = LOCAL_CTXFS_USER_ID, pr_writer = server_writer p gp, pr_prefix = gp, pr_created_at = e_time E (w_clock w)\<rparr>"
    have d: "w_db w1 = insert_prefix n (w_db w)" using registered(4) by (simp add: n_def)
    have "\<exists>k. 58 \<notin> set k \<and> pr_writer q = k @ 58 # pr_prefix q"
      if q: "q \<in> set (prefix_rows (w_db w1))" "pr_user q = LOCAL_CTXFS_USER_ID" for q
    proof (cases "q = n")
      case True
      then show ?thesis using assms(3) by (auto simp: n_def server_writer_base)
    next
      case False
      then have "q \<in> set (prefix_rows (w_db w))" using q(1) insert_prefix_rows(1) [of n "w_db w"] unfolding d by blast
      then show ?thesis using assms(2) q(2) by (simp add: server_prefixes_def)
    qed
    then show ?thesis using a1 insert_prefix_rows(2) [of n "w_db w"] unfolding server_prefixes_def d by blast
  qed (use assms(2) in \<open>auto simp: server_prefixes_def\<close>)
qed

text \<open>What a submission writes lies in a prefix that was granted to the caller.\<close>

definition confined :: "principal \<Rightarrow> entry_row \<Rightarrow> bool" where
  "confined p e \<longleftrightarrow> (\<exists>gp. (ADMIN \<in> scopes p \<or> gp \<in> set (prefixes p)) \<and> row_user e = LOCAL_CTXFS_USER_ID \<and>
     row_writer e = server_writer p gp \<and> path_within (entry_path e) gp)"

lemma submit_operations_confined:
  assumes "submit_operations E p b v = (r, v')" "server_prefixes (w_db (v_world v))" "58 \<notin> set (writer_base p)"
  shows "server_prefixes (w_db (v_world v')) \<and>
    (\<forall>e \<in> set (entry_rows (w_db (v_world v'))) - set (entry_rows (w_db (v_world v))). confined p e)"
  using assms(1)
proof (cases rule: submit_operations_cases)
  case nothing
  then show ?thesis using assms(2) by simp
next
  case refused
  then show ?thesis using register_server_prefix [OF refused(2) assms(2,3)] by simp
next
  case unparsed
  then show ?thesis using register_server_prefix [OF unparsed(2) assms(2,3)] by simp
next
  case (submitted gp w1 ops s)
  note reg = register_server_prefix [OF submitted(2) assms(2,3)]
  have pr: "prefix_rows (w_db (v_world v')) = prefix_rows (w_db w1)" by (rule submit_prefix_rows [OF submitted(3)])
  have "confined p e"
    if e: "e \<in> set (entry_rows (w_db (v_world v')))" "e \<notin> set (entry_rows (w_db (v_world v)))" for e
  proof -
    obtain x where x: "s = Inr x" using submit_db(2) [OF submitted(3)] e reg by (cases s) auto
    have w: "row_user e = LOCAL_CTXFS_USER_ID" "row_writer e = server_writer p gp"
      "require_authorized_path LOCAL_CTXFS_USER_ID (server_writer p gp) (entry_path e) (w_db w1) = Inr ()"
      using submit_db(3) [OF submitted(3) x] e reg by (auto simp: written_def)
    have "writers_apart (w_db w1)" using reg by (simp add: server_prefixes_def)
    then obtain q where q: "q \<in> set (prefix_rows (w_db w1))" "pr_user q = LOCAL_CTXFS_USER_ID" "pr_writer q = server_writer p gp"
        "path_within (entry_path e) (pr_prefix q)" using w(3) require_authorized_Inr by blast
    obtain k where k: "58 \<notin> set k" "pr_writer q = k @ 58 # pr_prefix q" using reg q(1,2) unfolding server_prefixes_def by blast
    have "pr_prefix q = gp"
      using colon_split [OF k(1) assms(3), of "pr_prefix q" gp] k(2) q(3) by (simp add: server_writer_base)
    then show ?thesis using w(1,2) q(4) submission_prefix_granted [OF submitted(1)] unfolding confined_def by blast
  qed
  moreover have "server_prefixes (w_db (v_world v'))" using reg pr by (simp add: server_prefixes_def writers_apart_def)
  ultimately show ?thesis by blast
qed

lemma key_id_no_colon: "key_id_pattern k \<Longrightarrow> 58 \<notin> set k \<and> k \<noteq> []"
  by (auto simp: key_id_pattern_def list_all_iff token_char_def)

lemma authenticated_base:
  assumes "authenticate E S mode header v = (Inr (Some p), v1)"
  shows "58 \<notin> set (writer_base p)"
proof (cases mode)
  case TRUSTED_LOCAL
  then have "local_socket_principal TRUSTED_ADMIN = Inr (Some p)" using assms by (simp add: authenticate_def act_simps)
  then have "p = \<lparr>principal_id = lit ''local-socket'', principal_kind = LOCAL_SOCKET, scopes = {ADMIN},
              key_id = None, prefixes = [], principal_machine_id = None\<rparr>"
    by (auto simp: local_socket_principal_def make_principal_Inr)
  then show ?thesis by (simp add: writer_base_def lit_def)
next
  case BEARER
  then obtain t g v2 where g: "verify E S t None v = (Inr (Some g), v2)" "grant_principal g = Inr p"
    using assms by (auto simp: authenticate_def bindS_Inr_iff act_simps split: option.splits)
  obtain r where r: "parse_token t = Some (cred_key_id r)" "p = principal_of r" using verified_principal [OF g] by blast
  have "key_id_pattern (cred_key_id r)" using r(1) parse_token_iff by blast
  then show ?thesis using key_id_no_colon r(2) by (auto simp: writer_base_def principal_of_def)
qed

lemma require_allows: "require p s = Inr u \<Longrightarrow> ADMIN \<in> scopes p \<or> s \<in> scopes p"
  using authorize_Inr by (fastforce simp: require_def permitted_def)

lemma endpoint_confined:
  assumes "endpoint fuel E S G p rq v = Some (r, v')" "server_prefixes (w_db (v_world v))" "58 \<notin> set (writer_base p)"
  shows "server_prefixes (w_db (v_world v')) \<and>
    (\<forall>e \<in> set (entry_rows (w_db (v_world v'))) - set (entry_rows (w_db (v_world v))).
      (ADMIN \<in> scopes p \<or> SUBMIT \<in> scopes p) \<and> confined p e)"
proof (cases "\<exists>b. h_call rq = Submit b")
  case False
  then have "tables (v_world v') = tables (v_world v)"
    by (intro quietRD [OF quiet_endpoint assms(1)]) blast
  then show ?thesis using assms(2) by (simp add: tables_def server_prefixes_def writers_apart_def)
next
  case True
  then obtain body where body: "h_call rq = Submit body" by blast
  have run: "bindS (liftE (require p SUBMIT)) (\<lambda>_.
            bindS (liftE (reject_user_id_query (h_user_id rq))) (\<lambda>_.
            bindS (liftE (valid submission_request_ok body)) (\<lambda>b.
            bindS (submit_operations E p b) (\<lambda>s. ret (ok (Submission_Body s)))))) v = (r, v')"
    using assms(1) unfolding endpoint_def body by (simp add: returns_Some)
  show ?thesis
  proof (cases "\<exists>u w b. require p SUBMIT = Inr u \<and> reject_user_id_query (h_user_id rq) = Inr w \<and> valid submission_request_ok body = Inr b")
    case False
    then have "v' = v" using run
      by (cases "require p SUBMIT"; cases "reject_user_id_query (h_user_id rq)"; cases "valid submission_request_ok body")
        (auto simp: run_simps)
    then show ?thesis using assms(2) by simp
  next
    case True
    then obtain u b where b: "require p SUBMIT = Inr u" "valid submission_request_ok body = Inr b"
        "bindS (submit_operations E p b) (\<lambda>s. ret (ok (Submission_Body s))) v = (r, v')"
      using run by (auto simp: run_simps)
    obtain q v1 where q: "submit_operations E p b v = (q, v1)" by force
    have "v' = v1" using b(3) q by (cases q) (simp_all add: run_simps)
    then show ?thesis using submit_operations_confined [OF q assms(2,3)] require_allows [OF b(1)] by blast
  qed
qed

text \<open>A request is refused, or its caller is authenticated and admitted, and an endpoint handles it.\<close>

lemma respond_cases:
  assumes "respond fuel E S G mode rq v = Some (r, v')"
  obtains (refused) v1 where "authenticate E S mode (h_authorization rq) v = (Inr None, v1)" "v' = v1" "r = auth_response"
  | (failed) e v1 where "authenticate E S mode (h_authorization rq) v = (Inl e, v1)" "v' = v1" "r = reply_of (Inl e)"
  | (inadmissible) p v1 x where "authenticate E S mode (h_authorization rq) v = (Inr (Some p), v1)" "principal_machine_id p \<noteq> None"
      "machine_credential_is_admissible p (h_method rq) (h_path rq) (w_db (v_world v1)) = x" "x \<noteq> Inr True" "v' = v1"
      "r = reply_of (case x of Inl e \<Rightarrow> Inl e | Inr _ \<Rightarrow> Inr \<lparr>status = 403, content = Detail ''machine_credential_not_current''\<rparr>)"
  | (handled) p v1 q where "authenticate E S mode (h_authorization rq) v = (Inr (Some p), v1)"
      "principal_machine_id p = None \<or>
       machine_credential_is_admissible p (h_method rq) (h_path rq) (w_db (v_world v1)) = Inr True"
      "endpoint fuel E S G p rq v1 = Some (q, v')" "r = reply_of q"
proof -
  obtain q where q: "authenticate_request fuel E S G mode rq v = Some (q, v')" "r = reply_of q"
    using assms by (auto simp: respond_def)
  obtain a v1 where a: "authenticate E S mode (h_authorization rq) v = (a, v1)" by force
  show thesis
  proof (cases a)
    case (Inl e)
    then have "q = Inl e \<and> v' = v1" using q(1) a by (simp add: authenticate_request_def bindR_def returns_def)
    then show thesis using a Inl q(2) by (intro failed) simp_all
  next
    case (Inr who)
    show thesis
    proof (cases who)
      case None
      then have "q = Inr auth_response \<and> v' = v1" using q(1) a Inr by (simp add: authenticate_request_def bindR_def returns_def act_simps)
      then show thesis using a Inr None q(2) by (intro refused) (simp_all add: reply_of_def)
    next
      case (Some p)
      let ?x = "machine_credential_is_admissible p (h_method rq) (h_path rq) (w_db (v_world v1))"
      have w: "v1\<lparr>v_world := v_world v1\<rparr> = v1" by simp
      show thesis
      proof (cases "principal_machine_id p = None \<or> ?x = Inr True")
        case True
        then have "endpoint fuel E S G p rq v1 = Some (q, v')" using q(1) a Inr Some
          by (cases "principal_machine_id p = None") (auto simp: authenticate_request_def bindR_def returns_def act_simps read_catalog_def on_world_def readE_def)
        then show thesis using a Inr Some True q(2) by (intro handled) simp_all
      next
        case False
        then have "v' = v1 \<and> q = (case ?x of Inl e \<Rightarrow> Inl e | Inr _ \<Rightarrow> Inr \<lparr>status = 403, content = Detail ''machine_credential_not_current''\<rparr>)"
          using q(1) a Inr Some
          by (cases ?x) (auto simp: authenticate_request_def bindR_def returns_def act_simps read_catalog_def on_world_def readE_def)
        then show thesis using a Inr Some False q(2) by (intro inadmissible [of p v1 ?x]) simp_all
      qed
    qed
  qed
qed

lemma respond_confined:
  assumes "server_prefixes (w_db (v_world v))" "respond fuel E S G mode rq v = Some (r, v')"
  shows "server_prefixes (w_db (v_world v')) \<and>
    (\<forall>e \<in> set (entry_rows (w_db (v_world v'))) - set (entry_rows (w_db (v_world v))).
      \<exists>p v1. authenticate E S mode (h_authorization rq) v = (Inr (Some p), v1) \<and>
        (ADMIN \<in> scopes p \<or> SUBMIT \<in> scopes p) \<and> confined p e)"
proof -
  obtain a v1 where a: "authenticate E S mode (h_authorization rq) v = (a, v1)" by force
  have t: "tables (v_world v1) = tables (v_world v)" by (rule quietD [OF quiet_authenticate a])
  then have s: "server_prefixes (w_db (v_world v1))" and e: "entry_rows (w_db (v_world v1)) = entry_rows (w_db (v_world v))"
    using assms(1) by (simp_all add: tables_def server_prefixes_def writers_apart_def)
  from assms(2) show ?thesis
  proof (cases rule: respond_cases)
    case (handled p v2 q)
    then have "v2 = v1" using a by simp
    with endpoint_confined [OF handled(3)] s e authenticated_base [OF handled(1)] handled(1) show ?thesis by auto
  qed (use a s e in auto)
qed

section \<open>Who is served\<close>

lemma admissible_current:
  assumes "machine_credential_is_admissible p method path d = Inr True"
  shows "\<exists>mid k m. principal_machine_id p = Some mid \<and> key_id p = Some k \<and> machine_of LOCAL_CTXFS_USER_ID mid d = Inr m \<and>
    (credential_key_id m = Some k \<or> credential_key_id m = None \<and> method = lit ''DELETE'' \<and> path = revoke_path mid)"
  using assms by (auto simp: machine_credential_is_admissible_def split: option.splits sum.splits exn.splits if_splits)

lemma admissible_errors:
  assumes "machine_credential_is_admissible p method path d = Inl e"
  shows "\<not> (\<exists>n m. e = HTTPException n m)"
proof -
  have "machine_of LOCAL_CTXFS_USER_ID mid d = Inl e \<Longrightarrow> \<not> (\<exists>n m. e = HTTPException n m)" for mid
    by (auto simp: machine_of_def machine_from_row_def validate_machine_def invalid_def split: option.splits if_splits)
  then show ?thesis using assms
    by (auto simp: machine_credential_is_admissible_def split: option.splits sum.splits exn.splits if_splits)
qed

text \<open>The credential the caller presents, and whether its machine is still bound to it.\<close>

definition accepted :: "env \<Rightarrow> str set \<Rightarrow> vault \<Rightarrow> http_request \<Rightarrow> credential_row \<Rightarrow> bool" where
  "accepted E T v rq row \<longleftrightarrow> row \<in> set (v_creds v) \<and>
     (\<exists>t \<in> T. bearer_token (h_authorization rq) = Some t \<and> parse_token t = Some (cred_key_id row)) \<and>
     usable_at (e_time E (w_clock (v_world v))) row"

definition current :: "vault \<Rightarrow> http_request \<Rightarrow> credential_row \<Rightarrow> bool" where
  "current v rq row \<longleftrightarrow> (\<forall>mid. cred_machine_id row = Some mid \<longrightarrow>
     (\<exists>m. machine_of LOCAL_CTXFS_USER_ID mid (w_db (v_world v)) = Inr m \<and>
        (credential_key_id m = Some (cred_key_id row) \<or>
         credential_key_id m = None \<and> h_method rq = lit ''DELETE'' \<and> h_path rq = revoke_path mid)))"

lemma grant_row_principal:
  assumes "grant_ok (granted row)"
  shows "grant_principal (granted row) = Inr (principal_of row)"
  using assms by (auto simp: grant_principal_def make_principal_Inr principal_ok_def grant_ok_def granted_def principal_of_def)

lemma reply_of_not_http: "\<not> (\<exists>n m. e = HTTPException n m) \<Longrightarrow> status (reply_of (Inl e)) = 500"
  by (cases e) (simp_all add: reply_of_def)

lemma authenticate_accepted:
  assumes "fresh_vault v0" "vault_steps E S ({}, v0) (T, v)" "secrets_ok S" "\<And>s. inj (\<lambda>data. s_scrypt S data s)"
    and "authenticate E S BEARER (h_authorization rq) v = (a, v1)"
  shows "untouched v v1 \<and> (a = Inr None \<and> (\<forall>row. \<not> accepted E T v rq row) \<or>
    (\<exists>row. accepted E T v rq row \<and> (\<forall>row'. accepted E T v rq row' \<longrightarrow> row' = row) \<and> a = Inr (Some (principal_of row))))"
proof -
  have ok: "issued_ok S (T, v_creds v)" by (rule history_keys_ok [OF assms(1-3)])
  then have d: "distinct (map cred_key_id (v_creds v))" by (simp add: issued_ok_def)
  let ?tm = "e_time E (w_clock (v_world v))"
  note run = authenticate_run [OF ok assms(5)]
  note ver = history_verify [OF assms(1-4)]
  show ?thesis
  proof (cases "\<exists>row. accepted E T v rq row")
    case False
    have "a = Inr None"
    proof (rule ccontr)
      assume "a \<noteq> Inr None"
      then obtain t g where t: "bearer_token (h_authorization rq) = Some t" "verify E S t (Some ?tm) v = (Inr (Some g), v)"
        using run by blast
      then show False using False ver [of t ?tm g v] by (auto simp: accepted_def)
    qed
    then show ?thesis using run False by blast
  next
    case True
    then obtain row t where row: "accepted E T v rq row" "t \<in> T" "bearer_token (h_authorization rq) = Some t"
        "parse_token t = Some (cred_key_id row)" "row \<in> set (v_creds v)" "usable_at ?tm row" by (auto simp: accepted_def)
    have uniq: "row' = row" if "accepted E T v rq row'" for row'
      using same_key [OF d _ row(5)] that row(3,4) by (auto simp: accepted_def)
    have g: "verify E S t (Some ?tm) v = (Inr (Some (granted row)), v)" using ver row(2,4-6) by blast
    have "grant_ok (granted row)" using ok row(5) by (auto simp: issued_ok_def row_ok_def)
    then have pr: "grant_principal (granted row) = Inr (principal_of row)" by (rule grant_row_principal)
    obtain q v2 where q: "verify E S t None v = (q, v2)" by force
    have "q = Inr (Some (granted row))" using verify_now [OF q] g by simp
    then have "a = Inr (Some (principal_of row))" using assms(5) row(3) q pr
      by (simp add: authenticate_def run_simps)
    then show ?thesis using run row(1) uniq by blast
  qed
qed

lemma authenticate_admitted:
  assumes "fresh_vault v0" "vault_steps E S ({}, v0) (T, v)" "secrets_ok S" "\<And>s. inj (\<lambda>data. s_scrypt S data s)"
    and "authenticate E S BEARER (h_authorization rq) v = (Inr (Some p), v1)"
  shows "\<exists>row. accepted E T v rq row \<and> (\<forall>row'. accepted E T v rq row' \<longrightarrow> row' = row) \<and> p = principal_of row \<and> untouched v v1"
  using authenticate_accepted [OF assms]
proof (elim conjE disjE exE)
  fix row assume u: "untouched v v1" and row: "accepted E T v rq row" "\<forall>row'. accepted E T v rq row' \<longrightarrow> row' = row"
    and p: "(Inr (Some p) :: principal option res) = Inr (Some (principal_of row))"
  have "p = principal_of row" using p by simp
  then show ?thesis using u row by (intro exI [of _ row] conjI)
qed simp

lemma admissible_row:
  assumes "cred_machine_id row = Some mid" "w_db (v_world v1) = w_db (v_world v)"
  shows "machine_credential_is_admissible (principal_of row) (h_method rq) (h_path rq) (w_db (v_world v1)) = Inr True \<longleftrightarrow> current v rq row"
  using assms unfolding current_def machine_credential_is_admissible_def principal_of_def
  by (auto split: sum.splits exn.splits)

lemma respond_gate:
  assumes "fresh_vault v0" "vault_steps E S ({}, v0) (T, v)" "secrets_ok S" "\<And>s. inj (\<lambda>data. s_scrypt S data s)"
    and "respond fuel E S G BEARER rq v = Some (r, v')"
  shows "((\<forall>row. \<not> accepted E T v rq row) \<longrightarrow> status r = 401 \<and> untouched v v') \<and>
    (\<forall>row. accepted E T v rq row \<longrightarrow> \<not> current v rq row \<longrightarrow> status r \<in> {403, 500} \<and> untouched v v')"
  using assms(5)
proof (cases rule: respond_cases)
  case (refused v1)
  then show ?thesis using authenticate_accepted [OF assms(1-4) refused(1)] by (auto simp: auth_response_def)
next
  case (failed e v1)
  then show ?thesis using authenticate_accepted [OF assms(1-4) failed(1)] by auto
next
  case (inadmissible p v1 x)
  obtain row where row: "accepted E T v rq row" "\<forall>row'. accepted E T v rq row' \<longrightarrow> row' = row" "p = principal_of row" "untouched v v1"
    using authenticate_admitted [OF assms(1-4) inadmissible(1)] by (elim exE conjE)
  have "status r \<in> {403, 500}"
  proof (cases x)
    case (Inl e)
    have "status (reply_of (Inl e)) = 500"
      by (rule reply_of_not_http [OF admissible_errors]) (use inadmissible(3) Inl in simp)
    then show ?thesis using inadmissible(6) by (simp add: Inl)
  next
    case (Inr y)
    then show ?thesis using inadmissible(6) by (simp add: reply_of_def)
  qed
  then show ?thesis using row inadmissible(5) by blast
next
  case (handled p v1 q)
  obtain row where row: "accepted E T v rq row" "\<forall>row'. accepted E T v rq row' \<longrightarrow> row' = row" "p = principal_of row" "untouched v v1"
    using authenticate_admitted [OF assms(1-4) handled(1)] by (elim exE conjE)
  have "current v rq row"
  proof (cases "cred_machine_id row")
    case None
    then show ?thesis by (simp add: current_def)
  next
    case (Some mid)
    have d: "w_db (v_world v1) = w_db (v_world v)" using row(4) by (simp add: untouched_def)
    have m: "principal_machine_id p = Some mid" by (simp add: row(3) principal_of_def Some)
    then have "machine_credential_is_admissible (principal_of row) (h_method rq) (h_path rq) (w_db (v_world v1)) = Inr True"
      using handled(2) by (simp add: row(3))
    then show ?thesis by (simp only: admissible_row [OF Some d])
  qed
  then show ?thesis using row by blast
qed

section \<open>Replaced keys\<close>

lemma authorize_fails:
  "isl (authorize (Some p) s path) \<longleftrightarrow> ADMIN \<notin> scopes p \<and> s \<in> scopes p \<and> s = SUBMIT \<and>
     (\<exists>x. path = Some x \<and> isl (auth_normalize_path x))"
proof (cases path)
  case None
  then show ?thesis by (simp add: authorize_def)
next
  case (Some x)
  then show ?thesis by (cases "auth_normalize_path x") (simp_all add: authorize_def del: auth_normalize_path_Inr_iff)
qed

lemma authorize_same:
  assumes "authorize (Some p) s path = Inr d" "allowed d" "scopes q = scopes p" "prefixes q = prefixes p"
  shows "\<exists>d'. authorize (Some q) s path = Inr d' \<and> allowed d'"
proof -
  have "\<not> isl (authorize (Some q) s path)"
    using assms(1) authorize_fails [of p s path] authorize_fails [of q s path] assms(3,4) by simp
  then obtain d' where d': "authorize (Some q) s path = Inr d'" by (cases "authorize (Some q) s path") simp_all
  have "permitted q s path" using authorize_Inr [OF assms(1)] assms(2-4) by (simp add: permitted_def)
  then show ?thesis using d' authorize_Inr [OF d'] by blast
qed

lemma submit_operations_Inr:
  assumes "submit_operations E p b v = (Inr s, v')"
  shows "\<exists>d gp w1. authorize (Some p) SUBMIT (Some (sr_writer_prefix b)) = Inr d \<and> allowed d \<and>
    submission_prefix p (sr_writer_prefix b) = Inr gp \<and>
    register_prefix E LOCAL_CTXFS_USER_ID (server_writer p gp) gp (v_world v) = (Inr (), w1) \<and>
    prefix_rows (w_db (v_world v')) = prefix_rows (w_db w1)"
proof -
  have "\<exists>d. authorize (Some p) SUBMIT (Some (sr_writer_prefix b)) = Inr d \<and> allowed d"
  proof (cases "authorize (Some p) SUBMIT (Some (sr_writer_prefix b))")
    case (Inl e)
    then show ?thesis using assms by (simp add: submit_operations_def reraise_def run_simps)
  next
    case (Inr d)
    then show ?thesis using assms by (cases "allowed d") (simp_all add: submit_operations_def reraise_def run_simps)
  qed
  moreover from assms have "\<exists>gp w1. submission_prefix p (sr_writer_prefix b) = Inr gp \<and>
      register_prefix E LOCAL_CTXFS_USER_ID (server_writer p gp) gp (v_world v) = (Inr (), w1) \<and>
      prefix_rows (w_db (v_world v')) = prefix_rows (w_db w1)"
    by (cases rule: submit_operations_cases) (use submit_prefix_rows in auto)
  ultimately show ?thesis by blast
qed

lemma registered_row:
  assumes "register_prefix E user writer gp w = (Inr (), w1)" "writers_apart (w_db w)"
  shows "valid_path gp \<and> (\<exists>q \<in> set (prefix_rows (w_db w1)). pr_user q = user \<and> pr_writer q = writer \<and> pr_prefix q = gp)"
  using assms by (cases rule: register_prefix_cases) (auto simp: insert_prefix_def list_ex_iff)

lemma replaced_key_refused:
  assumes "server_prefixes (w_db (v_world v))" "submit_operations E old b v = (Inr s, v1)"
    and "set (prefix_rows (w_db (v_world v1))) \<subseteq> set (prefix_rows (w_db (v_world v2)))" "server_prefixes (w_db (v_world v2))"
    and "scopes p = scopes old" "prefixes p = prefixes old" "writer_base p \<noteq> writer_base old"
    and "58 \<notin> set (writer_base p)" "58 \<notin> set (writer_base old)" "sr_writer_prefix b' = sr_writer_prefix b"
  shows "\<exists>m v3. submit_operations E p b' v2 = (Inl (HTTPException 403 m), v3) \<and>
    entry_rows (w_db (v_world v3)) = entry_rows (w_db (v_world v2))"
proof -
  obtain d gp w1 where o: "authorize (Some old) SUBMIT (Some (sr_writer_prefix b)) = Inr d" "allowed d"
      "submission_prefix old (sr_writer_prefix b) = Inr gp"
      "register_prefix E LOCAL_CTXFS_USER_ID (server_writer old gp) gp (v_world v) = (Inr (), w1)"
      "prefix_rows (w_db (v_world v1)) = prefix_rows (w_db w1)"
    using submit_operations_Inr [OF assms(2)] by blast
  have a: "writers_apart (w_db (v_world v))" "writers_apart (w_db (v_world v2))" using assms(1,4) by (simp_all add: server_prefixes_def)
  obtain q where q: "q \<in> set (prefix_rows (w_db (v_world v2)))" "pr_user q = LOCAL_CTXFS_USER_ID" "pr_writer q = server_writer old gp"
      "pr_prefix q = gp" and gp: "valid_path gp"
    using registered_row [OF o(4) a(1)] o(5) assms(3) by auto
  have ne: "pr_writer q \<noteq> server_writer p gp" unfolding q(3) server_writer_base using assms(7) by simp
  have self: "overlap gp gp" by (simp add: overlap_def path_within_def)
  obtain d' where d': "authorize (Some p) SUBMIT (Some (sr_writer_prefix b')) = Inr d'" "allowed d'"
    using authorize_same [OF o(1,2) assms(5,6)] assms(10) by auto
  have sp: "submission_prefix p (sr_writer_prefix b') = Inr gp" using o(3) by (simp only: submission_prefix_def assms(5,6,10))
  obtain x w2 where x: "register_prefix E LOCAL_CTXFS_USER_ID (server_writer p gp) gp (v_world v2) = (x, w2)" by force
  have w2: "x = Inl (PrefixAuthorizationError ''writer prefix overlaps'')" "w_db w2 = w_db (v_world v2)"
    using x a(2) by (cases rule: register_prefix_cases; use gp q ne self in auto)+
  have "submit_operations E p b' v2 = (Inl (HTTPException 403 (exn_message (PrefixAuthorizationError ''writer prefix overlaps''))), v2\<lparr>v_world := w2\<rparr>)"
    using d' sp x w2(1) by (simp add: Let_def submit_operations_def reraise_def run_simps on_world_def submission_error_of_def)
  then show ?thesis using w2(2) by simp
qed

end
