(* ===== verification/DemoVault.thy ===== *)
theory DemoVault
  imports DemoSearch Gateway
begin

text \<open>A concrete source of secrets and concrete vaults, for the properties of the credential store.\<close>

definition demo_secrets :: secret_source where
  "demo_secrets = \<lparr>s_urlsafe = (\<lambda>n k. replicate (if n = 12 then 15 else 42) 97 @ [65 + int (k mod 26)]),
     s_salt = (\<lambda>k. [of_nat k]), s_scrypt = (\<lambda>data s. data)\<rparr>"

lemma demo_secrets_ok: "secrets_ok demo_secrets"
proof -
  have "token_char (65 + int (k mod 26))" for k
  proof -
    have "k mod 26 < 26" by simp
    then show ?thesis unfolding token_char_def by linarith
  qed
  then show ?thesis
    by (simp add: secrets_ok_def demo_secrets_def key_id_pattern_def secret_pattern_def list_all_iff token_char_def)
qed

lemma demo_scrypt_inj: "inj (\<lambda>data. s_scrypt demo_secrets data s)"
  by (simp add: demo_secrets_def inj_def)

declare draw_key_id.simps [code]

definition demo_vault :: vault where
  "demo_vault = \<lparr>v_creds = [], v_uses = [], v_draws = 0, v_salts = 0, v_world = new_world\<lparr>w_clock := 5\<rparr>\<rparr>"

lemma demo_fresh: "fresh_vault demo_vault"
  by (simp add: fresh_vault_def demo_vault_def)

definition demo_key :: "nat \<Rightarrow> str" where
  "demo_key k = s_urlsafe demo_secrets 12 k"

definition after :: "'a \<Rightarrow> ('b res \<times> 'a) option \<Rightarrow> 'a" where
  "after v x = (case x of None \<Rightarrow> v | Some (_, v') \<Rightarrow> v')"

lemma after_run:
  "map_option (map_sum id f \<circ> fst) x = Some (Inr y) \<Longrightarrow> \<exists>z. x = Some (Inr z, after v x) \<and> f z = y"
  by (auto simp: after_def map_sum_Inr)

definition demo_issued_run :: "(issued_credential res \<times> vault) option" where
  "demo_issued_run = create_credential demo_env demo_secrets (lit ''ops'') {SUBMIT} [lit ''notes''] None demo_vault"

definition demo_issued_vault :: vault where
  "demo_issued_vault = after demo_vault demo_issued_run"

definition demo_token :: str where
  "demo_token = make_token (demo_key 0) (s_urlsafe demo_secrets 32 1)"

lemma demo_issue: "map_option (map_sum id token \<circ> fst) demo_issued_run = Some (Inr demo_token)"
  by code_simp

definition demo_rotated_run :: "(issued_credential res \<times> vault) option" where
  "demo_rotated_run = rotate_credential demo_env demo_secrets (demo_key 0) demo_issued_vault"

lemma demo_rotate: "map_option (map_sum id token \<circ> fst) demo_rotated_run =
    Some (Inr (make_token (demo_key 2) (s_urlsafe demo_secrets 32 3)))"
  by code_simp

definition demo_enroller :: principal where
  "demo_enroller = \<lparr>principal_id = lit ''e'', principal_kind = API_KEY, scopes = {ENROLL}, key_id = Some (lit ''e''),
     prefixes = [], principal_machine_id = None\<rparr>"

definition demo_request :: registration_request where
  "demo_request = \<lparr>rq_local_registration_id = lit ''r'', rq_name = lit ''Laptop'', rq_description = None,
     rq_platform = None, rq_ctxd_version = None\<rparr>"

definition demo_registered_run :: "(registration_result res \<times> vault) option" where
  "demo_registered_run = register 4 demo_env demo_secrets (lit ''u'') demo_enroller demo_request demo_vault"

lemma demo_register: "map_option (map_sum id rr_token \<circ> fst) demo_registered_run =
    Some (Inr (make_token (demo_key 0) (s_urlsafe demo_secrets 32 1)))"
  by code_simp

definition demo_registered_vault :: vault where
  "demo_registered_vault = after demo_vault demo_registered_run"

definition demo_again_run :: "(registration_result res \<times> vault) option" where
  "demo_again_run = register 4 demo_env demo_secrets (lit ''u'') demo_enroller demo_request demo_registered_vault"

lemma demo_again: "map_option (map_sum id rr_key_id \<circ> fst) demo_again_run = Some (Inr (demo_key 2))"
  by code_simp

definition demo_machine_principal :: principal where
  "demo_machine_principal = \<lparr>principal_id = demo_key 0, principal_kind = API_KEY, scopes = {SUBMIT, STATUS_WRITE},
     key_id = Some (demo_key 0), prefixes = [lit ''machines/laptop''], principal_machine_id = Some (lit ''0'')\<rparr>"

definition demo_prepared_run :: "(prepared_credential res \<times> vault) option" where
  "demo_prepared_run = prepare_rotation demo_env demo_secrets (lit ''u'') demo_machine_principal (lit ''0'') demo_registered_vault"

definition demo_prepared_vault :: vault where
  "demo_prepared_vault = after demo_vault demo_prepared_run"

lemma demo_prepare: "map_option (map_sum id pc_key_id \<circ> fst) demo_prepared_run = Some (Inr (demo_key 2))"
  by code_simp

definition demo_confirmed :: "machine res \<times> vault" where
  "demo_confirmed = confirm_rotation demo_env (lit ''u'') demo_machine_principal (lit ''0'') (demo_key 2) demo_prepared_vault"

lemma demo_confirm: "map_sum id credential_key_id (fst demo_confirmed) = Inr (Some (demo_key 2))"
  by code_simp

lemma demo_issued:
  "\<exists>i. demo_issued_run = Some (Inr i, demo_issued_vault) \<and> token i = demo_token \<and>
     vault_steps demo_env demo_secrets ({}, demo_vault) ({demo_token}, demo_issued_vault)"
proof -
  obtain i where i: "demo_issued_run = Some (Inr i, demo_issued_vault)" "token i = demo_token"
    using after_run [OF demo_issue, of demo_vault] unfolding demo_issued_vault_def by blast
  have "vault_step demo_env demo_secrets ({}, demo_vault) (handing token (Inr i) {}, demo_issued_vault)"
    by (rule vault_step.created [OF i(1) [unfolded demo_issued_run_def]])
  then show ?thesis using i by (auto simp: handing_def)
qed

lemma demo_registered_steps:
  "\<exists>res. demo_registered_run = Some (Inr res, demo_registered_vault) \<and> rr_token res = demo_token \<and>
     vault_steps demo_env demo_secrets ({}, demo_vault) ({demo_token}, demo_registered_vault)"
proof -
  obtain res where i: "demo_registered_run = Some (Inr res, demo_registered_vault)" "rr_token res = demo_token"
    using after_run [OF demo_register, of demo_vault] unfolding demo_registered_vault_def demo_token_def by blast
  have "vault_step demo_env demo_secrets ({}, demo_vault) (handing rr_token (Inr res) {}, demo_registered_vault)"
    by (rule vault_step.registered [OF i(1) [unfolded demo_registered_run_def]])
  then show ?thesis using i by (auto simp: handing_def)
qed

section \<open>Requests and submissions of a machine\<close>

definition demo_http :: "str option \<Rightarrow> api_call \<Rightarrow> http_request" where
  "demo_http tok c = \<lparr>h_method = lit ''POST'', h_path = lit ''/v1/submissions'', h_authorization = map_option ((@) (lit ''Bearer '')) tok,
     h_user_id = None, h_call = c\<rparr>"

definition demo_body :: "string \<Rightarrow> string \<Rightarrow> submission_request" where
  "demo_body pfx p = \<lparr>sr_user_id = None, sr_writer_id = lit ''w'', sr_writer_prefix = lit pfx, sr_run_id = lit ''r'',
     sr_sequence = 1, sr_is_full_scan = False, sr_operations = [Kinded (demo_put ''k'' p (lit ''hi''))]\<rparr>"

text \<open>A machine submits, prepares and confirms a rotation, and submits with its new key.\<close>

definition demo_submitted :: vault where
  "demo_submitted = snd (submit_operations demo_env demo_machine_principal (demo_body ''machines/laptop'' ''machines/laptop/a'') demo_prepared_vault)"

definition demo_rotated :: vault where
  "demo_rotated = snd (confirm_rotation demo_env (lit ''u'') demo_machine_principal (lit ''0'') (demo_key 2) demo_submitted)"

lemma demo_prepared_prefixes: "length (prefix_rows (w_db (v_world demo_prepared_vault))) = 0"
  by code_simp

lemma demo_submit: "map_sum id submission_state (fst (submit_operations demo_env demo_machine_principal
    (demo_body ''machines/laptop'' ''machines/laptop/a'') demo_prepared_vault)) = Inr APPLIED"
  by code_simp

lemma demo_rotated_prefixes: "prefix_rows (w_db (v_world demo_rotated)) = prefix_rows (w_db (v_world demo_submitted))"
  by code_simp

end
