(* ===== verification/Reading.thy ===== *)
theory Reading
  imports Reads Writers
begin

text \<open>
  What the reading side promises: what a submission puts is read back, what is read has the digest
  the catalogue names, and the listings show what is on disk, and say so when the catalogue differs.
\<close>

section \<open>Reading an entry\<close>

lemma find_path_key:
  assumes "keys_ok (entry_rows d)" "r \<in> set (entry_rows d)" "row_user r = user"
  shows "List.find (\<lambda>q. row_user q = user \<and> entry_path q = entry_path r) (entry_rows d) = Some r"
proof (cases "List.find (\<lambda>q. row_user q = user \<and> entry_path q = entry_path r) (entry_rows d)")
  case None
  then show ?thesis using assms(2,3) by (auto simp: find_None_iff)
next
  case (Some q)
  then have q: "q \<in> set (entry_rows d)" "path_key q = path_key r"
    using assms(3) by (auto simp: find_Some_iff path_key_def)
  have "inj_on path_key (set (entry_rows d))" using assms(1) by (simp add: keys_ok_def distinct_map)
  then show ?thesis using Some q assms(2) by (auto dest: inj_onD)
qed

text \<open>In a store that is complete, an entry of the catalogue is found, and its bytes are verified.\<close>

lemma stored_entry:
  assumes E: "env_ok E user h" and ok: "store_ok E user h w" and r: "r \<in> set (entry_rows (w_db w))" "row_user r = user"
  obtains data where "contents (w_fs w) (tree_at h (entry_path r)) = Some data" "content_hash r = sha256 E data"
    "stat E user (entry_path r) w = Inr (Some (entry_from_row r))"
    "verified_bytes E user (entry_from_row r) w = Inr data"
proof -
  have rows: "rows_ok E user h (w_db w) (w_fs w)" using ok by (simp add: store_ok_def)
  have g: "good_path (entry_path r)" by (rule rows_okD(1) [OF rows r])
  note t = tree_path_good [OF E g]
  obtain i where i: "fm (w_fs w) (tree_at h (entry_path r)) = Some i" "content_hash r = sha256 E (idata (w_fs w) i)"
    using rows_okD(2) [OF rows r] by (auto simp: backed_def)
  have l: "look (w_fs w) (tree_at h (entry_path r)) = Some (File i)" using i(1) by (simp add: fm_Some_iff)
  have k: "keys_ok (entry_rows (w_db w))" using rows by (simp add: rows_ok_def)
  show thesis
  proof (rule that)
    show "contents (w_fs w) (tree_at h (entry_path r)) = Some (idata (w_fs w) i)" by (simp add: contents_def i)
    show "content_hash r = sha256 E (idata (w_fs w) i)" by (rule i(2))
    have "valid_path (entry_path r)" using g by (simp add: good_path_def)
    then show "stat E user (entry_path r) w = Inr (Some (entry_from_row r))"
      by (simp add: stat_def find_path_key [OF k r] entry_present_def t l fs_exists_def normalize_path_valid)
    show "verified_bytes E user (entry_from_row r) w = Inr (idata (w_fs w) i)"
      by (simp add: verified_bytes_def t read_bytes_def l i(2))
  qed
qed

lemma read_stored:
  assumes "env_ok E user h" "store_ok E user h w" "r \<in> set (entry_rows (w_db w))" "row_user r = user" "0 < n"
  obtains data where "contents (w_fs w) (tree_at h (entry_path r)) = Some data" "content_hash r = sha256 E data"
    "read E user (entry_path r) n w = Inr
      \<lparr>rr_path = entry_path r,
       rr_text = utf8_decode_replace (if int (length data) \<le> n then data else truncate_utf8 data (nat n)),
       rr_content_hash = content_hash r, rr_complete = (int (length data) \<le> n),
       rr_stopped_by = (if int (length data) \<le> n then None else Some MAX_BYTES)\<rparr>"
  by (rule stored_entry [OF assms(1-4)])
    (rule that, assumption+, use assms(5) in \<open>simp add: read_def require_entry_def Let_def\<close>)

text \<open>Whatever is read has the digest the result names.\<close>

lemma read_verified:
  assumes "read E user path n w = Inr res"
  obtains e data where "stat E user path w = Inr (Some e)" "sha256 E data = rr_content_hash res"
    "rr_content_hash res = content_hash e" "rr_path res = path"
    "rr_text res = utf8_decode_replace (if rr_complete res then data else truncate_utf8 data (nat n))"
    "rr_complete res \<longleftrightarrow> int (length data) \<le> n"
proof -
  obtain e data where e: "require_entry E user path w = Inr e" "verified_bytes E user e w = Inr data"
    using assms by (auto simp: read_def Let_def)
  have s: "stat E user path w = Inr (Some e)" using e(1) by (auto simp: require_entry_def split: option.splits)
  have p: "entry_path e = path" using s by (auto simp: stat_def Let_def find_Some_iff split: option.splits if_splits)
  show thesis
    by (rule that [OF s]) (use assms e p in \<open>auto simp: read_def Let_def verified_bytes_def split: if_splits\<close>)
qed

section \<open>What a put stores\<close>

text \<open>The row that a put of the source leaves: its path, and the digest of its normalized text.\<close>

definition recorded :: "env \<Rightarrow> str \<Rightarrow> str \<Rightarrow> put_operation \<Rightarrow> db \<Rightarrow> bool" where
  "recorded E user writer op d \<longleftrightarrow> (\<exists>r \<in> set (entry_rows d). ident r = (user, writer, put_source_key op) \<and>
     entry_path r = put_path op \<and> (\<exists>body data. normalize_text (put_text op) = Inr body \<and> utf8_encode body = Inr data \<and>
       content_hash r = sha256 E data))"

lemma upsert_entry_new:
  assumes "upsert_entry n d = Inr d'"
  shows "n \<in> set (entry_rows d') \<or> (\<exists>c. n\<lparr>created_at := c\<rparr> \<in> set (entry_rows d'))"
proof (cases "row_by_source_key (row_user n) (row_writer n) (entry_source_key n) d")
  case None
  then show ?thesis using assms by (auto simp: upsert_entry_def Let_def split: if_splits)
next
  case (Some q)
  then have q: "q \<in> set (entry_rows d)" "same_source (row_user n) (row_writer n) (entry_source_key n) q"
    by (auto simp: row_by_source_key_def find_Some_iff)
  then have "n\<lparr>created_at := created_at q\<rparr> \<in> set (update_where (same_source (row_user n) (row_writer n) (entry_source_key n))
      (\<lambda>r. n\<lparr>created_at := created_at r\<rparr>) (entry_rows d))"
    by (force simp: set_update_where)
  then show ?thesis using assms Some by (auto simp: upsert_entry_def Let_def split: if_splits)
qed

lemma upsert_entry_keeps:
  "upsert_entry n d = Inr d' \<Longrightarrow> r \<in> set (entry_rows d) \<Longrightarrow> ident r \<noteq> ident n \<Longrightarrow> r \<in> set (entry_rows d')"
  by (auto simp: upsert_entry_def Let_def set_update_where same_source_ident ident_def split: if_splits)

lemma put_op_upsert:
  assumes "put_op E user writer op w = (Inr (), w')"
  obtains body data oid c t where "normalize_text (put_text op) = Inr body" "utf8_encode body = Inr data"
    "upsert_entry (put_entry_row user writer op (put_path op) body data (sha256 E data) oid c t) (w_db w) = Inr (w_db w')"
proof -
  obtain body data t w1 w2 oid c where s: "normalize_text (put_text op) = Inr body" "utf8_encode body = Inr data"
      "now E w = (Inr t, w1)"
      "put_tree E user (put_path op) data (entry_by_source_key user writer (put_source_key op) (w_db w1)) w1 = (Inr oid, w2)"
      "upsert_entry (put_entry_row user writer op (put_path op) body data (sha256 E data) oid c t) (w_db w2) = Inr (w_db w')"
    using assms by (auto simp: put_op_def bindS_Inr_iff bindS_gets_modify readE_Inr liftE_Inr on_dbE_Inr)
  moreover have "w_db w2 = w_db w" using s(3) keeps_dbD(1) [OF keeps_db_put(3) s(4)] by (auto simp: now_def)
  ultimately show thesis using that by simp
qed

lemma put_op_records:
  assumes "put_op E user writer op w = (Inr (), w')" shows "recorded E user writer op (w_db w')"
proof (rule put_op_upsert [OF assms])
  fix body data oid c t
  assume a: "normalize_text (put_text op) = Inr body" "utf8_encode body = Inr data"
    "upsert_entry (put_entry_row user writer op (put_path op) body data (sha256 E data) oid c t) (w_db w) = Inr (w_db w')"
  show ?thesis using upsert_entry_new [OF a(3)] a(1,2)
    by (force simp: recorded_def put_entry_row_def ident_def)
qed

lemma put_op_keeps_record:
  assumes "put_op E user writer op' w = (Inr (), w')" "put_source_key op' \<noteq> put_source_key op"
    "recorded E user writer op (w_db w)"
  shows "recorded E user writer op (w_db w')"
proof (rule put_op_upsert [OF assms(1)])
  fix body data oid c t
  assume a: "upsert_entry (put_entry_row user writer op' (put_path op') body data (sha256 E data) oid c t) (w_db w) = Inr (w_db w')"
  obtain r where r: "r \<in> set (entry_rows (w_db w))" "ident r = (user, writer, put_source_key op)" "entry_path r = put_path op"
    "\<exists>body data. normalize_text (put_text op) = Inr body \<and> utf8_encode body = Inr data \<and> content_hash r = sha256 E data"
    using assms(3) by (auto simp: recorded_def)
  have "r \<in> set (entry_rows (w_db w'))"
    by (rule upsert_entry_keeps [OF a r(1)]) (use r(2) assms(2) in \<open>simp add: ident_def put_entry_row_def\<close>)
  then show ?thesis using r(2-4) by (auto simp: recorded_def)
qed

lemma decision_op_entries:
  "decision_op E user writer op w = (Inr (), w') \<Longrightarrow> entry_rows (w_db w') = entry_rows (w_db w)"
  by (auto simp: decision_op_def bindS_Inr_iff bindS_gets_modify readE_Inr liftE_Inr on_db_def act_simps now_def
      upsert_decision_def Let_def split: option.splits if_splits)

text \<open>A put among the operations is applied in some world, and the operations after it from there.\<close>

lemma apply_operations_put:
  assumes "apply_operations E user writer (pre @ Put op # post) w = (Inr (), w')"
  obtains w1 w2 where "put_op E user writer op w1 = (Inr (), w2)" "apply_operations E user writer post w2 = (Inr (), w')"
proof -
  have "\<exists>w1 w2. put_op E user writer op w1 = (Inr (), w2) \<and> apply_operations E user writer post w2 = (Inr (), w')"
    using assms
  proof (induction pre arbitrary: w rule: length_induct)
    case (1 pre)
    show ?case
    proof (cases pre)
      case Nil
      then show ?thesis using "1.prems" by (auto simp: bindS_Inr_iff)
    next
      case (Cons x rest)
      show ?thesis
      proof (cases x)
        case (Move m)
        have "dropWhile (\<lambda>p. kind p = MOVE) (rest @ Put op # post) = dropWhile (\<lambda>p. kind p = MOVE) rest @ Put op # post"
          by (induction rest) auto
        then have "\<exists>w1. apply_operations E user writer (dropWhile (\<lambda>p. kind p = MOVE) rest @ Put op # post) w1 = (Inr (), w')"
          using "1.prems" Cons Move by (auto simp: bindS_Inr_iff)
        then show ?thesis using "1.IH" Cons length_dropWhile_le [of "\<lambda>p. kind p = MOVE" rest] by (metis length_Cons less_Suc_eq_le)
      qed (use "1.IH" "1.prems" Cons in \<open>fastforce simp: bindS_Inr_iff\<close>)+
    qed
  qed
  then show thesis using that by blast
qed

lemma apply_operations_keeps_record:
  assumes "apply_operations E user writer ops w = (Inr (), w')" "recorded E user writer op (w_db w)"
    and "\<And>x. x \<in> set ops \<Longrightarrow> (case x of Put p \<Rightarrow> put_source_key p \<noteq> put_source_key op | Decide _ \<Rightarrow> True | _ \<Rightarrow> False)"
  shows "recorded E user writer op (w_db w')"
  using assms
proof (induction ops arbitrary: w)
  case (Cons x ops)
  have x: "case x of Put p \<Rightarrow> put_source_key p \<noteq> put_source_key op | Decide _ \<Rightarrow> True | _ \<Rightarrow> False"
    using Cons.prems(3) by simp
  then consider p where "x = Put p" "put_source_key p \<noteq> put_source_key op" | q where "x = Decide q"
    by (cases x) auto
  then show ?case
  proof cases
    case 1
    then obtain w1 where w1: "put_op E user writer p w = (Inr (), w1)" "apply_operations E user writer ops w1 = (Inr (), w')"
      using Cons.prems(1) by (auto simp: bindS_Inr_iff)
    show ?thesis
      by (rule Cons.IH [OF w1(2) put_op_keeps_record [OF w1(1) 1(2) Cons.prems(2)]]) (use Cons.prems(3) in auto)
  next
    case 2
    then obtain w1 where w1: "decision_op E user writer q w = (Inr (), w1)" "apply_operations E user writer ops w1 = (Inr (), w')"
      using Cons.prems(1) by (auto simp: bindS_Inr_iff)
    have "recorded E user writer op (w_db w1)"
      using Cons.prems(2) decision_op_entries [OF w1(1)] by (simp add: recorded_def)
    then show ?thesis by (rule Cons.IH [OF w1(2)]) (use Cons.prems(3) in auto)
  qed
qed (simp add: act_simps)

lemma submit_records:
  assumes "submit E user writer ops w = (Inr s, w')" "filter (\<lambda>p. kind p = PUT) ops = xs @ Put op # ys"
    and "\<And>p. Put p \<in> set ys \<Longrightarrow> put_source_key p \<noteq> put_source_key op"
  shows "recorded E user writer op (w_db w')"
  using assms(1)
proof (cases rule: submit_cases)
  case (applied d w2)
  obtain ordered where o: "reject_duplicate_move_sources {} ops = Inr ()"
    "ordered_operations user writer ops (w_db (submit_start w d)) = Inr ordered"
    "transaction (bindS (apply_operations E user writer ordered) (\<lambda>_. bindS (now E) (\<lambda>t.
         on_db (set_submission (e_uuid E (w_uuids w)) (\<lambda>r. r\<lparr>sub_state := APPLIED, sub_updated_at := t\<rparr>))))) (submit_start w d) = (Inr (), w2)"
    using run_submission_cases [OF applied(2)] by auto
  then obtain w1 where w1: "apply_operations E user writer ordered (submit_start w d) = (Inr (), w1)"
      "entry_rows (w_db w2) = entry_rows (w_db w1)"
    by (auto simp: transaction_Inr bindS_Inr_iff now_def on_db_def)
  have d: "distinct (map move_source_key (moves_of ops))" using o(1) by (simp add: reject_duplicate_iff)
  obtain ms where "ordered = filter (\<lambda>p. kind p = DELETE) ops @ map Move ms @ filter (\<lambda>p. kind p = PUT) ops
       @ filter (\<lambda>p. kind p = DECISION) ops" by (rule ordered_operations_form [OF o(2) d])
  then have "ordered = (filter (\<lambda>p. kind p = DELETE) ops @ map Move ms @ xs) @ Put op # (ys @ filter (\<lambda>p. kind p = DECISION) ops)"
    using assms(2) by simp
  then obtain u1 u2 where u: "put_op E user writer op u1 = (Inr (), u2)"
      "apply_operations E user writer (ys @ filter (\<lambda>p. kind p = DECISION) ops) u2 = (Inr (), w1)"
    using w1(1) apply_operations_put by metis
  have puts: "kind x = PUT" if "x \<in> set ys" for x
  proof -
    have "x \<in> set (filter (\<lambda>p. kind p = PUT) ops)" unfolding assms(2) using that by simp
    then show ?thesis by simp
  qed
  have later: "case x of Put p \<Rightarrow> put_source_key p \<noteq> put_source_key op | Decide _ \<Rightarrow> True | _ \<Rightarrow> False"
    if "x \<in> set (ys @ filter (\<lambda>p. kind p = DECISION) ops)" for x
  proof -
    have "x \<in> set ys \<and> kind x = PUT \<or> kind x = DECISION" using that by (auto intro: puts)
    then show ?thesis using assms(3) by (cases x) auto
  qed
  have "recorded E user writer op (w_db w1)"
    by (rule apply_operations_keeps_record [OF u(2) put_op_records [OF u(1)] later])
  moreover have "entry_rows (w_db w') = entry_rows (w_db w1)" using w1(2) applied(3) by (auto simp: cleanup_run)
  ultimately show ?thesis unfolding recorded_def by simp
qed simp_all

text \<open>The round trip: a put that a submission has applied last for its source is read back.\<close>

lemma submit_read:
  assumes E: "env_ok E user h" "inj (e_sha E)" and ok: "store_ok E user h w" "no_self_moves user writer ops (w_db w)"
    and run: "submit E user writer ops w = (Inr s, w')" "filter (\<lambda>p. kind p = PUT) ops = xs @ Put op # ys"
    and last: "\<And>p. Put p \<in> set ys \<Longrightarrow> put_source_key p \<noteq> put_source_key op"
  shows "\<exists>body data. normalize_text (put_text op) = Inr body \<and> utf8_encode body = Inr data \<and>
    (\<forall>n. 0 < n \<longrightarrow> int (length data) \<le> n \<longrightarrow> read E user (put_path op) n w' = Inr
      \<lparr>rr_path = put_path op, rr_text = body, rr_content_hash = sha256 E data, rr_complete = True, rr_stopped_by = None\<rparr>)"
proof -
  obtain r body data where r: "r \<in> set (entry_rows (w_db w'))" "row_user r = user" "entry_path r = put_path op"
    "normalize_text (put_text op) = Inr body" "utf8_encode body = Inr data" "content_hash r = sha256 E data"
    using submit_records [OF run last] by (auto simp: recorded_def ident_def)
  have ok': "store_ok E user h w'" by (rule submit_guarantee(1) [OF E(1) ok run(1)])
  have body: "utf8_decode_replace data = body"
    using utf8_roundtrip [OF r(5)] by (rule utf8_decode_replace_eq)
  have "read E user (put_path op) n w' = Inr
      \<lparr>rr_path = put_path op, rr_text = body, rr_content_hash = sha256 E data, rr_complete = True, rr_stopped_by = None\<rparr>"
    if n: "0 < n" "int (length data) \<le> n" for n
  proof (rule read_stored [OF E(1) ok' r(1,2) n(1)])
    fix data'
    assume a: "content_hash r = sha256 E data'"
      "read E user (entry_path r) n w' = Inr
      \<lparr>rr_path = entry_path r,
       rr_text = utf8_decode_replace (if int (length data') \<le> n then data' else truncate_utf8 data' (nat n)),
       rr_content_hash = content_hash r, rr_complete = (int (length data') \<le> n),
       rr_stopped_by = (if int (length data') \<le> n then None else Some MAX_BYTES)\<rparr>"
    have "data' = data" using a(1) r(6) injD [OF E(2)] by (simp add: sha256_def)
    then show ?thesis using a(2) r(3,6) n body by simp
  qed
  then show ?thesis using r(4,5) by blast
qed

section \<open>Selecting\<close>

lemma under_prefix_True: "under_prefix pfx path = Inr True \<longleftrightarrow> pfx = [] \<or> valid_path path \<and> valid_path pfx \<and> path_within path pfx"
  by (auto simp: under_prefix_def path_is_within_prefix_Inr)

text \<open>The entries of a user under a prefix, and the files that the catalogue does not know.\<close>

definition listed_entry :: "str \<Rightarrow> str \<Rightarrow> db \<Rightarrow> entry \<Rightarrow> bool" where
  "listed_entry user pfx d e \<longleftrightarrow>
     (\<exists>r \<in> set (entry_rows d). row_user r = user \<and> under_prefix pfx (entry_path r) = Inr True \<and> e = entry_from_row r)"

definition unknown_file :: "env \<Rightarrow> str \<Rightarrow> str \<Rightarrow> world \<Rightarrow> str \<Rightarrow> loc \<Rightarrow> bool" where
  "unknown_file E user pfx w p l \<longleftrightarrow>
     (\<exists>files. disk_files_under_prefix E user pfx (w_fs w) = Inr files \<and> (p, l) \<in> set files) \<and> stat E user p w = Inr None"

lemma entries_under_prefix_set:
  "entries_under_prefix user pfx d = Inr es \<Longrightarrow> e \<in> set es \<longleftrightarrow> listed_entry user pfx d e"
  by (auto simp: entries_under_prefix_def listed_entry_def dest!: filterE_Inr)

lemma disk_file_Inr:
  assumes "disk_file fs user_dir pfx candidate = Inr (Some (p, l))"
  shows "l = candidate \<and> is_file fs l \<and> logical_tree_path (drop (length user_dir) l) = Some p \<and> under_prefix pfx p = Inr True"
  using assms by (auto simp: disk_file_def split: if_splits option.splits)

lemma disk_files_mem:
  assumes "disk_files_under_prefix E user pfx fs = Inr files" "(p, l) \<in> set files"
  shows "is_file fs l \<and> under_prefix pfx p = Inr True"
proof -
  obtain user_dir cands opts where "mapE (disk_file fs user_dir pfx) cands = Inr opts" "files = List.map_filter id opts"
    using assms by (auto simp: disk_files_under_prefix_def simp del: mapE.simps split: if_splits)
  then have opts: "mapE (disk_file fs user_dir pfx) cands = Inr opts" "Some (p, l) \<in> set opts"
    using assms(2) by (auto simp: List.map_filter_def)
  obtain i where "i < length opts" "opts ! i = Some (p, l)" using opts(2) by (auto simp: in_set_conv_nth)
  then have "disk_file fs user_dir pfx (cands ! i) = Inr (Some (p, l))"
    using mapE_Inr_nth [OF opts(1)] mapE_Inr_length [OF opts(1)] by simp
  then show ?thesis using disk_file_Inr by blast
qed

section \<open>The loops of listings\<close>

definition well_keyed :: "listing \<Rightarrow> bool" where
  "well_keyed l \<longleftrightarrow> distinct (map fst l) \<and> (\<forall>(p, e) \<in> set l. de_path e = p)"

text \<open>What \<open>ls\<close> and \<open>tree\<close> rely on: a path adds its keys and keeps the listing well keyed.\<close>

locale listing_step =
  fixes add :: adder and keys_of :: "str \<Rightarrow> str set"
  assumes step: "add path leaf l = Inr l' \<Longrightarrow> (\<And>p e. leaf p = Inr e \<Longrightarrow> de_path e = p) \<Longrightarrow> well_keyed l \<Longrightarrow>
    well_keyed l' \<and> fst ` set l' = fst ` set l \<union> keys_of path"
begin

lemma entries:
  assumes "scan_entries E user fs add es (l, m) = Inr (l', m')" "well_keyed l"
  shows "well_keyed l' \<and>
    fst ` set l' = fst ` set l \<union> (\<Union>e \<in> {e \<in> set es. entry_present E user fs e = Inr True}. keys_of (entry_path e)) \<and>
    m' = (m \<or> (\<exists>e \<in> set es. entry_present E user fs e = Inr False)) \<and> (\<forall>e \<in> set es. \<exists>b. entry_present E user fs e = Inr b)"
  using assms
proof (induction es arbitrary: l m)
  case (Cons e es)
  then obtain b where b: "entry_present E user fs e = Inr b" by auto
  show ?case
  proof (cases b)
    case True
    then obtain l1 where l1: "add (entry_path e) (\<lambda>p. Inr (file_entry p e)) l = Inr l1"
      "scan_entries E user fs add es (l1, m) = Inr (l', m')" using Cons.prems(1) b by auto
    have leaf: "Inr (file_entry p e) = Inr x \<Longrightarrow> de_path x = p" for p x by (auto simp: file_entry_def)
    have "well_keyed l1" "fst ` set l1 = fst ` set l \<union> keys_of (entry_path e)"
      using step [OF l1(1) leaf Cons.prems(2)] by simp_all
    then show ?thesis using Cons.IH [OF l1(2)] b True by auto
  next
    case False
    then show ?thesis using Cons.IH [of l True] Cons.prems b by auto
  qed
qed simp

lemma disk:
  assumes "scan_disk E user w add files (l, m) = Inr (l', m')" "well_keyed l"
  shows "well_keyed l' \<and>
    fst ` set l' = fst ` set l \<union> (\<Union>(p, _) \<in> {f \<in> set files. stat E user (fst f) w = Inr None}. keys_of p) \<and>
    m' = (m \<or> (\<exists>f \<in> set files. stat E user (fst f) w = Inr None))"
  using assms
proof (induction files arbitrary: l m)
  case (Cons f files)
  obtain p place where f: "f = (p, place)" by (cases f)
  obtain known where known: "stat E user p w = Inr known" using Cons.prems(1) by (auto simp: f)
  show ?case
  proof (cases known)
    case None
    then obtain l1 where l1: "add p (\<lambda>q. disk_directory_entry (w_fs w) q place) l = Inr l1"
      "scan_disk E user w add files (l1, True) = Inr (l', m')" using Cons.prems(1) known by (auto simp: f)
    have leaf: "disk_directory_entry (w_fs w) q place = Inr x \<Longrightarrow> de_path x = q" for q x
      by (auto simp: disk_directory_entry_def)
    have "well_keyed l1" "fst ` set l1 = fst ` set l \<union> keys_of p"
      using step [OF l1(1) leaf Cons.prems(2)] by simp_all
    then show ?thesis using Cons.IH [OF l1(2)] known None by (auto simp: f)
  next
    case (Some e)
    then show ?thesis using Cons.IH [of l m] Cons.prems known by (auto simp: f)
  qed
qed simp

text \<open>The whole listing: its keys are those of the entries that are there and of the unknown files.\<close>

lemma scanned:
  assumes "scan E user pfx add w = Inr (l, m)"
  shows "well_keyed l"
    and "fst ` set l = (\<Union>e \<in> {e. listed_entry user pfx (w_db w) e \<and> entry_present E user (w_fs w) e = Inr True}. keys_of (entry_path e))
      \<union> (\<Union>p \<in> {p. \<exists>place. unknown_file E user pfx w p place}. keys_of p)"
    and "m = ((\<exists>e. listed_entry user pfx (w_db w) e \<and> entry_present E user (w_fs w) e = Inr False) \<or>
      (\<exists>p place. unknown_file E user pfx w p place))"
proof -
  obtain es l1 m1 files where s: "entries_under_prefix user pfx (w_db w) = Inr es"
    "scan_entries E user (w_fs w) add es ([], False) = Inr (l1, m1)"
    "disk_files_under_prefix E user pfx (w_fs w) = Inr files" "scan_disk E user w add files (l1, m1) = Inr (l, m)"
    using assms by (auto simp: scan_def)
  note es = entries_under_prefix_set [OF s(1)]
  have e: "well_keyed l1" "fst ` set l1 = (\<Union>e \<in> {e \<in> set es. entry_present E user (w_fs w) e = Inr True}. keys_of (entry_path e))"
    "m1 = (\<exists>e \<in> set es. entry_present E user (w_fs w) e = Inr False)"
    using entries [OF s(2)] by (auto simp: well_keyed_def)
  note d = disk [OF s(4) e(1)]
  show "well_keyed l" using d by simp
  show "fst ` set l = (\<Union>e \<in> {e. listed_entry user pfx (w_db w) e \<and> entry_present E user (w_fs w) e = Inr True}. keys_of (entry_path e))
      \<union> (\<Union>p \<in> {p. \<exists>place. unknown_file E user pfx w p place}. keys_of p)"
    using d e(2) es s(3) by (auto simp: unknown_file_def)
  have "(\<exists>f \<in> set files. stat E user (fst f) w = Inr None) \<longleftrightarrow> (\<exists>p place. unknown_file E user pfx w p place)"
    using s(3) by (force simp: unknown_file_def)
  then show "m = ((\<exists>e. listed_entry user pfx (w_db w) e \<and> entry_present E user (w_fs w) e = Inr False) \<or>
      (\<exists>p place. unknown_file E user pfx w p place))"
    using d e(3) es by auto
qed

end

section \<open>What ls and tree add\<close>

lemma set_default_keys [simp]: "fst ` set (set_default k v l) = insert k (fst ` set l)"
  by (auto simp: set_default_def map_of_eq_None_iff)

lemma well_keyed_set_default: "well_keyed l \<Longrightarrow> de_path v = k \<Longrightarrow> well_keyed (set_default k v l)"
  by (auto simp: well_keyed_def set_default_def map_of_eq_None_iff)


lemma well_keyed_update:
  assumes "well_keyed l" "de_path v = k"
  shows "well_keyed (AList.update k v l)" "fst ` set (AList.update k v l) = insert k (fst ` set l)"
proof -
  have d: "distinct (map fst l)" "distinct (map fst (AList.update k v l))"
    using assms(1) AList.distinct_update [of l k v] by (simp_all add: well_keyed_def)
  have "de_path e = p" if "(p, e) \<in> set (AList.update k v l)" for p e
  proof -
    have "map_of (AList.update k v l) p = Some e" using that d(2) by simp
    then have "p = k \<and> e = v \<or> (p, e) \<in> set l" using d(1) by (auto simp: update_conv' split: if_splits)
    then show ?thesis using assms by (auto simp: well_keyed_def)
  qed
  then show "well_keyed (AList.update k v l)" using d(2) by (auto simp: well_keyed_def)
  have "dom (map_of (AList.update k v l)) = insert k (dom (map_of l))" by (simp add: update_conv')
  then show "fst ` set (AList.update k v l) = insert k (fst ` set l)" by (simp add: dom_map_of_conv_image_fst)
qed

definition child_keys :: "str \<Rightarrow> str \<Rightarrow> str set" where
  "child_keys normalized path =
     (case relative_parts normalized path of [] \<Rightarrow> {} | first # _ \<Rightarrow> {join_relative normalized first})"

interpretation children: listing_step "add_child normalized" "child_keys normalized" for normalized
proof
  fix path leaf l l'
  assume a: "add_child normalized path leaf l = Inr l'" "\<And>p e. leaf p = Inr e \<Longrightarrow> de_path e = p" "well_keyed l"
  show "well_keyed l' \<and> fst ` set l' = fst ` set l \<union> child_keys normalized path"
  proof (cases "relative_parts normalized path")
    case Nil
    then show ?thesis using a by (simp add: add_child_def child_keys_def)
  next
    case (Cons first rest)
    let ?p = "join_relative normalized first"
    obtain e where "l' = AList.update ?p e l \<or> l' = set_default ?p e l" "de_path e = ?p"
      using a(1,2) Cons by (fastforce simp: add_child_def Let_def dir_entry_def split: if_splits)
    then have "well_keyed l' \<and> fst ` set l' = insert ?p (fst ` set l)"
      using well_keyed_update [OF a(3)] well_keyed_set_default [OF a(3)] set_default_keys by metis
    then show ?thesis using Cons by (simp add: child_keys_def)
  qed
qed

definition tree_keys :: "str \<Rightarrow> int option \<Rightarrow> str \<Rightarrow> str set" where
  "tree_keys pfx depth path =
     (if within_depth depth (length (relative_parts pfx path)) then {path} else {}) \<union>
     {q \<in> set (parents path). q \<noteq> pfx \<and> under_prefix pfx q = Inr True \<and> within_depth depth (length (relative_parts pfx q))}"

lemma add_parents_step:
  assumes "add_parents pfx depth ps l = Inr l'" "well_keyed l"
  shows "well_keyed l' \<and> fst ` set l' = fst ` set l \<union>
    {q \<in> set ps. q \<noteq> pfx \<and> under_prefix pfx q = Inr True \<and> within_depth depth (length (relative_parts pfx q))}"
  using assms
proof (induction ps arbitrary: l)
  case (Cons p ps)
  let ?in = "p \<noteq> pfx \<and> under_prefix pfx p = Inr True \<and> within_depth depth (length (relative_parts pfx p))"
  let ?l = "if ?in then set_default p (dir_entry p) l else l"
  have "add_parents pfx depth ps ?l = Inr l'" using Cons.prems(1) by (auto split: if_splits)
  moreover have "well_keyed ?l" using Cons.prems(2) by (auto simp: dir_entry_def intro: well_keyed_set_default)
  ultimately show ?case using Cons.IH [of ?l] by auto
qed simp

interpretation paths: listing_step "add_tree_path pfx depth" "tree_keys pfx depth" for pfx depth
proof
  fix path leaf l l'
  assume a: "add_tree_path pfx depth path leaf l = Inr l'" "\<And>p e. leaf p = Inr e \<Longrightarrow> de_path e = p" "well_keyed l"
  let ?in = "within_depth depth (length (relative_parts pfx path))"
  obtain l1 where l1: "(if ?in then bindE (leaf path) (\<lambda>e. Inr (AList.update path e l)) else Inr l) = Inr l1"
    "add_parents pfx depth (parents path) l1 = Inr l'" using a(1) by (auto simp: add_tree_path_def)
  have l2: "well_keyed l1 \<and> fst ` set l1 = fst ` set l \<union> (if ?in then {path} else {})"
  proof (cases ?in)
    case True
    then obtain e where "leaf path = Inr e" "l1 = AList.update path e l" using l1(1) by auto
    then show ?thesis using a(2,3) well_keyed_update [of l e path] True by simp
  qed (use l1(1) a(3) in simp)
  show "well_keyed l' \<and> fst ` set l' = fst ` set l \<union> tree_keys pfx depth path"
    using add_parents_step [OF l1(2) conjunct1 [OF l2]] l2 by (simp add: tree_keys_def Un_assoc)
qed

lemma bounded_listing_spec:
  assumes "well_keyed l" "0 < limit"
    and b_def: "b = bounded_listing E limit (l, m)"
  shows "distinct (map de_path (items b))" "sorted (map (\<lambda>i. e_casefold E (de_path i)) (items b))"
    "set (map de_path (items b)) \<subseteq> fst ` set l" "int (length (items b)) \<le> limit"
    "stopped_by b = Some LIMIT \<Longrightarrow> int (length (items b)) = limit \<and> \<not> complete b"
    "stopped_by b \<noteq> Some LIMIT \<Longrightarrow> set (map de_path (items b)) = fst ` set l \<and> complete b = (\<not> m)"
    "complete b \<longleftrightarrow> stopped_by b = None"
proof -
  let ?s = "sort_key (\<lambda>(path, _). e_casefold E path) l"
  have p: "map de_path (map snd ?s) = map fst ?s"
    using assms(1) by (auto simp: well_keyed_def)
  have i: "items b = (if int (length l) > limit then take (nat limit) (map snd ?s) else map snd ?s)"
    by (simp add: b_def bounded_listing_def)
  have ip: "map de_path (items b) = (if int (length l) > limit then take (nat limit) (map fst ?s) else map fst ?s)"
  proof (cases "int (length l) > limit")
    case True
    then show ?thesis unfolding i p [symmetric] by (simp only: if_True take_map)
  next
    case False
    then show ?thesis unfolding i p [symmetric] by (simp only: if_False)
  qed
  have d: "distinct (map fst ?s)" 
  proof -
    have "mset (map fst ?s) = mset (map fst l)" by simp
    then show ?thesis using assms(1) mset_eq_imp_distinct_iff by (auto simp only: well_keyed_def)
  qed
  show "distinct (map de_path (items b))" using d by (simp add: ip)
  have "map (\<lambda>i. e_casefold E (de_path i)) (map snd ?s) = map (\<lambda>(path, _). e_casefold E path) ?s"
    using assms(1) by (auto simp: well_keyed_def)
  moreover have "sorted (map (\<lambda>(path, _). e_casefold E path) ?s)" by (rule sorted_sort_key)
  ultimately have so: "sorted (map (\<lambda>i. e_casefold E (de_path i)) (map snd ?s))" by (simp only:)
  have "sorted (take n (map (\<lambda>i. e_casefold E (de_path i)) (map snd ?s)))" for n by (rule sorted_wrt_take [OF so])
  then show "sorted (map (\<lambda>i. e_casefold E (de_path i)) (items b))"
    using so unfolding i by (simp only: take_map split: if_split) blast
  have s: "set (map fst ?s) = fst ` set l" by simp
  show "set (map de_path (items b)) \<subseteq> fst ` set l" unfolding ip using s by (auto dest: in_set_takeD)
  show "int (length (items b)) \<le> limit" using assms(2) by (auto simp: i)
  show "stopped_by b = Some LIMIT \<Longrightarrow> int (length (items b)) = limit \<and> \<not> complete b"
    using assms(2) by (auto simp: b_def bounded_listing_def Let_def split: if_splits)
  show "stopped_by b \<noteq> Some LIMIT \<Longrightarrow> set (map de_path (items b)) = fst ` set l \<and> complete b = (\<not> m)"
    unfolding ip using s by (auto simp: b_def bounded_listing_def Let_def split: if_splits)
  show "complete b \<longleftrightarrow> stopped_by b = None" by (auto simp: b_def bounded_listing_def Let_def split: if_splits)
qed

section \<open>Listings\<close>

definition on_disk :: "env \<Rightarrow> str \<Rightarrow> str \<Rightarrow> world \<Rightarrow> str \<Rightarrow> bool" where
  "on_disk E user pfx w p \<longleftrightarrow>
     (\<exists>e. listed_entry user pfx (w_db w) e \<and> entry_present E user (w_fs w) e = Inr True \<and> entry_path e = p) \<or>
     (\<exists>place. unknown_file E user pfx w p place)"

definition catalog_differs :: "env \<Rightarrow> str \<Rightarrow> str \<Rightarrow> world \<Rightarrow> bool" where
  "catalog_differs E user pfx w \<longleftrightarrow>
     (\<exists>e. listed_entry user pfx (w_db w) e \<and> entry_present E user (w_fs w) e = Inr False) \<or>
     (\<exists>p place. unknown_file E user pfx w p place)"

text \<open>A page of the items whose paths are \<open>K\<close>: in order, without repetition, all of them if not cut.\<close>

definition page_of :: "env \<Rightarrow> int \<Rightarrow> str set \<Rightarrow> bool \<Rightarrow> directory_entry bounded \<Rightarrow> bool" where
  "page_of E limit K differs b \<longleftrightarrow>
     distinct (map de_path (items b)) \<and> sorted (map (\<lambda>i. e_casefold E (de_path i)) (items b)) \<and>
     set (map de_path (items b)) \<subseteq> K \<and> int (length (items b)) \<le> limit \<and> (complete b \<longleftrightarrow> stopped_by b = None) \<and>
     (if stopped_by b = Some LIMIT then int (length (items b)) = limit
      else set (map de_path (items b)) = K \<and> complete b = (\<not> differs))"

lemma bounded_listing_page:
  "well_keyed l \<Longrightarrow> 0 < limit \<Longrightarrow> page_of E limit (fst ` set l) m (bounded_listing E limit (l, m))"
  using bounded_listing_spec [of l limit _ E m] by (simp add: page_of_def)

lemma ls_page:
  assumes "ls E user path limit w = Inr b"
  shows "page_of E limit (\<Union>p \<in> {p. on_disk E user path w p}. child_keys path p) (catalog_differs E user path w) b"
proof -
  obtain l m where s: "scan E user path (add_child path) w = Inr (l, m)" "b = bounded_listing E limit (l, m)" "0 < limit"
    using assms by (auto simp: ls_def optional_prefix_def split: if_splits)
  have "fst ` set l = (\<Union>p \<in> {p. on_disk E user path w p}. child_keys path p)"
    unfolding children.scanned(2) [OF s(1)] on_disk_def by blast
  then show ?thesis
    using bounded_listing_page [OF children.scanned(1) [OF s(1)] s(3), of E m] children.scanned(3) [OF s(1)]
    by (simp add: s(2) catalog_differs_def)
qed

lemma tree_page:
  assumes "tree E user pfx depth limit w = Inr b"
  shows "page_of E limit (\<Union>p \<in> {p. on_disk E user pfx w p}. tree_keys pfx depth p) (catalog_differs E user pfx w) b"
proof -
  obtain l m where s: "scan E user pfx (add_tree_path pfx depth) w = Inr (l, m)" "b = bounded_listing E limit (l, m)" "0 < limit"
    using assms by (auto simp: tree_def optional_prefix_def split: if_splits)
  have "fst ` set l = (\<Union>p \<in> {p. on_disk E user pfx w p}. tree_keys pfx depth p)"
    unfolding paths.scanned(2) [OF s(1)] on_disk_def by blast
  then show ?thesis
    using bounded_listing_page [OF paths.scanned(1) [OF s(1)] s(3), of E m] paths.scanned(3) [OF s(1)]
    by (simp add: s(2) catalog_differs_def)
qed

section \<open>glob\<close>

text \<open>The entries that a pattern selects, in the order of the catalogue, up to the limit.\<close>

definition glob_hits :: "env \<Rightarrow> str \<Rightarrow> str list \<Rightarrow> fs \<Rightarrow> entry list \<Rightarrow> directory_entry list" where
  "glob_hits E user parts fs es = map (\<lambda>e. file_entry (entry_path e) e)
     (filter (\<lambda>e. entry_present E user fs e = Inr True \<and> glob_matches parts (pure_parts (entry_path e))) es)"

lemma glob_entries_spec:
  assumes "glob_entries E user parts limit fs es ms mm = Inr (ms', mm', stopped)" "int (length ms) < limit"
  shows "prefix ms' (ms @ glob_hits E user parts fs es) \<and> prefix ms ms' \<and>
    (if stopped then int (length ms') = limit
     else int (length ms') < limit \<and> ms' = ms @ glob_hits E user parts fs es \<and>
       mm' = (mm \<or> (\<exists>e \<in> set es. entry_present E user fs e = Inr False)))"
  using assms
proof (induction es arbitrary: ms mm)
  case (Cons e es)
  obtain present where p: "entry_present E user fs e = Inr present" using Cons.prems(1) by auto
  let ?hit = "present \<and> glob_matches parts (pure_parts (entry_path e))"
  let ?ms = "if ?hit then ms @ [file_entry (entry_path e) e] else ms"
  have h: "ms @ glob_hits E user parts fs (e # es) = ?ms @ glob_hits E user parts fs es"
    using p by (auto simp: glob_hits_def)
  have ms: "prefix ms ?ms" by simp
  show ?case
  proof (cases "?hit \<and> int (length ?ms) \<ge> limit")
    case True
    then have "ms' = ?ms" "stopped" using Cons.prems(1) p by (auto simp: Let_def)
    moreover have "int (length ?ms) = limit" using True Cons.prems(2) by (simp split: if_splits)
    ultimately show ?thesis unfolding h using ms by simp
  next
    case False
    have r: "glob_entries E user parts limit fs es ?ms (mm \<or> \<not> present) = Inr (ms', mm', stopped)"
      using Cons.prems(1) p False by (auto simp: Let_def split: if_splits)
    have "int (length ?ms) < limit" using False Cons.prems(2) by auto
    from Cons.IH [OF r this] show ?thesis
      unfolding h using ms p prefix_order.trans [OF ms] by (auto split: if_splits)
  qed
qed (simp add: glob_hits_def)

lemma glob_disk_spec:
  assumes "glob_disk E user parts limit w files ms mm = Inr (ms', mm', stopped)" "int (length ms) < limit"
  shows "prefix ms ms' \<and>
    (\<forall>i \<in> set ms'. i \<in> set ms \<or> (\<exists>(p, l) \<in> set files. stat E user p w = Inr None \<and> glob_matches parts (pure_parts p) \<and>
       disk_directory_entry (w_fs w) p l = Inr i)) \<and>
    (if stopped then int (length ms') = limit
     else int (length ms') < limit \<and> mm' = (mm \<or> (\<exists>(p, l) \<in> set files. stat E user p w = Inr None)) \<and>
       (\<forall>(p, l) \<in> set files. stat E user p w = Inr None \<longrightarrow> glob_matches parts (pure_parts p) \<longrightarrow> p \<in> de_path ` set ms'))"
  using assms
proof (induction files arbitrary: ms mm)
  case (Cons f files)
  obtain p l where f: "f = (p, l)" by (cases f)
  obtain known where known: "stat E user p w = Inr known" using Cons.prems(1) by (auto simp: f)
  consider "known \<noteq> None" | "known = None" "\<not> glob_matches parts (pure_parts p)" | "known = None" "glob_matches parts (pure_parts p)"
    by blast
  then show ?case
  proof cases
    case 1
    then show ?thesis using Cons.IH [of ms mm] Cons.prems known by (auto simp: f)
  next
    case 2
    then show ?thesis using Cons.IH [of ms True] Cons.prems known by (auto simp: f)
  next
    case 3
    then obtain e where e: "disk_directory_entry (w_fs w) p l = Inr e" using Cons.prems(1) known by (auto simp: f)
    have pe: "de_path e = p" using e by (auto simp: disk_directory_entry_def)
    show ?thesis
    proof (cases "int (length (ms @ [e])) \<ge> limit")
      case True
      then have "ms' = ms @ [e]" "stopped" using Cons.prems(1) known 3 e by (auto simp: f Let_def)
      then show ?thesis using True Cons.prems(2) known 3 e by (auto simp: f)
    next
      case False
      then have r: "glob_disk E user parts limit w files (ms @ [e]) True = Inr (ms', mm', stopped)"
        using Cons.prems(1) known 3 e by (auto simp: f Let_def)
      have I: "prefix (ms @ [e]) ms'" "\<forall>i \<in> set ms'. i \<in> set (ms @ [e]) \<or> (\<exists>(p, l) \<in> set files. stat E user p w = Inr None \<and>
          glob_matches parts (pure_parts p) \<and> disk_directory_entry (w_fs w) p l = Inr i)"
        "if stopped then int (length ms') = limit
         else int (length ms') < limit \<and> mm' \<and>
           (\<forall>(p, l) \<in> set files. stat E user p w = Inr None \<longrightarrow> glob_matches parts (pure_parts p) \<longrightarrow> p \<in> de_path ` set ms')"
        using Cons.IH [OF r] False by auto
      have "e \<in> set ms'" using set_mono_prefix [OF I(1)] by auto
      then have "p \<in> de_path ` set ms'" using pe by force
      moreover have "prefix ms ms'" using I(1) by (metis append_prefixD)
      ultimately show ?thesis using I(2,3) known 3 e by (auto simp: f)
    qed
  qed
qed auto

lemma glob_page:
  assumes "glob E user pat pfx limit w = Inr b"
  obtains parts where "validate_glob_pattern pat = Inr parts"
    "\<forall>i \<in> set (items b). glob_matches parts (pure_parts (de_path i)) \<and> on_disk E user pfx w (de_path i)"
    "int (length (items b)) \<le> limit" "complete b \<longleftrightarrow> stopped_by b = None"
    "if stopped_by b = Some LIMIT then int (length (items b)) = limit
     else complete b = (\<not> catalog_differs E user pfx w) \<and>
       (\<forall>p. on_disk E user pfx w p \<longrightarrow> glob_matches parts (pure_parts p) \<longrightarrow> p \<in> de_path ` set (items b))"
proof -
  obtain parts es found found' where f: "validate_glob_pattern pat = Inr parts" "entries_under_prefix user pfx (w_db w) = Inr es"
    "glob_entries E user parts limit (w_fs w) es [] False = Inr found" "0 < limit"
    "glob_unknown E user parts pfx limit w found = Inr found'" "b = glob_result found'"
    using assms by (auto simp: glob_def optional_prefix_def simp del: glob_unknown.simps glob_result.simps split: if_splits)
  obtain ms mm stopped where found: "found = (ms, mm, stopped)" by (cases found)
  obtain ms' mm' stopped' where found': "found' = (ms', mm', stopped')" by (cases found')
  note s = f(1-4) [unfolded found]
  have es: "e \<in> set es \<longleftrightarrow> listed_entry user pfx (w_db w) e" for e by (rule entries_under_prefix_set [OF s(2)])
  have g: "prefix ms (glob_hits E user parts (w_fs w) es)" "if stopped then int (length ms) = limit
     else int (length ms) < limit \<and> ms = glob_hits E user parts (w_fs w) es \<and>
       mm = (\<exists>e \<in> set es. entry_present E user (w_fs w) e = Inr False)"
    using glob_entries_spec [OF s(3)] s(4) by (auto split: if_splits)
  have "glob_matches parts (pure_parts (de_path i)) \<and> on_disk E user pfx w (de_path i)" if "i \<in> set ms" for i
  proof -
    have "i \<in> set (glob_hits E user parts (w_fs w) es)" using that set_mono_prefix [OF g(1)] by blast
    then show ?thesis using es by (auto simp: glob_hits_def on_disk_def file_entry_def)
  qed
  note hits = this
  show thesis
  proof (cases stopped)
    case True
    then show ?thesis using that [OF s(1)] f(5,6) found g hits by auto
  next
    case False
    then obtain files where d: "disk_files_under_prefix E user pfx (w_fs w) = Inr files"
        "glob_disk E user parts limit w files ms mm = Inr (ms', mm', stopped')" using f(5) found found' by auto
    have l: "int (length ms) < limit" using g(2) unfolding if_not_P [OF False] by (rule conjunct1)
    have D: "prefix ms ms'" "\<And>i. i \<in> set ms' \<Longrightarrow> i \<in> set ms \<or> (\<exists>(p, l) \<in> set files. stat E user p w = Inr None \<and>
         glob_matches parts (pure_parts p) \<and> disk_directory_entry (w_fs w) p l = Inr i)"
      "if stopped' then int (length ms') = limit
       else int (length ms') < limit \<and> mm' = (mm \<or> (\<exists>(p, l) \<in> set files. stat E user p w = Inr None)) \<and>
         (\<forall>(p, l) \<in> set files. stat E user p w = Inr None \<longrightarrow> glob_matches parts (pure_parts p) \<longrightarrow> p \<in> de_path ` set ms')"
      using glob_disk_spec [OF d(2) l] by auto
    have u: "unknown_file E user pfx w p l \<longleftrightarrow> (p, l) \<in> set files \<and> stat E user p w = Inr None" for p l
      using d(1) by (auto simp: unknown_file_def)
    have items: "glob_matches parts (pure_parts (de_path i)) \<and> on_disk E user pfx w (de_path i)" if "i \<in> set ms'" for i
      using D(2) [OF that] hits u by (fastforce simp: disk_directory_entry_def on_disk_def)
    have differs: "catalog_differs E user pfx w = mm'" if "\<not> stopped'"
      using D(3) g(2) that False es u by (auto simp: catalog_differs_def)
    have all: "p \<in> de_path ` set ms'" if a: "\<not> stopped'" "on_disk E user pfx w p" "glob_matches parts (pure_parts p)" for p
    proof (cases "\<exists>l. unknown_file E user pfx w p l")
      case True
      then show ?thesis using D(3) a u by auto
    next
      case no: False
      then obtain e where "e \<in> set es" "entry_present E user (w_fs w) e = Inr True" "entry_path e = p"
        using a(2) es by (auto simp: on_disk_def)
      then have "file_entry p e \<in> set ms" using g(2) False a(3) by (auto simp: glob_hits_def)
      then have "file_entry p e \<in> set ms'" using set_mono_prefix [OF D(1)] by blast
      then show ?thesis by (rule rev_image_eqI) (simp add: file_entry_def)
    qed
    show ?thesis
      by (rule that [OF s(1)]) (use f(6) found' D(3) items differs all in \<open>auto split: if_splits\<close>)
  qed
qed

end
