(* ===== verification/SelfMoves.thy ===== *)
theory SelfMoves
  imports Writers
begin

text \<open>
  What \<open>_move_batch\<close> of \<open>src/ctxfs/store.py\<close> does with a move of an entry to the path it already
  has: the destination forms a cycle of one, \<open>_break_move_cycles\<close> parks the file, and the loop that
  moves files skips the entry because its path does not change, so that the file is never put back.
\<close>

lemma move_cycles_self: "move_cycles [(p, p)] = [[p]]"
  by (simp add: move_cycles_def follow_moves.simps)

text \<open>Parking the file of a live location.\<close>

lemma park_file:
  assumes E: "env_ok E user h" and J: "journal E user h s0 w" and live: "live_loc h l" and i: "fm (w_fs w) l = Some i"
    and nb: "\<not> backup_loc l" and run: "bindS (undo_path E ''cycle'') (\<lambda>t. bindS (fresh_uuid E) (\<lambda>u.
       bindS (rename_tree_file E user l t) (\<lambda>_. ret (t, u)))) w = (Inr x, w')"
  shows "journal E user h s0 w' \<and> w_db w' = w_db w \<and> fm (w_fs w') l = None"
proof -
  let ?k = "w_uuids w"
  let ?temp = "[undo_dir, lit ''cycle'' @ lit ''-'' @ e_uuid E ?k]"
  have ok: "fs_ok E h ?k (w_fs w)" using J by (simp add: journal_def)
  obtain s1 where s1: "undo_path E ''cycle'' w = (Inr ?temp, w\<lparr>w_fs := s1, w_uuids := Suc ?k\<rparr>)"
    "wf_fs s1" "fm s1 = fm (w_fs w)" "idata s1 = idata (w_fs w)" "next_ino s1 = next_ino (w_fs w)"
    "look s1 [undo_dir] = Some Dir" "\<And>q. look s1 q = Some Dir \<longleftrightarrow> look (w_fs w) q = Some Dir \<or> q = [undo_dir]"
    by (rule undo_path_run [OF refl refl ok, of "''cycle''"]) (rule that)
  let ?w1 = "w\<lparr>w_fs := s1, w_uuids := Suc (Suc ?k)\<rparr>"
  have inj: "inj (e_uuid E)" using E by (simp add: env_ok_def)
  have wf: "wf_fs (w_fs w)" using ok by (simp add: fs_ok_def)
  have "fs_ok E h (Suc (Suc ?k)) s1" by (rule fs_ok_grow_dirs [OF inj ok s1(2) _ s1(3)]) (use s1(7) in auto)
  moreover have "fle [users_dir, h] s1 (w_fs w)"
    by (rule fle_grow_dirs [OF wf s1(2,3,4)]) (use s1(7) in auto)
  ultimately have J1: "journal E user h s0 ?w1" by (intro journal_same [OF J]) auto
  have ut: "uuid_loc E h ?k ?temp" by (auto simp: uuid_loc_def)
  have pt: "parked_loc ?temp" by (auto simp: parked_loc_def)
  have t0: "look (w_fs w) ?temp = None" using ok ut by (auto simp: fs_ok_def)
  then have ne: "l \<noteq> ?temp" using i by (auto simp: fm_Some_iff)
  have tgt: "strict_prefix [users_dir, h] ?temp \<or> (\<exists>n < w_uuids ?w1. uuid_loc E h n ?temp)" using ut less_Suc_eq by auto
  have nd: "look (w_fs ?w1) l \<noteq> Some Dir" using i s1(3) fm_None_iff [of s1 l] by auto
  obtain r1 where ren: "rename_tree_file E user l ?temp ?w1 = (Inr r1, w')"
    using run s1(1) by (auto simp: bindS_def act_simps fresh_uuid_def split: sum.splits prod.splits)
  show ?thesis
    using rename_tree_file_run [OF E J1 live parked_live [OF pt] tgt ne nd ren] nb ne by (auto simp: same_rest_def)
qed


text \<open>A batch of one such move, and the submission of it.\<close>

lemma self_move_batch:
  assumes E: "env_ok E user h" and W: "working E user h s0 w"
    and r: "r \<in> set (entry_rows (w_db w))" "row_user r = user" "row_writer r = writer"
    and m: "move_source_key m = entry_source_key r" "move_path m = entry_path r"
    and run: "move_batch E user writer [m] w = (Inr u, w')"
  shows "journal E user h s0 w' \<and> fm (w_fs w') (tree_at h (entry_path r)) = None \<and>
    (\<exists>q \<in> set (entry_rows (w_db w')). ident q = ident r \<and> entry_path q = entry_path r \<and> content_hash q = content_hash r)"
proof -
  let ?p = "entry_path r" and ?l = "tree_at h (entry_path r)" and ?k = "entry_source_key r"
  have J: "journal E user h s0 w" and ro: "rows_ok E user h (w_db w) (w_fs w)" using W by (simp_all add: working_def)
  have keys: "keys_ok (entry_rows (w_db w))" using ro by (simp add: rows_ok_def)
  have good: "good_path ?p" using rows_okD(1) [OF ro r(1,2)] .
  obtain i where i: "fm (w_fs w) ?l = Some i" using rows_okD(2) [OF ro r(1,2)] by (auto simp: backed_def)
  have ex: "fs_exists (w_fs w) ?l" using i by (simp add: fs_exists_def fm_Some_iff)
  have src: "row_by_source_key user writer ?k (w_db w) = Some r"
    using r by (simp add: row_by_source_key_Some [OF keys] ident_def)
  define e where "e = entry_from_row r"
  have e: "entry_by_source_key user writer ?k (w_db w) = Some e" "entry_path e = ?p"
    by (simp_all add: entry_by_source_key_def src e_def)
  have tp: "tree_path E user ?p = Inr ?l" by (rule tree_path_good [OF E good])
  have np: "normalize_path ?p = Inr ?p" using good by (simp add: good_path_def normalize_path_valid)
  have v: "validated_move_entry user writer m (w_db w) = Inr e"
    using run by (auto simp: move_batch_def bindS_Inr_iff readE_Inr validated_move_entry_def m np e split: if_splits)
  have dup: "AList.update ?p x [] = [(?p, x)]" "AList.update ?k y [] = [(?k, y)]" for x :: "'b" and y :: "'c" by simp_all
  obtain t c v1 where park: "bindS (undo_path E ''cycle'') (\<lambda>t. bindS (fresh_uuid E) (\<lambda>c.
       bindS (rename_tree_file E user ?l t) (\<lambda>_. ret (t, c)))) w = (Inr (t, c), v1)"
    and rest: "bindS (park_row E user writer ?k (lit ''_ctxfs_cycle/'' @ c)) (\<lambda>_.
       move_one E user writer [(?k, e)] [(?p, t, lit ''_ctxfs_cycle/'' @ c)] m) v1 = (Inr u, w')"
    using run
    by (auto simp: move_batch_def bindS_Inr_iff readE_Inr liftE_Inr v m(1) m(2) np e(2) tp break_move_cycles_def
        move_cycles_self lookup_key_def act_simps ex Let_def)
  note p = park_file [OF E J tree_at_live [OF good] i _ park]
  have pk: "journal E user h s0 v1" "w_db v1 = w_db w" "fm (w_fs v1) ?l = None"
    using p live_not_backup [OF tree_at_live [OF good]] by blast+
  let ?same = "same_source user writer ?k"
  obtain t1 t2 q where w': "w_fs w' = w_fs v1" "w_uuids w' = w_uuids v1" "w_undo w' = w_undo v1" "w_cleanup w' = w_cleanup v1"
    "entry_rows (w_db w') = update_where ?same (\<lambda>r. r\<lparr>source_version := move_source_version m, updated_at := t2, entry_path := ?p\<rparr>)
      (update_where ?same (\<lambda>r. r\<lparr>updated_at := t1, entry_path := q\<rparr>) (entry_rows (w_db v1)))"
    using rest
    by (auto simp: park_row_def move_one_def move_file_def lookup_key_def m np e(2) now_def act_simps bindS_Inr_iff on_dbE_def
        update_entry_def liftE_Inr split: sum.splits if_splits)
  have s: "?same r" using r by (simp add: same_source_def)
  have "\<exists>q \<in> set (entry_rows (w_db w')). ident q = ident r \<and> entry_path q = ?p \<and> content_hash q = content_hash r"
    unfolding w'(5) pk(2) set_update_where image_image
    by (rule bexI [OF _ imageI [OF r(1)]]) (use s in \<open>simp add: same_source_def ident_def\<close>)
  moreover have "journal E user h s0 w'" using pk(1) w' by (simp add: journal_def)
  ultimately show ?thesis using pk(3) w'(1) by simp
qed

lemma self_move_submission:
  assumes E: "env_ok E user h" and ok: "store_ok E user h w"
    and r: "r \<in> set (entry_rows (w_db w))" "row_user r = user" "row_writer r = writer"
    and m: "move_source_key m = entry_source_key r" "move_path m = entry_path r"
    and run: "submit E user writer [Move m] w = (Inr s, w')"
  shows "contents (w_fs w') (tree_at h (entry_path r)) = None"
    "\<exists>q \<in> set (entry_rows (w_db w')). ident q = ident r \<and> entry_path q = entry_path r \<and> content_hash q = content_hash r"
    "\<exists>data. contents (w_fs w) (tree_at h (entry_path r)) = Some data \<and> content_hash r = sha256 E data"
proof -
  have ro: "rows_ok E user h (w_db w) (w_fs w)" using ok by (simp add: store_ok_def)
  have good: "good_path (entry_path r)" using rows_okD(1) [OF ro r(1,2)] .
  show "\<exists>data. contents (w_fs w) (tree_at h (entry_path r)) = Some data \<and> content_hash r = sha256 E data"
    using rows_okD(2) [OF ro r(1,2)] by (auto simp: backed_def contents_def)
  let ?Q = "contents (w_fs w') (tree_at h (entry_path r)) = None \<and>
    (\<exists>q \<in> set (entry_rows (w_db w')). ident q = ident r \<and> entry_path q = entry_path r \<and> content_hash q = content_hash r)"
  have ?Q using run
  proof (cases rule: submit_cases)
    case (applied d w2)
    note ins = insert_submission_keeps [OF applied(1)]
    have W: "working E user h (w_fs w) (submit_start w d)" by (rule submit_start_working [OF ok applied(1)])
    obtain u v where batch: "move_batch E user writer [m] (submit_start w d) = (Inr u, v)"
      and w2: "w_fs w2 = w_fs v" "w_cleanup w2 = w_cleanup v" "entry_rows (w_db w2) = entry_rows (w_db v)"
      using applied(2)
      by (auto simp: run_submission_def bindS_Inr_iff liftE_Inr readE_Inr transaction_Inr ordered_operations_def act_simps
          now_def on_db_def set_submission_def Let_def split: prod.splits)
    have rd: "r \<in> set (entry_rows (w_db (submit_start w d)))" using r(1) ins(1) by (simp add: submit_start_def)
    note b = self_move_batch [OF E W rd r(2,3) m batch]
    obtain es t where t: "run_all (map (run_cleanup E user) (w_cleanup w2)) (w_fs w2) = (es, t)" by force
    have "pruned (w_fs w2) t"
      by (rule run_all_cleanup_pruned [OF _ _ t]) (use b w2 in \<open>auto simp: journal_def fs_ok_def\<close>)
    moreover have "w' = w2\<lparr>w_fs := t\<rparr>" using applied(3) t by (simp add: cleanup_run)
    moreover have "fm (w_fs w2) (tree_at h (entry_path r)) = None" using b w2(1) by simp
    ultimately have "fm t (tree_at h (entry_path r)) = None" unfolding pruned_def by metis
    then show ?thesis using b w2(3) \<open>w' = w2\<lparr>w_fs := t\<rparr>\<close> by (auto simp: contents_def)
  qed simp_all
  then show "contents (w_fs w') (tree_at h (entry_path r)) = None"
    "\<exists>q \<in> set (entry_rows (w_db w')). ident q = ident r \<and> entry_path q = entry_path r \<and> content_hash q = content_hash r"
    by blast+
qed

end
