(* ===== verification/Spec2Isabelle.thy ===== *)
theory Spec2Isabelle
  imports DemoVault Reading SelfMoves
begin

text \<open>
  A verification library of ctxfs, the store of ctxd: the package \<open>src/ctxfs\<close> and the server that
  publishes it, \<open>src/ctxd/local_ctxfs_server.py\<close>.

  The program. Writers submit batches of operations (put, move, delete, decision) on entries, which are
  texts at logical paths. The store keeps a catalogue in SQLite and the texts as files of a tree; a
  submission changes both, and an undo journal rolls the tree back when it fails. A writer may write
  within the prefixes registered for it, and no two writers share one. Submissions are applied at once or
  queued and applied by a drain; management removes a prefix, an integration or a user. Readers list,
  read and search; what they are given is checked against the digests of the catalogue. The server
  authenticates requests by credentials, which it issues, rotates, revokes and binds to the machines of
  the catalogue, authorizes them by scopes and prefixes, and calls the store.

  The theories, in the order of their imports.

  \<^item> \<open>Prelude\<close>: the exceptions of the code as values (\<open>exn\<close>), results (\<open>'a res\<close>, an error or a value),
    actions (\<open>('w, 'a) act\<close>, a result and the next state), loops over lists in these, and \<open>hoare\<close>.
    Texts are lists of code points, bytes are words of 8 bits.
  \<^item> \<open>PyText\<close>: UTF-8 and the string functions of Python that the code uses, and those of \<open>store.py\<close> that
    only work on text (\<open>_normalize_text\<close>, \<open>_truncate_utf8\<close>, \<open>_line_count\<close>).
  \<^item> \<open>Paths\<close>: the path policies of \<open>store.py\<close> and \<open>auth.py\<close>, glob patterns, the names of the tree.
  \<^item> \<open>Models\<close>: the classes of \<open>models.py\<close> with their validators.
  \<^item> \<open>FileSystem\<close>: directories, files and hard links as the code uses them. \<open>Database\<close>: the rows of the
    tables, the SQL the code uses on them, and \<open>world\<close>, the state of a store: the tables, the files, the
    numbers of UUIDs drawn and of clock readings, and the undo and cleanup stacks.
  \<^item> \<open>TreeOps\<close>: the changes of the tree with their undo callbacks, rollback and cleanup. \<open>Submit\<close>:
    \<open>register_prefix\<close>, the four operations, their ordering and preflight, and \<open>submit\<close>.
  \<^item> \<open>Journal\<close>: the undo steps of every change restore the tree. \<open>Apply\<close>: every operation keeps the
    invariant that each entry has its file. \<open>Submission\<close>: whole submissions. \<open>Writers\<close>: who may write
    what, and \<open>history\<close>, the stores reached by registrations and submissions. \<open>SelfMoves\<close>: a move of an
    entry to its own path.
  \<^item> \<open>Reads\<close>: \<open>stat\<close>, \<open>ls\<close>, \<open>tree\<close>, \<open>glob\<close>, \<open>read\<close>, \<open>read_lines\<close> and the status of a writer. \<open>Reading\<close>: what
    they return.
  \<^item> \<open>Codec\<close>: Base64 and \<open>json.loads\<close>. \<open>Cursor\<close>: continuation cursors and their round trip. \<open>Search\<close>:
    \<open>grep\<close> over the output of ripgrep. \<open>Searching\<close>: matches are genuine, and how the output is cut into
    chunks does not matter. \<open>PageLimits\<close>: a page keeps to its limit and can be resumed when it has a
    cursor. \<open>Paging\<close>: pages join. \<open>SearchTool\<close>: the searches of the MCP tool.
  \<^item> \<open>Catalog\<close>: machines and tracked folders. \<open>Registry\<close>: registration returns, is idempotent, and keeps
    the catalogue consistent.
  \<^item> \<open>Service\<close>: the queue, the applier and the deletions of \<open>service.py\<close>. \<open>Management\<close>: what the
    deletions remove.
  \<^item> \<open>Auth\<close>: \<open>auth.py\<close>. \<open>Credentials\<close>: \<open>credentials.py\<close>. \<open>Json\<close>: \<open>json.dumps\<close>. \<open>Enrollment\<close>:
    \<open>enrollment.py\<close>. \<open>Keys\<close>: which tokens a history of the credential store accepts. \<open>Lifecycle\<close>: the
    credentials of machines.
  \<^item> \<open>Server\<close>: the endpoints of \<open>local_ctxfs_server.py\<close>, the MCP messages that reach them and the
    authentication around them. \<open>Serving\<close> and \<open>Gateway\<close>: whole requests.
  \<^item> \<open>Demo\<close>, \<open>DemoSearch\<close>, \<open>DemoVault\<close>: concrete stores, searches and credential stores, on which the
    properties below are instantiated.

  Interfaces are locales, each interpreted on the definitions that provide it: \<open>undo_log\<close> (\<open>Journal\<close>), a
  log of undo steps that restores a state; \<open>writer_relation\<close> (\<open>Submission\<close>), what every operation of a
  writer keeps of the catalogue, interpreted for its frame and for its keys; \<open>listing_step\<close> (\<open>Reading\<close>), a
  listing that is built up item by item, for \<open>ls\<close> and for \<open>tree\<close>; \<open>suffix_search\<close> (\<open>Catalog\<close>), the search for
  a free key, for machines and for folders; \<open>work_queue\<close> (\<open>Service\<close>), a queue that is drained.

  The groups of lemmas. Invariants: \<open>store_ok\<close> (each entry of the user has a valid path, a file at its
  location and the digest of its contents; keys are unique; nothing is at a location still to be drawn),
  \<open>writers_apart\<close>, \<open>catalog_ok\<close>, and those of the credential store. Refinements: \<open>fm\<close> and \<open>contents\<close> are
  the files as a reader sees them, and each operation of the tree is described by how it changes them;
  \<open>glob_matches\<close> against a declarative matcher; the two path policies against \<open>path_within\<close>. The
  properties C1 to C40 follow. Hypotheses say what is relied upon: \<open>env_ok\<close> (UUIDs are distinct and the
  user's directory has a name), and for single properties that digests or key derivation have no
  collisions.

  Fuel. The loops over key suffixes of \<open>register_machine\<close> and \<open>register_folder\<close> take fuel, and C15 proves
  that twice the number of rows and two is enough. \<open>json_loads\<close> gives its parser twice the length of the text
  and two, more than one unit for each value and each character. All other loops are total functions,
  the drain of the queue because each step takes a row from it, the walk along moves because it meets
  no path twice.

  Parameters. \<open>env\<close>: SHA-256, UUIDs, clock readings, NFKD and case folding. \<open>secret_source\<close>: random
  strings, salts and scrypt. \<open>ripgrep\<close>: whether and in which version it is installed, the chunks its
  output is read in for a pattern and a target, its exit codes, the clock and the results of \<open>stat\<close>.

  Not modelled.

  \<^item> Crashes, several processes or threads on one store, full disks, permissions and symbolic links; the
    migrations of old databases and of the legacy index.
  \<^item> Texts inside error messages that quote data: the model keeps the class and the fixed part.
  \<^item> Strings of operations other than texts and warnings hold no lone surrogates, because pydantic
    refuses them in fields with a minimal length; the error of SQLite for binding such strings is not
    modelled. The limit of SQLite for integers is, for \<open>retry_after_seconds\<close>.
  \<^item> Reading an entry or a decision from its row repeats the validators of the class on values the store
    itself has validated; the model takes the row as it is. Provenance is kept as it was given, not as
    the JSON text it is stored as.
  \<^item> The stored operations of the queue are kept as they were given; \<open>validate_operations_json\<close> is what
    parsing their JSON text yields. Other parsing by pydantic and FastAPI, the transport, and the
    serialization of responses are left out; a request is the value the framework passes on.
  \<^item> The nesting limit of the JSON parser, and the timings that a search only logs.
  \<^item> The tracker, the command line, the clients, the configuration, the key chain and the process
    control of \<open>src/ctxd\<close>.
\<close>

section \<open>Submissions\<close>

text \<open>
  C1. In a store in which every entry of the user has its file, a submission that fails and in which no
  move names the path its entry already has leaves no trace but its row: entries, decisions and prefixes
  are as before, and every location outside the backups and the objects has the same contents, whatever
  operation failed after however many others had changed the tree.
\<close>

theorem failed_submit_rolls_back:
  assumes "env_ok E user h" "store_ok E user h w" "no_self_moves user writer ops (w_db w)"
    and "submit E user writer ops w = (Inl e, w')"
  shows "entry_rows (w_db w') = entry_rows (w_db w) \<and> decision_rows (w_db w') = decision_rows (w_db w) \<and>
    prefix_rows (w_db w') = prefix_rows (w_db w) \<and>
    (\<forall>q. \<not> backup_loc q \<longrightarrow> \<not> prefix [objects_dir] q \<longrightarrow> contents (w_fs w') q = contents (w_fs w) q)"
  by (rule submit_guarantee(2) [OF assms refl])

text \<open>The second put fails after the first has replaced a file.\<close>

lemma failed_submit_witness:
  "\<exists>w'. submit demo_env (lit ''u'') (lit ''w'') [demo_put ''a'' ''d/c'' (lit ''C''), demo_put ''z'' ''d/z'' [55296]] demo_filled
      = (Inl (UnicodeError ''surrogates not allowed''), w') \<and>
    entry_rows (w_db w') = entry_rows (w_db demo_filled) \<and> contents (w_fs w') [] = contents (w_fs demo_filled) []"
proof -
  let ?ops = "[demo_put ''a'' ''d/c'' (lit ''C''), demo_put ''z'' ''d/z'' [55296]]"
  have "fst (submit demo_env (lit ''u'') (lit ''w'') ?ops demo_filled) = Inl (UnicodeError ''surrogates not allowed'')"
    by code_simp
  then obtain w' where w': "submit demo_env (lit ''u'') (lit ''w'') ?ops demo_filled
      = (Inl (UnicodeError ''surrogates not allowed''), w')" by (metis prod.collapse)
  have ns: "no_self_moves (lit ''u'') (lit ''w'') ?ops (w_db demo_filled)"
    by (simp add: no_self_moves_puts demo_put_def)
  show ?thesis using failed_submit_rolls_back [OF demo_env_ok demo_ok(4) ns w'] w' by (auto simp: backup_loc_def)
qed

text \<open>
  C2. In every store that is reached from the empty one by prefix registrations and by submissions in
  which no move names the path its entry already has, whether they succeed or fail, each entry of the
  user has a valid path, and the file at the location of that path exists and has the contents the
  entry's digest was taken of. (A move of an entry to its own path loses the file.)
\<close>

theorem reachable_store_complete:
  assumes "history E user w" "env_ok E user h" "r \<in> set (entry_rows (w_db w))" "row_user r = user"
  shows "valid_path (entry_path r) \<and> (\<exists>l data. tree_path E user (entry_path r) = Inr l \<and>
    contents (w_fs w) l = Some data \<and> content_hash r = sha256 E data)"
proof -
  have rows: "rows_ok E user h (w_db w) (w_fs w)" using history_ok [OF assms(1,2)] by (simp add: store_ok_def)
  have g: "good_path (entry_path r)" using rows_okD(1) [OF rows assms(3,4)] .
  then show ?thesis
    using rows_okD(2) [OF rows assms(3,4)] tree_path_good [OF assms(2) g]
    by (auto simp: backed_def contents_def good_path_def)
qed

lemma reachable_store_witness:
  "\<exists>l data. tree_path demo_env (lit ''u'') (entry_path (hd (entry_rows (w_db demo_filled)))) = Inr l \<and>
    contents (w_fs demo_filled) l = Some data"
proof -
  have "entry_rows (w_db demo_filled) \<noteq> []" "row_user (hd (entry_rows (w_db demo_filled))) = lit ''u''"
    by code_simp+
  then show ?thesis
    using reachable_store_complete [OF demo_filled_history demo_env_ok, of "hd (entry_rows (w_db demo_filled))"] by auto
qed

text \<open>
  C3. What a submission writes is authorized: a row it inserts or changes belongs to the user and
  the writer, and its path lies within a prefix registered for the writer.
\<close>

theorem submit_writes_authorized:
  assumes "submit E user writer ops w = (Inr s, w')"
    and "r \<in> set (entry_rows (w_db w'))" "r \<notin> set (entry_rows (w_db w))"
  shows "row_user r = user \<and> row_writer r = writer \<and>
    require_authorized_path user writer (entry_path r) (w_db w) = Inr ()"
  using submit_db(3) [OF assms(1) refl] assms(2,3) by (auto simp: written_def)

lemma submit_writes_witness:
  "require_authorized_path (lit ''u'') (lit ''w'') (entry_path (hd (entry_rows (w_db demo_filled)))) (w_db demo_world) = Inr ()"
proof -
  have "isl (fst (submit demo_env (lit ''u'') (lit ''w'') [demo_put ''a'' ''d/a'' (lit ''A''), demo_put ''b'' ''d/b'' (lit ''B'')] demo_world))
      = False" by code_simp
  then obtain s where s: "submit demo_env (lit ''u'') (lit ''w'') [demo_put ''a'' ''d/a'' (lit ''A''), demo_put ''b'' ''d/b'' (lit ''B'')] demo_world
      = (Inr s, demo_filled)" unfolding demo_filled_def by (metis isl_def prod.collapse sum.exhaust)
  have "entry_rows (w_db demo_filled) \<noteq> []" by code_simp
  then have "hd (entry_rows (w_db demo_filled)) \<in> set (entry_rows (w_db demo_filled))" by simp
  moreover have "entry_rows (w_db demo_world) = []" by code_simp
  ultimately show ?thesis using submit_writes_authorized [OF s] by simp
qed

text \<open>
  C4. A submission, successful or not, changes nothing of the other writers: outside the table of
  submissions, the catalogue with the writer's own entries and decisions left out is the same.
\<close>

theorem submit_leaves_others:
  assumes "submit E user writer ops w = (r, w')"
  shows "(others user writer (w_db w'))\<lparr>submission_rows := []\<rparr> = (others user writer (w_db w))\<lparr>submission_rows := []\<rparr>"
  by (rule submit_db(1) [OF assms])

lemma submit_leaves_others_witness:
  "prefix_rows (others (lit ''u'') (lit ''w'') (w_db demo_filled)) = prefix_rows (others (lit ''u'') (lit ''w'') (w_db demo_world))"
proof -
  have "submit demo_env (lit ''u'') (lit ''w'') [demo_put ''a'' ''d/a'' (lit ''A''), demo_put ''b'' ''d/b'' (lit ''B'')] demo_world
      = (fst (submit demo_env (lit ''u'') (lit ''w'') [demo_put ''a'' ''d/a'' (lit ''A''), demo_put ''b'' ''d/b'' (lit ''B'')] demo_world), demo_filled)"
    by (simp add: demo_filled_def)
  from arg_cong [OF submit_leaves_others [OF this], where f = prefix_rows] show ?thesis by simp
qed

text \<open>
  C5. A submission is recorded: when it returns, the result and exactly one new row say APPLIED;
  when it raises, either the row could not be inserted or exactly one new row says FAILED, with the
  text of an error.
\<close>

theorem submit_recorded:
  assumes "submit E user writer ops w = (r, w')"
  shows "(case r of
      Inr s \<Rightarrow> s = \<lparr>submission_id = e_uuid E (w_uuids w), submission_state = APPLIED,
          operation_count = length ops, submission_error = None\<rparr> \<and>
        (\<exists>t. submission_rows (w_db w') = submission_rows (w_db w) @
          [(new_submission E user writer ops w)\<lparr>sub_state := APPLIED, sub_updated_at := t\<rparr>])
    | Inl e \<Rightarrow> submission_rows (w_db w') = submission_rows (w_db w) \<or>
        (\<exists>m t. submission_rows (w_db w') = submission_rows (w_db w) @
          [(new_submission E user writer ops w)\<lparr>sub_state := FAILED, sub_error := Some m, sub_updated_at := t\<rparr>]))"
proof (cases r)
  case (Inl e)
  then show ?thesis using submit_db(2) [OF assms Inl] by simp
next
  case (Inr s)
  then show ?thesis using submit_db(3) [OF assms Inr] by (auto simp: new_submission_def)
qed

lemma submit_recorded_witness:
  "\<exists>m t. submission_rows (w_db (snd (submit demo_env (lit ''u'') (lit ''w'') [demo_put ''z'' ''e/z'' []] demo_filled)))
    = submission_rows (w_db demo_filled) @
      [(new_submission demo_env (lit ''u'') (lit ''w'') [demo_put ''z'' ''e/z'' []] demo_filled)
        \<lparr>sub_state := FAILED, sub_error := Some m, sub_updated_at := t\<rparr>]"
proof -
  let ?x = "submit demo_env (lit ''u'') (lit ''w'') [demo_put ''z'' ''e/z'' []] demo_filled"
  have f: "fst ?x = Inl (PrefixAuthorizationError ''writer is not authorized for path'')" by code_simp
  have n: "length (submission_rows (w_db (snd ?x))) = 2 \<and> length (submission_rows (w_db demo_filled)) = 1" by code_simp
  have "submission_rows (w_db (snd ?x)) \<noteq> submission_rows (w_db demo_filled)"
  proof
    assume "submission_rows (w_db (snd ?x)) = submission_rows (w_db demo_filled)"
    then show False using n by auto
  qed
  then show ?thesis using submit_recorded [OF prod.collapse [symmetric, of ?x]] f by simp
qed

section \<open>Prefixes\<close>

text \<open>
  C6. Registering a prefix keeps the registered prefixes valid paths, and those of two writers of a
  user apart: neither contains the other.
\<close>

theorem register_prefix_keeps_apart:
  assumes "register_prefix E user writer pfx w = (r, w')" "writers_apart (w_db w)"
  shows "writers_apart (w_db w')"
  by (rule register_prefix_apart [OF assms])

lemma register_prefix_witness: "writers_apart (w_db demo_world)"
proof -
  have "register_prefix demo_env (lit ''u'') (lit ''w'') (lit ''d'') new_world
      = (fst (register_prefix demo_env (lit ''u'') (lit ''w'') (lit ''d'') new_world), demo_world)"
    by (simp add: demo_world_def)
  from register_prefix_keeps_apart [OF this] show ?thesis by (simp add: writers_apart_def new_world_def empty_db_def)
qed

text \<open>C7. Two writers of a user are never authorized for the same path.\<close>

theorem authorized_writer_unique:
  assumes "history E user w" "env_ok E user h"
    and "require_authorized_path user writer p (w_db w) = Inr ()" "require_authorized_path user writer' p (w_db w) = Inr ()"
  shows "writer = writer'"
  using authorized_unique [OF _ assms(3,4)] history_ok [OF assms(1,2)] by blast

lemma authorized_writer_witness:
  "require_authorized_path (lit ''u'') (lit ''v'') (lit ''d/x'') (w_db demo_world) \<noteq> Inr ()"
proof
  assume a: "require_authorized_path (lit ''u'') (lit ''v'') (lit ''d/x'') (w_db demo_world) = Inr ()"
  have "require_authorized_path (lit ''u'') (lit ''w'') (lit ''d/x'') (w_db demo_world) = Inr ()" by code_simp
  from authorized_writer_unique [OF demo_world_history demo_env_ok this a] show False by (simp add: lit_def)
qed

section \<open>Ordering\<close>

text \<open>
  C8. The operations of a submission without duplicate move sources are reordered, none lost and
  none repeated: first the deletes, then the moves, then the puts, then the decisions, all but the
  moves in the order given.
\<close>

theorem ordered_operations_permutes:
  assumes "reject_duplicate_move_sources {} ops = Inr ()" "ordered_operations user writer ops d = Inr ordered"
  shows "mset ordered = mset ops \<and> (\<exists>moves. ordered = filter (\<lambda>op. kind op = DELETE) ops @ map Move moves @
    filter (\<lambda>op. kind op = PUT) ops @ filter (\<lambda>op. kind op = DECISION) ops)"
proof -
  have d: "distinct (map move_source_key (moves_of ops))" using assms(1) by (simp add: reject_duplicate_iff)
  show ?thesis using ordered_operations_mset [OF assms(2) d] ordered_operations_form [OF assms(2) d] by metis
qed

lemma ordered_operations_witness:
  "\<exists>ordered. ordered_operations (lit ''u'') (lit ''w'')
      [demo_put ''c'' ''d/a'' [], demo_move ''a'' ''d/b'' (lit ''A''), demo_move ''b'' ''d/c'' (lit ''B'')] (w_db demo_filled) = Inr ordered \<and>
    mset ordered = mset [demo_put ''c'' ''d/a'' [], demo_move ''a'' ''d/b'' (lit ''A''), demo_move ''b'' ''d/c'' (lit ''B'')] \<and>
    hd ordered = demo_move ''b'' ''d/c'' (lit ''B'')"
proof -
  let ?ops = "[demo_put ''c'' ''d/a'' [], demo_move ''a'' ''d/b'' (lit ''A''), demo_move ''b'' ''d/c'' (lit ''B'')]"
  have o: "ordered_operations (lit ''u'') (lit ''w'') ?ops (w_db demo_filled)
      = Inr [demo_move ''b'' ''d/c'' (lit ''B''), demo_move ''a'' ''d/b'' (lit ''A''), demo_put ''c'' ''d/a'' []]"
    and r: "reject_duplicate_move_sources {} ?ops = Inr ()" by code_simp+
  from ordered_operations_permutes [OF r o] o show ?thesis by simp
qed

section \<open>Two behaviours of the code that lose a file\<close>

text \<open>
  C9. A move of an entry to the path it already has loses the file: in a store in which every entry of the
  user has its file, let the only operation of a submission be a move that names the path of its entry.
  If it is applied, the entry is still catalogued at that path with the same digest, and nothing is left
  at the location that held its contents.
\<close>

theorem self_move_loses_file:
  assumes "env_ok E user h" "store_ok E user h w"
    and "r \<in> set (entry_rows (w_db w))" "row_user r = user" "row_writer r = writer"
    and "move_source_key m = entry_source_key r" "move_path m = entry_path r"
    and "submit E user writer [Move m] w = (Inr s, w')"
  shows "(\<exists>data. contents (w_fs w) (tree_at h (entry_path r)) = Some data \<and> content_hash r = sha256 E data) \<and>
    contents (w_fs w') (tree_at h (entry_path r)) = None \<and>
    (\<exists>q \<in> set (entry_rows (w_db w')). row_user q = user \<and> row_writer q = writer \<and>
      entry_source_key q = entry_source_key r \<and> entry_path q = entry_path r \<and> content_hash q = content_hash r)"
  using self_move_submission [OF assms] assms(4,5) by (auto simp: ident_def)

lemma self_move_witness:
  "\<exists>s w'. submit demo_env (lit ''u'') (lit ''w'') [demo_move ''a'' ''d/a'' (lit ''A'')] demo_filled = (Inr s, w') \<and>
    contents (w_fs w') (tree_at (lit ''u'') (lit ''d/a'')) = None"
proof -
  let ?r = "hd (entry_rows (w_db demo_filled))"
  obtain m where m: "demo_move ''a'' ''d/a'' (lit ''A'') = Move m" "move_source_key m = lit ''a''" "move_path m = lit ''d/a''"
    by (simp add: demo_move_def)
  have "\<not> isl (fst (submit demo_env (lit ''u'') (lit ''w'') [demo_move ''a'' ''d/a'' (lit ''A'')] demo_filled))" by code_simp
  then obtain s w' where s: "submit demo_env (lit ''u'') (lit ''w'') [Move m] demo_filled = (Inr s, w')"
    unfolding m(1) by (metis isl_def prod.collapse sum.exhaust)
  have "entry_rows (w_db demo_filled) \<noteq> []" "(row_user ?r, row_writer ?r, entry_source_key ?r, entry_path ?r)
      = (lit ''u'', lit ''w'', lit ''a'', lit ''d/a'')" by code_simp+
  then show ?thesis
    using self_move_loses_file [OF demo_env_ok demo_ok(4) _ _ _ _ _ s, of ?r] s m by auto
qed

text \<open>
  When a submission fails after it has replaced an entry's content, the entry, its object id and its
  file are restored, but the object is gone, because the cleanup of a submission runs whether or not it
  was rolled back. One such submission:
\<close>

lemma failed_replace_loses_object:
  "case submit demo_env (lit ''u'') (lit ''w'') [demo_put ''a'' ''d/a'' (lit ''N''), demo_put ''z'' ''d/z'' [55296]] demo_filled of
     (Inr s, w') \<Rightarrow> False
   | (Inl e, w') \<Rightarrow> map object_id (entry_rows (w_db w')) = map object_id (entry_rows (w_db demo_filled)) \<and>
       contents (w_fs demo_filled) (projr (object_path demo_env (lit ''u'') (object_id (hd (entry_rows (w_db demo_filled)))))) = Some [65] \<and>
       contents (w_fs w') (projr (object_path demo_env (lit ''u'') (object_id (hd (entry_rows (w_db w')))))) = None"
  by code_simp

section \<open>Searching\<close>



text \<open>A path that a cursor cannot name: what is left of it below the prefix looks like a drive.\<close>

lemma unnameable_path:
  "normalize_path (lit ''d/C:x'') = Inr (lit ''d/C:x'') \<and> grep_relative_path (lit ''d'') (lit ''d/C:x'') = Inr (lit ''C:x'') \<and>
   isl (normalize_path (lit ''C:x''))"
  by code_simp

text \<open>
  C31. Pages join: if the first page of a search stopped at its limit with a cursor, the search with a
  larger limit returns the first page's matches followed by exactly what the search from the cursor
  returns for the rest of the limit, errors included, and stops the same way. This is for a store that
  does not change and a ripgrep whose output, which ends by itself before the deadline, is the same in
  all runs and encloses the matches of a file in its begin and end; for digests of 64 hexadecimal digits;
  and for a first page without two matches at one position or two digests of one file, whose paths are
  valid and can be named by a cursor.
\<close>

theorem search_pages_join:
  assumes "never_late R (g_clock R 0 + timeout_seconds)" "well_delimited E R user pattern pfx" "\<And>bs. grep_content_hash (sha256 E bs)"
    and "grep E R user pattern pfx limit timeout_seconds None w = Inr first" "gp_stopped_by first = Some LIMIT"
    and "gp_next_cursor first = Some text" "apart (gp_items first)" "\<forall>m \<in> set (gp_items first). nameable pfx m" "0 < further"
  shows "grep E R user pattern pfx (limit + further) timeout_seconds None w =
    map_sum id (\<lambda>rest. rest\<lparr>gp_items := gp_items first @ gp_items rest\<rparr>) (grep E R user pattern pfx further timeout_seconds (Some text) w)"
  by (rule pages_join [OF assms])

lemma search_pages_witness: "\<exists>first text. demo_grep 1 None = Inr first \<and> gp_next_cursor first = Some text \<and>
  demo_grep 2 None = map_sum id (\<lambda>rest. rest\<lparr>gp_items := gp_items first @ gp_items rest\<rparr>) (demo_grep 1 (Some text))"
proof -
  obtain first cur m where f: "demo_grep 1 None = Inr first" "gp_stopped_by first = Some LIMIT" "gp_next_cursor first = Some cur"
      "gp_items first = [m]" "gm_path m = lit ''d/a''"
    using demo_first by (cases "demo_grep 1 None") auto
  have "valid_path (lit ''d/a'')" "scalar_str (lit ''d/a'')" "grep_relative_path (lit ''d'') (lit ''d/a'') = Inr (lit ''a'')" "valid_path (lit ''a'')"
    by code_simp+
  then have n: "\<forall>m \<in> set (gp_items first). nameable (lit ''d'') m" "apart (gp_items first)"
    using f(4,5) by (simp_all add: nameable_def apart_def)
  show ?thesis
    using search_pages_join [OF demo_never_late demo_well_delimited demo_hex f(1) [unfolded demo_grep_def] f(2,3) n(2,1), of 1] f(1,3)
    unfolding demo_grep_def by auto
qed

section \<open>Reading what was written\<close>

text \<open>
  C11. A text that is put is read back. Provided that SHA-256 has no collisions, every entry of the user
  has its file before, and no move of the submission names the path its entry already has: after the
  submission is applied, reading the path of a put that no later put of the same source key supersedes
  returns the normalized text, in full, with the digest of its UTF-8 encoding, for every byte limit the
  encoding fits in.
\<close>

theorem put_is_read:
  assumes "env_ok E user h" "inj (e_sha E)" "store_ok E user h w" "no_self_moves user writer ops (w_db w)"
    and "submit E user writer ops w = (Inr s, w')" "filter (\<lambda>p. kind p = PUT) ops = xs @ Put op # ys"
    and "\<And>p. Put p \<in> set ys \<Longrightarrow> put_source_key p \<noteq> put_source_key op"
  shows "\<exists>body data. normalize_text (put_text op) = Inr body \<and> utf8_encode body = Inr data \<and>
    (\<forall>n. 0 < n \<longrightarrow> int (length data) \<le> n \<longrightarrow> read E user (put_path op) n w' = Inr
      \<lparr>rr_path = put_path op, rr_text = body, rr_content_hash = sha256 E data, rr_complete = True, rr_stopped_by = None\<rparr>)"
  by (rule submit_read [OF assms])

lemma put_is_read_witness:
  "read demo_env (lit ''u'') (lit ''d/b'') 10 demo_filled = Inr
    \<lparr>rr_path = lit ''d/b'', rr_text = lit ''B'', rr_content_hash = lit ''sha256:B'', rr_complete = True, rr_stopped_by = None\<rparr>"
proof -
  let ?a = "demo_put ''a'' ''d/a'' (lit ''A'')" and ?b = "demo_put ''b'' ''d/b'' (lit ''B'')"
  obtain op where op: "?b = Put op" "put_path op = lit ''d/b''" "put_text op = lit ''B''"
    by (simp add: demo_put_def)
  obtain s where s: "submit demo_env (lit ''u'') (lit ''w'') [?a, ?b] demo_world = (Inr s, demo_filled)"
    using demo_filled_submit by blast
  have k: "filter (\<lambda>p. kind p = PUT) [?a, ?b] = [?a] @ Put op # []" by (simp add: op(1) [symmetric]) (simp add: demo_put_def)
  have n: "no_self_moves (lit ''u'') (lit ''w'') [?a, ?b] (w_db demo_world)" by (simp add: no_self_moves_puts demo_put_def)
  have t: "normalize_text (lit ''B'') = Inr (lit ''B'')" "utf8_encode (lit ''B'') = Inr [66]"
     "sha256 demo_env [66] = lit ''sha256:B''" by code_simp+
  have ok: "store_ok demo_env (lit ''u'') (lit ''u'') demo_world" using history_ok [OF demo_world_history demo_env_ok] by blast
  show ?thesis using put_is_read [OF demo_env_ok demo_sha_inj ok n s k] t op by auto
qed

text \<open>
  C12. What \<open>read\<close> returns is verified: the bytes behind the text have the digest the catalogue holds
  for the path, and the text decodes all of them or, when they exceed the limit, a truncation that
  is reported as incomplete.
\<close>

theorem read_is_verified:
  assumes "read E user path n w = Inr result"
  shows "\<exists>e data. stat E user path w = Inr (Some e) \<and> sha256 E data = content_hash e \<and>
    rr_content_hash result = content_hash e \<and> rr_path result = path \<and>
    rr_text result = utf8_decode_replace (if rr_complete result then data else truncate_utf8 data (nat n)) \<and>
    (rr_complete result \<longleftrightarrow> int (length data) \<le> n)"
  by (rule read_verified [OF assms]) metis

lemma read_is_verified_witness:
  "\<exists>e. stat demo_env (lit ''u'') (lit ''d/a'') demo_filled = Inr (Some e) \<and> content_hash e = lit ''sha256:A''"
proof -
  have "read demo_env (lit ''u'') (lit ''d/a'') 1 demo_filled = Inr \<lparr>rr_path = lit ''d/a'', rr_text = lit ''A'',
    rr_content_hash = lit ''sha256:A'', rr_complete = True, rr_stopped_by = None\<rparr>" by code_simp
  from read_is_verified [OF this] show ?thesis by auto
qed

section \<open>Machines and folders\<close>

text \<open>
  C13. In every catalogue that registrations, updates of metadata and bindings of credentials reach,
  machine ids, machine keys and registration ids are unique per user, no credential is bound to
  two machines of a user, the same holds of the folders of a machine, and every folder belongs to a
  machine.
\<close>

theorem reachable_catalog_consistent:
  assumes "catalog_history E w"
  shows "machines_distinct (machine_rows (w_db w)) \<and> folders_distinct (folder_rows (w_db w)) \<and>
    (\<forall>f \<in> set (folder_rows (w_db w)). \<exists>m \<in> set (machine_rows (w_db w)). mr_user m = fr_user f \<and> mr_id m = fr_machine_id f)"
  using catalog_history_ok [OF assms] by (simp add: catalog_ok_def)

lemma reachable_catalog_witness: "machines_distinct (machine_rows (w_db demo_catalog))"
  using reachable_catalog_consistent [OF demo_catalog_history] by blast

text \<open>
  C14. Registering a machine again with the same data is idempotent: it returns the machine of the
  first registration and leaves the catalogue and everything else as it is.
\<close>

theorem registration_idempotent:
  assumes "register_machine fuel E user reg name description platform version enrollment recovered at_time w = Some (Inr m, w')"
    and "catalog_ok (w_db w)" "0 < t"
  shows "register_machine fuel' E user reg name description platform version enrollment recovered (Some t) w' = Some (Inr m, w')"
  by (rule register_machine_again [OF assms])

lemma registration_idempotent_witness:
  "register_machine 0 demo_env (lit ''u'') (lit ''r1'') (lit ''Laptop'') None None None None False (Some 7) demo_catalog
    = Some (Inr demo_machine, demo_catalog)"
  by (rule registration_idempotent [OF demo_registered])
    (simp_all add: catalog_ok_def machines_distinct_def folders_distinct_def new_world_def empty_db_def)

text \<open>
  C15. Registration returns: the search for a free key ends after at most one attempt more than twice
  the number of rows, because every failed attempt is explained by a row that no later attempt
  clashes with again.
\<close>

theorem registration_returns:
  assumes "inj (e_uuid E)" "2 * length (machine_rows (w_db w)) + 1 < fuel" "2 * length (folder_rows (w_db w)) + 1 < fuel"
  shows "register_machine fuel E user reg name description platform version enrollment recovered at_time w \<noteq> None \<and>
    register_folder fuel E user mid reg name description at_time w \<noteq> None"
  by (intro conjI register_machine_returns register_folder_returns assms)

lemma registration_returns_witness: "register_machine 2 demo_env (lit ''u'') (lit ''r'') (lit ''n'') None None None None False None new_world \<noteq> None"
proof -
  have "inj (e_uuid demo_env)" using demo_env_ok by (simp add: env_ok_def)
  from registration_returns [OF this, of new_world 2] show ?thesis by (simp add: new_world_def empty_db_def)
qed

section \<open>The queue\<close>

text \<open>
  C16. Draining works off the queue in its order: every submission is applied or has failed, up to the
  end of the queue or the limit, or up to the first row whose stored operations do not parse back, such
  as one whose text holds a lone surrogate. That row makes the drain raise its validation error, and it
  and all rows behind it stay queued.
\<close>

theorem queue_drained:
  assumes "distinct (map sv_id (service_rows (w_db w)))" "case limit of None \<Rightarrow> True | Some l \<Rightarrow> 0 < l"
  shows "let todo = (case limit of None \<Rightarrow> queued_rows (w_db w) | Some l \<Rightarrow> take (nat l) (queued_rows (w_db w)));
      fine = takeWhile (\<lambda>row. \<not> isl (validate_operations_json (sv_operations row))) todo in
    \<exists>w'. queued_rows (w_db w') = drop (length fine) (queued_rows (w_db w)) \<and>
      (\<forall>row \<in> set fine. \<exists>q \<in> set (service_rows (w_db w')). sv_id q = sv_id row \<and> sv_state q \<in> {APPLIED, FAILED}) \<and>
      (case drop (length fine) todo of
         [] \<Rightarrow> \<exists>ss. drain E limit w = (Inr ss, w') \<and> map submission_id ss = map sv_id fine
       | row # _ \<Rightarrow> \<exists>e. validate_operations_json (sv_operations row) = Inl e \<and> drain E limit w = (Inl e, w'))"
proof -
  have flaw: "(\<lambda>row. row_flaw row = None) = (\<lambda>row. \<not> isl (validate_operations_json (sv_operations row)))"
    "row_flaw row = Some e \<longleftrightarrow> validate_operations_json (sv_operations row) = Inl e" for row e
    by (auto simp: row_flaw_def fun_eq_iff split: sum.splits)
  have run: "drain E limit = drain_from E limit []" using assms(2) by (auto simp: drain_def split: option.splits)
  obtain w' where "queue.drains E limit [] w w'" using queue.drained [of w E limit "[]"] assms(1) by (auto simp: queue_ok_def)
  then show ?thesis
    unfolding queue.drains_def queue.reached_def flaw run Let_def is_settled_def list_ex_iff list.size(3) minus_nat.diff_0 append_Nil
    by (intro exI [of _ w']) (auto split: list.splits)
qed

lemma queue_drained_witness:
  "(\<exists>ss w'. drain demo_env None demo_queued = (Inr ss, w') \<and> length ss = 2 \<and> queued_rows (w_db w') = []) \<and>
   (\<exists>e w'. drain demo_env None demo_blocked = (Inl e, w') \<and> length (queued_rows (w_db w')) = 2)"
proof
  let ?fine = "\<lambda>w. takeWhile (\<lambda>row. \<not> isl (validate_operations_json (sv_operations row))) (queued_rows (w_db w))"
  have "length (queued_rows (w_db demo_queued)) = 2" "length (?fine demo_queued) = 2" by code_simp+
  then show "\<exists>ss w'. drain demo_env None demo_queued = (Inr ss, w') \<and> length ss = 2 \<and> queued_rows (w_db w') = []"
    using queue_drained [of demo_queued None demo_env] demo_queue_ok
    by (auto simp: queue_ok_def Let_def dest: arg_cong [where f = length])
  have q: "length (queued_rows (w_db demo_blocked)) = 4" "length (?fine demo_blocked) = 2" by code_simp+
  then have "drop 2 (queued_rows (w_db demo_blocked)) \<noteq> []" by simp
  then obtain r rs where d: "drop 2 (queued_rows (w_db demo_blocked)) = r # rs" by (cases "drop 2 (queued_rows (w_db demo_blocked))") auto
  have "length (r # rs) = 2" unfolding d [symmetric] using q by simp
  then show "\<exists>e w'. drain demo_env None demo_blocked = (Inl e, w') \<and> length (queued_rows (w_db w')) = 2"
    using queue_drained [of demo_blocked None demo_env] demo_blocked_ok q d by (auto simp: queue_ok_def Let_def)
qed

text \<open>
  C17. The applier takes the row at the head of the queue. If its stored operations do not parse back it
  raises and changes nothing; otherwise it submits what they parse to and records the outcome in that
  row and no other: APPLIED with the id of the submission if the store returned, FAILED with the text of
  the error if it raised. Recording it changes nothing else of what the submission left.
\<close>

theorem apply_next_records_outcome:
  assumes "queued_rows (w_db w) = row # rows"
  shows "case validate_operations_json (sv_operations row) of
      Inl e \<Rightarrow> apply_next E w = (Inl e, w)
    | Inr ops \<Rightarrow> (case submit E (sv_user row) (sv_writer row) ops w of (r, w1) \<Rightarrow>
        let state = (case r of Inl _ \<Rightarrow> FAILED | Inr _ \<Rightarrow> APPLIED);
          err = (case r of Inl e \<Rightarrow> Some (exn_text e) | Inr _ \<Rightarrow> None);
          done = (\<lambda>q. if sv_id q = sv_id row then q\<lparr>sv_state := state, sv_error := err, sv_updated_at := e_time E (w_clock w1),
              sv_applied := (case r of Inl _ \<Rightarrow> sv_applied q | Inr s \<Rightarrow> Some (submission_id s))\<rparr> else q)
        in apply_next E w = (Inr (Some \<lparr>submission_id = sv_id row, submission_state = state, operation_count = sv_count row,
            submission_error = err\<rparr>),
          w1\<lparr>w_clock := Suc (w_clock w1), w_db := (w_db w1)\<lparr>service_rows := map done (service_rows (w_db w))\<rparr>\<rparr>))"
proof (cases "validate_operations_json (sv_operations row)")
  case (Inl e)
  then show ?thesis using apply_next_stuck [OF assms Inl] by simp
next
  case (Inr ops)
  obtain r w1 where s: "submit E (sv_user row) (sv_writer row) ops w = (r, w1)" by force
  show ?thesis
    using apply_next_outcome [OF assms Inr s] submit_service_rows [OF s]
    by (cases r) (simp_all add: Inr s Let_def set_service_def update_where_def outcome_of_def cong: if_cong)
qed

lemma apply_next_witness:
  "\<exists>w'. apply_next demo_env demo_queued = (Inr (Some \<lparr>submission_id = lit ''000000'', submission_state = APPLIED,
     operation_count = 1, submission_error = None\<rparr>), w')"
proof -
  obtain row rows where rows: "queued_rows (w_db demo_queued) = row # rows"
    "sv_id row = lit ''000000''" "sv_count row = 1"
  proof -
    have "map (\<lambda>r. (sv_id r, sv_count r)) (queued_rows (w_db demo_queued)) \<noteq> []"
      "hd (map (\<lambda>r. (sv_id r, sv_count r)) (queued_rows (w_db demo_queued))) = (lit ''000000'', 1)" by code_simp+
    then show thesis using that by (cases "queued_rows (w_db demo_queued)") auto
  qed
  have "case validate_operations_json (sv_operations (hd (queued_rows (w_db demo_queued)))) of Inl _ \<Rightarrow> False
    | Inr ops \<Rightarrow> \<not> isl (fst (submit demo_env (lit ''u'') (lit ''w'') ops demo_queued))"
    "sv_user (hd (queued_rows (w_db demo_queued))) = lit ''u''" "sv_writer (hd (queued_rows (w_db demo_queued))) = lit ''w''" by code_simp+
  then show ?thesis using apply_next_records_outcome [OF rows(1), of demo_env] rows
    by (auto simp: Let_def isl_def split: sum.splits prod.splits)
qed

section \<open>Deletion\<close>

text \<open>The underscore of a prefix is a wildcard in the deletion of decisions.\<close>

lemma decision_scope_wildcard:
  "sql_like (lit ''a_b'' @ lit ''/%'') (lit ''axb/z'') \<and> path_is_within_prefix (lit ''axb/z'') (lit ''a_b'') = Inr False"
  by code_simp

text \<open>
  C18. Deleting a prefix removes exactly the entries of the writer within it and their files, and keeps
  the store consistent; the file of every other entry of the user has its contents, the decisions in
  scope are gone (those of the sources removed, and those whose path is in the prefix as the \<open>LIKE\<close>
  of SQL reads it), and the registrations stay. In the queue a queued submission of the writer loses
  exactly the operations that target the prefix: it is unchanged if it has none, discarded if it has no
  other, and keeps the rest otherwise; every other row stays as it is.
\<close>

theorem delete_prefix_removes:
  assumes "env_ok E user h" "store_ok E user h w" "queue_ok w"
    and "delete_prefix E user writer pfx the_receipt w = (Inr result, w')"
  shows "let inside = (\<lambda>r. row_writer r = writer \<and> path_within (entry_path r) pfx);
      gone = {r \<in> set (entry_rows (w_db w)). row_user r = user \<and> inside r} in
    \<exists>source_keys. require_authorized_path user writer pfx (w_db w) = Inr () \<and> set source_keys = entry_source_key ` gone \<and>
      store_ok E user h w' \<and>
      entry_rows (w_db w') = filter (\<lambda>r. \<not> (row_user r = user \<and> inside r)) (entry_rows (w_db w)) \<and>
      (\<forall>r \<in> set (entry_rows (w_db w)). row_user r = user \<longrightarrow> contents (w_fs w') (tree_at h (entry_path r)) =
        (if inside r then None else contents (w_fs w) (tree_at h (entry_path r)))) \<and>
      decision_rows (w_db w') = delete_where (decision_in_scope user writer pfx source_keys) (decision_rows (w_db w)) \<and>
      list_all2 (\<lambda>q q'. if sv_user q = user \<and> sv_writer q = writer \<and> sv_state q = QUEUED
          then discarded_from pfx source_keys q q' else q' = q)
        (service_rows (w_db w)) (service_rows (w_db w')) \<and>
      prefix_rows (w_db w') = prefix_rows (w_db w)"
  unfolding Let_def queued_for_def [symmetric]
  by (rule delete_prefix_run [OF assms]) (intro exI conjI ballI impI; (assumption | blast))

lemma delete_prefix_witness:
  "map entry_path (entry_rows (w_db demo_deleted)) = [] \<and>
   map (\<lambda>q. (sv_state q, sv_count q)) (service_rows (w_db demo_deleted)) = [(DISCARDED, 1), (QUEUED, 1)]"
proof -
  have "\<not> isl (fst (delete_prefix demo_env (lit ''u'') (lit ''w'') (lit ''d'') None demo_queued))" by code_simp
  then obtain res where res: "delete_prefix demo_env (lit ''u'') (lit ''w'') (lit ''d'') None demo_queued = (Inr res, demo_deleted)"
    unfolding demo_deleted_def by (metis isl_def prod.collapse sum.exhaust)
  from delete_prefix_removes [OF demo_env_ok demo_queued_ok demo_queue_ok res] have
    e: "entry_rows (w_db demo_deleted) = filter (\<lambda>r. \<not> (row_user r = lit ''u'' \<and> row_writer r = lit ''w'' \<and>
       path_within (entry_path r) (lit ''d''))) (entry_rows (w_db demo_queued))"
    unfolding Let_def by blast
  moreover have "map entry_path (filter (\<lambda>r. \<not> (row_user r = lit ''u'' \<and> row_writer r = lit ''w'' \<and>
       path_within (entry_path r) (lit ''d''))) (entry_rows (w_db demo_queued))) = []"
    unfolding path_within_def by code_simp
  moreover have "map (\<lambda>q. (sv_state q, sv_count q)) (service_rows (w_db demo_deleted)) = [(DISCARDED, 1), (QUEUED, 1)]"
    by code_simp
  ultimately show ?thesis by simp
qed

text \<open>
  C19. After \<open>delete_user\<close> has returned, no entry, decision, submission, queued submission or
  registration of the user is left, and neither directory of the user; the rows and files of the
  other users are as before. What it does not delete: the machines and tracked folders of the user, and
  the deletion records, which get one more row that holds the user's id and the result.
\<close>

theorem delete_user_removes:
  assumes "env_ok E user h" "delete_user E user the_receipt w = (Inr result, w')"
  shows "entry_rows (w_db w') = filter (\<lambda>r. row_user r \<noteq> user) (entry_rows (w_db w)) \<and>
    decision_rows (w_db w') = filter (\<lambda>r. dec_user r \<noteq> user) (decision_rows (w_db w)) \<and>
    submission_rows (w_db w') = filter (\<lambda>r. sub_user r \<noteq> user) (submission_rows (w_db w)) \<and>
    service_rows (w_db w') = filter (\<lambda>r. sv_user r \<noteq> user) (service_rows (w_db w)) \<and>
    prefix_rows (w_db w') = filter (\<lambda>r. pr_user r \<noteq> user) (prefix_rows (w_db w)) \<and>
    machine_rows (w_db w') = machine_rows (w_db w) \<and> folder_rows (w_db w') = folder_rows (w_db w) \<and>
    (\<exists>x. deletion_rows (w_db w') = deletion_rows (w_db w) @ [x] \<and> deletion_result.truncate x = result) \<and>
    look (w_fs w') [users_dir, h] = None \<and> look (w_fs w') [objects_dir, h] = None \<and>
    (\<forall>q. \<not> prefix [users_dir, h] q \<longrightarrow> \<not> prefix [objects_dir, h] q \<longrightarrow> contents (w_fs w') q = contents (w_fs w) q)"
  by (intro conjI allI impI delete_user_run [OF assms])

lemma delete_user_witness: "entry_rows (w_db (snd (delete_user demo_env (lit ''u'') (lit ''r'') demo_queued))) = []"
proof -
  obtain result where "delete_user demo_env (lit ''u'') (lit ''r'') demo_queued
      = (Inr result, snd (delete_user demo_env (lit ''u'') (lit ''r'') demo_queued))"
    using demo_user_deleted by (metis snd_conv)
  from delete_user_removes [OF demo_env_ok this] show ?thesis
    using demo_queued_rows by (simp add: filter_empty_conv list_all_iff)
qed

text \<open>
  C20. Deleting a user with a receipt succeeds, whatever the state of the user's rows and files, unless
  one of the two directories is a file or the id of the deletion record is taken; the result counts
  the entries of the user.
\<close>

theorem user_deletion_succeeds:
  assumes "env_ok E user h" "the_receipt \<noteq> []"
    and "\<forall>q \<in> set (deletion_rows (w_db w)). deletion_id q \<noteq> e_uuid E (w_uuids w)"
    and "\<not> is_file (w_fs w) [users_dir, h]" "\<not> is_file (w_fs w) [objects_dir, h]"
  shows "\<exists>result w'. delete_user E user the_receipt w = (Inr result, w') \<and> deletion_scope result = lit ''user'' \<and>
     deletion_user_id result = user \<and> receipt result = Some the_receipt \<and>
     deleted_entry_count result = count_where (\<lambda>r. row_user r = user) (entry_rows (w_db w))"
  by (rule delete_user_succeeds [OF assms])

lemma user_deletion_witness:
  "\<exists>result w'. delete_user demo_env (lit ''u'') (lit ''r'') new_world = (Inr result, w') \<and> deleted_entry_count result = 0"
proof -
  have "\<not> is_file (w_fs new_world) [users_dir, lit ''u'']" "\<not> is_file (w_fs new_world) [objects_dir, lit ''u'']" by code_simp+
  then show ?thesis using user_deletion_succeeds [OF demo_env_ok, of "lit ''r''" new_world]
    by (simp add: new_world_def empty_db_def count_where_def lit_def) blast
qed

section \<open>Authorization\<close>

text \<open>
  C21. A decision allows a request exactly if the principal is an administrator, or has the required
  scope and, for SUBMIT, a granted prefix that contains the path component by component.
\<close>

theorem authorize_permits:
  assumes "authorize (Some p) s path = Inr d"
  shows "allowed d \<longleftrightarrow> ADMIN \<in> scopes p \<or> s \<in> scopes p \<and>
    (s = SUBMIT \<longrightarrow> (\<exists>q pfx. path = Some q \<and> pfx \<in> set (prefixes p) \<and> path_within q pfx))"
  using authorize_Inr [OF assms] by (simp add: permitted_def)

lemma authorize_witness: "\<exists>d. authorize (Some demo_principal) SUBMIT (Some (lit ''dd/x'')) = Inr d \<and> \<not> allowed d"
proof -
  have "authorize (Some demo_principal) SUBMIT (Some (lit ''dd/x'')) = Inr (deny SUBMIT PREFIX_NOT_GRANTED (Some demo_principal))"
    by code_simp
  moreover have "\<not> path_within (lit ''dd/x'') (lit ''d'')" unfolding path_within_def by code_simp
  ultimately show ?thesis using authorize_permits [of demo_principal SUBMIT "Some (lit ''dd/x'')"]
    by (auto simp: demo_principal_def)
qed

text \<open>
  C22. A credential grant that is constructed is valid: its identifiers are trimmed and non-empty, its
  prefixes are distinct valid paths that only SUBMIT has, ADMIN and ENROLL stand alone, and a
  machine has SUBMIT and STATUS_WRITE with one prefix; and every valid grant can be constructed.
\<close>

theorem grants_validated:
  "make_grant g = Inr h \<longleftrightarrow> h = g \<and> ident_ok (grant_principal_id g) \<and> ident_ok (grant_key_id g) \<and>
     (grant_machine_id g = None \<or> ident_ok (the (grant_machine_id g))) \<and>
     grants_valid (grant_scopes g) (grant_prefixes g) (grant_machine_id g)"
  by (cases "grant_machine_id g") (auto simp: make_grant_Inr grant_ok_def)

section \<open>Listings\<close>

text \<open>
  C23. A complete page of \<open>ls\<close> has exactly the children of the directory that hold a file, in case-folded
  order and without repetition; an incomplete page says whether the limit or a difference between
  catalogue and disk is the reason, and is cut to the limit in the first case.
\<close>

theorem ls_lists_children:
  assumes "ls E user path limit w = Inr b"
  shows "page_of E limit (\<Union>p \<in> {p. on_disk E user path w p}. child_keys path p) (catalog_differs E user path w) b"
  by (rule ls_page [OF assms])

lemma ls_witness: "(\<Union>p \<in> {p. on_disk demo_env (lit ''u'') (lit ''d'') demo_filled p}. child_keys (lit ''d'') p) = {lit ''d/a'', lit ''d/b''}"
proof -
  have "map_sum id (\<lambda>b. (map de_path (items b), stopped_by b)) (ls demo_env (lit ''u'') (lit ''d'') 10 demo_filled)
     = Inr ([lit ''d/a'', lit ''d/b''], None)" by code_simp
  then obtain b where b: "ls demo_env (lit ''u'') (lit ''d'') 10 demo_filled = Inr b"
     "map de_path (items b) = [lit ''d/a'', lit ''d/b'']" "stopped_by b = None" by (auto simp: map_sum_Inr)
  have "set (map de_path (items b)) = {lit ''d/a'', lit ''d/b''}" by (simp add: b(2))
  then show ?thesis using ls_lists_children [OF b(1)] b(3) by (simp add: page_of_def)
qed

text \<open>
  C24. A complete page of \<open>tree\<close> has exactly the files below the prefix and their directories, as far as
  the depth allows, in order and without repetition; an incomplete page says why.
\<close>

theorem tree_lists_descendants:
  assumes "tree E user pfx depth limit w = Inr b"
  shows "page_of E limit (\<Union>p \<in> {p. on_disk E user pfx w p}. tree_keys pfx depth p) (catalog_differs E user pfx w) b"
  by (rule tree_page [OF assms])

lemma tree_witness: "(\<Union>p \<in> {p. on_disk demo_env (lit ''u'') [] demo_filled p}. tree_keys [] None p) = {lit ''d'', lit ''d/a'', lit ''d/b''}"
proof -
  have "map_sum id (\<lambda>b. (map de_path (items b), stopped_by b)) (tree demo_env (lit ''u'') [] None 10 demo_filled)
     = Inr ([lit ''d'', lit ''d/a'', lit ''d/b''], None)" by code_simp
  then obtain b where b: "tree demo_env (lit ''u'') [] None 10 demo_filled = Inr b"
     "map de_path (items b) = [lit ''d'', lit ''d/a'', lit ''d/b'']" "stopped_by b = None" by (auto simp: map_sum_Inr)
  have "set (map de_path (items b)) = {lit ''d'', lit ''d/a'', lit ''d/b''}" by (simp add: b(2))
  then show ?thesis using tree_lists_descendants [OF b(1)] b(3) by (simp add: page_of_def)
qed

text \<open>
  C25. \<open>glob\<close> returns only files that are on disk and match, and all of them unless the limit is reached.
\<close>

theorem glob_finds_matches:
  assumes "glob E user pat pfx limit w = Inr b"
  shows "\<exists>parts. validate_glob_pattern pat = Inr parts \<and>
    (\<forall>i \<in> set (items b). glob_matches parts (pure_parts (de_path i)) \<and> on_disk E user pfx w (de_path i)) \<and>
    int (length (items b)) \<le> limit \<and> (complete b \<longleftrightarrow> stopped_by b = None) \<and>
    (if stopped_by b = Some LIMIT then int (length (items b)) = limit
     else complete b = (\<not> catalog_differs E user pfx w) \<and>
       (\<forall>p. on_disk E user pfx w p \<longrightarrow> glob_matches parts (pure_parts p) \<longrightarrow> p \<in> de_path ` set (items b)))"
  by (rule glob_page [OF assms]) (rule exI, intro conjI)

lemma glob_witness: "\<not> on_disk demo_env (lit ''u'') [] demo_filled (lit ''d/c'')"
proof
  assume c: "on_disk demo_env (lit ''u'') [] demo_filled (lit ''d/c'')"
  have "map_sum id (\<lambda>b. (map de_path (items b), stopped_by b)) (glob demo_env (lit ''u'') (lit ''d/?'') [] 10 demo_filled)
     = Inr ([lit ''d/a'', lit ''d/b''], None)" by code_simp
  then obtain b where b: "glob demo_env (lit ''u'') (lit ''d/?'') [] 10 demo_filled = Inr b"
     "map de_path (items b) = [lit ''d/a'', lit ''d/b'']" "stopped_by b = None" by (auto simp: map_sum_Inr)
  have "de_path ` set (items b) = {lit ''d/a'', lit ''d/b''}" by (metis b(2) list.set(1) list.simps(15) set_map)
  moreover have p: "validate_glob_pattern (lit ''d/?'') = Inr [lit ''d'', lit ''?'']" 
    "glob_matches [lit ''d'', lit ''?''] (pure_parts (lit ''d/c''))" by code_simp+
  ultimately have "lit ''d/c'' \<in> {lit ''d/a'', lit ''d/b''}" 
    using glob_finds_matches [OF b(1)] b(3) c by auto
  then show False by (simp add: lit_def)
qed

section \<open>Paths and text\<close>

text \<open>
  C26. The recursive matcher of patterns implements the declarative reading: the path is cut into one
  segment per part of the pattern, any segment for \<open>**\<close>, and one name that \<open>fnmatchcase\<close> admits for
  every other part.
\<close>

theorem glob_is_segmentation:
  "glob_matches ps xs \<longleftrightarrow> (\<exists>segs. list_all2 (\<lambda>part seg. part = lit ''**'' \<or> (\<exists>name. seg = [name] \<and> fnmatchcase name part)) ps segs \<and>
     concat segs = xs)"
  using glob_segments [of ps xs] by (simp add: part_admits_def [abs_def])

text \<open>
  C27. The two implementations of the path policy agree: the store and the authorization module accept
  the same paths, leave them as they are, and mean the same by a path within a prefix.
\<close>

theorem path_policies_agree:
  "(normalize_path p = Inr q \<longleftrightarrow> auth_normalize_path p = Inr q) \<and>
   (path_is_within_prefix p r = Inr b \<longleftrightarrow> auth_normalize_path p = Inr p \<and> auth_normalize_path r = Inr r \<and> b = auth_within p r)"
  by (simp add: path_is_within_prefix_Inr auth_within_eq)

text \<open>
  C28. The name of a file in the tree determines its logical path, and containment of prefixes is
  containment of directories.
\<close>

theorem tree_names_roundtrip:
  assumes "normalize_path p = Inr p" "tree_components p = Inr cs"
  shows "logical_tree_path cs = Some p \<and> (\<forall>q ds. normalize_path q = Inr q \<longrightarrow> tree_components q = Inr ds \<longrightarrow>
    (prefix ds cs \<longleftrightarrow> path_is_within_prefix p q = Inr True))"
  using assms logical_tree_path_roundtrip tree_components_prefix by (auto simp: path_is_within_prefix_Inr)

lemma tree_names_witness: "logical_tree_path [lit ''p-64'', lit ''p-c3a9''] = Some (lit ''d/'' @ [233])"
proof -
  have "normalize_path (lit ''d/'' @ [233]) = Inr (lit ''d/'' @ [233])"
    "tree_components (lit ''d/'' @ [233]) = Inr [lit ''p-64'', lit ''p-c3a9'']" by code_simp+
  from tree_names_roundtrip [OF this] show ?thesis by blast
qed

text \<open>
  C29. Truncation to a byte limit keeps whole characters: the result encodes a prefix of the text, fits
  in the limit, and is at most three bytes shorter than it.
\<close>

theorem truncation_keeps_characters:
  assumes "utf8_encode t = Inr d" "n \<le> length d"
  shows "\<exists>s. prefix s t \<and> utf8_encode s = Inr (truncate_utf8 d n) \<and> length (truncate_utf8 d n) \<le> n \<and>
    n < length (truncate_utf8 d n) + 4"
  using truncate_utf8_spec [OF assms] by blast

lemma truncation_witness: "\<exists>s. prefix s [233, 8364] \<and> utf8_encode s = Inr (truncate_utf8 [0xc3, 0xa9, 0xe2, 0x82, 0xac] 4)"
proof -
  have "utf8_encode [233, 8364] = Inr [0xc3, 0xa9, 0xe2, 0x82, 0xac]" by code_simp
  from truncation_keeps_characters [OF this, of 4] show ?thesis by auto
qed

text \<open>
  C30. Machine and folder keys are slugs of at most 63 characters, whatever the name and the suffix:
  lower-case ASCII letters, digits and dashes, with no dash at either end.
\<close>

theorem keys_are_slugs:
  assumes "fallback \<in> {lit ''machine'', lit ''folder''}" "k < 10 ^ 60"
  shows "slug (suffixed_key (catalog_key E name fallback) k)"
proof -
  have "slug (lit ''machine'')" "slug (lit ''folder'')" by code_simp+
  then show ?thesis using assms by (intro suffixed_key_slug catalog_key_slug) auto
qed

lemma keys_are_slugs_witness: "slug (suffixed_key (catalog_key demo_env (replicate 80 33) (lit ''machine'')) 12)"
  by (rule keys_are_slugs) simp_all

text \<open>Text that is stored is normalized once and for all, and its bytes decode to it.\<close>

lemma stored_text_normalized:
  assumes "normalize_text t = Inr s"
  shows "normalize_text s = Inr s \<and> 13 \<notin> set s \<and> 0 \<notin> set s \<and> (\<forall>bs. utf8_encode s = Inr bs \<longrightarrow> utf8_decode bs = Inr s)"
  using normalize_text_idem [OF assms] normalize_text_no_cr [OF assms] utf8_roundtrip by blast

section \<open>Credentials\<close>

text \<open>
  C32. In every history of the credential store exactly the tokens that were handed out are accepted,
  each as long as its credential is neither revoked nor expired, and with the grant of that credential.
  The derivation of verifiers is taken to be free of collisions.
\<close>

theorem issued_tokens_verify:
  assumes "fresh_vault v0" "vault_steps E S ({}, v0) (T, v)" "secrets_ok S" "\<And>s. inj (\<lambda>data. s_scrypt S data s)"
  shows "verify E S t (Some tm) v = (Inr (Some g), v') \<longleftrightarrow> v' = v \<and> t \<in> T \<and>
    (\<exists>r \<in> set (v_creds v). parse_token t = Some (cred_key_id r) \<and> usable_at tm r \<and> g = granted r)"
  by (rule history_verify [OF assms])

lemma issued_tokens_witness:
  "\<exists>g. verify demo_env demo_secrets demo_token (Some 9) demo_issued_vault = (Inr (Some g), demo_issued_vault) \<and>
     grant_prefixes g = [lit ''notes'']"
proof -
  obtain i where i: "demo_issued_run = Some (Inr i, demo_issued_vault)" "token i = demo_token"
    using after_run [OF demo_issue, of demo_vault] unfolding demo_issued_vault_def by blast
  have "vault_step demo_env demo_secrets ({}, demo_vault) (handing token (Inr i) {}, demo_issued_vault)"
    by (rule vault_step.created [OF i(1) [unfolded demo_issued_run_def]])
  then have h: "vault_steps demo_env demo_secrets ({}, demo_vault) ({demo_token}, demo_issued_vault)"
    using i(2) by (auto simp: handing_def)
  have "list_ex (\<lambda>r. parse_token demo_token = Some (cred_key_id r) \<and> usable_at 9 r \<and> cred_prefixes r = [lit ''notes''])
      (v_creds demo_issued_vault)" by code_simp
  then obtain r where r: "r \<in> set (v_creds demo_issued_vault)" "parse_token demo_token = Some (cred_key_id r)" "usable_at 9 r"
      "cred_prefixes r = [lit ''notes'']" by (auto simp: list_ex_iff)
  have "verify demo_env demo_secrets demo_token (Some 9) demo_issued_vault = (Inr (Some (granted r)), demo_issued_vault)"
    using issued_tokens_verify [OF demo_fresh h demo_secrets_ok demo_scrypt_inj, THEN iffD2] r(1-3) by blast
  then show ?thesis using r(4) by (auto simp: granted_def)
qed

text \<open>
  C33. Once a credential has been revoked, its token is refused in every later state, whatever
  operations follow.
\<close>

theorem revoked_token_refused:
  assumes "revoke_credential E kid v = (Inr c, v1)" "vault_steps E S (T, v1) (T', v2)" "secrets_ok S"
    and "parse_token t = Some kid"
  shows "\<exists>v3. verify E S t at_time v2 = (Inr None, v3)"
  using dead_refused [OF history_dead [OF assms(2,3) revoke_credential_dead [OF assms(1)]] assms(4)] by blast

lemma revoked_token_witness:
  "\<exists>v3. verify demo_env demo_secrets demo_token None
     (snd (revoke_credential demo_env (demo_key 0) demo_issued_vault)) = (Inr None, v3)"
proof -
  have "map_sum id cred_key_id (fst (revoke_credential demo_env (demo_key 0) demo_issued_vault)) = Inr (demo_key 0)"
    by code_simp
  then obtain c where c: "revoke_credential demo_env (demo_key 0) demo_issued_vault =
      (Inr c, snd (revoke_credential demo_env (demo_key 0) demo_issued_vault))" by (auto simp: map_sum_Inr prod_eq_iff)
  have "parse_token demo_token = Some (demo_key 0)" by code_simp
  from revoked_token_refused [OF c rtranclp.rtrancl_refl [where a = "({}, _)"] demo_secrets_ok this] show ?thesis .
qed

text \<open>
  C34. A rotated credential is refused from then on, and the token that replaces it is accepted with
  the scopes and prefixes of its predecessor until it expires.
\<close>

theorem rotation_replaces:
  assumes "issued_ok S (T, v_creds v)" "rotate_credential E S kid v = Some (Inr i, v1)" "secrets_ok S"
  shows "(\<forall>T' v2 t at_time. vault_steps E S (insert (token i) T, v1) (T', v2) \<longrightarrow> parse_token t = Some kid \<longrightarrow>
      (\<exists>v3. verify E S t at_time v2 = (Inr None, v3))) \<and>
    (\<exists>old \<in> set (v_creds v). cred_key_id old = kid \<and> (\<forall>tm. (case expires_at old of None \<Rightarrow> True | Some x \<Rightarrow> tm < x) \<longrightarrow>
      verify E S (token i) (Some tm) v1 = (Inr (Some \<lparr>grant_principal_id = cred_key_id (issued i),
        grant_key_id = cred_key_id (issued i), grant_scopes = cred_scopes old, grant_prefixes = cred_prefixes old,
        grant_machine_id = None\<rparr>), v1)))"
proof (rule conjI)
  show "\<forall>T' v2 t at_time. vault_steps E S (insert (token i) T, v1) (T', v2) \<longrightarrow> parse_token t = Some kid \<longrightarrow>
      (\<exists>v3. verify E S t at_time v2 = (Inr None, v3))"
    using dead_refused [OF history_dead [OF _ assms(3) rotate_dead [OF assms(2,3)]]] by blast
  obtain s w t old where r: "prepared S i s w" "old \<in> set (v_creds v)" "cred_key_id old = kid"
      "v_creds v1 = update_where (\<lambda>r. cred_key_id r = kid \<and> revoked_at r = None)
          (\<lambda>r. r\<lparr>revoked_at := Some t, replaced_by := Some (cred_key_id (issued i))\<rparr>) (v_creds v @ [new_row i s w])"
      "cred_key_id (issued i) \<notin> cred_key_id ` set (v_creds v)" "cred_scopes (issued i) = cred_scopes old"
      "cred_prefixes (issued i) = cred_prefixes old" "expires_at (issued i) = expires_at old" "cred_machine_id (issued i) = None"
    using rotate_run [OF assms(2,3), unfolded sum.case] by (elim exE conjE) (rule that; assumption)
  have "issued_ok S (insert (token i) T, v_creds v1)"
    using key_steps_ok [OF rotate_steps [OF assms(2,3)] assms(1)] by simp
  then have d: "distinct (map cred_key_id (v_creds v1))" by (simp add: issued_ok_def)
  let ?n = "new_row i s w"
  have n: "?n \<in> set (v_creds v1)" using r(2,3,5) unfolding r(4) set_update_where by force
  have k: "keyed S (token i) ?n" "grant_ok (granted ?n)" "revoked_at ?n = None"
    using r(1) by (simp_all add: prepared_def keyed_def new_row_def [symmetric])
  have g: "granted ?n = \<lparr>grant_principal_id = cred_key_id (issued i),
        grant_key_id = cred_key_id (issued i), grant_scopes = cred_scopes old, grant_prefixes = cred_prefixes old,
        grant_machine_id = None\<rparr>" using r(6,7,9) by (simp add: granted_def)
  have "verify E S (token i) (Some tm) v1 = (Inr (Some (granted ?n)), v1)"
    if "case expires_at old of None \<Rightarrow> True | Some x \<Rightarrow> tm < x" for tm
  proof -
    have "usable_at tm ?n" using that k(3) r(8) by (simp add: usable_at_def)
    then show ?thesis using verify_Some [OF d] n k(1,2) by blast
  qed
  then show "\<exists>old \<in> set (v_creds v). cred_key_id old = kid \<and> (\<forall>tm. (case expires_at old of None \<Rightarrow> True | Some x \<Rightarrow> tm < x) \<longrightarrow>
      verify E S (token i) (Some tm) v1 = (Inr (Some \<lparr>grant_principal_id = cred_key_id (issued i),
        grant_key_id = cred_key_id (issued i), grant_scopes = cred_scopes old, grant_prefixes = cred_prefixes old,
        grant_machine_id = None\<rparr>), v1))"
    unfolding g using r(2,3) by blast
qed

lemma rotation_witness:
  "\<exists>i v1 v3. demo_rotated_run = Some (Inr i, v1) \<and> verify demo_env demo_secrets demo_token None v1 = (Inr None, v3) \<and>
     fst (verify demo_env demo_secrets (token i) (Some 100) v1) \<noteq> Inr None"
proof -
  define v1 where "v1 = after demo_vault demo_rotated_run"
  obtain i where i: "demo_rotated_run = Some (Inr i, v1)"
    using after_run [OF demo_rotate, of demo_vault] unfolding v1_def by blast
  have ok: "issued_ok demo_secrets ({demo_token}, v_creds demo_issued_vault)"
    using demo_issued history_keys_ok [OF demo_fresh _ demo_secrets_ok] by blast
  have tok: "parse_token demo_token = Some (demo_key 0)" by code_simp
  have e: "list_all (\<lambda>r. expires_at r = None) (v_creds demo_issued_vault)" by code_simp
  note th = rotation_replaces [OF ok i [unfolded demo_rotated_run_def] demo_secrets_ok]
  from th [THEN conjunct1] tok obtain v3 where "verify demo_env demo_secrets demo_token None v1 = (Inr None, v3)" by blast
  moreover from th [THEN conjunct2] e have "fst (verify demo_env demo_secrets (token i) (Some 100) v1) \<noteq> Inr None"
    by (auto simp: list_all_iff)
  ultimately show ?thesis using i by blast
qed

text \<open>
  C35. A registration leaves its machine with one credential: of all tokens that were handed out, the
  new one alone is accepted for the machine, with the scopes and the prefix of a machine, and the
  catalogue binds the machine to it.
\<close>

theorem registration_leaves_one_credential:
  assumes "fresh_vault v0" "vault_steps E S ({}, v0) (T, v)" "secrets_ok S" "\<And>s. inj (\<lambda>data. s_scrypt S data s)"
    and "catalog_ok (w_db (v_world v))" "register fuel E S user p rq v = Some (Inr res, v1)"
  shows "(verify E S t (Some tm) v1 = (Inr (Some g), v1) \<and> grant_machine_id g = Some (machine_id (rr_machine res)) \<longleftrightarrow>
      t = rr_token res \<and> g = \<lparr>grant_principal_id = rr_key_id res, grant_key_id = rr_key_id res,
        grant_scopes = {SUBMIT, STATUS_WRITE}, grant_prefixes = [lit ''machines/'' @ machine_key (rr_machine res)],
        grant_machine_id = Some (machine_id (rr_machine res))\<rparr>) \<and>
    machine_of user (machine_id (rr_machine res)) (w_db (v_world v1)) = Inr (rr_machine res) \<and>
    credential_key_id (rr_machine res) = Some (rr_key_id res)"
proof -
  have h: "vault_steps E S ({}, v0) (insert (rr_token res) T, v1)"
    using vault_step.registered [OF assms(6), of T] assms(2) by (simp add: handing_def)
  have ok: "issued_ok S (T, v_creds v)" "issued_ok S (insert (rr_token res) T, v_creds v1)"
    using history_keys_ok [OF assms(1) _ assms(3)] assms(2) h by blast+
  then have d: "distinct (map cred_key_id (v_creds v1))" by (simp add: issued_ok_def)
  let ?mid = "machine_id (rr_machine res)"
  note sole = register_sole [OF assms(6,3) ok(1) assms(5)]
  obtain r where r: "r \<in> set (v_creds v1)" "cred_key_id r = rr_key_id res" "revoked_at r = None" "expires_at r = None"
      "keyed S (rr_token res) r" "granted r = \<lparr>grant_principal_id = rr_key_id res, grant_key_id = rr_key_id res,
        grant_scopes = {SUBMIT, STATUS_WRITE}, grant_prefixes = [lit ''machines/'' @ machine_key (rr_machine res)],
        grant_machine_id = Some ?mid\<rparr>" using sole by blast
  have "t = rr_token res \<and> g = granted r"
    if a: "verify E S t (Some tm) v1 = (Inr (Some g), v1)" "grant_machine_id g = Some ?mid"
  proof -
    obtain q where q: "q \<in> set (v_creds v1)" "keyed S t q" "usable_at tm q" "g = granted q" using a(1) verify_Some [OF d] by blast
    have "cred_machine_id q = Some ?mid" "revoked_at q = None" using a(2) q(3,4) by (simp_all add: granted_def usable_at_def)
    then have "cred_key_id q = rr_key_id res" using sole q(1) by blast
    then have "q = r" using same_key [OF d q(1) r(1)] r(2) by simp
    then show ?thesis using q(2,4) keyed_unique [OF assms(4) _ r(5)] by blast
  qed
  moreover have "verify E S (rr_token res) (Some tm) v1 = (Inr (Some (granted r)), v1)"
  proof -
    have "usable_at tm r" "grant_ok (granted r)" using r(1,3,4) ok(2) by (auto simp: usable_at_def issued_ok_def row_ok_def)
    then show ?thesis using verify_Some [OF d] r(1,5) by blast
  qed
  ultimately show ?thesis using sole r(6) by auto
qed

lemma registration_credential_witness:
  "\<exists>g. verify demo_env demo_secrets demo_token (Some 9) demo_registered_vault = (Inr (Some g), demo_registered_vault) \<and>
     grant_scopes g = {SUBMIT, STATUS_WRITE}"
proof -
  obtain res where res: "demo_registered_run = Some (Inr res, demo_registered_vault)" "rr_token res = demo_token"
    using demo_registered_steps by blast
  have "catalog_ok (w_db (v_world demo_vault))"
    by (simp add: demo_vault_def catalog_ok_def machines_distinct_def folders_distinct_def new_world_def empty_db_def)
  from registration_leaves_one_credential [OF demo_fresh rtranclp.rtrancl_refl demo_secrets_ok demo_scrypt_inj this
      res(1) [unfolded demo_registered_run_def], THEN conjunct1, THEN iffD2] res(2)
  show ?thesis by fastforce
qed

text \<open>
  C36. An enrollment registers one machine: every later registration with it, whatever happens in
  between, returns the machine it was first used for.
\<close>

theorem enrollment_registers_one_machine:
  assumes "fresh_vault v0" "vault_steps E S ({}, v0) (T, v)" "secrets_ok S"
    and "register fuel E S user p rq v = Some (Inr res, v1)" "ADMIN \<notin> scopes p" "key_id p = Some k"
    and "vault_steps E S (insert (rr_token res) T, v1) (T', v2)"
    and "register fuel' E S user' p' rq' v2 = Some (Inr res', v3)" "ADMIN \<notin> scopes p'" "key_id p' = Some k"
  shows "machine_id (rr_machine res') = machine_id (rr_machine res)"
proof -
  have d: "distinct (map use_key_id (v_uses v))"
    using vault_steps_uses [OF assms(2,3)] assms(1) by (simp add: uses_keep_def fresh_vault_def)
  then have d1: "distinct (map use_key_id (v_uses v1))" using register_uses [OF assms(4,3)] by (simp add: uses_keep_def)
  then have d2: "distinct (map use_key_id (v_uses v2))" using vault_steps_uses [OF assms(7,3)] by (simp add: uses_keep_def)
  then have d3: "distinct (map use_key_id (v_uses v3))" using register_uses [OF assms(8,3)] by (simp add: uses_keep_def)
  have "spent_on k (machine_id (rr_machine res)) (v_uses v1)" by (rule register_spends [OF assms(4,3,5,6) d])
  then have "spent_on k (machine_id (rr_machine res)) (v_uses v3)"
    using vault_steps_uses [OF assms(7,3)] register_uses [OF assms(8,3)] d1 d2 by (simp add: uses_keep_def)
  moreover have "spent_on k (machine_id (rr_machine res')) (v_uses v3)" by (rule register_spends [OF assms(8,3,9,10) d2])
  ultimately show ?thesis using spent_once [OF d3] by blast
qed

lemma enrollment_witness:
  "\<exists>res res' v3. demo_registered_run = Some (Inr res, demo_registered_vault) \<and> demo_again_run = Some (Inr res', v3) \<and>
     machine_id (rr_machine res') = machine_id (rr_machine res)"
proof -
  obtain res where res: "demo_registered_run = Some (Inr res, demo_registered_vault)" using demo_registered_steps by blast
  define v3 where "v3 = after demo_vault demo_again_run"
  obtain res' where res': "demo_again_run = Some (Inr res', v3)"
    using after_run [OF demo_again, of demo_vault] unfolding v3_def by blast
  have p: "ADMIN \<notin> scopes demo_enroller" "key_id demo_enroller = Some (lit ''e'')" by (simp_all add: demo_enroller_def)
  from enrollment_registers_one_machine [OF demo_fresh rtranclp.rtrancl_refl demo_secrets_ok
      res [unfolded demo_registered_run_def] p rtranclp.rtrancl_refl res' [unfolded demo_again_run_def] p] res res'
  show ?thesis by blast
qed

text \<open>
  C37. A confirmed rotation replaces the key the catalogue was bound to: the catalogue binds the
  machine to the replacement, which is not revoked, and the token of the former key is refused in every
  later state.
\<close>

theorem confirmed_rotation_replaces:
  assumes "issued_ok S (T, v_creds v)" "secrets_ok S" "confirm_rotation E user p mid kid v = (Inr m, v1)"
    and "machine_of user mid (w_db (v_world v)) = Inr m0" "credential_key_id m0 = Some old" "old \<noteq> kid"
  shows "machine_of user mid (w_db (v_world v1)) = Inr m \<and> credential_key_id m = Some kid \<and>
    (\<exists>r \<in> set (v_creds v1). cred_key_id r = kid \<and> revoked_at r = None \<and> rotation_from r = Some old) \<and>
    (\<forall>T' v2 t at_time. vault_steps E S (T, v1) (T', v2) \<longrightarrow> parse_token t = Some old \<longrightarrow>
        (\<exists>v3. verify E S t at_time v2 = (Inr None, v3)))"
proof -
  have c: "machine_of user mid (w_db (v_world v1)) = Inr m" "credential_key_id m = Some kid" "rotated_to old kid v1"
    using confirm_rotation_run [OF assms(3,1)] assms(4-6) by auto
  have "\<exists>v3. verify E S t at_time v2 = (Inr None, v3)"
    if h: "vault_steps E S (T, v1) (T', v2)" "parse_token t = Some old" for T' v2 t at_time
  proof -
    have "dead old (v_creds v2)" using history_dead [OF h(1) assms(2)] c(3) by (simp add: rotated_to_def)
    from dead_refused [OF this h(2)] show ?thesis by blast
  qed
  then show ?thesis using c assms(6) unfolding rotated_to_def by blast
qed

lemma confirmed_rotation_witness:
  "\<exists>m v3. demo_confirmed = (Inr m, snd demo_confirmed) \<and> credential_key_id m = Some (demo_key 2) \<and>
     verify demo_env demo_secrets demo_token None (snd demo_confirmed) = (Inr None, v3)"
proof -
  obtain m where m: "demo_confirmed = (Inr m, snd demo_confirmed)"
    using demo_confirm by (metis map_sum_Inr prod.collapse)
  obtain pc where pc: "demo_prepared_run = Some (Inr pc, demo_prepared_vault)"
    using after_run [OF demo_prepare, of demo_vault] unfolding demo_prepared_vault_def by blast
  obtain T where T: "vault_steps demo_env demo_secrets ({}, demo_vault) (T, demo_prepared_vault)"
    using demo_registered_steps vault_step.prepared [OF pc [unfolded demo_prepared_run_def]] by (meson rtranclp.rtrancl_into_rtrancl)
  have ok: "issued_ok demo_secrets (T, v_creds demo_prepared_vault)" by (rule history_keys_ok [OF demo_fresh T demo_secrets_ok])
  have "map_sum id credential_key_id (machine_of (lit ''u'') (lit ''0'') (w_db (v_world demo_prepared_vault))) = Inr (Some (demo_key 0))"
    by code_simp
  then obtain m0 where m0: "machine_of (lit ''u'') (lit ''0'') (w_db (v_world demo_prepared_vault)) = Inr m0"
      "credential_key_id m0 = Some (demo_key 0)" by (auto simp: map_sum_Inr)
  have k: "demo_key 0 \<noteq> demo_key 2" "parse_token demo_token = Some (demo_key 0)" by code_simp+
  note th = confirmed_rotation_replaces [OF ok demo_secrets_ok m [unfolded demo_confirmed_def] m0 k(1), folded demo_confirmed_def]
  have c: "credential_key_id m = Some (demo_key 2)" using th by blast
  obtain v3 where "verify demo_env demo_secrets demo_token None (snd demo_confirmed) = (Inr None, v3)"
    using th k(2) by blast
  then show ?thesis using m c by blast
qed

section \<open>Requests\<close>

text \<open>
  C38. In bearer mode a request is handled only for a caller it can be traced to: without a token that
  was handed out and whose credential is neither revoked nor expired the answer is 401, and with the
  credential of a machine that the catalogue does not bind to it, it is 403 (or 500, where the row is
  corrupt); in either case no table and no file has changed. The one request admitted without a binding
  is the DELETE of the machine's own credential, so that it can be repeated after the binding was cleared.
\<close>

theorem requests_need_a_current_credential:
  assumes "fresh_vault v0" "vault_steps E S ({}, v0) (T, v)" "secrets_ok S" "\<And>s. inj (\<lambda>data. s_scrypt S data s)"
    and "respond fuel E S G BEARER rq v = Some (r, v')"
  shows "((\<forall>row. \<not> accepted E T v rq row) \<longrightarrow> status r = 401 \<and> untouched v v') \<and>
    (\<forall>row. accepted E T v rq row \<longrightarrow> \<not> current v rq row \<longrightarrow> status r \<in> {403, 500} \<and> untouched v v')"
  by (rule respond_gate [OF assms])

lemma requests_need_a_current_credential_witness:
  "\<exists>r v'. respond 1 demo_env demo_secrets demo_searches BEARER (demo_http None Health) demo_issued_vault = Some (r, v') \<and>
     status r = 401 \<and> untouched demo_issued_vault v'"
proof -
  have "respond 1 demo_env demo_secrets demo_searches BEARER (demo_http None Health) demo_issued_vault \<noteq> None" by code_simp
  then obtain r v' where r: "respond 1 demo_env demo_secrets demo_searches BEARER (demo_http None Health) demo_issued_vault = Some (r, v')"
    by auto
  have "\<not> accepted demo_env {demo_token} demo_issued_vault (demo_http None Health) row" for row
    by (simp add: accepted_def demo_http_def bearer_token_def)
  then show ?thesis
    using requests_need_a_current_credential [OF demo_fresh _ demo_secrets_ok demo_scrypt_inj r] demo_issued r by blast
qed

text \<open>
  C39. What any request adds to the entries or changes in them lies in a prefix that is granted to its
  authenticated caller (any prefix, for an administrator), belongs to the caller's writer for that
  prefix, and the caller has the scope SUBMIT; and the prefixes of the server stay of that form, one for
  each writer and disjoint.
\<close>

theorem requests_write_within_grants:
  assumes "server_prefixes (w_db (v_world v))" "respond fuel E S G mode rq v = Some (r, v')"
  shows "server_prefixes (w_db (v_world v')) \<and>
    (\<forall>e \<in> set (entry_rows (w_db (v_world v'))) - set (entry_rows (w_db (v_world v))).
      \<exists>p v1. authenticate E S mode (h_authorization rq) v = (Inr (Some p), v1) \<and>
        (ADMIN \<in> scopes p \<or> SUBMIT \<in> scopes p) \<and> confined p e)"
  by (rule respond_confined [OF assms])

lemma requests_write_within_grants_witness:
  "\<exists>r v'. respond 1 demo_env demo_secrets demo_searches BEARER (demo_http (Some demo_token) (Submit (Some (demo_body ''notes'' ''notes/a''))))
      demo_issued_vault = Some (r, v') \<and> status r = 200 \<and> map entry_path (entry_rows (w_db (v_world v'))) = [lit ''notes/a''] \<and>
     server_prefixes (w_db (v_world v'))"
proof -
  let ?rq = "demo_http (Some demo_token) (Submit (Some (demo_body ''notes'' ''notes/a'')))"
  have run: "map_option (\<lambda>(r, v'). (status r, map entry_path (entry_rows (w_db (v_world v')))))
      (respond 1 demo_env demo_secrets demo_searches BEARER ?rq demo_issued_vault) = Some (200, [lit ''notes/a''])" by code_simp
  then obtain r v' where r: "respond 1 demo_env demo_secrets demo_searches BEARER ?rq demo_issued_vault = Some (r, v')"
      "status r = 200" "map entry_path (entry_rows (w_db (v_world v'))) = [lit ''notes/a'']" by auto
  have "prefix_rows (w_db (v_world demo_issued_vault)) = []" by code_simp
  then have s: "server_prefixes (w_db (v_world demo_issued_vault))" by (simp add: server_prefixes_def writers_apart_def)
  have "server_prefixes (w_db (v_world v'))" using requests_write_within_grants [OF s r(1)] by (rule conjunct1)
  then show ?thesis using r by (intro exI [of _ r] exI [of _ v'] conjI)
qed

text \<open>
  C40. A prefix a key has submitted to stays with that key: once the server has accepted a submission of
  one key, the submission of any other key with the same scopes and prefixes to that prefix, such as the
  key that replaces it in a rotation, is answered with 403 and writes no entry, now and in every later
  state that has kept the prefix. The documentation says otherwise: that a writer whose key was replaced
  logs in with the new key and goes on.
\<close>

theorem prefix_stays_with_its_first_key:
  assumes "server_prefixes (w_db (v_world v))" "submit_operations E old b v = (Inr s, v1)"
    and "set (prefix_rows (w_db (v_world v1))) \<subseteq> set (prefix_rows (w_db (v_world v2)))" "server_prefixes (w_db (v_world v2))"
    and "scopes p = scopes old" "prefixes p = prefixes old" "writer_base p \<noteq> writer_base old"
    and "58 \<notin> set (writer_base p)" "58 \<notin> set (writer_base old)" "sr_writer_prefix b' = sr_writer_prefix b"
  shows "\<exists>m v3. submit_operations E p b' v2 = (Inl (HTTPException 403 m), v3) \<and>
    entry_rows (w_db (v_world v3)) = entry_rows (w_db (v_world v2))"
  by (rule replaced_key_refused [OF assms])

lemma prefix_stays_witness:
  "\<exists>m v3. submit_operations demo_env (demo_machine_principal\<lparr>principal_id := demo_key 2, key_id := Some (demo_key 2)\<rparr>)
      (demo_body ''machines/laptop'' ''machines/laptop/b'') demo_rotated = (Inl (HTTPException 403 m), v3)"
proof -
  let ?body = "demo_body ''machines/laptop'' ''machines/laptop/a''"
  let ?p = "demo_machine_principal\<lparr>principal_id := demo_key 2, key_id := Some (demo_key 2)\<rparr>"
  obtain s where "fst (submit_operations demo_env demo_machine_principal ?body demo_prepared_vault) = Inr s"
    using demo_submit by (auto simp: map_sum_Inr)
  then have s: "submit_operations demo_env demo_machine_principal ?body demo_prepared_vault = (Inr s, demo_submitted)"
    by (simp add: demo_submitted_def prod_eq_iff)
  have v: "server_prefixes (w_db (v_world demo_prepared_vault))"
    using demo_prepared_prefixes by (simp add: server_prefixes_def writers_apart_def)
  have k: "writer_base ?p \<noteq> writer_base demo_machine_principal" "58 \<notin> set (writer_base ?p)" "58 \<notin> set (writer_base demo_machine_principal)"
    by code_simp+
  have w: "server_prefixes (w_db (v_world demo_submitted))"
    using submit_operations_confined [OF s v k(3)] by blast
  then have w2: "server_prefixes (w_db (v_world demo_rotated))" by (simp add: server_prefixes_def writers_apart_def demo_rotated_prefixes)
  show ?thesis
    using prefix_stays_with_its_first_key [OF v s _ w2 _ _ k, of "demo_body ''machines/laptop'' ''machines/laptop/b''"]
      demo_rotated_prefixes
    by (auto simp: demo_body_def)
qed

end
